(* ===== verification/Prelude.thy ===== *)
theory Prelude
  imports Main "HOL-Library.Word" "HOL-Library.Sublist" "HOL-Library.Char_ord"
    "HOL-Library.List_Lexorder" "HOL-Library.Product_Lexorder"
begin

text \<open>
  What the components of the model share: the Rust standard library as far as the source
  uses it.

  A Rust \<open>str\<close> is its UTF-8 bytes, so it is a \<open>string\<close> here (a list of 8-bit
  \<open>char\<close>s); \<open>len\<close>, offsets, slices and comparisons are then those of the code. A Rust
  \<open>char\<close> is the byte sequence that encodes it, and \<open>str_chars\<close> is \<open>str::chars\<close>.
  \<open>utf8_valid\<close> is what the type \<open>str\<close> guarantees of its bytes. The Unicode
  case tables of the standard library are the one thing that is not written out: every
  operation that lowercases takes them as the argument \<open>ul\<close>, which \<open>to_lowercase\<close>
  consults for a text with a byte outside ASCII only.
\<close>

named_theorems text_simps \<open>how searching, splitting and trimming compute\<close>
named_theorems utf8_intros \<open>operations that return valid UTF-8\<close>

unbundle bit_operations_syntax

type_synonym str = string
type_synonym rchar = string
type_synonym i64 = int
type_synonym usize = nat

subsection \<open>Orderings\<close>

datatype ordering = Less | Equal | Greater

definition cmp_of :: "'a::linorder \<Rightarrow> 'a \<Rightarrow> ordering" where
  "cmp_of x y = (if x < y then Less else if x = y then Equal else Greater)"

fun then_with :: "ordering \<Rightarrow> ordering \<Rightarrow> ordering" where
  "then_with Equal o2 = o2"
| "then_with Less _ = Less"
| "then_with Greater _ = Greater"

text \<open>\<open>Option\<close> orders \<open>None\<close> before every \<open>Some\<close>.\<close>

fun option_cmp :: "'a::linorder option \<Rightarrow> 'a option \<Rightarrow> ordering" where
  "option_cmp None None = Equal"
| "option_cmp None (Some _) = Less"
| "option_cmp (Some _) None = Greater"
| "option_cmp (Some x) (Some y) = cmp_of x y"

lemma cmp_of_simps [simp]:
  "cmp_of x y = Less \<longleftrightarrow> x < y"
  "cmp_of x y = Equal \<longleftrightarrow> x = y"
  "cmp_of x y = Greater \<longleftrightarrow> y < x"
  by (auto simp: cmp_of_def)

lemma then_with_Equal_iff [simp]: "then_with a b = Equal \<longleftrightarrow> a = Equal \<and> b = Equal"
  by (cases a) auto

lemma cmp_of_pair: "then_with (cmp_of a c) (cmp_of b d) = cmp_of (a, b) (c, d)"
  by (cases "cmp_of a c") (auto simp: cmp_of_def split: if_splits)

subsection \<open>64-bit signed integers\<close>

definition i64_max :: i64 where "i64_max = 2 ^ 63 - 1"
definition i64_min :: i64 where "i64_min = - (2 ^ 63)"

definition is_i64 :: "int \<Rightarrow> bool" where
  "is_i64 n \<longleftrightarrow> i64_min \<le> n \<and> n \<le> i64_max"

text \<open>The arithmetic of a release build wraps; \<open>saturating_add\<close> and its kin stop at the ends.\<close>

definition wrap_i64 :: "int \<Rightarrow> i64" where
  "wrap_i64 n = (n + 2 ^ 63) mod 2 ^ 64 - 2 ^ 63"

definition clamp_i64 :: "int \<Rightarrow> i64" where
  "clamp_i64 n = (if n < i64_min then i64_min else if i64_max < n then i64_max else n)"

lemma wrap_i64_id: "is_i64 n \<Longrightarrow> wrap_i64 n = n"
  by (simp add: wrap_i64_def is_i64_def i64_min_def i64_max_def)

lemma clamp_i64_range: "is_i64 (clamp_i64 n)"
  by (auto simp: clamp_i64_def is_i64_def i64_min_def i64_max_def)

lemma clamp_i64_id [simp]: "is_i64 n \<Longrightarrow> clamp_i64 n = n"
  by (auto simp: clamp_i64_def is_i64_def)

lemma clamp_i64_mono: "m \<le> n \<Longrightarrow> clamp_i64 m \<le> clamp_i64 n"
  by (auto simp: clamp_i64_def i64_min_def i64_max_def)

subsection \<open>Searching a text\<close>

text \<open>
  \<open>str_find needle hay\<close> is \<open>hay.find(needle)\<close>: the first byte offset at which
  \<open>needle\<close> occurs. \<open>prefix\<close> is \<open>starts_with\<close> and \<open>suffix\<close> is \<open>ends_with\<close>.
\<close>

fun str_find :: "'a list \<Rightarrow> 'a list \<Rightarrow> nat option" where
  "str_find needle hay =
     (if prefix needle hay then Some 0
      else case hay of [] \<Rightarrow> None | _ # rest \<Rightarrow> map_option Suc (str_find needle rest))"

declare str_find.simps [simp del]

definition contains :: "'a list \<Rightarrow> 'a list \<Rightarrow> bool" where
  "contains hay needle \<longleftrightarrow> str_find needle hay \<noteq> None"

definition occurs_at :: "'a list \<Rightarrow> 'a list \<Rightarrow> nat \<Rightarrow> bool" where
  "occurs_at needle hay i \<longleftrightarrow> i \<le> length hay \<and> prefix needle (drop i hay)"

lemma str_find_Some:
  "str_find needle hay = Some i \<longleftrightarrow>
     occurs_at needle hay i \<and> (\<forall>j<i. \<not> occurs_at needle hay j)"
proof (induction needle hay arbitrary: i rule: str_find.induct)
  case (1 needle hay)
  show ?case
  proof (cases "prefix needle hay")
    case True
    then have "occurs_at needle hay 0" by (simp add: occurs_at_def)
    then show ?thesis
      using True by (subst str_find.simps) (auto dest: spec [of _ 0])
  next
    case False
    then have no0: "\<not> occurs_at needle hay 0" by (simp add: occurs_at_def)
    show ?thesis
    proof (cases hay)
      case Nil
      then show ?thesis using False by (subst str_find.simps) (auto simp: occurs_at_def)
    next
      case (Cons c rest)
      have shift: "occurs_at needle hay (Suc k) \<longleftrightarrow> occurs_at needle rest k" for k
        by (simp add: occurs_at_def Cons)
      have "str_find needle hay = map_option Suc (str_find needle rest)"
        using False Cons by (subst str_find.simps) simp
      moreover have "str_find needle rest = Some k \<longleftrightarrow>
          occurs_at needle rest k \<and> (\<forall>j<k. \<not> occurs_at needle rest j)" for k
        using "1.IH" [OF False Cons] .
      ultimately show ?thesis
        using no0 by (cases i) (auto simp: shift less_Suc_eq_0_disj)
    qed
  qed
qed

lemma str_find_None: "str_find needle hay = None \<longleftrightarrow> (\<forall>i. \<not> occurs_at needle hay i)"
proof
  assume none: "str_find needle hay = None"
  show "\<forall>i. \<not> occurs_at needle hay i"
  proof (rule ccontr)
    assume "\<not> (\<forall>i. \<not> occurs_at needle hay i)"
    then have ex: "\<exists>i. occurs_at needle hay i" by simp
    define i where "i = (LEAST i. occurs_at needle hay i)"
    have "occurs_at needle hay i" unfolding i_def using ex by (rule LeastI_ex)
    moreover have "\<forall>j<i. \<not> occurs_at needle hay j"
      unfolding i_def using not_less_Least by blast
    ultimately have "str_find needle hay = Some i" by (simp add: str_find_Some)
    with none show False by simp
  qed
next
  assume "\<forall>i. \<not> occurs_at needle hay i"
  then show "str_find needle hay = None"
    by (cases "str_find needle hay") (auto simp: str_find_Some)
qed

lemma str_find_eqI:
  assumes "occurs_at needle hay i" and "\<And>j. j < i \<Longrightarrow> \<not> occurs_at needle hay j"
  shows "str_find needle hay = Some i"
  using assms by (simp add: str_find_Some)

lemma occurs_at_bound: "occurs_at needle hay i \<Longrightarrow> i + length needle \<le> length hay"
  by (auto simp: occurs_at_def dest: prefix_length_le)

lemma occurs_at_nth:
  "occurs_at needle hay i \<longleftrightarrow>
     i + length needle \<le> length hay \<and> (\<forall>k<length needle. hay ! (i + k) = needle ! k)"
  (is "?lhs \<longleftrightarrow> ?rhs")
proof
  assume ?lhs
  then obtain zs where zs: "drop i hay = needle @ zs" and i: "i \<le> length hay"
    by (auto simp: occurs_at_def prefix_def)
  have "hay ! (i + k) = needle ! k" if "k < length needle" for k
  proof -
    have "hay ! (i + k) = drop i hay ! k" using i by simp
    with zs that show ?thesis by (simp add: nth_append)
  qed
  then show ?rhs using occurs_at_bound [OF \<open>?lhs\<close>] by simp
next
  assume r: ?rhs
  then have "take (length needle) (drop i hay) = needle"
    by (intro nth_equalityI) auto
  then have "prefix needle (drop i hay)" by (metis take_is_prefix)
  then show ?lhs using r by (simp add: occurs_at_def)
qed

lemma occurs_at_take:
  "occurs_at needle hay i \<longleftrightarrow>
     i + length needle \<le> length hay \<and> take (length needle) (drop i hay) = needle"
proof
  assume o: "occurs_at needle hay i"
  then have "prefix needle (drop i hay)" by (simp add: occurs_at_def)
  then show "i + length needle \<le> length hay \<and> take (length needle) (drop i hay) = needle"
    using occurs_at_bound [OF o] by (auto simp: prefix_def)
next
  assume t: "i + length needle \<le> length hay \<and> take (length needle) (drop i hay) = needle"
  then have "prefix needle (drop i hay)" by (metis take_is_prefix)
  then show "occurs_at needle hay i" using t by (simp add: occurs_at_def)
qed

lemma contains_iff: "contains hay needle \<longleftrightarrow> (\<exists>i. occurs_at needle hay i)"
  by (cases "str_find needle hay") (auto simp: contains_def str_find_None str_find_Some)

lemma contains_append: "contains hay needle \<longleftrightarrow> (\<exists>us vs. hay = us @ needle @ vs)"
proof
  assume "contains hay needle"
  then obtain i where "occurs_at needle hay i" by (auto simp: contains_iff)
  then obtain vs where "drop i hay = needle @ vs" by (auto simp: occurs_at_def prefix_def)
  then have "hay = take i hay @ needle @ vs" by (metis append_take_drop_id)
  then show "\<exists>us vs. hay = us @ needle @ vs" by blast
next
  assume "\<exists>us vs. hay = us @ needle @ vs"
  then obtain us vs where "hay = us @ needle @ vs" by blast
  then have "occurs_at needle hay (length us)" by (simp add: occurs_at_def)
  then show "contains hay needle" by (auto simp: contains_iff)
qed

lemma str_find_Nil [simp]: "str_find [] hay = Some 0"
  by (simp add: str_find.simps)

lemma prefix_imp_contains: "prefix needle hay \<Longrightarrow> contains hay needle"
  by (auto simp: contains_append prefix_def intro: exI [of _ "[]"])

end
