(* ===== verification/Rust_Text.thy ===== *)
theory Rust_Text
  imports Prelude
begin

text \<open>
  Rust texts: characters and their encoding, white space, splitting, trimming, lowercasing
  and the parsing and printing of integers.
\<close>

subsection \<open>Bytes and characters\<close>

definition byte :: "char \<Rightarrow> nat" where
  "byte c = of_char c"

definition is_ascii :: "char \<Rightarrow> bool" where
  "is_ascii c \<longleftrightarrow> byte c < 128"

lemma byte_eq_iff [simp]: "byte c = byte d \<longleftrightarrow> c = d"
  by (simp add: byte_def)

lemma byte_less [simp]: "byte c < 256"
  by (simp add: byte_def)

text \<open>The length of a character by its first byte.\<close>

definition utf8_len :: "char \<Rightarrow> nat" where
  "utf8_len c = (if byte c < 128 then 1 else if byte c < 224 then 2
                 else if byte c < 240 then 3 else 4)"

fun str_chars :: "str \<Rightarrow> rchar list" where
  "str_chars [] = []"
| "str_chars (c # cs) =
     (c # take (utf8_len c - 1) cs) # str_chars (drop (utf8_len c - 1) cs)"

definition is_continuation :: "char \<Rightarrow> bool" where
  "is_continuation c \<longleftrightarrow> 128 \<le> byte c \<and> byte c < 192"

text \<open>The well-formed byte sequences of the Unicode standard (its table 3-7).\<close>

fun rchar_valid :: "rchar \<Rightarrow> bool" where
  "rchar_valid [a] = (byte a < 128)"
| "rchar_valid [a, b] = (194 \<le> byte a \<and> byte a < 224 \<and> is_continuation b)"
| "rchar_valid [a, b, c] =
     (224 \<le> byte a \<and> byte a < 240 \<and> is_continuation b \<and> is_continuation c \<and>
      (byte a = 224 \<longrightarrow> 160 \<le> byte b) \<and> (byte a = 237 \<longrightarrow> byte b < 160))"
| "rchar_valid [a, b, c, d] =
     (240 \<le> byte a \<and> byte a < 245 \<and> is_continuation b \<and> is_continuation c \<and>
      is_continuation d \<and> (byte a = 240 \<longrightarrow> 144 \<le> byte b) \<and> (byte a = 244 \<longrightarrow> byte b < 144))"
| "rchar_valid _ = False"

definition utf8_valid :: "str \<Rightarrow> bool" where
  "utf8_valid s \<longleftrightarrow> list_all rchar_valid (str_chars s)"

lemma concat_str_chars [simp]: "concat (str_chars s) = s"
  by (induction s rule: str_chars.induct) auto

lemma utf8_valid_Nil [simp, utf8_intros]: "utf8_valid []"
  by (simp add: utf8_valid_def)

lemma utf8_valid_ascii_Cons [simp]: "byte c < 128 \<Longrightarrow> utf8_valid (c # s) = utf8_valid s"
  by (simp add: utf8_valid_def utf8_len_def)

lemma utf8_valid_ascii: "list_all is_ascii s \<Longrightarrow> utf8_valid s"
  by (induction s) (auto simp: is_ascii_def)

lemma rchar_valid_length: "rchar_valid (c # cs) \<Longrightarrow> length cs = utf8_len c - 1"
  by (cases "c # cs" rule: rchar_valid.cases) (auto simp: utf8_len_def)

lemma rchar_valid_tail: "rchar_valid (c # cs) \<Longrightarrow> d \<in> set cs \<Longrightarrow> 128 \<le> byte d"
  by (cases "c # cs" rule: rchar_valid.cases) (auto simp: is_continuation_def)

lemma utf8_valid_Cons:
  "utf8_valid (c # cs) \<longleftrightarrow>
     rchar_valid (c # take (utf8_len c - 1) cs) \<and> utf8_valid (drop (utf8_len c - 1) cs)"
  by (simp add: utf8_valid_def)

text \<open>Decoding distributes over concatenation, and a cut at an ASCII byte keeps validity.\<close>

lemma str_chars_append:
  "utf8_valid a \<Longrightarrow> str_chars (a @ b) = str_chars a @ str_chars b"
proof (induction a rule: str_chars.induct)
  case (2 c cs)
  let ?n = "utf8_len c - 1"
  from "2.prems" have v: "rchar_valid (c # take ?n cs)" and v': "utf8_valid (drop ?n cs)"
    by (simp_all add: utf8_valid_Cons)
  have "?n \<le> length cs" using rchar_valid_length [OF v] by simp
  then show ?case using "2.IH" [OF v'] by simp
qed simp

lemma utf8_valid_append: "utf8_valid a \<Longrightarrow> utf8_valid (a @ b) = utf8_valid b"
  by (simp add: utf8_valid_def str_chars_append)

lemma utf8_valid_appendI [utf8_intros]: "utf8_valid a \<Longrightarrow> utf8_valid b \<Longrightarrow> utf8_valid (a @ b)"
  by (simp add: utf8_valid_append)

lemma utf8_valid_cut:
  assumes "utf8_valid (a @ c # b)" and "byte c < 128"
  shows "utf8_valid a" and "utf8_valid b"
proof -
  have "utf8_valid a \<and> utf8_valid b"
    using assms(1)
  proof (induction a rule: str_chars.induct)
    case 1
    then show ?case using assms(2) by simp
  next
    case (2 d ds)
    let ?n = "utf8_len d - 1"
    have v: "rchar_valid (d # take ?n (ds @ c # b))"
      and v': "utf8_valid (drop ?n (ds @ c # b))"
      using "2.prems" by (simp_all add: utf8_valid_Cons)
    have n: "?n \<le> length ds"
    proof (rule ccontr)
      assume "\<not> ?n \<le> length ds"
      then have "c \<in> set (take ?n (ds @ c # b))"
        by (cases "?n - length ds") auto
      with rchar_valid_tail [OF v] assms(2) show False by fastforce
    qed
    with v' have "utf8_valid (drop ?n ds @ c # b)" by simp
    with "2.IH" have "utf8_valid (drop ?n ds) \<and> utf8_valid b" by blast
    with v n show ?case by (simp add: utf8_valid_Cons)
  qed
  then show "utf8_valid a" and "utf8_valid b" by simp_all
qed

lemma utf8_valid_single: "utf8_valid [c] \<Longrightarrow> byte c < 128"
  by (simp add: utf8_valid_def)

lemma utf8_valid_concat: "(\<And>s. s \<in> set ss \<Longrightarrow> utf8_valid s) \<Longrightarrow> utf8_valid (concat ss)"
  by (induction ss) (auto intro: utf8_intros)

lemma utf8_valid_char: "rchar_valid c \<Longrightarrow> str_chars c = [c] \<and> utf8_valid c"
proof (cases c)
  case (Cons x xs)
  assume v: "rchar_valid c"
  then have "length xs = utf8_len x - 1" using rchar_valid_length Cons by blast
  with v Cons show ?thesis by (simp add: utf8_valid_def)
qed simp

lemma str_chars_concat:
  "list_all rchar_valid cs \<Longrightarrow> str_chars (concat cs) = cs \<and> utf8_valid (concat cs)"
  by (induction cs) (auto simp: str_chars_append utf8_valid_char utf8_valid_append)

subsection \<open>White space and trimming\<close>

text \<open>\<open>char::is_whitespace\<close>: the code points with the property White\_Space, encoded.\<close>

definition is_whitespace :: "rchar \<Rightarrow> bool" where
  "is_whitespace ch \<longleftrightarrow>
     (case ch of
        [a] \<Rightarrow> 9 \<le> byte a \<and> byte a \<le> 13 \<or> byte a = 32
      | [a, b] \<Rightarrow> byte a = 194 \<and> (byte b = 133 \<or> byte b = 160)
      | [a, b, c] \<Rightarrow>
          byte a = 225 \<and> byte b = 154 \<and> byte c = 128
          \<or> byte a = 226 \<and> byte b = 128 \<and>
             (128 \<le> byte c \<and> byte c \<le> 138 \<or> byte c = 168 \<or> byte c = 169 \<or> byte c = 175)
          \<or> byte a = 226 \<and> byte b = 129 \<and> byte c = 159
          \<or> byte a = 227 \<and> byte b = 128 \<and> byte c = 128
      | _ \<Rightarrow> False)"

definition trim_start_matches :: "(rchar \<Rightarrow> bool) \<Rightarrow> str \<Rightarrow> str" where
  "trim_start_matches p s = concat (dropWhile p (str_chars s))"

definition trim_end_matches :: "(rchar \<Rightarrow> bool) \<Rightarrow> str \<Rightarrow> str" where
  "trim_end_matches p s = concat (rev (dropWhile p (rev (str_chars s))))"

definition trim :: "str \<Rightarrow> str" where
  "trim s = trim_end_matches is_whitespace (trim_start_matches is_whitespace s)"

lemma list_all_dropWhile: "list_all q xs \<Longrightarrow> list_all q (dropWhile p xs)"
  by (auto simp: list_all_iff dest: set_dropWhileD)

lemma trim_start_valid [utf8_intros]: "utf8_valid s \<Longrightarrow> utf8_valid (trim_start_matches p s)"
  unfolding trim_start_matches_def
  by (rule str_chars_concat [THEN conjunct2]) (simp add: utf8_valid_def list_all_dropWhile)

lemma trim_end_valid [utf8_intros]: "utf8_valid s \<Longrightarrow> utf8_valid (trim_end_matches p s)"
  unfolding trim_end_matches_def
  by (rule str_chars_concat [THEN conjunct2])
     (simp add: utf8_valid_def list_all_dropWhile)

lemma trim_valid [utf8_intros]: "utf8_valid s \<Longrightarrow> utf8_valid (trim s)"
  unfolding trim_def by (intro utf8_intros)

subsection \<open>Splitting\<close>

text \<open>\<open>str::split\<close> at every byte that satisfies \<open>p\<close>; the source splits at ASCII bytes only.\<close>

fun split_on :: "(char \<Rightarrow> bool) \<Rightarrow> str \<Rightarrow> str list" where
  "split_on p [] = [[]]"
| "split_on p (c # s) =
     (if p c then [] # split_on p s
      else case split_on p s of [] \<Rightarrow> [[c]] | w # ws \<Rightarrow> (c # w) # ws)"

text \<open>\<open>str::split_once\<close> at the first \<open>c\<close>.\<close>

fun split_once :: "char \<Rightarrow> str \<Rightarrow> (str \<times> str) option" where
  "split_once c [] = None"
| "split_once c (x # s) =
     (if x = c then Some ([], s)
      else map_option (\<lambda>(l, r). (x # l, r)) (split_once c s))"

definition strip_prefix :: "str \<Rightarrow> str \<Rightarrow> str option" where
  "strip_prefix p s = (if prefix p s then Some (drop (length p) s) else None)"

lemma split_on_not_Nil [simp]: "split_on p s \<noteq> []"
  by (cases s) (auto split: list.splits)

lemma split_on_no_sep: "(\<And>c. c \<in> set s \<Longrightarrow> \<not> p c) \<Longrightarrow> split_on p s = [s]"
  by (induction s) (auto split: list.splits)

lemma split_on_append:
  "(\<And>c. c \<in> set w \<Longrightarrow> \<not> p c) \<Longrightarrow> p x \<Longrightarrow> split_on p (w @ x # s) = w # split_on p s"
  by (induction w) (auto split: list.splits)

lemma split_on_pieces: "w \<in> set (split_on p s) \<Longrightarrow> c \<in> set w \<Longrightarrow> \<not> p c \<and> c \<in> set s"
  by (induction s arbitrary: w) (fastforce split: if_splits list.splits)+

text \<open>Splitting as a loop over whole pieces, the shape most proofs use.\<close>

lemma split_on_unfold:
  "split_on p s =
     (case dropWhile (\<lambda>c. \<not> p c) s of
        [] \<Rightarrow> [s]
      | _ # rest \<Rightarrow> takeWhile (\<lambda>c. \<not> p c) s # split_on p rest)"
proof (cases "dropWhile (\<lambda>c. \<not> p c) s")
  case Nil
  then have "\<And>c. c \<in> set s \<Longrightarrow> \<not> p c" by (simp add: dropWhile_eq_Nil_conv)
  then have "split_on p s = [s]" by (rule split_on_no_sep)
  then show ?thesis unfolding Nil by simp
next
  case (Cons x rest)
  have x: "p x" using hd_dropWhile [of "\<lambda>c. \<not> p c" s] Cons by simp
  have s: "s = takeWhile (\<lambda>c. \<not> p c) s @ x # rest"
    using takeWhile_dropWhile_id [of "\<lambda>c. \<not> p c" s] Cons by simp
  have "split_on p s = takeWhile (\<lambda>c. \<not> p c) s # split_on p rest"
    by (subst s, rule split_on_append) (auto simp: x dest: set_takeWhileD)
  then show ?thesis using Cons by simp
qed

lemma split_on_induct [case_names whole piece]:
  assumes "\<And>s. (\<And>c. c \<in> set s \<Longrightarrow> \<not> p c) \<Longrightarrow> P s"
    and "\<And>w x s. (\<And>c. c \<in> set w \<Longrightarrow> \<not> p c) \<Longrightarrow> p x \<Longrightarrow> P s \<Longrightarrow> P (w @ x # s)"
  shows "P s"
proof (induction s rule: length_induct)
  case (1 s)
  show ?case
  proof (cases "dropWhile (\<lambda>c. \<not> p c) s")
    case Nil
    then show ?thesis by (auto intro: assms(1) simp: dropWhile_eq_Nil_conv)
  next
    case (Cons x rest)
    have s: "s = takeWhile (\<lambda>c. \<not> p c) s @ x # rest"
      using takeWhile_dropWhile_id [of "\<lambda>c. \<not> p c" s] Cons by simp
    have "p x" using hd_dropWhile [of "\<lambda>c. \<not> p c" s] Cons by simp
    moreover have "length rest < length s" by (subst s) simp
    then have "P rest" using 1 by blast
    ultimately show ?thesis
      by (subst s) (rule assms(2), auto dest: set_takeWhileD)
  qed
qed

lemma split_on_valid:
  assumes ascii: "\<And>c. p c \<Longrightarrow> byte c < 128"
  shows "utf8_valid s \<Longrightarrow> w \<in> set (split_on p s) \<Longrightarrow> utf8_valid w"
proof (induction s rule: split_on_induct [of p])
  case (whole s)
  then show ?case by (simp add: split_on_no_sep)
next
  case (piece v x s)
  have "utf8_valid v" "utf8_valid s"
    using utf8_valid_cut [OF piece.prems(1) ascii [OF piece.hyps(2)]] by simp_all
  with piece show ?case by (auto simp: split_on_append)
qed

lemma split_on_contains: "w \<in> set (split_on p s) \<Longrightarrow> contains s w"
proof (induction s rule: split_on_induct [of p])
  case (whole s)
  then show ?case by (simp add: split_on_no_sep prefix_imp_contains)
next
  case (piece v x s)
  then consider "w = v" | "contains s w" by (auto simp: split_on_append)
  then show ?case
  proof cases
    case 1
    then show ?thesis by (simp add: prefix_imp_contains)
  next
    case 2
    then obtain us vs where "s = us @ w @ vs" by (auto simp: contains_append)
    then have "v @ x # s = (v @ x # us) @ w @ vs" by simp
    then show ?thesis unfolding contains_append by blast
  qed
qed

lemma split_once_Some:
  "split_once c s = Some (l, r) \<longleftrightarrow> s = l @ c # r \<and> c \<notin> set l"
proof (induction s arbitrary: l)
  case (Cons x s)
  then show ?case by (cases l) auto
qed simp

lemma split_once_None: "split_once c s = None \<longleftrightarrow> c \<notin> set s"
  by (induction s) auto

subsection \<open>Lowercasing\<close>

definition ascii_lower :: "char \<Rightarrow> char" where
  "ascii_lower c = (if 65 \<le> byte c \<and> byte c \<le> 90 then char_of (byte c + 32) else c)"

definition to_lowercase :: "(str \<Rightarrow> str) \<Rightarrow> str \<Rightarrow> str" where
  "to_lowercase ul s = (if list_all is_ascii s then map ascii_lower s else ul s)"

definition eq_ignore_ascii_case :: "str \<Rightarrow> str \<Rightarrow> bool" where
  "eq_ignore_ascii_case a b \<longleftrightarrow> map ascii_lower a = map ascii_lower b"

lemma byte_char_of: "n < 256 \<Longrightarrow> byte (char_of n) = n"
  by (simp add: byte_def)

lemma ascii_lower_ascii: "is_ascii c \<Longrightarrow> is_ascii (ascii_lower c)"
  by (auto simp: ascii_lower_def is_ascii_def byte_char_of)

lemma ascii_lower_idem [simp]: "ascii_lower (ascii_lower c) = ascii_lower c"
  by (auto simp: ascii_lower_def byte_char_of)

lemma to_lowercase_valid [utf8_intros]:
  assumes "\<And>s. utf8_valid s \<Longrightarrow> utf8_valid (ul s)" and "utf8_valid s"
  shows "utf8_valid (to_lowercase ul s)"
proof (cases "list_all is_ascii s")
  case True
  then have "list_all is_ascii (map ascii_lower s)"
    by (simp add: list_all_iff ascii_lower_ascii)
  then show ?thesis using True by (simp add: to_lowercase_def utf8_valid_ascii)
qed (simp add: to_lowercase_def assms)

subsection \<open>Integers as texts\<close>

definition is_digit :: "char \<Rightarrow> bool" where
  "is_digit c \<longleftrightarrow> 48 \<le> byte c \<and> byte c \<le> 57"

definition digits_value :: "str \<Rightarrow> nat" where
  "digits_value s = foldl (\<lambda>n c. 10 * n + (byte c - 48)) 0 s"

definition parse_digits :: "str \<Rightarrow> nat option" where
  "parse_digits s = (if s \<noteq> [] \<and> list_all is_digit s then Some (digits_value s) else None)"

text \<open>\<open>str::parse::<i64>\<close> and \<open>str::parse::<usize>\<close> (of 64 bits): a sign, then digits in range.\<close>

definition parse_i64 :: "str \<Rightarrow> i64 option" where
  "parse_i64 s =
     (let (neg, ds) = (case s of
            c # rest \<Rightarrow> if c = CHR ''-'' then (True, rest)
                        else if c = CHR ''+'' then (False, rest) else (False, s)
          | [] \<Rightarrow> (False, s))
      in case parse_digits ds of
           None \<Rightarrow> None
         | Some n \<Rightarrow> (let v = (if neg then - int n else int n)
                      in if is_i64 v then Some v else None))"

definition parse_usize :: "str \<Rightarrow> usize option" where
  "parse_usize s =
     (let ds = (case s of c # rest \<Rightarrow> if c = CHR ''+'' then rest else s | [] \<Rightarrow> s)
      in case parse_digits ds of
           None \<Rightarrow> None
         | Some n \<Rightarrow> if n < 2 ^ 64 then Some n else None)"

fun nat_to_str :: "nat \<Rightarrow> str" where
  "nat_to_str n =
     (if n < 10 then [char_of (48 + n)] else nat_to_str (n div 10) @ [char_of (48 + n mod 10)])"

declare nat_to_str.simps [simp del]

definition int_to_str :: "int \<Rightarrow> str" where
  "int_to_str n = (if n < 0 then CHR ''-'' # nat_to_str (nat (- n)) else nat_to_str (nat n))"

lemma nat_to_str_digits: "list_all is_digit (nat_to_str n) \<and> nat_to_str n \<noteq> []"
proof (induction n rule: nat_to_str.induct)
  case (1 n)
  then show ?case
    by (subst (1 2) nat_to_str.simps) (auto simp: list_all_iff is_digit_def byte_char_of)
qed

lemma digits_value_nat_to_str: "digits_value (nat_to_str n) = n"
proof (induction n rule: nat_to_str.induct)
  case (1 n)
  then show ?case
    by (subst nat_to_str.simps) (auto simp: digits_value_def byte_char_of)
qed

lemma parse_digits_nat_to_str [simp]: "parse_digits (nat_to_str n) = Some n"
  using nat_to_str_digits [of n] by (simp add: parse_digits_def digits_value_nat_to_str)

lemma nat_to_str_hd: "nat_to_str n = c # s \<Longrightarrow> is_digit c"
  using nat_to_str_digits [of n] by simp

lemma parse_usize_nat_to_str: "n < 2 ^ 64 \<Longrightarrow> parse_usize (nat_to_str n) = Some n"
proof -
  obtain c cs where s: "nat_to_str n = c # cs" using nat_to_str_digits [of n] by (cases "nat_to_str n") auto
  then have "c \<noteq> CHR ''+''" using nat_to_str_hd [OF s] by (auto simp: is_digit_def byte_def)
  moreover assume "n < 2 ^ 64"
  ultimately show ?thesis using s parse_digits_nat_to_str [of n] by (simp add: parse_usize_def)
qed

lemma parse_i64_int_to_str: "is_i64 n \<Longrightarrow> parse_i64 (int_to_str n) = Some n"
proof (cases "n < 0")
  case True
  assume "is_i64 n"
  with True show ?thesis by (simp add: parse_i64_def int_to_str_def)
next
  case False
  assume i: "is_i64 n"
  obtain c s where cs: "nat_to_str (nat n) = c # s"
    using nat_to_str_digits [of "nat n"] by (cases "nat_to_str (nat n)") auto
  have "is_digit c" using cs by (rule nat_to_str_hd)
  then have "c \<noteq> CHR ''-''" "c \<noteq> CHR ''+''" by (auto simp: is_digit_def byte_def)
  then show ?thesis
    using False i parse_digits_nat_to_str [of "nat n"]
    by (simp add: parse_i64_def int_to_str_def cs)
qed

lemma parse_i64_range: "parse_i64 s = Some n \<Longrightarrow> is_i64 n"
  by (auto simp: parse_i64_def Let_def split: option.splits if_splits prod.splits)

end
