(* ===== verification/Rust_Path.thy ===== *)
theory Rust_Path
  imports Rust_Text
begin

text \<open>
  \<open>std::path::Path\<close> on Unix, as far as the source uses it: a path is its bytes, and
  \<open>components\<close> is the iterator of that name (a \<open>.\<close> counts only at the very start of a
  relative path, and repeated separators count once).
\<close>

datatype path_component = RootDir | CurDir | ParentDir | Normal str

definition is_sep :: "char \<Rightarrow> bool" where
  "is_sep c \<longleftrightarrow> c = CHR ''/''"

definition segment_component :: "str \<Rightarrow> path_component option" where
  "segment_component s =
     (if s = [] \<or> s = ''.'' then None
      else if s = ''..'' then Some ParentDir else Some (Normal s))"

definition path_components :: "str \<Rightarrow> path_component list" where
  "path_components p =
     (let segs = split_on is_sep p
      in (if prefix ''/'' p then [RootDir] else if hd segs = ''.'' then [CurDir] else [])
         @ List.map_filter segment_component segs)"

definition file_name :: "str \<Rightarrow> str option" where
  "file_name p =
     (case rev (path_components p) of
        Normal n # _ \<Rightarrow> Some n
      | _ \<Rightarrow> None)"

text \<open>\<open>rsplit_file_at_dot\<close>: the part after the last dot, unless that dot is the first byte.\<close>

definition after_last_dot :: "str \<Rightarrow> str option" where
  "after_last_dot f =
     (if f = ''..'' \<or> CHR ''.'' \<notin> set f then None
      else let tail = rev (takeWhile (\<lambda>c. c \<noteq> CHR ''.'') (rev f))
           in if length tail + 1 = length f then None else Some tail)"

definition extension :: "str \<Rightarrow> str option" where
  "extension p = Option.bind (file_name p) after_last_dot"

text \<open>\<open>Path::join\<close> and \<open>Path::starts_with\<close> (by whole components).\<close>

definition path_join :: "str \<Rightarrow> str \<Rightarrow> str" where
  "path_join p q =
     (if prefix ''/'' q then q
      else if p = [] \<or> last p = CHR ''/'' then p @ q else p @ ''/'' @ q)"

definition path_starts_with :: "str \<Rightarrow> str \<Rightarrow> bool" where
  "path_starts_with p base \<longleftrightarrow> prefix (path_components base) (path_components p)"

lemma path_starts_with_refl [simp]: "path_starts_with p p"
  by (simp add: path_starts_with_def)

lemma path_starts_with_trans:
  "path_starts_with p q \<Longrightarrow> path_starts_with q r \<Longrightarrow> path_starts_with p r"
  unfolding path_starts_with_def by (metis prefix_order.trans)

text \<open>\<open>Path::parent\<close>: the shortest beginning of the text with all components but the last.\<close>

definition path_parent :: "str \<Rightarrow> str option" where
  "path_parent p =
     (let cs = path_components p
      in if cs = [] \<or> last cs = RootDir then None
         else List.find (\<lambda>q. path_components q = butlast cs) (prefixes p))"

lemma path_parent_components: "path_parent p = Some q \<Longrightarrow> path_components q = butlast (path_components p) \<and> path_components p \<noteq> []"
  by (auto simp: path_parent_def Let_def find_Some_iff split: if_split_asm)

end
