(* ===== verification/Model.thy ===== *)
theory Model
  imports Rust_Path
begin

text \<open>
  \<open>src/src/model.rs\<close>: file kinds, file records, and the query language. A query text is
  tokenized with quotes and backslash escapes, each token is an inline filter or a term, and
  \<open>SearchOptions::normalized_at\<close> moves the filters into the options. The clock of
  \<open>normalized\<close> is the argument \<open>now\<close>.
\<close>

subsection \<open>File kinds\<close>

datatype file_kind = File | Directory | Symlink | App | Other

fun kind_as_str :: "file_kind \<Rightarrow> str" where
  "kind_as_str File = ''file''"
| "kind_as_str Directory = ''dir''"
| "kind_as_str Symlink = ''symlink''"
| "kind_as_str App = ''app''"
| "kind_as_str Other = ''other''"

definition kind_alias :: "str \<Rightarrow> file_kind option" where
  "kind_alias s =
     (if s = ''file'' then Some File
      else if s \<in> set [''dir'', ''dirs'', ''directory'', ''directories'', ''folder'', ''folders'']
        then Some Directory
      else if s \<in> set [''symlink'', ''link''] then Some Symlink
      else if s = ''app'' then Some App
      else if s = ''other'' then Some Other
      else None)"

definition kind_parse :: "(str \<Rightarrow> str) \<Rightarrow> str \<Rightarrow> file_kind option" where
  "kind_parse ul value =
     (if value = ''file'' then Some File
      else if value = ''dir'' then Some Directory
      else if value = ''symlink'' then Some Symlink
      else if value = ''app'' then Some App
      else if value = ''other'' then Some Other
      else kind_alias (to_lowercase ul value))"

text \<open>The parser before the fast path for canonical spellings was added (kept in the tests).\<close>

definition previous_parse :: "(str \<Rightarrow> str) \<Rightarrow> str \<Rightarrow> file_kind option" where
  "previous_parse ul value = kind_alias (to_lowercase ul value)"

subsection \<open>File records\<close>

record file_record =
  fr_id :: i64
  fr_path :: str
  fr_path_lower :: str
  fr_basename :: str
  fr_basename_lower :: str
  fr_ext_lower :: "str option"
  fr_kind :: file_kind
  fr_size :: "i64 option"
  fr_mtime :: "i64 option"
  fr_ctime :: "i64 option"
  fr_dev :: "i64 option"
  fr_inode :: "i64 option"
  fr_indexed_at :: i64

definition file_record_new :: "(str \<Rightarrow> str) \<Rightarrow> str \<Rightarrow> file_kind \<Rightarrow> i64 \<Rightarrow> file_record" where
  "file_record_new ul p k indexed_at =
     (let basename = (case file_name p of Some n \<Rightarrow> n | None \<Rightarrow> p);
          ext = (case extension p of
                   None \<Rightarrow> None
                 | Some e \<Rightarrow> (let l = to_lowercase ul e in if l = [] then None else Some l))
      in \<lparr>fr_id = 0, fr_path = p, fr_path_lower = to_lowercase ul p, fr_basename = basename,
          fr_basename_lower = to_lowercase ul basename, fr_ext_lower = ext, fr_kind = k,
          fr_size = None, fr_mtime = None, fr_ctime = None, fr_dev = None, fr_inode = None,
          fr_indexed_at = indexed_at\<rparr>)"

record search_result =
  sr_record :: file_record
  sr_score :: i64

subsection \<open>Search options\<close>

datatype path_filter_mode = ContainsMode | ComponentMode

record path_filter =
  pf_value :: str
  pf_mode :: path_filter_mode

record search_options =
  query :: str
  limit :: usize
  ext :: "str option"
  ext_filters :: "str list"
  excluded_ext_filters :: "str list"
  kind :: "file_kind option"
  kind_filters :: "file_kind list"
  excluded_kind_filters :: "file_kind list"
  path_filters :: "path_filter list"
  excluded_path_filters :: "path_filter list"
  modified_after :: "i64 option"
  modified_before :: "i64 option"
  path_only :: bool
  fuzzy :: bool

definition default_options :: search_options where
  "default_options =
     \<lparr>query = [], limit = 0, ext = None, ext_filters = [], excluded_ext_filters = [],
      kind = None, kind_filters = [], excluded_kind_filters = [], path_filters = [],
      excluded_path_filters = [], modified_after = None, modified_before = None,
      path_only = False, fuzzy = False\<rparr>"

subsection \<open>Tokens\<close>

definition backslash :: rchar where "backslash = [CHR 0x5C]"
definition quotes :: "rchar list" where "quotes = [[CHR 0x27], [CHR 0x22]]"

text \<open>The loop of \<open>tokenize_query\<close>: the tokens so far, the current one, the open quote, the escape.\<close>

fun tokenize_loop ::
  "rchar list \<Rightarrow> str list \<Rightarrow> str \<Rightarrow> rchar option \<Rightarrow> bool \<Rightarrow> str list \<times> str \<times> bool" where
  "tokenize_loop [] tokens current quote escaped = (tokens, current, escaped)"
| "tokenize_loop (ch # rest) tokens current quote escaped =
     (if escaped then tokenize_loop rest tokens (current @ ch) quote False
      else if ch = backslash then tokenize_loop rest tokens current quote True
      else if ch \<in> set quotes \<and> quote = Some ch then tokenize_loop rest tokens current None False
      else if ch \<in> set quotes \<and> quote = None
        then tokenize_loop rest tokens current (Some ch) False
      else if is_whitespace ch \<and> quote = None
        then (if current \<noteq> [] then tokenize_loop rest (tokens @ [current]) [] quote False
              else tokenize_loop rest tokens current quote False)
      else tokenize_loop rest tokens (current @ ch) quote False)"

definition tokenize_query :: "str \<Rightarrow> str list" where
  "tokenize_query q =
     (let (tokens, current, escaped) = tokenize_loop (str_chars q) [] [] None False;
          current = (if escaped then current @ backslash else current)
      in if current \<noteq> [] then tokens @ [current] else tokens)"

subsection \<open>Inline filters\<close>

datatype inline_filter =
    ExtF "str list" | ExcludedExtF "str list"
  | KindF "file_kind list" | ExcludedKindF "file_kind list"
  | PathF path_filter | ExcludedPathF path_filter
  | ModifiedAfterF i64 | ModifiedBeforeF i64
  | NoFilter

definition split_filter_values :: "str \<Rightarrow> str list" where
  "split_filter_values value =
     filter (\<lambda>v. v \<noteq> []) (map trim (split_on (\<lambda>c. c = CHR ''|'' \<or> c = CHR '','') value))"

definition normalize_ext :: "(str \<Rightarrow> str) \<Rightarrow> str \<Rightarrow> str" where
  "normalize_ext ul value =
     to_lowercase ul (trim_start_matches (\<lambda>ch. ch = [CHR ''.'']) (trim value))"

definition push_unique :: "'a list \<Rightarrow> 'a \<Rightarrow> 'a list" where
  "push_unique values value = (if value \<in> set values then values else values @ [value])"

definition unit_seconds :: "str \<Rightarrow> i64 option" where
  "unit_seconds unit =
     (if unit \<in> set [''h'', ''hour'', ''hours''] then Some (60 * 60)
      else if unit \<in> set [[], ''d'', ''day'', ''days''] then Some (24 * 60 * 60)
      else if unit \<in> set [''w'', ''week'', ''weeks''] then Some (7 * 24 * 60 * 60)
      else if unit \<in> set [''mo'', ''month'', ''months''] then Some (30 * 24 * 60 * 60)
      else if unit \<in> set [''y'', ''year'', ''years''] then Some (365 * 24 * 60 * 60)
      else None)"

definition parse_relative_time :: "(str \<Rightarrow> str) \<Rightarrow> str \<Rightarrow> i64 \<Rightarrow> i64 option" where
  "parse_relative_time ul value now =
     (let value = to_lowercase ul (trim value);
          digits = takeWhile is_digit value
      in if digits = [] then None
         else case parse_i64 digits of
                None \<Rightarrow> None
              | Some count \<Rightarrow>
                  (case unit_seconds (trim (drop (length digits) value)) of
                     None \<Rightarrow> None
                   | Some seconds \<Rightarrow> Some (clamp_i64 (now - clamp_i64 (count * seconds)))))"

text \<open>The \<open>match\<close> on the lowercased key, for a nonempty trimmed value.\<close>

definition keyed_filter :: "(str \<Rightarrow> str) \<Rightarrow> bool \<Rightarrow> str \<Rightarrow> str \<Rightarrow> i64 \<Rightarrow> inline_filter" where
  "keyed_filter ul negated key value now =
     (if key \<in> set [''ext'', ''extension''] then
        (let exts = filter (\<lambda>v. v \<noteq> []) (map (normalize_ext ul) (split_filter_values value))
         in if exts = [] then NoFilter
            else if negated then ExcludedExtF exts else ExtF exts)
      else if key \<in> set [''kind'', ''type''] then
        (let kinds = List.map_filter (kind_parse ul) (split_filter_values value)
         in if kinds = [] then NoFilter
            else if negated then ExcludedKindF kinds else KindF kinds)
      else if key \<in> set [''path'', ''in''] then
        (let f = \<lparr>pf_value = to_lowercase ul value, pf_mode = ContainsMode\<rparr>
         in if negated then ExcludedPathF f else PathF f)
      else if key \<in> set [''part'', ''segment'', ''component'', ''parent''] then
        (let f = \<lparr>pf_value = to_lowercase ul value, pf_mode = ComponentMode\<rparr>
         in if negated then ExcludedPathF f else PathF f)
      else if key \<in> set [''mtime'', ''modified''] then
        (case parse_relative_time ul value now of
           Some v \<Rightarrow> if negated then ModifiedBeforeF v else ModifiedAfterF v
         | None \<Rightarrow> NoFilter)
      else NoFilter)"

definition parse_inline_filter :: "(str \<Rightarrow> str) \<Rightarrow> str \<Rightarrow> i64 \<Rightarrow> inline_filter" where
  "parse_inline_filter ul token now =
     (let (negated, token) =
            (case strip_prefix ''!'' token of
               Some rest \<Rightarrow> (True, rest)
             | None \<Rightarrow> (case strip_prefix ''-'' token of
                         Some rest \<Rightarrow> (True, rest) | None \<Rightarrow> (False, token)))
      in case split_once (CHR '':'') token of
           None \<Rightarrow> NoFilter
         | Some (key, value) \<Rightarrow>
             (let value = trim value
              in if value = [] then NoFilter
                 else keyed_filter ul negated (to_lowercase ul key) value now))"

subsection \<open>Normalization\<close>

text \<open>One turn of the loop over the tokens: the options so far and the plain terms so far.\<close>

definition apply_filter ::
  "(str \<Rightarrow> str) \<Rightarrow> i64 \<Rightarrow> str \<Rightarrow> search_options \<times> str list \<Rightarrow> search_options \<times> str list" where
  "apply_filter ul now token st =
     (let (out, terms) = st
      in if token = [] then (out, terms)
         else case parse_inline_filter ul token now of
             ExtF exts \<Rightarrow> (out\<lparr>ext_filters := foldl push_unique (ext_filters out) exts\<rparr>, terms)
           | ExcludedExtF exts \<Rightarrow>
               (out\<lparr>excluded_ext_filters := foldl push_unique (excluded_ext_filters out) exts\<rparr>, terms)
           | KindF kinds \<Rightarrow> (out\<lparr>kind_filters := foldl push_unique (kind_filters out) kinds\<rparr>, terms)
           | ExcludedKindF kinds \<Rightarrow>
               (out\<lparr>excluded_kind_filters := foldl push_unique (excluded_kind_filters out) kinds\<rparr>, terms)
           | PathF f \<Rightarrow> (out\<lparr>path_filters := push_unique (path_filters out) f\<rparr>, terms)
           | ExcludedPathF f \<Rightarrow>
               (out\<lparr>excluded_path_filters := push_unique (excluded_path_filters out) f\<rparr>, terms)
           | ModifiedAfterF t \<Rightarrow> (out\<lparr>modified_after := Some t\<rparr>, terms)
           | ModifiedBeforeF t \<Rightarrow> (out\<lparr>modified_before := Some t\<rparr>, terms)
           | NoFilter \<Rightarrow> (out, terms @ [token]))"

fun join_with :: "str \<Rightarrow> str list \<Rightarrow> str" where
  "join_with sep [] = []"
| "join_with sep [w] = w"
| "join_with sep (w # ws) = w @ sep @ join_with sep ws"

definition option_pushes :: "(str \<Rightarrow> str) \<Rightarrow> search_options \<Rightarrow> search_options" where
  "option_pushes ul self =
     (let out = (case ext self of
                   None \<Rightarrow> self
                 | Some e \<Rightarrow> self\<lparr>ext_filters := push_unique (ext_filters self) (normalize_ext ul e)\<rparr>)
      in case kind self of
           None \<Rightarrow> out
         | Some k \<Rightarrow> out\<lparr>kind_filters := push_unique (kind_filters self) k\<rparr>)"

definition normalized_at :: "(str \<Rightarrow> str) \<Rightarrow> search_options \<Rightarrow> i64 \<Rightarrow> search_options" where
  "normalized_at ul self now =
     (let (out, terms) =
            fold (apply_filter ul now) (tokenize_query (query self)) (option_pushes ul self, [])
      in out\<lparr>query := join_with '' '' terms\<rparr>)"

definition fuzzy_enabled :: "search_options \<Rightarrow> bool" where
  "fuzzy_enabled self \<longleftrightarrow>
     fuzzy self \<or>
     (case tokenize_query (query self) of
        [] \<Rightarrow> False
      | token # _ \<Rightarrow> prefix ''~'' token \<and> 1 < length token)"

definition terms :: "search_options \<Rightarrow> str list" where
  "terms self =
     filter (\<lambda>v. v \<noteq> [])
       (map (\<lambda>v. case strip_prefix ''~'' v of Some r \<Rightarrow> r | None \<Rightarrow> v)
         (tokenize_query (query self)))"

subsection \<open>Facts: kinds and records\<close>

lemma ascii_words:
  "list_all is_ascii ''file''" "list_all is_ascii ''dir''" "list_all is_ascii ''symlink''"
  "list_all is_ascii ''app''" "list_all is_ascii ''other''"
  by (simp_all add: is_ascii_def byte_def)

lemma lower_words:
  "map ascii_lower ''file'' = ''file''" "map ascii_lower ''dir'' = ''dir''"
  "map ascii_lower ''symlink'' = ''symlink''" "map ascii_lower ''app'' = ''app''"
  "map ascii_lower ''other'' = ''other''"
  by (simp_all add: ascii_lower_def byte_def)

lemma to_lowercase_words [simp]:
  "to_lowercase ul ''file'' = ''file''" "to_lowercase ul ''dir'' = ''dir''"
  "to_lowercase ul ''symlink'' = ''symlink''" "to_lowercase ul ''app'' = ''app''"
  "to_lowercase ul ''other'' = ''other''"
  unfolding to_lowercase_def by (simp_all only: ascii_words lower_words if_True)

text \<open>The fast path of \<open>FileKind::parse\<close> for the canonical spellings changes no result: for
  every text it returns what the plain parser (lowercase, then the table of aliases) returns.\<close>

theorem kind_parse_fast_path: "kind_parse ul value = previous_parse ul value"
  unfolding kind_parse_def previous_parse_def
  by (auto simp: kind_alias_def)

text \<open>Every kind survives being written to the database and read back: parsing the text of
  \<open>as_str\<close> gives the kind again, and the texts of different kinds differ.\<close>

theorem kind_roundtrip:
  "kind_parse ul (kind_as_str k) = Some k \<and> (kind_as_str k = kind_as_str k' \<longleftrightarrow> k = k')"
  by (cases k; cases k'; simp add: kind_parse_def)

subsection \<open>Facts: tokens\<close>

text \<open>A character that the tokenizer neither drops nor splits at.\<close>

definition plain_char :: "rchar \<Rightarrow> bool" where
  "plain_char ch \<longleftrightarrow> ch \<noteq> backslash \<and> ch \<notin> set quotes \<and> \<not> is_whitespace ch"

definition plain_token :: "str \<Rightarrow> bool" where
  "plain_token t \<longleftrightarrow> t \<noteq> [] \<and> utf8_valid t \<and> list_all plain_char (str_chars t)"

text \<open>A text without quotes and backslashes.\<close>

definition unquoted :: "str \<Rightarrow> bool" where
  "unquoted q \<longleftrightarrow> list_all (\<lambda>ch. ch \<noteq> backslash \<and> ch \<notin> set quotes) (str_chars q)"

definition finish_tokens :: "str list \<times> str \<times> bool \<Rightarrow> str list" where
  "finish_tokens r =
     (let (tokens, current, escaped) = r;
          current = (if escaped then current @ backslash else current)
      in if current \<noteq> [] then tokens @ [current] else tokens)"

lemma tokenize_query_alt:
  "tokenize_query q = finish_tokens (tokenize_loop (str_chars q) [] [] None False)"
  by (simp add: tokenize_query_def finish_tokens_def)

text \<open>An invariant of the tokens and the current text that one character keeps is one of the result.\<close>

lemma tokenize_loop_invariant:
  assumes push: "\<And>u ch. P u \<Longrightarrow> Q ch \<Longrightarrow> P (u @ ch)" and nil: "P []"
  shows "tokenize_loop cs tokens current q e = (tokens', current', e') \<Longrightarrow> list_all Q cs \<Longrightarrow>
    list_all (\<lambda>t. P t \<and> t \<noteq> []) tokens \<Longrightarrow> P current \<Longrightarrow>
    P current' \<and> list_all (\<lambda>t. P t \<and> t \<noteq> []) tokens'"
proof (induction cs arbitrary: tokens current q e)
  case Nil
  then show ?case by simp
next
  case (Cons ch rest)
  have ch: "Q ch" and rest: "list_all Q rest" using Cons.prems(2) by simp_all
  show ?case
    using Cons.prems(1,3,4) push [OF Cons.prems(4) ch] nil
    by (auto split: if_splits elim!: Cons.IH [OF _ rest])
qed

lemma tokenize_query_invariant:
  assumes "t \<in> set (tokenize_query q)" and nil: "P []" and cs: "list_all Q (str_chars q)"
    and push: "\<And>u ch. P u \<Longrightarrow> Q ch \<Longrightarrow> P (u @ ch)" and esc: "\<And>u. P u \<Longrightarrow> P (u @ backslash)"
  shows "P t \<and> t \<noteq> []"
proof -
  obtain toks cur e where r: "tokenize_loop (str_chars q) [] [] None False = (toks, cur, e)"
    by (metis prod_cases3)
  have "P cur \<and> list_all (\<lambda>t. P t \<and> t \<noteq> []) toks"
    by (rule tokenize_loop_invariant [OF push nil r cs]) (simp_all add: nil)
  then show ?thesis
    using assms(1) esc by (auto simp: tokenize_query_def r list_all_iff split: if_splits)
qed

lemma tokenize_query_valid:
  "utf8_valid q \<Longrightarrow> t \<in> set (tokenize_query q) \<Longrightarrow> t \<noteq> [] \<and> utf8_valid t"
proof -
  assume q: "utf8_valid q" and t: "t \<in> set (tokenize_query q)"
  have all: "list_all utf8_valid (str_chars q)"
    using q utf8_valid_char unfolding utf8_valid_def [of q] by (auto simp: list_all_iff)
  have "utf8_valid t \<and> t \<noteq> []"
    by (rule tokenize_query_invariant [where P = utf8_valid, OF t utf8_valid_Nil all])
       (simp_all add: utf8_valid_append backslash_def byte_def utf8_valid_appendI)
  then show ?thesis by simp
qed

text \<open>Tokens are never empty, and the tokens of a valid text are valid texts.\<close>

theorem tokenize_query_tokens:
  "utf8_valid q \<Longrightarrow> t \<in> set (tokenize_query q) \<Longrightarrow> t \<noteq> [] \<and> utf8_valid t"
  by (rule tokenize_query_valid)

theorem tokenize_query_tokens_witness:
  "utf8_valid ''ext:pdf \"a b\"'' \<and> ''a b'' \<in> set (tokenize_query ''ext:pdf \"a b\"'') \<and> utf8_valid ''a b''"
proof -
  have v: "utf8_valid ''ext:pdf \"a b\"''" by code_simp
  have t: "''a b'' \<in> set (tokenize_query ''ext:pdf \"a b\"'')" by code_simp
  show ?thesis using v t tokenize_query_tokens [OF v t] by simp
qed

text \<open>Every nonempty text can be written as one token: put a backslash before each character.\<close>

definition escape_token :: "str \<Rightarrow> str" where
  "escape_token t = concat (map (\<lambda>ch. backslash @ ch) (str_chars t))"

lemma tokenize_loop_escaped:
  "tokenize_loop (concat (map (\<lambda>ch. [backslash, ch]) cs)) tokens current q False =
     (tokens, current @ concat cs, False)"
  by (induction cs arbitrary: current) auto

lemma concat_escaped:
  "concat (map (\<lambda>ch. b @ ch) cs) = concat (concat (map (\<lambda>ch. [b, ch]) cs))"
  by (induction cs) auto

lemma str_chars_escape:
  assumes "utf8_valid t"
  shows "str_chars (escape_token t) = concat (map (\<lambda>ch. [backslash, ch]) (str_chars t))"
proof -
  have "escape_token t = concat (concat (map (\<lambda>ch. [backslash, ch]) (str_chars t)))"
    by (simp add: escape_token_def concat_escaped)
  moreover have "list_all rchar_valid (concat (map (\<lambda>ch. [backslash, ch]) (str_chars t)))"
    using assms by (auto simp: utf8_valid_def list_all_iff backslash_def byte_def)
  ultimately show ?thesis by (simp add: str_chars_concat)
qed

text \<open>Quoting is complete: the tokenizer reads a nonempty text whose characters are all
  escaped with backslashes back as one token, that text, whatever white space and quotes it has.\<close>

theorem tokenize_escape_roundtrip:
  "utf8_valid t \<Longrightarrow> t \<noteq> [] \<Longrightarrow> tokenize_query (escape_token t) = [t]"
  by (simp add: tokenize_query_def str_chars_escape tokenize_loop_escaped)

theorem tokenize_escape_roundtrip_witness:
  "utf8_valid ''a \"b'' \<and> tokenize_query (escape_token ''a \"b'') = [''a \"b'']"
proof -
  have v: "utf8_valid ''a \"b''" by code_simp
  show ?thesis using v tokenize_escape_roundtrip [OF v] by simp
qed

lemma tokenize_loop_plain:
  "list_all plain_char cs \<Longrightarrow>
     tokenize_loop (cs @ rest) tokens current None False =
     tokenize_loop rest tokens (current @ concat cs) None False"
  by (induction cs arbitrary: current) (auto simp: plain_char_def)

lemma space_char: "utf8_len (CHR '' '') = 1" "'' '' \<noteq> backslash" "'' '' \<notin> set quotes"
  "is_whitespace '' ''"
  by (simp_all add: byte_def utf8_len_def backslash_def quotes_def is_whitespace_def)

lemma tokenize_loop_join:
  "list_all plain_token ts \<Longrightarrow>
     finish_tokens (tokenize_loop (str_chars (join_with '' '' ts)) tokens [] None False) = tokens @ ts"
proof (induction ts arbitrary: tokens)
  case Nil
  then show ?case by (simp add: finish_tokens_def)
next
  case (Cons w ts)
  have w: "utf8_valid w" "w \<noteq> []" "list_all plain_char (str_chars w)"
    using Cons.prems by (simp_all add: plain_token_def)
  show ?case
  proof (cases ts)
    case Nil
    then show ?thesis
      using tokenize_loop_plain [OF w(3), of "[]" tokens "[]"] w by (simp add: finish_tokens_def)
  next
    case (Cons v vs)
    then have "str_chars (join_with '' '' (w # ts)) = str_chars w @ '' '' # str_chars (join_with '' '' ts)"
      using w(1) by (simp add: str_chars_append space_char)
    then show ?thesis
      using Cons.IH [of "tokens @ [w]"] Cons.prems w(2) tokenize_loop_plain [OF w(3)]
      by (simp add: space_char)
  qed
qed

lemma tokenize_join: "list_all plain_token ts \<Longrightarrow> tokenize_query (join_with '' '' ts) = ts"
  by (simp add: tokenize_query_alt tokenize_loop_join)

subsection \<open>Facts: normalization\<close>

lemma tokenize_loop_unquoted:
  "tokenize_loop cs tokens current None False = (tokens', current', e') \<Longrightarrow>
   list_all (\<lambda>ch. rchar_valid ch \<and> ch \<noteq> backslash \<and> ch \<notin> set quotes) cs \<Longrightarrow>
   list_all plain_token tokens \<Longrightarrow> current = [] \<or> plain_token current \<Longrightarrow>
   \<not> e' \<and> list_all plain_token tokens' \<and> (current' = [] \<or> plain_token current')"
proof (induction cs arbitrary: tokens current)
  case Nil
  then show ?case by simp
next
  case (Cons ch cs)
  have ch: "rchar_valid ch" "ch \<noteq> backslash" "ch \<notin> set quotes"
    and cs: "list_all (\<lambda>ch. rchar_valid ch \<and> ch \<noteq> backslash \<and> ch \<notin> set quotes) cs"
    using Cons.prems(2) by simp_all
  have ne: "ch \<noteq> []" using ch(1) by auto
  note v = utf8_valid_char [OF ch(1)]
  show ?case
  proof (cases "is_whitespace ch")
    case True
    show ?thesis
    proof (cases "current = []")
      case True
      then show ?thesis
        using Cons.prems(1,3) ch \<open>is_whitespace ch\<close> Cons.IH [OF _ cs, of tokens "[]"] by simp
    next
      case False
      then show ?thesis
        using Cons.prems(1,3,4) ch \<open>is_whitespace ch\<close> Cons.IH [OF _ cs, of "tokens @ [current]" "[]"]
        by simp
    qed
  next
    case False
    then have "plain_token (current @ ch)"
      using Cons.prems(4) ch v ne
      by (auto simp: plain_token_def plain_char_def str_chars_append utf8_valid_append)
    then show ?thesis
      using Cons.prems(1,3) ch False Cons.IH [OF _ cs, of tokens "current @ ch"] by simp
  qed
qed

lemma tokenize_unquoted:
  assumes "utf8_valid q" and "unquoted q"
  shows "list_all plain_token (tokenize_query q)"
proof -
  obtain toks cur e where r: "tokenize_loop (str_chars q) [] [] None False = (toks, cur, e)"
    by (metis prod_cases3)
  have "\<not> e \<and> list_all plain_token toks \<and> (cur = [] \<or> plain_token cur)"
    by (rule tokenize_loop_unquoted [OF r])
       (use assms in \<open>auto simp: utf8_valid_def unquoted_def list_all_iff\<close>)
  then show ?thesis by (auto simp: tokenize_query_def r)
qed

text \<open>Whether a token is a filter does not depend on the clock.\<close>

lemma parse_relative_time_now:
  "parse_relative_time ul v now = None \<longleftrightarrow> parse_relative_time ul v now' = None"
  by (auto simp: parse_relative_time_def Let_def split: option.splits)

definition is_term :: "(str \<Rightarrow> str) \<Rightarrow> str \<Rightarrow> bool" where
  "is_term ul token \<longleftrightarrow> parse_inline_filter ul token 0 = NoFilter"

lemma keyed_filter_now:
  "keyed_filter ul negated key value now = NoFilter \<longleftrightarrow> keyed_filter ul negated key value now' = NoFilter"
  using parse_relative_time_now [of ul "value" now now']
  by (auto simp: keyed_filter_def Let_def split: option.splits)

lemma parse_inline_filter_now: "parse_inline_filter ul token now = NoFilter \<longleftrightarrow> is_term ul token"
  unfolding is_term_def parse_inline_filter_def Let_def
  by (simp add: keyed_filter_now [of ul _ _ _ now 0] split: option.split prod.split)

lemma foldl_push_unique_subset: "set vs \<subseteq> set (foldl push_unique vs xs)"
  by (induction xs arbitrary: vs) (force simp: push_unique_def)+

lemma fold_apply_filter:
  "[] \<notin> set ts \<Longrightarrow> fold (apply_filter ul now) ts (out, us) = (out', us') \<Longrightarrow>
     us' = us @ filter (is_term ul) ts \<and> ext out' = ext out \<and> kind out' = kind out \<and>
     set (ext_filters out) \<subseteq> set (ext_filters out') \<and>
     set (kind_filters out) \<subseteq> set (kind_filters out')"
proof (induction ts arbitrary: out us)
  case Nil
  then show ?case by simp
next
  case (Cons t ts)
  obtain opts1 us1 where step: "apply_filter ul now t (out, us) = (opts1, us1)" by fastforce
  have t: "t \<noteq> []" using Cons.prems by auto
  have one: "us1 = us @ filter (is_term ul) [t] \<and> ext opts1 = ext out \<and> kind opts1 = kind out \<and>
      set (ext_filters out) \<subseteq> set (ext_filters opts1) \<and> set (kind_filters out) \<subseteq> set (kind_filters opts1)"
    using step t parse_inline_filter_now [of ul t now]
    by (auto simp: apply_filter_def intro: subsetD [OF foldl_push_unique_subset]
        split: inline_filter.splits)
  then show ?case using Cons.IH [of opts1 us1] Cons.prems step by auto
qed

lemma fold_apply_filter_terms:
  "list_all (is_term ul) ts \<Longrightarrow> fold (apply_filter ul now) ts (out, us) = (out, us @ filter (\<lambda>t. t \<noteq> []) ts)"
proof (induction ts arbitrary: us)
  case (Cons t ts)
  then show ?case
    using parse_inline_filter_now [of ul t now] by (auto simp: apply_filter_def)
qed simp

lemma option_pushes_idem:
  "set (ext_filters (option_pushes ul opts)) \<subseteq> set (ext_filters out) \<Longrightarrow>
   set (kind_filters (option_pushes ul opts)) \<subseteq> set (kind_filters out) \<Longrightarrow>
   ext out = ext opts \<Longrightarrow> kind out = kind opts \<Longrightarrow> option_pushes ul out = out"
  by (cases "ext opts"; cases "kind opts") (auto simp: option_pushes_def push_unique_def split: if_splits)

lemma tokens_nonempty: "[] \<notin> set (tokenize_query q)"
  using tokenize_query_invariant [where P = "\<lambda>_. True" and Q = "\<lambda>_. True" and q = q and t = "[]"]
  by (auto simp: list_all_iff)

lemma option_pushes_fields:
  "ext (option_pushes ul opts) = ext opts" "kind (option_pushes ul opts) = kind opts"
  by (cases "ext opts"; cases "kind opts"; simp add: option_pushes_def)+

lemma normalized_at_unquoted:
  assumes "utf8_valid (query opts)" and "unquoted (query opts)"
  shows "tokenize_query (query (normalized_at ul opts now)) =
      filter (is_term ul) (tokenize_query (query opts))"
proof -
  let ?ts = "tokenize_query (query opts)"
  obtain out us where f: "fold (apply_filter ul now) ?ts (option_pushes ul opts, []) = (out, us)"
    by fastforce
  have "us = filter (is_term ul) ?ts" using fold_apply_filter [OF tokens_nonempty f] by simp
  moreover have "list_all plain_token ?ts" using assms by (rule tokenize_unquoted)
  ultimately show ?thesis
    by (simp add: normalized_at_def f tokenize_join list_all_iff)
qed

text \<open>C38: Normalization is idempotent for every query without quotes and backslashes: searching
  with options that are already normalized (the service and the command line normalize more
  than once) changes neither the filters nor the terms, whatever the clock says the second time.\<close>

theorem normalized_at_idempotent:
  assumes "utf8_valid (query opts)" and "unquoted (query opts)"
  shows "normalized_at ul (normalized_at ul opts now) now' = normalized_at ul opts now"
proof -
  let ?ts = "tokenize_query (query opts)"
  obtain out us where f: "fold (apply_filter ul now) ?ts (option_pushes ul opts, []) = (out, us)"
    by fastforce
  note ff = fold_apply_filter [OF tokens_nonempty f]
  let ?n = "out\<lparr>query := join_with '' '' us\<rparr>"
  have n: "normalized_at ul opts now = ?n" by (simp add: normalized_at_def f)
  have us: "us = filter (is_term ul) ?ts" using ff by simp
  have toks: "tokenize_query (query ?n) = us"
    using normalized_at_unquoted [OF assms, of ul now] n us by simp
  have "option_pushes ul ?n = ?n"
    by (rule option_pushes_idem [of ul opts]) (use ff in \<open>simp_all add: option_pushes_fields\<close>)
  moreover have "[] \<notin> set us" "list_all (is_term ul) us"
    using us tokens_nonempty [of "query opts"] by (auto simp: list_all_iff)
  moreover from this(1) have "filter (\<lambda>t. t \<noteq> []) us = us"
    by (metis (mono_tags, lifting) filter_True)
  ultimately have "normalized_at ul ?n now' = ?n"
    using fold_apply_filter_terms [of ul us now' ?n "[]"] toks by (simp add: normalized_at_def)
  then show ?thesis using n by simp
qed

theorem normalized_at_idempotent_witness:
  "normalized_at id (normalized_at id (default_options\<lparr>query := ''ext:pdf report''\<rparr>) 5) 7
     = normalized_at id (default_options\<lparr>query := ''ext:pdf report''\<rparr>) 5"
proof -
  have v: "utf8_valid (query (default_options\<lparr>query := ''ext:pdf report''\<rparr>))"
    and u: "unquoted (query (default_options\<lparr>query := ''ext:pdf report''\<rparr>))"
    by code_simp+
  show ?thesis by (rule normalized_at_idempotent [OF v u])
qed

text \<open>
  With quotes the terms are cut again: \<open>normalized_at\<close> joins them with spaces and
  \<open>terms\<close> tokenizes the joined text, so a quoted phrase becomes separate terms and an
  escaped backslash is lost.
\<close>

lemma normalized_loses_phrase:
  "tokenize_query ''\"quarterly report\"'' = [''quarterly report'']"
  "terms (normalized_at ul (default_options\<lparr>query := ''\"quarterly report\"''\<rparr>) now) =
     [''quarterly'', ''report'']"
proof -
  show t: "tokenize_query ''\"quarterly report\"'' = [''quarterly report'']" by code_simp
  have "is_term ul ''quarterly report''"
    by (simp add: is_term_def parse_inline_filter_def strip_prefix_def)
  then have "query (normalized_at ul (default_options\<lparr>query := ''\"quarterly report\"''\<rparr>) now) = ''quarterly report''"
    using fold_apply_filter_terms [of ul "[''quarterly report'']" now]
    by (simp add: normalized_at_def t default_options_def option_pushes_def)
  moreover have "tokenize_query ''quarterly report'' = [''quarterly'', ''report'']" by code_simp
  ultimately show "terms (normalized_at ul (default_options\<lparr>query := ''\"quarterly report\"''\<rparr>) now) =
     [''quarterly'', ''report'']"
    by (simp add: terms_def strip_prefix_def)
qed

text \<open>A relative time such as \<open>7d\<close> is a time stamp in range, never in the future, and it
  moves with the clock; no product or difference overflows, however large the count.\<close>

theorem parse_relative_time_bounds:
  assumes "is_i64 now" and "parse_relative_time ul value now = Some t"
  shows "is_i64 t \<and> t \<le> now \<and>
    (\<forall>now' \<ge> now. \<exists>t'. parse_relative_time ul value now' = Some t' \<and> t \<le> t')"
proof (intro conjI allI impI)
  define v where "v = to_lowercase ul (trim value)"
  define digits where "digits = takeWhile is_digit v"
  have c2: "list_all is_digit digits"
    unfolding digits_def list_all_iff by (auto dest: set_takeWhileD)
  have c3: "digits \<noteq> []"
    using assms(2) unfolding parse_relative_time_def Let_def v_def [symmetric] digits_def [symmetric]
    by (simp split: if_splits)
  obtain count seconds where
    c: "parse_i64 digits = Some count" and
    s: "unit_seconds (trim (drop (length digits) v)) = Some seconds" and
    t: "\<And>n. parse_relative_time ul value n = Some (clamp_i64 (n - clamp_i64 (count * seconds)))"
    using assms(2) c3 unfolding parse_relative_time_def Let_def v_def [symmetric] digits_def [symmetric]
    by (auto split: option.splits)
  have tt: "t = clamp_i64 (now - clamp_i64 (count * seconds))" using assms(2) t by simp
  show "is_i64 t" using tt by (simp add: clamp_i64_range)
  have "hd digits \<noteq> CHR ''-''" using c2 c3 by (cases digits) (auto simp: is_digit_def byte_def)
  then have "0 \<le> count"
    using c c3 by (cases digits) (auto simp: parse_i64_def Let_def split: option.splits if_splits)
  moreover have "0 \<le> seconds" using s by (auto simp: unit_seconds_def split: if_splits)
  ultimately have "0 \<le> count * seconds" by simp
  then have "0 \<le> clamp_i64 (count * seconds)"
    by (auto simp: clamp_i64_def i64_min_def i64_max_def)
  then show "t \<le> now"
    using tt clamp_i64_mono [of "now - clamp_i64 (count * seconds)" now] assms(1) by simp
  show "\<exists>t'. parse_relative_time ul value now' = Some t' \<and> t \<le> t'" if "now \<le> now'" for now'
    using t tt clamp_i64_mono that by simp
qed

theorem parse_relative_time_bounds_witness:
  "is_i64 1000000 \<and> is_i64 395200 \<and> (395200::int) \<le> 1000000"
proof -
  have n: "is_i64 1000000" by code_simp
  have p: "parse_relative_time id ''7d'' 1000000 = Some 395200" by code_simp
  show ?thesis using n parse_relative_time_bounds [OF n p] by simp
qed

end
