(* ===== verification/Short_Finder.thy ===== *)
theory Short_Finder
  imports Rust_Text
begin

text \<open>
  \<open>ShortFinder\<close> of \<open>src/src/search.rs\<close>: substring search for needles of at most seven
  bytes that tests eight starting offsets at a time with two 64-bit words. A result is
  \<open>None\<close> where the code would panic (a slice out of range, \<open>unreachable!\<close>), and
  \<open>Some r\<close> where it returns \<open>r\<close>.
\<close>

type_synonym u64 = "64 word"

text \<open>The slice \<open>xs[i..i + n]\<close>; a range that leaves the list panics.\<close>

definition slice :: "'a list \<Rightarrow> nat \<Rightarrow> nat \<Rightarrow> 'a list option" where
  "slice xs i n = (if i + n \<le> length xs then Some (take n (drop i xs)) else None)"

definition from_le_bytes :: "char list \<Rightarrow> u64" where
  "from_le_bytes bs = foldr (\<lambda>b w. word_of_nat (byte b) OR push_bit 8 w) bs 0"

definition trailing_zeros :: "u64 \<Rightarrow> nat" where
  "trailing_zeros w = length (takeWhile (\<lambda>i. \<not> bit w i) [0..<64])"

definition zero_byte_mask :: "u64 \<Rightarrow> u64" where
  "zero_byte_mask w = (w - 0x0101010101010101) AND NOT w AND 0x8080808080808080"

record short_finder =
  sf_bytes :: "char list"
  sf_first :: u64
  sf_last :: u64
  sf_len :: usize

definition short_finder_new :: "str \<Rightarrow> short_finder" where
  "short_finder_new needle =
     (if needle \<noteq> [] \<and> length needle \<le> 7
      then \<lparr>sf_bytes = needle @ replicate (8 - length needle) (CHR 0x00),
            sf_first = from_le_bytes (replicate 8 (needle ! 0)),
            sf_last = from_le_bytes (replicate 8 (needle ! (length needle - 1))),
            sf_len = length needle\<rparr>
      else \<lparr>sf_bytes = replicate 8 (CHR 0x00), sf_first = 0, sf_last = 0, sf_len = 0\<rparr>)"

text \<open>The loop over the set bits of \<open>candidates\<close>, lowest first.\<close>

lemma and_minus_one_less:
  assumes "w \<noteq> 0"
  shows "unat (w AND (w - 1)) < unat (w :: u64)"
proof -
  have "w AND (w - 1) \<le> w - 1" by (rule word_and_le1)
  moreover have "w - 1 < w"
    using measure_unat [OF assms] by (simp add: word_less_nat_alt)
  ultimately show ?thesis by (simp add: word_less_nat_alt word_le_nat_alt)
qed

function candidate_loop :: "str \<Rightarrow> str \<Rightarrow> usize \<Rightarrow> u64 \<Rightarrow> usize option option" where
  "candidate_loop needle hay offset candidates =
     (if candidates = 0 then Some None
      else let candidate = offset + trailing_zeros candidates div 8
           in case slice hay candidate (length needle) of
                None \<Rightarrow> None
              | Some w \<Rightarrow>
                  if w = needle then Some (Some candidate)
                  else candidate_loop needle hay offset (candidates AND (candidates - 1)))"
  by pat_completeness auto
termination
  by (relation "measure (\<lambda>(_, _, _, c). unat c)") (auto simp: and_minus_one_less)

declare candidate_loop.simps [simp del]

function tail_loop :: "str \<Rightarrow> str \<Rightarrow> usize \<Rightarrow> usize \<Rightarrow> usize option option" where
  "tail_loop needle hay starts offset =
     (if offset < starts
      then (case slice hay offset (length needle) of
              None \<Rightarrow> None
            | Some w \<Rightarrow> if w = needle then Some (Some offset)
                        else tail_loop needle hay starts (offset + 1))
      else Some None)"
  by pat_completeness auto
termination
  by (relation "measure (\<lambda>(_, _, s, i). s - i)") auto

declare tail_loop.simps [simp del]

function word_loop :: "short_finder \<Rightarrow> str \<Rightarrow> str \<Rightarrow> usize \<Rightarrow> usize \<Rightarrow> usize option option" where
  "word_loop f needle hay starts offset =
     (if 8 \<le> starts - offset
      then (case (slice hay offset 8, slice hay (offset + length needle - 1) 8) of
              (Some first_word, Some last_word) \<Rightarrow>
                (case candidate_loop needle hay offset
                        (zero_byte_mask (from_le_bytes first_word XOR sf_first f)
                         AND zero_byte_mask (from_le_bytes last_word XOR sf_last f)) of
                   Some None \<Rightarrow> word_loop f needle hay starts (offset + 8)
                 | r \<Rightarrow> r)
            | _ \<Rightarrow> None)
      else tail_loop needle hay starts offset)"
  by pat_completeness auto
termination
  by (relation "measure (\<lambda>(_, _, _, s, i). s - i)") auto

declare word_loop.simps [simp del]

definition find_bytes :: "short_finder \<Rightarrow> usize \<Rightarrow> str \<Rightarrow> usize option option" where
  "find_bytes f n hay =
     (if length hay < n then Some None
      else word_loop f (take n (sf_bytes f)) hay (length hay - n + 1) 0)"

text \<open>\<open>char::from(b)\<close> encoded: a byte outside ASCII becomes a two-byte character.\<close>

definition char_from_byte :: "char \<Rightarrow> rchar" where
  "char_from_byte b =
     (if byte b < 128 then [b]
      else [char_of (192 + byte b div 64), char_of (128 + byte b mod 64)])"

definition short_find :: "short_finder \<Rightarrow> str \<Rightarrow> usize option option" where
  "short_find f hay =
     (if sf_len f = 0 then Some (Some 0)
      else if sf_len f = 1 then Some (str_find (char_from_byte (sf_bytes f ! 0)) hay)
      else if sf_len f \<le> 7 then find_bytes f (sf_len f) hay
      else None)"

subsection \<open>Bits\<close>

lemma bit_from_le_bytes:
  "length bs \<le> 8 \<Longrightarrow> i < length bs \<Longrightarrow> k < 8 \<Longrightarrow>
     bit (from_le_bytes bs) (8 * i + k) \<longleftrightarrow> bit (byte (bs ! i)) k"
proof (induction bs arbitrary: i)
  case (Cons b bs)
  have high: "\<not> bit (byte b) n" if "8 \<le> n" for n
  proof -
    have "byte b < 2 ^ 8" by (simp add: byte_def)
    then have "take_bit 8 (byte b) = byte b" by (simp add: take_bit_nat_eq_self)
    then show ?thesis using that by (metis bit_take_bit_iff not_less)
  qed
  have bits: "bit (from_le_bytes (b # bs)) n \<longleftrightarrow>
      n < 64 \<and> (bit (byte b) n \<or> 8 \<le> n \<and> bit (from_le_bytes bs) (n - 8))" for n
    by (auto simp: from_le_bytes_def bit_or_iff bit_push_bit_iff bit_of_nat_iff
        dest: bit_imp_le_length)
  show ?case
  proof (cases i)
    case 0
    then show ?thesis using Cons.prems bits [of k] by simp
  next
    case (Suc j)
    have "j < 8" using Cons.prems Suc by simp
    then have "8 * i + k < 64" using Suc Cons.prems by simp
    then show ?thesis
      using Cons.IH [of j] Cons.prems Suc bits [of "8 * i + k"] high [of "8 * i + k"]
      by (simp add: algebra_simps)
  qed
qed simp

lemma odd_borrow:
  fixes x c :: int
  assumes x: "x mod (256 * p) < p" and c: "p \<le> c mod (256 * p)" "c mod (256 * p) < 2 * p" and p: "0 < p"
  shows "odd ((x - c) div (128 * p))"
proof -
  let ?m = "256 * p"
  obtain a b where ab: "x = ?m * a + b" "b = x mod ?m" by (metis mult_div_mod_eq)
  obtain d e where de: "c = ?m * d + e" "e = c mod ?m" by (metis mult_div_mod_eq)
  have b: "0 \<le> b" "b < p" using ab x p by simp_all
  have e: "p \<le> e" "e < 2 * p" using de c by simp_all
  have "x - c = 128 * p * (2 * (a - d) - 1) + (b - e + 128 * p)"
    by (simp add: ab(1) de(1) algebra_simps)
  moreover have "0 \<le> b - e + 128 * p" "b - e + 128 * p < 128 * p" using b e p by linarith+
  ultimately have "(x - c) div (128 * p) = 2 * (a - d) - 1"
    using p by (simp add: div_pos_pos_trivial)
  then show ?thesis by simp
qed

lemma zero_byte_detected:
  assumes i: "i < 8" and zero: "\<And>k. k < 8 \<Longrightarrow> \<not> bit w (8 * i + k)"
  shows "bit (zero_byte_mask w) (8 * i + 7)"
proof -
  define p :: int where "p = 2 ^ (8 * i)"
  let ?c = "0x0101010101010101 :: int"
  have p: "0 < p" by (simp add: p_def)
  have q: "256 * p = 2 ^ (8 * i + 8)" by (simp add: p_def power_add)
  have "take_bit (8 * i + 8) (uint w) = take_bit (8 * i) (uint w)"
  proof (rule bit_eqI)
    fix n
    show "bit (take_bit (8 * i + 8) (uint w)) n = bit (take_bit (8 * i) (uint w)) n"
      using zero [of "n - 8 * i"] by (cases "n < 8 * i") (auto simp: bit_take_bit_iff bit_uint_iff)
  qed
  then have "uint w mod (256 * p) = uint w mod p" unfolding q by (simp add: take_bit_eq_mod p_def)
  then have x: "uint w mod (256 * p) < p" using p by simp
  have "p \<le> ?c mod (256 * p) \<and> ?c mod (256 * p) < 2 * p"
  proof -
    from i have "i \<in> {0,1,2,3,4,5,6,7}" by auto
    then show ?thesis unfolding p_def by (elim insertE) simp_all
  qed
  then have "odd ((uint w - ?c) div (128 * p))" using odd_borrow [OF x _ _ p] by simp
  moreover have "128 * p = 2 ^ (8 * i + 7)" by (simp add: p_def power_add)
  ultimately have "bit (uint w - ?c) (8 * i + 7)" by (simp add: bit_iff_odd)
  moreover have "w - 0x0101010101010101 = word_of_int (uint w - ?c)"
    by (simp add: wi_hom_syms)
  ultimately have "bit (w - 0x0101010101010101) (8 * i + 7)"
    using i by (simp only: bit_word_of_int_iff) simp
  moreover have "bit (NOT w) (8 * i + 7)" using zero [of 7] i by (simp add: bit_not_iff)
  moreover have "bit (0x8080808080808080 :: u64) (8 * i + 7)"
  proof -
    from i have "i \<in> {0,1,2,3,4,5,6,7}" by auto
    then show ?thesis by (elim insertE) simp_all
  qed
  ultimately show ?thesis by (simp add: zero_byte_mask_def bit_and_iff)
qed

lemma mask_bits:
  assumes "bit (zero_byte_mask w) n"
  shows "\<exists>i<8. n = 8 * i + 7"
proof -
  have "n < 64" using assms by (auto simp: zero_byte_mask_def bit_and_iff dest: bit_imp_le_length)
  moreover have m: "bit (0x8080808080808080 :: u64) n" using assms by (simp add: zero_byte_mask_def bit_and_iff)
  ultimately have "n mod 8 = 7"
  proof -
    have "\<forall>n \<in> set [0..<64]. bit (0x8080808080808080 :: u64) n \<longrightarrow> n mod 8 = 7" by code_simp
    then show ?thesis using m \<open>n < 64\<close> by simp
  qed
  then show ?thesis using \<open>n < 64\<close> by (intro exI [of _ "n div 8"]) presburger
qed

lemma trailing_zeros_bit:
  assumes "w \<noteq> 0"
  shows "bit w (trailing_zeros w)" and "trailing_zeros w < 64" and "j < trailing_zeros w \<Longrightarrow> \<not> bit w j"
proof -
  obtain n where n: "bit w n" "n < 64" using assms bit_imp_le_length [of w] by (auto simp: bit_eq_iff)
  let ?t = "takeWhile (\<lambda>i. \<not> bit w i) [0..<64]"
  have "dropWhile (\<lambda>i. \<not> bit w i) [0..<64] \<noteq> []"
    using n by (auto simp: dropWhile_eq_Nil_conv)
  moreover have "length [0..<64] = length ?t + length (dropWhile (\<lambda>i. \<not> bit w i) [0..<64])"
    by (metis length_append takeWhile_dropWhile_id)
  ultimately have "length ?t < length [0..<64]"
    by (metis length_greater_0_conv less_add_same_cancel1)
  then show l: "trailing_zeros w < 64" by (simp add: trailing_zeros_def)
  show "bit w (trailing_zeros w)"
    using nth_length_takeWhile [of "\<lambda>i. \<not> bit w i" "[0..<64]"] l by (simp add: trailing_zeros_def)
  show "\<not> bit w j" if "j < trailing_zeros w"
  proof -
    have "?t ! j = [0..<64] ! j" using that by (simp add: trailing_zeros_def takeWhile_nth)
    moreover have "?t ! j \<in> set ?t" using that by (simp add: trailing_zeros_def)
    ultimately show ?thesis using that l by (auto dest: set_takeWhileD)
  qed
qed

lemma bit_clear_lowest:
  assumes "w \<noteq> 0"
  shows "bit (w AND (w - 1)) n \<longleftrightarrow> bit (w :: u64) n \<and> n \<noteq> trailing_zeros w"
proof -
  let ?t = "trailing_zeros w" and ?r = "w AND NOT (2 ^ trailing_zeros w)"
  note t = trailing_zeros_bit [OF assms]
  have one: "bit (2 ^ ?t :: u64) n \<longleftrightarrow> n = ?t" for n using t(2) by (auto simp: bit_exp_iff)
  have "w = ?r OR 2 ^ ?t" by (rule bit_eqI) (auto simp: bit_or_iff bit_and_iff bit_not_iff one t(1))
  also have "\<dots> = ?r + 2 ^ ?t"
    by (rule disjunctive_add [symmetric]) (auto simp: bit_and_iff bit_not_iff one)
  finally have "w - 1 = ?r + mask ?t" by (simp add: mask_eq_exp_minus_1 algebra_simps)
  also have "\<dots> = ?r OR mask ?t"
    by (rule disjunctive_add) (use t(3) in \<open>auto simp: bit_and_iff bit_mask_iff\<close>)
  finally show ?thesis
    using t(3) [of n] by (auto simp: bit_and_iff bit_or_iff bit_not_iff one bit_mask_iff
        dest: bit_imp_le_length)
qed

subsection \<open>Correctness of the loops\<close>

text \<open>What a search over the offsets \<open>[lo, hi)\<close> has to return.\<close>

definition first_in :: "str \<Rightarrow> str \<Rightarrow> nat \<Rightarrow> nat \<Rightarrow> usize option \<Rightarrow> bool" where
  "first_in needle hay lo hi r \<longleftrightarrow>
     (case r of
        None \<Rightarrow> (\<forall>j. lo \<le> j \<and> j < hi \<longrightarrow> \<not> occurs_at needle hay j)
      | Some c \<Rightarrow> lo \<le> c \<and> c < hi \<and> occurs_at needle hay c \<and>
                  (\<forall>j. lo \<le> j \<and> j < c \<longrightarrow> \<not> occurs_at needle hay j))"

lemma first_in_step:
  "first_in needle hay mid hi r \<Longrightarrow> lo \<le> mid \<Longrightarrow>
   (\<And>j. lo \<le> j \<Longrightarrow> j < mid \<Longrightarrow> \<not> occurs_at needle hay j) \<Longrightarrow> first_in needle hay lo hi r"
  by (auto simp: first_in_def split: option.splits) (meson not_le)+

lemma first_in_widen:
  "first_in needle hay lo mid (Some c) \<Longrightarrow> mid \<le> hi \<Longrightarrow> first_in needle hay lo hi (Some c)"
  by (auto simp: first_in_def)

lemma first_in_str_find:
  assumes "first_in needle hay 0 (length hay - length needle + 1) r" and "length needle \<le> length hay"
  shows "r = str_find needle hay"
proof (cases r)
  case (Some c)
  then have "str_find needle hay = Some c" using assms by (simp add: first_in_def str_find_Some)
  then show ?thesis using Some by simp
next
  case None
  have "\<not> occurs_at needle hay i" for i
  proof
    assume o: "occurs_at needle hay i"
    then have "i < length hay - length needle + 1" using occurs_at_bound [OF o] by simp
    with None assms o show False by (auto simp: first_in_def)
  qed
  then have "str_find needle hay = None" by (simp add: str_find_None)
  then show ?thesis using None by simp
qed

lemma slice_occurs:
  "i + length needle \<le> length hay \<Longrightarrow>
     \<exists>w. slice hay i (length needle) = Some w \<and> (w = needle \<longleftrightarrow> occurs_at needle hay i)"
  by (simp add: slice_def occurs_at_take)

text \<open>
  The candidate loop: when every occurrence in the eight offsets has its bit set and the bits
  are bits 7 of bytes, the loop finds the first occurrence and reads inside the haystack.
\<close>

lemma candidate_loop_first:
  assumes "offset + 8 + length needle \<le> length hay + 1"
    and "\<And>n. bit c n \<Longrightarrow> \<exists>i<8. n = 8 * i + 7"
    and "\<And>i. i < 8 \<Longrightarrow> occurs_at needle hay (offset + i) \<Longrightarrow> bit c (8 * i + 7)"
  shows "\<exists>r. candidate_loop needle hay offset c = Some r \<and> first_in needle hay offset (offset + 8) r"
  using assms
proof (induction needle hay offset c rule: candidate_loop.induct)
  case (1 needle hay offset c)
  show ?case
  proof (cases "c = 0")
    case True
    have "\<not> occurs_at needle hay j" if "offset \<le> j" "j < offset + 8" for j
    proof -
      have "j - offset < 8" using that by linarith
      then show ?thesis using "1.prems"(3) [of "j - offset"] that True by auto
    qed
    then show ?thesis using True by (simp add: candidate_loop.simps first_in_def)
  next
    case False
    let ?t = "trailing_zeros c" let ?i = "offset + ?t div 8"
    obtain i where i: "i < 8" "?t = 8 * i + 7"
      using "1.prems"(2) [OF trailing_zeros_bit(1) [OF False]] by blast
    then have ti: "?t div 8 = i" by simp
    have below: "\<not> occurs_at needle hay (offset + j)" if "j < i" for j
      using "1.prems"(3) [of j] trailing_zeros_bit(3) [OF False, of "8 * j + 7"] that i by auto
    have "?i + length needle \<le> length hay" using "1.prems"(1) i ti by simp
    then obtain w where w: "slice hay ?i (length needle) = Some w" "w = needle \<longleftrightarrow> occurs_at needle hay ?i"
      using slice_occurs by blast
    show ?thesis
    proof (cases "w = needle")
      case True
      have "\<not> occurs_at needle hay j" if "offset \<le> j" "j < offset + i" for j
        using below [of "j - offset"] that by simp
      then have "first_in needle hay offset (offset + 8) (Some ?i)"
        using True w(2) i ti by (simp add: first_in_def)
      then show ?thesis using w(1) True False by (simp add: candidate_loop.simps Let_def)
    next
      case neq: False
      have "\<exists>r. candidate_loop needle hay offset (c AND (c - 1)) = Some r \<and>
          first_in needle hay offset (offset + 8) r"
      proof (rule "1.IH" [OF False refl w(1) neq "1.prems"(1)])
        show "\<exists>i<8. n = 8 * i + 7" if "bit (c AND (c - 1)) n" for n
          using that "1.prems"(2) by (simp add: bit_and_iff)
        show "bit (c AND (c - 1)) (8 * j + 7)" if "j < 8" "occurs_at needle hay (offset + j)" for j
          using that "1.prems"(3) [of j] neq w(2) i ti
          by (auto simp: bit_clear_lowest [OF False])
      qed
      then show ?thesis using w(1) neq False by (simp add: candidate_loop.simps [of _ _ _ c] Let_def)
    qed
  qed
qed

lemma tail_loop_first:
  assumes "starts + length needle \<le> length hay + 1"
  shows "\<exists>r. tail_loop needle hay starts offset = Some r \<and> first_in needle hay offset starts r"
  using assms
proof (induction needle hay starts offset rule: tail_loop.induct)
  case (1 needle hay starts offset)
  show ?case
  proof (cases "offset < starts")
    case True
    then obtain w where w: "slice hay offset (length needle) = Some w"
        "w = needle \<longleftrightarrow> occurs_at needle hay offset"
      using slice_occurs [of offset needle hay] "1.prems" by auto
    show ?thesis
    proof (cases "w = needle")
      case eq: True
      then have "first_in needle hay offset starts (Some offset)"
        using w True by (auto simp: first_in_def)
      then show ?thesis using w eq True by (simp add: tail_loop.simps)
    next
      case neq: False
      obtain r where r: "tail_loop needle hay starts (offset + 1) = Some r"
          "first_in needle hay (offset + 1) starts r"
        using "1.IH" [OF True w(1) neq "1.prems"] by blast
      have "first_in needle hay offset starts r"
        by (rule first_in_step [OF r(2)]) (use neq w in \<open>auto simp: le_less_Suc_eq\<close>)
      then show ?thesis using r(1) w(1) neq True by (simp add: tail_loop.simps [of _ _ _ offset])
    qed
  next
    case False
    then show ?thesis by (auto simp: tail_loop.simps first_in_def)
  qed
qed

lemma slice_nth: "slice xs i n = Some ys \<Longrightarrow> length ys = n \<and> (\<forall>k<n. ys ! k = xs ! (i + k))"
  by (auto simp: slice_def split: if_splits)

lemma xor_byte_zero:
  assumes "length bs = 8" "i < 8" "bs ! i = c" "k < 8"
  shows "\<not> bit (from_le_bytes bs XOR from_le_bytes (replicate 8 c)) (8 * i + k)"
  using bit_from_le_bytes [of bs i k] bit_from_le_bytes [of "replicate 8 c" i k] assms
  by (simp add: bit_xor_iff)

lemma candidate_bit:
  assumes n: "0 < length needle" and o: "occurs_at needle hay (offset + i)" and i: "i < 8"
    and a: "slice hay offset 8 = Some first_word"
    and b: "slice hay (offset + length needle - 1) 8 = Some last_word"
  shows "bit (zero_byte_mask (from_le_bytes first_word XOR from_le_bytes (replicate 8 (needle ! 0)))
     AND zero_byte_mask (from_le_bytes last_word XOR
       from_le_bytes (replicate 8 (needle ! (length needle - 1))))) (8 * i + 7)"
proof -
  have nth: "hay ! (offset + i + k) = needle ! k" if "k < length needle" for k
    using o that by (simp add: occurs_at_nth)
  have "length first_word = 8" "first_word ! i = needle ! 0"
    using slice_nth [OF a] i n nth [of 0] by simp_all
  then have 1: "bit (zero_byte_mask (from_le_bytes first_word XOR
      from_le_bytes (replicate 8 (needle ! 0)))) (8 * i + 7)"
    using zero_byte_detected [OF i xor_byte_zero [OF _ i]] by blast
  have "offset + length needle - 1 + i = offset + i + (length needle - 1)" using n by arith
  then have "last_word ! i = hay ! (offset + i + (length needle - 1))" "length last_word = 8"
    using slice_nth [OF b] i by metis+
  moreover have "hay ! (offset + i + (length needle - 1)) = needle ! (length needle - 1)"
    by (rule nth) (use n in simp)
  ultimately have 2: "bit (zero_byte_mask (from_le_bytes last_word XOR
      from_le_bytes (replicate 8 (needle ! (length needle - 1))))) (8 * i + 7)"
    using zero_byte_detected [OF i xor_byte_zero [OF _ i]] by metis
  show ?thesis using 1 2 by (simp add: bit_and_iff)
qed

lemma word_loop_first:
  assumes "sf_first f = from_le_bytes (replicate 8 (needle ! 0))"
    and "sf_last f = from_le_bytes (replicate 8 (needle ! (length needle - 1)))"
    and "0 < length needle" and "starts + length needle = length hay + 1"
  shows "\<exists>r. word_loop f needle hay starts offset = Some r \<and> first_in needle hay offset starts r"
  using assms
proof (induction f needle hay starts offset rule: word_loop.induct)
  case (1 f needle hay starts offset)
  note len = "1.prems"(3,4)
  show ?case
  proof (cases "8 \<le> starts - offset")
    case False
    then show ?thesis
      using tail_loop_first [of starts needle hay offset] len by (simp add: word_loop.simps)
  next
    case True
    have "offset + 8 \<le> length hay" "offset + length needle - 1 + 8 \<le> length hay"
      using True len by arith+
    then obtain a b where
      ab: "slice hay offset 8 = Some a" "slice hay (offset + length needle - 1) 8 = Some b"
      by (metis slice_def)
    let ?c = "zero_byte_mask (from_le_bytes a XOR sf_first f) AND zero_byte_mask (from_le_bytes b XOR sf_last f)"
    obtain r where r: "candidate_loop needle hay offset ?c = Some r" "first_in needle hay offset (offset + 8) r"
    proof -
      have "\<exists>r. candidate_loop needle hay offset ?c = Some r \<and> first_in needle hay offset (offset + 8) r"
      proof (rule candidate_loop_first)
        show "offset + 8 + length needle \<le> length hay + 1" using True len by arith
        show "\<exists>i<8. n = 8 * i + 7" if "bit ?c n" for n
          using that mask_bits by (auto simp: bit_and_iff)
        show "bit ?c (8 * i + 7)" if "i < 8" "occurs_at needle hay (offset + i)" for i
          using candidate_bit [OF len(1) that(2,1) ab] "1.prems"(1,2) by simp
      qed
      then show ?thesis using that by blast
    qed
    show ?thesis
    proof (cases r)
      case (Some c)
      then show ?thesis
        using r ab True first_in_widen [of needle hay offset "offset + 8" c starts]
        by (simp add: word_loop.simps)
    next
      case None
      obtain r' where r': "word_loop f needle hay starts (offset + 8) = Some r'"
          "first_in needle hay (offset + 8) starts r'"
        using "1.IH" [OF True refl ab r(1) None "1.prems"] by blast
      have "first_in needle hay offset starts r'"
        by (rule first_in_step [OF r'(2)]) (use r(2) None in \<open>auto simp: first_in_def\<close>)
      then show ?thesis using r' r ab None True by (simp add: word_loop.simps [of _ _ _ _ offset])
    qed
  qed
qed

lemma find_bytes_correct:
  assumes "0 < length needle" and "length needle \<le> 7"
  shows "find_bytes (short_finder_new needle) (length needle) hay = Some (str_find needle hay)"
proof (cases "length hay < length needle")
  case True
  have "\<not> occurs_at needle hay i" for i
  proof
    assume "occurs_at needle hay i"
    then show False using occurs_at_bound True by fastforce
  qed
  then have "str_find needle hay = None" by (simp add: str_find_None)
  then show ?thesis using True by (simp add: find_bytes_def)
next
  case False
  let ?f = "short_finder_new needle" and ?s = "length hay - length needle + 1"
  have ne: "needle \<noteq> []" using assms(1) by auto
  have f: "take (length needle) (sf_bytes ?f) = needle"
    "sf_first ?f = from_le_bytes (replicate 8 (needle ! 0))"
    "sf_last ?f = from_le_bytes (replicate 8 (needle ! (length needle - 1)))"
    using ne assms(2) by (simp_all add: short_finder_new_def)
  obtain r where r: "word_loop ?f needle hay ?s 0 = Some r" "first_in needle hay 0 ?s r"
    using word_loop_first [OF f(2,3) assms(1), of ?s hay 0] False by auto
  then show ?thesis
    using first_in_str_find [OF r(2)] False f(1) by (simp add: find_bytes_def)
qed

text \<open>
  A needle of at most seven bytes: the search returns the first byte offset, never reads out
  of range and never reaches the unreachable branch. A one-byte needle is searched as a
  character, which is the same byte in valid UTF-8.
\<close>

lemma short_find_correct:
  assumes "length needle \<le> 7" and "utf8_valid needle"
  shows "short_find (short_finder_new needle) hay = Some (str_find needle hay)"
proof -
  consider "needle = []" | c where "needle = [c]" | "2 \<le> length needle"
    by (cases needle; cases "tl needle") auto
  then show ?thesis
  proof cases
    case 1
    then show ?thesis by (simp add: short_find_def short_finder_new_def)
  next
    case 2
    then have "byte c < 128" using assms(2) utf8_valid_single by simp
    then show ?thesis using 2
      by (simp add: short_find_def short_finder_new_def char_from_byte_def)
  next
    case 3
    moreover have "sf_len (short_finder_new needle) = length needle"
      using 3 assms(1) by (auto simp: short_finder_new_def)
    ultimately show ?thesis using find_bytes_correct [of needle hay] assms(1)
      by (simp add: short_find_def)
  qed
qed

end
