(* ===== verification/Finder.thy ===== *)
theory Finder
  imports Short_Finder "HOL-Library.Monad_Syntax"
begin

text \<open>
  \<open>Finder\<close> of \<open>src/src/search.rs\<close>: the substring search prepared once for a query term.
  Needles of eight bytes or more are searched with Horspool's skip table; when the comparisons
  exceed a budget linear in the haystack the search starts over with the failure function of
  Knuth, Morris and Pratt. \<open>None\<close> is a panic (an index out of range) or a loop that does not
  end; the theorem at the end excludes both.
\<close>

definition at :: "'a list \<Rightarrow> nat \<Rightarrow> 'a option" where
  "at xs i = (if i < length xs then Some (xs ! i) else None)"

record finder =
  fd_value :: str
  fd_skip :: "usize list option"
  fd_prefix :: "usize list"
  fd_short :: short_finder

subsection \<open>Preparing\<close>

fun skip_loop :: "usize \<Rightarrow> usize \<Rightarrow> usize list \<Rightarrow> char list \<Rightarrow> usize list" where
  "skip_loop n i skip [] = skip"
| "skip_loop n i skip (b # bs) = skip_loop n (i + 1) (skip[byte b := n - i - 1]) bs"

text \<open>\<open>while matched > 0 && c != needle[matched] \{ matched = prefix[matched - 1] \}\<close>\<close>

partial_function (option) fall_back :: "str \<Rightarrow> usize list \<Rightarrow> char \<Rightarrow> usize \<Rightarrow> usize option" where
  "fall_back needle table c matched =
     (if matched = 0 then Some 0
      else do {
        d \<leftarrow> at needle matched;
        if c = d then Some matched
        else do { m \<leftarrow> at table (matched - 1); fall_back needle table c m }
      })"

fun prefix_loop :: "str \<Rightarrow> usize list \<Rightarrow> usize list \<Rightarrow> usize list option" where
  "prefix_loop bytes table [] = Some table"
| "prefix_loop bytes table (i # is) =
     do {
       m0 \<leftarrow> at table (i - 1);
       c \<leftarrow> at bytes i;
       m \<leftarrow> fall_back bytes table c m0;
       d \<leftarrow> at bytes m;
       prefix_loop bytes (table[i := (if c = d then m + 1 else m)]) is
     }"

definition finder_new :: "str \<Rightarrow> finder option" where
  "finder_new v =
     (if 8 \<le> length v
      then do {
        table \<leftarrow> prefix_loop v (replicate (length v) 0) [1..<length v];
        Some \<lparr>fd_value = v,
              fd_skip = Some (skip_loop (length v) 0 (replicate 256 (length v)) (take (length v - 1) v)),
              fd_prefix = table, fd_short = short_finder_new v\<rparr>
      }
      else Some \<lparr>fd_value = v, fd_skip = None, fd_prefix = [], fd_short = short_finder_new v\<rparr>)"

subsection \<open>Searching\<close>

fun linear_loop :: "str \<Rightarrow> usize list \<Rightarrow> str \<Rightarrow> usize \<Rightarrow> usize \<Rightarrow> usize option option" where
  "linear_loop needle table [] i matched = Some None"
| "linear_loop needle table (b # bs) i matched =
     do {
       m \<leftarrow> fall_back needle table b matched;
       d \<leftarrow> at needle m;
       let m' = (if b = d then m + 1 else m)
       in if m' = length needle then Some (Some (i + 1 - m'))
          else linear_loop needle table bs (i + 1) m'
     }"

definition linear_find :: "finder \<Rightarrow> str \<Rightarrow> usize option option" where
  "linear_find f hay = linear_loop (fd_value f) (fd_prefix f) hay 0 0"

text \<open>The comparison of one alignment from its end: the bytes left and the comparisons so far.\<close>

fun match_back :: "str \<Rightarrow> str \<Rightarrow> usize \<Rightarrow> usize \<Rightarrow> usize \<Rightarrow> (usize \<times> usize) option" where
  "match_back needle hay offset 0 compared = Some (0, compared)"
| "match_back needle hay offset (Suc i) compared =
     do {
       a \<leftarrow> at hay (offset + i);
       b \<leftarrow> at needle i;
       if a = b then match_back needle hay offset i (compared + 1) else Some (Suc i, compared)
     }"

partial_function (option) long_loop ::
  "finder \<Rightarrow> usize list \<Rightarrow> str \<Rightarrow> usize \<Rightarrow> usize \<Rightarrow> usize \<Rightarrow> usize option option" where
  "long_loop f skip hay budget offset compared =
     (if offset \<le> length hay - length (fd_value f)
      then do {
        (i, compared) \<leftarrow> match_back (fd_value f) hay offset (length (fd_value f)) compared;
        if i = 0 then Some (Some offset)
        else if budget < compared + 1 then linear_find f hay
        else do {
          b \<leftarrow> at hay (offset + length (fd_value f) - 1);
          s \<leftarrow> at skip (byte b);
          long_loop f skip hay budget (offset + s) (compared + 1)
        }
      }
      else Some None)"

definition find_long :: "finder \<Rightarrow> usize list \<Rightarrow> str \<Rightarrow> usize option option" where
  "find_long f skip hay =
     (if length hay < length (fd_value f) then Some None
      else long_loop f skip hay (min (length hay * 4) (2 ^ 64 - 1)) 0 0)"

definition find :: "finder \<Rightarrow> str \<Rightarrow> usize option option" where
  "find f hay =
     (case fd_skip f of
        None \<Rightarrow> short_find (fd_short f) hay
      | Some skip \<Rightarrow> find_long f skip hay)"

subsection \<open>The failure function\<close>

lemma at_Some [simp]: "i < length xs \<Longrightarrow> at xs i = Some (xs ! i)"
  by (simp add: at_def)

text \<open>\<open>ends needle t k\<close>: the first \<open>k\<close> bytes of the needle end the text \<open>t\<close>.\<close>

definition ends :: "'a list \<Rightarrow> 'a list \<Rightarrow> nat \<Rightarrow> bool" where
  "ends needle t k \<longleftrightarrow> k \<le> length needle \<and> suffix (take k needle) t"

lemma ends_0 [simp]: "ends needle t 0"
  by (simp add: ends_def)

lemma ends_le: "ends needle t k \<Longrightarrow> k \<le> length t"
  by (auto simp: ends_def dest: suffix_length_le)

lemma ends_snoc: "ends needle (t @ [c]) (Suc k) \<longleftrightarrow> k < length needle \<and> ends needle t k \<and> needle ! k = c"
  by (auto simp: ends_def take_Suc_conv_app_nth)

text \<open>Two texts that end the same text: the shorter one ends the longer one.\<close>

lemma ends_ends:
  assumes "ends needle t k" and "ends needle t m" and "k \<le> m"
  shows "ends needle (take m needle) k"
proof -
  have "suffix (take k needle) (take m needle)"
    using assms suffix_length_suffix [of "take k needle" t "take m needle"] by (auto simp: ends_def)
  then show ?thesis using assms by (simp add: ends_def)
qed

lemma ends_trans: "ends needle t m \<Longrightarrow> ends needle (take m needle) k \<Longrightarrow> ends needle t k"
  unfolding ends_def using suffix_order.trans by blast

text \<open>
  Entry \<open>k\<close> of the table is the length of the longest proper border of the first \<open>k + 1\<close>
  bytes; \<open>table_ok needle table n\<close> says so of the first \<open>n\<close> entries.
\<close>

definition longest_border :: "'a list \<Rightarrow> nat \<Rightarrow> nat \<Rightarrow> bool" where
  "longest_border needle n b \<longleftrightarrow>
     b < n \<and> ends needle (take n needle) b \<and> (\<forall>k<n. ends needle (take n needle) k \<longrightarrow> k \<le> b)"

definition table_ok :: "'a list \<Rightarrow> nat list \<Rightarrow> nat \<Rightarrow> bool" where
  "table_ok needle table n \<longleftrightarrow>
     n \<le> length table \<and> (\<forall>k<n. longest_border needle (Suc k) (table ! k))"

text \<open>
  The inner loop, from a prefix of length \<open>m\<close> that ends \<open>t\<close>: it stops, and its result is the
  longest such prefix, up to \<open>m\<close>, that the byte \<open>c\<close> continues (0 when there is none).
\<close>

lemma fall_back_longest:
  assumes "table_ok needle table m" and "m < length needle" and "ends needle t m"
  shows "\<exists>r. fall_back needle table c m = Some r \<and> r \<le> m \<and> ends needle t r \<and>
     (r = 0 \<or> needle ! r = c) \<and> (\<forall>k\<le>m. ends needle t k \<and> needle ! k = c \<longrightarrow> k \<le> r)"
  using assms
proof (induction m rule: less_induct)
  case (less m)
  show ?case
  proof (cases "m = 0")
    case True
    then show ?thesis by (simp add: fall_back.simps)
  next
    case False
    show ?thesis
    proof (cases "c = needle ! m")
      case True
      then show ?thesis using False less.prems by (simp add: fall_back.simps)
    next
      case neq: False
      let ?m = "table ! (m - 1)"
      have b: "longest_border needle m ?m"
        using less.prems(1) False by (auto simp: table_ok_def dest: spec [of _ "m - 1"])
      have lt: "?m < m" and em: "ends needle t ?m"
        using b ends_trans [OF less.prems(3)] by (auto simp: longest_border_def)
      have ok: "table_ok needle table ?m"
        using less.prems(1) lt by (auto simp: table_ok_def)
      obtain r where r: "fall_back needle table c ?m = Some r" "r \<le> ?m" "ends needle t r"
          "r = 0 \<or> needle ! r = c" "\<forall>k\<le>?m. ends needle t k \<and> needle ! k = c \<longrightarrow> k \<le> r"
        using less.IH [OF lt ok _ em] less.prems(2) lt by auto
      have "k \<le> r" if "k \<le> m" "ends needle t k" "needle ! k = c" for k
      proof -
        have "k < m" using that neq by (cases "k = m") auto
        moreover have "ends needle (take m needle) k" using ends_ends that less.prems(3) by blast
        ultimately have "k \<le> ?m" using b by (simp add: longest_border_def)
        then show ?thesis using r(5) that by blast
      qed
      moreover have "m \<le> length table" using less.prems(1) by (simp add: table_ok_def)
      then have "m - 1 < length table" using False by arith
      moreover note this
      ultimately show ?thesis
        using r lt neq False less.prems(2) by (auto simp: fall_back.simps [of _ _ _ m])
    qed
  qed
qed

text \<open>One byte more: from the longest prefix below \<open>bound\<close> that ends \<open>t\<close> to that of \<open>t @ [c]\<close>.\<close>

lemma fall_back_step:
  assumes ok: "table_ok needle table m" and m: "m < length needle" "ends needle t m"
    and max: "\<And>k. k < bound \<Longrightarrow> ends needle t k \<Longrightarrow> k \<le> m"
  shows "\<exists>r. fall_back needle table c m = Some r \<and> r \<le> m \<and>
     ends needle (t @ [c]) (if c = needle ! r then r + 1 else r) \<and>
     (\<forall>k<Suc bound. ends needle (t @ [c]) k \<longrightarrow> k \<le> (if c = needle ! r then r + 1 else r))"
proof -
  obtain r where r: "fall_back needle table c m = Some r" "r \<le> m" "ends needle t r"
      "r = 0 \<or> needle ! r = c" "\<forall>k\<le>m. ends needle t k \<and> needle ! k = c \<longrightarrow> k \<le> r"
    using fall_back_longest [OF ok m] by blast
  have e: "ends needle (t @ [c]) (if c = needle ! r then r + 1 else r)"
    using r(2-4) m(1) by (auto simp: ends_snoc)
  have "k \<le> (if c = needle ! r then r + 1 else r)" if k: "k < Suc bound" "ends needle (t @ [c]) k" for k
  proof (cases k)
    case (Suc j)
    then have j: "ends needle t j" "needle ! j = c" using k(2) by (simp_all add: ends_snoc)
    then have "j \<le> r" using max [of j] r(5) k(1) Suc by simp
    then show ?thesis using Suc j r(4) by (cases "j = r") auto
  qed simp
  then show ?thesis using r(1,2) e by blast
qed

lemma prefix_loop_ok:
  assumes "0 < i" and "i \<le> length v" and "length table = length v" and "table_ok v table i"
  shows "\<exists>table'. prefix_loop v table [i..<length v] = Some table' \<and> table_ok v table' (length v)"
  using assms
proof (induction "length v - i" arbitrary: i table)
  case 0
  then have "i = length v" by simp
  then show ?case using 0 by simp
next
  case (Suc n)
  then have i: "i < length v" and n: "n = length v - Suc i" by arith+
  let ?m0 = "table ! (i - 1)"
  have b: "longest_border v i ?m0"
    using Suc.prems(1,4) by (auto simp: table_ok_def dest: spec [of _ "i - 1"])
  have m0: "?m0 < i" "ends v (take i v) ?m0" using b by (simp_all add: longest_border_def)
  have ok: "table_ok v table ?m0" using Suc.prems(4) m0 by (simp add: table_ok_def)
  have max: "\<And>k. k < i \<Longrightarrow> ends v (take i v) k \<Longrightarrow> k \<le> ?m0" using b by (simp add: longest_border_def)
  obtain r where r: "fall_back v table (v ! i) ?m0 = Some r" "r \<le> ?m0"
      "ends v (take i v @ [v ! i]) (if v ! i = v ! r then r + 1 else r)"
      "\<forall>k<Suc i. ends v (take i v @ [v ! i]) k \<longrightarrow> k \<le> (if v ! i = v ! r then r + 1 else r)"
    using fall_back_step [where c = "v ! i", OF ok _ m0(2) max] m0(1) i by auto
  let ?e = "if v ! i = v ! r then r + 1 else r"
  have "longest_border v (Suc i) ?e"
    using r(2-4) m0(1) i by (auto simp: longest_border_def take_Suc_conv_app_nth)
  then have "table_ok v (table[i := ?e]) (Suc i)"
    using Suc.prems(3,4) i by (auto simp: table_ok_def nth_list_update less_Suc_eq)
  then obtain table' where
    "prefix_loop v (table[i := ?e]) [Suc i..<length v] = Some table'" "table_ok v table' (length v)"
    using Suc.hyps(1) [of "Suc i" "table[i := ?e]"] n Suc.prems i by auto
  moreover have "[i..<length v] = i # [Suc i..<length v]" using i by (rule upt_conv_Cons)
  ultimately show ?case using r(1,2) m0(1) i Suc.prems(1,3) by simp
qed

text \<open>An occurrence of the needle is a point of the haystack at which all of it ends.\<close>

lemma occurs_at_ends:
  "occurs_at needle hay i \<longleftrightarrow>
     i + length needle \<le> length hay \<and> ends needle (take (i + length needle) hay) (length needle)"
proof (cases "i + length needle \<le> length hay")
  case True
  then have "take (i + length needle) hay = take i hay @ take (length needle) (drop i hay)"
    by (simp add: take_add)
  then show ?thesis
    using True by (auto simp: occurs_at_take ends_def suffix_def append_eq_append_conv)
next
  case False
  then show ?thesis using occurs_at_bound by blast
qed

lemma linear_loop_correct:
  assumes "table_ok needle table (length needle)" and "hay = t @ bs"
    and "m < length needle" and "ends needle t m"
    and "\<And>k. k \<le> length needle \<Longrightarrow> ends needle t k \<Longrightarrow> k \<le> m"
    and "\<And>j. j + length needle \<le> length t \<Longrightarrow> \<not> occurs_at needle hay j"
  shows "linear_loop needle table bs (length t) m = Some (str_find needle hay)"
  using assms(2-)
proof (induction bs arbitrary: t m)
  case Nil
  have "\<not> occurs_at needle hay j" for j
    using Nil.prems(5) [of j] Nil.prems(1) occurs_at_bound [of needle hay j] by auto
  then have "str_find needle hay = None" by (simp add: str_find_None)
  then show ?case by simp
next
  case (Cons b bs)
  have ok: "table_ok needle table m" using assms(1) Cons.prems(2) by (simp add: table_ok_def)
  have max: "\<And>k. k < Suc (length needle) \<Longrightarrow> ends needle t k \<Longrightarrow> k \<le> m"
    using Cons.prems(4) by simp
  obtain r where r: "fall_back needle table b m = Some r" "r \<le> m"
      "ends needle (t @ [b]) (if b = needle ! r then r + 1 else r)"
      "\<forall>k<Suc (Suc (length needle)). ends needle (t @ [b]) k \<longrightarrow> k \<le> (if b = needle ! r then r + 1 else r)"
    using fall_back_step [where c = b, OF ok Cons.prems(2,3) max] by blast
  let ?m = "if b = needle ! r then r + 1 else r"
  have run: "linear_loop needle table (b # bs) (length t) m =
      (if ?m = length needle then Some (Some (length t + 1 - ?m))
       else linear_loop needle table bs (length t + 1) ?m)"
    using r(1,2) Cons.prems(2) by (simp add: Let_def)
  have hay: "hay = (t @ [b]) @ bs" using Cons.prems(1) by simp
  have tk: "take (length t + 1) hay = t @ [b]" using hay by simp
  have le: "?m \<le> length t + 1" using ends_le [OF r(3)] by simp
  show ?case
  proof (cases "?m = length needle")
    case True
    let ?i = "length t + 1 - length needle"
    have i: "?i + length needle = length t + 1" using le True by simp
    have "occurs_at needle hay ?i"
      using r(3) True i tk hay by (simp add: occurs_at_ends)
    moreover have "\<not> occurs_at needle hay j" if "j < ?i" for j
      using Cons.prems(5) [of j] that i by linarith
    ultimately have "str_find needle hay = Some ?i" by (simp add: str_find_Some)
    then show ?thesis using run True by simp
  next
    case False
    have no: "\<not> occurs_at needle hay j" if j: "j + length needle \<le> length (t @ [b])" for j
    proof (cases "j + length needle \<le> length t")
      case True
      then show ?thesis using Cons.prems(5) by blast
    next
      case not_le: False
      then have e: "j + length needle = length t + 1" using j by simp
      have "\<not> ends needle (t @ [b]) (length needle)"
      proof
        assume "ends needle (t @ [b]) (length needle)"
        then have "length needle \<le> ?m" using r(4) [rule_format, of "length needle"] by simp
        then show False using False r(2) Cons.prems(2) by (auto split: if_splits)
      qed
      then show ?thesis using e tk by (simp add: occurs_at_ends)
    qed
    have lt: "?m < length needle" using False r(2) Cons.prems(2) by (auto split: if_splits)
    have "linear_loop needle table bs (length (t @ [b])) ?m = Some (str_find needle hay)"
    proof (rule Cons.IH [OF hay lt r(3)])
      show "k \<le> ?m" if "k \<le> length needle" "ends needle (t @ [b]) k" for k
        using r(4) [rule_format, of k] that by simp
    qed (rule no)
    then show ?thesis using run False by simp
  qed
qed

subsection \<open>The skip table\<close>

text \<open>
  Below its last \<open>skip\<close> bytes before the end, the needle does not contain the byte: an
  alignment shifted by less than \<open>skip\<close> cannot match the byte under the needle's end.
\<close>

definition skip_ok :: "str \<Rightarrow> usize list \<Rightarrow> nat \<Rightarrow> bool" where
  "skip_ok v skip k \<longleftrightarrow>
     length skip = 256 \<and>
     (\<forall>c. 0 < skip ! byte c \<and> skip ! byte c \<le> length v \<and>
          (\<forall>j<k. length v - 1 < j + skip ! byte c \<longrightarrow> v ! j \<noteq> c))"

lemma skip_loop_ok:
  assumes "skip_ok v skip k" and "k + length bs = length v - 1" and "bs = drop k (take (length v - 1) v)"
  shows "skip_ok v (skip_loop (length v) k skip bs) (length v - 1)"
  using assms
proof (induction bs arbitrary: skip k)
  case (Cons b bs)
  have k: "k < length v - 1" using Cons.prems(2) by simp
  have b: "b = v ! k" using Cons.prems(3) k by (metis nth_take drop_eq_nths hd_drop_conv_nth length_take list.sel(1) min.absorb2 diff_le_self)
  have "skip_ok v (skip[byte b := length v - k - 1]) (k + 1)"
    using Cons.prems(1) k b
    by (auto simp: skip_ok_def nth_list_update less_Suc_eq)
  moreover have "bs = drop (k + 1) (take (length v - 1) v)"
    using Cons.prems(3) by (metis Suc_eq_plus1 drop_Suc list.sel(3) tl_drop)
  ultimately show ?case using Cons.IH [of "skip[byte b := length v - k - 1]" "k + 1"] Cons.prems(2) by simp
qed simp

definition finder_ok :: "finder \<Rightarrow> bool" where
  "finder_ok f \<longleftrightarrow>
     (case fd_skip f of
        None \<Rightarrow> fd_short f = short_finder_new (fd_value f) \<and> length (fd_value f) \<le> 7
      | Some skip \<Rightarrow> 8 \<le> length (fd_value f) \<and> skip_ok (fd_value f) skip (length (fd_value f) - 1) \<and>
          table_ok (fd_value f) (fd_prefix f) (length (fd_value f)))"

lemma finder_new_ok: "\<exists>f. finder_new v = Some f \<and> finder_ok f \<and> fd_value f = v"
proof (cases "8 \<le> length v")
  case True
  have "longest_border v (Suc 0) 0" by (simp add: longest_border_def)
  moreover have "v \<noteq> []" using True by auto
  ultimately have "table_ok v (replicate (length v) 0) 1" using True by (auto simp: table_ok_def)
  then obtain table where t: "prefix_loop v (replicate (length v) 0) [1..<length v] = Some table"
      "table_ok v table (length v)"
    using prefix_loop_ok [of 1 v "replicate (length v) 0"] True by auto
  have "skip_ok v (replicate 256 (length v)) 0" using True by (auto simp: skip_ok_def)
  then have "skip_ok v (skip_loop (length v) 0 (replicate 256 (length v)) (take (length v - 1) v)) (length v - 1)"
    by (rule skip_loop_ok) simp_all
  then show ?thesis using True t by (simp add: finder_new_def finder_ok_def)
next
  case False
  then show ?thesis by (simp add: finder_new_def finder_ok_def)
qed

subsection \<open>Correctness of the search\<close>

lemma linear_find_correct:
  assumes "table_ok (fd_value f) (fd_prefix f) (length (fd_value f))" and "fd_value f \<noteq> []"
  shows "linear_find f hay = Some (str_find (fd_value f) hay)"
  using linear_loop_correct [OF assms(1), of hay "[]" hay 0] assms(2)
  by (simp add: linear_find_def ends_def suffix_def)

lemma match_back_correct:
  assumes "i \<le> length needle" and "offset + length needle \<le> length hay"
    and "\<And>k. i \<le> k \<Longrightarrow> k < length needle \<Longrightarrow> hay ! (offset + k) = needle ! k"
  shows "\<exists>r c. match_back needle hay offset i compared = Some (r, c) \<and>
     (r = 0 \<longleftrightarrow> occurs_at needle hay offset)"
  using assms
proof (induction i arbitrary: compared)
  case 0
  then show ?case by (simp add: occurs_at_nth)
next
  case (Suc i)
  have idx: "offset + i < length hay" "i < length needle" using Suc.prems(1,2) by simp_all
  show ?case
  proof (cases "hay ! (offset + i) = needle ! i")
    case True
    have "hay ! (offset + k) = needle ! k" if "i \<le> k" "k < length needle" for k
      using Suc.prems(3) [of k] that True by (cases "k = i") auto
    then show ?thesis
      using Suc.IH [of "compared + 1"] Suc.prems(1,2) idx True by simp
  next
    case False
    then show ?thesis using idx by (auto simp: occurs_at_nth)
  qed
qed

text \<open>A shift by the skip of the byte under the needle's end passes over no occurrence.\<close>

lemma skip_no_occurrence:
  assumes ok: "skip_ok v skip (length v - 1)" and v: "0 < length v" and b: "hay ! (offset + length v - 1) = b"
    and j: "offset < j" "j < offset + skip ! byte b"
  shows "\<not> occurs_at v hay j"
proof
  assume o: "occurs_at v hay j"
  have s: "skip ! byte b \<le> length v" using ok by (simp add: skip_ok_def)
  let ?k = "offset + length v - 1 - j"
  have k: "?k < length v - 1" "length v - 1 < ?k + skip ! byte b" "j + ?k = offset + length v - 1"
    using j s v by arith+
  then have "v ! ?k = b" using o b by (metis occurs_at_nth diff_le_self order_less_le_trans)
  then show False using ok k by (auto simp: skip_ok_def)
qed

lemma long_loop_correct:
  assumes "skip_ok (fd_value f) skip (length (fd_value f) - 1)"
    and "table_ok (fd_value f) (fd_prefix f) (length (fd_value f))"
    and "0 < length (fd_value f)" and "length (fd_value f) \<le> length hay"
    and "\<And>j. j < offset \<Longrightarrow> \<not> occurs_at (fd_value f) hay j"
  shows "long_loop f skip hay budget offset compared = Some (str_find (fd_value f) hay)"
  using assms(5)
proof (induction "length hay - offset" arbitrary: offset compared rule: less_induct)
  case less
  let ?v = "fd_value f" let ?n = "length ?v"
  show ?case
  proof (cases "offset \<le> length hay - ?n")
    case False
    have "\<not> occurs_at ?v hay j" for j
      using less.prems [of j] occurs_at_bound [of ?v hay j] False by linarith
    then have "str_find ?v hay = None" by (simp add: str_find_None)
    then show ?thesis using False by (simp add: long_loop.simps)
  next
    case True
    then have o: "offset + ?n \<le> length hay" using assms(4) by arith
    obtain r c where rc: "match_back ?v hay offset ?n compared = Some (r, c)"
        "r = 0 \<longleftrightarrow> occurs_at ?v hay offset"
      using match_back_correct [of ?n ?v offset hay compared] o by auto
    show ?thesis
    proof (cases "r = 0")
      case eq: True
      then have "str_find ?v hay = Some offset" using rc(2) less.prems by (simp add: str_find_Some)
      then show ?thesis using eq rc(1) True by (simp add: long_loop.simps)
    next
      case neq: False
      show ?thesis
      proof (cases "budget < c + 1")
        case over: True
        have "linear_find f hay = Some (str_find ?v hay)"
          by (rule linear_find_correct [OF assms(2)]) (use assms(3) in auto)
        then show ?thesis using over neq rc(1) True by (simp add: long_loop.simps)
      next
        case under: False
        let ?b = "hay ! (offset + ?n - 1)" let ?s = "skip ! byte ?b"
        have idx: "offset + ?n - 1 < length hay" using o assms(3) by arith
        have s: "0 < ?s" "byte ?b < length skip" using assms(1) by (simp_all add: skip_ok_def)
        have no: "\<not> occurs_at ?v hay j" if "j < offset + ?s" for j
        proof -
          consider "j < offset" | "j = offset" | "offset < j" by linarith
          then show ?thesis
            using less.prems rc(2) neq skip_no_occurrence [OF assms(1,3) refl _ that] by cases auto
        qed
        have "length hay - (offset + ?s) < length hay - offset" using s(1) o assms(3) by arith
        then have "long_loop f skip hay budget (offset + ?s) (c + 1) = Some (str_find ?v hay)"
          using less.hyps no by blast
        then show ?thesis
          using under neq rc(1) True idx s(2) by (simp add: long_loop.simps [of _ _ _ _ offset])
      qed
    qed
  qed
qed

lemma find_correct:
  assumes "finder_ok f" and "utf8_valid (fd_value f)"
  shows "find f hay = Some (str_find (fd_value f) hay)"
proof (cases "fd_skip f")
  case None
  then show ?thesis using assms short_find_correct by (simp add: find_def finder_ok_def)
next
  case (Some skip)
  then have ok: "skip_ok (fd_value f) skip (length (fd_value f) - 1)"
      "table_ok (fd_value f) (fd_prefix f) (length (fd_value f))" "8 \<le> length (fd_value f)"
    using assms(1) by (simp_all add: finder_ok_def)
  show ?thesis
  proof (cases "length hay < length (fd_value f)")
    case True
    then have "\<not> occurs_at (fd_value f) hay i" for i using occurs_at_bound by fastforce
    then have "str_find (fd_value f) hay = None" by (simp add: str_find_None)
    then show ?thesis using True Some by (simp add: find_def find_long_def)
  next
    case False
    have "0 < length (fd_value f)" using ok(3) by arith
    then have "long_loop f skip hay (min (length hay * 4) (2 ^ 64 - 1)) 0 0 = Some (str_find (fd_value f) hay)"
      by (rule long_loop_correct [OF ok(1,2)]) (use False in auto)
    then show ?thesis using Some False by (simp add: find_def find_long_def)
  qed
qed

text \<open>C33: The prepared substring search is \<open>str::find\<close>: for every needle and haystack, preparing
  and searching end, never index out of range, and return the byte offset of the first
  occurrence, whichever of the three algorithms (words of eight bytes, skip table, failure
  function) runs.\<close>

theorem finder_is_str_find:
  assumes "utf8_valid needle"
  shows "\<exists>f. finder_new needle = Some f \<and> fd_value f = needle \<and>
     (\<forall>hay. find f hay = Some (str_find needle hay))"
  using finder_new_ok [of needle] find_correct assms by metis

theorem finder_is_str_find_witness:
  "Option.bind (finder_new ''abababac'') (\<lambda>f. find f ''xxabababababac'') = Some (Some 6)"
proof -
  have v: "utf8_valid ''abababac''" by code_simp
  have "str_find ''abababac'' ''xxabababababac'' = Some 6" by code_simp
  then show ?thesis using finder_is_str_find [OF v] by auto
qed

end
