(* ===== verification/Glob.thy ===== *)
theory Glob
  imports Finder
begin

text \<open>
  Wildcards of \<open>src/src/search.rs\<close>: the backtracking matcher \<open>glob_match\<close>, and
  \<open>PreparedGlob\<close>, which looks for a literal of the pattern first and decides patterns with one
  literal by prefix and suffix. \<open>glob_spec\<close> is the meaning of a pattern: \<open>*\<close> stands for any
  bytes, \<open>?\<close> for one byte, every other byte for itself.
\<close>

definition star :: char where "star = CHR ''*''"
definition question :: char where "question = CHR ''?''"

lemma star_neq_question [simp]: "star \<noteq> question" "question \<noteq> star"
  by (simp_all add: star_def question_def)

definition has_glob_syntax :: "str \<Rightarrow> bool" where
  "has_glob_syntax v \<longleftrightarrow> star \<in> set v \<or> question \<in> set v"

fun glob_spec :: "str \<Rightarrow> str \<Rightarrow> bool" where
  "glob_spec [] h = (h = [])"
| "glob_spec (x # p) h =
     (if x = star then glob_spec p h \<or> (case h of [] \<Rightarrow> False | _ # t \<Rightarrow> glob_spec (x # p) t)
      else case h of [] \<Rightarrow> False | c # t \<Rightarrow> (x = question \<or> x = c) \<and> glob_spec p t)"

declare glob_spec.simps(2) [simp del]

subsection \<open>The matcher\<close>

text \<open>\<open>while p < pattern.len() && pattern[p] == b'*'\<close>: the position after the stars.\<close>

function skip_stars :: "str \<Rightarrow> usize \<Rightarrow> usize" where
  "skip_stars pattern p =
     (if p < length pattern \<and> pattern ! p = star then skip_stars pattern (p + 1) else p)"
  by pat_completeness auto
termination
  by (relation "measure (\<lambda>(pattern, p). length pattern - p)") auto

declare skip_stars.simps [simp del]

function glob_loop ::
  "str \<Rightarrow> str \<Rightarrow> usize \<Rightarrow> usize \<Rightarrow> usize option \<Rightarrow> usize \<Rightarrow> bool" where
  "glob_loop hay pattern h p st match_after_star =
     (if h < length hay then
        if p < length pattern \<and> (pattern ! p = question \<or> pattern ! p = hay ! h)
        then glob_loop hay pattern (h + 1) (p + 1) st match_after_star
        else if p < length pattern \<and> pattern ! p = star
        then glob_loop hay pattern h (p + 1) (Some p) h
        else case st of
               Some star_index \<Rightarrow>
                 glob_loop hay pattern (match_after_star + 1) (star_index + 1) st (match_after_star + 1)
             | None \<Rightarrow> False
      else skip_stars pattern p = length pattern)"
  by pat_completeness auto
termination
  by (relation "measures [\<lambda>(hay, pattern, h, p, st, m). if h < m then 1 else 0,
        \<lambda>(hay, pattern, h, p, st, m). length hay - m, \<lambda>(hay, pattern, h, p, st, m). length pattern - p]")
     auto

declare glob_loop.simps [simp del]

definition glob_match :: "str \<Rightarrow> str \<Rightarrow> bool" where
  "glob_match hay pattern = glob_loop hay pattern 0 0 None 0"

subsection \<open>Prepared patterns\<close>

record prepared_glob =
  pg_pattern :: str
  pg_literal :: "finder option"
  pg_all_stars :: bool
  pg_single_literal :: bool

definition glob_literals :: "str \<Rightarrow> str list" where
  "glob_literals pattern = filter (\<lambda>w. w \<noteq> []) (split_on (\<lambda>c. c = star \<or> c = question) pattern)"

definition prepared_glob_new :: "str \<Rightarrow> prepared_glob option" where
  "prepared_glob_new pattern =
     do {
       literal \<leftarrow> (case glob_literals pattern of
                    [] \<Rightarrow> Some None
                  | v # _ \<Rightarrow> map_option Some (finder_new v));
       Some \<lparr>pg_pattern = pattern, pg_literal = literal,
             pg_all_stars = list_all (\<lambda>c. c = star) pattern,
             pg_single_literal = (question \<notin> set pattern \<and> tl (glob_literals pattern) = [])\<rparr>
     }"

definition prepared_glob_matches :: "prepared_glob \<Rightarrow> str \<Rightarrow> bool option" where
  "prepared_glob_matches g hay =
     (if pg_single_literal g
      then do {
        literal \<leftarrow> map_option fd_value (pg_literal g);
        Some ((prefix [star] (pg_pattern g) \<or> prefix literal hay) \<and>
              (suffix [star] (pg_pattern g) \<or> suffix literal hay))
      }
      else Some (glob_match hay (pg_pattern g)))"

definition prepared_glob_score :: "prepared_glob \<Rightarrow> str \<Rightarrow> i64 option option" where
  "prepared_glob_score g hay =
     (if pg_all_stars g then Some (Some (int (length (pg_pattern g))))
      else do {
        start \<leftarrow> (case pg_literal g of Some literal \<Rightarrow> find literal hay | None \<Rightarrow> Some (Some 0));
        case start of
          None \<Rightarrow> Some None
        | Some s \<Rightarrow> do {
            m \<leftarrow> prepared_glob_matches g hay;
            Some (if m then Some (int s * 2 + int (length (pg_pattern g))) else None)
          }
      })"

text \<open>The scorer before preparation (\<open>test_reference::glob_score\<close>).\<close>

definition first_literal_offset :: "str \<Rightarrow> str \<Rightarrow> usize option" where
  "first_literal_offset hay pattern =
     (case glob_literals pattern of [] \<Rightarrow> None | literal # _ \<Rightarrow> str_find literal hay)"

definition ref_glob_score :: "str \<Rightarrow> str \<Rightarrow> i64 option" where
  "ref_glob_score hay pattern =
     (let start_penalty = int (case first_literal_offset hay pattern of Some n \<Rightarrow> n | None \<Rightarrow> 0)
      in if glob_match hay pattern then Some (start_penalty * 2 + int (length pattern)) else None)"

subsection \<open>The meaning of patterns\<close>

lemma glob_spec_star: "glob_spec (star # p) h \<longleftrightarrow> (\<exists>j \<le> length h. glob_spec p (drop j h))"
proof (induction h)
  case Nil
  then show ?case by (simp add: glob_spec.simps)
next
  case (Cons c h)
  have "(\<exists>j \<le> length (c # h). glob_spec p (drop j (c # h))) \<longleftrightarrow>
      glob_spec p (c # h) \<or> (\<exists>j \<le> length h. glob_spec p (drop j h))"
    by (metis (no_types, lifting) drop0 drop_Suc_Cons le_SucI length_Cons not0_implies_Suc Suc_le_mono zero_le)
  then show ?case using Cons by (simp add: glob_spec.simps(2) [of star p "c # h"])
qed

lemma glob_spec_plain: "x \<noteq> star \<Longrightarrow>
  glob_spec (x # p) h \<longleftrightarrow> (\<exists>c t. h = c # t \<and> (x = question \<or> x = c) \<and> glob_spec p t)"
  by (cases h) (auto simp: glob_spec.simps)

lemma glob_spec_star_from:
  assumes "h \<le> length hay"
  shows "glob_spec (star # q) (drop h hay) \<longleftrightarrow> (\<exists>k \<le> length hay. h \<le> k \<and> glob_spec q (drop k hay))"
proof
  assume "glob_spec (star # q) (drop h hay)"
  then obtain j where "j \<le> length (drop h hay)" "glob_spec q (drop j (drop h hay))"
    by (auto simp: glob_spec_star)
  then have "j + h \<le> length hay" "h \<le> j + h" "glob_spec q (drop (j + h) hay)"
    using assms by simp_all
  then show "\<exists>k \<le> length hay. h \<le> k \<and> glob_spec q (drop k hay)" by blast
next
  assume "\<exists>k \<le> length hay. h \<le> k \<and> glob_spec q (drop k hay)"
  then obtain k where k: "k \<le> length hay" "h \<le> k" "glob_spec q (drop k hay)" by blast
  then have "k - h \<le> length (drop h hay)" "glob_spec q (drop (k - h) (drop h hay))" by simp_all
  then show "glob_spec (star # q) (drop h hay)" unfolding glob_spec_star by blast
qed

text \<open>A part of the pattern without stars takes as many bytes as it is long.\<close>

lemma glob_spec_starless_append:
  "star \<notin> set q \<Longrightarrow> glob_spec (q @ r) h \<Longrightarrow> length q \<le> length h \<and> glob_spec r (drop (length q) h)"
proof (induction q arbitrary: h)
  case (Cons x q)
  then obtain c t where h: "h = c # t" "glob_spec (q @ r) t" by (auto simp: glob_spec_plain)
  then show ?case using Cons by auto
qed simp

lemma skip_stars_spec: "p \<le> length pattern \<Longrightarrow> skip_stars pattern p = length pattern \<longleftrightarrow> glob_spec (drop p pattern) []"
proof (induction pattern p rule: skip_stars.induct)
  case (1 pattern p)
  show ?case
  proof (cases "p < length pattern")
    case True
    then have d: "drop p pattern = pattern ! p # drop (Suc p) pattern" by (simp add: Cons_nth_drop_Suc)
    show ?thesis
      using "1.IH" True unfolding d
      by (subst skip_stars.simps) (auto simp: glob_spec.simps(2))
  next
    case False
    then show ?thesis using "1.prems" by (subst skip_stars.simps) auto
  qed
qed

subsection \<open>Correctness of the matcher\<close>

text \<open>
  What the loop decides from a state: the rest of the pattern matches the rest of the text, or
  the last star takes more than it has taken so far.
\<close>

definition retry :: "str \<Rightarrow> str \<Rightarrow> usize option \<Rightarrow> usize \<Rightarrow> bool" where
  "retry hay pattern st m \<longleftrightarrow>
     (case st of None \<Rightarrow> False
      | Some s \<Rightarrow> \<exists>k \<le> length hay. m < k \<and> glob_spec (drop (s + 1) pattern) (drop k hay))"

text \<open>The state of the loop: what was matched since the last star contains no star.\<close>

definition glob_inv :: "str \<Rightarrow> str \<Rightarrow> usize \<Rightarrow> usize \<Rightarrow> usize option \<Rightarrow> usize \<Rightarrow> bool" where
  "glob_inv hay pattern h p st m \<longleftrightarrow>
     h \<le> length hay \<and> p \<le> length pattern \<and>
     (case st of None \<Rightarrow> True
      | Some s \<Rightarrow> s < p \<and> m \<le> h \<and> h - m = p - (s + 1) \<and>
          star \<notin> set (take (p - (s + 1)) (drop (s + 1) pattern)))"

lemma retry_start:
  assumes "glob_inv hay pattern h p (Some s) m" and "k \<le> length hay" and "m < k"
    and "glob_spec (drop (s + 1) pattern) (drop k hay)"
  shows "k + (h - m) \<le> length hay \<and> glob_spec (drop p pattern) (drop (k + (h - m)) hay)"
proof -
  let ?q = "take (p - (s + 1)) (drop (s + 1) pattern)"
  have sp: "s < p" "p \<le> length pattern" using assms(1) by (simp_all add: glob_inv_def)
  then have "drop p pattern = drop (p - (s + 1)) (drop (s + 1) pattern)" by simp
  then have "drop (s + 1) pattern = ?q @ drop p pattern" by (simp only: append_take_drop_id)
  moreover have "star \<notin> set ?q" "length ?q = h - m" using assms(1) sp by (simp_all add: glob_inv_def)
  ultimately have q: "star \<notin> set ?q" "length ?q = h - m" "drop (s + 1) pattern = ?q @ drop p pattern"
    by blast+
  have "glob_spec (?q @ drop p pattern) (drop k hay)" using assms(4) q(3) by simp
  then have "length ?q \<le> length (drop k hay)" "glob_spec (drop p pattern) (drop (length ?q) (drop k hay))"
    using glob_spec_starless_append [OF q(1)] by blast+
  then show ?thesis using q(2) assms(2) by (simp add: add.commute)
qed

lemma drop_nth_Cons: "p < length xs \<Longrightarrow> drop p xs = xs ! p # drop (Suc p) xs"
  by (simp add: Cons_nth_drop_Suc)

lemma retry_step:
  assumes "m < length hay"
  shows "retry hay pattern (Some s) m \<longleftrightarrow>
     glob_spec (drop (s + 1) pattern) (drop (m + 1) hay) \<or> retry hay pattern (Some s) (m + 1)"
proof -
  have "m < k \<longleftrightarrow> k = m + 1 \<or> m + 1 < k" for k by arith
  then have "retry hay pattern (Some s) m \<longleftrightarrow> (\<exists>k \<le> length hay. (k = m + 1 \<or> m + 1 < k) \<and>
      glob_spec (drop (s + 1) pattern) (drop k hay))"
    by (simp add: retry_def)
  then show ?thesis using assms unfolding retry_def option.case by (metis Suc_eq_plus1 Suc_leI)
qed

lemma glob_inv_match:
  assumes "glob_inv hay pattern h p st m" "h < length hay" "p < length pattern" "pattern ! p \<noteq> star"
  shows "glob_inv hay pattern (h + 1) (p + 1) st m"
proof (cases st)
  case (Some s)
  then have sp: "s < p" "m \<le> h" "h - m = p - (s + 1)" "star \<notin> set (take (p - (s + 1)) (drop (s + 1) pattern))"
    using assms(1) by (simp_all add: glob_inv_def)
  have "take (p + 1 - (s + 1)) (drop (s + 1) pattern) =
      take (p - (s + 1)) (drop (s + 1) pattern) @ [pattern ! p]"
    using sp(1) assms(3) take_Suc_conv_app_nth [of "p - (s + 1)" "drop (s + 1) pattern"]
    by (simp add: Suc_diff_le [symmetric])
  then show ?thesis using Some sp assms by (simp add: glob_inv_def)
qed (use assms in \<open>simp add: glob_inv_def\<close>)

text \<open>With no star in the text the loop decides exactly what its state says.\<close>

lemma glob_loop_complete:
  assumes "star \<notin> set hay" and "glob_inv hay pattern h p st m"
  shows "glob_loop hay pattern h p st m \<longleftrightarrow>
     glob_spec (drop p pattern) (drop h hay) \<or> retry hay pattern st m"
  using assms
proof (induction hay pattern h p st m rule: glob_loop.induct)
  case (1 hay pattern h p st m)
  have bounds: "h \<le> length hay" "p \<le> length pattern" using "1.prems"(2) by (simp_all add: glob_inv_def)
  show ?case
  proof (cases "h < length hay")
    case False
    then have h: "h = length hay" using bounds by simp
    have "\<not> retry hay pattern st m"
    proof
      assume "retry hay pattern st m"
      then obtain s k where sk: "st = Some s" "k \<le> length hay" "m < k"
          "glob_spec (drop (s + 1) pattern) (drop k hay)"
        by (auto simp: retry_def split: option.splits)
      have "k + (h - m) \<le> length hay" using retry_start "1.prems"(2) sk by blast
      moreover have "m \<le> h" using "1.prems"(2) sk(1) by (simp add: glob_inv_def)
      ultimately show False using sk(3) h by simp
    qed
    then show ?thesis
      using False h bounds(2) by (simp add: glob_loop.simps skip_stars_spec)
  next
    case h: True
    have dh: "drop h hay = hay ! h # drop (Suc h) hay" using h by (rule drop_nth_Cons)
    have nostar: "hay ! h \<noteq> star" using "1.prems"(1) h by (metis nth_mem)
    show ?thesis
    proof (cases "p < length pattern \<and> (pattern ! p = question \<or> pattern ! p = hay ! h)")
      case True
      then have ns: "pattern ! p \<noteq> star" using nostar by auto
      have "glob_spec (drop p pattern) (drop h hay) \<longleftrightarrow> glob_spec (drop (p + 1) pattern) (drop (h + 1) hay)"
        using True drop_nth_Cons [of p pattern] dh ns by (auto simp: glob_spec_plain)
      then show ?thesis
        using "1.IH"(1) [OF h True "1.prems"(1) glob_inv_match [OF "1.prems"(2) h _ ns]] True h
        by (simp add: glob_loop.simps [of hay pattern h])
    next
      case nomatch: False
      show ?thesis
      proof (cases "p < length pattern \<and> pattern ! p = star")
        case True
        have dp: "drop p pattern = star # drop (Suc p) pattern"
          using True drop_nth_Cons [of p pattern] by simp
        have inv: "glob_inv hay pattern h (p + 1) (Some p) h" using True bounds by (simp add: glob_inv_def)
        have new: "glob_spec (drop (p + 1) pattern) (drop h hay) \<or> retry hay pattern (Some p) h \<longleftrightarrow>
            glob_spec (drop p pattern) (drop h hay)"
          unfolding dp glob_spec_star_from [OF bounds(1)] retry_def option.case Suc_eq_plus1 [symmetric]
          using bounds(1) by (metis le_eq_less_or_eq order_refl)
        have old: "glob_spec (drop p pattern) (drop h hay)" if r: "retry hay pattern st m"
        proof -
          obtain s k where sk: "st = Some s" "k \<le> length hay" "m < k"
              "glob_spec (drop (s + 1) pattern) (drop k hay)"
            using r by (auto simp: retry_def split: option.splits)
          have ks: "k + (h - m) \<le> length hay" "glob_spec (drop p pattern) (drop (k + (h - m)) hay)"
            using retry_start "1.prems"(2) sk by blast+
          moreover have "h \<le> k + (h - m)" using sk(3) by simp
          ultimately show ?thesis
            using ks bounds(1) unfolding dp glob_spec_star_from [OF bounds(1)] glob_spec_star_from [OF ks(1)]
            by (metis order_trans)
        qed
        have "glob_loop hay pattern h p st m = glob_loop hay pattern h (p + 1) (Some p) h"
          using h nomatch True by (subst glob_loop.simps) simp
        also have "\<dots> \<longleftrightarrow> glob_spec (drop p pattern) (drop h hay)"
          using "1.IH"(2) [OF h nomatch True "1.prems"(1) inv] new by simp
        finally show ?thesis using old by blast
      next
        case nostarp: False
        have dead: "\<not> glob_spec (drop p pattern) (drop h hay)"
        proof (cases "p < length pattern")
          case True
          then have "drop p pattern = pattern ! p # drop (Suc p) pattern" by (rule drop_nth_Cons)
          then show ?thesis using True nomatch nostarp dh by (auto simp: glob_spec_plain)
        next
          case False
          then show ?thesis using bounds dh by simp
        qed
        show ?thesis
        proof (cases st)
          case None
          then show ?thesis using h nomatch nostarp dead
            by (subst glob_loop.simps) (auto simp: retry_def)
        next
          case (Some s)
          have sp: "s < p" "m \<le> h" using "1.prems"(2) Some by (simp_all add: glob_inv_def)
          have inv: "glob_inv hay pattern (m + 1) (s + 1) (Some s) (m + 1)"
            using sp h bounds by (simp add: glob_inv_def)
          have "glob_loop hay pattern h p st m = glob_loop hay pattern (m + 1) (s + 1) st (m + 1)"
            using h nomatch nostarp Some by (subst glob_loop.simps) auto
          then show ?thesis
            using "1.IH"(3) [OF h nomatch nostarp Some "1.prems"(1)] inv Some dead
              retry_step [of m hay pattern s] sp h by simp
        qed
      qed
    qed
  qed
qed

text \<open>Whatever the text, a reported match is one.\<close>

lemma glob_loop_sound:
  assumes "h \<le> length hay" and "p \<le> length pattern"
    and "\<And>s. st = Some s \<Longrightarrow> s < length pattern \<and> m \<le> h"
    and "glob_loop hay pattern h p st m"
  shows "glob_spec (drop p pattern) (drop h hay) \<or> retry hay pattern st m"
  using assms
proof (induction hay pattern h p st m rule: glob_loop.induct)
  case (1 hay pattern h p st m)
  show ?case
  proof (cases "h < length hay")
    case False
    then show ?thesis using "1.prems" by (simp add: glob_loop.simps skip_stars_spec)
  next
    case h: True
    have dh: "drop h hay = hay ! h # drop (Suc h) hay" using h by (rule drop_nth_Cons)
    show ?thesis
    proof (cases "p < length pattern \<and> (pattern ! p = question \<or> pattern ! p = hay ! h)")
      case True
      then have dp: "drop p pattern = pattern ! p # drop (Suc p) pattern" by (simp add: drop_nth_Cons)
      have "glob_loop hay pattern (h + 1) (p + 1) st m"
        using "1.prems"(4) h True by (simp add: glob_loop.simps [of hay pattern h])
      then have "glob_spec (drop (p + 1) pattern) (drop (h + 1) hay) \<or> retry hay pattern st m"
        using "1.IH"(1) [OF h True] h True "1.prems"(3) by fastforce
      moreover have "glob_spec (drop p pattern) (drop h hay)"
        if g: "glob_spec (drop (p + 1) pattern) (drop (h + 1) hay)"
      proof (cases "pattern ! p = star")
        case True
        then show ?thesis
          using g h unfolding dp by (simp add: glob_spec_star_from) (metis Suc_leI lessI less_imp_le)
      next
        case False
        then show ?thesis using g True unfolding dp dh by (auto simp: glob_spec_plain)
      qed
      ultimately show ?thesis by blast
    next
      case nomatch: False
      show ?thesis
      proof (cases "p < length pattern \<and> pattern ! p = star")
        case True
        then have dp: "drop p pattern = star # drop (Suc p) pattern" using drop_nth_Cons [of p pattern] by simp
        have "glob_loop hay pattern h (p + 1) (Some p) h"
          using "1.prems"(4) h nomatch True by (subst (asm) glob_loop.simps) simp
        then have "glob_spec (drop (p + 1) pattern) (drop h hay) \<or> retry hay pattern (Some p) h"
          using "1.IH"(2) [OF h nomatch True] h True by simp
        then show ?thesis
          using h unfolding dp by (auto simp: glob_spec_star_from retry_def intro: less_imp_le)
      next
        case nostarp: False
        obtain s where s: "st = Some s" "glob_loop hay pattern (m + 1) (s + 1) (Some s) (m + 1)"
          using "1.prems"(4) h nomatch nostarp
          by (subst (asm) glob_loop.simps) (auto split: option.splits if_splits)
        have "s < length pattern" "m < length hay" using "1.prems"(3) s(1) h by fastforce+
        then have "glob_spec (drop (s + 1) pattern) (drop (m + 1) hay) \<or> retry hay pattern (Some s) (m + 1)"
          using "1.IH"(3) [OF h nomatch nostarp s(1)] s by simp
        then show ?thesis using retry_step [OF \<open>m < length hay\<close>] s(1) by simp
      qed
    qed
  qed
qed

text \<open>C35: The wildcard matcher is correct on texts without a star: the backtracking loop, which
  keeps only the last star, ends and returns whether the pattern matches the text.\<close>

theorem glob_match_correct:
  assumes "CHR ''*'' \<notin> set hay"
  shows "glob_match hay pattern \<longleftrightarrow> glob_spec pattern hay"
  using glob_loop_complete [of hay pattern 0 0 None 0] assms
  by (simp add: glob_match_def glob_inv_def retry_def star_def)

theorem glob_match_correct_witness:
  "glob_match ''chatgpt notes.pdf'' ''*gpt*pdf'' \<longleftrightarrow> glob_spec ''*gpt*pdf'' ''chatgpt notes.pdf''"
  by (rule glob_match_correct) code_simp

text \<open>On every text a reported match is a match: the matcher has no false positives.\<close>

theorem glob_match_sound:
  assumes "glob_match hay pattern"
  shows "glob_spec pattern hay"
  using glob_loop_sound [of 0 hay 0 pattern None 0] assms by (simp add: glob_match_def retry_def)

theorem glob_match_sound_witness:
  "glob_match ''a*b'' ''a?b'' \<and> glob_spec ''a?b'' ''a*b''"
proof -
  have m: "glob_match ''a*b'' ''a?b''" by code_simp
  show ?thesis using m glob_match_sound [OF m] by simp
qed

lemma skip_stars_Cons: "skip_stars (x # pattern) (Suc p) = Suc (skip_stars pattern p)"
  by (induction pattern p rule: skip_stars.induct) (subst (1 2) skip_stars.simps, simp)

text \<open>A first byte that is consumed on both sides changes nothing of the rest of the run.\<close>

lemma glob_loop_Cons:
  "glob_loop (c # hay) (x # pattern) (Suc h) (Suc p) (map_option Suc st) (Suc m) = glob_loop hay pattern h p st m"
proof (induction hay pattern h p st m rule: glob_loop.induct)
  case (1 hay pattern h p st m)
  consider "\<not> h < length hay"
    | "h < length hay" "p < length pattern \<and> (pattern ! p = question \<or> pattern ! p = hay ! h)"
    | "h < length hay" "\<not> (p < length pattern \<and> (pattern ! p = question \<or> pattern ! p = hay ! h))"
        "p < length pattern \<and> pattern ! p = star"
    | "h < length hay" "\<not> (p < length pattern \<and> (pattern ! p = question \<or> pattern ! p = hay ! h))"
        "\<not> (p < length pattern \<and> pattern ! p = star)" by blast
  then show ?case
  proof cases
    case 1
    then show ?thesis by (subst (1 2) glob_loop.simps) (simp add: skip_stars_Cons)
  next
    case 2
    with "1.IH"(1) [OF 2] show ?thesis by (subst (1 2) glob_loop.simps) simp
  next
    case 3
    with "1.IH"(2) [OF 3] show ?thesis by (subst (1 2) glob_loop.simps) auto
  next
    case 4
    show ?thesis
    proof (cases st)
      case None
      with 4 show ?thesis by (subst (1 2) glob_loop.simps) auto
    next
      case (Some s)
      with 4 "1.IH"(3) [OF 4 Some] show ?thesis by (subst (1 2) glob_loop.simps) auto
    qed
  qed
qed

lemma glob_loop_no_star: "glob_loop hay pattern h p None m = glob_loop hay pattern h p None m'"
proof (induction hay pattern h p "None :: usize option" m rule: glob_loop.induct)
  case (1 hay pattern h p m)
  then show ?case by (subst (1 2) glob_loop.simps) auto
qed

text \<open>A star of the pattern that meets a star of the name is used up. The loop compares bytes before
  it looks for a wildcard, so when the pattern and the name both begin with a star, the rest of the
  pattern has to match exactly the rest of the name, as if the star of the pattern were an ordinary
  byte. (So \<open>*c\<close>, which means every name that ends with c, does not match the name
  \<open>*abc\<close>.)\<close>

theorem glob_match_spends_star:
  assumes "CHR ''*'' \<notin> set rest"
  shows "glob_match (''*'' @ rest) (''*'' @ pattern) \<longleftrightarrow> glob_spec pattern rest"
proof -
  have "glob_match (''*'' @ rest) (''*'' @ pattern) = glob_loop (star # rest) (star # pattern) 1 1 None 0"
    unfolding glob_match_def by (subst glob_loop.simps) (simp add: star_def)
  also have "\<dots> = glob_loop (star # rest) (star # pattern) (Suc 0) (Suc 0) (map_option Suc None) (Suc 0)"
    using glob_loop_no_star by simp
  also have "\<dots> = glob_match rest pattern"
    unfolding glob_match_def by (rule glob_loop_Cons)
  also have "\<dots> \<longleftrightarrow> glob_spec pattern rest"
    using glob_loop_complete [of rest pattern 0 0 None 0] assms
    by (simp add: glob_match_def glob_inv_def retry_def star_def)
  finally show ?thesis .
qed

theorem glob_match_spends_star_witness:
  "\<not> glob_match ''*abc'' ''*c'' \<and> glob_spec ''*c'' ''*abc''"
proof -
  have "CHR ''*'' \<notin> set ''abc''" by code_simp
  from glob_match_spends_star [OF this, of "''c''"] have "glob_match ''*abc'' ''*c'' \<longleftrightarrow> glob_spec ''c'' ''abc''" by simp
  moreover have "\<not> glob_spec ''c'' ''abc''" "glob_spec ''*c'' ''*abc''" by code_simp+
  ultimately show ?thesis by simp
qed

subsection \<open>Correctness of prepared patterns\<close>

lemma glob_spec_append: "glob_spec (q @ r) h \<Longrightarrow> \<exists>us. \<exists>vs. h = us @ vs \<and> glob_spec r vs"
proof (induction q arbitrary: h)
  case Nil
  then show ?case by (intro exI [of _ "[]"] exI [of _ h]) simp
next
  case (Cons x q)
  show ?case
  proof (cases "x = star")
    case True
    then obtain j where "glob_spec (q @ r) (drop j h)" using Cons.prems by (auto simp: glob_spec_star)
    then obtain us vs where "drop j h = us @ vs" "glob_spec r vs" using Cons.IH by blast
    moreover from this(1) have "h = (take j h @ us) @ vs" by (metis append_take_drop_id append.assoc)
    ultimately show ?thesis by blast
  next
    case False
    then obtain c t where h: "h = c # t" "glob_spec (q @ r) t" using Cons.prems by (auto simp: glob_spec_plain)
    then obtain us vs where "t = us @ vs" "glob_spec r vs" using Cons.IH by blast
    then have "h = (c # us) @ vs" "glob_spec r vs" using h(1) by simp_all
    then show ?thesis by blast
  qed
qed

lemma glob_spec_literal:
  "star \<notin> set w \<Longrightarrow> question \<notin> set w \<Longrightarrow>
     glob_spec (w @ r) h \<longleftrightarrow> (\<exists>t. h = w @ t \<and> glob_spec r t)"
proof (induction w arbitrary: h)
  case (Cons x w)
  then show ?case using glob_spec_plain [of x "w @ r" h] by auto
qed simp

lemma glob_spec_stars: "glob_spec (replicate n star @ r) h \<longleftrightarrow>
  (if n = 0 then glob_spec r h else \<exists>us vs. h = us @ vs \<and> glob_spec r vs)"
proof (induction n arbitrary: h)
  case (Suc n)
  have drops: "(\<exists>j \<le> length h. P (drop j h)) \<longleftrightarrow> (\<exists>us vs. h = us @ vs \<and> P vs)" for P
    by (metis append_eq_conv_conj append_take_drop_id length_append le_add1)
  show ?case
    unfolding replicate_Suc append_Cons glob_spec_star drops
    using Suc.IH by (auto simp: append_eq_append_conv2) (metis append_Nil append.assoc)+
qed simp

lemma glob_literal_chars: "w \<in> set (glob_literals pattern) \<Longrightarrow> w \<noteq> [] \<and> star \<notin> set w \<and> question \<notin> set w"
  by (auto simp: glob_literals_def dest: split_on_pieces)

lemma glob_literal_needed:
  assumes "glob_spec pattern h" and "w \<in> set (glob_literals pattern)"
  shows "contains h w"
proof -
  have w: "star \<notin> set w" "question \<notin> set w" using glob_literal_chars [OF assms(2)] by simp_all
  have "contains pattern w" using assms(2) split_on_contains by (auto simp: glob_literals_def)
  then obtain us vs where "pattern = us @ w @ vs" by (auto simp: contains_append)
  then obtain a b where "h = a @ b" "glob_spec (w @ vs) b" using assms(1) glob_spec_append by blast
  then show ?thesis using glob_spec_literal [OF w] by (auto simp: contains_append)
qed

lemma split_on_all_sep: "filter (\<lambda>w. w \<noteq> []) (split_on p s) = [] \<longleftrightarrow> list_all p s"
  by (induction s) (auto split: list.splits)

text \<open>A pattern without \<open>?\<close> and with one literal is that literal between two runs of stars.\<close>

lemma glob_literals_Cons_star: "glob_literals (star # s) = glob_literals s"
  by (simp add: glob_literals_def)

lemma glob_literals_single:
  "question \<notin> set pattern \<Longrightarrow> glob_literals pattern = [w] \<Longrightarrow>
     \<exists>a b. pattern = replicate a star @ w @ replicate b star"
proof (induction pattern)
  case (Cons x s)
  show ?case
  proof (cases "x = star")
    case True
    then obtain a b where "s = replicate a star @ w @ replicate b star"
      using Cons by (auto simp: glob_literals_Cons_star)
    then show ?thesis using True by (intro exI [of _ "Suc a"] exI [of _ b]) simp
  next
    case False
    let ?p = "\<lambda>c. c = star \<or> c = question"
    let ?s = "x # s"
    let ?l = "takeWhile (\<lambda>c. \<not> ?p c) ?s" let ?r = "dropWhile (\<lambda>c. \<not> ?p c) ?s"
    have l: "?l \<noteq> []" using False Cons.prems(1) by auto
    have id: "?s = ?l @ ?r" by (rule takeWhile_dropWhile_id [symmetric])
    have "w = ?l \<and> (\<exists>b. ?r = replicate b star)"
    proof (cases ?r)
      case Nil
      then have "\<And>c. c \<in> set ?s \<Longrightarrow> \<not> ?p c" unfolding dropWhile_eq_Nil_conv by blast
      then have "split_on ?p ?s = [?s]" by (rule split_on_no_sep)
      then have "glob_literals ?s = [?s]" unfolding glob_literals_def by simp
      then show ?thesis using Cons.prems(2) id Nil by (metis append_Nil2 list.inject replicate_0)
    next
      case (Cons y t)
      have y: "y = star"
        using hd_dropWhile [of "\<lambda>c. \<not> ?p c" ?s] Cons Cons.prems(1) set_dropWhileD
        by (metis list.sel(1) list.set_intros(1) list.simps(3))
      have "glob_literals ?s = ?l # filter (\<lambda>w. w \<noteq> []) (split_on ?p t)"
        using l Cons unfolding glob_literals_def by (subst split_on_unfold) simp
      then have "w = ?l" "filter (\<lambda>w. w \<noteq> []) (split_on ?p t) = []" using Cons.prems(2) by simp_all
      then have "w = ?l" "list_all ?p t" using split_on_all_sep [of ?p t] by blast+
      moreover have "question \<notin> set t"
        using Cons.prems(1) id Cons by (metis Un_iff list.set_intros(2) set_append)
      ultimately have "w = ?l" "\<forall>c \<in> set t. c = star" by (auto simp: list_all_iff)
      then have "w = ?l" "t = replicate (length t) star" by (metis replicate_length_same)+
      then show ?thesis using Cons y by (metis replicate_Suc)
    qed
    then obtain b where "?s = replicate 0 star @ w @ replicate b star" using id by auto
    then show ?thesis by blast
  qed
qed (simp add: glob_literals_def)

lemma glob_spec_single:
  assumes "question \<notin> set pattern" and "glob_literals pattern = [w]" and "has_glob_syntax pattern"
  shows "glob_spec pattern h \<longleftrightarrow> contains h w \<and>
     (prefix [star] pattern \<or> prefix w h) \<and> (suffix [star] pattern \<or> suffix w h)"
proof -
  obtain a b where p: "pattern = replicate a star @ w @ replicate b star"
    using glob_literals_single [OF assms(1,2)] by blast
  have w: "w \<noteq> []" "star \<notin> set w" "question \<notin> set w"
    using glob_literal_chars [of w pattern] assms(2) by simp_all
  have ab: "a \<noteq> 0 \<or> b \<noteq> 0" using assms(3) w unfolding p has_glob_syntax_def by auto
  have pre: "prefix [star] pattern \<longleftrightarrow> a \<noteq> 0"
    using w by (cases a; cases w) (auto simp: p)
  have suf: "suffix [star] pattern \<longleftrightarrow> b \<noteq> 0"
  proof (cases b)
    case 0
    then show ?thesis using w by (cases w rule: rev_cases) (auto simp: p suffix_def)
  next
    case (Suc n)
    then have "pattern = (replicate a star @ w @ replicate n star) @ [star]"
      by (simp add: p replicate_append_same)
    then show ?thesis using Suc by (metis nat.simps(3) suffix_def)
  qed
  have tail: "glob_spec (w @ replicate b star) u \<longleftrightarrow> (\<exists>t. u = w @ t \<and> (b = 0 \<longrightarrow> t = []))" for u
    unfolding glob_spec_literal [OF w(2,3)] using glob_spec_stars [of b "[]"] by auto
  show ?thesis
  proof (cases "a = 0")
    case True
    then have "glob_spec pattern h \<longleftrightarrow> (\<exists>t. h = w @ t)" using tail [of h] ab by (simp add: p)
    then show ?thesis
      using True ab unfolding pre suf by (auto simp: prefix_def contains_append intro: exI [of _ "[]"])
  next
    case False
    have "glob_spec pattern h \<longleftrightarrow> (\<exists>us t. h = us @ w @ t \<and> (b = 0 \<longrightarrow> t = []))"
      using False tail unfolding p glob_spec_stars by auto
    moreover have "suffix w h \<Longrightarrow> contains h w" by (metis append_Nil2 contains_append suffix_def)
    ultimately show ?thesis
      using False unfolding pre suf by (cases "b = 0") (auto simp: suffix_def contains_append)
  qed
qed

lemma glob_spec_all_stars: "list_all (\<lambda>c. c = star) pattern \<Longrightarrow> pattern \<noteq> [] \<Longrightarrow> glob_spec pattern h"
proof (induction pattern)
  case (Cons x s)
  then show ?case by (cases "s = []") (auto simp: glob_spec_star intro: exI [of _ "length h"] exI [of _ 0])
qed simp

lemma glob_literals_valid: "utf8_valid pattern \<Longrightarrow> w \<in> set (glob_literals pattern) \<Longrightarrow> utf8_valid w"
  by (rule split_on_valid [of "\<lambda>c. c = star \<or> c = question" pattern])
     (auto simp: glob_literals_def star_def question_def byte_def)

lemma prepared_glob_score_eq:
  assumes "has_glob_syntax pattern" and "utf8_valid pattern"
  shows "\<exists>g. prepared_glob_new pattern = Some g \<and> pg_pattern g = pattern \<and>
     pg_all_stars g = list_all (\<lambda>c. c = star) pattern \<and>
     (\<forall>hay. CHR ''*'' \<notin> set hay \<longrightarrow> prepared_glob_score g hay = Some (ref_glob_score hay pattern))"
proof -
  have ne: "pattern \<noteq> []" using assms(1) by (auto simp: has_glob_syntax_def)
  have lits: "utf8_valid w" if "w \<in> set (glob_literals pattern)" for w
    using glob_literals_valid [OF assms(2) that] .
  obtain l where l: "(case glob_literals pattern of [] \<Rightarrow> Some None | v # _ \<Rightarrow> map_option Some (finder_new v)) = Some l"
      and l_none: "glob_literals pattern = [] \<Longrightarrow> l = None"
      and l_some: "\<And>v vs. glob_literals pattern = v # vs \<Longrightarrow>
        \<exists>f. l = Some f \<and> fd_value f = v \<and> (\<forall>hay. find f hay = Some (str_find v hay))"
  proof (cases "glob_literals pattern")
    case (Cons v vs)
    then obtain f where "finder_new v = Some f" "fd_value f = v" "\<forall>hay. find f hay = Some (str_find v hay)"
      using finder_new_ok [of v] find_correct lits by (metis list.set_intros(1))
    then show ?thesis using that [of "Some f"] Cons by simp
  qed (use that in simp)
  define g where "g = \<lparr>pg_pattern = pattern, pg_literal = l, pg_all_stars = list_all (\<lambda>c. c = star) pattern,
    pg_single_literal = (question \<notin> set pattern \<and> tl (glob_literals pattern) = [])\<rparr>"
  have new: "prepared_glob_new pattern = Some g" using l by (simp add: prepared_glob_new_def g_def)
  have "prepared_glob_score g hay = Some (ref_glob_score hay pattern)" if "CHR ''*'' \<notin> set hay" for hay
  proof -
    have gm: "glob_match hay pattern \<longleftrightarrow> glob_spec pattern hay"
      using glob_loop_complete [of hay pattern 0 0 None 0] that
      by (simp add: glob_match_def glob_inv_def retry_def star_def)
    show ?thesis
    proof (cases "list_all (\<lambda>c. c = star) pattern")
      case True
      then have "list_all (\<lambda>c. c = star \<or> c = question) pattern" by (auto simp: list_all_iff)
      then have "glob_literals pattern = []" using split_on_all_sep by (auto simp: glob_literals_def)
      then show ?thesis
        using True glob_spec_all_stars [OF True ne, of hay] gm
        by (simp add: prepared_glob_score_def ref_glob_score_def first_literal_offset_def g_def)
    next
      case False
      show ?thesis
      proof (cases "glob_literals pattern")
        case Nil
        have "question \<in> set pattern"
          using Nil False split_on_all_sep [of "\<lambda>c. c = star \<or> c = question" pattern]
          by (auto simp: glob_literals_def list_all_iff)
        then show ?thesis
          using Nil False l_none
          by (simp add: prepared_glob_score_def prepared_glob_matches_def ref_glob_score_def
              first_literal_offset_def g_def)
      next
        case (Cons v vs)
        then obtain f where f: "l = Some f" "fd_value f = v" "\<And>hay. find f hay = Some (str_find v hay)"
          using l_some by blast
        have need: "glob_spec pattern hay \<Longrightarrow> contains hay v"
          using glob_literal_needed Cons by simp
        have single: "glob_spec pattern hay \<longleftrightarrow> contains hay v \<and>
            (prefix [star] pattern \<or> prefix v hay) \<and> (suffix [star] pattern \<or> suffix v hay)"
          if "question \<notin> set pattern" "vs = []"
          using glob_spec_single [of pattern v hay] that Cons assms(1) by simp
        show ?thesis
          using False f Cons need single gm
          by (auto simp: prepared_glob_score_def prepared_glob_matches_def ref_glob_score_def
              first_literal_offset_def g_def contains_def split: option.splits)
      qed
    qed
  qed
  then show ?thesis using new g_def by (auto simp: g_def)
qed

text \<open>C34: Preparing a pattern changes no score, as long as the text has no star: the fast paths
  (a pattern of stars, a missing literal, a single literal decided by prefix and suffix) return
  the score of the unprepared scorer, and none of them panics.\<close>

theorem prepared_glob_score_correct:
  assumes "has_glob_syntax pattern" and "utf8_valid pattern"
  shows "\<exists>g. prepared_glob_new pattern = Some g \<and> pg_pattern g = pattern \<and>
     (\<forall>hay. CHR ''*'' \<notin> set hay \<longrightarrow> prepared_glob_score g hay = Some (ref_glob_score hay pattern))"
  using prepared_glob_score_eq [OF assms] by blast

theorem prepared_glob_score_correct_witness:
  "Option.bind (prepared_glob_new ''*report'') (\<lambda>g. prepared_glob_score g ''q3 report'')
     = Some (Some 13)"
proof -
  have g: "has_glob_syntax ''*report''" and v: "utf8_valid ''*report''" by code_simp+
  have "CHR ''*'' \<notin> set ''q3 report''" by simp
  moreover have "ref_glob_score ''q3 report'' ''*report'' = Some 13" by code_simp
  ultimately show ?thesis using prepared_glob_score_correct [OF g v] by auto
qed

text \<open>On names with a star the prepared scorer finds what the unprepared one misses.\<close>

lemma prepared_glob_differs_on_stars:
  "Option.bind (prepared_glob_new ''*c'') (\<lambda>g. prepared_glob_score g ''*abc'') = Some (Some 8)"
  "ref_glob_score ''*abc'' ''*c'' = None"
  by code_simp+

text \<open>A question mark stands for one byte, so it never matches a character outside ASCII.\<close>

lemma question_is_one_byte:
  "\<not> glob_match (''caf'' @ [CHR 0xC3, CHR 0xA9]) ''caf?''"
  "glob_match (''caf'' @ [CHR 0xC3, CHR 0xA9]) ''caf??''"
  by code_simp+

end
