(* ===== verification/Query.thy ===== *)
theory Query
  imports Model Glob
begin

text \<open>
  Ranking, of \<open>src/src/search.rs\<close>: a query prepared once per request (\<open>PreparedQuery\<close>) decides
  for a record whether it matches and with which score, lower scores being better. As in the
  theories of the finder, \<open>None\<close> is a panic; \<open>Some None\<close> is no match.
\<close>

record record_view =
  rv_path :: str
  rv_path_lower :: str
  rv_basename :: str
  rv_basename_lower :: str
  rv_ext_lower :: "str option"
  rv_kind :: file_kind
  rv_mtime :: "i64 option"

definition record_view_from :: "file_record \<Rightarrow> record_view" where
  "record_view_from r =
     \<lparr>rv_path = fr_path r, rv_path_lower = fr_path_lower r, rv_basename = fr_basename r,
      rv_basename_lower = fr_basename_lower r, rv_ext_lower = fr_ext_lower r,
      rv_kind = fr_kind r, rv_mtime = fr_mtime r\<rparr>"

subsection \<open>Fuzzy scores\<close>

text \<open>
  The loop over the characters of the haystack: the character looked for, the rest of the
  needle, the index of the last match, the gaps and the start so far.
\<close>

fun fuzzy_loop ::
  "rchar list \<Rightarrow> i64 \<Rightarrow> rchar \<Rightarrow> rchar list \<Rightarrow> i64 option \<Rightarrow> i64 \<Rightarrow> i64 \<Rightarrow> (i64 \<times> i64) option" where
  "fuzzy_loop [] index current rest last_index gaps start = None"
| "fuzzy_loop (ch # chs) index current rest last_index gaps start =
     (if ch = current
      then let (gaps, start) = (case last_index of
                   Some l \<Rightarrow> (gaps + max (index - l - 1) 0, start)
                 | None \<Rightarrow> (gaps, index))
           in case rest of
                nxt # rest' \<Rightarrow> fuzzy_loop chs (index + 1) nxt rest' (Some index) gaps start
              | [] \<Rightarrow> Some (start, gaps)
      else fuzzy_loop chs (index + 1) current rest last_index gaps start)"

definition fuzzy_score :: "str \<Rightarrow> str \<Rightarrow> i64 option" where
  "fuzzy_score hay needle =
     (case str_chars needle of
        [] \<Rightarrow> Some 0
      | current # rest \<Rightarrow>
          map_option (\<lambda>(start, gaps). start * 3 + gaps * 5 + int (length needle))
            (fuzzy_loop (str_chars hay) 0 current rest None 0 0))"

subsection \<open>Preparing a query\<close>

record prepared_term =
  pt_finder :: finder
  pt_glob :: "prepared_glob option"

record prepared_path_filter =
  pp_mode :: path_filter_mode
  pp_finder :: finder
  pp_glob :: "prepared_glob option"

record prepared_query =
  pq_options :: search_options
  pq_terms :: "prepared_term list"
  pq_path_filters :: "prepared_path_filter list"
  pq_excluded_path_filters :: "prepared_path_filter list"
  pq_fuzzy :: bool
  pq_needs_text :: bool

text \<open>\<open>has_glob_syntax(v).then(|| PreparedGlob::new(..))\<close>\<close>

definition glob_if :: "bool \<Rightarrow> str \<Rightarrow> prepared_glob option option" where
  "glob_if b v = (if b then map_option Some (prepared_glob_new v) else Some None)"

definition prepared_path_filter_new :: "path_filter \<Rightarrow> prepared_path_filter option" where
  "prepared_path_filter_new f =
     do {
       fd \<leftarrow> finder_new (pf_value f);
       g \<leftarrow> glob_if (has_glob_syntax (pf_value f)) (pf_value f);
       Some \<lparr>pp_mode = pf_mode f, pp_finder = fd, pp_glob = g\<rparr>
     }"

definition prepared_term_new :: "(str \<Rightarrow> str) \<Rightarrow> str \<Rightarrow> prepared_term option" where
  "prepared_term_new ul trm =
     do {
       g \<leftarrow> glob_if (has_glob_syntax trm) (to_lowercase ul trm);
       fd \<leftarrow> finder_new (to_lowercase ul trm);
       Some \<lparr>pt_finder = fd, pt_glob = g\<rparr>
     }"

fun map_m :: "('a \<Rightarrow> 'b option) \<Rightarrow> 'a list \<Rightarrow> 'b list option" where
  "map_m f [] = Some []"
| "map_m f (x # xs) = do { y \<leftarrow> f x; ys \<leftarrow> map_m f xs; Some (y # ys) }"

definition prepared_query_new :: "(str \<Rightarrow> str) \<Rightarrow> search_options \<Rightarrow> prepared_query option" where
  "prepared_query_new ul options =
     do {
       ts \<leftarrow> map_m (prepared_term_new ul) (terms options);
       pfs \<leftarrow> map_m prepared_path_filter_new (path_filters options);
       xfs \<leftarrow> map_m prepared_path_filter_new (excluded_path_filters options);
       Some \<lparr>pq_options = options, pq_terms = ts, pq_path_filters = pfs,
             pq_excluded_path_filters = xfs, pq_fuzzy = fuzzy_enabled options,
             pq_needs_text =
               (path_filters options \<noteq> [] \<or> excluded_path_filters options \<noteq> [] \<or>
                list_ex (\<lambda>t. case pt_glob t of None \<Rightarrow> True | Some g \<Rightarrow> \<not> pg_all_stars g) ts)\<rparr>
     }"

definition needs_basename :: "prepared_query \<Rightarrow> bool" where
  "needs_basename q \<longleftrightarrow> \<not> path_only (pq_options q) \<and> pq_terms q \<noteq> [] \<and> pq_needs_text q"

definition needs_extension :: "prepared_query \<Rightarrow> bool" where
  "needs_extension q \<longleftrightarrow>
     ext_filters (pq_options q) \<noteq> [] \<or> excluded_ext_filters (pq_options q) \<noteq> []"

subsection \<open>Matching\<close>

definition path_text_matches :: "prepared_path_filter \<Rightarrow> bool \<Rightarrow> str \<Rightarrow> bool option" where
  "path_text_matches f component txt =
     (case pp_glob f of
        Some g \<Rightarrow> map_option (\<lambda>r. r \<noteq> None) (prepared_glob_score g txt)
      | None \<Rightarrow> if component then Some (txt = fd_value (pp_finder f))
                else map_option (\<lambda>r. r \<noteq> None) (find (pp_finder f) txt))"

fun any_m :: "('a \<Rightarrow> bool option) \<Rightarrow> 'a list \<Rightarrow> bool option" where
  "any_m f [] = Some False"
| "any_m f (x # xs) = do { b \<leftarrow> f x; if b then Some True else any_m f xs }"

definition prepared_path_filter_matches :: "prepared_path_filter \<Rightarrow> str \<Rightarrow> bool option" where
  "prepared_path_filter_matches f path =
     (case pp_mode f of
        ContainsMode \<Rightarrow> path_text_matches f False path
      | ComponentMode \<Rightarrow>
          any_m (path_text_matches f True) (filter (\<lambda>p. p \<noteq> []) (split_on is_sep path)))"

definition matches_metadata :: "search_options \<Rightarrow> file_kind \<Rightarrow> i64 option \<Rightarrow> str option \<Rightarrow> bool" where
  "matches_metadata options k mtime e =
     (if kind_filters options \<noteq> [] \<and> k \<notin> set (kind_filters options)
         \<or> k \<in> set (excluded_kind_filters options) then False
      else if (case modified_after options of None \<Rightarrow> False
               | Some after \<Rightarrow> (case mtime of None \<Rightarrow> True | Some t \<Rightarrow> t < after))
         \<or> (case modified_before options of None \<Rightarrow> False
            | Some before \<Rightarrow> (case mtime of None \<Rightarrow> False | Some t \<Rightarrow> before \<le> t)) then False
      else if ext_filters options \<noteq> []
         \<and> \<not> (case e of None \<Rightarrow> False | Some x \<Rightarrow> list_ex (\<lambda>f. f = x) (ext_filters options)) then False
      else \<not> (case e of None \<Rightarrow> False | Some x \<Rightarrow> list_ex (\<lambda>f. f = x) (excluded_ext_filters options)))"

definition term_score :: "prepared_query \<Rightarrow> prepared_term \<Rightarrow> str \<Rightarrow> str \<Rightarrow> i64 option option" where
  "term_score q t path basename =
     (let token = fd_value (pt_finder t)
      in case pt_glob t of
           Some g \<Rightarrow>
             if path_only (pq_options q)
             then map_option (map_option (\<lambda>v. v + 450)) (prepared_glob_score g path)
             else do {
               b \<leftarrow> prepared_glob_score g basename;
               case b of
                 Some v \<Rightarrow> Some (Some (v + 180))
               | None \<Rightarrow> map_option (map_option (\<lambda>v. v + 520)) (prepared_glob_score g path)
             }
         | None \<Rightarrow>
             if path_only (pq_options q)
             then map_option (map_option (\<lambda>i. 300 + int (min i 500))) (find (pt_finder t) path)
             else if basename = token then Some (Some 0)
             else if prefix token basename then Some (Some (100 + int (length token)))
             else do {
               bi \<leftarrow> find (pt_finder t) basename;
               case bi of
                 Some i \<Rightarrow> Some (Some (250 + int i))
               | None \<Rightarrow> do {
                   pi \<leftarrow> find (pt_finder t) path;
                   Some (case pi of
                     Some i \<Rightarrow> Some (550 + int (min i 500))
                   | None \<Rightarrow>
                       if pq_fuzzy q
                       then (case fuzzy_score basename token of
                               Some v \<Rightarrow> Some (v + 1000)
                             | None \<Rightarrow> map_option (\<lambda>v. v + 1900) (fuzzy_score path token))
                       else None)
                 }
             })"

fun rank_terms :: "prepared_query \<Rightarrow> str \<Rightarrow> str \<Rightarrow> prepared_term list \<Rightarrow> i64 \<Rightarrow> i64 option option" where
  "rank_terms q path basename [] score = Some (Some score)"
| "rank_terms q path basename (t # ts) score =
     do {
       r \<leftarrow> term_score q t path basename;
       case r of None \<Rightarrow> Some None | Some v \<Rightarrow> rank_terms q path basename ts (score + v)
     }"

text \<open>
  The score of a query without terms: the only arithmetic on a number that is not a length,
  so the one that can leave 64 bits, for a modification time close to the smallest \<open>i64\<close>.
\<close>

definition mtime_score :: "i64 option \<Rightarrow> i64" where
  "mtime_score mtime = wrap_i64 (10000 - min (case mtime of Some t \<Rightarrow> t | None \<Rightarrow> 0) 9000)"

definition rank_lowered :: "prepared_query \<Rightarrow> str \<Rightarrow> str \<Rightarrow> usize \<Rightarrow> i64 option \<Rightarrow> i64 option option" where
  "rank_lowered q path basename path_len mtime =
     do {
       miss \<leftarrow> any_m (\<lambda>f. map_option Not (prepared_path_filter_matches f path)) (pq_path_filters q);
       excluded \<leftarrow> (if miss then Some True
                     else any_m (\<lambda>f. prepared_path_filter_matches f path) (pq_excluded_path_filters q));
       if excluded then Some None
       else if pq_terms q = [] then Some (Some (mtime_score mtime))
       else map_option (map_option (\<lambda>score. score + int (min path_len 500)))
              (rank_terms q path basename (pq_terms q) 0)
     }"

definition rank :: "prepared_query \<Rightarrow> record_view \<Rightarrow> i64 option option" where
  "rank q r =
     (if \<not> matches_metadata (pq_options q) (rv_kind r) (rv_mtime r) (rv_ext_lower r) then Some None
      else rank_lowered q (rv_path_lower r) (rv_basename_lower r) (length (rv_path r)) (rv_mtime r))"

definition rank_view :: "(str \<Rightarrow> str) \<Rightarrow> search_options \<Rightarrow> record_view \<Rightarrow> i64 option option" where
  "rank_view ul options r = do { q \<leftarrow> prepared_query_new ul options; rank q r }"

subsection \<open>Facts: fuzzy scores\<close>

text \<open>The loop succeeds exactly on a subsequence, and its numbers are not negative.\<close>

lemma fuzzy_loop_subseq:
  "fuzzy_loop chs index current rest last_index gaps start \<noteq> None \<longleftrightarrow> subseq (current # rest) chs"
proof (induction chs arbitrary: index current rest last_index gaps start)
  case (Cons ch chs)
  show ?case
  proof (cases "ch = current")
    case True
    then show ?thesis
      using Cons.IH by (cases rest) (auto simp: Let_def split: option.splits prod.splits)
  next
    case False
    then have "subseq (current # rest) (ch # chs) \<longleftrightarrow> subseq (current # rest) chs" by auto
    then show ?thesis using Cons.IH False by simp
  qed
qed simp

lemma fuzzy_loop_nonneg:
  "fuzzy_loop chs index current rest last_index gaps start = Some (s, g) \<Longrightarrow>
     0 \<le> index \<Longrightarrow> 0 \<le> gaps \<Longrightarrow> 0 \<le> start \<Longrightarrow> 0 \<le> s \<and> 0 \<le> g"
proof (induction chs arbitrary: index current rest last_index gaps start)
  case (Cons ch chs)
  show ?case
  proof (cases "ch = current")
    case True
    then show ?thesis
      using Cons by (cases rest; cases last_index) (auto simp: Let_def)
  next
    case False
    then show ?thesis using Cons by auto
  qed
qed simp

text \<open>Fuzzy matching is subsequence matching: a needle has a fuzzy score exactly when its
  characters occur in the haystack in order, and the score is at least the needle's length.\<close>

theorem fuzzy_score_subseq:
  "case fuzzy_score hay needle of
     None \<Rightarrow> \<not> subseq (str_chars needle) (str_chars hay)
   | Some v \<Rightarrow> subseq (str_chars needle) (str_chars hay) \<and> int (length needle) \<le> v"
proof (cases "str_chars needle")
  case Nil
  then have "needle = []" by (metis concat.simps(1) concat_str_chars)
  then show ?thesis using Nil by (simp add: fuzzy_score_def)
next
  case (Cons c cs)
  then show ?thesis
    using fuzzy_loop_nonneg [of "str_chars hay" 0 c cs None 0 0]
      fuzzy_loop_subseq [of "str_chars hay" 0 c cs None 0 0]
    by (auto simp: fuzzy_score_def split: option.splits)
qed

end
