(* ===== verification/Rust_Order.thy ===== *)
theory Rust_Order
  imports Prelude "HOL-Library.Multiset"
begin

text \<open>
  Comparators of the Rust standard library and what the source does with them:
  \<open>slice::sort_by\<close>, which is stable, and \<open>BinaryHeap\<close>, of which the source uses \<open>len\<close>, \<open>peek\<close>,
  \<open>push\<close>, assignment through \<open>peek_mut\<close>, and \<open>into_sorted_vec\<close>. A heap is the list of its
  elements; which of several greatest elements \<open>peek\<close> returns is not documented, and no
  theorem depends on it.
\<close>

fun insert_by :: "('a \<Rightarrow> 'a \<Rightarrow> ordering) \<Rightarrow> 'a \<Rightarrow> 'a list \<Rightarrow> 'a list" where
  "insert_by cmp x [] = [x]"
| "insert_by cmp x (y # ys) = (if cmp x y = Greater then y # insert_by cmp x ys else x # y # ys)"

definition sort_by :: "('a \<Rightarrow> 'a \<Rightarrow> ordering) \<Rightarrow> 'a list \<Rightarrow> 'a list" where
  "sort_by cmp xs = foldr (insert_by cmp) xs []"

fun heap_peek :: "('a \<Rightarrow> 'a \<Rightarrow> ordering) \<Rightarrow> 'a list \<Rightarrow> 'a option" where
  "heap_peek cmp [] = None"
| "heap_peek cmp (x # xs) =
     (case heap_peek cmp xs of
        None \<Rightarrow> Some x
      | Some y \<Rightarrow> if cmp x y = Less then Some y else Some x)"

fun replace_first :: "'a \<Rightarrow> 'a \<Rightarrow> 'a list \<Rightarrow> 'a list" where
  "replace_first x y [] = []"
| "replace_first x y (z # zs) = (if z = x then y # zs else z # replace_first x y zs)"

definition heap_replace :: "('a \<Rightarrow> 'a \<Rightarrow> ordering) \<Rightarrow> 'a \<Rightarrow> 'a list \<Rightarrow> 'a list" where
  "heap_replace cmp y h =
     (case heap_peek cmp h of None \<Rightarrow> h | Some x \<Rightarrow> replace_first x y h)"

text \<open>
  A heap of at most \<open>n\<close> elements that keeps the smallest ones it was offered.
\<close>

definition keep_best :: "('a \<Rightarrow> 'a \<Rightarrow> ordering) \<Rightarrow> nat \<Rightarrow> 'a \<Rightarrow> 'a list \<Rightarrow> 'a list" where
  "keep_best cmp n x h =
     (if n = 0 then h
      else if length h < n then x # h
      else case heap_peek cmp h of
             Some worst \<Rightarrow> if cmp x worst = Less then heap_replace cmp x h else h
           | None \<Rightarrow> h)"

lemma mset_replace_first:
  "x \<in> set h \<Longrightarrow> mset (replace_first x y h) = add_mset y (mset h - {#x#})"
  by (induction h) (auto simp: insert_DiffM)

lemma length_replace_first [simp]: "length (replace_first x y h) = length h"
  by (induction h) auto

lemma length_heap_replace [simp]: "length (heap_replace cmp y h) = length h"
  by (simp add: heap_replace_def split: option.splits)

lemma length_keep_best: "length h \<le> n \<Longrightarrow> length (keep_best cmp n x h) \<le> n"
  by (auto simp: keep_best_def split: option.splits)

lemma heap_peek_None [simp]: "heap_peek cmp h = None \<longleftrightarrow> h = []"
  by (cases h) (auto split: option.splits)

lemma heap_peek_mem: "heap_peek cmp h = Some x \<Longrightarrow> x \<in> set h"
  by (induction h arbitrary: x) (auto split: option.splits if_splits)

lemma set_insert_by [simp]: "set (insert_by cmp x xs) = insert x (set xs)"
  by (induction xs) auto

lemma length_insert_by [simp]: "length (insert_by cmp x xs) = Suc (length xs)"
  by (induction xs) auto

lemma sort_by_Nil [simp]: "sort_by cmp [] = []"
  by (simp add: sort_by_def)

lemma sort_by_Cons: "sort_by cmp (x # xs) = insert_by cmp x (sort_by cmp xs)"
  by (simp add: sort_by_def)

text \<open>
  A comparator that compares keys of a linear order, as every \<open>Ord\<close> of the source does.
\<close>

locale key_cmp =
  fixes cmp :: "'a \<Rightarrow> 'a \<Rightarrow> ordering"
    and key :: "'a \<Rightarrow> 'k::linorder"
  assumes cmp_key: "cmp x y = cmp_of (key x) (key y)"
begin

lemma insert_by_insort: "insert_by cmp x xs = insort_key key x xs"
  by (induction xs) (auto simp: cmp_key)

lemma sort_by_sort_key: "sort_by cmp xs = sort_key key xs"
  by (induction xs) (auto simp: sort_by_Cons insert_by_insort)

lemma sort_by_sorted: "sorted (map key (sort_by cmp xs))"
  by (simp add: sort_by_sort_key)

lemma sort_by_mset: "mset (sort_by cmp xs) = mset xs"
  by (simp add: sort_by_sort_key)

lemma sort_by_unique:
  assumes "mset xs = mset ys" and "distinct (map key xs)"
  shows "sort_by cmp xs = sort_by cmp ys"
proof -
  have "inj_on key (set xs)" using assms(2) by (simp add: distinct_map)
  moreover have "sorted (map key (sort_key key ys))" by simp
  moreover have "mset xs = mset (sort_key key ys)" using assms(1) by simp
  ultimately have "sort_key key xs = sort_key key ys"
    using sort_key_inj_key_eq by metis
  then show ?thesis by (simp add: sort_by_sort_key)
qed

lemma heap_peek_max: "heap_peek cmp h = Some x \<Longrightarrow> y \<in> set h \<Longrightarrow> key y \<le> key x"
  by (induction h arbitrary: x) (auto simp: cmp_key split: option.splits if_splits)

text \<open>The greatest element is the last one of the sorted list.\<close>

lemma sort_key_take_insort:
  "take n (insort_key key x (take n xs)) = take n (insort_key key x xs)"
proof (induction xs arbitrary: n)
  case (Cons y ys)
  show ?case
  proof (cases n)
    case (Suc m)
    have "take m (y # ys) = take m (y # take m ys)"
      by (cases m) (auto simp: min_def)
    then show ?thesis using Suc Cons.IH [of m] by auto
  qed simp
qed simp

lemma sort_key_peek:
  assumes "heap_peek cmp h = Some x" and "distinct (map key h)"
  shows "\<exists>ys. sort_key key h = ys @ [x] \<and> mset ys = mset h - {#x#}"
proof -
  let ?ys = "sort_key key (remove1 x h)"
  have x: "x \<in> set h" using assms(1) by (rule heap_peek_mem)
  have m: "mset h = mset (?ys @ [x])" using x by simp
  have "\<forall>y \<in> set (remove1 x h). key y \<le> key x"
    using assms(1) heap_peek_max set_remove1_subset by fastforce
  then have "sorted (map key (?ys @ [x]))" by (simp add: sorted_append)
  moreover have "inj_on key (set h)" using assms(2) by (simp add: distinct_map)
  ultimately have "sort_key key h = ?ys @ [x]" using m sort_key_inj_key_eq by blast
  then show ?thesis by auto
qed

lemma insort_last:
  "sorted (map key (ys @ [w])) \<Longrightarrow> key x < key w \<Longrightarrow> insort_key key x (ys @ [w]) = insort_key key x ys @ [w]"
  by (induction ys) (auto simp: sorted_append)

lemma insort_end:
  "\<forall>y \<in> set ys. key y < key x \<Longrightarrow> insort_key key x ys = ys @ [x]"
  by (induction ys) auto

lemma sort_key_sorted: "sorted (map key ys) \<Longrightarrow> sort_key key ys = ys"
  by (induction ys) (auto simp: insort_is_Cons)

text \<open>One offer: the sorted contents are cut after the new element is inserted.\<close>

lemma keep_best_step:
  assumes d: "distinct (map key (x # h))" and len: "length h \<le> n"
  shows "sort_by cmp (keep_best cmp n x h) = take n (insort_key key x (sort_by cmp h))"
proof -
  have n0: "h = []" if "n = 0" using that len by simp
  show ?thesis
  proof (cases "length h < n")
    case True
    then have "keep_best cmp n x h = x # h" by (simp add: keep_best_def)
    then show ?thesis using True by (simp add: sort_by_sort_key)
  next
    case False
    then have l: "length h = n" using len by simp
    show ?thesis
    proof (cases "n = 0")
      case True
      then show ?thesis using n0 by (simp add: keep_best_def sort_by_sort_key)
    next
      case False
      then obtain w where w: "heap_peek cmp h = Some w" using l heap_peek_None by fastforce
      have dh: "distinct (map key h)" using d by simp
      obtain ys where ys: "sort_key key h = ys @ [w]" "mset ys = mset h - {#w#}"
        using sort_key_peek [OF w dh] by blast
      have lys: "n = Suc (length ys)" using ys(1) l by (metis length_append_singleton length_sort)
      have sorted: "sorted (map key (ys @ [w]))" using ys(1) by (metis sorted_sort_key)
      have kb: "keep_best cmp n x h = (if key x < key w then replace_first w x h else h)"
        using False l w by (simp add: keep_best_def heap_replace_def cmp_key)
      have wh: "w \<in> set h" using w by (rule heap_peek_mem)
      show ?thesis
      proof (cases "key x < key w")
        case True
        have m: "mset (replace_first w x h) = mset (x # ys)"
          using mset_replace_first [OF wh] ys(2) by simp
        have "set ys \<subseteq> set h" using ys(1) by (metis set_append set_sort sup_ge1)
        moreover have "distinct (map key (ys @ [w]))"
          using dh ys(1) by (metis distinct_map distinct_sort set_sort)
        ultimately have "distinct (map key (x # ys))" using d by auto
        then have dd: "distinct (map key (replace_first w x h))"
          using m by (metis mset_eq_imp_distinct_iff mset_map)
        have "sort_by cmp (replace_first w x h) = sort_by cmp (x # ys)"
          by (rule sort_by_unique [OF m dd])
        also have "\<dots> = insort_key key x ys"
          using sorted sort_key_sorted [of ys] by (simp add: sort_by_sort_key sorted_append)
        also have "\<dots> = take n (insort_key key x (ys @ [w]))"
          using insort_last [OF sorted True] lys by simp
        finally show ?thesis using True ys(1) kb by (simp add: sort_by_sort_key)
      next
        case False
        moreover have "key x \<noteq> key w" using d wh by auto
        ultimately have "key w < key x" by simp
        then have "\<forall>y \<in> set (ys @ [w]). key y < key x"
          using sorted by (auto simp: sorted_append)
        then have "insort_key key x (ys @ [w]) = ys @ [w] @ [x]" using insort_end by simp
        then show ?thesis using False ys(1) kb lys by (simp add: sort_by_sort_key)
      qed
    qed
  qed
qed

lemma keep_best_subset: "set (keep_best cmp n x h) \<subseteq> insert x (set h)"
proof -
  have "set (replace_first w x h) \<subseteq> insert x (set h)" for w
    by (induction h) auto
  then show ?thesis
    by (auto simp: keep_best_def heap_replace_def split: option.splits)
qed

lemma keep_best_distinct:
  assumes "distinct (map key (x # h))"
  shows "distinct (map key (keep_best cmp n x h))"
proof -
  have "distinct (map key (replace_first w x h))" for w
  proof -
    have "key x \<notin> key ` set h \<Longrightarrow> distinct (map key h) \<Longrightarrow>
        distinct (map key (replace_first w x h)) \<and> key ` set (replace_first w x h) \<subseteq> insert (key x) (key ` set h)"
      by (induction h) auto
    then show ?thesis using assms by simp
  qed
  then show ?thesis using assms by (auto simp: keep_best_def heap_replace_def split: option.splits)
qed

text \<open>
  The heap after any number of offers: the first \<open>n\<close> elements of the sorted list of all of
  them. The keys have to be different, which the callers ensure by a record number.
\<close>

theorem keep_best_fold:
  assumes "distinct (map key xs)"
  shows "sort_by cmp (fold (keep_best cmp n) xs []) = take n (sort_by cmp xs)"
proof -
  have "sort_by cmp (fold (keep_best cmp n) xs []) = take n (sort_by cmp xs) \<and>
      length (fold (keep_best cmp n) xs []) \<le> n \<and>
      set (fold (keep_best cmp n) xs []) \<subseteq> set xs \<and>
      distinct (map key (fold (keep_best cmp n) xs []))"
    using assms
  proof (induction xs rule: rev_induct)
    case (snoc x xs)
    let ?h = "fold (keep_best cmp n) xs []"
    have d: "distinct (map key xs)" and nx: "key x \<notin> key ` set xs" using snoc.prems by auto
    note IH = snoc.IH [OF d]
    have dx: "distinct (map key (x # ?h))" using IH nx by auto
    have "sort_by cmp (keep_best cmp n x ?h) = take n (insort_key key x (take n (sort_by cmp xs)))"
      using keep_best_step [OF dx] IH by simp
    also have "\<dots> = take n (insort_key key x (sort_by cmp xs))" by (rule sort_key_take_insort)
    also have "insort_key key x (sort_by cmp xs) = sort_by cmp (x # xs)"
      by (simp add: sort_by_sort_key)
    also have "\<dots> = sort_by cmp (xs @ [x])"
      by (rule sort_by_unique) (use snoc.prems in auto)
    finally have "sort_by cmp (keep_best cmp n x ?h) = take n (sort_by cmp (xs @ [x]))" .
    then show ?case
      using IH keep_best_distinct [OF dx, of n] keep_best_subset [of n x ?h]
        length_keep_best [of ?h n cmp x] by auto
  qed simp
  then show ?thesis by blast
qed

text \<open>
  The front of the sorted list does not change when elements are added that are greater than
  every element of the front.
\<close>

lemma take_sort_front:
  assumes m: "mset zs = mset xs + mset ys" and d: "distinct (map key zs)" and n: "n \<le> length xs"
    and less: "\<And>x y. x \<in> set (take n (sort_by cmp xs)) \<Longrightarrow> y \<in> set ys \<Longrightarrow> key x < key y"
  shows "take n (sort_by cmp zs) = take n (sort_by cmp xs)"
proof -
  let ?s = "sort_key key xs"
  let ?a = "take n ?s" and ?b = "drop n ?s"
  have s: "?a @ ?b = ?s" by simp
  have "sorted (map key (?a @ ?b))" unfolding s by simp
  then have ab: "\<And>x y. x \<in> set ?a \<Longrightarrow> y \<in> set ?b \<Longrightarrow> key x \<le> key y" and sa: "sorted (map key ?a)"
    unfolding map_append sorted_append by auto
  have "sorted (map key (?a @ sort_key key (?b @ ys)))"
    unfolding map_append sorted_append
    using sa ab less by (fastforce simp: sort_by_sort_key)
  moreover have "mset zs = mset (?a @ sort_key key (?b @ ys))"
  proof -
    have "mset ?a + mset ?b = mset xs" using s by (metis mset_append mset_sort)
    then show ?thesis using m by (simp flip: add.assoc)
  qed
  moreover have "inj_on key (set zs)" using d by (simp add: distinct_map)
  ultimately have "sort_key key zs = ?a @ sort_key key (?b @ ys)"
    using sort_key_inj_key_eq by blast
  moreover have "length ?a = n" using n by simp
  ultimately show ?thesis by (simp add: sort_by_sort_key)
qed

end

subsection \<open>Stable sorting and numbering\<close>

lemma then_with_assoc: "then_with (then_with a b) c = then_with a (then_with b c)"
  by (cases a) auto

lemma insort_key_map: "insort_key k (f x) (map f xs) = map f (insort_key (\<lambda>x. k (f x)) x xs)"
  by (induction xs) auto

lemma sort_key_map: "sort_key k (map f xs) = map f (sort_key (\<lambda>x. k (f x)) xs)"
  by (induction xs) (auto simp: insort_key_map)

lemma insort_key_cong:
  "(\<And>y. y \<in> insert x (set xs) \<Longrightarrow> k y = k' y) \<Longrightarrow> insort_key k x xs = insort_key k' x xs"
  by (induction xs) auto

lemma sort_key_cong: "(\<And>y. y \<in> set xs \<Longrightarrow> k y = k' y) \<Longrightarrow> sort_key k xs = sort_key k' xs"
proof (induction xs)
  case (Cons x xs)
  have "sort_key k xs = sort_key k' xs" using Cons by simp
  moreover have "insort_key k x (sort_key k' xs) = insort_key k' x (sort_key k' xs)"
    by (rule insort_key_cong) (use Cons.prems in auto)
  ultimately show ?case by simp
qed simp

text \<open>A stable sort of a list in which a number increases sorts by the number last.\<close>

lemma insort_key_index:
  "\<forall>y \<in> set xs. i x < i y \<Longrightarrow> insort_key (\<lambda>x. (k x, i x)) x xs = insort_key k x xs"
  for i :: "'a \<Rightarrow> 'i::linorder" and k :: "'a \<Rightarrow> 'k::linorder"
  by (induction xs) (auto simp: less_eq_prod_def)

lemma sort_key_index:
  "sorted_wrt (\<lambda>x y. i x < i y) xs \<Longrightarrow> sort_key (\<lambda>x. (k x, i x)) xs = sort_key k xs"
  for i :: "'a \<Rightarrow> 'i::linorder" and k :: "'a \<Rightarrow> 'k::linorder"
  by (induction xs) (auto simp: insort_key_index)

text \<open>Newest first: the order of modification times, a missing one last.\<close>

fun newest_key :: "int option \<Rightarrow> nat \<times> int" where
  "newest_key None = (1, 0)"
| "newest_key (Some t) = (0, - t)"

lemma option_cmp_newest: "option_cmp b a = cmp_of (newest_key a) (newest_key b)"
  by (cases a; cases b) (auto simp: cmp_of_def less_prod_def)

text \<open>\<open>Iterator::max_by_key\<close>: the last one of the greatest elements.\<close>

fun max_by_key :: "('a \<Rightarrow> 'k::linorder) \<Rightarrow> 'a list \<Rightarrow> 'a option" where
  "max_by_key f [] = None"
| "max_by_key f (x # xs) = Some (foldl (\<lambda>m y. if f m \<le> f y then y else m) x xs)"

lemma foldl_pick: "(\<And>m y. g m y = m \<or> g m y = y) \<Longrightarrow> foldl g y ys \<in> insert y (set ys)"
proof (induction ys arbitrary: y)
  case (Cons a ys)
  have "foldl g (g y a) ys \<in> insert (g y a) (set ys)" using Cons by blast
  then show ?case using Cons.prems [of y a] by auto
qed simp

lemma max_by_key_mem: "max_by_key f xs = Some x \<Longrightarrow> x \<in> set xs"
  using foldl_pick [of "\<lambda>m y. if f m \<le> f y then y else m" "hd xs" "tl xs"]
  by (cases xs) auto

lemma list_less_append: "p @ x < p @ y \<longleftrightarrow> x < y" "p @ x \<le> p @ y \<longleftrightarrow> x \<le> y"
  for p :: "'a::linorder list"
  by (induction p) auto

end
