(* ===== verification/Sqlite_Rows.thy ===== *)
theory Sqlite_Rows
  imports Query Rust_Order
begin

text \<open>
  Rows of the table \<open>files\<close> and the statements that read them for a search, of
  \<open>src/src/db.rs\<close> and \<open>src/src/sqlite.rs\<close>.

  SQLite itself is not part of the repository. What the code relies on is modelled as far as
  the statements use it: a value has one of the storage classes of \<open>sql_value\<close> (a floating point
  number is represented by its text), texts and blobs compare by bytes, and a text is smaller
  than every blob. In which order a statement without \<open>ORDER BY\<close> returns its rows is the
  argument \<open>plan\<close>, any permutation.
\<close>

datatype sql_value = SqlNull | SqlInteger i64 | SqlReal str | SqlText str | SqlBlob str

text \<open>\<open>sqlite3_column_text\<close> and \<open>CAST(.. AS TEXT)\<close>\<close>

fun text_of :: "sql_value \<Rightarrow> str option" where
  "text_of SqlNull = None"
| "text_of (SqlInteger n) = Some (int_to_str n)"
| "text_of (SqlReal t) = Some t"
| "text_of (SqlText b) = Some b"
| "text_of (SqlBlob b) = Some b"

definition column_str :: "sql_value \<Rightarrow> str option" where
  "column_str v = (case text_of v of None \<Rightarrow> None | Some b \<Rightarrow> if utf8_valid b then Some b else None)"

definition column_i64 :: "sql_value \<Rightarrow> i64 option" where
  "column_i64 v =
     (case v of
        SqlNull \<Rightarrow> None
      | SqlInteger n \<Rightarrow> Some n
      | SqlText b \<Rightarrow> (case column_str v of None \<Rightarrow> None | Some s \<Rightarrow> parse_i64 s)
      | _ \<Rightarrow> None)"

text \<open>A row as it is stored (\<open>CREATE TABLE files\<close>); the id is the primary key.\<close>

record raw_row =
  rr_id :: i64
  rr_path :: sql_value
  rr_path_lower :: sql_value
  rr_basename :: sql_value
  rr_basename_lower :: sql_value
  rr_ext_lower :: sql_value
  rr_kind :: sql_value
  rr_size :: sql_value
  rr_mtime :: sql_value
  rr_ctime :: sql_value
  rr_dev :: sql_value
  rr_inode :: sql_value
  rr_indexed_at :: sql_value

text \<open>A row as the visitor sees it (\<open>DbRecordRef\<close>).\<close>

record db_record =
  dr_id :: i64
  dr_path :: str
  dr_path_lower :: "str option"
  dr_basename :: str
  dr_basename_lower :: str
  dr_ext_lower :: "str option"
  dr_kind :: file_kind
  dr_size :: "i64 option"
  dr_mtime :: "i64 option"
  dr_ctime :: "i64 option"
  dr_dev :: "i64 option"
  dr_inode :: "i64 option"
  dr_indexed_at :: i64

definition or_empty :: "str option \<Rightarrow> str" where
  "or_empty v = (case v of Some s \<Rightarrow> s | None \<Rightarrow> [])"

definition row_to_record_ref :: "(str \<Rightarrow> str) \<Rightarrow> raw_row \<Rightarrow> db_record" where
  "row_to_record_ref ul r =
     \<lparr>dr_id = rr_id r,
      dr_path = or_empty (column_str (rr_path r)),
      dr_path_lower =
        (case column_str (rr_path_lower r) of
           Some p \<Rightarrow> if p \<noteq> [] then Some p else None | None \<Rightarrow> None),
      dr_basename = or_empty (column_str (rr_basename r)),
      dr_basename_lower = or_empty (column_str (rr_basename_lower r)),
      dr_ext_lower = column_str (rr_ext_lower r),
      dr_kind =
        (case column_str (rr_kind r) of
           Some k \<Rightarrow> (case kind_parse ul k of Some x \<Rightarrow> x | None \<Rightarrow> Other) | None \<Rightarrow> Other),
      dr_size = column_i64 (rr_size r),
      dr_mtime = column_i64 (rr_mtime r),
      dr_ctime = column_i64 (rr_ctime r),
      dr_dev = column_i64 (rr_dev r),
      dr_inode = column_i64 (rr_inode r),
      dr_indexed_at = (case column_i64 (rr_indexed_at r) of Some n \<Rightarrow> n | None \<Rightarrow> 0)\<rparr>"

subsection \<open>The statements\<close>

definition nul :: char where "nul = CHR 0x00"

definition has_nul :: "str \<Rightarrow> bool" where
  "has_nul s \<longleftrightarrow> nul \<in> set s"

text \<open>The table: its rows by ascending id, and the order in which a statement visits rows.\<close>

record files_table =
  ft_rows :: "raw_row list"
  ft_plan :: "raw_row list \<Rightarrow> raw_row list"
  ft_utf8 :: bool

definition select_rows :: "files_table \<Rightarrow> (raw_row \<Rightarrow> bool) \<Rightarrow> raw_row list" where
  "select_rows db P = ft_plan db (filter P (ft_rows db))"

text \<open>\<open>for_each_record_ref\<close>: \<open>ORDER BY id\<close>.\<close>

definition record_refs :: "(str \<Rightarrow> str) \<Rightarrow> files_table \<Rightarrow> db_record list" where
  "record_refs ul db = map (row_to_record_ref ul) (ft_rows db)"

text \<open>
  \<open>for_each_basename_prefix_ref\<close>: a range of texts, then the same range of blobs. A bound text
  with a NUL byte is an error (\<open>bind_text\<close>), here \<open>None\<close>.
\<close>

fun in_text_range :: "str \<Rightarrow> str \<Rightarrow> sql_value \<Rightarrow> bool" where
  "in_text_range lower upper (SqlText b) \<longleftrightarrow> lower \<le> b \<and> b < upper"
| "in_text_range lower upper _ \<longleftrightarrow> False"

fun in_blob_range :: "str \<Rightarrow> str \<Rightarrow> sql_value \<Rightarrow> bool" where
  "in_blob_range lower upper (SqlBlob b) \<longleftrightarrow> lower \<le> b \<and> b < upper"
| "in_blob_range lower upper _ \<longleftrightarrow> False"

definition basename_prefix_refs ::
  "(str \<Rightarrow> str) \<Rightarrow> files_table \<Rightarrow> str \<Rightarrow> str \<Rightarrow> db_record list option" where
  "basename_prefix_refs ul db lower upper =
     (if has_nul lower \<or> has_nul upper then None
      else Some (map (row_to_record_ref ul)
             (select_rows db (\<lambda>r. in_text_range lower upper (rr_basename_lower r)) @
              select_rows db (\<lambda>r. in_blob_range lower upper (rr_basename_lower r)))))"

text \<open>\<open>for_each_basename_literal_ref\<close>: \<open>instr\<close> of the bytes, which is null for a null.\<close>

definition bytes_contain :: "sql_value \<Rightarrow> str \<Rightarrow> bool" where
  "bytes_contain v literal \<longleftrightarrow> (case text_of v of None \<Rightarrow> False | Some b \<Rightarrow> contains b literal)"

definition basename_literal_refs ::
  "(str \<Rightarrow> str) \<Rightarrow> files_table \<Rightarrow> str \<Rightarrow> db_record list option" where
  "basename_literal_refs ul db literal =
     (if has_nul literal then None
      else Some (map (row_to_record_ref ul)
             (select_rows db (\<lambda>r. bytes_contain (rr_basename_lower r) literal))))"

text \<open>
  \<open>for_each_extension_ref\<close>: texts, blobs and numbers, three statements. \<open>Some None\<close> is
  \<open>Ok(false)\<close>, a list that cannot be bound.
\<close>

fun ext_text_in :: "str list \<Rightarrow> sql_value \<Rightarrow> bool" where
  "ext_text_in exts (SqlText b) \<longleftrightarrow> b \<in> set exts"
| "ext_text_in exts _ \<longleftrightarrow> False"

fun ext_blob_in :: "str list \<Rightarrow> sql_value \<Rightarrow> bool" where
  "ext_blob_in exts (SqlBlob b) \<longleftrightarrow> b \<in> set exts"
| "ext_blob_in exts _ \<longleftrightarrow> False"

fun ext_number_in :: "str list \<Rightarrow> sql_value \<Rightarrow> bool" where
  "ext_number_in exts (SqlInteger n) \<longleftrightarrow> int_to_str n \<in> set exts"
| "ext_number_in exts (SqlReal t) \<longleftrightarrow> t \<in> set exts"
| "ext_number_in exts _ \<longleftrightarrow> False"

definition extension_refs ::
  "(str \<Rightarrow> str) \<Rightarrow> files_table \<Rightarrow> str list \<Rightarrow> db_record list option" where
  "extension_refs ul db exts =
     (if exts = [] \<or> 128 < length exts \<or> list_ex has_nul exts then None
      else Some (map (row_to_record_ref ul)
             (select_rows db (\<lambda>r. ext_text_in exts (rr_ext_lower r)) @
              select_rows db (\<lambda>r. ext_blob_in exts (rr_ext_lower r)) @
              select_rows db (\<lambda>r. ext_number_in exts (rr_ext_lower r)))))"

text \<open>\<open>path_may_contain\<close>, the callback that filters the path index.\<close>

definition path_may_contain :: "sql_value \<Rightarrow> sql_value \<Rightarrow> bool" where
  "path_may_contain path literal =
     (case (column_str path, column_str literal) of
        (Some p, Some l) \<Rightarrow> if p \<noteq> [] then contains p l else True
      | _ \<Rightarrow> True)"

text \<open>
  \<open>for_each_path_literal_ref\<close>: the ids whose path may contain the literal, then one lookup for
  each of them. A row that is gone (impossible in one snapshot) would be an error.
\<close>

definition lookup_id :: "files_table \<Rightarrow> i64 \<Rightarrow> raw_row option" where
  "lookup_id db i = List.find (\<lambda>r. rr_id r = i) (ft_rows db)"

definition path_literal_refs ::
  "(str \<Rightarrow> str) \<Rightarrow> files_table \<Rightarrow> str \<Rightarrow> bool \<Rightarrow> db_record list option" where
  "path_literal_refs ul db literal skip_basename_literal =
     (if has_nul literal then None
      else do {
        rows \<leftarrow> map_m (lookup_id db)
          (map rr_id (select_rows db (\<lambda>r. path_may_contain (rr_path_lower r) (SqlText literal))));
        Some (filter (\<lambda>r. \<not> skip_basename_literal \<or> \<not> contains (dr_basename_lower r) literal)
          (map (row_to_record_ref ul) rows))
      })"

end
