(* ===== verification/Rust_Vec.thy ===== *)
theory Rust_Vec
  imports Prelude "HOL-Library.Monad_Syntax"
begin

text \<open>
  Vectors and machine integers as \<open>src/src/compact_index.rs\<close> uses them. An index out of
  range and an unsigned subtraction below zero have no result (\<open>None\<close>); a fallible operation
  of the code has none either when it returns \<open>Err\<close>. The allocator is a parameter: for the
  size of a request the capacity it gives, or \<open>None\<close> when it fails.
\<close>

type_synonym u8 = "8 word"
type_synonym u32 = "32 word"
type_synonym allocator = "usize \<Rightarrow> usize option"

definition usize_max :: usize where "usize_max = 2 ^ 64 - 1"
definition u32_max :: usize where "u32_max = 2 ^ 32 - 1"

definition saturating_add :: "usize \<Rightarrow> usize \<Rightarrow> usize" where
  "saturating_add a b = min (a + b) usize_max"

definition saturating_mul :: "usize \<Rightarrow> usize \<Rightarrow> usize" where
  "saturating_mul a b = min (a * b) usize_max"

definition checked_add :: "usize \<Rightarrow> usize \<Rightarrow> usize option" where
  "checked_add a b = (if a + b \<le> usize_max then Some (a + b) else None)"

definition checked_sub :: "usize \<Rightarrow> usize \<Rightarrow> usize option" where
  "checked_sub a b = (if b \<le> a then Some (a - b) else None)"

definition vec_get :: "'a list \<Rightarrow> usize \<Rightarrow> 'a option" where
  "vec_get xs i = (if i < length xs then Some (xs ! i) else None)"

definition vec_set :: "'a list \<Rightarrow> usize \<Rightarrow> 'a \<Rightarrow> 'a list option" where
  "vec_set xs i v = (if i < length xs then Some (xs[i := v]) else None)"

text \<open>A vector that grows by \<open>push\<close> keeps its capacity as long as that is enough.\<close>

definition push_capacity :: "usize \<Rightarrow> usize \<Rightarrow> usize" where
  "push_capacity capacity len = max capacity (len + 1)"

text \<open>
  \<open>try_reserve_exact\<close> for a vector that must hold \<open>n\<close> elements: nothing happens when the
  capacity is enough.
\<close>

definition try_reserve :: "allocator \<Rightarrow> usize \<Rightarrow> usize \<Rightarrow> usize option" where
  "try_reserve alloc capacity n = (if n \<le> capacity then Some capacity else alloc n)"

definition allocation_fails :: "allocator \<Rightarrow> bool" where
  "allocation_fails alloc \<longleftrightarrow> (\<exists>n. alloc n = None)"

text \<open>What is documented of the allocator: a successful reservation is at least as large as asked for.\<close>

definition allocates :: "allocator \<Rightarrow> bool" where
  "allocates alloc \<longleftrightarrow> (\<forall>n c. alloc n = Some c \<longrightarrow> n \<le> c)"

lemma try_reserve_cases: "try_reserve alloc c n = None \<Longrightarrow> allocation_fails alloc"
  by (auto simp: try_reserve_def allocation_fails_def split: if_splits)

lemma try_reserve_ge: "try_reserve alloc c n = Some c' \<Longrightarrow> allocates alloc \<Longrightarrow> n \<le> c'"
  by (auto simp: try_reserve_def allocates_def split: if_splits)

lemma vec_get_Some [simp]: "vec_get xs i = Some x \<longleftrightarrow> i < length xs \<and> xs ! i = x"
  by (auto simp: vec_get_def)

lemma vec_get_less: "i < length xs \<Longrightarrow> vec_get xs i = Some (xs ! i)"
  by simp

lemma vec_set_Some [simp]: "vec_set xs i v = Some ys \<longleftrightarrow> i < length xs \<and> ys = xs[i := v]"
  by (auto simp: vec_set_def)

lemma vec_set_less: "i < length xs \<Longrightarrow> vec_set xs i v = Some (xs[i := v])"
  by simp

lemma vec_get_append: "i < length xs \<Longrightarrow> vec_get (xs @ ys) i = vec_get xs i"
  by (simp add: vec_get_def nth_append)

fun position :: "('a \<Rightarrow> bool) \<Rightarrow> 'a list \<Rightarrow> usize option" where
  "position P [] = None"
| "position P (x # xs) = (if P x then Some 0 else map_option Suc (position P xs))"

lemma position_Some: "position P xs = Some i \<Longrightarrow> i < length xs \<and> P (xs ! i)"
  by (induction xs arbitrary: i) (auto split: if_splits)

lemma position_None: "position P xs = None \<longleftrightarrow> (\<forall>x \<in> set xs. \<not> P x)"
  by (induction xs) auto

end
