(* ===== verification/Packed_Row.thy ===== *)
theory Packed_Row
  imports Sqlite_Rows Rust_Vec
begin

text \<open>
  One row of the packed index, of \<open>src/src/compact_index.rs\<close>: slices of an arena of text,
  \<open>RowText\<close>, the layout of the four texts of a row (\<open>RowLayout\<close>, where a text that ends another
  one is not stored again), and \<open>CompactRecord\<close> with the slices that it derives.

  A slice has 32-bit ends; \<open>slice_checked\<close> makes sure that they fit. \<open>None\<close> is \<open>Err\<close>, or a
  subtraction below zero, which the theory \<open>Compact_Rows\<close> excludes for rows that were packed.
\<close>

subsection \<open>Slices\<close>

text \<open>\<open>&s[start..start + len]\<close>, which panics when an end is not on the border of a character.\<close>

definition char_boundary :: "str \<Rightarrow> usize \<Rightarrow> bool" where
  "char_boundary s i \<longleftrightarrow> i \<le> length s \<and> (i < length s \<longrightarrow> \<not> is_continuation (s ! i))"

definition str_slice :: "str \<Rightarrow> usize \<Rightarrow> usize \<Rightarrow> str option" where
  "str_slice s start len =
     (if char_boundary s start \<and> char_boundary s (start + len) then Some (take len (drop start s)) else None)"

record slice =
  sl_start :: usize
  sl_len :: usize

definition slice_end :: "slice \<Rightarrow> usize" where
  "slice_end s = sl_start s + sl_len s"

definition slice_suffix :: "slice \<Rightarrow> usize \<Rightarrow> slice option" where
  "slice_suffix s len = map_option (\<lambda>start. \<lparr>sl_start = start, sl_len = len\<rparr>) (checked_sub (slice_end s) len)"

definition slice_checked :: "usize \<Rightarrow> usize \<Rightarrow> slice option" where
  "slice_checked start len =
     Option.bind (checked_add start len)
       (\<lambda>e. if u32_max < e then None else Some \<lparr>sl_start = start, sl_len = len\<rparr>)"

subsection \<open>Texts and layout\<close>

definition lowered_text :: "(str \<Rightarrow> str) \<Rightarrow> db_record \<Rightarrow> str" where
  "lowered_text ul r =
     (case dr_path_lower r of
        Some p \<Rightarrow> if p \<noteq> [] then p else to_lowercase ul (dr_path r)
      | None \<Rightarrow> to_lowercase ul (dr_path r))"

text \<open>
  The loop of \<open>RowLayout::new\<close> over the texts: for each one the first earlier text that it
  ends, and the bytes that are needed.
\<close>

fun layout_fields :: "str list \<Rightarrow> str list \<Rightarrow> usize \<Rightarrow> (usize option list \<times> usize) option" where
  "layout_fields seen [] required = Some ([], required)"
| "layout_fields seen (v # vs) required =
     do {
       _ \<leftarrow> slice_checked 0 (length v);
       let parent = position (\<lambda>p. suffix v p) seen;
       required' \<leftarrow> (if parent = None then checked_add required (length v) else Some required);
       (parents, needed) \<leftarrow> layout_fields (seen @ [v]) vs required';
       Some (parent # parents, needed)
     }"

record row_layout =
  rl_parents :: "usize option list"
  rl_required :: usize

definition row_layout_new :: "str list \<Rightarrow> row_layout option" where
  "row_layout_new texts =
     do {
       (parents, required) \<leftarrow> layout_fields [] texts 0;
       _ \<leftarrow> slice_checked 0 required;
       Some \<lparr>rl_parents = parents, rl_required = required\<rparr>
     }"

definition no_text_parent :: u8 where "no_text_parent = 3"

definition parent_code :: "usize option \<Rightarrow> u8" where
  "parent_code p = (case p of None \<Rightarrow> no_text_parent | Some i \<Rightarrow> word_of_nat i)"

definition layout_basename_parents :: "row_layout \<Rightarrow> u8" where
  "layout_basename_parents l = parent_code (rl_parents l ! 2) OR push_bit 2 (parent_code (rl_parents l ! 3))"

definition raw_layout_needs_exact_check :: "usize list \<Rightarrow> bool" where
  "raw_layout_needs_exact_check lengths =
     (case foldl (\<lambda>sum n. Option.bind sum (\<lambda>m. checked_add m n)) (Some 0) lengths of
        None \<Rightarrow> True | Some n \<Rightarrow> u32_max < n)"

definition row_text_new :: "(str \<Rightarrow> str) \<Rightarrow> db_record \<Rightarrow> str option" where
  "row_text_new ul r =
     (let lowered = lowered_text ul r;
          texts = [lowered, dr_path r, dr_basename r, dr_basename_lower r]
      in if raw_layout_needs_exact_check (map length texts)
         then map_option (\<lambda>_. lowered) (row_layout_new texts)
         else Some lowered)"

subsection \<open>Packed records\<close>

definition no_extension :: u32 where "no_extension = - 1"
definition tombstone :: u8 where "tombstone = push_bit 7 1"

record compact_record =
  cr_id :: i64
  cr_path :: slice
  cr_path_lower :: slice
  cr_basename_len :: usize
  cr_basename_lower_len :: usize
  cr_arena :: usize
  cr_ext :: u32
  cr_prefix :: u32
  cr_kind :: file_kind
  cr_present :: u8
  cr_basename_parents :: u8

definition is_live :: "compact_record \<Rightarrow> bool" where
  "is_live r \<longleftrightarrow> cr_present r AND tombstone = 0"

fun present_bits :: "nat \<Rightarrow> i64 option list \<Rightarrow> u8 \<Rightarrow> u8" where
  "present_bits i [] p = p"
| "present_bits i (v # vs) p = present_bits (i + 1) vs (if v \<noteq> None then p OR push_bit i 1 else p)"

definition metadata_fields_of :: "db_record \<Rightarrow> i64 option list" where
  "metadata_fields_of r = [dr_size r, dr_mtime r, dr_ctime r, dr_dev r, dr_inode r]"

definition metadata_input_of :: "db_record \<Rightarrow> i64 option list" where
  "metadata_input_of r = metadata_fields_of r @ [Some (dr_indexed_at r)]"

definition record_update_metadata :: "db_record \<Rightarrow> u32 \<Rightarrow> compact_record \<Rightarrow> compact_record" where
  "record_update_metadata r ext_id self =
     self\<lparr>cr_id := dr_id r, cr_kind := dr_kind r, cr_ext := ext_id,
          cr_present := present_bits 0 (metadata_fields_of r) 0\<rparr>"

text \<open>The slices of the basename and of the lowercase basename, for the slice of the rest of the path.\<close>

definition record_basename_slice :: "compact_record \<Rightarrow> slice \<Rightarrow> slice option" where
  "record_basename_slice r path_suffix =
     (let len = cr_basename_len r; parent = cr_basename_parents r AND 3
      in if parent = 0 then slice_suffix (cr_path_lower r) len
         else if parent = 1 then slice_suffix path_suffix len
         else Some \<lparr>sl_start = max (slice_end (cr_path_lower r)) (slice_end path_suffix), sl_len = len\<rparr>)"

definition record_basename_lower_slice :: "compact_record \<Rightarrow> slice \<Rightarrow> slice option" where
  "record_basename_lower_slice r path_suffix =
     (let len = cr_basename_lower_len r; parent = drop_bit 2 (cr_basename_parents r)
      in if parent = 0 then slice_suffix (cr_path_lower r) len
         else if parent = 1 then slice_suffix path_suffix len
         else do {
           basename \<leftarrow> record_basename_slice r path_suffix;
           if parent = 2 then slice_suffix basename len
           else Some \<lparr>sl_start = max (max (slice_end (cr_path_lower r)) (slice_end path_suffix)) (slice_end basename),
                      sl_len = len\<rparr>
         })"

end
