(* ===== verification/Packed_Metadata.thy ===== *)
theory Packed_Metadata
  imports Rust_Vec "HOL-Library.Multiset"
begin

text \<open>
  \<open>MetadataBlock\<close> and \<open>NarrowMetadata\<close> of \<open>src/src/compact_index.rs\<close>: six numbers for each row
  of a block, each as a 32-bit difference to a base of its field, or, when it does not fit, as
  the number of an entry in a table of escaped values, whose vacant entries form a list. A
  block whose table would cost more than it saves holds full numbers instead.

  \<open>None\<close> is a failed allocation (or an index out of range, which does not happen:
  \<open>metadata_write_correct\<close>).
\<close>

definition metadata_fields :: usize where "metadata_fields = 6"
definition escaped_value :: u32 where "escaped_value = push_bit 31 1"
definition inline_span :: int where "inline_span = 2 ^ 31 - 1"

text \<open>Arrays of a fixed length are lists of that length.\<close>

type_synonym metadata_values = "i64 list"
type_synonym metadata_input = "i64 option list"

record narrow_metadata =
  nm_bases :: metadata_values
  nm_initialized :: u8
  nm_rows :: "u32 list list"
  nm_rows_capacity :: usize
  nm_escapes :: "i64 list"
  nm_escapes_capacity :: usize
  nm_free_head :: "u32 option"
  nm_free_count :: usize

datatype metadata_block = Narrow narrow_metadata | Wide "metadata_values list" usize

subsection \<open>Codes\<close>

definition escaped :: "u32 \<Rightarrow> bool" where
  "escaped code \<longleftrightarrow> code AND escaped_value \<noteq> 0"

definition escape_slot :: "u32 \<Rightarrow> u32" where
  "escape_slot code = code AND NOT escaped_value"

definition decode :: "narrow_metadata \<Rightarrow> u32 \<Rightarrow> usize \<Rightarrow> i64 option" where
  "decode m code field =
     (if escaped code then vec_get (nm_escapes m) (unat (escape_slot code))
      else map_option (\<lambda>base. wrap_i64 (base + uint code)) (vec_get (nm_bases m) field))"

text \<open>One field of \<open>prepare\<close>: the first value of a field fixes its base.\<close>

definition prepare_field :: "usize \<Rightarrow> i64 option \<Rightarrow> narrow_metadata \<Rightarrow> u32 option \<times> narrow_metadata" where
  "prepare_field field input m =
     (case input of
        None \<Rightarrow> (Some 0, m)
      | Some v \<Rightarrow>
          let m1 = (if nm_initialized m AND push_bit field 1 = 0
                    then m\<lparr>nm_bases := (nm_bases m)[field := max (v - inline_span div 2) i64_min],
                           nm_initialized := nm_initialized m OR push_bit field 1\<rparr>
                    else m);
              difference = v - nm_bases m1 ! field
          in (if 0 \<le> difference \<and> difference \<le> inline_span then Some (word_of_int difference) else None, m1))"

fun prepare_from :: "usize \<Rightarrow> metadata_input \<Rightarrow> narrow_metadata \<Rightarrow> u32 option list \<times> narrow_metadata" where
  "prepare_from field [] m = ([], m)"
| "prepare_from field (v # vs) m =
     (let (c, m1) = prepare_field field v m; (cs, m2) = prepare_from (field + 1) vs m1 in (c # cs, m2))"

definition prepare :: "metadata_input \<Rightarrow> narrow_metadata \<Rightarrow> u32 option list \<times> narrow_metadata" where
  "prepare input m = prepare_from 0 input m"

subsection \<open>Writing a row of codes\<close>

text \<open>The first loop of \<open>write\<close> releases the entries of fields that are now inline.\<close>

definition release_field :: "u32 \<Rightarrow> u32 option \<Rightarrow> narrow_metadata \<Rightarrow> narrow_metadata option" where
  "release_field old code m =
     (if escaped old \<and> code \<noteq> None
      then do {
        let slot = escape_slot old;
        es \<leftarrow> vec_set (nm_escapes m) (unat slot) (case nm_free_head m of None \<Rightarrow> -1 | Some h \<Rightarrow> uint h);
        Some (m\<lparr>nm_escapes := es, nm_free_head := Some slot, nm_free_count := nm_free_count m + 1\<rparr>)
      }
      else Some m)"

fun release_fields :: "u32 list \<Rightarrow> u32 option list \<Rightarrow> narrow_metadata \<Rightarrow> narrow_metadata option" where
  "release_fields (old # olds) (code # codes) m =
     Option.bind (release_field old code m) (release_fields olds codes)"
| "release_fields _ _ m = Some m"

text \<open>The second one encodes, in the entry the field has, a vacant one, or a new one.\<close>

definition next_free :: "i64 \<Rightarrow> u32 option" where
  "next_free n = (if 0 \<le> n then Some (word_of_int n) else None)"

definition take_slot :: "u32 \<Rightarrow> narrow_metadata \<Rightarrow> (u32 \<times> narrow_metadata) option" where
  "take_slot old m =
     (if escaped old then Some (escape_slot old, m)
      else case nm_free_head m of
             Some slot \<Rightarrow> do {
               n \<leftarrow> vec_get (nm_escapes m) (unat slot);
               count \<leftarrow> checked_sub (nm_free_count m) 1;
               Some (slot, m\<lparr>nm_free_head := next_free n, nm_free_count := count\<rparr>)
             }
           | None \<Rightarrow>
               Some (word_of_nat (length (nm_escapes m)),
                 m\<lparr>nm_escapes := nm_escapes m @ [0],
                   nm_escapes_capacity := push_capacity (nm_escapes_capacity m) (length (nm_escapes m))\<rparr>))"

definition encode_field ::
  "u32 \<Rightarrow> u32 option \<Rightarrow> i64 option \<Rightarrow> narrow_metadata \<Rightarrow> (u32 \<times> narrow_metadata) option" where
  "encode_field old code input m =
     (case code of
        Some c \<Rightarrow> Some (c, m)
      | None \<Rightarrow> do {
          (slot, m1) \<leftarrow> take_slot old m;
          v \<leftarrow> input;
          es \<leftarrow> vec_set (nm_escapes m1) (unat slot) v;
          Some (slot OR escaped_value, m1\<lparr>nm_escapes := es\<rparr>)
        })"

fun encode_fields ::
  "u32 list \<Rightarrow> u32 option list \<Rightarrow> metadata_input \<Rightarrow> narrow_metadata \<Rightarrow> (u32 list \<times> narrow_metadata) option" where
  "encode_fields (old # olds) (code # codes) (v # vs) m =
     do {
       (w, m1) \<leftarrow> encode_field old code v m;
       (ws, m2) \<leftarrow> encode_fields olds codes vs m1;
       Some (w # ws, m2)
     }"
| "encode_fields _ _ _ m = Some ([], m)"

definition narrow_write ::
  "usize option \<Rightarrow> metadata_input \<Rightarrow> u32 option list \<Rightarrow> u32 list \<Rightarrow> narrow_metadata \<Rightarrow> narrow_metadata option" where
  "narrow_write row input codes old m =
     do {
       m1 \<leftarrow> release_fields old codes m;
       (encoded, m2) \<leftarrow> encode_fields old codes input m1;
       case row of
         Some r \<Rightarrow> map_option (\<lambda>rows. m2\<lparr>nm_rows := rows\<rparr>) (vec_set (nm_rows m2) r encoded)
       | None \<Rightarrow> Some (m2\<lparr>nm_rows := nm_rows m2 @ [encoded],
                           nm_rows_capacity := push_capacity (nm_rows_capacity m2) (length (nm_rows m2))\<rparr>)
     }"

subsection \<open>Blocks\<close>

text \<open>A row of codes takes 24 bytes, a row of numbers 48, an escaped value 8.\<close>

definition narrow_fits :: "narrow_metadata \<Rightarrow> usize \<Rightarrow> bool" where
  "narrow_fits m additional =
     (let capacity = nm_rows_capacity m;
          escapes = max (nm_escapes_capacity m) (saturating_add (length (nm_escapes m)) additional)
      in escapes < 2 ^ 31
         \<and> saturating_add (saturating_add (saturating_mul capacity 24) (saturating_mul escapes 8)) 48
           \<le> saturating_mul capacity 48)"

definition decode_row :: "narrow_metadata \<Rightarrow> u32 list \<Rightarrow> metadata_values option" where
  "decode_row m codes =
     those (map (\<lambda>field. Option.bind (vec_get codes field) (\<lambda>code. decode m code field)) [0..<metadata_fields])"

definition make_wide :: "allocator \<Rightarrow> narrow_metadata \<Rightarrow> metadata_block option" where
  "make_wide alloc m =
     do {
       capacity \<leftarrow> try_reserve alloc 0 (nm_rows_capacity m);
       vs \<leftarrow> those (map (decode_row m) (nm_rows m));
       Some (Wide vs capacity)
     }"

definition metadata_block_new :: "allocator \<Rightarrow> usize \<Rightarrow> metadata_block option" where
  "metadata_block_new alloc capacity =
     do {
       rows_capacity \<leftarrow> try_reserve alloc 0 capacity;
       let m = \<lparr>nm_bases = replicate metadata_fields 0, nm_initialized = 0, nm_rows = [],
                nm_rows_capacity = rows_capacity, nm_escapes = [], nm_escapes_capacity = 0,
                nm_free_head = None, nm_free_count = 0\<rparr>;
       if narrow_fits m 0 then Some (Narrow m) else make_wide alloc m
     }"

definition block_value :: "metadata_block \<Rightarrow> usize \<Rightarrow> usize \<Rightarrow> i64 option" where
  "block_value b row field =
     (case b of
        Narrow m \<Rightarrow> do { codes \<leftarrow> vec_get (nm_rows m) row; code \<leftarrow> vec_get codes field; decode m code field }
      | Wide vs _ \<Rightarrow> do { v \<leftarrow> vec_get vs row; vec_get v field })"

text \<open>Room for the escaped values: the capacity doubles, up to where the block becomes wide.\<close>

definition max_escapes :: "narrow_metadata \<Rightarrow> usize" where
  "max_escapes m = min ((saturating_mul (nm_rows_capacity m) (48 - 24) - 48) div 8) (2 ^ 31 - 1)"

definition reserve_escapes :: "allocator \<Rightarrow> usize \<Rightarrow> narrow_metadata \<Rightarrow> narrow_metadata option" where
  "reserve_escapes alloc additional m =
     (let needed = saturating_add (length (nm_escapes m)) additional
      in if needed \<le> nm_escapes_capacity m then Some m
         else let capacity = min (max (max needed (saturating_mul (nm_escapes_capacity m) 2)) 16) (max_escapes m)
              in do {
                more \<leftarrow> checked_sub capacity (length (nm_escapes m));
                c \<leftarrow> try_reserve alloc (nm_escapes_capacity m) (length (nm_escapes m) + more);
                Some (m\<lparr>nm_escapes_capacity := c\<rparr>)
              })"

definition wide_write :: "usize option \<Rightarrow> metadata_input \<Rightarrow> metadata_values list \<Rightarrow> usize \<Rightarrow> metadata_block option" where
  "wide_write row input vs capacity =
     (let v = map (\<lambda>x. case x of Some n \<Rightarrow> n | None \<Rightarrow> 0) input
      in case row of
           Some r \<Rightarrow> map_option (\<lambda>vs'. Wide vs' capacity) (vec_set vs r v)
         | None \<Rightarrow> Some (Wide (vs @ [v]) (push_capacity capacity (length vs))))"

definition widen_and_write ::
  "allocator \<Rightarrow> usize option \<Rightarrow> metadata_input \<Rightarrow> narrow_metadata \<Rightarrow> metadata_block option" where
  "widen_and_write alloc row input m =
     Option.bind (make_wide alloc m)
       (\<lambda>b. case b of Wide vs capacity \<Rightarrow> wide_write row input vs capacity | Narrow _ \<Rightarrow> None)"

definition block_write :: "allocator \<Rightarrow> usize option \<Rightarrow> metadata_input \<Rightarrow> metadata_block \<Rightarrow> metadata_block option" where
  "block_write alloc row input b =
     (case b of
        Wide vs capacity \<Rightarrow> wide_write row input vs capacity
      | Narrow m0 \<Rightarrow> do {
          let (codes, m) = prepare input m0;
          old \<leftarrow> (case row of Some r \<Rightarrow> vec_get (nm_rows m) r | None \<Rightarrow> Some (replicate metadata_fields 0));
          let new_escapes = length (filter (\<lambda>code. code = None) codes);
          let old_escapes = length (filter escaped old);
          let additional = new_escapes - (old_escapes + nm_free_count m);
          if narrow_fits m additional
          then do {
            m1 \<leftarrow> reserve_escapes alloc additional m;
            if narrow_fits m1 0 then map_option Narrow (narrow_write row input codes old m1)
            else widen_and_write alloc row input m1
          }
          else widen_and_write alloc row input m
        })"

definition block_push :: "allocator \<Rightarrow> metadata_input \<Rightarrow> metadata_block \<Rightarrow> metadata_block option" where
  "block_push alloc input b = block_write alloc None input b"

definition block_update :: "allocator \<Rightarrow> usize \<Rightarrow> metadata_input \<Rightarrow> metadata_block \<Rightarrow> metadata_block option" where
  "block_update alloc row input b = block_write alloc (Some row) input b"

definition block_capacity_bytes :: "metadata_block \<Rightarrow> usize" where
  "block_capacity_bytes b =
     (case b of
        Narrow m \<Rightarrow> nm_rows_capacity m * 24 + nm_escapes_capacity m * 8
      | Wide _ capacity \<Rightarrow> capacity * 48)"

subsection \<open>Facts: codes\<close>

lemma bit_escaped_value [simp]: "bit escaped_value n \<longleftrightarrow> n = 31"
  unfolding escaped_value_def by (auto simp only: bit_push_bit_iff bit_1_iff) (auto simp: bit_simps)

lemma escaped_bit: "escaped code \<longleftrightarrow> bit code 31"
  unfolding escaped_def escaped_value_def by (simp only: bit_iff_and_push_bit_not_eq_0)

lemma small_word: "n < 2 ^ 31 \<Longrightarrow> unat (word_of_nat n :: u32) = n"
  by (simp add: unat_of_nat take_bit_nat_eq_self)

lemma unat_bit: "bit w n \<longleftrightarrow> bit (unat w) n" for w :: u32
  by (simp add: bit_unsigned_iff bit_imp_le_length)

lemma small_bit: "unat w < 2 ^ 31 \<Longrightarrow> \<not> bit w 31" for w :: u32
  by (simp add: unat_bit bit_iff_odd)

lemma slot_code:
  assumes "unat slot < 2 ^ 31"
  shows "escaped (slot OR escaped_value)" "escape_slot (slot OR escaped_value) = slot"
proof -
  show "escaped (slot OR escaped_value)" by (simp add: escaped_bit bit_or_iff)
  show "escape_slot (slot OR escaped_value) = slot"
    using small_bit [OF assms] unfolding escape_slot_def
    by (intro bit_word_eqI) (auto simp: bit_and_iff bit_or_iff bit_not_iff)
qed

lemma slot_less: "unat (escape_slot code) < 2 ^ 31"
proof -
  have "bit (escape_slot code) n = (bit code n \<and> n < 31)" if "n < 32" for n
    using that unfolding escape_slot_def by (auto simp: bit_and_iff bit_not_iff)
  then have "escape_slot code = take_bit 31 code"
    by (intro bit_word_eqI) (auto simp: bit_take_bit_iff)
  then show ?thesis using take_bit_nat_less_exp [of 31 "unat code"] by (simp add: unsigned_take_bit_eq)
qed

lemma inline_code:
  assumes "0 \<le> d" and "d \<le> inline_span"
  shows "\<not> escaped (word_of_int d)" "uint (word_of_int d :: u32) = d"
proof -
  have d: "d < 2 ^ 31" using assms by (simp add: inline_span_def)
  show "uint (word_of_int d :: u32) = d"
    using assms d by (simp add: uint_word_of_int)
  have "word_of_int d = (word_of_nat (nat d) :: u32)" using assms by simp
  then show "\<not> escaped (word_of_int d)" using small_bit [of "word_of_nat (nat d)"] small_word [of "nat d"] d assms by (simp add: escaped_bit nat_less_iff)
qed

lemma not_escaped_0 [simp]: "\<not> escaped 0"
  by (simp add: escaped_def)

subsection \<open>Facts: preparing\<close>

definition inline_shows :: "narrow_metadata \<Rightarrow> usize \<Rightarrow> i64 \<Rightarrow> u32 \<Rightarrow> bool" where
  "inline_shows m field v code \<longleftrightarrow>
     \<not> escaped code \<and> field < length (nm_bases m) \<and> bit (nm_initialized m) field \<and>
     wrap_i64 (nm_bases m ! field + uint code) = v"

text \<open>Preparing sets bases of fields that had no value yet, and nothing else.\<close>

definition keeps_bases :: "narrow_metadata \<Rightarrow> narrow_metadata \<Rightarrow> bool" where
  "keeps_bases m m' \<longleftrightarrow>
     m' = m\<lparr>nm_bases := nm_bases m', nm_initialized := nm_initialized m'\<rparr> \<and>
     length (nm_bases m') = length (nm_bases m) \<and>
     (\<forall>f. bit (nm_initialized m) f \<longrightarrow> bit (nm_initialized m') f \<and> nm_bases m' ! f = nm_bases m ! f)"

lemma keeps_bases_refl: "keeps_bases m m"
  by (simp add: keeps_bases_def)

lemma keeps_bases_trans: "keeps_bases a b \<Longrightarrow> keeps_bases b c \<Longrightarrow> keeps_bases a c"
  unfolding keeps_bases_def by (cases a; cases b; cases c) simp

lemma keeps_bases_inline: "keeps_bases m m' \<Longrightarrow> inline_shows m f v c \<Longrightarrow> inline_shows m' f v c"
  by (auto simp: keeps_bases_def inline_shows_def)

definition prepared_as :: "narrow_metadata \<Rightarrow> usize \<Rightarrow> i64 option \<Rightarrow> u32 option \<Rightarrow> bool" where
  "prepared_as m field input code \<longleftrightarrow>
     (case code of
        None \<Rightarrow> input \<noteq> None
      | Some c \<Rightarrow> \<not> escaped c \<and> (case input of None \<Rightarrow> True | Some v \<Rightarrow> inline_shows m field v c))"

lemma prepared_as_keeps: "keeps_bases m m' \<Longrightarrow> prepared_as m f i c \<Longrightarrow> prepared_as m' f i c"
  by (auto simp: prepared_as_def dest: keeps_bases_inline split: option.splits)

lemma prepared_as_cong:
  "nm_bases m' = nm_bases m \<Longrightarrow> nm_initialized m' = nm_initialized m \<Longrightarrow> prepared_as m' f i c = prepared_as m f i c"
  by (auto simp: prepared_as_def inline_shows_def split: option.split)

lemma prepare_field_ok:
  assumes "prepare_field field input m = (code, m')" and "field < length (nm_bases m)" and "field < 8"
    and "\<And>v. input = Some v \<Longrightarrow> is_i64 v"
  shows "keeps_bases m m' \<and> prepared_as m' field input code"
proof (cases input)
  case None
  then show ?thesis using assms(1) by (auto simp: prepare_field_def keeps_bases_def prepared_as_def)
next
  case (Some v)
  have unset: "(nm_initialized m AND push_bit field 1 = 0) = (\<not> bit (nm_initialized m) field)"
    by (simp only: bit_iff_and_push_bit_not_eq_0 not_not)
  have add: "bit (nm_initialized m OR push_bit field 1) f \<longleftrightarrow> bit (nm_initialized m) f \<or> f = field" for f
    using assms(3) by (auto simp only: bit_or_iff bit_push_bit_iff bit_1_iff) (auto simp: bit_simps)
  have m': "keeps_bases m m' \<and> bit (nm_initialized m') field"
  proof (cases "bit (nm_initialized m) field")
    case True
    then have "m' = m" using assms(1) Some by (simp only: prepare_field_def option.case unset Let_def prod.inject) simp
    then show ?thesis using True by (simp add: keeps_bases_refl)
  next
    case False
    then have "m' = m\<lparr>nm_bases := (nm_bases m)[field := max (v - inline_span div 2) i64_min],
                           nm_initialized := nm_initialized m OR push_bit field 1\<rparr>"
      using assms(1) Some by (simp only: prepare_field_def option.case unset Let_def prod.inject) simp
    then have "nm_initialized m' = nm_initialized m OR push_bit field 1"
        "nm_bases m' = (nm_bases m)[field := max (v - inline_span div 2) i64_min]"
        "m' = m\<lparr>nm_bases := nm_bases m', nm_initialized := nm_initialized m'\<rparr>" by simp_all
    then show ?thesis using False add unfolding keeps_bases_def by (metis length_list_update nth_list_update_neq)
  qed
  define d where "d = v - nm_bases m' ! field"
  have code: "code = (if 0 \<le> d \<and> d \<le> inline_span then Some (word_of_int d) else None)"
    using assms(1) Some unfolding d_def by (simp only: prepare_field_def option.case Let_def prod.inject) auto
  have "wrap_i64 (nm_bases m' ! field + d) = v" using wrap_i64_id [OF assms(4) [OF Some]] by (simp add: d_def)
  moreover have "field < length (nm_bases m')" using m' assms(2) by (simp add: keeps_bases_def)
  ultimately show ?thesis
    using m' Some inline_code [of d] by (simp add: code prepared_as_def inline_shows_def)
qed

lemma prepare_from_ok:
  assumes "prepare_from field input m = (codes, m')" and "field + length input \<le> length (nm_bases m)"
    and "field + length input \<le> 8" and "\<forall>v. Some v \<in> set input \<longrightarrow> is_i64 v"
  shows "keeps_bases m m' \<and> length codes = length input \<and>
    (\<forall>k < length input. prepared_as m' (field + k) (input ! k) (codes ! k))"
  using assms
proof (induction field input m arbitrary: codes m' rule: prepare_from.induct)
  case (1 field m)
  then show ?case by (simp add: keeps_bases_refl)
next
  case (2 field v vs m)
  obtain c m1 where p: "prepare_field field v m = (c, m1)" by fastforce
  obtain cs m2 where q: "prepare_from (field + 1) vs m1 = (cs, m2)" by fastforce
  have r: "codes = c # cs" "m' = m2" using "2.prems"(1) p q by simp_all
  have k1: "keeps_bases m m1" "prepared_as m1 field v c"
    using prepare_field_ok [OF p] "2.prems" by simp_all
  have "length (nm_bases m1) = length (nm_bases m)" using k1(1) by (simp add: keeps_bases_def)
  then have k2: "keeps_bases m1 m2" "length cs = length vs"
      "\<forall>k < length vs. prepared_as m2 (field + 1 + k) (vs ! k) (cs ! k)"
    using "2.IH" [OF p [symmetric] refl q] "2.prems" by simp_all
  have "prepared_as m2 (field + k) ((v # vs) ! k) ((c # cs) ! k)" if "k < length (v # vs)" for k
    using that k1(2) k2 prepared_as_keeps [OF k2(1)] by (cases k) auto
  then show ?case using r k2(2) keeps_bases_trans [OF k1(1) k2(1)] by simp
qed

subsection \<open>Facts: the list of vacant entries\<close>

text \<open>The vacant entries, in the order of the list.\<close>

fun chain :: "i64 list \<Rightarrow> u32 option \<Rightarrow> nat list \<Rightarrow> bool" where
  "chain es h [] \<longleftrightarrow> h = None"
| "chain es h (f # fs) \<longleftrightarrow> f < length es \<and> (\<exists>w. h = Some w \<and> unat w = f) \<and> chain es (next_free (es ! f)) fs"

lemma chain_update: "s \<notin> set fs \<Longrightarrow> chain (es[s := v]) h fs = chain es h fs"
  by (induction fs arbitrary: h) auto

lemma chain_append: "chain es h fs \<Longrightarrow> chain (es @ [v]) h fs"
  by (induction fs arbitrary: h) (auto simp: nth_append)

text \<open>The entries of a row, and those that a write keeps or releases.\<close>

definition row_slots :: "u32 list \<Rightarrow> nat list" where
  "row_slots codes = map (\<lambda>c. unat (escape_slot c)) (filter escaped codes)"

fun kept_slots :: "u32 list \<Rightarrow> u32 option list \<Rightarrow> nat list" where
  "kept_slots (old # olds) (code # codes) =
     (if escaped old \<and> code = None then unat (escape_slot old) # kept_slots olds codes else kept_slots olds codes)"
| "kept_slots _ _ = []"

fun released_slots :: "u32 list \<Rightarrow> u32 option list \<Rightarrow> nat list" where
  "released_slots (old # olds) (code # codes) =
     (if escaped old \<and> code \<noteq> None then unat (escape_slot old) # released_slots olds codes else released_slots olds codes)"
| "released_slots _ _ = []"

fun new_slots :: "u32 list \<Rightarrow> u32 option list \<Rightarrow> nat" where
  "new_slots (old # olds) (code # codes) =
     (if \<not> escaped old \<and> code = None then 1 else 0) + new_slots olds codes"
| "new_slots _ _ = 0"

lemma row_slots_simps [simp]:
  "row_slots [] = []"
  "row_slots (c # cs) = (if escaped c then unat (escape_slot c) # row_slots cs else row_slots cs)"
  by (simp_all add: row_slots_def)

lemma row_slots_split:
  "length olds = length codes \<Longrightarrow> mset (row_slots olds) = mset (kept_slots olds codes) + mset (released_slots olds codes)"
  by (induction olds codes rule: list_induct2) auto

lemma slot_counts:
  "length olds = length codes \<Longrightarrow>
     length (filter (\<lambda>code. code = None) codes) + length (released_slots olds codes) =
     new_slots olds codes + length (filter escaped olds)"
  by (induction olds codes rule: list_induct2) auto

text \<open>The vacant entries \<open>fs\<close> and the entries in use, together, are the table.\<close>

definition table_ok :: "narrow_metadata \<Rightarrow> nat list \<Rightarrow> nat list \<Rightarrow> bool" where
  "table_ok m fs used \<longleftrightarrow>
     chain (nm_escapes m) (nm_free_head m) fs \<and> length fs = nm_free_count m \<and>
     mset (fs @ used) = mset [0..<length (nm_escapes m)]"

lemma table_ok_distinct: "table_ok m fs used \<Longrightarrow> distinct (fs @ used)"
  unfolding table_ok_def by (metis distinct_upt mset_eq_imp_distinct_iff)

lemma table_ok_bound: "table_ok m fs used \<Longrightarrow> s \<in> set fs \<or> s \<in> set used \<Longrightarrow> s < length (nm_escapes m)"
  unfolding table_ok_def by (metis atLeastLessThan_iff set_append Un_iff mset_eq_setD set_upt)

lemma table_ok_mset: "mset used = mset used' \<Longrightarrow> table_ok m fs used \<Longrightarrow> table_ok m fs used'"
  by (simp add: table_ok_def)

lemma uint_next_free [simp]: "next_free (uint w) = Some w" "next_free (-1) = None"
  by (simp_all add: next_free_def)

lemma release_field_ok:
  assumes "table_ok m fs (unat (escape_slot old) # used)" and "escaped old"
  shows "\<exists>m'. release_field old (Some c) m = Some m' \<and> table_ok m' (unat (escape_slot old) # fs) used \<and>
    m' = m\<lparr>nm_escapes := nm_escapes m', nm_free_head := nm_free_head m', nm_free_count := nm_free_count m'\<rparr> \<and>
    length (nm_escapes m') = length (nm_escapes m) \<and>
    (\<forall>s \<in> set used. nm_escapes m' ! s = nm_escapes m ! s)"
proof -
  let ?s = "unat (escape_slot old)"
  let ?es = "(nm_escapes m)[?s := (case nm_free_head m of None \<Rightarrow> -1 | Some h \<Rightarrow> uint h)]"
  have d: "distinct (fs @ ?s # used)" using table_ok_distinct [OF assms(1)] by simp
  have s: "?s < length (nm_escapes m)" using table_ok_bound [OF assms(1)] by simp
  have r: "release_field old (Some c) m =
      Some (m\<lparr>nm_escapes := ?es, nm_free_head := Some (escape_slot old), nm_free_count := nm_free_count m + 1\<rparr>)"
    using s assms(2) by (simp add: release_field_def Let_def vec_set_less del: vec_set_Some)
  have "next_free (?es ! ?s) = nm_free_head m" using s by (auto split: option.split)
  moreover have "chain ?es (nm_free_head m) fs"
    using assms(1) d by (subst chain_update) (auto simp: table_ok_def)
  ultimately have c: "chain ?es (Some (escape_slot old)) (?s # fs)" using s by simp
  have "?s \<notin> set used" using d by simp
  then have e: "\<forall>s \<in> set used. ?es ! s = nm_escapes m ! s" by (metis nth_list_update_neq)
  define m' where "m' = m\<lparr>nm_escapes := ?es, nm_free_head := Some (escape_slot old), nm_free_count := nm_free_count m + 1\<rparr>"
  have "table_ok m' (?s # fs) used" using c assms(1) by (simp add: m'_def table_ok_def del: nth_list_update_eq)
  then show ?thesis using r e by (intro exI [of _ m']) (simp add: m'_def)
qed

lemma release_fields_ok:
  assumes "table_ok m fs (row_slots olds @ used)" and "length olds = length codes"
  shows "\<exists>m' fs'. release_fields olds codes m = Some m' \<and> table_ok m' fs' (kept_slots olds codes @ used) \<and>
    m' = m\<lparr>nm_escapes := nm_escapes m', nm_free_head := nm_free_head m', nm_free_count := nm_free_count m'\<rparr> \<and>
    length (nm_escapes m') = length (nm_escapes m) \<and>
    nm_free_count m' = nm_free_count m + length (released_slots olds codes) \<and>
    (\<forall>s \<in> set used. nm_escapes m' ! s = nm_escapes m ! s)"
  using assms(2,1)
proof (induction olds codes arbitrary: m fs used rule: list_induct2)
  case Nil
  then show ?case by auto
next
  case (Cons old olds code codes)
  let ?s = "unat (escape_slot old)"
  consider "escaped old" "code \<noteq> None" | "escaped old" "code = None" | "\<not> escaped old" by blast
  then show ?case
  proof cases
    case 1
    then obtain c where c: "code = Some c" by auto
    have "table_ok m fs (?s # row_slots olds @ used)" using Cons.prems 1 by simp
    from release_field_ok [OF this 1(1), of c] obtain m1 where m1: "release_field old code m = Some m1"
        "table_ok m1 (?s # fs) (row_slots olds @ used)"
        "m1 = m\<lparr>nm_escapes := nm_escapes m1, nm_free_head := nm_free_head m1, nm_free_count := nm_free_count m1\<rparr>"
        "length (nm_escapes m1) = length (nm_escapes m)"
        "\<forall>s \<in> set (row_slots olds @ used). nm_escapes m1 ! s = nm_escapes m ! s"
      using c by blast
    from Cons.IH [OF m1(2)] obtain m2 fs2 where m2: "release_fields olds codes m1 = Some m2"
        "table_ok m2 fs2 (kept_slots olds codes @ used)"
        "m2 = m1\<lparr>nm_escapes := nm_escapes m2, nm_free_head := nm_free_head m2, nm_free_count := nm_free_count m2\<rparr>"
        "length (nm_escapes m2) = length (nm_escapes m1)"
        "nm_free_count m2 = nm_free_count m1 + length (released_slots olds codes)"
        "\<forall>s \<in> set used. nm_escapes m2 ! s = nm_escapes m1 ! s"
      by blast
    have "nm_free_count m1 = nm_free_count m + 1"
      using m1(2) Cons.prems by (simp add: table_ok_def)
    moreover have "m2 = m\<lparr>nm_escapes := nm_escapes m2, nm_free_head := nm_free_head m2, nm_free_count := nm_free_count m2\<rparr>"
      by (subst m2(3), subst m1(3)) simp
    ultimately show ?thesis using 1 c m1(1,4,5) m2(1,2,4-) by (intro exI [of _ m2] exI [of _ fs2]) simp
  next
    case 2
    have "table_ok m fs (row_slots olds @ ?s # used)"
      using Cons.prems 2 by (simp add: table_ok_def)
    from Cons.IH [OF this] obtain m2 fs2 where m2: "release_fields olds codes m = Some m2"
        "table_ok m2 fs2 (kept_slots olds codes @ ?s # used)"
        "m2 = m\<lparr>nm_escapes := nm_escapes m2, nm_free_head := nm_free_head m2, nm_free_count := nm_free_count m2\<rparr>"
        "length (nm_escapes m2) = length (nm_escapes m)"
        "nm_free_count m2 = nm_free_count m + length (released_slots olds codes)"
        "\<forall>s \<in> set (?s # used). nm_escapes m2 ! s = nm_escapes m ! s"
      by blast
    then show ?thesis using 2
      by (intro exI [of _ m2] exI [of _ fs2]) (auto simp: release_field_def table_ok_def)
  next
    case 3
    then show ?thesis using Cons.IH [of m fs used] Cons.prems by (simp add: release_field_def)
  qed
qed

subsection \<open>Facts: encoding\<close>

lemma take_slot_ok:
  assumes "table_ok m fs (if escaped old then unat (escape_slot old) # used else used)"
    and "length (nm_escapes m) < 2 ^ 31 \<or> escaped old \<or> fs \<noteq> []" and "length (nm_escapes m) \<le> 2 ^ 31"
  shows "\<exists>slot m' fs'. take_slot old m = Some (slot, m') \<and> table_ok m' fs' (unat slot # used) \<and>
    m' = m\<lparr>nm_escapes := nm_escapes m', nm_escapes_capacity := nm_escapes_capacity m',
            nm_free_head := nm_free_head m', nm_free_count := nm_free_count m'\<rparr> \<and>
    length (nm_escapes m') + (if escaped old then 0 else length fs) =
      length (nm_escapes m) + (if escaped old then 0 else max 1 (length fs)) \<and>
    length fs' = (if escaped old then length fs else length fs - 1) \<and>
    (\<forall>s \<in> set used. nm_escapes m' ! s = nm_escapes m ! s)"
proof (cases "escaped old")
  case True
  then show ?thesis using assms(1)
    by (intro exI [of _ "escape_slot old"] exI [of _ m] exI [of _ fs]) (simp add: take_slot_def)
next
  case False
  show ?thesis
  proof (cases fs)
    case Nil
    let ?n = "length (nm_escapes m)"
    let ?m = "m\<lparr>nm_escapes := nm_escapes m @ [0],
                   nm_escapes_capacity := push_capacity (nm_escapes_capacity m) ?n\<rparr>"
    have h: "nm_free_head m = None" "mset used = mset [0..<?n]" "nm_free_count m = 0"
      using assms(1) False Nil by (simp_all add: table_ok_def)
    have n: "unat (word_of_nat ?n :: u32) = ?n" using assms(2) False Nil by (intro small_word) simp
    have "set used = {0..<?n}" using h(2) by (metis mset_eq_setD set_upt)
    then show ?thesis using False Nil h n
      by (intro exI [of _ "word_of_nat ?n"] exI [of _ ?m] exI [of _ "[]"])
         (auto simp: take_slot_def table_ok_def nth_append)
  next
    case (Cons f fs')
    then obtain w where w: "nm_free_head m = Some w" "unat w = f" "f < length (nm_escapes m)"
        "chain (nm_escapes m) (next_free (nm_escapes m ! f)) fs'" "nm_free_count m = length fs' + 1"
      using assms(1) False by (auto simp: table_ok_def)
    let ?m = "m\<lparr>nm_free_head := next_free (nm_escapes m ! f), nm_free_count := length fs'\<rparr>"
    have "take_slot old m = Some (w, ?m)"
      using False w by (simp add: take_slot_def vec_get_less checked_sub_def del: vec_get_Some)
    moreover have "table_ok ?m fs' (unat w # used)"
      using assms(1) False Cons w by (simp add: table_ok_def)
    ultimately show ?thesis using False Cons
      by (intro exI [of _ w] exI [of _ ?m] exI [of _ fs']) simp
  qed
qed

text \<open>What a code shows: the number it decodes to, for a field that is present.\<close>

definition shows_value :: "narrow_metadata \<Rightarrow> usize \<Rightarrow> i64 option \<Rightarrow> u32 \<Rightarrow> bool" where
  "shows_value m field input code \<longleftrightarrow>
     (case input of
        None \<Rightarrow> True
      | Some v \<Rightarrow> if escaped code then vec_get (nm_escapes m) (unat (escape_slot code)) = Some v
                 else inline_shows m field v code)"

lemma shows_value_decode: "shows_value m f (Some v) code \<Longrightarrow> decode m code f = Some v"
  by (auto simp: shows_value_def decode_def inline_shows_def)

lemma shows_value_cong:
  assumes "nm_bases m' = nm_bases m" and "nm_initialized m' = nm_initialized m"
    and "escaped code \<Longrightarrow> vec_get (nm_escapes m') (unat (escape_slot code)) = vec_get (nm_escapes m) (unat (escape_slot code))"
  shows "shows_value m' f i code = shows_value m f i code"
  using assms by (auto simp: shows_value_def inline_shows_def split: option.split)

lemma encode_field_ok:
  assumes "table_ok m fs (if escaped old \<and> code = None then unat (escape_slot old) # used else used)"
    and "length (nm_escapes m) + ((if \<not> escaped old \<and> code = None then 1 else 0) + n - length fs) \<le> 2 ^ 31"
    and "prepared_as m field input code"
  shows "\<exists>w m' fs'. encode_field old code input m = Some (w, m') \<and>
    table_ok m' fs' (if escaped w then unat (escape_slot w) # used else used) \<and>
    m' = m\<lparr>nm_escapes := nm_escapes m', nm_escapes_capacity := nm_escapes_capacity m',
            nm_free_head := nm_free_head m', nm_free_count := nm_free_count m'\<rparr> \<and>
    length (nm_escapes m') + (n - length fs') =
      length (nm_escapes m) + ((if \<not> escaped old \<and> code = None then 1 else 0) + n - length fs) \<and>
    shows_value m' field input w \<and> (\<forall>s \<in> set used. nm_escapes m' ! s = nm_escapes m ! s)"
proof (cases code)
  case (Some c)
  then show ?thesis using assms
    by (intro exI [of _ c] exI [of _ m] exI [of _ fs])
       (auto simp: encode_field_def prepared_as_def shows_value_def inline_shows_def split: option.splits)
next
  case None
  obtain v where v: "input = Some v" using assms(3) None by (auto simp: prepared_as_def)
  have "table_ok m fs (if escaped old then unat (escape_slot old) # used else used)" using assms(1) None by simp
  moreover have "length (nm_escapes m) < 2 ^ 31 \<or> escaped old \<or> fs \<noteq> []" using assms(2) None by auto
  moreover have "length (nm_escapes m) \<le> 2 ^ 31" using assms(2) by simp
  ultimately obtain slot m1 fs' where t: "take_slot old m = Some (slot, m1)" "table_ok m1 fs' (unat slot # used)"
      "m1 = m\<lparr>nm_escapes := nm_escapes m1, nm_escapes_capacity := nm_escapes_capacity m1,
              nm_free_head := nm_free_head m1, nm_free_count := nm_free_count m1\<rparr>"
      "length (nm_escapes m1) + (if escaped old then 0 else length fs) =
        length (nm_escapes m) + (if escaped old then 0 else max 1 (length fs))"
      "length fs' = (if escaped old then length fs else length fs - 1)"
      "\<forall>s \<in> set used. nm_escapes m1 ! s = nm_escapes m ! s"
    using take_slot_ok [of m fs old used] by blast
  let ?es = "(nm_escapes m1)[unat slot := v]"
  define m' where "m' = m1\<lparr>nm_escapes := ?es\<rparr>"
  have s: "unat slot < length (nm_escapes m1)" using table_ok_bound [OF t(2)] by simp
  have d: "distinct (fs' @ unat slot # used)" using table_ok_distinct [OF t(2)] by simp
  have len: "length (nm_escapes m1) + (n - length fs') =
      length (nm_escapes m) + ((if \<not> escaped old \<and> code = None then 1 else 0) + n - length fs)"
    using t(4,5) None by (auto split: if_splits)
  then have "unat slot < 2 ^ 31" using s assms(2) by linarith
  note slot = slot_code [OF this]
  have ok: "table_ok m' fs' (unat slot # used)"
    using t(2) d by (simp add: table_ok_def m'_def chain_update)
  have "\<forall>x \<in> set used. ?es ! x = nm_escapes m ! x" using t(6) d by (metis distinct.simps(2) distinct_append nth_list_update_neq)
  moreover have "encode_field old code input m = Some (slot OR escaped_value, m')"
    using t(1) s None v by (simp add: encode_field_def vec_set_less m'_def del: vec_set_Some)
  moreover have "shows_value m' field input (slot OR escaped_value)"
    using v slot s by (simp add: shows_value_def m'_def)
  moreover have "m' = m\<lparr>nm_escapes := nm_escapes m', nm_escapes_capacity := nm_escapes_capacity m',
            nm_free_head := nm_free_head m', nm_free_count := nm_free_count m'\<rparr>"
    unfolding m'_def by (subst t(3)) simp
  ultimately show ?thesis using ok slot len
    by (intro exI [of _ "slot OR escaped_value"] exI [of _ m'] exI [of _ fs']) (simp add: m'_def)
qed

lemma encode_fields_ok:
  assumes "length olds = length codes" and "length codes = length input"
    and "table_ok m fs (kept_slots olds codes @ used)"
    and "length (nm_escapes m) + (new_slots olds codes - length fs) \<le> 2 ^ 31"
    and "\<And>k. k < length input \<Longrightarrow> prepared_as m (field + k) (input ! k) (codes ! k)"
  shows "\<exists>ws m' fs'. encode_fields olds codes input m = Some (ws, m') \<and> length ws = length input \<and>
    table_ok m' fs' (row_slots ws @ used) \<and>
    m' = m\<lparr>nm_escapes := nm_escapes m', nm_escapes_capacity := nm_escapes_capacity m',
            nm_free_head := nm_free_head m', nm_free_count := nm_free_count m'\<rparr> \<and>
    length (nm_escapes m') \<le> length (nm_escapes m) + (new_slots olds codes - length fs) \<and>
    (\<forall>k < length input. shows_value m' (field + k) (input ! k) (ws ! k)) \<and>
    (\<forall>s \<in> set used. nm_escapes m' ! s = nm_escapes m ! s)"
  using assms
proof (induction olds codes input arbitrary: m fs used field rule: list_induct3)
  case Nil
  then show ?case by auto
next
  case (Cons old olds code codes v vs)
  let ?new = "if \<not> escaped old \<and> code = None then 1 else 0 :: nat"
  have "table_ok m fs (if escaped old \<and> code = None then unat (escape_slot old) # (kept_slots olds codes @ used)
      else kept_slots olds codes @ used)"
    using Cons.prems(1) by (cases "escaped old \<and> code = None") auto
  moreover have "length (nm_escapes m) + (?new + new_slots olds codes - length fs) \<le> 2 ^ 31"
    using Cons.prems(2) by (simp split: if_splits)
  moreover have "prepared_as m field v code" using Cons.prems(3) [of 0] by simp
  ultimately obtain w m1 fs1 where e: "encode_field old code v m = Some (w, m1)"
      "table_ok m1 fs1 (if escaped w then unat (escape_slot w) # (kept_slots olds codes @ used) else kept_slots olds codes @ used)"
      "m1 = m\<lparr>nm_escapes := nm_escapes m1, nm_escapes_capacity := nm_escapes_capacity m1,
            nm_free_head := nm_free_head m1, nm_free_count := nm_free_count m1\<rparr>"
      "length (nm_escapes m1) + (new_slots olds codes - length fs1) =
         length (nm_escapes m) + (?new + new_slots olds codes - length fs)"
      "shows_value m1 field v w" "\<forall>s \<in> set (kept_slots olds codes @ used). nm_escapes m1 ! s = nm_escapes m ! s"
    using encode_field_ok [of m fs old code "kept_slots olds codes @ used" "new_slots olds codes" field v] by blast
  define used' where "used' = (if escaped w then unat (escape_slot w) # used else used)"
  have fields: "nm_bases m1 = nm_bases m" "nm_initialized m1 = nm_initialized m"
    by (subst e(3), simp)+
  have ok1: "table_ok m1 fs1 (kept_slots olds codes @ used')"
    using e(2) by (auto simp: used'_def table_ok_def)
  have le: "length (nm_escapes m1) + (new_slots olds codes - length fs1) \<le> 2 ^ 31"
    using e(4) Cons.prems(2) by (simp split: if_splits)
  have prep: "prepared_as m1 (Suc field + k) (vs ! k) (codes ! k)" if "k < length vs" for k
    using Cons.prems(3) [of "Suc k"] that prepared_as_cong [OF fields] by simp
  from Cons.IH [OF ok1 le prep] obtain ws m2 fs2 where r: "encode_fields olds codes vs m1 = Some (ws, m2)"
      "length ws = length vs" "table_ok m2 fs2 (row_slots ws @ used')"
      "m2 = m1\<lparr>nm_escapes := nm_escapes m2, nm_escapes_capacity := nm_escapes_capacity m2,
            nm_free_head := nm_free_head m2, nm_free_count := nm_free_count m2\<rparr>"
      "length (nm_escapes m2) \<le> length (nm_escapes m1) + (new_slots olds codes - length fs1)"
      "\<forall>k < length vs. shows_value m2 (Suc field + k) (vs ! k) (ws ! k)"
      "\<forall>s \<in> set used'. nm_escapes m2 ! s = nm_escapes m1 ! s"
    by blast
  have fields2: "nm_bases m2 = nm_bases m1" "nm_initialized m2 = nm_initialized m1"
    by (subst r(4), simp)+
  have "vec_get (nm_escapes m2) (unat (escape_slot w)) = vec_get (nm_escapes m1) (unat (escape_slot w))" if "escaped w"
  proof -
    have "unat (escape_slot w) \<in> set used'" using that by (simp add: used'_def)
    moreover from this have "unat (escape_slot w) < length (nm_escapes m1)" "unat (escape_slot w) < length (nm_escapes m2)"
      using table_ok_bound [OF ok1] table_ok_bound [OF r(3)] by simp_all
    ultimately show ?thesis using r(7) by (simp add: vec_get_def)
  qed
  then have "shows_value m2 field v w" using e(5) fields2 shows_value_cong by blast
  then have "\<forall>k < length (v # vs). shows_value m2 (field + k) ((v # vs) ! k) ((w # ws) ! k)"
    using r(6) by (auto simp: less_Suc_eq_0_disj)
  moreover have "table_ok m2 fs2 (row_slots (w # ws) @ used)"
    using r(3) by (auto simp: used'_def table_ok_def)
  moreover have "m2 = m\<lparr>nm_escapes := nm_escapes m2, nm_escapes_capacity := nm_escapes_capacity m2,
            nm_free_head := nm_free_head m2, nm_free_count := nm_free_count m2\<rparr>"
    by (subst r(4), subst e(3)) simp
  moreover have "\<forall>s \<in> set used. nm_escapes m2 ! s = nm_escapes m ! s"
    using r(7) e(6) by (simp add: used'_def split: if_splits)
  ultimately show ?case using e(1,4) r(1,2,5)
    by (intro exI [of _ "w # ws"] exI [of _ m2] exI [of _ fs2]) simp
qed

subsection \<open>Facts: rows and blocks\<close>

definition row_shows :: "narrow_metadata \<Rightarrow> metadata_input \<Rightarrow> u32 list \<Rightarrow> bool" where
  "row_shows m input codes \<longleftrightarrow>
     length codes = 6 \<and> length input = 6 \<and> (\<forall>f < 6. shows_value m f (input ! f) (codes ! f))"

definition rows_used :: "u32 list list \<Rightarrow> nat list" where
  "rows_used rows = concat (map row_slots rows)"

definition narrow_shows :: "narrow_metadata \<Rightarrow> metadata_input list \<Rightarrow> bool" where
  "narrow_shows m inputs \<longleftrightarrow>
     (\<exists>fs. table_ok m fs (rows_used (nm_rows m))) \<and> length (nm_bases m) = 6 \<and>
     length (nm_escapes m) \<le> 2 ^ 31 \<and> list_all2 (row_shows m) inputs (nm_rows m)"

definition wide_shows :: "metadata_input \<Rightarrow> metadata_values \<Rightarrow> bool" where
  "wide_shows input v \<longleftrightarrow>
     length v = 6 \<and> length input = 6 \<and> (\<forall>f < 6. \<forall>n. input ! f = Some n \<longrightarrow> v ! f = n)"

definition block_shows :: "metadata_block \<Rightarrow> metadata_input list \<Rightarrow> bool" where
  "block_shows b inputs \<longleftrightarrow>
     (case b of Narrow m \<Rightarrow> narrow_shows m inputs \<and> nm_rows_capacity m * 24 < 2 ^ 63 | Wide vs _ \<Rightarrow> list_all2 wide_shows inputs vs)"

definition rows_after_write :: "usize option \<Rightarrow> metadata_input \<Rightarrow> metadata_input list \<Rightarrow> metadata_input list" where
  "rows_after_write row input inputs =
     (case row of Some r \<Rightarrow> inputs[r := input] | None \<Rightarrow> inputs @ [input])"

text \<open>
  What a caller may write: numbers of 64 bits, to a row that is there or at the end of a block
  whose rows fit in memory (no allocation is larger than \<open>isize::MAX\<close> bytes).
\<close>

definition write_ok :: "usize option \<Rightarrow> metadata_input \<Rightarrow> nat \<Rightarrow> bool" where
  "write_ok row input n \<longleftrightarrow>
     length input = 6 \<and> (\<forall>v. Some v \<in> set input \<longrightarrow> is_i64 v) \<and>
     (case row of Some r \<Rightarrow> r < n | None \<Rightarrow> (n + 1) * 24 < 2 ^ 63)"

lemma row_slots_member: "f < length codes \<Longrightarrow> escaped (codes ! f) \<Longrightarrow> unat (escape_slot (codes ! f)) \<in> set (row_slots codes)"
  by (auto simp: row_slots_def)

lemma row_shows_cong:
  assumes "nm_bases m' = nm_bases m" and "nm_initialized m' = nm_initialized m"
    and "\<And>s. s \<in> set (row_slots codes) \<Longrightarrow> vec_get (nm_escapes m') s = vec_get (nm_escapes m) s"
  shows "row_shows m' input codes = row_shows m input codes"
proof -
  have "shows_value m' f (input ! f) (codes ! f) = shows_value m f (input ! f) (codes ! f)" if "f < 6" "length codes = 6" for f
    using that assms row_slots_member [of f codes] by (intro shows_value_cong) simp_all
  then show ?thesis unfolding row_shows_def by blast
qed

lemma keeps_bases_shows: "keeps_bases m m' \<Longrightarrow> row_shows m input codes \<Longrightarrow> row_shows m' input codes"
  unfolding row_shows_def
proof (elim conjE, intro conjI allI impI)
  fix f :: nat
  assume k: "keeps_bases m m'" and f: "f < 6" and s: "\<forall>f < 6. shows_value m f (input ! f) (codes ! f)"
  have "nm_escapes m' = nm_escapes m" using k unfolding keeps_bases_def by (metis narrow_metadata.select_convs(5) narrow_metadata.update_convs(1,2) narrow_metadata.surjective)
  then show "shows_value m' f (input ! f) (codes ! f)"
    using s f keeps_bases_inline [OF k] by (auto simp: shows_value_def split: option.splits)
qed

lemma rows_used_update:
  assumes "r < length rows"
  shows "\<exists>others. mset (rows_used rows) = mset (row_slots (rows ! r) @ others) \<and>
    (\<forall>codes. mset (rows_used (rows[r := codes])) = mset (row_slots codes @ others)) \<and>
    (\<forall>i < length rows. i \<noteq> r \<longrightarrow> set (row_slots (rows ! i)) \<subseteq> set others)"
proof -
  define us where "us = take r rows"
  define vs where "vs = drop (Suc r) rows"
  let ?others = "rows_used us @ rows_used vs"
  have rows: "rows = us @ rows ! r # vs" using assms by (simp add: us_def vs_def id_take_nth_drop)
  have r: "length us = r" using assms by (simp add: us_def)
  have upd: "rows[r := codes] = us @ codes # vs" for codes
    using assms by (simp add: us_def vs_def upd_conv_take_nth_drop)
  have "mset (rows_used rows) = mset (row_slots (rows ! r) @ ?others)"
    by (subst rows) (simp add: rows_used_def)
  moreover have "\<forall>codes. mset (rows_used (rows[r := codes])) = mset (row_slots codes @ ?others)"
    by (simp add: upd rows_used_def)
  moreover have "set (row_slots (rows ! i)) \<subseteq> set ?others" if "i < length rows" "i \<noteq> r" for i
  proof -
    have "rows ! i \<in> set us \<union> set vs"
    proof (cases "i < r")
      case True
      then have "rows ! i = us ! i" by (simp add: us_def)
      then show ?thesis using True r by simp
    next
      case False
      then have "rows ! i = vs ! (i - Suc r)" "i - Suc r < length vs" using that by (simp_all add: vs_def)
      then show ?thesis by simp
    qed
    then show ?thesis by (auto simp: rows_used_def)
  qed
  ultimately show ?thesis by blast
qed

lemma narrow_write_ok:
  assumes shown: "narrow_shows m inputs" and w: "write_ok row input (length inputs)"
    and codes: "length codes = 6" "\<And>f. f < 6 \<Longrightarrow> prepared_as m f (input ! f) (codes ! f)"
    and old: "(case row of Some r \<Rightarrow> vec_get (nm_rows m) r | None \<Rightarrow> Some (replicate 6 0)) = Some old"
    and room: "length (nm_escapes m) + (length (filter (\<lambda>c. c = None) codes) - (length (filter escaped old) + nm_free_count m)) \<le> 2 ^ 31"
  shows "\<exists>m'. narrow_write row input codes old m = Some m' \<and> narrow_shows m' (rows_after_write row input inputs)"
proof -
  obtain fs where fs: "table_ok m fs (rows_used (nm_rows m))" using shown by (auto simp: narrow_shows_def)
  have len: "length inputs = length (nm_rows m)" and rows: "list_all2 (row_shows m) inputs (nm_rows m)"
    using shown by (auto simp: narrow_shows_def list_all2_lengthD)
  have lo: "length old = 6"
    using old rows len by (auto simp: row_shows_def list_all2_conv_all_nth split: option.splits)
  have li: "length input = 6" using w by (simp add: write_ok_def)
  let ?rows = "\<lambda>codes. (case row of Some r \<Rightarrow> (nm_rows m)[r := codes] | None \<Rightarrow> nm_rows m @ [codes])"
  obtain others where o': "mset (rows_used (nm_rows m)) = mset (row_slots old @ others)"
      "\<And>cs. mset (rows_used (?rows cs)) = mset (row_slots cs @ others)"
      "\<And>i. i < length (nm_rows m) \<Longrightarrow> row \<noteq> Some i \<Longrightarrow> set (row_slots (nm_rows m ! i)) \<subseteq> set others"
  proof (cases row)
    case None
    have "row_slots old = []" using old None by (auto simp: row_slots_def filter_empty_conv)
    then show ?thesis using None
      by (intro that [of "rows_used (nm_rows m)"]) (force simp: rows_used_def)+
  next
    case (Some r)
    then have "r < length (nm_rows m)" "nm_rows m ! r = old" using old by simp_all
    then obtain others where "mset (rows_used (nm_rows m)) = mset (row_slots old @ others)"
        "\<forall>cs. mset (rows_used ((nm_rows m)[r := cs])) = mset (row_slots cs @ others)"
        "\<forall>i < length (nm_rows m). i \<noteq> r \<longrightarrow> set (row_slots (nm_rows m ! i)) \<subseteq> set others"
      using rows_used_update [of r "nm_rows m"] by blast
    then show ?thesis using Some by (intro that [of others]) auto
  qed
  have "table_ok m fs (row_slots old @ others)" using table_ok_mset [OF o'(1) fs] .
  from release_fields_ok [OF this, of codes] obtain m1 fs1 where m1: "release_fields old codes m = Some m1"
      "table_ok m1 fs1 (kept_slots old codes @ others)"
      "m1 = m\<lparr>nm_escapes := nm_escapes m1, nm_free_head := nm_free_head m1, nm_free_count := nm_free_count m1\<rparr>"
      "length (nm_escapes m1) = length (nm_escapes m)"
      "nm_free_count m1 = nm_free_count m + length (released_slots old codes)"
      "\<forall>s \<in> set others. nm_escapes m1 ! s = nm_escapes m ! s"
    using lo codes(1) by auto
  have f1: "nm_bases m1 = nm_bases m" "nm_initialized m1 = nm_initialized m" "nm_rows m1 = nm_rows m"
    by (subst m1(3), simp)+
  have "length fs1 = nm_free_count m + length (released_slots old codes)"
    using m1(2,5) by (simp add: table_ok_def)
  then have room1: "length (nm_escapes m1) + (new_slots old codes - length fs1) \<le> 2 ^ 31"
    using room m1(4) slot_counts [of old codes] lo codes(1) by simp
  have "\<And>k. k < length input \<Longrightarrow> prepared_as m1 (0 + k) (input ! k) (codes ! k)"
    using codes(2) li prepared_as_cong [OF f1(1,2)] by simp
  from encode_fields_ok [OF _ _ m1(2) room1 this] obtain ws m2 fs2 where
    m2: "encode_fields old codes input m1 = Some (ws, m2)" "length ws = length input"
      "table_ok m2 fs2 (row_slots ws @ others)"
      "m2 = m1\<lparr>nm_escapes := nm_escapes m2, nm_escapes_capacity := nm_escapes_capacity m2,
            nm_free_head := nm_free_head m2, nm_free_count := nm_free_count m2\<rparr>"
      "length (nm_escapes m2) \<le> length (nm_escapes m1) + (new_slots old codes - length fs1)"
      "\<forall>k < length input. shows_value m2 (0 + k) (input ! k) (ws ! k)"
      "\<forall>s \<in> set others. nm_escapes m2 ! s = nm_escapes m1 ! s"
    using lo codes(1) li by auto
  have f2: "nm_bases m2 = nm_bases m" "nm_initialized m2 = nm_initialized m" "nm_rows m2 = nm_rows m"
    by (subst m2(4), simp add: f1)+
  define m' where "m' = (case row of Some r \<Rightarrow> m2\<lparr>nm_rows := (nm_rows m)[r := ws]\<rparr>
    | None \<Rightarrow> m2\<lparr>nm_rows := nm_rows m @ [ws], nm_rows_capacity := push_capacity (nm_rows_capacity m2) (length (nm_rows m))\<rparr>)"
  have f': "nm_bases m' = nm_bases m" "nm_initialized m' = nm_initialized m" "nm_rows m' = ?rows ws"
      "nm_escapes m' = nm_escapes m2" "nm_free_head m' = nm_free_head m2" "nm_free_count m' = nm_free_count m2"
    by (simp_all add: m'_def f2 split: option.split)
  have "shows_value m' f i c = shows_value m2 f i c" for f i c
    using f2 f' by (intro shows_value_cong) simp_all
  then have new: "row_shows m' input ws" using m2(2,6) li by (simp add: row_shows_def)
  have keep: "row_shows m' (inputs ! i) (nm_rows m ! i)" if i: "i < length (nm_rows m)" "row \<noteq> Some i" for i
  proof -
    have "vec_get (nm_escapes m') s = vec_get (nm_escapes m) s" if s: "s \<in> set (row_slots (nm_rows m ! i))" for s
    proof -
      have "s \<in> set others" using s o'(3) [OF i] by blast
      moreover from this have "s < length (nm_escapes m1)" "s < length (nm_escapes m2)"
        using table_ok_bound [OF m1(2)] table_ok_bound [OF m2(3)] by simp_all
      ultimately show ?thesis using m1(4,6) m2(7) f'(4) by (simp add: vec_get_def)
    qed
    moreover have "row_shows m (inputs ! i) (nm_rows m ! i)" using rows i len by (simp add: list_all2_conv_all_nth)
    ultimately show ?thesis using row_shows_cong [OF f'(1,2)] by blast
  qed
  have "list_all2 (row_shows m') (rows_after_write row input inputs) (nm_rows m')"
    using new keep len w unfolding f'(3) rows_after_write_def
    by (cases row) (auto simp: list_all2_conv_all_nth nth_append nth_list_update less_Suc_eq write_ok_def)
  moreover have "table_ok m' fs2 (rows_used (nm_rows m'))"
    using m2(3) o'(2) [of ws] f' by (simp add: table_ok_def)
  ultimately have "narrow_shows m' (rows_after_write row input inputs)"
    using shown f' m2(5) room1 unfolding narrow_shows_def by (metis order_trans)
  moreover have "narrow_write row input codes old m = Some m'"
    using m1(1) m2(1) f2 old by (cases row) (simp_all add: narrow_write_def m'_def vec_set_less del: vec_set_Some)
  ultimately show ?thesis by blast
qed

lemma wide_write_ok:
  assumes "list_all2 wide_shows inputs vs" and "write_ok row input (length inputs)"
  shows "\<exists>b. wide_write row input vs capacity = Some b \<and> block_shows b (rows_after_write row input inputs)"
proof -
  let ?v = "map (\<lambda>x. case x of Some n \<Rightarrow> n | None \<Rightarrow> 0) input"
  have v: "wide_shows input ?v" using assms(2) by (simp add: wide_shows_def write_ok_def)
  show ?thesis
    using assms v list_all2_lengthD [OF assms(1)]
    by (cases row)
       (simp_all add: wide_write_def rows_after_write_def block_shows_def write_ok_def vec_set_less
          list_all2_appendI list_all2_update_cong Let_def del: vec_set_Some)
qed

lemma those_map: "(\<And>x. x \<in> set xs \<Longrightarrow> f x = Some (g x)) \<Longrightarrow> those (map f xs) = Some (map g xs)"
  by (induction xs) auto

lemma decode_row_ok:
  assumes "row_shows m input codes" and "length (nm_bases m) = 6"
    and "\<And>s. s \<in> set (row_slots codes) \<Longrightarrow> s < length (nm_escapes m)"
  shows "\<exists>v. decode_row m codes = Some v \<and> wide_shows input v"
proof -
  have l: "length codes = 6" "length input = 6" using assms(1) by (simp_all add: row_shows_def)
  define g where "g f = the (decode m (codes ! f) f)" for f
  have g: "decode m (codes ! f) f = Some (g f)" if "f < 6" for f
    using that assms(2,3) row_slots_member [of f codes] l
    by (auto simp: g_def decode_def vec_get_def)
  have "decode_row m codes = Some (map g [0..<6])"
    unfolding decode_row_def metadata_fields_def
    by (rule those_map) (use g l in \<open>auto simp: vec_get_less simp del: vec_get_Some\<close>)
  moreover have "g f = n" if "f < 6" "input ! f = Some n" for f n
    using assms(1) that g [of f] shows_value_decode [of m f n "codes ! f"] by (auto simp: row_shows_def)
  ultimately show ?thesis using l by (auto simp: wide_shows_def)
qed

lemma decode_rows_ok:
  assumes "narrow_shows m inputs"
  shows "\<exists>vs. those (map (decode_row m) (nm_rows m)) = Some vs \<and> list_all2 wide_shows inputs vs"
proof -
  obtain fs where fs: "table_ok m fs (rows_used (nm_rows m))" using assms by (auto simp: narrow_shows_def)
  have d: "\<exists>v. decode_row m (nm_rows m ! i) = Some v \<and> wide_shows (inputs ! i) v" if "i < length (nm_rows m)" for i
  proof (rule decode_row_ok)
    show "row_shows m (inputs ! i) (nm_rows m ! i)" "length (nm_bases m) = 6"
      using assms that by (auto simp: narrow_shows_def list_all2_conv_all_nth)
    have "nm_rows m ! i \<in> set (nm_rows m)" using that by simp
    then show "s < length (nm_escapes m)" if "s \<in> set (row_slots (nm_rows m ! i))" for s
      using table_ok_bound [OF fs] that by (fastforce simp: rows_used_def)
  qed
  define g where "g codes = the (decode_row m codes)" for codes
  have "those (map (decode_row m) (nm_rows m)) = Some (map g (nm_rows m))"
    by (rule those_map) (use d in \<open>force simp: in_set_conv_nth g_def\<close>)
  moreover have "list_all2 wide_shows inputs (map g (nm_rows m))"
    using d assms by (fastforce simp: list_all2_conv_all_nth narrow_shows_def g_def)
  ultimately show ?thesis by blast
qed

lemma widen_and_write_ok:
  assumes "narrow_shows m inputs" and "write_ok row input (length inputs)"
  shows "case widen_and_write alloc row input m of
      Some b \<Rightarrow> block_shows b (rows_after_write row input inputs) | None \<Rightarrow> allocation_fails alloc"
proof (cases "try_reserve alloc 0 (nm_rows_capacity m)")
  case None
  then show ?thesis using try_reserve_cases [OF None] by (simp add: widen_and_write_def make_wide_def)
next
  case (Some c)
  obtain vs where vs: "those (map (decode_row m) (nm_rows m)) = Some vs" "list_all2 wide_shows inputs vs"
    using decode_rows_ok [OF assms(1)] by blast
  obtain b where "wide_write row input vs c = Some b \<and> block_shows b (rows_after_write row input inputs)"
    using wide_write_ok [OF vs(2) assms(2)] by blast
  then show ?thesis using Some vs(1) by (simp add: widen_and_write_def make_wide_def)
qed

lemma narrow_fits_room: "narrow_fits m n \<Longrightarrow> length (nm_escapes m) + n < 2 ^ 31"
proof -
  assume "narrow_fits m n"
  then have "saturating_add (length (nm_escapes m)) n < 2 ^ 31" by (simp add: narrow_fits_def Let_def)
  then show ?thesis by (auto simp: saturating_add_def usize_max_def min_less_iff_disj)
qed

lemma narrow_fits_max:
  assumes "narrow_fits m n" and "nm_rows_capacity m * 24 < 2 ^ 63"
  shows "length (nm_escapes m) + n \<le> max_escapes m"
proof -
  define c where "c = nm_rows_capacity m"
  let ?e = "max (nm_escapes_capacity m) (length (nm_escapes m) + n)"
  have e: "?e < 2 ^ 31" "saturating_add (length (nm_escapes m)) n = length (nm_escapes m) + n"
    using assms(1) narrow_fits_room [OF assms(1)]
    by (simp_all add: narrow_fits_def Let_def saturating_add_def usize_max_def)
  moreover have c: "c * 24 < 2 ^ 63" using assms(2) by (simp add: c_def)
  ultimately have "c * 24 + ?e * 8 + 48 \<le> c * 48"
    using assms by (simp add: narrow_fits_def Let_def saturating_add_def saturating_mul_def usize_max_def
        flip: c_def split: if_splits)
  moreover have "(length (nm_escapes m) + n) * 8 \<le> ?e * 8" by (intro mult_le_mono1 max.cobounded2)
  ultimately have "(length (nm_escapes m) + n) * 8 \<le> c * 24 - 48" by linarith
  then have "length (nm_escapes m) + n \<le> (c * 24 - 48) div 8" by (simp add: less_eq_div_iff_mult_less_eq)
  moreover have "saturating_mul c (48 - 24) = c * 24"
    using c by (simp add: saturating_mul_def usize_max_def)
  ultimately show ?thesis using e by (simp add: max_escapes_def flip: c_def)
qed

lemma reserve_escapes_ok:
  assumes "narrow_fits m n" and "nm_rows_capacity m * 24 < 2 ^ 63" and "narrow_shows m inputs"
  shows "case reserve_escapes alloc n m of
      Some m1 \<Rightarrow> narrow_shows m1 inputs \<and> m1 = m\<lparr>nm_escapes_capacity := nm_escapes_capacity m1\<rparr>
    | None \<Rightarrow> allocation_fails alloc"
proof -
  define needed where "needed = saturating_add (length (nm_escapes m)) n"
  define capacity where "capacity = min (max (max needed (saturating_mul (nm_escapes_capacity m) 2)) 16) (max_escapes m)"
  have "needed = length (nm_escapes m) + n"
    using narrow_fits_room [OF assms(1)] by (simp add: needed_def saturating_add_def usize_max_def)
  then have "length (nm_escapes m) \<le> capacity"
    using narrow_fits_max [OF assms(1,2)] by (simp add: capacity_def)
  then have c: "checked_sub capacity (length (nm_escapes m)) = Some (capacity - length (nm_escapes m))"
    by (simp add: checked_sub_def)
  have same: "narrow_shows (m\<lparr>nm_escapes_capacity := c\<rparr>) inputs" for c
  proof -
    have "row_shows (m\<lparr>nm_escapes_capacity := c\<rparr>) = row_shows m"
      by (intro ext row_shows_cong) simp_all
    then show ?thesis using assms(3) by (simp add: narrow_shows_def table_ok_def)
  qed
  have "reserve_escapes alloc n m = (if needed \<le> nm_escapes_capacity m then Some m
      else map_option (\<lambda>c. m\<lparr>nm_escapes_capacity := c\<rparr>)
        (try_reserve alloc (nm_escapes_capacity m) (length (nm_escapes m) + (capacity - length (nm_escapes m)))))"
    unfolding reserve_escapes_def needed_def [symmetric] capacity_def [symmetric] Let_def c by (simp add: map_option_case bind_eq_Some_conv split: option.split)
  then show ?thesis using same assms(3) by (auto simp: try_reserve_cases split: option.split)
qed

lemma narrow_write_capacity:
  assumes "narrow_write row input codes old m = Some m'"
  shows "nm_rows_capacity m' = (case row of Some r \<Rightarrow> nm_rows_capacity m
    | None \<Rightarrow> push_capacity (nm_rows_capacity m) (length (nm_rows m)))"
proof -
  have r: "nm_rows_capacity m1 = nm_rows_capacity m \<and> nm_rows m1 = nm_rows m"
    if "release_fields old codes m = Some m1" for m1
    using that by (induction old codes m rule: release_fields.induct)
      (auto simp: release_field_def bind_eq_Some_conv Let_def split: if_splits)
  have t: "nm_rows_capacity m2 = nm_rows_capacity m1 \<and> nm_rows m2 = nm_rows m1"
    if "take_slot old m1 = Some (w, m2)" for m1 m2 w old
    using that by (auto simp: take_slot_def bind_eq_Some_conv split: if_splits option.splits)
  have f: "nm_rows_capacity m2 = nm_rows_capacity m1 \<and> nm_rows m2 = nm_rows m1"
    if "encode_field old c v m1 = Some (w, m2)" for m1 m2 w old c v
    using that t by (fastforce simp: encode_field_def bind_eq_Some_conv split: option.splits)
  have e: "nm_rows_capacity m2 = nm_rows_capacity m1 \<and> nm_rows m2 = nm_rows m1"
    if "encode_fields old codes input m1 = Some (ws, m2)" for m1 m2 ws
    using that
  proof (induction old codes input m1 arbitrary: ws m2 rule: encode_fields.induct)
    case (1 old olds code codes v vs m)
    then show ?case using f by (fastforce simp: bind_eq_Some_conv)
  qed simp_all
  show ?thesis using assms r e
    by (cases row) (fastforce simp: narrow_write_def bind_eq_Some_conv)+
qed

lemma prepare_ok:
  assumes "prepare input m = (codes, m')" and "narrow_shows m inputs" and "write_ok row input n"
  shows "narrow_shows m' inputs" "length codes = 6" "\<And>f. f < 6 \<Longrightarrow> prepared_as m' f (input ! f) (codes ! f)"
    "nm_rows m' = nm_rows m" "nm_rows_capacity m' = nm_rows_capacity m"
proof -
  have l: "length input = 6" "length (nm_bases m) = 6"
    using assms(2,3) by (simp_all add: write_ok_def narrow_shows_def)
  have k: "keeps_bases m m' \<and> length codes = length input \<and>
      (\<forall>k < length input. prepared_as m' (0 + k) (input ! k) (codes ! k))"
    by (rule prepare_from_ok) (use assms l in \<open>auto simp: prepare_def write_ok_def\<close>)
  then show "length codes = 6" "\<And>f. f < 6 \<Longrightarrow> prepared_as m' f (input ! f) (codes ! f)" using l by simp_all
  have same: "m' = m\<lparr>nm_bases := nm_bases m', nm_initialized := nm_initialized m'\<rparr>"
    using k by (simp add: keeps_bases_def)
  show "nm_rows m' = nm_rows m" "nm_rows_capacity m' = nm_rows_capacity m" by (subst same, simp)+
  have "nm_escapes m' = nm_escapes m" "nm_free_head m' = nm_free_head m" "nm_free_count m' = nm_free_count m"
    by (subst same, simp)+
  moreover have "list_all2 (row_shows m') inputs (nm_rows m)"
    using assms(2) keeps_bases_shows k by (auto simp: narrow_shows_def elim: list_all2_mono)
  ultimately show "narrow_shows m' inputs"
    using assms(2) k \<open>nm_rows m' = nm_rows m\<close> by (simp add: narrow_shows_def table_ok_def keeps_bases_def)
qed

lemma block_write_ok:
  assumes "block_shows b inputs" and w: "write_ok row input (length inputs)"
  shows "case block_write alloc row input b of
      Some b' \<Rightarrow> block_shows b' (rows_after_write row input inputs) | None \<Rightarrow> allocation_fails alloc"
proof (cases b)
  case (Wide vs capacity)
  then show ?thesis using wide_write_ok [OF _ w, of vs capacity] assms(1)
    by (auto simp: block_write_def block_shows_def)
next
  case (Narrow m0)
  obtain codes m where p: "prepare input m0 = (codes, m)" by fastforce
  have m0: "narrow_shows m0 inputs" "nm_rows_capacity m0 * 24 < 2 ^ 63"
    using assms(1) Narrow by (simp_all add: block_shows_def)
  note prep = prepare_ok [OF p m0(1) w]
  have cap: "nm_rows_capacity m * 24 < 2 ^ 63" using prep(5) m0(2) by simp
  have len: "length inputs = length (nm_rows m)"
    using prep(1) by (auto simp: narrow_shows_def list_all2_lengthD)
  obtain old where old: "(case row of Some r \<Rightarrow> vec_get (nm_rows m) r | None \<Rightarrow> Some (replicate 6 0)) = Some old"
    using w len by (cases row) (auto simp: write_ok_def vec_get_less simp del: vec_get_Some)
  define n where "n = length (filter (\<lambda>code. code = None) codes) - (length (filter escaped old) + nm_free_count m)"
  have step: "block_write alloc row input b =
      (if narrow_fits m n
       then Option.bind (reserve_escapes alloc n m)
              (\<lambda>m1. if narrow_fits m1 0 then map_option Narrow (narrow_write row input codes old m1)
                    else widen_and_write alloc row input m1)
       else widen_and_write alloc row input m)"
    by (simp only: block_write_def Narrow metadata_block.case p Let_def prod.case n_def metadata_fields_def
        old Option.bind.simps)
  show ?thesis
  proof (cases "narrow_fits m n")
    case False
    then show ?thesis using widen_and_write_ok [OF prep(1) w] step by simp
  next
    case True
    note room = reserve_escapes_ok [OF True cap prep(1), of alloc]
    show ?thesis
    proof (cases "reserve_escapes alloc n m")
      case None
      then show ?thesis using room step True by simp
    next
      case (Some m1)
      then have m1: "narrow_shows m1 inputs" "m1 = m\<lparr>nm_escapes_capacity := nm_escapes_capacity m1\<rparr>" using room by simp_all
      have f1: "nm_bases m1 = nm_bases m" "nm_initialized m1 = nm_initialized m" "nm_rows m1 = nm_rows m"
          "nm_escapes m1 = nm_escapes m" "nm_free_count m1 = nm_free_count m" "nm_rows_capacity m1 = nm_rows_capacity m"
        by (subst m1(2), simp)+
      have "\<And>f. f < 6 \<Longrightarrow> prepared_as m1 f (input ! f) (codes ! f)"
        using prep(3) prepared_as_cong [OF f1(1,2)] by simp
      moreover have "length (nm_escapes m1) + (length (filter (\<lambda>c. c = None) codes)
          - (length (filter escaped old) + nm_free_count m1)) \<le> 2 ^ 31"
        using narrow_fits_room [OF True] f1 by (simp add: n_def)
      ultimately obtain m' where m': "narrow_write row input codes old m1 = Some m'"
          "narrow_shows m' (rows_after_write row input inputs)"
        using narrow_write_ok [OF m1(1) w prep(2), of old] old unfolding f1(3) by blast
      have "nm_rows_capacity m' * 24 < 2 ^ 63"
        using narrow_write_capacity [OF m'(1)] cap w len f1(3,6)
        by (cases row) (auto simp: write_ok_def push_capacity_def max_def)
      then show ?thesis
        using step True Some m' widen_and_write_ok [OF m1(1) w] by (simp add: block_shows_def)
    qed
  qed
qed

definition rows_bounded :: "allocator \<Rightarrow> bool" where
  "rows_bounded alloc \<longleftrightarrow> (\<forall>n c. alloc n = Some c \<longrightarrow> c * 24 < 2 ^ 63)"

lemma metadata_block_new_ok:
  assumes "rows_bounded alloc"
  shows "case metadata_block_new alloc capacity of
      Some b \<Rightarrow> block_shows b [] | None \<Rightarrow> allocation_fails alloc"
proof (cases "try_reserve alloc 0 capacity")
  case None
  then show ?thesis using try_reserve_cases [OF None] by (simp add: metadata_block_new_def)
next
  case (Some c)
  let ?m = "\<lparr>nm_bases = replicate metadata_fields 0, nm_initialized = 0, nm_rows = [],
                nm_rows_capacity = c, nm_escapes = [], nm_escapes_capacity = 0,
                nm_free_head = None, nm_free_count = 0\<rparr>"
  have c: "c * 24 < 2 ^ 63"
    using Some assms by (auto simp: try_reserve_def rows_bounded_def split: if_splits)
  have shows0: "narrow_shows ?m []"
    by (auto simp: narrow_shows_def table_ok_def rows_used_def metadata_fields_def intro: exI [of _ "[]"])
  have "case make_wide alloc ?m of Some b \<Rightarrow> block_shows b [] | None \<Rightarrow> allocation_fails alloc"
    using try_reserve_cases [of alloc 0 c]
    by (cases "try_reserve alloc 0 c") (simp_all add: make_wide_def block_shows_def)
  then show ?thesis using Some shows0 c by (simp add: metadata_block_new_def block_shows_def Let_def)
qed

lemma block_value_shows:
  assumes "block_shows b inputs" and "r < length inputs" and "f < 6" and "inputs ! r ! f = Some v"
  shows "block_value b r f = Some v"
proof (cases b)
  case (Narrow m)
  then have s: "row_shows m (inputs ! r) (nm_rows m ! r)" "r < length (nm_rows m)"
    using assms(1,2) by (auto simp: block_shows_def narrow_shows_def list_all2_conv_all_nth)
  then have "decode m (nm_rows m ! r ! f) f = Some v" "length (nm_rows m ! r) = 6"
    using assms(3,4) shows_value_decode [of m f v] by (auto simp: row_shows_def)
  then show ?thesis using s(2) assms(3) by (simp add: Narrow block_value_def vec_get_less del: vec_get_Some)
next
  case (Wide vs c)
  then have "wide_shows (inputs ! r) (vs ! r)" "r < length vs"
    using assms(1,2) by (auto simp: block_shows_def list_all2_conv_all_nth)
  then show ?thesis
    using assms(3,4) by (simp add: Wide block_value_def wide_shows_def vec_get_less del: vec_get_Some)
qed

text \<open>A history of a block: pushes and updates, with the rows that a caller expects after them.\<close>

fun block_writes :: "allocator \<Rightarrow> (usize option \<times> metadata_input) list \<Rightarrow> metadata_block \<Rightarrow> metadata_block option" where
  "block_writes alloc [] b = Some b"
| "block_writes alloc ((row, input) # ws) b =
     Option.bind (case row of Some r \<Rightarrow> block_update alloc r input b | None \<Rightarrow> block_push alloc input b)
       (block_writes alloc ws)"

fun rows_after :: "(usize option \<times> metadata_input) list \<Rightarrow> metadata_input list \<Rightarrow> metadata_input list" where
  "rows_after [] inputs = inputs"
| "rows_after ((row, input) # ws) inputs = rows_after ws (rows_after_write row input inputs)"

fun writes_ok :: "(usize option \<times> metadata_input) list \<Rightarrow> metadata_input list \<Rightarrow> bool" where
  "writes_ok [] inputs = True"
| "writes_ok ((row, input) # ws) inputs \<longleftrightarrow>
     write_ok row input (length inputs) \<and> writes_ok ws (rows_after_write row input inputs)"

lemma block_writes_ok:
  "block_shows b inputs \<Longrightarrow> writes_ok ws inputs \<Longrightarrow>
     (case block_writes alloc ws b of Some b' \<Rightarrow> block_shows b' (rows_after ws inputs) | None \<Rightarrow> allocation_fails alloc)"
proof (induction ws arbitrary: b inputs)
  case (Cons w ws)
  obtain row input where w: "w = (row, input)" by fastforce
  note step = block_write_ok [OF Cons.prems(1), of row input alloc]
  have e: "(case row of Some r \<Rightarrow> block_update alloc r input b | None \<Rightarrow> block_push alloc input b) = block_write alloc row input b"
    by (simp add: block_update_def block_push_def split: option.split)
  show ?case
  proof (cases "block_write alloc row input b")
    case None
    then show ?thesis unfolding w using step Cons.prems(2) [unfolded w] e by simp
  next
    case (Some b')
    then show ?thesis unfolding w rows_after.simps
      using step Cons.prems(2) [unfolded w] Cons.IH [of b' "rows_after_write row input inputs"] e by simp
  qed
qed simp

text \<open>C36: Whatever is pushed and updated, in whatever order, a block gives back the last number written
  to each field: differences to a base, escaped values, the reuse of vacant entries and the
  change to full numbers lose and mix up nothing. No index is ever out of range and no
  subtraction goes below zero: without a failed allocation every write returns.\<close>

theorem metadata_last_write:
  assumes "rows_bounded alloc" and "writes_ok ws []"
  shows "case Option.bind (metadata_block_new alloc capacity) (block_writes alloc ws) of
      None \<Rightarrow> allocation_fails alloc
    | Some b \<Rightarrow> \<forall>r < length (rows_after ws []). \<forall>f < 6. \<forall>v.
        rows_after ws [] ! r ! f = Some v \<longrightarrow> block_value b r f = Some v"
proof (cases "metadata_block_new alloc capacity")
  case None
  then show ?thesis using metadata_block_new_ok [OF assms(1), of capacity] by simp
next
  case (Some b)
  then have "block_shows b []" using metadata_block_new_ok [OF assms(1), of capacity] by simp
  from block_writes_ok [OF this assms(2), of alloc] show ?thesis
    using Some block_value_shows by (auto split: option.splits)
qed

theorem metadata_last_write_witness:
  "\<exists>b. Option.bind (metadata_block_new (\<lambda>n. Some (min n (2 ^ 50))) 16)
      (block_writes (\<lambda>n. Some (min n (2 ^ 50)))
        [(None, replicate 6 (Some 0)), (None, replicate 6 (Some (2 ^ 40))), (Some 0, replicate 6 (Some (- (2 ^ 40))))]) = Some b
    \<and> block_value b 0 3 = Some (- (2 ^ 40)) \<and> block_value b 1 5 = Some (2 ^ 40)"
proof -
  let ?alloc = "\<lambda>n :: usize. Some (min n (2 ^ 50)) :: usize option"
  let ?ws = "[(None, replicate 6 (Some 0)), (None, replicate 6 (Some (2 ^ 40))), (Some 0, replicate 6 (Some (- (2 ^ 40))))]
      :: (usize option \<times> metadata_input) list"
  have a: "rows_bounded ?alloc" by (simp add: rows_bounded_def min_def)
  have w: "writes_ok ?ws []"
    by (simp add: write_ok_def rows_after_write_def is_i64_def i64_min_def i64_max_def)
  have rows: "rows_after ?ws [] = [replicate 6 (Some (- (2 ^ 40))), replicate 6 (Some (2 ^ 40))]"
    by (simp add: rows_after_write_def)
  have "\<not> allocation_fails ?alloc" by (simp add: allocation_fails_def)
  then show ?thesis using metadata_last_write [OF a w, of 16] unfolding rows
    by (cases "Option.bind (metadata_block_new ?alloc 16) (block_writes ?alloc ?ws)") (auto simp: All_less_Suc numeral_2_eq_2)
qed

end
