(* ===== verification/Prefix_Pool.thy ===== *)
theory Prefix_Pool
  imports Rust_Vec
begin

text \<open>
  \<open>PrefixPool\<close> of \<open>src/src/compact_index.rs\<close>: the parent directories that rows share, each
  stored once, with a hash table (open addressing, a power of two of slots) from texts to
  their numbers. The hasher is a parameter, as is the allocator.
\<close>

definition no_prefix :: u32 where "no_prefix = - 1"

record prefix_pool =
  pp_values :: "str list"
  pp_values_capacity :: usize
  pp_slots :: "u32 list"
  pp_slots_capacity :: usize
  pp_string_bytes :: usize
  pp_limit :: usize

definition prefix_pool_new :: "usize \<Rightarrow> prefix_pool" where
  "prefix_pool_new n =
     \<lparr>pp_values = [], pp_values_capacity = 0, pp_slots = [], pp_slots_capacity = 0,
      pp_string_bytes = 0, pp_limit = n\<rparr>"

text \<open>\<open>size_of::<Box<str>>()\<close>, \<open>size_of::<u32>()\<close> and \<open>size_of::<PrefixPool>()\<close>.\<close>

definition box_bytes :: usize where "box_bytes = 16"
definition slot_bytes :: usize where "slot_bytes = 4"
definition pool_bytes :: usize where "pool_bytes = 80"

definition pool_capacity_bytes :: "prefix_pool \<Rightarrow> usize" where
  "pool_capacity_bytes p =
     pp_string_bytes p + pp_values_capacity p * box_bytes + pp_slots_capacity p * slot_bytes"

definition pool_get :: "prefix_pool \<Rightarrow> u32 \<Rightarrow> str option" where
  "pool_get p i = (if i = no_prefix then Some [] else vec_get (pp_values p) (unat i))"

text \<open>The bounded loop of \<open>lookup\<close>; the outer \<open>None\<close> would be an index out of range.\<close>

fun lookup_loop :: "prefix_pool \<Rightarrow> str \<Rightarrow> usize \<Rightarrow> usize \<Rightarrow> u32 option option" where
  "lookup_loop p v 0 slot = Some None"
| "lookup_loop p v (Suc n) slot =
     do {
       i \<leftarrow> vec_get (pp_slots p) slot;
       if i = no_prefix then Some None
       else do {
         w \<leftarrow> vec_get (pp_values p) (unat i);
         if w = v then Some (Some i)
         else lookup_loop p v n ((slot + 1) AND (length (pp_slots p) - 1))
       }
     }"

definition lookup :: "prefix_pool \<Rightarrow> str \<Rightarrow> usize \<Rightarrow> u32 option option" where
  "lookup p v h =
     (if pp_slots p = [] then Some None
      else lookup_loop p v (length (pp_slots p)) (h AND (length (pp_slots p) - 1)))"

text \<open>The search for an empty slot is a \<open>while\<close> loop: it returns if there is one.\<close>

partial_function (option) empty_slot :: "u32 list \<Rightarrow> usize \<Rightarrow> usize option" where
  "empty_slot slots slot =
     (case vec_get slots slot of
        None \<Rightarrow> None
      | Some i \<Rightarrow> if i = no_prefix then Some slot
                  else empty_slot slots ((slot + 1) AND (length slots - 1)))"

definition insert_slot :: "u32 list \<Rightarrow> u32 \<Rightarrow> usize \<Rightarrow> u32 list option" where
  "insert_slot slots i h =
     do { slot \<leftarrow> empty_slot slots (h AND (length slots - 1)); vec_set slots slot i }"

fun insert_values :: "(str \<Rightarrow> usize) \<Rightarrow> (usize \<times> str) list \<Rightarrow> u32 list \<Rightarrow> u32 list option" where
  "insert_values hash [] slots = Some slots"
| "insert_values hash ((i, v) # vs) slots =
     Option.bind (insert_slot slots (word_of_nat i) (hash v)) (insert_values hash vs)"

definition pool_fits :: "prefix_pool \<Rightarrow> usize \<Rightarrow> usize \<Rightarrow> usize \<Rightarrow> bool" where
  "pool_fits p payload entries slots \<longleftrightarrow>
     saturating_add (saturating_add (saturating_add payload (saturating_mul entries box_bytes))
       (saturating_mul slots slot_bytes)) pool_bytes \<le> pp_limit p"

text \<open>
  Interning a new text, in the order of the code: the checks, the allocations, the check of the
  real capacities, and only then the changes.
\<close>

definition grow_pool ::
  "(str \<Rightarrow> usize) \<Rightarrow> usize \<Rightarrow> usize \<Rightarrow> usize \<Rightarrow> usize \<Rightarrow> str \<Rightarrow> usize \<Rightarrow> prefix_pool \<Rightarrow> (u32 option \<times> prefix_pool) option"
where
  "grow_pool hash values_capacity slots_len slots_capacity payload v h p =
     (if \<not> pool_fits p payload values_capacity slots_capacity then Some (None, p)
      else do {
        slots \<leftarrow> (if length (pp_slots p) < slots_len
                  then insert_values hash (List.enumerate 0 (pp_values p)) (replicate slots_len no_prefix)
                  else Some (pp_slots p));
        let i = word_of_nat (length (pp_values p));
        slots' \<leftarrow> insert_slot slots i h;
        Some (Some i, p\<lparr>pp_values := pp_values p @ [v],
          pp_values_capacity := push_capacity values_capacity (length (pp_values p)),
          pp_slots := slots', pp_slots_capacity := slots_capacity, pp_string_bytes := payload\<rparr>)
      })"

definition intern :: "(str \<Rightarrow> usize) \<Rightarrow> allocator \<Rightarrow> str \<Rightarrow> prefix_pool \<Rightarrow> (u32 option \<times> prefix_pool) option" where
  "intern hash alloc v p =
     do {
       found \<leftarrow> lookup p v (hash v);
       case found of
         Some i \<Rightarrow> Some (Some i, p)
       | None \<Rightarrow>
           let new_len = length (pp_values p) + 1
           in if \<not> new_len < u32_max then Some (None, p)
              else case checked_add (pp_string_bytes p) (length v) of
                None \<Rightarrow> Some (None, p)
              | Some payload \<Rightarrow>
                  let values_capacity = (if pp_values_capacity p < new_len
                        then max (saturating_mul (pp_values_capacity p) 2) 16 else pp_values_capacity p);
                      slots_len = (if length (pp_slots p) div 2 < new_len
                        then max (saturating_mul (length (pp_slots p)) 2) 32 else length (pp_slots p))
                  in if \<not> pool_fits p payload values_capacity (max slots_len (pp_slots_capacity p))
                     then Some (None, p)
                     else do {
                       actual_values \<leftarrow> (if pp_values_capacity p < values_capacity
                         then try_reserve alloc 0 values_capacity else Some (pp_values_capacity p));
                       actual_slots \<leftarrow> (if length (pp_slots p) < slots_len
                         then try_reserve alloc 0 slots_len else Some (pp_slots_capacity p));
                       grow_pool hash actual_values slots_len actual_slots payload v (hash v) p
                     }
     }"

subsection \<open>Facts: probing\<close>

text \<open>The slots that are probed, in order.\<close>

definition probe :: "nat \<Rightarrow> nat \<Rightarrow> nat \<Rightarrow> nat" where
  "probe n h j = (h + j) mod n"

lemma and_size: "n = 2 ^ k \<Longrightarrow> h AND (n - 1) = probe n h 0" for h n :: nat
  using take_bit_eq_mask [of k h] by (simp add: take_bit_eq_mod mask_eq_exp_minus_1 probe_def)

lemma probe_Suc: "n = 2 ^ k \<Longrightarrow> (probe n h j + 1) AND (n - 1) = probe n h (Suc j)"
  using and_size [of n k "probe n h j + 1"] by (simp add: probe_def mod_Suc_eq)

lemma probe_less: "0 < n \<Longrightarrow> probe n h j < n"
  by (simp add: probe_def)

lemma probe_hits:
  assumes "i < n"
  shows "\<exists>j < n. probe n h j = i"
proof -
  have "(h + (i + n - h mod n) mod n) mod n = (h mod n + (i + n - h mod n)) mod n"
    by (simp add: mod_add_left_eq mod_add_right_eq)
  also have "h mod n + (i + n - h mod n) = i + n" using assms mod_less_divisor [of n h] by linarith
  finally have "probe n h ((i + n - h mod n) mod n) = i" using assms by (simp add: probe_def)
  moreover have "(i + n - h mod n) mod n < n" using assms by simp
  ultimately show ?thesis by blast
qed

text \<open>
  A table of slots for a list of texts: every text is found from its hash without crossing an
  empty slot, and there are no more occupied slots than texts.
\<close>

definition slot_table :: "(str \<Rightarrow> usize) \<Rightarrow> str list \<Rightarrow> u32 list \<Rightarrow> bool" where
  "slot_table hash vs slots \<longleftrightarrow>
     (\<exists>k. length slots = 2 ^ k) \<and>
     (\<forall>s \<in> set slots. s = no_prefix \<or> unat s < length vs) \<and>
     card {i. i < length slots \<and> slots ! i \<noteq> no_prefix} \<le> length vs \<and>
     (\<forall>i < length vs. \<exists>j < length slots.
        slots ! probe (length slots) (hash (vs ! i)) j = word_of_nat i \<and>
        (\<forall>j' < j. slots ! probe (length slots) (hash (vs ! i)) j' \<noteq> no_prefix))"

lemma empty_slot_from:
  assumes "length slots = 2 ^ k" and "slots ! probe (length slots) h (i + d) = no_prefix"
    and "\<And>j. i \<le> j \<Longrightarrow> j < i + d \<Longrightarrow> slots ! probe (length slots) h j \<noteq> no_prefix"
  shows "empty_slot slots (probe (length slots) h i) = Some (probe (length slots) h (i + d))"
  using assms(2,3)
proof (induction d arbitrary: i)
  case 0
  have "probe (length slots) h i < length slots" using assms(1) by (intro probe_less) simp
  then show ?case using 0 by (subst empty_slot.simps) (simp add: vec_get_less del: vec_get_Some)
next
  case (Suc d)
  have l: "probe (length slots) h i < length slots" using assms(1) by (intro probe_less) simp
  have "slots ! probe (length slots) h i \<noteq> no_prefix" using Suc.prems(2) [of i] by simp
  moreover have "empty_slot slots (probe (length slots) h (Suc i)) = Some (probe (length slots) h (Suc i + d))"
    by (rule Suc.IH) (use Suc.prems in auto)
  ultimately show ?case using l probe_Suc [OF assms(1), of h i]
    by (subst empty_slot.simps) (simp add: vec_get_less del: vec_get_Some)
qed

text \<open>The loop returns whenever some slot is empty, at the first empty one.\<close>

lemma empty_slot_returns:
  assumes "length slots = 2 ^ k" and "card {i. i < length slots \<and> slots ! i \<noteq> no_prefix} < length slots"
  shows "\<exists>d < length slots. empty_slot slots (h AND (length slots - 1)) = Some (probe (length slots) h d) \<and>
    slots ! probe (length slots) h d = no_prefix \<and> (\<forall>j < d. slots ! probe (length slots) h j \<noteq> no_prefix)"
proof -
  let ?n = "length slots"
  have "\<exists>i < ?n. slots ! i = no_prefix"
  proof (rule ccontr)
    assume "\<not> ?thesis"
    then have "{i. i < ?n \<and> slots ! i \<noteq> no_prefix} = {..<?n}" by auto
    then show False using assms(2) by simp
  qed
  then obtain j0 where j0: "j0 < ?n" "slots ! probe ?n h j0 = no_prefix" using probe_hits by metis
  define d where "d = (LEAST j. slots ! probe ?n h j = no_prefix)"
  have d: "slots ! probe ?n h d = no_prefix" unfolding d_def by (rule LeastI) (rule j0(2))
  have "d \<le> j0" unfolding d_def by (rule Least_le) (rule j0(2))
  moreover have before: "slots ! probe ?n h j \<noteq> no_prefix" if "j < d" for j
    using that not_less_Least unfolding d_def by blast
  ultimately show ?thesis
    using empty_slot_from [OF assms(1), of h 0 d] and_size [OF assms(1), of h] d j0(1)
    by (intro exI [of _ d]) simp
qed

lemma small_id:
  assumes "i < u32_max"
  shows "unat (word_of_nat i :: u32) = i" "(word_of_nat i :: u32) \<noteq> no_prefix"
proof -
  show u: "unat (word_of_nat i :: u32) = i"
    using assms by (simp add: unat_of_nat u32_max_def take_bit_nat_eq_self)
  have "unat no_prefix = u32_max"
    by (simp add: no_prefix_def u32_max_def unsigned_minus_1_eq_mask mask_eq_exp_minus_1)
  then show "(word_of_nat i :: u32) \<noteq> no_prefix" using u assms by auto
qed

lemma insert_slot_ok:
  assumes t: "slot_table hash vs slots" and room: "length vs < length slots" and small: "length vs < u32_max"
  shows "\<exists>slots'. insert_slot slots (word_of_nat (length vs)) (hash v) = Some slots' \<and>
    length slots' = length slots \<and> slot_table hash (vs @ [v]) slots'"
proof -
  let ?n = "length slots" and ?w = "word_of_nat (length vs) :: u32"
  obtain k where k: "?n = 2 ^ k" using t by (auto simp: slot_table_def)
  have "card {i. i < ?n \<and> slots ! i \<noteq> no_prefix} < ?n" using t room by (simp add: slot_table_def)
  from empty_slot_returns [OF k this, of "hash v"] obtain d where d: "d < ?n"
      "empty_slot slots (hash v AND (?n - 1)) = Some (probe ?n (hash v) d)"
      "slots ! probe ?n (hash v) d = no_prefix" "\<forall>j < d. slots ! probe ?n (hash v) j \<noteq> no_prefix"
    by blast
  define s where "s = probe ?n (hash v) d"
  define slots' where "slots' = slots[s := ?w]"
  have s: "s < ?n" using k by (simp add: s_def probe_less)
  note w = small_id [OF small]
  have ins: "insert_slot slots ?w (hash v) = Some slots'"
    using d(2) s by (simp add: insert_slot_def slots'_def s_def vec_set_less del: vec_set_Some)
  have nth: "slots' ! i = (if i = s then ?w else slots ! i)" if "i < ?n" for i
    using that by (simp add: slots'_def nth_list_update)
  have keep: "slots' ! i \<noteq> no_prefix" if "i < ?n" "slots ! i \<noteq> no_prefix" for i
    using that nth w(2) by simp
  have "{i. i < ?n \<and> slots' ! i \<noteq> no_prefix} \<subseteq> insert s {i. i < ?n \<and> slots ! i \<noteq> no_prefix}"
    using nth by (auto split: if_splits)
  then have "card {i. i < ?n \<and> slots' ! i \<noteq> no_prefix} \<le> card (insert s {i. i < ?n \<and> slots ! i \<noteq> no_prefix})"
    by (rule card_mono [rotated]) simp
  also have "\<dots> \<le> Suc (card {i. i < ?n \<and> slots ! i \<noteq> no_prefix})"
    by (simp add: card_insert_if)
  finally have card: "card {i. i < ?n \<and> slots' ! i \<noteq> no_prefix} \<le> length (vs @ [v])"
    using t by (simp add: slot_table_def)
  have "\<forall>x \<in> set slots'. x = no_prefix \<or> unat x < length (vs @ [v])"
    using t w(1) set_update_subset_insert [of slots s ?w] unfolding slots'_def slot_table_def by fastforce
  moreover have "\<exists>j < ?n. slots' ! probe ?n (hash ((vs @ [v]) ! i)) j = word_of_nat i \<and>
      (\<forall>j' < j. slots' ! probe ?n (hash ((vs @ [v]) ! i)) j' \<noteq> no_prefix)" if "i < length (vs @ [v])" for i
  proof (cases "i = length vs")
    case True
    have "slots' ! s = ?w" using nth s by simp
    moreover have "slots' ! probe ?n (hash v) j \<noteq> no_prefix" if "j < d" for j
      using keep d(4) that probe_less k by simp
    ultimately show ?thesis using True d(1) by (intro exI [of _ d]) (simp add: s_def)
  next
    case False
    then have i: "i < length vs" using that by simp
    then obtain j where j: "j < ?n" "slots ! probe ?n (hash (vs ! i)) j = word_of_nat i"
        "\<forall>j' < j. slots ! probe ?n (hash (vs ! i)) j' \<noteq> no_prefix"
      using t by (auto simp: slot_table_def)
    have "(word_of_nat i :: u32) \<noteq> no_prefix" using small_id [of i] i small by simp
    then have "probe ?n (hash (vs ! i)) j \<noteq> s" using j(2) d(3) by (auto simp: s_def)
    then show ?thesis using j keep nth probe_less k i by (intro exI [of _ j]) (simp add: nth_append)
  qed
  ultimately have "slot_table hash (vs @ [v]) slots'"
    using card k by (auto simp: slot_table_def slots'_def)
  then show ?thesis using ins by (simp add: slots'_def)
qed

subsection \<open>Facts: looking up\<close>

lemma slot_table_entry:
  assumes "slot_table hash vs slots" and "i < length slots"
  shows "slots ! i = no_prefix \<or> unat (slots ! i) < length vs"
  using assms nth_mem unfolding slot_table_def by blast

lemma lookup_loop_absent:
  assumes "slot_table hash (pp_values p) (pp_slots p)" and "v \<notin> set (pp_values p)"
  shows "lookup_loop p v n (probe (length (pp_slots p)) h j) = Some None"
proof (induction n arbitrary: j)
  case (Suc n)
  obtain k where k: "length (pp_slots p) = 2 ^ k" using assms(1) by (auto simp: slot_table_def)
  then have s: "probe (length (pp_slots p)) h j < length (pp_slots p)" by (simp add: probe_less)
  show ?case
    using slot_table_entry [OF assms(1) s] s assms(2) Suc.IH [of "Suc j"] probe_Suc [OF k, of h j] nth_mem
    by (auto simp: vec_get_less simp del: vec_get_Some)
qed simp

lemma lookup_loop_present:
  assumes "slot_table hash (pp_values p) (pp_slots p)" and "distinct (pp_values p)"
    and "i < length (pp_values p)" and "length (pp_values p) < u32_max"
    and "pp_slots p ! probe (length (pp_slots p)) h (j + d) = word_of_nat i" and "d < n"
    and "\<And>j'. j \<le> j' \<Longrightarrow> j' < j + d \<Longrightarrow> pp_slots p ! probe (length (pp_slots p)) h j' \<noteq> no_prefix"
  shows "lookup_loop p (pp_values p ! i) n (probe (length (pp_slots p)) h j) = Some (Some (word_of_nat i))"
  using assms(5-)
proof (induction n arbitrary: j d)
  case (Suc n)
  obtain k where k: "length (pp_slots p) = 2 ^ k" using assms(1) by (auto simp: slot_table_def)
  let ?s = "probe (length (pp_slots p)) h j"
  have s: "?s < length (pp_slots p)" using k by (simp add: probe_less)
  have i: "unat (word_of_nat i :: u32) = i" "(word_of_nat i :: u32) \<noteq> no_prefix"
    using small_id [of i] assms(3,4) by simp_all
  have ne: "pp_slots p ! ?s \<noteq> no_prefix"
  proof (cases d)
    case 0
    then show ?thesis using Suc.prems(1) i(2) by simp
  next
    case (Suc d')
    then show ?thesis using Suc.prems(3) [of j] by simp
  qed
  then have r: "unat (pp_slots p ! ?s) < length (pp_values p)" using slot_table_entry [OF assms(1) s] by simp
  show ?case
  proof (cases "pp_values p ! unat (pp_slots p ! ?s) = pp_values p ! i")
    case True
    then have "unat (pp_slots p ! ?s) = i" using assms(2,3) r nth_eq_iff_index_eq by blast
    then have "unat (pp_slots p ! ?s) = unat (word_of_nat i :: u32)" using i(1) by simp
    then have "pp_slots p ! ?s = word_of_nat i" by (rule unsigned_word_eqI)
    then show ?thesis using s r True ne i assms(3) by (simp add: vec_get_less del: vec_get_Some)
  next
    case False
    then obtain d' where d': "d = Suc d'" using Suc.prems(1) i by (cases d) auto
    have "lookup_loop p (pp_values p ! i) n (probe (length (pp_slots p)) h (Suc j)) = Some (Some (word_of_nat i))"
      by (rule Suc.IH [of "Suc j" d']) (use Suc.prems d' in auto)
    then show ?thesis using s r ne False probe_Suc [OF k, of h j] by (simp add: vec_get_less del: vec_get_Some)
  qed
qed simp

lemma lookup_ok:
  assumes "slot_table hash (pp_values p) (pp_slots p)" and "distinct (pp_values p)" and "length (pp_values p) < u32_max"
  shows "v \<notin> set (pp_values p) \<Longrightarrow> lookup p v (hash v) = Some None"
    and "i < length (pp_values p) \<Longrightarrow> lookup p (pp_values p ! i) (hash (pp_values p ! i)) = Some (Some (word_of_nat i))"
proof -
  obtain k where k: "length (pp_slots p) = 2 ^ k" using assms(1) by (auto simp: slot_table_def)
  then have ne: "pp_slots p \<noteq> []" by auto
  show "lookup p v (hash v) = Some None" if "v \<notin> set (pp_values p)"
    using lookup_loop_absent [OF assms(1) that] and_size [OF k] ne by (simp add: lookup_def)
  assume i: "i < length (pp_values p)"
  then obtain j where j: "j < length (pp_slots p)"
      "pp_slots p ! probe (length (pp_slots p)) (hash (pp_values p ! i)) j = word_of_nat i"
      "\<forall>j' < j. pp_slots p ! probe (length (pp_slots p)) (hash (pp_values p ! i)) j' \<noteq> no_prefix"
    using assms(1) by (auto simp: slot_table_def)
  then show "lookup p (pp_values p ! i) (hash (pp_values p ! i)) = Some (Some (word_of_nat i))"
    using lookup_loop_present [OF assms(1,2) i assms(3), of "hash (pp_values p ! i)" 0 j "length (pp_slots p)"]
      and_size [OF k] ne by (simp add: lookup_def)
qed

subsection \<open>Facts: growing\<close>

lemma slot_table_empty: "slot_table hash [] (replicate (2 ^ k) no_prefix)"
proof -
  have "{i. i < 2 ^ k \<and> replicate (2 ^ k) no_prefix ! i \<noteq> no_prefix} = {}" by auto
  then show ?thesis unfolding slot_table_def by (simp only: length_replicate card.empty) auto
qed

lemma insert_values_ok:
  assumes "slot_table hash us slots" and "length (us @ vs) < length slots" and "length (us @ vs) \<le> u32_max"
  shows "\<exists>slots'. insert_values hash (List.enumerate (length us) vs) slots = Some slots' \<and>
    length slots' = length slots \<and> slot_table hash (us @ vs) slots'"
  using assms
proof (induction vs arbitrary: us slots)
  case (Cons v vs)
  obtain s1 where s1: "insert_slot slots (word_of_nat (length us)) (hash v) = Some s1"
      "length s1 = length slots" "slot_table hash (us @ [v]) s1"
    using insert_slot_ok [OF Cons.prems(1), of v] Cons.prems by auto
  then obtain s2 where "insert_values hash (List.enumerate (length (us @ [v])) vs) s1 = Some s2"
      "length s2 = length s1" "slot_table hash ((us @ [v]) @ vs) s2"
    using Cons.IH [OF s1(3)] Cons.prems by auto
  then show ?case using s1 by simp
qed simp

definition pool_ok :: "(str \<Rightarrow> usize) \<Rightarrow> prefix_pool \<Rightarrow> bool" where
  "pool_ok hash p \<longleftrightarrow>
     distinct (pp_values p) \<and> length (pp_values p) < u32_max \<and> pp_limit p < usize_max \<and>
     length (pp_values p) \<le> pp_values_capacity p \<and>
     length (pp_slots p) \<le> max 32 (4 * length (pp_values p)) \<and>
     pp_string_bytes p = sum_list (map length (pp_values p)) \<and>
     (if pp_slots p = [] then pp_values p = []
      else slot_table hash (pp_values p) (pp_slots p) \<and> 2 * length (pp_values p) \<le> length (pp_slots p)) \<and>
     (pp_values p = [] \<or> pool_capacity_bytes p + pool_bytes \<le> pp_limit p)"

lemma pool_new_ok: "n < usize_max \<Longrightarrow> pool_ok hash (prefix_pool_new n)"
  by (simp add: pool_ok_def prefix_pool_new_def u32_max_def)

lemma pool_fits_bound:
  "pool_fits p payload entries slots \<Longrightarrow> pp_limit p < usize_max \<Longrightarrow>
     payload + entries * box_bytes + slots * slot_bytes + pool_bytes \<le> pp_limit p"
  by (auto simp: pool_fits_def saturating_add_def saturating_mul_def min_def box_bytes_def slot_bytes_def
      pool_bytes_def usize_max_def split: if_splits)

lemma grow_pool_ok:
  assumes ok: "pool_ok hash p" and v: "v \<notin> set (pp_values p)" and small: "length (pp_values p) + 1 < u32_max"
    and slots_len: "slots_len = (if length (pp_slots p) div 2 < length (pp_values p) + 1
        then max (saturating_mul (length (pp_slots p)) 2) 32 else length (pp_slots p))"
    and payload: "payload = pp_string_bytes p + length v" and cap: "length (pp_values p) + 1 \<le> values_capacity"
  shows "\<exists>r p'. grow_pool hash values_capacity slots_len slots_capacity payload v (hash v) p = Some (r, p') \<and>
    (case r of
       None \<Rightarrow> p' = p
     | Some i \<Rightarrow> i = word_of_nat (length (pp_values p)) \<and> pool_ok hash p' \<and>
         pp_values p' = pp_values p @ [v] \<and> pp_limit p' = pp_limit p)"
proof (cases "pool_fits p payload values_capacity slots_capacity")
  case False
  then show ?thesis by (simp add: grow_pool_def)
next
  case True
  let ?n = "length (pp_slots p)" and ?vs = "pp_values p"
  have nb: "?n \<le> max 32 (4 * length ?vs)" using ok by (simp add: pool_ok_def)
  then have sat: "saturating_mul ?n 2 = 2 * ?n"
    using small by (simp add: saturating_mul_def usize_max_def u32_max_def)
  obtain k where k: "slots_len = 2 ^ k" and room: "2 * (length ?vs + 1) \<le> slots_len"
    and bound: "slots_len \<le> max 32 (4 * (length ?vs + 1))"
  proof (cases "pp_slots p = []")
    case True
    then have "slots_len = 2 ^ 5" "?vs = []" using slots_len sat ok by (simp_all add: pool_ok_def)
    then show ?thesis by (intro that [of 5]) simp_all
  next
    case False
    then obtain j where j: "?n = 2 ^ j" "2 * length ?vs \<le> ?n" using ok by (auto simp: pool_ok_def slot_table_def)
    show ?thesis
    proof (cases "?n div 2 < length ?vs + 1")
      case True
      have "slots_len = 2 ^ max (j + 1) 5"
        using slots_len True sat j(1) power_increasing_iff [of "2 :: nat" "j + 1" 5] power_increasing_iff [of "2 :: nat" 5 "j + 1"]
        by (simp add: max_def)
      moreover have "?n \<le> 2 * length ?vs + 1" using True by linarith
      then have "2 * (length ?vs + 1) \<le> slots_len" "slots_len \<le> max 32 (4 * (length ?vs + 1))"
        using slots_len True sat j(2) unfolding max_def by (simp_all split: if_splits)
      ultimately show ?thesis by (rule that)
    next
      case False
      then show ?thesis using j slots_len nb by (intro that [of j]) simp_all
    qed
  qed
  have "\<exists>s. (if ?n < slots_len then insert_values hash (List.enumerate 0 ?vs) (replicate slots_len no_prefix)
      else Some (pp_slots p)) = Some s \<and> length s = slots_len \<and> slot_table hash ?vs s"
  proof (cases "?n < slots_len")
    case True
    then show ?thesis
      using insert_values_ok [of hash "[]" "replicate slots_len no_prefix" ?vs] slot_table_empty [of hash k] k room small
      by simp
  next
    case False
    then have "pp_slots p \<noteq> []" "?n = slots_len" using room slots_len sat by (auto split: if_splits)
    then show ?thesis using False ok by (simp add: pool_ok_def)
  qed
  then obtain s where s: "(if ?n < slots_len then insert_values hash (List.enumerate 0 ?vs) (replicate slots_len no_prefix)
      else Some (pp_slots p)) = Some s" "length s = slots_len" "slot_table hash ?vs s" by blast
  obtain s' where s': "insert_slot s (word_of_nat (length ?vs)) (hash v) = Some s'" "length s' = length s"
      "slot_table hash (?vs @ [v]) s'"
    using insert_slot_ok [OF s(3), of v] s(2) room small by auto
  define p' where "p' = p\<lparr>pp_values := ?vs @ [v], pp_values_capacity := push_capacity values_capacity (length ?vs),
      pp_slots := s', pp_slots_capacity := slots_capacity, pp_string_bytes := payload\<rparr>"
  have "push_capacity values_capacity (length ?vs) = values_capacity" using cap by (simp add: push_capacity_def)
  moreover have "payload + values_capacity * box_bytes + slots_capacity * slot_bytes + pool_bytes \<le> pp_limit p"
    using pool_fits_bound [OF True] ok by (simp add: pool_ok_def)
  moreover have "s' \<noteq> []" using s' s(2) room by auto
  ultimately have "pool_ok hash p'"
    using ok v small cap s s' room bound payload by (simp add: pool_ok_def p'_def pool_capacity_bytes_def)
  then show ?thesis using True s(1) s'(1) by (simp add: grow_pool_def p'_def)
qed

lemma intern_ok:
  assumes ok: "pool_ok hash p" and alloc: "allocates alloc"
  shows "case intern hash alloc v p of
      None \<Rightarrow> allocation_fails alloc
    | Some (None, p') \<Rightarrow> p' = p
    | Some (Some i, p') \<Rightarrow> i \<noteq> no_prefix \<and> pool_ok hash p' \<and> pool_get p' i = Some v \<and> pp_limit p' = pp_limit p \<and>
        (\<exists>us. pp_values p' = pp_values p @ us)"
proof (cases "v \<in> set (pp_values p)")
  case True
  then obtain i where i: "i < length (pp_values p)" "pp_values p ! i = v" by (auto simp: in_set_conv_nth)
  then have t: "slot_table hash (pp_values p) (pp_slots p)" "distinct (pp_values p)" "length (pp_values p) < u32_max"
    using ok by (auto simp: pool_ok_def split: if_splits)
  have "lookup p v (hash v) = Some (Some (word_of_nat i))" using lookup_ok(2) [OF t i(1)] i(2) by simp
  moreover have "unat (word_of_nat i :: u32) = i" "(word_of_nat i :: u32) \<noteq> no_prefix"
    using small_id [of i] i(1) t(3) by simp_all
  ultimately show ?thesis using i ok by (simp add: intern_def pool_get_def)
next
  case False
  have look: "lookup p v (hash v) = Some None"
  proof (cases "pp_slots p = []")
    case True
    then show ?thesis by (simp add: lookup_def)
  next
    case ne: False
    then show ?thesis using lookup_ok(1) [OF _ _ _ False] ok by (simp add: pool_ok_def)
  qed
  define slots_len where "slots_len = (if length (pp_slots p) div 2 < length (pp_values p) + 1
                        then max (saturating_mul (length (pp_slots p)) 2) 32 else length (pp_slots p))"
  define values_capacity where "values_capacity = (if pp_values_capacity p < length (pp_values p) + 1
                        then max (saturating_mul (pp_values_capacity p) 2) 16 else pp_values_capacity p)"
  let ?room = "length (pp_values p) + 1 < u32_max \<and> pp_string_bytes p + length v \<le> usize_max \<and>
      pool_fits p (pp_string_bytes p + length v) values_capacity (max slots_len (pp_slots_capacity p))"
  have run: "intern hash alloc v p = (if ?room then do {
        actual_values \<leftarrow> (if pp_values_capacity p < values_capacity
          then try_reserve alloc 0 values_capacity else Some (pp_values_capacity p));
        actual_slots \<leftarrow> (if length (pp_slots p) < slots_len
          then try_reserve alloc 0 slots_len else Some (pp_slots_capacity p));
        grow_pool hash actual_values slots_len actual_slots (pp_string_bytes p + length v) v (hash v) p }
      else Some (None, p))"
    unfolding intern_def look Option.bind.simps option.case Let_def checked_add_def
      slots_len_def [symmetric] values_capacity_def [symmetric]
    by (cases "pp_string_bytes p + length v \<le> usize_max") simp_all
  show ?thesis
  proof (cases ?room)
    case no: False
    then show ?thesis unfolding run if_not_P [OF no] by simp
  next
    case yes: True
    note run = run [unfolded if_P [OF yes]]
    show ?thesis
    proof (cases "(if pp_values_capacity p < values_capacity
        then try_reserve alloc 0 values_capacity else Some (pp_values_capacity p))")
      case None
      then have "allocation_fails alloc" by (auto split: if_splits intro: try_reserve_cases)
      then show ?thesis using run None by simp
    next
      case (Some av)
      show ?thesis
      proof (cases "(if length (pp_slots p) < slots_len
          then try_reserve alloc 0 slots_len else Some (pp_slots_capacity p))")
        case None
        then have "allocation_fails alloc" by (auto split: if_splits intro: try_reserve_cases)
        then show ?thesis using run Some None by simp
      next
        case sc: (Some sc)
        have "values_capacity \<le> av" using Some try_reserve_ge [OF _ alloc] by (auto split: if_splits)
        moreover have "length (pp_values p) + 1 \<le> values_capacity"
          using ok yes by (auto simp: values_capacity_def pool_ok_def saturating_mul_def usize_max_def u32_max_def)
        ultimately obtain r p' where g: "grow_pool hash av slots_len sc (pp_string_bytes p + length v) v (hash v) p = Some (r, p')"
            "case r of None \<Rightarrow> p' = p | Some i \<Rightarrow> i = word_of_nat (length (pp_values p)) \<and> pool_ok hash p' \<and>
               pp_values p' = pp_values p @ [v] \<and> pp_limit p' = pp_limit p"
          using grow_pool_ok [OF ok False _ slots_len_def refl, of av sc] yes by auto
        have "intern hash alloc v p = Some (r, p')" using run Some sc g(1) by simp
        moreover have "unat (word_of_nat (length (pp_values p)) :: u32) = length (pp_values p)"
            "(word_of_nat (length (pp_values p)) :: u32) \<noteq> no_prefix"
          using small_id [of "length (pp_values p)"] yes by simp_all
        ultimately show ?thesis using g(2) by (auto simp: pool_get_def vec_get_def split: option.splits)
      qed
    qed
  qed
qed

lemma pool_get_append:
  "pp_values p' = pp_values p @ us \<Longrightarrow> pool_get p i = Some v \<Longrightarrow> pool_get p' i = Some v"
  by (auto simp: pool_get_def nth_append split: if_splits)

fun intern_all ::
  "(str \<Rightarrow> usize) \<Rightarrow> allocator \<Rightarrow> str list \<Rightarrow> prefix_pool \<Rightarrow> (u32 option list \<times> prefix_pool) option" where
  "intern_all hash alloc [] p = Some ([], p)"
| "intern_all hash alloc (v # vs) p =
     do {
       (i, p1) \<leftarrow> intern hash alloc v p;
       (is, p2) \<leftarrow> intern_all hash alloc vs p1;
       Some (i # is, p2)
     }"

definition id_ok :: "prefix_pool \<Rightarrow> str \<Rightarrow> u32 option \<Rightarrow> bool" where
  "id_ok p v i \<longleftrightarrow> (case i of None \<Rightarrow> True | Some n \<Rightarrow> n \<noteq> no_prefix \<and> pool_get p n = Some v)"

lemma intern_all_ok:
  assumes "pool_ok hash p" and "allocates alloc"
  shows "case intern_all hash alloc vs p of
      None \<Rightarrow> allocation_fails alloc
    | Some (is, p') \<Rightarrow> pool_ok hash p' \<and> pp_limit p' = pp_limit p \<and> (\<exists>us. pp_values p' = pp_values p @ us) \<and>
        list_all2 (id_ok p') vs is"
  using assms(1)
proof (induction vs arbitrary: p)
  case (Cons v vs)
  note step = intern_ok [OF Cons.prems assms(2), of v]
  show ?case
  proof (cases "intern hash alloc v p")
    case None
    then show ?thesis using step by simp
  next
    case (Some r)
    obtain i p1 where r: "r = (i, p1)" by fastforce
    have p1: "pool_ok hash p1" "pp_limit p1 = pp_limit p" "\<exists>us. pp_values p1 = pp_values p @ us" "id_ok p1 v i"
      using step Some r Cons.prems by (auto simp: id_ok_def split: option.splits)
    note rest = Cons.IH [OF p1(1)]
    show ?thesis
    proof (cases "intern_all hash alloc vs p1")
      case None
      then show ?thesis using rest Some r by simp
    next
      case s: (Some q)
      obtain "is" p2 where q: "q = (is, p2)" by fastforce
      then have p2: "pool_ok hash p2" "pp_limit p2 = pp_limit p1" "\<exists>us. pp_values p2 = pp_values p1 @ us"
          "list_all2 (id_ok p2) vs is"
        using rest s by simp_all
      then have "id_ok p2 v i" using p1(4) pool_get_append by (auto simp: id_ok_def split: option.splits)
      then show ?thesis using p1 p2 Some r s q by auto
    qed
  qed
qed simp

text \<open>C37: Numbers stay good: whatever texts are interned, in whatever order and with whatever hash
  function, each number that was given reads back the text it was given for, also after the
  table grew and was rehashed; equal texts have the same number and different texts have
  different ones; and the memory that the pool takes stays within its limit. Every search for
  a slot ends: only a failed allocation stops the pool.\<close>

theorem prefix_pool_exact:
  assumes "allocates alloc" and "n < usize_max"
  shows "case intern_all hash alloc vs (prefix_pool_new n) of
      None \<Rightarrow> allocation_fails alloc
    | Some (is, p) \<Rightarrow>
        (pp_values p = [] \<or> pool_capacity_bytes p + pool_bytes \<le> n) \<and>
        (\<forall>k < length vs. \<forall>i. is ! k = Some i \<longrightarrow> pool_get p i = Some (vs ! k)) \<and>
        (\<forall>k < length vs. \<forall>l < length vs. \<forall>i j. is ! k = Some i \<longrightarrow> is ! l = Some j \<longrightarrow>
           (i = j) = (vs ! k = vs ! l))"
proof (cases "intern_all hash alloc vs (prefix_pool_new n)")
  case None
  then show ?thesis using intern_all_ok [OF pool_new_ok [OF assms(2)] assms(1), of hash vs] by simp
next
  case (Some r)
  obtain "is" p where r: "r = (is, p)" by fastforce
  then have ok: "pool_ok hash p" "pp_limit p = n" "list_all2 (id_ok p) vs is"
    using intern_all_ok [OF pool_new_ok [OF assms(2)] assms(1), of hash vs] Some by (simp_all add: prefix_pool_new_def)
  have get: "i \<noteq> no_prefix \<and> pool_get p i = Some (vs ! k)" if "k < length vs" "is ! k = Some i" for k i
    using ok(3) that by (auto simp: list_all2_conv_all_nth id_ok_def)
  have "i = j" if "i \<noteq> no_prefix" "j \<noteq> no_prefix" "pool_get p i = Some v" "pool_get p j = Some v" for i j v
  proof -
    have "unat i = unat j"
      using that ok(1) nth_eq_iff_index_eq by (fastforce simp: pool_get_def pool_ok_def)
    then show ?thesis by (rule unsigned_word_eqI)
  qed
  then have "(i = j) = (vs ! k = vs ! l)"
    if "k < length vs" "l < length vs" "is ! k = Some i" "is ! l = Some j" for k l i j
    using get [of k i] get [of l j] that by auto
  then show ?thesis using ok get Some r by (auto simp: pool_ok_def)
qed

theorem prefix_pool_exact_witness:
  "\<exists>is p. intern_all (\<lambda>_. 7) Some [''/a/'', ''/b/'', ''/a/''] (prefix_pool_new 4096) = Some (is, p) \<and>
    (\<forall>i. is ! 2 = Some i \<longrightarrow> pool_get p i = Some ''/a/'')"
proof -
  have a: "allocates Some" by (simp add: allocates_def)
  let ?run = "intern_all (\<lambda>_. 7) Some [''/a/'', ''/b/'', ''/a/''] (prefix_pool_new 4096)"
  have n: "4096 < usize_max" by (simp add: usize_max_def)
  note exact = prefix_pool_exact [OF a n, where hash = "\<lambda>_. 7" and vs = "[''/a/'', ''/b/'', ''/a/'']"]
  have "\<not> allocation_fails Some" by (simp add: allocation_fails_def)
  then have "?run \<noteq> None" using exact by (cases ?run) simp_all
  then obtain "is" p where r: "?run = Some (is, p)" by auto
  have "\<forall>k < 3. \<forall>i. is ! k = Some i \<longrightarrow> pool_get p i = Some ([''/a/'', ''/b/'', ''/a/''] ! k)"
    using exact unfolding r by simp
  then have "\<forall>i. is ! 2 = Some i \<longrightarrow> pool_get p i = Some ''/a/''" by (auto dest: spec [of _ 2])
  then show ?thesis using r by blast
qed

end
