(* ===== verification/Reference.thy ===== *)
theory Reference
  imports Query Rust_Order
begin

text \<open>
  The reference search, of the module \<open>test_reference\<close> of \<open>src/src/search.rs\<close>: filter every
  record, score it with unprepared patterns and plain substring searches, sort all of them
  and cut the list. It is the specification that the prepared ranking and the bounded
  heap are proved against. Its own copies of \<open>fuzzy_score\<close>, \<open>has_glob_syntax\<close> and
  \<open>glob_match\<close> have the same text as the ones they test, so the same definitions model them.
\<close>

definition ref_path_filter_matches :: "str \<Rightarrow> path_filter \<Rightarrow> bool" where
  "ref_path_filter_matches path f =
     (case pf_mode f of
        ContainsMode \<Rightarrow>
          if has_glob_syntax (pf_value f) then glob_match path (pf_value f)
          else contains path (pf_value f)
      | ComponentMode \<Rightarrow>
          list_ex (\<lambda>c. if has_glob_syntax (pf_value f) then glob_match c (pf_value f)
                       else c = pf_value f)
            (filter (\<lambda>p. p \<noteq> []) (split_on is_sep path)))"

definition ref_matches_filters :: "record_view \<Rightarrow> search_options \<Rightarrow> bool" where
  "ref_matches_filters r options =
     (if ext_filters options \<noteq> []
         \<and> \<not> (case rv_ext_lower r of None \<Rightarrow> False | Some x \<Rightarrow> list_ex (\<lambda>f. f = x) (ext_filters options))
      then False
      else if (case rv_ext_lower r of None \<Rightarrow> False
               | Some x \<Rightarrow> list_ex (\<lambda>f. f = x) (excluded_ext_filters options)) then False
      else if kind_filters options \<noteq> [] \<and> rv_kind r \<notin> set (kind_filters options) then False
      else if rv_kind r \<in> set (excluded_kind_filters options) then False
      else if (case modified_after options of None \<Rightarrow> False
               | Some after \<Rightarrow> \<not> (case rv_mtime r of None \<Rightarrow> False | Some t \<Rightarrow> after \<le> t)) then False
      else if (case modified_before options of None \<Rightarrow> False
               | Some before \<Rightarrow> (case rv_mtime r of None \<Rightarrow> False | Some t \<Rightarrow> before \<le> t)) then False
      else list_all (ref_path_filter_matches (rv_path_lower r)) (path_filters options)
         \<and> \<not> list_ex (ref_path_filter_matches (rv_path_lower r)) (excluded_path_filters options))"

definition rank_text :: "str \<Rightarrow> str \<Rightarrow> i64 \<Rightarrow> i64 option" where
  "rank_text hay needle base = map_option (\<lambda>v. base + v) (fuzzy_score hay needle)"

definition ref_term_score ::
  "(str \<Rightarrow> str) \<Rightarrow> search_options \<Rightarrow> str \<Rightarrow> str \<Rightarrow> str \<Rightarrow> i64 option" where
  "ref_term_score ul options path basename token0 =
     (let is_glob = has_glob_syntax token0; token = to_lowercase ul token0
      in if is_glob \<and> path_only options then map_option (\<lambda>v. v + 450) (ref_glob_score path token)
         else if is_glob then
           (case ref_glob_score basename token of
              Some v \<Rightarrow> Some (v + 180)
            | None \<Rightarrow> map_option (\<lambda>v. v + 520) (ref_glob_score path token))
         else if path_only options then map_option (\<lambda>i. 300 + int (min i 500)) (str_find token path)
         else if basename = token then Some 0
         else if prefix token basename then Some (100 + int (length token))
         else (case str_find token basename of
             Some i \<Rightarrow> Some (250 + int i)
           | None \<Rightarrow> (case str_find token path of
               Some i \<Rightarrow> Some (550 + int (min i 500))
             | None \<Rightarrow>
                 if fuzzy_enabled options
                 then (case rank_text basename token 0 of
                         Some v \<Rightarrow> Some (v + 1000)
                       | None \<Rightarrow> map_option (\<lambda>v. v + 1400) (rank_text path token 500))
                 else None)))"

fun ref_rank_terms ::
  "(str \<Rightarrow> str) \<Rightarrow> search_options \<Rightarrow> str \<Rightarrow> str \<Rightarrow> str list \<Rightarrow> i64 \<Rightarrow> i64 option" where
  "ref_rank_terms ul options path basename [] score = Some score"
| "ref_rank_terms ul options path basename (t # ts) score =
     (case ref_term_score ul options path basename t of
        Some v \<Rightarrow> ref_rank_terms ul options path basename ts (score + v)
      | None \<Rightarrow> None)"

definition ref_rank_view :: "(str \<Rightarrow> str) \<Rightarrow> record_view \<Rightarrow> search_options \<Rightarrow> i64 option" where
  "ref_rank_view ul r options =
     (if \<not> ref_matches_filters r options then None
      else if terms options = [] then Some (mtime_score (rv_mtime r))
      else map_option (\<lambda>score. score + min (int (length (rv_path r))) 500)
             (ref_rank_terms ul options (rv_path_lower r) (rv_basename_lower r) (terms options) 0))"

text \<open>The order of the results: score, newest first, shortest path, path.\<close>

definition result_cmp :: "search_result \<Rightarrow> search_result \<Rightarrow> ordering" where
  "result_cmp a b =
     then_with (cmp_of (sr_score a) (sr_score b))
       (then_with (option_cmp (fr_mtime (sr_record b)) (fr_mtime (sr_record a)))
         (then_with (cmp_of (length (fr_path (sr_record a))) (length (fr_path (sr_record b))))
           (cmp_of (fr_path (sr_record a)) (fr_path (sr_record b)))))"

definition ref_search_records ::
  "(str \<Rightarrow> str) \<Rightarrow> i64 \<Rightarrow> file_record list \<Rightarrow> search_options \<Rightarrow> search_result list" where
  "ref_search_records ul now records options0 =
     (let options = normalized_at ul options0 now;
          results = List.map_filter (\<lambda>r.
            map_option (\<lambda>s. \<lparr>sr_record = r, sr_score = s\<rparr>)
              (ref_rank_view ul (record_view_from r) options)) records
      in take (if limit options = 0 then 50 else limit options) (sort_by result_cmp results))"

subsection \<open>Facts: the prepared search agrees with the reference\<close>

text \<open>What the search relies on in the Unicode case tables.\<close>

definition lowercase_ok :: "(str \<Rightarrow> str) \<Rightarrow> bool" where
  "lowercase_ok ul \<longleftrightarrow>
     (\<forall>s. utf8_valid s \<longrightarrow> utf8_valid (ul s)) \<and> (\<forall>s. has_glob_syntax s \<longrightarrow> has_glob_syntax (ul s))"

definition options_valid :: "search_options \<Rightarrow> bool" where
  "options_valid options \<longleftrightarrow>
     utf8_valid (query options) \<and>
     list_all (\<lambda>f. utf8_valid (pf_value f)) (path_filters options @ excluded_path_filters options)"

definition star_free :: "str \<Rightarrow> bool" where
  "star_free s \<longleftrightarrow> CHR ''*'' \<notin> set s"

definition finder_for :: "str \<Rightarrow> finder \<Rightarrow> bool" where
  "finder_for v f \<longleftrightarrow> fd_value f = v \<and> (\<forall>hay. find f hay = Some (str_find v hay))"

definition glob_for :: "bool \<Rightarrow> str \<Rightarrow> prepared_glob option \<Rightarrow> bool" where
  "glob_for b v g \<longleftrightarrow>
     (case g of
        None \<Rightarrow> \<not> b
      | Some g \<Rightarrow> b \<and> (\<forall>hay. star_free hay \<longrightarrow> prepared_glob_score g hay = Some (ref_glob_score hay v)))"

lemma finder_new_for: "utf8_valid v \<Longrightarrow> \<exists>f. finder_new v = Some f \<and> finder_for v f"
  using finder_new_ok [of v] find_correct by (auto simp: finder_for_def)

lemma glob_if_for:
  assumes "b \<Longrightarrow> has_glob_syntax v" and "utf8_valid v"
  shows "\<exists>g. glob_if b v = Some g \<and> glob_for b v g"
proof (cases b)
  case True
  then show ?thesis
    using prepared_glob_score_eq [OF assms(1) assms(2)]
    by (auto simp: glob_if_def glob_for_def star_free_def)
qed (simp add: glob_if_def glob_for_def)

lemma to_lowercase_glob:
  assumes "lowercase_ok ul" and "has_glob_syntax s"
  shows "has_glob_syntax (to_lowercase ul s)"
proof (cases "list_all is_ascii s")
  case True
  have "ascii_lower star = star" "ascii_lower question = question"
    by (simp_all add: star_def question_def ascii_lower_def byte_def)
  then have "has_glob_syntax (map ascii_lower s)"
    using assms(2) by (auto simp: has_glob_syntax_def image_iff intro: bexI [of _ star] bexI [of _ question])
  then show ?thesis using True by (simp add: to_lowercase_def)
next
  case False
  then show ?thesis using assms by (simp add: to_lowercase_def lowercase_ok_def)
qed

lemma map_m_list_all2:
  "(\<And>x. x \<in> set xs \<Longrightarrow> \<exists>y. f x = Some y \<and> P x y) \<Longrightarrow> \<exists>ys. map_m f xs = Some ys \<and> list_all2 P xs ys"
proof (induction xs)
  case (Cons x xs)
  then obtain y ys where "f x = Some y" "P x y" "map_m f xs = Some ys" "list_all2 P xs ys"
    by (metis list.set_intros)
  then show ?case by simp
qed simp

definition filter_for :: "path_filter \<Rightarrow> prepared_path_filter \<Rightarrow> bool" where
  "filter_for f p \<longleftrightarrow>
     pp_mode p = pf_mode f \<and> finder_for (pf_value f) (pp_finder p) \<and>
     glob_for (has_glob_syntax (pf_value f)) (pf_value f) (pp_glob p)"

definition term_for :: "(str \<Rightarrow> str) \<Rightarrow> str \<Rightarrow> prepared_term \<Rightarrow> bool" where
  "term_for ul t p \<longleftrightarrow>
     finder_for (to_lowercase ul t) (pt_finder p) \<and>
     glob_for (has_glob_syntax t) (to_lowercase ul t) (pt_glob p)"

lemma prepared_path_filter_new_for:
  "utf8_valid (pf_value f) \<Longrightarrow> \<exists>p. prepared_path_filter_new f = Some p \<and> filter_for f p"
  using finder_new_for [of "pf_value f"] glob_if_for [of "has_glob_syntax (pf_value f)" "pf_value f"]
  by (auto simp: prepared_path_filter_new_def filter_for_def)

lemma prepared_term_new_for:
  assumes "lowercase_ok ul" and "utf8_valid t"
  shows "\<exists>p. prepared_term_new ul t = Some p \<and> term_for ul t p"
proof -
  have "utf8_valid (to_lowercase ul t)"
    using assms by (intro to_lowercase_valid) (auto simp: lowercase_ok_def)
  then show ?thesis
    using finder_new_for [of "to_lowercase ul t"] to_lowercase_glob [OF assms(1)]
      glob_if_for [of "has_glob_syntax t" "to_lowercase ul t"]
    by (auto simp: prepared_term_new_def term_for_def)
qed

lemma terms_valid:
  assumes "utf8_valid (query options)" and "t \<in> set (terms options)"
  shows "utf8_valid t"
proof -
  obtain v where v: "v \<in> set (tokenize_query (query options))"
      "t = (case strip_prefix ''~'' v of Some r \<Rightarrow> r | None \<Rightarrow> v)"
    using assms(2) by (auto simp: terms_def)
  have "utf8_valid v" using tokenize_query_valid [OF assms(1) v(1)] by simp
  then show ?thesis
    using v(2) by (auto simp: strip_prefix_def byte_def prefix_def split: if_splits option.splits)
qed

definition query_for :: "(str \<Rightarrow> str) \<Rightarrow> search_options \<Rightarrow> prepared_query \<Rightarrow> bool" where
  "query_for ul options q \<longleftrightarrow>
     pq_options q = options \<and> list_all2 (term_for ul) (terms options) (pq_terms q) \<and>
     list_all2 filter_for (path_filters options) (pq_path_filters q) \<and>
     list_all2 filter_for (excluded_path_filters options) (pq_excluded_path_filters q) \<and>
     pq_fuzzy q = fuzzy_enabled options"

lemma prepared_query_new_for:
  assumes "lowercase_ok ul" and "options_valid options"
  shows "\<exists>q. prepared_query_new ul options = Some q \<and> query_for ul options q"
proof -
  obtain ts where ts: "map_m (prepared_term_new ul) (terms options) = Some ts"
      "list_all2 (term_for ul) (terms options) ts"
    using map_m_list_all2 [of "terms options" "prepared_term_new ul" "term_for ul"]
      prepared_term_new_for [OF assms(1)] terms_valid [of options] assms(2)
    by (metis options_valid_def)
  obtain ps where ps: "map_m prepared_path_filter_new (path_filters options) = Some ps"
      "list_all2 filter_for (path_filters options) ps"
    using map_m_list_all2 [of "path_filters options" prepared_path_filter_new filter_for]
      prepared_path_filter_new_for assms(2) by (auto simp: options_valid_def list_all_iff)
  obtain xs where xs: "map_m prepared_path_filter_new (excluded_path_filters options) = Some xs"
      "list_all2 filter_for (excluded_path_filters options) xs"
    using map_m_list_all2 [of "excluded_path_filters options" prepared_path_filter_new filter_for]
      prepared_path_filter_new_for assms(2) by (auto simp: options_valid_def list_all_iff)
  show ?thesis using ts ps xs by (simp add: prepared_query_new_def query_for_def)
qed


lemma any_m_list_all2:
  "list_all2 (\<lambda>x y. f y = Some (g x)) xs ys \<Longrightarrow> any_m f ys = Some (list_ex g xs)"
  by (induction rule: list_all2_induct) auto

lemma any_m_total: "(\<And>x. x \<in> set xs \<Longrightarrow> f x = Some (g x)) \<Longrightarrow> any_m f xs = Some (list_ex g xs)"
  by (induction xs) auto

lemma ref_glob_score_None: "ref_glob_score hay v = None \<longleftrightarrow> \<not> glob_match hay v"
  by (simp add: ref_glob_score_def Let_def)

lemma path_text_matches_for:
  assumes "filter_for f p" and "star_free txt"
  shows "path_text_matches p component txt =
    Some (if has_glob_syntax (pf_value f) then glob_match txt (pf_value f)
          else if component then txt = pf_value f else contains txt (pf_value f))"
  using assms ref_glob_score_None [of "txt" "pf_value f"]
  by (cases "pp_glob p")
     (auto simp: path_text_matches_def filter_for_def glob_for_def finder_for_def contains_def)

lemma star_free_part: "star_free path \<Longrightarrow> c \<in> set (split_on is_sep path) \<Longrightarrow> star_free c"
  using split_on_pieces [of c is_sep path] by (auto simp: star_free_def)

lemma prepared_path_filter_matches_for:
  assumes "filter_for f p" and "star_free path"
  shows "prepared_path_filter_matches p path = Some (ref_path_filter_matches path f)"
proof (cases "pf_mode f")
  case ContainsMode
  then show ?thesis
    using assms path_text_matches_for [OF assms]
    by (simp add: prepared_path_filter_matches_def ref_path_filter_matches_def filter_for_def)
next
  case ComponentMode
  have "any_m (path_text_matches p True) (filter (\<lambda>p. p \<noteq> []) (split_on is_sep path)) =
      Some (list_ex (\<lambda>c. if has_glob_syntax (pf_value f) then glob_match c (pf_value f) else c = pf_value f)
         (filter (\<lambda>p. p \<noteq> []) (split_on is_sep path)))"
    by (rule any_m_total) (use path_text_matches_for [OF assms(1)] star_free_part [OF assms(2)] in auto)
  then show ?thesis
    using assms(1) ComponentMode
    by (simp add: prepared_path_filter_matches_def ref_path_filter_matches_def filter_for_def)
qed

lemma term_score_for:
  assumes "query_for ul options q" and "term_for ul t p"
    and "star_free path" and "star_free basename"
  shows "term_score q p path basename = Some (ref_term_score ul options path basename t)"
proof -
  note q = assms(1) [unfolded query_for_def] and t = assms(2) [unfolded term_for_def finder_for_def]
  show ?thesis
  proof (cases "pt_glob p")
    case (Some g)
    then have "has_glob_syntax t"
      and "prepared_glob_score g path = Some (ref_glob_score path (to_lowercase ul t))"
      and "prepared_glob_score g basename = Some (ref_glob_score basename (to_lowercase ul t))"
      using t assms(3,4) by (auto simp: glob_for_def)
    then show ?thesis
      using Some q by (auto simp: term_score_def ref_term_score_def Let_def split: option.splits)
  next
    case None
    then have "\<not> has_glob_syntax t" using t by (simp add: glob_for_def)
    then show ?thesis
      using None q t
      by (auto simp: term_score_def ref_term_score_def rank_text_def Let_def option.map_comp o_def
            add.commute [of 1900] split: option.splits)
  qed
qed

lemma rank_terms_for:
  assumes "query_for ul options q" and "star_free path" and "star_free basename"
    and "list_all2 (term_for ul) ts ps"
  shows "rank_terms q path basename ps score = Some (ref_rank_terms ul options path basename ts score)"
  using assms(4)
  by (induction arbitrary: score rule: list_all2_induct)
     (auto simp: term_score_for [OF assms(1) _ assms(2,3)] split: option.splits)

lemma matches_filters_split:
  "ref_matches_filters r options \<longleftrightarrow>
     matches_metadata options (rv_kind r) (rv_mtime r) (rv_ext_lower r) \<and>
     \<not> list_ex (\<lambda>f. \<not> ref_path_filter_matches (rv_path_lower r) f) (path_filters options) \<and>
     \<not> list_ex (ref_path_filter_matches (rv_path_lower r)) (excluded_path_filters options)"
proof -
  have e: "list_all P xs \<longleftrightarrow> \<not> list_ex (\<lambda>x. \<not> P x) xs" for P and xs :: "path_filter list"
    by (auto simp: list_all_iff list_ex_iff)
  show ?thesis
    unfolding ref_matches_filters_def matches_metadata_def e
    by (auto split: option.splits)
qed

lemma rank_for:
  assumes q: "query_for ul options q"
    and "star_free (rv_path_lower r)" and "star_free (rv_basename_lower r)"
  shows "rank q r = Some (ref_rank_view ul r options)"
proof -
  note qq = q [unfolded query_for_def]
  have pf: "any_m (\<lambda>f. map_option Not (prepared_path_filter_matches f (rv_path_lower r))) (pq_path_filters q)
      = Some (list_ex (\<lambda>f. \<not> ref_path_filter_matches (rv_path_lower r) f) (path_filters options))"
    by (rule any_m_list_all2)
       (use qq prepared_path_filter_matches_for [OF _ assms(2)] in \<open>auto elim!: list_all2_mono\<close>)
  have xf: "any_m (\<lambda>f. prepared_path_filter_matches f (rv_path_lower r)) (pq_excluded_path_filters q)
      = Some (list_ex (ref_path_filter_matches (rv_path_lower r)) (excluded_path_filters options))"
    by (rule any_m_list_all2)
       (use qq prepared_path_filter_matches_for [OF _ assms(2)] in \<open>auto elim!: list_all2_mono\<close>)
  have nil: "pq_terms q = [] \<longleftrightarrow> terms options = []" using qq by (metis list_all2_Nil list_all2_Nil2)
  have "rank_terms q (rv_path_lower r) (rv_basename_lower r) (pq_terms q) 0 =
      Some (ref_rank_terms ul options (rv_path_lower r) (rv_basename_lower r) (terms options) 0)"
    by (rule rank_terms_for [OF q assms(2,3)]) (use qq in simp)
  then show ?thesis
    using pf xf nil qq
    by (auto simp: rank_def rank_lowered_def ref_rank_view_def matches_filters_split of_nat_min)
qed

text \<open>C32: The prepared ranking is the reference ranking: preparing a query once never panics, and
  for every record whose lowercased path and name have no star it gives the verdict and the
  score of the scorer that filters, lowercases and searches from scratch.\<close>

theorem rank_is_reference:
  assumes "lowercase_ok ul" and "options_valid options"
    and "star_free (rv_path_lower r)" and "star_free (rv_basename_lower r)"
  shows "rank_view ul options r = Some (ref_rank_view ul r options)"
  using prepared_query_new_for [OF assms(1,2)] rank_for [OF _ assms(3,4)]
  by (auto simp: rank_view_def)

theorem rank_is_reference_witness:
  "rank_view id (default_options\<lparr>query := ''report *.pdf''\<rparr>)
     (record_view_from (file_record_new id ''/docs/Q3 Report.pdf'' File 0)) = Some (Some 475)"
proof -
  let ?o = "default_options\<lparr>query := ''report *.pdf''\<rparr>"
  let ?r = "record_view_from (file_record_new id ''/docs/Q3 Report.pdf'' File 0)"
  have l: "lowercase_ok id" by (simp add: lowercase_ok_def)
  have o: "options_valid ?o" and p: "star_free (rv_path_lower ?r)" and b: "star_free (rv_basename_lower ?r)"
    by code_simp+
  have "ref_rank_view id ?r ?o = Some 475" by code_simp
  then show ?thesis using rank_is_reference [OF l o p b] by simp
qed

end
