(* ===== verification/Top_Hits.thy ===== *)
theory Top_Hits
  imports Reference
begin

text \<open>
  The bounded search over records in memory, of \<open>src/src/search.rs\<close>: \<open>PathView\<close>, a path in
  two pieces that is compared without joining them; \<open>RankedHit\<close> and its order; \<open>TopHits\<close>, a
  heap that keeps the best hits only; \<open>top_hits\<close> and \<open>search_records\<close>.

  The first piece of a \<open>PathView\<close> is a slice, an address and a length, because the comparison
  looks at the address; the bytes at an address are given by the memory \<open>mem\<close>.
\<close>

type_synonym memory = "usize \<Rightarrow> char"

record path_view =
  pv_ptr :: usize
  pv_prefix_len :: usize
  pv_suffix :: str

definition pv_prefix :: "memory \<Rightarrow> path_view \<Rightarrow> str" where
  "pv_prefix mem v = map mem [pv_ptr v ..< pv_ptr v + pv_prefix_len v]"

definition path_view_len :: "path_view \<Rightarrow> usize" where
  "path_view_len v = pv_prefix_len v + length (pv_suffix v)"

text \<open>\<open>From<&str>\<close>: the empty text has a dangling address.\<close>

definition path_view_from :: "str \<Rightarrow> path_view" where
  "path_view_from path = \<lparr>pv_ptr = 1, pv_prefix_len = 0, pv_suffix = path\<rparr>"

function skip_chunks :: "str list \<Rightarrow> usize \<Rightarrow> usize \<Rightarrow> usize \<times> usize" where
  "skip_chunks chunks l lo =
     (if l < 2 \<and> lo = length (chunks ! l) then skip_chunks chunks (l + 1) 0 else (l, lo))"
  by pat_completeness auto
termination by (relation "measure (\<lambda>(_, l, _). 2 - l)") auto

declare skip_chunks.simps [simp del]

text \<open>
  One turn of the loop compares two pieces of equal length. \<open>None\<close> is the panic of a slice
  that starts after its end.
\<close>

partial_function (option) path_cmp_loop ::
  "str list \<Rightarrow> str list \<Rightarrow> usize \<Rightarrow> usize \<Rightarrow> usize \<Rightarrow> usize \<Rightarrow> ordering option" where
  "path_cmp_loop left right l0 r0 lo0 ro0 =
     (let (l, lo) = skip_chunks left l0 lo0;
          (r, ro) = skip_chunks right r0 ro0
      in if l = 2 \<or> r = 2 then Some (cmp_of (r = 2) (l = 2))
         else if length (left ! l) < lo \<or> length (right ! r) < ro then None
         else let n = min (length (left ! l) - lo) (length (right ! r) - ro);
                  order = cmp_of (take n (drop lo (left ! l))) (take n (drop ro (right ! r)))
              in if order \<noteq> Equal then Some order
                 else path_cmp_loop left right l r (lo + n) (ro + n))"

definition path_view_cmp :: "memory \<Rightarrow> path_view \<Rightarrow> path_view \<Rightarrow> ordering option" where
  "path_view_cmp mem self other =
     (if pv_ptr self = pv_ptr other \<and> pv_prefix_len self = pv_prefix_len other
      then Some (cmp_of (pv_suffix self) (pv_suffix other))
      else path_cmp_loop [pv_prefix mem self, pv_suffix self] [pv_prefix mem other, pv_suffix other]
             0 0 0 0)"

subsection \<open>Hits\<close>

record ranked_hit =
  rh_index :: usize
  rh_score :: i64
  rh_mtime :: "i64 option"
  rh_path :: path_view

text \<open>
  \<open>Ord::cmp\<close> of hits. The comparison of the paths always returns
  (\<open>path_view_cmp_correct\<close>), so the default is not used.
\<close>

definition ranked_cmp :: "memory \<Rightarrow> ranked_hit \<Rightarrow> ranked_hit \<Rightarrow> ordering" where
  "ranked_cmp mem self other =
     then_with (cmp_of (rh_score self) (rh_score other))
       (then_with (option_cmp (rh_mtime other) (rh_mtime self))
         (then_with (cmp_of (path_view_len (rh_path self)) (path_view_len (rh_path other)))
           (then_with (case path_view_cmp mem (rh_path self) (rh_path other) of Some o' \<Rightarrow> o' | None \<Rightarrow> Equal)
             (cmp_of (rh_index self) (rh_index other)))))"

record top_hits_state =
  th_hits :: "ranked_hit list"
  th_limit :: usize

definition top_hits_new :: "usize \<Rightarrow> top_hits_state" where
  "top_hits_new lim = \<lparr>th_hits = [], th_limit = lim\<rparr>"

definition consider_hit ::
  "memory \<Rightarrow> usize \<Rightarrow> i64 \<Rightarrow> i64 option \<Rightarrow> usize \<Rightarrow> path_view \<Rightarrow> top_hits_state \<Rightarrow> top_hits_state" where
  "consider_hit mem index score mtime path_len path self =
     (if th_limit self = 0 then self
      else if th_limit self \<le> length (th_hits self) \<and>
              (case heap_peek (ranked_cmp mem) (th_hits self) of
                 None \<Rightarrow> False
               | Some worst \<Rightarrow>
                   then_with (cmp_of score (rh_score worst))
                     (then_with (option_cmp (rh_mtime worst) mtime)
                       (cmp_of path_len (path_view_len (rh_path worst)))) = Greater)
      then self
      else let hit = \<lparr>rh_index = index, rh_score = score, rh_mtime = mtime, rh_path = path\<rparr>
           in if length (th_hits self) < th_limit self
              then self\<lparr>th_hits := hit # th_hits self\<rparr>
              else if (case heap_peek (ranked_cmp mem) (th_hits self) of
                         None \<Rightarrow> False
                       | Some worst \<Rightarrow> ranked_cmp mem hit worst = Less)
              then self\<lparr>th_hits := heap_replace (ranked_cmp mem) hit (th_hits self)\<rparr>
              else self)"

record scored_index =
  si_index :: usize
  si_score :: i64

definition finish :: "memory \<Rightarrow> top_hits_state \<Rightarrow> scored_index list" where
  "finish mem self =
     map (\<lambda>hit. \<lparr>si_index = rh_index hit, si_score = rh_score hit\<rparr>)
       (sort_by (ranked_cmp mem) (th_hits self))"

fun top_hits_loop ::
  "memory \<Rightarrow> prepared_query \<Rightarrow> (usize \<times> record_view) list \<Rightarrow> top_hits_state \<Rightarrow> top_hits_state option" where
  "top_hits_loop mem q [] hits = Some hits"
| "top_hits_loop mem q ((index, r) # rs) hits =
     do {
       s \<leftarrow> rank q r;
       case s of
         None \<Rightarrow> top_hits_loop mem q rs hits
       | Some score \<Rightarrow>
           top_hits_loop mem q rs
             (consider_hit mem index score (rv_mtime r) (length (rv_path r)) (path_view_from (rv_path r)) hits)
     }"

definition top_hits ::
  "memory \<Rightarrow> (usize \<times> record_view) list \<Rightarrow> prepared_query \<Rightarrow> usize \<Rightarrow> scored_index list option" where
  "top_hits mem records q lim =
     map_option (finish mem) (top_hits_loop mem q records (top_hits_new lim))"

definition effective_limit :: "usize \<Rightarrow> usize" where
  "effective_limit lim = (if lim = 0 then 50 else lim)"

definition search_records ::
  "memory \<Rightarrow> (str \<Rightarrow> str) \<Rightarrow> i64 \<Rightarrow> file_record list \<Rightarrow> search_options \<Rightarrow> search_result list option" where
  "search_records mem ul now records options0 =
     do {
       let options = normalized_at ul options0 now;
       q \<leftarrow> prepared_query_new ul options;
       hits \<leftarrow> top_hits mem (map (\<lambda>(i, r). (i, record_view_from r)) (List.enumerate 0 records)) q
                 (effective_limit (limit options));
       map_m (\<lambda>hit. if si_index hit < length records
                      then Some \<lparr>sr_record = records ! si_index hit, sr_score = si_score hit\<rparr>
                      else None) hits
     }"

subsection \<open>Facts: comparing paths in pieces\<close>

lemma cmp_of_refl [simp]: "cmp_of x x = Equal"
  by (simp add: cmp_of_def)

lemma then_with_neq: "x \<noteq> y \<Longrightarrow> then_with (cmp_of x y) z = cmp_of x y"
  by (simp add: cmp_of_def)

lemma cmp_of_Cons: "cmp_of (x # xs) (y # ys) = then_with (cmp_of x y) (cmp_of xs ys)"
  for x :: "'a::linorder"
  by (cases "cmp_of x y") (auto simp: cmp_of_def split: if_splits)

lemma cmp_of_append:
  "length a = length b \<Longrightarrow> cmp_of (a @ x) (b @ y) = then_with (cmp_of a b) (cmp_of x y)"
  for a :: "'a::linorder list"
  by (induction a b rule: list_induct2) (simp_all add: cmp_of_Cons then_with_assoc)

lemma Nil_less_list: "[] < xs \<longleftrightarrow> xs \<noteq> []" for xs :: "'a::linorder list"
  by (cases xs) auto

definition rest :: "str list \<Rightarrow> usize \<Rightarrow> usize \<Rightarrow> str" where
  "rest chunks l lo = (if l < length chunks then drop lo (chunks ! l) @ concat (drop (Suc l) chunks) else [])"

definition position_ok :: "str list \<Rightarrow> usize \<Rightarrow> usize \<Rightarrow> bool" where
  "position_ok chunks l lo \<longleftrightarrow>
     length chunks = 2 \<and> l \<le> 2 \<and> (l < 2 \<longrightarrow> lo \<le> length (chunks ! l))"

lemma rest_step:
  assumes "length chunks = 2" and "l < 2"
  shows "rest chunks (Suc l) 0 = rest chunks l (length (chunks ! l))"
proof -
  obtain a b where "chunks = [a, b]" using assms(1) by (metis length_0_conv length_Suc_conv numeral_2_eq_2)
  moreover have "l = 0 \<or> l = 1" using assms(2) by auto
  ultimately show ?thesis by (auto simp: rest_def)
qed

lemma skip_chunks_ok:
  assumes "position_ok chunks l lo" and "skip_chunks chunks l lo = (l', lo')"
  shows "position_ok chunks l' lo' \<and> rest chunks l' lo' = rest chunks l lo \<and>
    (l' < 2 \<longrightarrow> lo' < length (chunks ! l')) \<and> (l' = 2 \<longleftrightarrow> rest chunks l lo = [])"
  using assms
proof (induction chunks l lo rule: skip_chunks.induct)
  case (1 chunks l lo)
  show ?case
  proof (cases "l < 2 \<and> lo = length (chunks ! l)")
    case True
    have "position_ok chunks (l + 1) 0" using True "1.prems"(1) by (auto simp: position_ok_def)
    moreover have "skip_chunks chunks (l + 1) 0 = (l', lo')"
      using True "1.prems"(2) skip_chunks.simps [of chunks l lo] by presburger
    ultimately show ?thesis
      using "1.IH" [OF True] rest_step [of chunks l] True "1.prems"(1) by (simp add: position_ok_def)
  next
    case False
    then have "l' = l" "lo' = lo" using "1.prems"(2) by (auto simp: skip_chunks.simps [of chunks l lo])
    then show ?thesis using False "1.prems"(1) by (auto simp: position_ok_def rest_def)
  qed
qed

lemma rest_advance:
  "position_ok chunks l lo \<Longrightarrow> l < 2 \<Longrightarrow> lo + n \<le> length (chunks ! l) \<Longrightarrow>
     rest chunks l lo = take n (drop lo (chunks ! l)) @ rest chunks l (lo + n)"
  by (simp add: rest_def position_ok_def drop_drop add.commute flip: append_assoc)
     (metis add.commute append_take_drop_id drop_drop)

lemma path_cmp_loop_correct:
  "position_ok left l lo \<Longrightarrow> position_ok right r ro \<Longrightarrow>
     path_cmp_loop left right l r lo ro = Some (cmp_of (rest left l lo) (rest right r ro))"
proof (induction "length (rest left l lo)" arbitrary: l lo r ro rule: less_induct)
  case less
  obtain l' lo' where l: "skip_chunks left l lo = (l', lo')" by fastforce
  obtain r' ro' where r: "skip_chunks right r ro = (r', ro')" by fastforce
  note L = skip_chunks_ok [OF less.prems(1) l] and R = skip_chunks_ok [OF less.prems(2) r]
  show ?case
  proof (cases "l' = 2 \<or> r' = 2")
    case True
    then show ?thesis
      using L R by (subst path_cmp_loop.simps) (auto simp: l r Nil_less_list cmp_of_def)
  next
    case False
    then have lt: "l' < 2" "r' < 2" using L R by (auto simp: position_ok_def)
    define n where "n = min (length (left ! l') - lo') (length (right ! r') - ro')"
    have n: "0 < n" "lo' + n \<le> length (left ! l')" "ro' + n \<le> length (right ! r')"
      using L R lt by (auto simp: n_def)
    let ?a = "take n (drop lo' (left ! l'))" and ?b = "take n (drop ro' (right ! r'))"
    have al: "rest left l lo = ?a @ rest left l' (lo' + n)"
      using rest_advance [of left l' lo' n] L lt n by simp
    have ar: "rest right r ro = ?b @ rest right r' (ro' + n)"
      using rest_advance [of right r' ro' n] R lt n by simp
    have len: "length ?a = n" "length ?b = n" using n by auto
    have "path_cmp_loop left right l' r' (lo' + n) (ro' + n) =
        Some (cmp_of (rest left l' (lo' + n)) (rest right r' (ro' + n)))"
      by (rule less.hyps) (use al len n L R lt in \<open>auto simp: position_ok_def\<close>)
    then have "path_cmp_loop left right l r lo ro =
        Some (then_with (cmp_of ?a ?b) (cmp_of (rest left l' (lo' + n)) (rest right r' (ro' + n))))"
      using False n
      by (subst path_cmp_loop.simps)
         (cases "?a = ?b"; simp add: l r Let_def then_with_neq flip: n_def)
    then show ?thesis using al ar cmp_of_append [of ?a ?b] len by simp
  qed
qed

definition pv_bytes :: "memory \<Rightarrow> path_view \<Rightarrow> str" where
  "pv_bytes mem v = pv_prefix mem v @ pv_suffix v"

lemma pv_bytes_from [simp]: "pv_bytes mem (path_view_from p) = p"
  by (simp add: pv_bytes_def pv_prefix_def path_view_from_def)

lemma path_view_cmp_eq:
  "path_view_cmp mem a b = Some (cmp_of (pv_bytes mem a) (pv_bytes mem b))"
proof (cases "pv_ptr a = pv_ptr b \<and> pv_prefix_len a = pv_prefix_len b")
  case True
  then have "pv_prefix mem a = pv_prefix mem b" by (simp add: pv_prefix_def)
  then show ?thesis
    using True cmp_of_append [of "pv_prefix mem b" "pv_prefix mem b" "pv_suffix a" "pv_suffix b"]
    by (simp add: path_view_cmp_def pv_bytes_def)
next
  case False
  have "path_cmp_loop [pv_prefix mem a, pv_suffix a] [pv_prefix mem b, pv_suffix b] 0 0 0 0 =
      Some (cmp_of (rest [pv_prefix mem a, pv_suffix a] 0 0) (rest [pv_prefix mem b, pv_suffix b] 0 0))"
    by (rule path_cmp_loop_correct) (auto simp: position_ok_def)
  then show ?thesis using False by (auto simp: path_view_cmp_def rest_def pv_bytes_def)
qed

text \<open>Comparing paths in two pieces is comparing the joined paths: wherever either path is cut,
  inside a character too, and whether or not the pieces share an address, the comparison
  returns and gives the byte order of the whole paths.\<close>

theorem path_view_cmp_correct:
  "path_view_cmp mem a b =
     Some (cmp_of (pv_prefix mem a @ pv_suffix a) (pv_prefix mem b @ pv_suffix b))"
  using path_view_cmp_eq by (simp add: pv_bytes_def)

subsection \<open>Facts: the heap of hits\<close>

definition ranked_key :: "memory \<Rightarrow> ranked_hit \<Rightarrow> (int \<times> (nat \<times> int) \<times> nat \<times> str) \<times> nat" where
  "ranked_key mem h =
     ((rh_score h, newest_key (rh_mtime h), path_view_len (rh_path h), pv_bytes mem (rh_path h)), rh_index h)"

definition result_key :: "search_result \<Rightarrow> int \<times> (nat \<times> int) \<times> nat \<times> str" where
  "result_key r =
     (sr_score r, newest_key (fr_mtime (sr_record r)), length (fr_path (sr_record r)), fr_path (sr_record r))"

interpretation ranked: key_cmp "ranked_cmp mem" "ranked_key mem" for mem
  by unfold_locales
     (simp add: ranked_cmp_def ranked_key_def path_view_cmp_eq option_cmp_newest flip: cmp_of_pair,
      simp add: then_with_assoc)

interpretation results: key_cmp result_cmp result_key
  by unfold_locales
     (simp add: result_cmp_def result_key_def option_cmp_newest flip: cmp_of_pair)

lemma then_with_Greater:
  "then_with a (then_with b c) = Greater \<Longrightarrow> then_with a (then_with b (then_with c d)) = Greater"
  by (cases a; cases b; cases c) auto

text \<open>Rejecting a hit before its path is read rejects nothing that the full order would keep.\<close>

lemma ranked_cmp_early:
  "then_with (cmp_of score (rh_score worst))
     (then_with (option_cmp (rh_mtime worst) mtime)
       (cmp_of (path_view_len path) (path_view_len (rh_path worst)))) = Greater \<Longrightarrow>
   ranked_cmp mem \<lparr>rh_index = i, rh_score = score, rh_mtime = mtime, rh_path = path\<rparr> worst = Greater"
  by (simp add: ranked_cmp_def then_with_Greater)

lemma consider_hit_keep_best:
  "consider_hit mem i score mtime (path_view_len path) path self =
     self\<lparr>th_hits := keep_best (ranked_cmp mem) (th_limit self)
       \<lparr>rh_index = i, rh_score = score, rh_mtime = mtime, rh_path = path\<rparr> (th_hits self)\<rparr>"
  using ranked_cmp_early [of score _ mtime path mem i]
  by (auto simp: consider_hit_def keep_best_def Let_def split: option.splits)

definition hit_of :: "(usize \<times> record_view) \<times> i64 \<Rightarrow> ranked_hit" where
  "hit_of t = \<lparr>rh_index = fst (fst t), rh_score = snd t, rh_mtime = rv_mtime (snd (fst t)),
     rh_path = path_view_from (rv_path (snd (fst t)))\<rparr>"

text \<open>The hits of a list of numbered records, with their scores.\<close>

definition scored ::
  "(record_view \<Rightarrow> i64 option) \<Rightarrow> (usize \<times> record_view) list \<Rightarrow> ((usize \<times> record_view) \<times> i64) list" where
  "scored score records =
     List.map_filter (\<lambda>r. map_option (\<lambda>s. (r, s)) (score (snd r))) records"

lemma path_view_len_from [simp]: "path_view_len (path_view_from p) = length p"
  by (simp add: path_view_len_def path_view_from_def)

lemma top_hits_loop_fold:
  assumes "\<forall>x \<in> set records. rank q (snd x) = Some (score (snd x))"
  shows "top_hits_loop mem q records h =
    Some (h\<lparr>th_hits := fold (keep_best (ranked_cmp mem) (th_limit h)) (map hit_of (scored score records)) (th_hits h)\<rparr>)"
  using assms
proof (induction mem q records h rule: top_hits_loop.induct)
  case (2 mem q i r rs h)
  have r: "rank q r = Some (score r)" using "2.prems" by simp
  show ?case
  proof (cases "score r")
    case None
    then show ?thesis using r "2.IH"(1) [OF r None] "2.prems"
      by (simp add: scored_def List.map_filter_simps)
  next
    case (Some s)
    have c: "consider_hit mem i s (rv_mtime r) (length (rv_path r)) (path_view_from (rv_path r)) h =
        h\<lparr>th_hits := keep_best (ranked_cmp mem) (th_limit h) (hit_of ((i, r), s)) (th_hits h)\<rparr>"
      using consider_hit_keep_best [of mem i s "rv_mtime r" "path_view_from (rv_path r)" h]
      by (simp add: hit_of_def)
    show ?thesis using r Some c "2.IH"(2) [OF r Some] "2.prems"
      by (simp add: scored_def List.map_filter_simps)
  qed
qed (simp add: scored_def List.map_filter_simps)

lemma scored_index_increasing:
  "sorted_wrt (\<lambda>x y. fst x < fst y) records \<Longrightarrow>
     sorted_wrt (\<lambda>x y. fst (fst x) < fst (fst y)) (scored score records)"
proof (induction records)
  case (Cons r rs)
  have "\<And>t. t \<in> set (scored score rs) \<Longrightarrow> fst t \<in> set rs"
    by (auto simp: scored_def map_filter_def)
  then show ?case using Cons
    by (auto simp: scored_def List.map_filter_simps split: option.splits)
qed (simp add: scored_def List.map_filter_simps)

text \<open>Keeping the best hits and sorting them gives the front of the sorted list of all hits.\<close>

lemma ranked_front:
  assumes "sorted_wrt (\<lambda>x y. rh_index (h x) < rh_index (h y)) ts"
  shows "sort_by (ranked_cmp mem) (fold (keep_best (ranked_cmp mem) n) (map h ts) []) =
    map h (take n (sort_key (\<lambda>t. fst (ranked_key mem (h t))) ts))"
proof -
  have "distinct (map (ranked_key mem) (map h ts))"
    using assms by (induction ts) (auto simp: ranked_key_def)
  then have "sort_by (ranked_cmp mem) (fold (keep_best (ranked_cmp mem) n) (map h ts) []) =
      take n (sort_by (ranked_cmp mem) (map h ts))"
    by (rule ranked.keep_best_fold)
  also have "sort_by (ranked_cmp mem) (map h ts) = map h (sort_key (\<lambda>t. ranked_key mem (h t)) ts)"
    by (simp add: ranked.sort_by_sort_key sort_key_map)
  also have "sort_key (\<lambda>t. ranked_key mem (h t)) ts = sort_key (\<lambda>t. (fst (ranked_key mem (h t)), rh_index (h t))) ts"
    by (simp add: ranked_key_def)
  also have "\<dots> = sort_key (\<lambda>t. fst (ranked_key mem (h t))) ts"
    by (rule sort_key_index) (rule assms)
  finally show ?thesis by (simp add: take_map)
qed

text \<open>What the bounded search computes: the front of the sorted list of all hits.\<close>

lemma top_hits_eq:
  assumes "\<forall>x \<in> set records. rank q (snd x) = Some (score (snd x))"
    and "sorted_wrt (\<lambda>x y. fst x < fst y) records"
  shows "top_hits mem records q n =
    Some (map (\<lambda>t. \<lparr>si_index = fst (fst t), si_score = snd t\<rparr>)
      (take n (sort_key (\<lambda>t. fst (ranked_key mem (hit_of t))) (scored score records))))"
proof -
  have index: "rh_index (hit_of t) = fst (fst t)" for t by (simp add: hit_of_def)
  have "sort_by (ranked_cmp mem) (fold (keep_best (ranked_cmp mem) n) (map hit_of (scored score records)) []) =
      map hit_of (take n (sort_key (\<lambda>t. fst (ranked_key mem (hit_of t))) (scored score records)))"
    by (rule ranked_front) (use scored_index_increasing [OF assms(2)] in \<open>simp add: index\<close>)
  then show ?thesis
    using top_hits_loop_fold [OF assms(1), of mem "top_hits_new n"]
    by (simp add: top_hits_def top_hits_new_def finish_def comp_def) (simp add: hit_of_def)
qed

subsection \<open>Facts: the search over records\<close>

text \<open>Normalizing keeps texts valid: the values of inline filters are cut from valid tokens.\<close>

lemma split_once_valid:
  assumes "split_once c s = Some (k, v)" and "byte c < 128" and "utf8_valid s"
  shows "utf8_valid k \<and> utf8_valid v"
proof -
  have "s = k @ c # v"
    using assms(1) by (induction s arbitrary: k) (auto split: if_splits option.splits)
  then show ?thesis using utf8_valid_cut [of k c v] assms(2,3) by simp
qed

lemma strip_prefix_valid:
  "utf8_valid s \<Longrightarrow> list_all is_ascii p \<Longrightarrow> strip_prefix p s = Some r \<Longrightarrow> utf8_valid r"
  by (auto simp: strip_prefix_def prefix_def utf8_valid_append utf8_valid_ascii split: if_splits)

lemma keyed_filter_path:
  "keyed_filter ul negated key v now = PathF f \<or> keyed_filter ul negated key v now = ExcludedPathF f \<Longrightarrow>
     pf_value f = to_lowercase ul v"
  unfolding keyed_filter_def Let_def
  by (auto simp only: inline_filter.distinct inline_filter.inject path_filter.select_convs
      split: if_split_asm option.split_asm)

lemma parse_inline_filter_path:
  assumes ul: "lowercase_ok ul" and t: "utf8_valid t"
    and p: "parse_inline_filter ul t now = PathF f \<or> parse_inline_filter ul t now = ExcludedPathF f"
  shows "utf8_valid (pf_value f)"
proof -
  define body where "body = (case strip_prefix ''!'' t of
               Some r \<Rightarrow> (True, r)
             | None \<Rightarrow> (case strip_prefix ''-'' t of Some r \<Rightarrow> (True, r) | None \<Rightarrow> (False, t)))"
  obtain negated r where b: "body = (negated, r)" by fastforce
  have "list_all is_ascii ''!''" "list_all is_ascii ''-''" by (simp_all add: is_ascii_def byte_def)
  note sv = strip_prefix_valid [OF t this(1)] strip_prefix_valid [OF t this(2)]
  have r: "utf8_valid r"
    using b t sv by (auto simp: body_def split: option.splits)
  obtain k v where kv: "split_once (CHR '':'') r = Some (k, v)"
      "keyed_filter ul negated (to_lowercase ul k) (trim v) now = PathF f \<or>
       keyed_filter ul negated (to_lowercase ul k) (trim v) now = ExcludedPathF f"
    using p unfolding parse_inline_filter_def body_def [symmetric] b
    by (auto simp: Let_def split: option.splits if_splits)
  have "utf8_valid (trim v)"
    using split_once_valid [OF kv(1) _ r] by (simp add: byte_def trim_valid)
  then have "utf8_valid (to_lowercase ul (trim v))"
    using ul by (intro to_lowercase_valid) (auto simp: lowercase_ok_def)
  then show ?thesis using keyed_filter_path [OF kv(2)] by simp
qed

definition filters_valid :: "search_options \<Rightarrow> bool" where
  "filters_valid o' \<longleftrightarrow> list_all (\<lambda>f. utf8_valid (pf_value f)) (path_filters o' @ excluded_path_filters o')"

lemma apply_filter_valid:
  assumes "lowercase_ok ul" and "utf8_valid t" and "apply_filter ul now t (o1, ts) = (o2, us)"
    and "filters_valid o1" and "list_all utf8_valid ts"
  shows "filters_valid o2 \<and> list_all utf8_valid us"
proof -
  note pv = parse_inline_filter_path [OF assms(1,2), of now]
  show ?thesis
    using assms(2-) pv
    by (cases "parse_inline_filter ul t now")
       (auto simp: apply_filter_def filters_valid_def push_unique_def split: if_splits)
qed

lemma fold_apply_filter_valid:
  "lowercase_ok ul \<Longrightarrow> list_all utf8_valid toks \<Longrightarrow> fold (apply_filter ul now) toks (o1, ts) = (o2, us) \<Longrightarrow>
     filters_valid o1 \<Longrightarrow> list_all utf8_valid ts \<Longrightarrow> filters_valid o2 \<and> list_all utf8_valid us"
proof (induction toks arbitrary: o1 ts)
  case (Cons t toks)
  obtain o' ts' where s: "apply_filter ul now t (o1, ts) = (o', ts')" by fastforce
  show ?case
    using Cons.IH [of o' ts'] apply_filter_valid [OF Cons.prems(1) _ s] Cons.prems s by simp
qed simp

lemma join_with_valid: "list_all utf8_valid ws \<Longrightarrow> utf8_valid (join_with '' '' ws)"
  by (induction "'' ''" ws rule: join_with.induct) (auto simp: utf8_valid_append byte_def)

lemma option_pushes_paths:
  "path_filters (option_pushes ul o') = path_filters o'"
  "excluded_path_filters (option_pushes ul o') = excluded_path_filters o'"
  by (auto simp: option_pushes_def Let_def split: option.splits)

lemma normalized_valid:
  assumes "lowercase_ok ul" and "options_valid options"
  shows "options_valid (normalized_at ul options now)"
proof -
  obtain out us where f: "fold (apply_filter ul now) (tokenize_query (query options))
      (option_pushes ul options, []) = (out, us)"
    by fastforce
  have "list_all utf8_valid (tokenize_query (query options))"
    using assms(2) tokenize_query_valid by (auto simp: list_all_iff options_valid_def)
  moreover have "filters_valid (option_pushes ul options)"
    using assms(2) by (auto simp: filters_valid_def options_valid_def option_pushes_paths)
  ultimately have "filters_valid out \<and> list_all utf8_valid us"
    using fold_apply_filter_valid [OF assms(1) _ f] by simp
  then show ?thesis
    using join_with_valid by (auto simp: normalized_at_def f options_valid_def filters_valid_def)
qed

lemma map_m_Some: "(\<And>x. x \<in> set xs \<Longrightarrow> f x = Some (g x)) \<Longrightarrow> map_m f xs = Some (map g xs)"
  by (induction xs) auto

lemma sorted_enumerate: "sorted_wrt (\<lambda>x y. fst x < fst y) (List.enumerate n xs)"
proof (induction xs arbitrary: n)
  case (Cons x xs)
  have "\<And>i r. (i, r) \<in> set (List.enumerate (Suc n) xs) \<Longrightarrow> n < i"
    by (auto simp: in_set_enumerate_eq)
  then show ?case using Cons by auto
qed simp

lemma sorted_wrt_map_fst:
  "sorted_wrt (\<lambda>x y. fst x < fst y) (map (\<lambda>(i, r). (i, g r)) xs) = sorted_wrt (\<lambda>x y. fst x < fst y) xs"
  by (induction xs) auto

definition record_ok :: "file_record \<Rightarrow> bool" where
  "record_ok r \<longleftrightarrow> star_free (fr_path_lower r) \<and> star_free (fr_basename_lower r)"

definition result_of :: "file_record list \<Rightarrow> (usize \<times> record_view) \<times> i64 \<Rightarrow> search_result" where
  "result_of records t = \<lparr>sr_record = records ! fst (fst t), sr_score = snd t\<rparr>"

lemma result_of_nth: "result_of (us @ v # vs) ((length us, w), s) = \<lparr>sr_record = v, sr_score = s\<rparr>"
  by (simp add: result_of_def)

lemma scored_enumerate:
  "map (result_of records) (scored score (map (\<lambda>(i, r). (i, record_view_from r)) (List.enumerate (length us) vs))) =
     List.map_filter (\<lambda>r. map_option (\<lambda>s. \<lparr>sr_record = r, sr_score = s\<rparr>) (score (record_view_from r))) vs"
  if "records = us @ vs"
  using that
proof (induction vs arbitrary: us)
  case (Cons v vs)
  have "map (result_of records) (scored score (map (\<lambda>(i, r). (i, record_view_from r)) (List.enumerate (length (us @ [v])) vs))) =
     List.map_filter (\<lambda>r. map_option (\<lambda>s. \<lparr>sr_record = r, sr_score = s\<rparr>) (score (record_view_from r))) vs"
    by (rule Cons.IH) (use Cons.prems in simp)
  then show ?case using Cons.prems
    by (auto simp: scored_def List.map_filter_simps result_of_nth split: option.splits)
qed (simp add: scored_def List.map_filter_simps)

lemma scored_index_bound:
  "t \<in> set (scored score (map (\<lambda>(i, r). (i, record_view_from r)) (List.enumerate 0 records))) \<Longrightarrow>
     fst (fst t) < length records \<and> record_view_from (records ! fst (fst t)) = snd (fst t)"
  by (auto simp: scored_def map_filter_def in_set_enumerate_eq)

lemma search_records_eq:
  assumes ul: "lowercase_ok ul" and o: "options_valid options" and r: "list_all record_ok records"
  shows "search_records mem ul now records options = Some (ref_search_records ul now records options)"
proof -
  let ?o = "normalized_at ul options now" and ?score = "\<lambda>v. ref_rank_view ul v (normalized_at ul options now)"
  let ?rs = "map (\<lambda>(i, r). (i, record_view_from r)) (List.enumerate 0 records)"
  let ?ts = "scored ?score ?rs" and ?n = "effective_limit (limit (normalized_at ul options now))"
  obtain q where q: "prepared_query_new ul ?o = Some q" "query_for ul ?o q"
    using prepared_query_new_for [OF ul normalized_valid [OF ul o]] by blast
  have views: "\<And>v. v \<in> snd ` set ?rs \<Longrightarrow> star_free (rv_path_lower v) \<and> star_free (rv_basename_lower v)"
    using r by (auto simp: in_set_enumerate_eq list_all_iff record_ok_def record_view_from_def)
  then have "\<forall>x \<in> set ?rs. rank q (snd x) = Some (?score (snd x))"
    using rank_for [OF q(2)] by blast
  moreover have "sorted_wrt (\<lambda>x y. fst x < fst y) ?rs" by (simp add: sorted_wrt_map_fst sorted_enumerate)
  ultimately have hits: "top_hits mem ?rs q ?n = Some (map (\<lambda>t. \<lparr>si_index = fst (fst t), si_score = snd t\<rparr>)
      (take ?n (sort_key (\<lambda>t. fst (ranked_key mem (hit_of t))) ?ts)))"
    by (rule top_hits_eq)
  have key: "fst (ranked_key mem (hit_of t)) = result_key (result_of records t)" if "t \<in> set ?ts" for t
  proof -
    have "record_view_from (records ! fst (fst t)) = snd (fst t)" using scored_index_bound [OF that] by simp
    then have "rv_mtime (snd (fst t)) = fr_mtime (records ! fst (fst t))"
        "rv_path (snd (fst t)) = fr_path (records ! fst (fst t))"
      by (metis record_view.select_convs record_view_from_def)+
    then show ?thesis by (simp add: ranked_key_def hit_of_def result_key_def result_of_def)
  qed
  have "sort_key (\<lambda>t. fst (ranked_key mem (hit_of t))) ?ts = sort_key (\<lambda>t. result_key (result_of records t)) ?ts"
    by (rule sort_key_cong) (use key in auto)
  moreover have "map_m (\<lambda>hit. if si_index hit < length records
        then Some \<lparr>sr_record = records ! si_index hit, sr_score = si_score hit\<rparr> else None)
      (map (\<lambda>t. \<lparr>si_index = fst (fst t), si_score = snd t\<rparr>) (take ?n (sort_key f ?ts))) =
      Some (map (result_of records) (take ?n (sort_key f ?ts)))" for f :: "_ \<Rightarrow> int \<times> (nat \<times> int) \<times> nat \<times> str"
  proof -
    have "\<And>t. t \<in> set (take ?n (sort_key f ?ts)) \<Longrightarrow> fst (fst t) < length records"
      using scored_index_bound by (metis in_set_takeD set_sort)
    then show ?thesis
      by (subst map_m_Some [where g = "\<lambda>hit. \<lparr>sr_record = records ! si_index hit, sr_score = si_score hit\<rparr>"])
         (auto simp: result_of_def)
  qed
  ultimately have "search_records mem ul now records options =
      Some (map (result_of records) (take ?n (sort_key (\<lambda>t. result_key (result_of records t)) ?ts)))"
    by (simp add: search_records_def q(1) hits Let_def)
  also have "\<dots> = Some (take ?n (sort_by result_cmp (map (result_of records) ?ts)))"
    by (simp add: results.sort_by_sort_key sort_key_map take_map)
  also have "map (result_of records) ?ts =
      List.map_filter (\<lambda>r. map_option (\<lambda>s. \<lparr>sr_record = r, sr_score = s\<rparr>) (?score (record_view_from r))) records"
    using scored_enumerate [of records "[]" records ?score] by simp
  finally show ?thesis by (simp add: ref_search_records_def effective_limit_def Let_def)
qed

text \<open>C31: The search over records in memory returns what the reference returns, if no lowercased path or
  name of the records has a star: filtering, scoring and sorting every record and cutting the list.
  (On a name with a star the prepared patterns find what the scorer of the reference misses.) The bounded heap, the early rejection by
  score, time and length, and the prepared matchers lose no result, change no score and no
  place, ties included, and never panic.\<close>

theorem search_records_is_reference:
  assumes "lowercase_ok ul" and "options_valid options" and "list_all record_ok records"
  shows "search_records mem ul now records options = Some (ref_search_records ul now records options)"
  using assms by (rule search_records_eq)

theorem search_records_is_reference_witness:
  "map_option (map (\<lambda>r. (fr_path (sr_record r), sr_score r)))
     (search_records (\<lambda>_. CHR ''x'') id 0
       [file_record_new id ''/a/Report.txt'' File 0, file_record_new id ''/a/x'' File 0,
        file_record_new id ''/a/my report'' File 0] (default_options\<lparr>query := ''report'', limit := 1\<rparr>))
   = Some [(''/a/Report.txt'', 119)]"
proof -
  let ?rs = "[file_record_new id ''/a/Report.txt'' File 0, file_record_new id ''/a/x'' File 0,
        file_record_new id ''/a/my report'' File 0]"
  let ?o = "default_options\<lparr>query := ''report'', limit := 1\<rparr>"
  have l: "lowercase_ok id" by (simp add: lowercase_ok_def)
  have o: "options_valid ?o" and r: "list_all record_ok ?rs" by code_simp+
  have "map (\<lambda>r. (fr_path (sr_record r), sr_score r)) (ref_search_records id 0 ?rs ?o) = [(''/a/Report.txt'', 119)]"
    by code_simp
  then show ?thesis using search_records_is_reference [OF l o r, of "\<lambda>_. CHR ''x''" 0] by simp
qed

end
