(* ===== verification/Seen_Ids.thy ===== *)
theory Seen_Ids
  imports Prelude "HOL-Library.AList"
begin

text \<open>
  \<open>SeenIds\<close> of \<open>src/src/db.rs\<close>: the set of row ids a scan has seen, as pages of 4096 bits in a
  sorted map with a limit on the number of pages. The map is an association list; a page is
  its 64 words. Also the interface that the clean-up after a scan relies on.
\<close>

type_synonym u64 = "64 word"

definition page_bits :: i64 where "page_bits = 4096"

record seen_ids =
  sn_pages :: "(i64 \<times> u64 list) list"
  sn_max_pages :: usize

definition seen_new :: "usize \<Rightarrow> seen_ids" where
  "seen_new max_pages = \<lparr>sn_pages = [], sn_max_pages = max_pages\<rparr>"

text \<open>\<open>div_euclid\<close> and \<open>rem_euclid\<close> by a positive number are \<open>div\<close> and \<open>mod\<close>.\<close>

definition page_of :: "i64 \<Rightarrow> i64" where "page_of id' = id' div page_bits"
definition bit_of :: "i64 \<Rightarrow> nat" where "bit_of id' = nat (id' mod page_bits)"

definition set_bit_at :: "nat \<Rightarrow> u64 list \<Rightarrow> u64 list" where
  "set_bit_at b words = words[b div 64 := (words ! (b div 64)) OR push_bit (b mod 64) 1]"

definition seen_insert :: "i64 \<Rightarrow> seen_ids \<Rightarrow> bool \<times> seen_ids" where
  "seen_insert id' self =
     (let page = page_of id'; b = bit_of id';
          can_add_page = length (sn_pages self) < sn_max_pages self
      in case map_of (sn_pages self) page of
           Some words \<Rightarrow> (True, self\<lparr>sn_pages := AList.update page (set_bit_at b words) (sn_pages self)\<rparr>)
         | None \<Rightarrow>
             if \<not> can_add_page then (False, self)
             else (True, self\<lparr>sn_pages := AList.update page (set_bit_at b (replicate 64 0)) (sn_pages self)\<rparr>))"

definition seen_contains :: "seen_ids \<Rightarrow> i64 \<Rightarrow> bool" where
  "seen_contains self id' =
     (case map_of (sn_pages self) (page_of id') of
        None \<Rightarrow> False
      | Some words \<Rightarrow> (words ! (bit_of id' div 64)) AND push_bit (bit_of id' mod 64) 1 \<noteq> 0)"

subsection \<open>The interface of the clean-up\<close>

text \<open>
  A set with a limit: an insertion either adds the element or reports that it could not and
  changes nothing. \<open>ok\<close> is the invariant of the representation.
\<close>

locale bounded_set =
  fixes ok :: "'s \<Rightarrow> bool"
    and empty :: 's
    and ins :: "'i \<Rightarrow> 's \<Rightarrow> bool \<times> 's"
    and mem :: "'s \<Rightarrow> 'i \<Rightarrow> bool"
  assumes empty_ok: "ok empty"
    and empty_mem: "\<not> mem empty i"
    and ins_ok: "ok s \<Longrightarrow> ok (snd (ins i s))"
    and ins_mem: "ok s \<Longrightarrow> fst (ins i s) \<Longrightarrow> mem (snd (ins i s)) j \<longleftrightarrow> j = i \<or> mem s j"
    and ins_full: "ok s \<Longrightarrow> \<not> fst (ins i s) \<Longrightarrow> snd (ins i s) = s"
begin

text \<open>Inserting a list, with the flag that the source accumulates in \<open>exceeded\<close>.\<close>

fun ins_all :: "'i list \<Rightarrow> bool \<times> 's \<Rightarrow> bool \<times> 's" where
  "ins_all [] st = st"
| "ins_all (i # is) (exceeded, s) = ins_all is (exceeded \<or> \<not> fst (ins i s), snd (ins i s))"

lemma ins_all_ok: "ok s \<Longrightarrow> ok (snd (ins_all is (e, s)))"
  by (induction "is" arbitrary: e s) (auto simp: ins_ok)

lemma ins_all_exceeded: "fst (ins_all is (True, s))"
  by (induction "is" arbitrary: s) auto

lemma ins_all_mem:
  "ok s \<Longrightarrow> \<not> fst (ins_all is (e, s)) \<Longrightarrow> mem (snd (ins_all is (e, s))) j \<longleftrightarrow> j \<in> set is \<or> mem s j"
proof (induction "is" arbitrary: e s)
  case (Cons i "is")
  have "fst (ins i s)"
    using Cons.prems(2) ins_all_exceeded by (metis (full_types) ins_all.simps(2))
  then show ?case using Cons ins_ok ins_mem by auto
qed simp

text \<open>A scan that never hit the limit has exactly the ids it inserted.\<close>

lemma ins_all_exact:
  "\<not> fst (ins_all is (False, empty)) \<Longrightarrow> mem (snd (ins_all is (False, empty))) j \<longleftrightarrow> j \<in> set is"
  using ins_all_mem [OF empty_ok] empty_mem by simp

end

subsection \<open>The pages are such a set\<close>

definition seen_ok :: "seen_ids \<Rightarrow> bool" where
  "seen_ok s \<longleftrightarrow> distinct (map fst (sn_pages s)) \<and> list_all (\<lambda>(_, ws). length ws = 64) (sn_pages s) \<and>
     length (sn_pages s) \<le> sn_max_pages s"

lemma bit_of_less: "bit_of i < 4096"
  by (simp add: bit_of_def page_bits_def nat_less_iff)

lemma page_bit_inject: "page_of i = page_of j \<and> bit_of i = bit_of j \<longleftrightarrow> i = j"
proof
  assume a: "page_of i = page_of j \<and> bit_of i = bit_of j"
  have "0 \<le> i mod page_bits" "0 \<le> j mod page_bits" by (simp_all add: page_bits_def)
  then have "i mod page_bits = j mod page_bits"
    using a by (simp add: bit_of_def eq_nat_nat_iff)
  then show "i = j" using a by (metis div_mult_mod_eq page_of_def)
qed simp

definition page_bit :: "u64 list \<Rightarrow> nat \<Rightarrow> bool" where
  "page_bit ws b \<longleftrightarrow> bit (ws ! (b div 64)) (b mod 64)"

lemma page_bit_set:
  assumes "length ws = 64" and "b < 4096" and "c < 4096"
  shows "page_bit (set_bit_at b ws) c \<longleftrightarrow> c = b \<or> page_bit ws c"
proof -
  have "b div 64 < 64" "c div 64 < 64" using assms by simp_all
  moreover have "c = b \<longleftrightarrow> c div 64 = b div 64 \<and> c mod 64 = b mod 64"
    by (metis div_mult_mod_eq)
  ultimately show ?thesis
    using assms(1)
    by (cases "c div 64 = b div 64")
       (auto simp: page_bit_def set_bit_at_def bit_or_iff bit_exp_iff)
qed

lemma page_bit_zero: "c < 4096 \<Longrightarrow> \<not> page_bit (replicate 64 0) c"
  by (simp add: page_bit_def)

lemma seen_contains_bit:
  "seen_contains s i \<longleftrightarrow> (case map_of (sn_pages s) (page_of i) of None \<Rightarrow> False | Some ws \<Rightarrow> page_bit ws (bit_of i))"
  by (simp add: seen_contains_def page_bit_def and_exp_eq_0_iff_not_bit split: option.splits)

lemma length_set_bit_at [simp]: "length (set_bit_at b ws) = length ws"
  by (simp add: set_bit_at_def)

lemma length_update: "distinct (map fst ps) \<Longrightarrow>
    length (AList.update k v ps) = (if k \<in> fst ` set ps then length ps else Suc (length ps))"
  by (induction ps) auto

lemma list_all_update: "list_all P ps \<Longrightarrow> P (k, v) \<Longrightarrow> list_all P (AList.update k v ps)"
  by (induction ps) auto

lemma page_words: "seen_ok s \<Longrightarrow> map_of (sn_pages s) p = Some ws \<Longrightarrow> length ws = 64"
  by (auto simp: seen_ok_def list_all_iff dest!: map_of_SomeD)

lemma seen_insert_ok: "seen_ok s \<Longrightarrow> seen_ok (snd (seen_insert i s))"
  using page_words [of s "page_of i"]
  by (auto simp: seen_insert_def seen_ok_def Let_def length_update distinct_update map_of_eq_None_iff
      intro!: list_all_update split: option.splits) (force dest: map_of_SomeD)+

lemma seen_insert_contains:
  assumes "seen_ok s" and "fst (seen_insert i s)"
  shows "seen_contains (snd (seen_insert i s)) j \<longleftrightarrow> j = i \<or> seen_contains s j"
proof (cases "page_of j = page_of i")
  case True
  have ij: "j = i \<longleftrightarrow> bit_of j = bit_of i" using True page_bit_inject by metis
  show ?thesis
    using assms True page_words [OF assms(1)] page_bit_set [OF _ bit_of_less bit_of_less]
      page_bit_zero [OF bit_of_less]
    by (auto simp: seen_insert_def seen_contains_bit Let_def ij update_conv' split: option.splits if_splits)
next
  case False
  then have "j \<noteq> i" by auto
  then show ?thesis
    using assms(2) False
    by (auto simp: seen_insert_def seen_contains_bit Let_def update_conv' split: option.splits if_splits)
qed

interpretation seen: bounded_set seen_ok "seen_new n" seen_insert seen_contains for n
proof unfold_locales
  show "seen_ok (seen_new n)" by (simp add: seen_ok_def seen_new_def)
  show "\<not> seen_contains (seen_new n) i" for i by (simp add: seen_contains_def seen_new_def)
  show "seen_ok s \<Longrightarrow> seen_ok (snd (seen_insert i s))" for s i by (rule seen_insert_ok)
  show "seen_contains (snd (seen_insert i s)) j \<longleftrightarrow> j = i \<or> seen_contains s j"
    if "seen_ok s" "fst (seen_insert i s)" for s i j
    using that by (rule seen_insert_contains)
  show "snd (seen_insert i s) = s" if "\<not> fst (seen_insert i s)" for s i
    using that by (auto simp: seen_insert_def Let_def split: option.splits)
qed

text \<open>The ids of a scan, inserted one after the other.\<close>

fun seen_insert_all :: "i64 list \<Rightarrow> bool \<times> seen_ids \<Rightarrow> bool \<times> seen_ids" where
  "seen_insert_all [] st = st"
| "seen_insert_all (i # is) (exceeded, s) =
     (let (added, s') = seen_insert i s in seen_insert_all is (exceeded \<or> \<not> added, s'))"

lemma seen_insert_all_eq: "seen_insert_all is st = seen.ins_all is st"
  by (induction "is" st rule: seen_insert_all.induct) (auto simp: Let_def split: prod.splits)

text \<open>C27: Membership is exact, for negative ids too: as long as the limit on pages was not exceeded, an
  id is in the set exactly when it was inserted; and the set never has more pages than its
  limit, whatever is inserted.\<close>

theorem seen_ids_exact:
  "case seen_insert_all is (False, seen_new n) of
     (exceeded, s) \<Rightarrow> length (sn_pages s) \<le> n \<and> (exceeded \<or> (\<forall>i. seen_contains s i = (i \<in> set is)))"
proof -
  obtain e s where r: "seen_insert_all is (False, seen_new n) = (e, s)" by fastforce
  have ok: "seen_ok (snd (seen.ins_all is (False, seen_new n)))"
    by (rule seen.ins_all_ok) (rule seen.empty_ok)
  have keep: "sn_max_pages (snd (seen_insert i s)) = sn_max_pages s" for i s
    by (simp add: seen_insert_def Let_def split: option.splits)
  have "sn_max_pages (snd (seen_insert_all is (b, s))) = sn_max_pages s" for b s
    by (induction "is" arbitrary: b s) (auto simp: Let_def keep split: prod.splits, metis keep snd_conv)
  then have "sn_max_pages s = n" using r by (metis seen_ids.select_convs(2) seen_new_def snd_conv)
  then show ?thesis
    using r ok seen.ins_all_exact [of "is" n] by (auto simp: seen_insert_all_eq seen_ok_def)
qed

end
