(* ===== verification/Index_Db.thy ===== *)
theory Index_Db
  imports Model Rust_Order Seen_Ids
begin

text \<open>
  The index that the scanner writes, of \<open>src/src/db.rs\<close>: the table \<open>files\<close> with its triggers, the
  change journal, the configuration tables, transactions, and the statements that write
  them. Rows that the program itself wrote are typed, so a row is a \<open>file_record\<close>; the list of
  rows is in the order of their ids. \<open>None\<close> is an error.

  The id of a new row is SQLite's choice: it is the argument \<open>alloc\<close>, a function of the rows.
\<close>

subsection \<open>State\<close>

record change_entry =
  ce_revision :: i64
  ce_old :: "i64 option"
  ce_new :: "i64 option"
  ce_conflict :: "i64 option"

record index_db =
  ix_files :: "file_record list"
  ix_database_id :: str
  ix_revision :: i64
  ix_floor :: i64
  ix_conflict :: "i64 option"
  ix_has_journal :: bool
  ix_journal :: "change_entry list"
  ix_roots :: "str list"
  ix_excludes :: "str list"
  ix_meta :: "(str \<times> str) list"

definition row_with_path :: "index_db \<Rightarrow> str \<Rightarrow> file_record option" where
  "row_with_path db p = List.find (\<lambda>r. fr_path r = p) (ix_files db)"

definition row_with_id :: "index_db \<Rightarrow> i64 \<Rightarrow> file_record option" where
  "row_with_id db i = List.find (\<lambda>r. fr_id r = i) (ix_files db)"

subsection \<open>Triggers and single rows\<close>

definition change_retention :: i64 where "change_retention = 16384"
definition change_prune_interval :: i64 where "change_prune_interval = 1024"

text \<open>\<open>macevery_file_changes_prune_v1\<close>, after an entry was inserted.\<close>

definition prune_changes :: "i64 \<Rightarrow> index_db \<Rightarrow> index_db" where
  "prune_changes revision db =
     (if revision mod change_prune_interval \<noteq> 0 then db
      else let old = filter (\<lambda>r. r \<le> revision - change_retention) (map ce_revision (ix_journal db))
           in db\<lparr>ix_floor := max (ix_floor db) (foldl max (ix_floor db) old),
                 ix_journal := filter (\<lambda>e. \<not> ce_revision e \<le> revision - change_retention) (ix_journal db)\<rparr>)"

text \<open>The triggers after a row was inserted, updated or deleted: a new revision and its entry.\<close>

definition record_change :: "i64 option \<Rightarrow> i64 option \<Rightarrow> i64 option \<Rightarrow> index_db \<Rightarrow> index_db" where
  "record_change old new conflict db =
     (let revision = ix_revision db + 1
      in if ix_has_journal db
         then prune_changes revision (db\<lparr>ix_revision := revision,
                ix_journal := ix_journal db @
                  [\<lparr>ce_revision = revision, ce_old = old, ce_new = new, ce_conflict = conflict\<rparr>]\<rparr>)
         else db\<lparr>ix_revision := revision\<rparr>)"

definition set_conflict :: "i64 option \<Rightarrow> index_db \<Rightarrow> index_db" where
  "set_conflict c db = db\<lparr>ix_conflict := c\<rparr>"

text \<open>A row that is inserted without a conflict, after the \<open>BEFORE INSERT\<close> trigger.\<close>

definition insert_row :: "(file_record list \<Rightarrow> i64) \<Rightarrow> file_record \<Rightarrow> index_db \<Rightarrow> index_db" where
  "insert_row alloc r db =
     (let db1 = set_conflict (map_option fr_id (row_with_path db (fr_path r))) db;
          i = alloc (ix_files db1)
      in record_change None (Some i) (ix_conflict db1)
           (db1\<lparr>ix_files := insort_key fr_id (r\<lparr>fr_id := i\<rparr>) (ix_files db1)\<rparr>))"

text \<open>
  A row that is updated in place; its path and id stay. The revision grows only when a
  column changes (\<open>WHEN\<close> of the trigger).
\<close>

definition update_row :: "file_record \<Rightarrow> file_record \<Rightarrow> index_db \<Rightarrow> index_db" where
  "update_row old r db =
     (let new = r\<lparr>fr_id := fr_id old, fr_path := fr_path old\<rparr>;
          db1 = (set_conflict None db)\<lparr>ix_files := map (\<lambda>x. if fr_id x = fr_id old then new else x) (ix_files db)\<rparr>
      in if new = old then db1 else record_change (Some (fr_id old)) (Some (fr_id old)) (ix_conflict db1) db1)"

definition delete_row :: "i64 \<Rightarrow> index_db \<Rightarrow> index_db" where
  "delete_row i db =
     record_change (Some i) None None (db\<lparr>ix_files := filter (\<lambda>r. fr_id r \<noteq> i) (ix_files db)\<rparr>)"

text \<open>\<open>DELETE FROM files WHERE ..\<close>, with the number of rows (\<open>changes\<close>).\<close>

definition delete_where :: "(file_record \<Rightarrow> bool) \<Rightarrow> index_db \<Rightarrow> usize \<times> index_db" where
  "delete_where P db =
     (let ids = map fr_id (filter P (ix_files db)) in (length ids, fold delete_row ids db))"

subsection \<open>The upsert\<close>

definition record_texts :: "file_record \<Rightarrow> str list" where
  "record_texts r =
     [fr_path r, fr_path_lower r, fr_basename r, fr_basename_lower r]
     @ (case fr_ext_lower r of Some e \<Rightarrow> [e] | None \<Rightarrow> [])"

text \<open>\<open>bind_file_content\<close> fails on a text with a NUL byte.\<close>

definition bindable :: "str \<Rightarrow> bool" where
  "bindable s \<longleftrightarrow> CHR 0x00 \<notin> set s"

definition same_content :: "file_record \<Rightarrow> file_record \<Rightarrow> bool" where
  "same_content a b \<longleftrightarrow>
     fr_path a = fr_path b \<and> fr_path_lower a = fr_path_lower b \<and> fr_basename a = fr_basename b \<and>
     fr_basename_lower a = fr_basename_lower b \<and> fr_ext_lower a = fr_ext_lower b \<and>
     fr_kind a = fr_kind b \<and> fr_size a = fr_size b \<and> fr_mtime a = fr_mtime b \<and>
     fr_ctime a = fr_ctime b \<and> fr_dev a = fr_dev b \<and> fr_inode a = fr_inode b"

text \<open>
  \<open>FILE_UPSERT_SQL\<close> and \<open>SCANNER_FILE_UPSERT_SQL\<close>: nothing for an identical row, where only the
  first compares the generation too; else an insert, or an update on a path conflict.
\<close>

definition upsert_statement ::
  "(file_record list \<Rightarrow> i64) \<Rightarrow> bool \<Rightarrow> file_record \<Rightarrow> index_db \<Rightarrow> bool \<times> index_db" where
  "upsert_statement alloc scanner r db =
     (case row_with_path db (fr_path r) of
        None \<Rightarrow> (True, insert_row alloc r db)
      | Some e \<Rightarrow>
          if same_content e r \<and> (scanner \<or> fr_indexed_at e = fr_indexed_at r) then (False, db)
          else (True, update_row e r (set_conflict (Some (fr_id e)) db)))"

record scanner_upsert =
  su_seen :: seen_ids
  su_exceeded :: bool

record file_upsert = fu_scanner :: "scanner_upsert option"

definition prepare_file_upsert :: file_upsert where
  "prepare_file_upsert = \<lparr>fu_scanner = None\<rparr>"

definition prepare_scanner_upsert :: "usize \<Rightarrow> file_upsert" where
  "prepare_scanner_upsert max_pages =
     \<lparr>fu_scanner = Some \<lparr>su_seen = seen_new max_pages, su_exceeded = False\<rparr>\<rparr>"

definition see :: "i64 \<Rightarrow> scanner_upsert \<Rightarrow> scanner_upsert" where
  "see i s =
     (let (added, seen) = seen_insert i (su_seen s)
      in \<lparr>su_seen = seen, su_exceeded = (su_exceeded s \<or> \<not> added)\<rparr>)"

text \<open>\<open>SCANNER_UNCHANGED_SQL\<close>\<close>

definition unchanged_id :: "index_db \<Rightarrow> file_record \<Rightarrow> i64 option" where
  "unchanged_id db r = map_option fr_id (List.find (\<lambda>e. same_content e r) (ix_files db))"

definition upsert ::
  "(file_record list \<Rightarrow> i64) \<Rightarrow> file_record \<Rightarrow> file_upsert \<times> index_db \<Rightarrow> (bool \<times> file_upsert \<times> index_db) option" where
  "upsert alloc r st =
     (let (self, db) = st
      in if \<not> list_all bindable (record_texts r) then None
         else case fu_scanner self of
             None \<Rightarrow> (let (changed, db') = upsert_statement alloc False r db in Some (changed, self, db'))
           | Some s \<Rightarrow>
               (case unchanged_id db r of
                  Some i \<Rightarrow> Some (False, self\<lparr>fu_scanner := Some (see i s)\<rparr>, db)
                | None \<Rightarrow>
                    (let (changed, db') = upsert_statement alloc True r db
                     in case row_with_path db' (fr_path r) of
                          None \<Rightarrow> None
                        | Some e \<Rightarrow> Some (changed, self\<lparr>fu_scanner := Some (see (fr_id e) s)\<rparr>, db'))))"

definition seen_limit_exceeded :: "file_upsert \<Rightarrow> bool" where
  "seen_limit_exceeded self = (case fu_scanner self of None \<Rightarrow> False | Some s \<Rightarrow> su_exceeded s)"

definition into_seen_ids :: "file_upsert \<Rightarrow> seen_ids option" where
  "into_seen_ids self = map_option su_seen (fu_scanner self)"

subsection \<open>Deleting below a path\<close>

definition slash :: char where "slash = CHR ''/''"

text \<open>A root, the first text below it and the first text after everything below it.\<close>

definition path_prefix_bounds :: "str \<Rightarrow> (str \<times> str \<times> str) option" where
  "path_prefix_bounds path =
     (let trimmed = rev (dropWhile (\<lambda>c. c = slash) (rev path));
          root = (if trimmed = [] \<and> prefix [slash] path then [slash] else trimmed)
      in if root = [] then None
         else let lower = (if root = [slash] then [slash] else root @ [slash]);
                  upper = butlast lower @ ''0''
              in Some (root, lower, upper))"

definition in_scope :: "str \<times> str \<times> str \<Rightarrow> str \<Rightarrow> bool" where
  "in_scope b p \<longleftrightarrow> (case b of (root, lower, upper) \<Rightarrow> p = root \<or> lower \<le> p \<and> p < upper)"

definition delete_path_prefix :: "str \<Rightarrow> index_db \<Rightarrow> index_db option" where
  "delete_path_prefix path db =
     (case path_prefix_bounds path of
        None \<Rightarrow> Some db
      | Some b \<Rightarrow> if \<not> bindable path then None
                  else Some (snd (delete_where (\<lambda>r. in_scope b (fr_path r)) db)))"

definition delete_path_exact :: "str \<Rightarrow> index_db \<Rightarrow> index_db option" where
  "delete_path_exact path db =
     (if \<not> bindable path then None else Some (snd (delete_where (\<lambda>r. fr_path r = path) db)))"

definition kind_for_path :: "(str \<Rightarrow> str) \<Rightarrow> index_db \<Rightarrow> str \<Rightarrow> file_kind option option" where
  "kind_for_path ul db path =
     (if \<not> bindable path then None
      else Some (case row_with_path db path of
             None \<Rightarrow> None
           | Some r \<Rightarrow> kind_parse ul (kind_as_str (fr_kind r))))"

fun delete_stale_under_roots :: "str list \<Rightarrow> i64 \<Rightarrow> index_db \<Rightarrow> (usize \<times> index_db) option" where
  "delete_stale_under_roots [] indexed_at db = Some (0, db)"
| "delete_stale_under_roots (root # roots) indexed_at db =
     (case path_prefix_bounds root of
        None \<Rightarrow> delete_stale_under_roots roots indexed_at db
      | Some b \<Rightarrow>
          if \<not> bindable root then None
          else let (n, db') = delete_where (\<lambda>r. fr_indexed_at r < indexed_at \<and> in_scope b (fr_path r)) db
               in map_option (\<lambda>(m, db''). (n + m, db'')) (delete_stale_under_roots roots indexed_at db'))"

text \<open>
  One page of the clean-up (\<open>SCANNER_CANDIDATES_SQL\<close>): the first 256 rows in scope from the cursor
  on, by path; the first page includes the cursor.
\<close>

definition batch :: usize where "batch = 256"

definition scanner_candidates :: "index_db \<Rightarrow> str \<times> str \<times> str \<Rightarrow> str \<Rightarrow> bool \<Rightarrow> file_record list" where
  "scanner_candidates db b cursor first =
     (case b of (root, lower, upper) \<Rightarrow>
        take batch (sort_key fr_path (filter (\<lambda>r.
          cursor \<le> fr_path r \<and> fr_path r < upper \<and> (cursor < fr_path r \<or> first) \<and>
          (fr_path r = root \<or> lower \<le> fr_path r)) (ix_files db))))"

function delete_unseen_pages ::
  "seen_ids \<Rightarrow> str \<times> str \<times> str \<Rightarrow> str \<Rightarrow> bool \<Rightarrow> usize \<Rightarrow> index_db \<Rightarrow> usize \<times> index_db" where
  "delete_unseen_pages seen b cursor first deleted db =
     (let page = scanner_candidates db b cursor first;
          stale = filter (\<lambda>i. \<not> seen_contains seen i) (map fr_id page);
          cursor' = (if page = [] then cursor else fr_path (last page));
          db' = fold delete_row stale db
      in if length page < batch then (deleted + length stale, db')
         else delete_unseen_pages seen b cursor' False (deleted + length stale) db')"
  by pat_completeness auto

lemma prune_changes_files [simp]: "ix_files (prune_changes n db) = ix_files db"
  by (simp add: prune_changes_def Let_def)

lemma record_change_files [simp]: "ix_files (record_change a b c db) = ix_files db"
  by (simp add: record_change_def Let_def)

lemma delete_row_files [simp]: "ix_files (delete_row i db) = filter (\<lambda>r. fr_id r \<noteq> i) (ix_files db)"
  by (simp add: delete_row_def)

lemma fold_delete_row_files:
  "ix_files (fold delete_row ids db) = filter (\<lambda>r. fr_id r \<notin> set ids) (ix_files db)"
  by (induction ids arbitrary: db) (auto intro: filter_cong)

definition rows_ahead :: "str \<Rightarrow> bool \<Rightarrow> index_db \<Rightarrow> file_record list" where
  "rows_ahead cursor first db =
     filter (\<lambda>r. cursor \<le> fr_path r \<and> (cursor < fr_path r \<or> first)) (ix_files db)"

lemma page_last:
  assumes "page = take n (sort_key fr_path rs)" and "page \<noteq> []" and "r \<in> set page"
  shows "fr_path r \<le> fr_path (last page)"
proof -
  have "sorted (map fr_path page)" using assms(1) by (simp add: take_map [symmetric] sorted_wrt_take)
  moreover obtain k where "k < length page" "r = page ! k" using assms(3) by (metis in_set_conv_nth)
  ultimately have "map fr_path page ! k \<le> map fr_path page ! (length page - 1)"
    by (intro sorted_nth_mono) auto
  then show ?thesis using \<open>k < length page\<close> \<open>r = page ! k\<close> assms(2) by (simp add: last_conv_nth)
qed

lemma rows_ahead_page:
  assumes p: "page = scanner_candidates db b cursor first" and ne: "page \<noteq> []"
  shows "length (rows_ahead (fr_path (last page)) False (fold delete_row ids db)) < length (rows_ahead cursor first db)"
proof -
  obtain root lower upper where b: "b = (root, lower, upper)" using prod_cases3 by blast
  let ?c = "fr_path (last page)"
  have mem: "r \<in> set (rows_ahead cursor first db)" if "r \<in> set page" for r
    using that unfolding p scanner_candidates_def b rows_ahead_def by (auto dest: in_set_takeD)
  have "cursor \<le> ?c" using mem [of "last page"] ne by (simp add: rows_ahead_def)
  let ?P = "\<lambda>r. ?c < fr_path r"
  have "rows_ahead ?c False (fold delete_row ids db) = filter (\<lambda>r. fr_id r \<notin> set ids \<and> ?P r) (ix_files db)"
    by (auto simp: rows_ahead_def fold_delete_row_files intro: filter_cong)
  also have "length \<dots> \<le> length (filter ?P (rows_ahead cursor first db))"
  proof -
    have "filter (\<lambda>r. fr_id r \<notin> set ids \<and> ?P r) (ix_files db) =
        filter (\<lambda>r. fr_id r \<notin> set ids) (filter ?P (rows_ahead cursor first db))"
      using \<open>cursor \<le> ?c\<close> by (auto simp: rows_ahead_def intro!: filter_cong)
    then show ?thesis by (simp only: length_filter_le)
  qed
  also have "\<dots> < length (rows_ahead cursor first db)"
    by (rule length_filter_less [of "last page"]) (use mem ne in auto)
  finally show ?thesis .
qed

termination delete_unseen_pages
proof (relation "measure (\<lambda>(_, _, cursor, first, _, db). length (rows_ahead cursor first db))", simp)
  fix seen b cursor first and deleted :: usize and db page stale cursor' db'
  assume "page = scanner_candidates db b cursor first"
    and "stale = filter (\<lambda>i. \<not> seen_contains seen i) (map fr_id page)"
    and "cursor' = (if page = [] then cursor else fr_path (last page))"
    and "db' = fold delete_row stale db" and "\<not> length page < batch"
  moreover from this have "page \<noteq> []" by (auto simp: batch_def)
  ultimately show "((seen, b, cursor', False, deleted + length stale, db'), (seen, b, cursor, first, deleted, db))
      \<in> measure (\<lambda>(_, _, cursor, first, _, db). length (rows_ahead cursor first db))"
    using rows_ahead_page by simp
qed

declare delete_unseen_pages.simps [simp del]

fun delete_unseen_under_roots :: "str list \<Rightarrow> seen_ids \<Rightarrow> index_db \<Rightarrow> (usize \<times> index_db) option" where
  "delete_unseen_under_roots [] seen db = Some (0, db)"
| "delete_unseen_under_roots (root # roots) seen db =
     (case path_prefix_bounds root of
        None \<Rightarrow> delete_unseen_under_roots roots seen db
      | Some b \<Rightarrow>
          if \<not> bindable root then None
          else let (n, db') = delete_unseen_pages seen b (fst b) True 0 db
               in map_option (\<lambda>(m, db''). (n + m, db'')) (delete_unseen_under_roots roots seen db'))"

subsection \<open>Configuration and transactions\<close>

definition clear_index :: "index_db \<Rightarrow> index_db" where
  "clear_index db = (snd (delete_where (\<lambda>_. True) db))\<lparr>ix_roots := [], ix_excludes := []\<rparr>"

text \<open>
  \<open>INSERT OR REPLACE\<close> of texts under a primary key; the rows before a text that cannot be bound
  stay.
\<close>

fun replace_texts :: "str list \<Rightarrow> str list \<Rightarrow> bool \<times> str list" where
  "replace_texts [] stored = (True, stored)"
| "replace_texts (t # ts) stored =
     (if bindable t then replace_texts ts (if t \<in> set stored then stored else stored @ [t])
      else (False, stored))"

definition set_roots :: "str list \<Rightarrow> index_db \<Rightarrow> bool \<times> index_db" where
  "set_roots roots db = (let (ok, ts) = replace_texts roots [] in (ok, db\<lparr>ix_roots := ts\<rparr>))"

definition set_excludes :: "str list \<Rightarrow> index_db \<Rightarrow> bool \<times> index_db" where
  "set_excludes excludes db = (let (ok, ts) = replace_texts excludes [] in (ok, db\<lparr>ix_excludes := ts\<rparr>))"

definition set_meta :: "str \<Rightarrow> str \<Rightarrow> index_db \<Rightarrow> index_db option" where
  "set_meta k v db =
     (if bindable k \<and> bindable v then Some (db\<lparr>ix_meta := AList.update k v (ix_meta db)\<rparr>) else None)"

definition get_meta :: "index_db \<Rightarrow> str \<Rightarrow> str option option" where
  "get_meta db k = (if bindable k then Some (map_of (ix_meta db) k) else None)"

text \<open>\<open>roots_and_excludes\<close>: sorted.\<close>

definition roots_and_excludes :: "index_db \<Rightarrow> str list \<times> str list" where
  "roots_and_excludes db = (sort (ix_roots db), sort (ix_excludes db))"

record connection =
  cn_db :: index_db
  cn_saved :: "index_db option"

definition begin_write :: "connection \<Rightarrow> connection option" where
  "begin_write c = (if cn_saved c = None then Some (c\<lparr>cn_saved := Some (cn_db c)\<rparr>) else None)"

definition commit :: "connection \<Rightarrow> connection option" where
  "commit c = (if cn_saved c = None then None else Some (c\<lparr>cn_saved := None\<rparr>))"

definition rollback :: "connection \<Rightarrow> connection option" where
  "rollback c =
     (case cn_saved c of None \<Rightarrow> None | Some db \<Rightarrow> Some (c\<lparr>cn_db := db, cn_saved := None\<rparr>))"

subsection \<open>Facts: the scope of a path\<close>

lemma char_less_byte: "x < y \<longleftrightarrow> byte x < byte y" for x y :: char
  by (simp add: less_char_def byte_def)

lemma byte_inject: "byte x = byte y \<longleftrightarrow> x = y"
  by (simp add: byte_def)

lemma between_extensions:
  fixes c c' :: char
  assumes succ: "byte c' = byte c + 1"
  shows "w @ [c] \<le> p \<and> p < w @ [c'] \<longleftrightarrow> prefix (w @ [c]) p"
proof (induction w arbitrary: p)
  case Nil
  show ?case
  proof (cases p)
    case (Cons x xs)
    have "[c] \<le> x # xs \<longleftrightarrow> byte c < byte x \<or> byte c = byte x"
      by (simp add: char_less_byte byte_inject)
    moreover have "x # xs < [c'] \<longleftrightarrow> byte x < byte c'" by (simp add: char_less_byte)
    moreover have "prefix [c] (x # xs) \<longleftrightarrow> byte c = byte x" by (simp add: byte_inject)
    ultimately show ?thesis unfolding Cons append_Nil using succ by linarith
  qed simp
next
  case (Cons a w)
  show ?case
  proof (cases p)
    case (Cons b q)
    then show ?thesis
      using Cons.IH [of q] by (cases "a = b") (simp, simp, metis order_less_asym)
  qed simp
qed

lemma path_prefix_bounds_shape:
  assumes "path_prefix_bounds path = Some (root, lower, upper)"
  shows "lower = (if root = [slash] then [slash] else root @ [slash])" and "upper = butlast lower @ ''0''"
proof -
  define t where "t = rev (dropWhile (\<lambda>c. c = slash) (rev path))"
  define r where "r = (if t = [] \<and> prefix [slash] path then [slash] else t)"
  have "(if r = [] then None else Some (r, if r = [slash] then [slash] else r @ [slash],
      butlast (if r = [slash] then [slash] else r @ [slash]) @ ''0'')) = Some (root, lower, upper)"
    using assms unfolding path_prefix_bounds_def Let_def t_def [symmetric] r_def [symmetric] .
  then show "lower = (if root = [slash] then [slash] else root @ [slash])" and "upper = butlast lower @ ''0''"
    by (auto split: if_split_asm)
qed

lemma path_prefix_bounds_scope:
  assumes "path_prefix_bounds path = Some (root, lower, upper)"
  shows "in_scope (root, lower, upper) p \<longleftrightarrow> p = root \<or> prefix lower p"
proof -
  define w where "w = butlast lower"
  have l: "lower = w @ [slash]" "upper = w @ [CHR ''0'']"
    using path_prefix_bounds_shape [OF assms] by (simp_all add: w_def)
  have "byte (CHR ''0'') = byte slash + 1" by (simp add: byte_def slash_def)
  then have "w @ [slash] \<le> p \<and> p < w @ [CHR ''0''] \<longleftrightarrow> prefix (w @ [slash]) p"
    by (rule between_extensions)
  then show ?thesis unfolding in_scope_def l prod.case by simp
qed

lemma trimmed_slashes:
  obtains k where "path = rev (dropWhile (\<lambda>c. c = slash) (rev path)) @ replicate k slash"
    and "rev (dropWhile (\<lambda>c. c = slash) (rev path)) = [] \<or> last (rev (dropWhile (\<lambda>c. c = slash) (rev path))) \<noteq> slash"
proof -
  let ?t = "dropWhile (\<lambda>c. c = slash) (rev path)" and ?s = "takeWhile (\<lambda>c. c = slash) (rev path)"
  have "rev ?s = replicate (length ?s) slash" by (intro replicate_eqI) (auto dest: set_takeWhileD)
  then have "path = rev ?t @ replicate (length ?s) slash"
    by (metis rev_append rev_rev_ident takeWhile_dropWhile_id)
  moreover have "rev ?t = [] \<or> last (rev ?t) \<noteq> slash"
    using hd_dropWhile [of "\<lambda>c. c = slash" "rev path"] by (auto simp: last_rev)
  ultimately show ?thesis using that by blast
qed

lemma path_prefix_bounds_root:
  assumes "path_prefix_bounds path = Some (root, lower, upper)"
  shows "\<exists>k. path = root @ replicate k slash \<and> root \<noteq> [] \<and> (root = [slash] \<or> last root \<noteq> slash)"
proof -
  define t where "t = rev (dropWhile (\<lambda>c. c = slash) (rev path))"
  obtain k where k: "path = t @ replicate k slash" "t = [] \<or> last t \<noteq> slash"
    using trimmed_slashes [of path] unfolding t_def by blast
  have r: "root = (if t = [] \<and> prefix [slash] path then [slash] else t)" "root \<noteq> []"
    using assms unfolding path_prefix_bounds_def Let_def t_def [symmetric] by (auto split: if_split_asm)
  show ?thesis
  proof (cases "t = []")
    case True
    with r k obtain j where "k = Suc j" by (cases k) auto
    with True r k have "path = root @ replicate j slash \<and> root = [slash]" by (auto split: if_split_asm)
    then show ?thesis by auto
  next
    case False
    with r k show ?thesis by auto
  qed
qed

text \<open>C28: The range that deletes below a path is exact and belongs to that path. Every path but the empty
  one has a range; its root is the path without the slashes at its end (the single slash for a path of
  slashes); and of all texts, Unicode ones included, the range contains the root itself and those
  that extend it by a slash, and nothing else (not the sibling \<open>/a0\<close> or \<open>/a b\<close> of
  \<open>/a\<close>).\<close>

theorem path_prefix_bounds_exact:
  "case path_prefix_bounds path of
     None \<Rightarrow> path = []
   | Some (root, lower, upper) \<Rightarrow>
       (\<exists>k. path = root @ replicate k (CHR ''/'')) \<and> root \<noteq> [] \<and> (last root = CHR ''/'' \<longleftrightarrow> root = ''/'') \<and>
       (\<forall>p. in_scope (root, lower, upper) p \<longleftrightarrow> p = root \<or> prefix (if root = ''/'' then ''/'' else root @ ''/'') p)"
proof (cases "path_prefix_bounds path")
  case None
  then show ?thesis
  proof -
    have "rev (dropWhile (\<lambda>c. c = slash) (rev path)) = []" "\<not> prefix [slash] path"
      using None unfolding path_prefix_bounds_def Let_def by (simp_all split: if_split_asm)
    then show ?thesis using None by (cases path) (auto dest!: dropWhile_eq_Nil_conv [THEN iffD1])
  qed
next
  case (Some b)
  obtain root lower upper where b: "b = (root, lower, upper)" using prod_cases3 by blast
  note bounds = Some [unfolded b]
  have "lower = (if root = ''/'' then ''/'' else root @ ''/'')"
    using path_prefix_bounds_shape(1) [OF bounds] by (simp add: slash_def)
  then show ?thesis
    using path_prefix_bounds_scope [OF bounds] path_prefix_bounds_root [OF bounds] Some b by (auto simp: slash_def)
qed

subsection \<open>Facts: the table\<close>

definition ix_ok :: "index_db \<Rightarrow> bool" where
  "ix_ok db \<longleftrightarrow> distinct (map fr_id (ix_files db)) \<and> distinct (map fr_path (ix_files db)) \<and>
     sorted (map fr_id (ix_files db))"

definition alloc_ok :: "(file_record list \<Rightarrow> i64) \<Rightarrow> bool" where
  "alloc_ok alloc \<longleftrightarrow> (\<forall>rows. alloc rows \<notin> fr_id ` set rows)"

lemma set_conflict_files [simp]: "ix_files (set_conflict c db) = ix_files db"
  by (simp add: set_conflict_def)

lemma update_row_files [simp]:
  "ix_files (update_row old r db) =
     map (\<lambda>x. if fr_id x = fr_id old then r\<lparr>fr_id := fr_id old, fr_path := fr_path old\<rparr> else x) (ix_files db)"
  by (simp add: update_row_def Let_def)

lemma insert_row_files [simp]:
  "ix_files (insert_row alloc r db) =
     insort_key fr_id (r\<lparr>fr_id := alloc (ix_files db)\<rparr>) (ix_files db)"
  by (simp add: insert_row_def Let_def)

lemma find_unique:
  "distinct (map f xs) \<Longrightarrow> List.find (\<lambda>x. f x = k) xs = Some y \<longleftrightarrow> y \<in> set xs \<and> f y = k"
  by (induction xs) (auto simp: image_iff)

lemma find_None: "List.find (\<lambda>x. f x = k) xs = None \<longleftrightarrow> k \<notin> f ` set xs"
  by (induction xs) auto

lemma row_with_path_Some:
  "ix_ok db \<Longrightarrow> row_with_path db p = Some r \<longleftrightarrow> r \<in> set (ix_files db) \<and> fr_path r = p"
  unfolding row_with_path_def ix_ok_def by (intro find_unique) simp

lemma row_with_path_None: "row_with_path db p = None \<longleftrightarrow> p \<notin> fr_path ` set (ix_files db)"
  unfolding row_with_path_def by (rule find_None)

lemma row_with_path_cong:
  assumes "ix_ok db" and "ix_ok db'"
    and "\<And>r. fr_path r = p \<Longrightarrow> r \<in> set (ix_files db) \<longleftrightarrow> r \<in> set (ix_files db')"
  shows "row_with_path db p = row_with_path db' p"
proof (cases "row_with_path db p")
  case None
  then have "row_with_path db' p = None" using assms(3) by (auto simp: row_with_path_None image_iff)
  then show ?thesis using None by simp
next
  case (Some r)
  then have "row_with_path db' p = Some r"
    using assms(3) [of r] by (simp add: row_with_path_Some [OF assms(1)] row_with_path_Some [OF assms(2)])
  then show ?thesis using Some by simp
qed

lemma distinct_insort_key:
  "distinct (map f (insort_key g x xs)) \<longleftrightarrow> f x \<notin> f ` set xs \<and> distinct (map f xs)"
  by (induction xs) (auto simp: set_insort_key)

lemma insert_row_ok:
  assumes "ix_ok db" and "alloc_ok alloc" and "row_with_path db (fr_path r) = None"
  shows "ix_ok (insert_row alloc r db)"
  using assms
  by (auto simp: ix_ok_def alloc_ok_def distinct_insort_key row_with_path_None sorted_insort_key)

lemma update_row_ok:
  assumes "ix_ok db" and "old \<in> set (ix_files db)"
  shows "ix_ok (update_row old r db)"
proof -
  have u: "fr_id x = fr_id old \<longleftrightarrow> x = old" if "x \<in> set (ix_files db)" for x
    using that assms by (auto simp: ix_ok_def distinct_map inj_on_def)
  have "map fr_id (ix_files (update_row old r db)) = map fr_id (ix_files db)"
    "map fr_path (ix_files (update_row old r db)) = map fr_path (ix_files db)"
    using u by (auto simp: comp_def)
  then show ?thesis using assms(1) by (simp only: ix_ok_def)
qed

lemma filter_ok: "ix_ok db \<Longrightarrow> ix_files db' = filter P (ix_files db) \<Longrightarrow> ix_ok db'"
  by (simp add: ix_ok_def distinct_map_filter sorted_filter)

lemma delete_where_files [simp]:
  assumes "ix_ok db"
  shows "ix_files (snd (delete_where P db)) = filter (\<lambda>r. \<not> P r) (ix_files db)"
proof -
  have "fr_id r \<in> fr_id ` set (filter P (ix_files db)) \<longleftrightarrow> P r" if "r \<in> set (ix_files db)" for r
    using that assms by (auto simp: ix_ok_def distinct_map inj_on_def)
  then show ?thesis
    by (auto simp: delete_where_def Let_def fold_delete_row_files intro!: filter_cong)
qed

lemma delete_where_count: "fst (delete_where P db) = length (filter P (ix_files db))"
  by (simp add: delete_where_def Let_def)

lemma upsert_statement_ok:
  assumes ok: "ix_ok db" and a: "alloc_ok alloc" and u: "upsert_statement alloc sc r db = (changed, db')"
  shows "ix_ok db' \<and> (\<exists>e. row_with_path db' (fr_path r) = Some e \<and> same_content e r) \<and>
    (\<forall>p. p \<noteq> fr_path r \<longrightarrow> row_with_path db' p = row_with_path db p)"
proof (cases "row_with_path db (fr_path r)")
  case None
  then have db': "db' = insert_row alloc r db" using u by (simp add: upsert_statement_def)
  have ok': "ix_ok db'" unfolding db' by (rule insert_row_ok [OF ok a None])
  have "row_with_path db' (fr_path r) = Some (r\<lparr>fr_id := alloc (ix_files db)\<rparr>)"
    by (simp add: row_with_path_Some [OF ok']) (simp add: db' set_insort_key)
  moreover have "row_with_path db' p = row_with_path db p" if "p \<noteq> fr_path r" for p
    by (rule row_with_path_cong [OF ok' ok]) (use that in \<open>auto simp: db' set_insort_key\<close>)
  ultimately show ?thesis using ok' by (auto simp: same_content_def)
next
  case (Some e)
  have e: "e \<in> set (ix_files db)" "fr_path e = fr_path r" using Some by (auto simp: row_with_path_Some [OF ok])
  show ?thesis
  proof (cases "same_content e r \<and> (sc \<or> fr_indexed_at e = fr_indexed_at r)")
    case True
    then have "db' = db" using u Some by (auto simp: upsert_statement_def)
    then show ?thesis using True ok Some by simp
  next
    case False
    then have db': "db' = update_row e r (set_conflict (Some (fr_id e)) db)"
      using u Some by (auto simp: upsert_statement_def)
    have ok0: "ix_ok (set_conflict (Some (fr_id e)) db)" using ok by (simp add: ix_ok_def)
    have ok': "ix_ok db'" unfolding db' by (rule update_row_ok [OF ok0]) (simp add: e)
    let ?new = "r\<lparr>fr_id := fr_id e, fr_path := fr_path e\<rparr>"
    have id_e: "fr_id x = fr_id e \<longleftrightarrow> x = e" if "x \<in> set (ix_files db)" for x
      using that e(1) ok by (auto simp: ix_ok_def distinct_map inj_on_def)
    have set': "set (ix_files db') = insert ?new (set (ix_files db) - {e})"
      unfolding db' using e(1) id_e by auto
    have "row_with_path db' (fr_path r) = Some ?new"
      by (simp add: row_with_path_Some [OF ok'] set' e(2))
    moreover have "row_with_path db' p = row_with_path db p" if "p \<noteq> fr_path r" for p
      by (rule row_with_path_cong [OF ok' ok]) (use that e(2) in \<open>auto simp: set'\<close>)
    ultimately show ?thesis using ok' e(2) by (auto simp: same_content_def)
  qed
qed

subsection \<open>Facts: the upsert\<close>

lemma unchanged_id_Some:
  assumes "ix_ok db" and "unchanged_id db r = Some i"
  shows "\<exists>e. row_with_path db (fr_path r) = Some e \<and> same_content e r \<and> fr_id e = i"
proof -
  obtain e where "List.find (\<lambda>e. same_content e r) (ix_files db) = Some e" "fr_id e = i"
    using assms(2) by (auto simp: unchanged_id_def)
  then have "e \<in> set (ix_files db)" "same_content e r" "fr_id e = i"
    by (auto simp: find_Some_iff)
  then show ?thesis using row_with_path_Some [OF assms(1)] by (auto simp: same_content_def)
qed

definition upsert_seen_ok :: "file_upsert \<Rightarrow> bool" where
  "upsert_seen_ok fu = (case fu_scanner fu of None \<Rightarrow> True | Some s \<Rightarrow> seen_ok (su_seen s))"

text \<open>The ids that a scanner upsert has seen are in its set, unless the limit was exceeded.\<close>

definition has_seen :: "file_upsert \<Rightarrow> i64 \<Rightarrow> bool" where
  "has_seen fu i =
     (case fu_scanner fu of None \<Rightarrow> True | Some s \<Rightarrow> su_exceeded s \<or> seen_contains (su_seen s) i)"

lemma see_facts:
  assumes "seen_ok (su_seen s)"
  shows "seen_ok (su_seen (see i s))"
    and "su_exceeded (see i s) \<or> (\<forall>j. seen_contains (su_seen (see i s)) j \<longleftrightarrow> j = i \<or> seen_contains (su_seen s) j)"
    and "su_exceeded s \<Longrightarrow> su_exceeded (see i s)"
  using seen_insert_ok [OF assms, of i] seen_insert_contains [OF assms, of i]
  by (auto simp: see_def Let_def split: prod.splits)

lemma upsert_correct:
  assumes ok: "ix_ok db" and a: "alloc_ok alloc" and s: "upsert_seen_ok fu"
    and u: "upsert alloc r (fu, db) = Some (changed, fu', db')"
  shows "ix_ok db' \<and> upsert_seen_ok fu' \<and> (\<not> changed \<longrightarrow> db' = db) \<and>
    (\<exists>e. row_with_path db' (fr_path r) = Some e \<and> same_content e r \<and> has_seen fu' (fr_id e)) \<and>
    (\<forall>p. p \<noteq> fr_path r \<longrightarrow> row_with_path db' p = row_with_path db p) \<and>
    (\<forall>i. has_seen fu i \<longrightarrow> has_seen fu' i)"
proof (cases "fu_scanner fu")
  case None
  obtain d where d: "upsert_statement alloc False r db = (changed, d)" "fu' = fu" "db' = d"
    using u None by (auto simp: upsert_def Let_def split: if_splits prod.splits)
  have "\<not> changed \<longrightarrow> d = db"
    using d(1) by (auto simp: upsert_statement_def split: option.splits if_splits)
  then show ?thesis
    using upsert_statement_ok [OF ok a d(1)] None d(2,3)
    by (auto simp: upsert_seen_ok_def has_seen_def)
next
  case (Some sc)
  have sok: "seen_ok (su_seen sc)" using s Some by (simp add: upsert_seen_ok_def)
  have seen: "upsert_seen_ok (fu\<lparr>fu_scanner := Some (see i sc)\<rparr>) \<and> has_seen (fu\<lparr>fu_scanner := Some (see i sc)\<rparr>) i \<and>
      (\<forall>j. has_seen fu j \<longrightarrow> has_seen (fu\<lparr>fu_scanner := Some (see i sc)\<rparr>) j)" for i
    using see_facts [OF sok, of i] Some by (auto simp: upsert_seen_ok_def has_seen_def)
  show ?thesis
  proof (cases "unchanged_id db r")
    case None
    obtain d e where d: "upsert_statement alloc True r db = (changed, d)" "db' = d"
        "row_with_path d (fr_path r) = Some e" "fu' = fu\<lparr>fu_scanner := Some (see (fr_id e) sc)\<rparr>"
      using u None Some by (auto simp: upsert_def Let_def split: if_splits prod.splits option.splits)
    have "\<not> changed \<longrightarrow> d = db"
      using d(1) by (auto simp: upsert_statement_def split: option.splits if_splits)
    then show ?thesis using upsert_statement_ok [OF ok a d(1)] d seen by auto
  next
    case (Some i)
    have "\<not> changed" "fu' = fu\<lparr>fu_scanner := Some (see i sc)\<rparr>" "db' = db"
      using u Some \<open>fu_scanner fu = Some sc\<close> by (auto simp: upsert_def Let_def split: if_splits)
    then show ?thesis using unchanged_id_Some [OF ok Some] ok seen by auto
  qed
qed

lemma upsert_total:
  assumes "ix_ok db" and "alloc_ok alloc" and "list_all bindable (record_texts r)"
  shows "upsert alloc r (fu, db) \<noteq> None"
proof -
  obtain c d where "upsert_statement alloc True r db = (c, d)" by fastforce
  then show ?thesis
    using upsert_statement_ok [OF assms(1,2), of True r c d] assms(3)
    by (auto simp: upsert_def Let_def split: option.splits prod.splits)
qed


definition example_alloc :: "file_record list \<Rightarrow> i64" where
  "example_alloc rows = 1 + foldl max 0 (map fr_id rows)"

lemma foldl_max: "a \<le> foldl max a xs \<and> (\<forall>x \<in> set xs. x \<le> foldl max a xs)" for a :: int
proof (induction xs arbitrary: a)
  case (Cons x xs)
  show ?case using Cons [of "max a x"] by auto
qed simp

lemma example_alloc_ok: "alloc_ok example_alloc"
proof -
  have "fr_id r < example_alloc rows" if "r \<in> set rows" for r rows
    using foldl_max [of 0 "map fr_id rows"] that by (fastforce simp: example_alloc_def)
  then show ?thesis by (force simp: alloc_ok_def)
qed

definition empty_db :: index_db where
  "empty_db =
     \<lparr>ix_files = [], ix_database_id = ''db'', ix_revision = 0, ix_floor = 0, ix_conflict = None,
      ix_has_journal = True, ix_journal = [], ix_roots = [], ix_excludes = [], ix_meta = []\<rparr>"


subsection \<open>Facts: deleting what a scan has not seen\<close>

lemma page_split:
  fixes f :: "'a \<Rightarrow> 'k::linorder"
  assumes d: "distinct (map f xs)" and p: "page = take n (sort_key f xs)" "page \<noteq> []" and x: "x \<in> set xs"
  shows "x \<in> set page \<longleftrightarrow> f x \<le> f (last page)"
proof -
  have s: "sort_key f xs = page @ drop n (sort_key f xs)" using p(1) by simp
  have "sorted (map f (page @ drop n (sort_key f xs)))" unfolding s [symmetric] by simp
  then have le: "\<And>a b. a \<in> set page \<Longrightarrow> b \<in> set (drop n (sort_key f xs)) \<Longrightarrow> f a \<le> f b" and sp: "sorted (map f page)"
    unfolding map_append sorted_append by auto
  have dist: "distinct (map f (page @ drop n (sort_key f xs)))"
    unfolding s [symmetric] using d by (simp add: distinct_map)
  have last: "last page \<in> set page" using p(2) by simp
  have max: "f a \<le> f (last page)" if "a \<in> set page" for a
  proof -
    obtain k where k: "k < length page" "a = page ! k" using \<open>a \<in> set page\<close> by (metis in_set_conv_nth)
    have "map f page ! k \<le> map f page ! (length page - 1)" by (rule sorted_nth_mono [OF sp]) (use k in auto)
    then show ?thesis using k p(2) by (simp add: last_conv_nth)
  qed
  have "x \<in> set page \<or> x \<in> set (drop n (sort_key f xs))" using x s by (metis Un_iff set_append set_sort)
  then show ?thesis
  proof
    assume r: "x \<in> set (drop n (sort_key f xs))"
    have "f x \<noteq> f (last page)" "x \<notin> set page" using dist r last by auto
    then show ?thesis using le [OF last r] by auto
  qed (use max in auto)
qed

text \<open>The rows that the pages delete: those ahead of the cursor, in scope, and not seen.\<close>

definition unseen_ahead :: "seen_ids \<Rightarrow> str \<times> str \<times> str \<Rightarrow> str \<Rightarrow> bool \<Rightarrow> file_record \<Rightarrow> bool" where
  "unseen_ahead seen b cursor first r \<longleftrightarrow>
     (case b of (root, lower, upper) \<Rightarrow>
        cursor \<le> fr_path r \<and> fr_path r < upper \<and> (cursor < fr_path r \<or> first) \<and>
        (fr_path r = root \<or> lower \<le> fr_path r)) \<and> \<not> seen_contains seen (fr_id r)"

lemma delete_page:
  assumes ok: "ix_ok db" and b: "b = (root, lower, upper)"
    and page: "page = scanner_candidates db b cursor first"
    and stale: "stale = filter (\<lambda>i. \<not> seen_contains seen i) (map fr_id page)"
  shows "ix_files (fold delete_row stale db) = filter (\<lambda>r. \<not> (r \<in> set page \<and> \<not> seen_contains seen (fr_id r))) (ix_files db)"
    and "length stale = length (filter (\<lambda>r. r \<in> set page \<and> \<not> seen_contains seen (fr_id r)) (ix_files db))"
proof -
  have sub: "set page \<subseteq> set (ix_files db)"
    unfolding page scanner_candidates_def b by (auto dest: in_set_takeD)
  have inj: "inj_on fr_id (set (ix_files db))" using ok by (simp add: ix_ok_def distinct_map)
  have "fr_id r \<in> set stale \<longleftrightarrow> r \<in> set page \<and> \<not> seen_contains seen (fr_id r)" if "r \<in> set (ix_files db)" for r
    using that sub inj unfolding stale by (auto simp: inj_on_def)
  then show "ix_files (fold delete_row stale db) = filter (\<lambda>r. \<not> (r \<in> set page \<and> \<not> seen_contains seen (fr_id r))) (ix_files db)"
    by (auto simp: fold_delete_row_files intro!: filter_cong)
  have dp: "distinct page"
    unfolding page scanner_candidates_def b prod.case
    using ok by (intro distinct_take) (simp add: ix_ok_def distinct_map)
  have df: "distinct (ix_files db)" using ok by (simp add: ix_ok_def distinct_map)
  have "length stale = length (filter (\<lambda>r. \<not> seen_contains seen (fr_id r)) page)"
    by (simp add: stale filter_map comp_def)
  also have "\<dots> = card (set (filter (\<lambda>r. \<not> seen_contains seen (fr_id r)) page))"
    by (rule distinct_card [symmetric]) (simp add: dp)
  also have "set (filter (\<lambda>r. \<not> seen_contains seen (fr_id r)) page) =
      set (filter (\<lambda>r. r \<in> set page \<and> \<not> seen_contains seen (fr_id r)) (ix_files db))"
    using sub by auto
  also have "card \<dots> = length (filter (\<lambda>r. r \<in> set page \<and> \<not> seen_contains seen (fr_id r)) (ix_files db))"
    by (rule distinct_card) (simp add: df)
  finally show "length stale = length (filter (\<lambda>r. r \<in> set page \<and> \<not> seen_contains seen (fr_id r)) (ix_files db))" .
qed

lemma unseen_ahead_page:
  assumes ok: "ix_ok db" and b: "b = (root, lower, upper)"
    and page: "page = scanner_candidates db b cursor first"
    and r: "r \<in> set (ix_files db)"
  shows "unseen_ahead seen b cursor first r \<longleftrightarrow>
     (r \<in> set page \<and> \<not> seen_contains seen (fr_id r)) \<or>
     (\<not> length page < batch \<and> unseen_ahead seen b (fr_path (last page)) False r)"
proof -
  let ?c = "filter (\<lambda>r. cursor \<le> fr_path r \<and> fr_path r < upper \<and> (cursor < fr_path r \<or> first) \<and>
          (fr_path r = root \<or> lower \<le> fr_path r)) (ix_files db)"
  have p: "page = take batch (sort_key fr_path ?c)" by (simp add: page scanner_candidates_def b)
  have d: "distinct (map fr_path ?c)" using ok by (simp add: ix_ok_def distinct_map_filter)
  have cand: "unseen_ahead seen b cursor first r \<longleftrightarrow> r \<in> set ?c \<and> \<not> seen_contains seen (fr_id r)"
    using r by (auto simp: unseen_ahead_def b)
  show ?thesis
  proof (cases "length page < batch")
    case True
    then have "page = sort_key fr_path ?c" unfolding p by (simp add: min_def split: if_splits)
    then show ?thesis using True cand by simp
  next
    case False
    then have ne: "page \<noteq> []" by (auto simp: batch_def)
    have sub: "set page \<subseteq> set ?c" unfolding p using set_take_subset by fastforce
    then have last: "last page \<in> set ?c" using ne last_in_set by blast
    have "r \<in> set page \<longleftrightarrow> fr_path r \<le> fr_path (last page)" if "r \<in> set ?c"
      by (rule page_split [OF d p ne that])
    then have "r \<in> set ?c \<longleftrightarrow> r \<in> set page \<or> r \<in> set ?c \<and> fr_path (last page) < fr_path r"
      using sub by (meson not_le subsetD)
    moreover have "r \<in> set ?c \<and> fr_path (last page) < fr_path r \<longleftrightarrow>
        fr_path (last page) < fr_path r \<and> fr_path r < upper \<and> (fr_path r = root \<or> lower \<le> fr_path r)"
    proof -
      have "cursor \<le> fr_path (last page)" using last by simp
      then have "cursor < fr_path r" if "fr_path (last page) < fr_path r"
        using that by (rule order.strict_trans1)
      then show ?thesis using r by auto
    qed
    moreover have "unseen_ahead seen b (fr_path (last page)) False r \<longleftrightarrow>
        (fr_path (last page) < fr_path r \<and> fr_path r < upper \<and> (fr_path r = root \<or> lower \<le> fr_path r)) \<and>
        \<not> seen_contains seen (fr_id r)"
      by (auto simp: unseen_ahead_def b)
    ultimately show ?thesis using False cand by blast
  qed
qed

lemma delete_unseen_pages_files:
  "ix_ok db \<Longrightarrow> delete_unseen_pages seen b cursor first n db = (m, db') \<Longrightarrow>
     ix_files db' = filter (\<lambda>r. \<not> unseen_ahead seen b cursor first r) (ix_files db) \<and>
     m = n + length (filter (unseen_ahead seen b cursor first) (ix_files db))"
proof (induction seen b cursor first n db arbitrary: m db' rule: delete_unseen_pages.induct)
  case (1 seen b cursor first n db)
  obtain root lower upper where b: "b = (root, lower, upper)" using prod_cases3 by blast
  define page where "page = scanner_candidates db b cursor first"
  define stale where "stale = filter (\<lambda>i. \<not> seen_contains seen i) (map fr_id page)"
  define db1 where "db1 = fold delete_row stale db"
  define Q where "Q = (\<lambda>r. r \<in> set page \<and> \<not> seen_contains seen (fr_id r))"
  note del = delete_page [OF "1.prems"(1) b page_def stale_def, folded db1_def Q_def]
  note ahead = unseen_ahead_page [OF "1.prems"(1) b page_def, where seen = seen, folded Q_def]
  show ?case
  proof (cases "length page < batch")
    case True
    then have "m = n + length stale" "db' = db1"
      using "1.prems"(2) unfolding delete_unseen_pages.simps [of seen b cursor first n db] Let_def
        page_def [symmetric] stale_def [symmetric] db1_def [symmetric] by simp_all
    moreover have "\<And>r. r \<in> set (ix_files db) \<Longrightarrow> unseen_ahead seen b cursor first r \<longleftrightarrow> Q r"
      using ahead True by (simp add: Q_def)
    ultimately show ?thesis
      using del by (auto simp: Q_def intro!: filter_cong arg_cong [where f = length])
  next
    case False
    let ?A = "unseen_ahead seen b (fr_path (last page)) False"
    have ne: "page \<noteq> []" using False by (auto simp: batch_def)
    have rec: "delete_unseen_pages seen b (fr_path (last page)) False (n + length stale) db1 = (m, db')"
      using "1.prems"(2) False ne unfolding delete_unseen_pages.simps [of seen b cursor first n db] Let_def
        page_def [symmetric] stale_def [symmetric] db1_def [symmetric] by simp
    have ok1: "ix_ok db1" by (rule filter_ok [OF "1.prems"(1) del(1)])
    have IH: "ix_files db' = filter (\<lambda>r. \<not> ?A r) (ix_files db1) \<and>
        m = n + length stale + length (filter ?A (ix_files db1))"
      by (rule "1.IH" [OF page_def stale_def _ db1_def False ok1]) (use ne rec in simp_all)
    obtain cs where cs: "page = take batch (sort_key fr_path cs)"
      by (auto simp: page_def scanner_candidates_def b)
    have "\<not> ?A r" if "r \<in> set page" for r
      using leD [OF page_last [OF cs ne that]] by (simp add: unseen_ahead_def b)
    then have disj: "\<not> (Q r \<and> ?A r)" if "r \<in> set (ix_files db)" for r
      by (auto simp: Q_def)
    have ah: "unseen_ahead seen b cursor first r \<longleftrightarrow> Q r \<or> ?A r" if "r \<in> set (ix_files db)" for r
      using ahead [OF that] False by (simp add: Q_def)
    have files: "ix_files db' = filter (\<lambda>r. \<not> unseen_ahead seen b cursor first r) (ix_files db)"
      using IH del(1) ah by (auto simp: Q_def intro!: filter_cong)
    have "filter ?A (ix_files db1) = filter ?A (ix_files db)"
      using del(1) disj by (auto simp: Q_def intro!: filter_cong)
    moreover have "length (filter Q (ix_files db)) + length (filter ?A (ix_files db)) =
        length (filter (unseen_ahead seen b cursor first) (ix_files db))"
    proof -
      have "length (filter Q rs) + length (filter ?A rs) = length (filter (unseen_ahead seen b cursor first) rs)"
        if "set rs \<subseteq> set (ix_files db)" for rs
        using that by (induction rs) (use ah disj in auto)
      then show ?thesis by simp
    qed
    ultimately show ?thesis using IH del(2) files by simp
  qed
qed

lemma delete_unseen_root:
  assumes ok: "ix_ok db" and b: "path_prefix_bounds root = Some b"
    and d: "delete_unseen_pages seen b (fst b) True 0 db = (m, db')"
  shows "ix_files db' = filter (\<lambda>r. in_scope b (fr_path r) \<longrightarrow> seen_contains seen (fr_id r)) (ix_files db)"
    and "m = length (filter (\<lambda>r. in_scope b (fr_path r) \<and> \<not> seen_contains seen (fr_id r)) (ix_files db))"
proof -
  obtain rt lower upper where bb: "b = (rt, lower, upper)" using prod_cases3 by blast
  note shape = path_prefix_bounds_shape [OF b [unfolded bb]]
  have "rt \<le> rt @ xs" for xs :: str using list_less_append(2) [of rt "[]" xs] by simp
  then have le: "rt \<le> lower" using shape(1) by (metis order_refl)
  have "rt < upper"
  proof (cases "rt = [slash]")
    case True
    then have "upper = ''0''" using shape by simp
    then show ?thesis using True by (simp add: slash_def less_char_def)
  next
    case False
    then have "upper = rt @ ''0''" using shape by simp
    then show ?thesis using list_less_append(1) [of rt "[]" "''0''"] by simp
  qed
  then have "unseen_ahead seen b (fst b) True r \<longleftrightarrow> in_scope b (fr_path r) \<and> \<not> seen_contains seen (fr_id r)" for r
    using le by (auto simp: unseen_ahead_def bb in_scope_def)
  then show "ix_files db' = filter (\<lambda>r. in_scope b (fr_path r) \<longrightarrow> seen_contains seen (fr_id r)) (ix_files db)"
    and "m = length (filter (\<lambda>r. in_scope b (fr_path r) \<and> \<not> seen_contains seen (fr_id r)) (ix_files db))"
    using delete_unseen_pages_files [OF ok d] by (auto intro!: filter_cong arg_cong [where f = length])
qed

text \<open>C25: Cleaning up after a complete scan deletes exactly the rows in the scope of the root that the
  scan has not seen and counts them, however many pages of 256 rows that takes and although
  each page is read after the rows of the page before it were deleted.\<close>

theorem delete_unseen_exact:
  assumes "ix_ok db" and "path_prefix_bounds root = Some b" and "bindable root"
  shows "\<exists>db'. delete_unseen_under_roots [root] seen db =
      Some (length (filter (\<lambda>r. in_scope b (fr_path r) \<and> \<not> seen_contains seen (fr_id r)) (ix_files db)), db') \<and>
    ix_files db' = filter (\<lambda>r. in_scope b (fr_path r) \<longrightarrow> seen_contains seen (fr_id r)) (ix_files db)"
proof -
  obtain m db' where d: "delete_unseen_pages seen b (fst b) True 0 db = (m, db')" by fastforce
  show ?thesis using delete_unseen_root [OF assms(1,2) d] assms(2,3) d by simp
qed

theorem delete_unseen_exact_witness:
  "map_option fst (delete_unseen_under_roots [''/a''] (snd (seen_insert 2 (seen_new 4)))
     (empty_db\<lparr>ix_files := [(file_record_new id ''/a'' Directory 0)\<lparr>fr_id := 2\<rparr>,
        (file_record_new id ''/a/x'' File 0)\<lparr>fr_id := 3\<rparr>, (file_record_new id ''/ab'' File 0)\<lparr>fr_id := 4\<rparr>]\<rparr>)) = Some 1"
proof -
  let ?db = "empty_db\<lparr>ix_files := [(file_record_new id ''/a'' Directory 0)\<lparr>fr_id := 2\<rparr>,
        (file_record_new id ''/a/x'' File 0)\<lparr>fr_id := 3\<rparr>, (file_record_new id ''/ab'' File 0)\<lparr>fr_id := 4\<rparr>]\<rparr>"
  let ?s = "snd (seen_insert 2 (seen_new 4))"
  have ok: "ix_ok ?db" by (simp add: ix_ok_def file_record_new_def Let_def)
  have b: "path_prefix_bounds ''/a'' = Some (''/a'', ''/a/'', ''/a0'')" and bd: "bindable ''/a''" by code_simp+
  have "length (filter (\<lambda>r. in_scope (''/a'', ''/a/'', ''/a0'') (fr_path r) \<and> \<not> seen_contains ?s (fr_id r)) (ix_files ?db)) = 1"
    by code_simp
  then show ?thesis using delete_unseen_exact [OF ok b bd, of ?s] by auto
qed

end
