(* ===== verification/Change_Journal.thy ===== *)
theory Change_Journal
  imports Index_Db
begin

text \<open>
  Reading the change journal, \<open>file_changes_since\<close> of \<open>src/src/db.rs\<close>: the rows that differ between
  a revision that a reader knows and the current one, or a reason to read everything again.
  The journal is written by the triggers in the theory \<open>Index_Db\<close>.
\<close>

record content_stamp =
  cs_database_id :: str
  cs_revision :: i64
  cs_identity :: "nat \<times> nat"

definition content_stamp_of :: "nat \<times> nat \<Rightarrow> index_db \<Rightarrow> content_stamp" where
  "content_stamp_of identity db =
     \<lparr>cs_database_id = ix_database_id db, cs_revision = ix_revision db, cs_identity = identity\<rparr>"

type_synonym file_change = "i64 \<times> file_record option"

datatype file_change_read = Available content_stamp "file_change list" | Fallback str

definition max_file_change_batch :: usize where "max_file_change_batch = 4096"
definition file_change_max_payload_bytes :: usize where "file_change_max_payload_bytes = 32 * 1024 * 1024"

definition ext_text :: "file_record \<Rightarrow> str" where
  "ext_text r = (case fr_ext_lower r of Some e \<Rightarrow> e | None \<Rightarrow> [])"

text \<open>The bytes of the columns as stored.\<close>

definition raw_bytes :: "file_record \<Rightarrow> usize" where
  "raw_bytes r = length (fr_path r) + length (fr_path_lower r) + length (fr_basename r)
     + length (fr_basename_lower r) + length (ext_text r) + length (kind_as_str (fr_kind r))"

text \<open>An estimate of the decoded texts, made before anything is allocated.\<close>

definition row_text_payload_bytes :: "(str \<Rightarrow> str) \<Rightarrow> file_record \<Rightarrow> usize" where
  "row_text_payload_bytes ul r =
     (let lower_bytes = (if fr_path_lower r \<noteq> [] then length (fr_path_lower r)
          else sum_list (map (\<lambda>c. length (to_lowercase ul c)) (str_chars (fr_path r))))
      in length (fr_path r) + lower_bytes + length (fr_basename r) + length (fr_basename_lower r)
         + length (ext_text r) + 3 * length (kind_as_str (fr_kind r)))"

definition row_to_record :: "(str \<Rightarrow> str) \<Rightarrow> file_record \<Rightarrow> file_record" where
  "row_to_record ul r =
     r\<lparr>fr_path_lower := (if fr_path_lower r \<noteq> [] then fr_path_lower r else to_lowercase ul (fr_path r)),
       fr_kind := (case kind_parse ul (kind_as_str (fr_kind r)) of Some k \<Rightarrow> k | None \<Rightarrow> Other)\<rparr>"

text \<open>The ids of an entry go into a sorted set (\<open>BTreeSet\<close>); \<open>None\<close> when it grows too large.\<close>

definition set_insert :: "i64 \<Rightarrow> i64 list \<Rightarrow> i64 list" where
  "set_insert i ids = (if i \<in> set ids then ids else insort i ids)"

fun insert_ids :: "usize \<Rightarrow> i64 option list \<Rightarrow> i64 list \<Rightarrow> i64 list option" where
  "insert_ids max_ids [] ids = Some ids"
| "insert_ids max_ids (None # cs) ids = insert_ids max_ids cs ids"
| "insert_ids max_ids (Some i # cs) ids =
     (let ids' = set_insert i ids
      in if min max_ids max_file_change_batch < length ids' then None else insert_ids max_ids cs ids')"

definition entry_columns :: "change_entry \<Rightarrow> i64 option list" where
  "entry_columns e = [ce_old e, ce_new e, ce_conflict e]"

text \<open>The loop over the entries: the last revision and the ids, or the reason to fall back.\<close>

fun read_events :: "usize \<Rightarrow> change_entry list \<Rightarrow> i64 \<Rightarrow> i64 list \<Rightarrow> str + i64 \<times> i64 list" where
  "read_events max_ids [] previous ids = Inr (previous, ids)"
| "read_events max_ids (e # es) previous ids =
     (if ce_revision e - previous \<noteq> 1 then Inl ''history_gap''
      else case insert_ids max_ids (entry_columns e) ids of
             None \<Rightarrow> Inl ''id_limit''
           | Some ids' \<Rightarrow>
               if list_all (\<lambda>c. c = None) (entry_columns e) then Inl ''history_gap''
               else read_events max_ids es (ce_revision e) ids')"

text \<open>The loop over the ids: the rows of the current snapshot, within the limit of bytes.\<close>

fun read_rows :: "(str \<Rightarrow> str) \<Rightarrow> usize \<Rightarrow> index_db \<Rightarrow> i64 list \<Rightarrow> usize \<Rightarrow> file_change list option" where
  "read_rows ul max_bytes db [] payload_bytes = Some []"
| "read_rows ul max_bytes db (i # ids) payload_bytes =
     (case row_with_id db i of
        None \<Rightarrow> map_option (\<lambda>cs. (i, None) # cs) (read_rows ul max_bytes db ids payload_bytes)
      | Some r \<Rightarrow>
          if max_bytes < payload_bytes + raw_bytes r then None
          else if max_bytes < payload_bytes + row_text_payload_bytes ul r then None
          else map_option (\<lambda>cs. (i, Some (row_to_record ul r)) # cs)
                 (read_rows ul max_bytes db ids (payload_bytes + row_text_payload_bytes ul r)))"

definition journal_between :: "index_db \<Rightarrow> i64 \<Rightarrow> i64 \<Rightarrow> change_entry list" where
  "journal_between db lo hi =
     sort_key ce_revision (filter (\<lambda>e. lo < ce_revision e \<and> ce_revision e \<le> hi) (ix_journal db))"

definition file_changes_since_with_byte_limit ::
  "(str \<Rightarrow> str) \<Rightarrow> nat \<times> nat \<Rightarrow> index_db \<Rightarrow> content_stamp \<Rightarrow> usize \<Rightarrow> usize \<Rightarrow> usize \<Rightarrow> file_change_read" where
  "file_changes_since_with_byte_limit ul identity db base max_events max_ids max_payload_bytes =
     (let target = content_stamp_of identity db
      in if cs_database_id base \<noteq> cs_database_id target \<or> cs_identity base \<noteq> cs_identity target
         then Fallback ''database_replaced''
         else if cs_revision target < cs_revision base then Fallback ''revision_regressed''
         else if \<not> ix_has_journal db then Fallback ''journal_unavailable''
         else if cs_revision target = cs_revision base then Available target []
         else if cs_revision base < ix_floor db then Fallback ''history_gap''
         else if int (min max_events max_file_change_batch) < cs_revision target - cs_revision base
         then Fallback ''event_limit''
         else case read_events max_ids (journal_between db (cs_revision base) (cs_revision target))
                     (cs_revision base) [] of
                Inl reason \<Rightarrow> Fallback reason
              | Inr (previous, ids) \<Rightarrow>
                  if previous \<noteq> cs_revision target then Fallback ''history_gap''
                  else case read_rows ul max_payload_bytes db ids 0 of
                         None \<Rightarrow> Fallback ''byte_limit''
                       | Some changes \<Rightarrow> Available target changes)"

definition file_changes_since ::
  "(str \<Rightarrow> str) \<Rightarrow> nat \<times> nat \<Rightarrow> index_db \<Rightarrow> content_stamp \<Rightarrow> usize \<Rightarrow> usize \<Rightarrow> file_change_read" where
  "file_changes_since ul identity db base max_events max_ids =
     file_changes_since_with_byte_limit ul identity db base max_events max_ids file_change_max_payload_bytes"

subsection \<open>How the database moves\<close>

text \<open>
  The statements that change the database between two reads, one row at a time as the
  triggers see it, and the writes to the other tables.
\<close>

inductive db_step :: "(file_record list \<Rightarrow> i64) \<Rightarrow> index_db \<Rightarrow> index_db \<Rightarrow> bool" for alloc where
  step_insert: "row_with_path db (fr_path r) = None \<Longrightarrow> db_step alloc db (insert_row alloc r db)"
| step_update: "old \<in> set (ix_files db) \<Longrightarrow> db_step alloc db (update_row old r db)"
| step_delete: "i \<in> fr_id ` set (ix_files db) \<Longrightarrow> db_step alloc db (delete_row i db)"
| step_conflict: "db_step alloc db (set_conflict c db)"
| step_config: "db_step alloc db (db\<lparr>ix_roots := roots, ix_excludes := excludes, ix_meta := meta\<rparr>)"

inductive_cases db_stepE: "db_step alloc db db'"

text \<open>The writing operations are made of such steps.\<close>

lemma upsert_statement_steps:
  assumes "ix_ok db" and "upsert_statement alloc sc r db = (changed, db')"
  shows "(db_step alloc)\<^sup>*\<^sup>* db db'"
proof (cases "row_with_path db (fr_path r)")
  case None
  then have "db' = insert_row alloc r db" using assms(2) by (simp add: upsert_statement_def)
  then show ?thesis using None by (auto intro: step_insert)
next
  case (Some e)
  then have e: "e \<in> set (ix_files db)" using row_with_path_Some [OF assms(1)] by simp
  have "db_step alloc db (set_conflict (Some (fr_id e)) db)" by (rule step_conflict)
  moreover have "db_step alloc (set_conflict (Some (fr_id e)) db) (update_row e r (set_conflict (Some (fr_id e)) db))"
    by (rule step_update) (simp add: e)
  ultimately have "(db_step alloc)\<^sup>*\<^sup>* db (update_row e r (set_conflict (Some (fr_id e)) db))"
    by (meson r_into_rtranclp rtranclp.rtrancl_into_rtrancl)
  then show ?thesis using assms(2) Some
    by (auto simp: upsert_statement_def split: if_splits)
qed

lemma fold_delete_steps:
  "distinct ids \<Longrightarrow> set ids \<subseteq> fr_id ` set (ix_files db) \<Longrightarrow> (db_step alloc)\<^sup>*\<^sup>* db (fold delete_row ids db)"
proof (induction ids arbitrary: db)
  case (Cons i ids)
  have "db_step alloc db (delete_row i db)" using Cons.prems(2) by (intro step_delete) simp
  moreover have "set ids \<subseteq> fr_id ` set (ix_files (delete_row i db))"
    using Cons.prems by (auto simp: image_iff) (metis image_iff subsetD)
  ultimately show ?case using Cons.IH [of "delete_row i db"] Cons.prems(1)
    by (simp add: converse_rtranclp_into_rtranclp)
qed simp

lemma delete_where_steps: "ix_ok db \<Longrightarrow> (db_step alloc)\<^sup>*\<^sup>* db (snd (delete_where P db))"
  unfolding delete_where_def Let_def snd_conv
  by (rule fold_delete_steps) (auto simp: ix_ok_def distinct_map_filter)

subsection \<open>Facts: the journal accounts for every change\<close>

definition journal_ok :: "index_db \<Rightarrow> bool" where
  "journal_ok db \<longleftrightarrow>
     distinct (map ce_revision (ix_journal db)) \<and> list_all (\<lambda>e. ce_revision e \<le> ix_revision db) (ix_journal db)"

definition entry_ids :: "change_entry \<Rightarrow> i64 set" where
  "entry_ids e = {i. Some i \<in> set (entry_columns e)}"

definition entry_at :: "index_db \<Rightarrow> i64 \<Rightarrow> change_entry option" where
  "entry_at db n = List.find (\<lambda>e. ce_revision e = n) (ix_journal db)"

lemma entry_at_Some: "journal_ok db \<Longrightarrow> entry_at db n = Some e \<longleftrightarrow> e \<in> set (ix_journal db) \<and> ce_revision e = n"
  unfolding entry_at_def journal_ok_def by (intro find_unique) simp

lemma entry_at_None: "entry_at db n = None \<longleftrightarrow> n \<notin> ce_revision ` set (ix_journal db)"
  unfolding entry_at_def by (rule find_None)

text \<open>
  One step at most adds one revision, whose entry names every id whose row changed; entries
  of older revisions stay as they are or go.
\<close>

definition covers :: "index_db \<Rightarrow> i64 \<Rightarrow> i64 \<Rightarrow> bool" where
  "covers db i n \<longleftrightarrow> (case entry_at db n of None \<Rightarrow> True | Some e \<Rightarrow> i \<in> entry_ids e)"

definition accounts :: "index_db \<Rightarrow> index_db \<Rightarrow> bool" where
  "accounts db db' \<longleftrightarrow>
     journal_ok db' \<and> ix_database_id db' = ix_database_id db \<and> ix_has_journal db' = ix_has_journal db \<and>
     ix_revision db \<le> ix_revision db' \<and>
     (\<forall>n \<le> ix_revision db. entry_at db' n = entry_at db n \<or> entry_at db' n = None) \<and>
     (\<forall>i. row_with_id db' i \<noteq> row_with_id db i \<longrightarrow>
        (\<exists>n. ix_revision db < n \<and> n \<le> ix_revision db' \<and> covers db' i n))"

lemma accounts_old:
  "accounts db db' \<Longrightarrow> n \<le> ix_revision db \<Longrightarrow> entry_at db' n = entry_at db n \<or> entry_at db' n = None"
  by (simp add: accounts_def)

lemma accounts_change:
  "accounts db db' \<Longrightarrow> row_with_id db' i \<noteq> row_with_id db i \<Longrightarrow>
     \<exists>n. ix_revision db < n \<and> n \<le> ix_revision db' \<and> covers db' i n"
  by (simp add: accounts_def)

lemma accounts_revision: "accounts db db' \<Longrightarrow> ix_revision db \<le> ix_revision db'"
  by (simp add: accounts_def)

lemma accounts_refl: "journal_ok db \<Longrightarrow> accounts db db"
  by (simp add: accounts_def)

lemma accounts_trans:
  assumes ab: "accounts a b" and bc: "accounts b c"
  shows "accounts a c"
proof -
  note le = accounts_revision [OF ab] accounts_revision [OF bc]
  have old: "entry_at c n = entry_at a n \<or> entry_at c n = None" if "n \<le> ix_revision a" for n
    using accounts_old [OF ab that] accounts_old [OF bc, of n] that le by auto
  have keep: "covers c i n" if "covers b i n" "n \<le> ix_revision b" for i n
    using that accounts_old [OF bc that(2)] by (auto simp: covers_def split: option.splits)
  have chg: "\<exists>n. ix_revision a < n \<and> n \<le> ix_revision c \<and> covers c i n"
    if d: "row_with_id c i \<noteq> row_with_id a i" for i
  proof (cases "row_with_id c i = row_with_id b i")
    case True
    then have "row_with_id b i \<noteq> row_with_id a i" using d by simp
    then show ?thesis using accounts_change [OF ab] keep le(2) by (meson order_trans)
  next
    case False
    then show ?thesis using accounts_change [OF bc] le(1) by (meson order_le_less_trans)
  qed
  show ?thesis using ab bc old chg by (auto simp: accounts_def)
qed

subsection \<open>Every step accounts for its change\<close>

lemma prune_changes_simps [simp]:
  "ix_revision (prune_changes n db) = ix_revision db"
  "ix_database_id (prune_changes n db) = ix_database_id db"
  "ix_has_journal (prune_changes n db) = ix_has_journal db"
  by (simp_all add: prune_changes_def Let_def)

lemma prune_changes_journal:
  "\<exists>P. ix_journal (prune_changes n db) = filter P (ix_journal db)"
  by (auto simp: prune_changes_def Let_def intro: exI [of _ "\<lambda>_. True"])

lemma entry_at_filter:
  "entry_at (db\<lparr>ix_journal := filter P js\<rparr>) n = entry_at (db\<lparr>ix_journal := js\<rparr>) n \<or>
   entry_at (db\<lparr>ix_journal := filter P js\<rparr>) n = None"
  if "distinct (map ce_revision js)"
proof (cases "entry_at (db\<lparr>ix_journal := filter P js\<rparr>) n")
  case (Some e)
  then have "e \<in> set js" "ce_revision e = n" by (auto simp: entry_at_def find_Some_iff dest: nth_mem)
  then have "entry_at (db\<lparr>ix_journal := js\<rparr>) n = Some e"
    using find_unique [OF that] by (simp add: entry_at_def)
  then show ?thesis using Some by simp
qed simp

lemma record_change_accounts:
  assumes ok: "journal_ok db" and j: "ix_has_journal db"
    and files: "\<And>i. row_with_id db' i \<noteq> row_with_id db i \<Longrightarrow> i \<in> {i. Some i \<in> {old, new, c}}"
    and rest: "ix_journal db' = ix_journal db" "ix_revision db' = ix_revision db"
      "ix_database_id db' = ix_database_id db" "ix_has_journal db' = ix_has_journal db"
  shows "accounts db (record_change old new c db')"
proof -
  let ?n = "ix_revision db + 1"
  let ?e = "\<lparr>ce_revision = ?n, ce_old = old, ce_new = new, ce_conflict = c\<rparr>"
  let ?js = "ix_journal db @ [?e]"
  define r where "r = record_change old new c db'"
  have r: "r = prune_changes ?n (db'\<lparr>ix_revision := ?n, ix_journal := ?js\<rparr>)"
    using j rest by (simp add: r_def record_change_def Let_def)
  obtain P where P: "ix_journal r = filter P ?js"
    using prune_changes_journal [of ?n "db'\<lparr>ix_revision := ?n, ix_journal := ?js\<rparr>"] by (auto simp: r)
  have new: "?n \<notin> ce_revision ` set (ix_journal db)"
    using ok by (force simp: journal_ok_def list_all_iff)
  then have dist: "distinct (map ce_revision ?js)" using ok by (simp add: journal_ok_def)
  have at: "entry_at r n = entry_at (db\<lparr>ix_journal := ?js\<rparr>) n \<or> entry_at r n = None" for n
    using entry_at_filter [OF dist, where db = db and P = P and n = n] P by (simp add: entry_at_def)
  have old': "entry_at (db\<lparr>ix_journal := ?js\<rparr>) n = entry_at db n" if "n \<noteq> ?n" for n
  proof -
    have "List.find (\<lambda>e. ce_revision e = n) (es @ [?e]) = List.find (\<lambda>e. ce_revision e = n) es" for es
      using that by (induction es) auto
    then show ?thesis by (simp add: entry_at_def)
  qed
  have at_new: "entry_at (db\<lparr>ix_journal := ?js\<rparr>) ?n = Some ?e"
    using find_unique [OF dist, of ?n ?e] by (simp add: entry_at_def)
  have "covers r i ?n" if "row_with_id r i \<noteq> row_with_id db i" for i
  proof -
    have "row_with_id r i = row_with_id db' i" by (simp add: r_def row_with_id_def)
    then have "i \<in> entry_ids ?e" using files [of i] that by (auto simp: entry_ids_def entry_columns_def)
    then show ?thesis using at [of ?n] at_new by (auto simp: covers_def)
  qed
  moreover have "journal_ok r"
    using dist ok unfolding journal_ok_def P
    by (auto simp: r distinct_map_filter list_all_iff)
  moreover have "\<forall>n \<le> ix_revision db. entry_at r n = entry_at db n \<or> entry_at r n = None"
    using at old' by (metis zle_add1_eq_le less_irrefl)
  moreover have "ix_revision r = ?n" "ix_database_id r = ix_database_id db" "ix_has_journal r = ix_has_journal db"
    using rest by (simp_all add: r)
  ultimately show ?thesis unfolding r_def [symmetric] accounts_def
    by (metis less_add_one order_less_imp_le order_refl)
qed

lemma other_accounts:
  assumes "journal_ok db" and "ix_files db' = ix_files db" and "ix_journal db' = ix_journal db"
    and "ix_revision db' = ix_revision db" "ix_database_id db' = ix_database_id db" "ix_has_journal db' = ix_has_journal db"
  shows "accounts db db'"
  using assms by (simp add: accounts_def row_with_id_def entry_at_def journal_ok_def)

lemma find_map_changed:
  assumes "List.find (\<lambda>x. f x = k) (map (\<lambda>x. if f x = j then y else x) xs) \<noteq> List.find (\<lambda>x. f x = k) xs"
    and "f y = j"
  shows "k = j"
proof (rule ccontr)
  assume "k \<noteq> j"
  then have "List.find (\<lambda>x. f x = k) (map (\<lambda>x. if f x = j then y else x) xs) = List.find (\<lambda>x. f x = k) xs"
    using assms(2) by (induction xs) auto
  then show False using assms(1) by simp
qed

lemma find_insort_other: "f x \<noteq> k \<Longrightarrow> List.find (\<lambda>x. f x = k) (insort_key g x xs) = List.find (\<lambda>x. f x = k) xs"
  by (induction xs) auto

lemma find_insort_changed:
  "List.find (\<lambda>x. f x = k) (insort_key g x xs) \<noteq> List.find (\<lambda>x. f x = k) xs \<Longrightarrow> k = f x"
  using find_insort_other [of f x k g xs] by auto

lemma find_filter_changed:
  "List.find (\<lambda>x. f x = k) (filter (\<lambda>x. f x \<noteq> j) xs) \<noteq> List.find (\<lambda>x. f x = k) xs \<Longrightarrow> k = j"
  by (induction xs) (auto split: if_split_asm)

lemma update_row_same:
  assumes "ix_ok db" and "old \<in> set (ix_files db)" and "r\<lparr>fr_id := fr_id old, fr_path := fr_path old\<rparr> = old"
  shows "ix_files (update_row old r db) = ix_files db"
proof -
  have "map (\<lambda>x. if fr_id x = fr_id old then old else x) (ix_files db) = ix_files db"
    using assms(1,2) by (intro map_idI) (auto simp: ix_ok_def distinct_map inj_on_def)
  then show ?thesis unfolding update_row_files assms(3) .
qed

lemma step_accounts:
  assumes step: "db_step alloc db db'" and "ix_ok db" and ok: "journal_ok db" and j: "ix_has_journal db"
  shows "accounts db db'"
  using step
proof (cases rule: db_step.cases)
  case (step_insert r)
  show ?thesis
    unfolding step_insert insert_row_def Let_def
    by (rule record_change_accounts [OF ok j])
       (auto simp: row_with_id_def set_conflict_def dest: find_insort_changed)
next
  case (step_update old r)
  let ?new = "r\<lparr>fr_id := fr_id old, fr_path := fr_path old\<rparr>"
  show ?thesis
  proof (cases "?new = old")
    case True
    then have "update_row old r db = (set_conflict None db)\<lparr>ix_files := ix_files (update_row old r db)\<rparr>"
      by (simp add: update_row_def Let_def)
    then show ?thesis
      unfolding step_update using update_row_same [OF assms(2) step_update(2) True]
      by (intro other_accounts [OF ok]) (simp_all add: set_conflict_def)
  next
    case False
    then show ?thesis
      unfolding step_update update_row_def Let_def if_not_P [OF False]
      by (intro record_change_accounts [OF ok j])
         (auto simp: row_with_id_def set_conflict_def dest!: find_map_changed)
  qed
next
  case (step_delete i)
  show ?thesis
    unfolding step_delete delete_row_def
    by (rule record_change_accounts [OF ok j]) (auto simp: row_with_id_def dest: find_filter_changed)
qed (auto simp: set_conflict_def intro!: other_accounts [OF ok])


lemma step_ok:
  assumes step: "db_step alloc db db'" and ok: "ix_ok db" and a: "alloc_ok alloc"
  shows "ix_ok db'"
  using step
proof (cases rule: db_step.cases)
  case (step_insert r)
  then show ?thesis using insert_row_ok [OF ok a] by simp
next
  case (step_update old r)
  then show ?thesis using update_row_ok [OF ok] by simp
qed (use ok in \<open>simp_all add: ix_ok_def distinct_map_filter sorted_filter\<close>)

lemma steps_account:
  assumes steps: "(db_step alloc)\<^sup>*\<^sup>* db0 db" and a: "alloc_ok alloc"
    and ok: "ix_ok db0" "journal_ok db0" "ix_has_journal db0"
  shows "ix_ok db \<and> accounts db0 db"
  using steps
proof (induction rule: rtranclp_induct)
  case base
  show ?case using ok accounts_refl by simp
next
  case (step db1 db2)
  then have ok1: "ix_ok db1" and acc: "accounts db0 db1" by simp_all
  then have "journal_ok db1" "ix_has_journal db1" using ok(3) by (simp_all add: accounts_def)
  then have "accounts db1 db2" using step_accounts [OF step(2) ok1] by simp
  then show ?case using step_ok [OF step(2) ok1 a] accounts_trans [OF acc] by simp
qed

subsection \<open>The delta is exact\<close>

lemma insert_ids_set: "insert_ids m cs ids = Some ids' \<Longrightarrow> set ids' = set ids \<union> {i. Some i \<in> set cs}"
  by (induction m cs ids rule: insert_ids.induct)
     (auto simp: Let_def set_insert_def set_insort_key split: if_split_asm)

lemma read_events_Inr:
  "read_events m es previous ids = Inr (p, ids') \<Longrightarrow>
     set ids \<subseteq> set ids' \<and> (\<forall>e \<in> set es. entry_ids e \<subseteq> set ids') \<and>
     (\<forall>n. previous < n \<and> n \<le> p \<longrightarrow> n \<in> ce_revision ` set es)"
proof (induction m es previous ids rule: read_events.induct)
  case (2 m e es previous ids)
  obtain ids1 where ids1: "insert_ids m (entry_columns e) ids = Some ids1"
      and step: "\<not> ce_revision e - previous \<noteq> 1"
      and has_id: "\<not> list_all (\<lambda>c. c = None) (entry_columns e)"
      and rec: "read_events m es (ce_revision e) ids1 = Inr (p, ids')"
    using "2.prems" by (auto split: if_split_asm option.split_asm)
  have IH: "set ids1 \<subseteq> set ids' \<and> (\<forall>e \<in> set es. entry_ids e \<subseteq> set ids') \<and>
      (\<forall>n. ce_revision e < n \<and> n \<le> p \<longrightarrow> n \<in> ce_revision ` set es)"
    by (rule "2.IH" [OF step ids1 has_id rec])
  moreover have "n \<in> ce_revision ` set (e # es)" if "previous < n" "n \<le> p" for n
    using IH that step by (cases "n = ce_revision e") auto
  ultimately show ?case using insert_ids_set [OF ids1] by (simp add: entry_ids_def)
qed simp

lemma read_rows_Some:
  "read_rows ul m db ids b = Some cs \<Longrightarrow>
     cs = map (\<lambda>i. (i, map_option (row_to_record ul) (row_with_id db i))) ids"
  by (induction ul m db ids b arbitrary: cs rule: read_rows.induct)
     (auto split: option.split_asm if_split_asm)

text \<open>Applying a delta: a row that it names is replaced or removed, the others stay.\<close>

definition apply_changes :: "file_change list \<Rightarrow> (i64 \<Rightarrow> file_record option) \<Rightarrow> i64 \<Rightarrow> file_record option" where
  "apply_changes changes rows i = (case map_of changes i of Some c \<Rightarrow> c | None \<Rightarrow> rows i)"

definition rows_by_id :: "(str \<Rightarrow> str) \<Rightarrow> index_db \<Rightarrow> i64 \<Rightarrow> file_record option" where
  "rows_by_id ul db i = map_option (row_to_record ul) (row_with_id db i)"

lemma Available_parts:
  assumes "file_changes_since_with_byte_limit ul identity db base n k m = Available target changes"
  shows "target = content_stamp_of identity db" and "cs_revision base \<le> ix_revision db"
    and "cs_revision base = ix_revision db \<and> changes = [] \<or>
      (\<exists>ids. read_events k (journal_between db (cs_revision base) (ix_revision db)) (cs_revision base) [] =
          Inr (ix_revision db, ids) \<and>
        changes = map (\<lambda>i. (i, rows_by_id ul db i)) ids)"
  using assms
  by (auto simp: file_changes_since_with_byte_limit_def Let_def content_stamp_of_def
      rows_by_id_def dest: read_rows_Some split: if_split_asm sum.split_asm prod.split_asm option.split_asm)

lemma delta_accounts:
  assumes acc: "accounts db0 db"
    and "file_changes_since_with_byte_limit ul identity db (content_stamp_of identity db0) max_events max_ids max_bytes =
      Available target changes"
  shows "apply_changes changes (rows_by_id ul db0) = rows_by_id ul db"
proof -
  note parts = Available_parts [OF assms(2)]
  have base: "cs_revision (content_stamp_of identity db0) = ix_revision db0" by (simp add: content_stamp_of_def)
  have "apply_changes changes (rows_by_id ul db0) i = rows_by_id ul db i" for i
  proof (cases "row_with_id db i = row_with_id db0 i")
    case True
    have "map_of changes i = None \<or> map_of changes i = Some (rows_by_id ul db i)"
      using parts(3) by (auto simp: map_of_map_restrict restrict_map_def)
    then show ?thesis using True by (auto simp: apply_changes_def rows_by_id_def)
  next
    case False
    then obtain n where n: "ix_revision db0 < n" "n \<le> ix_revision db" "covers db i n"
      using accounts_change [OF acc] by blast
    then obtain ids where ids: "read_events max_ids (journal_between db (ix_revision db0) (ix_revision db)) (ix_revision db0) [] =
          Inr (ix_revision db, ids)" "changes = map (\<lambda>i. (i, rows_by_id ul db i)) ids"
      using parts(3) base by auto
    obtain e where e: "e \<in> set (journal_between db (ix_revision db0) (ix_revision db))" "ce_revision e = n"
      using read_events_Inr [OF ids(1)] n by blast
    have "journal_ok db" using acc by (simp add: accounts_def)
    then have "entry_at db n = Some e" using e by (simp add: entry_at_Some journal_between_def)
    then have "i \<in> entry_ids e" using n(3) by (simp add: covers_def)
    then have "i \<in> set ids" using read_events_Inr [OF ids(1)] e(1) by blast
    then show ?thesis by (simp add: apply_changes_def ids(2) map_of_map_restrict)
  qed
  then show ?thesis by (rule ext)
qed

lemma delta_rows:
  assumes "ix_ok db0" and "journal_ok db0" and "ix_has_journal db0" and "alloc_ok alloc"
    and "(db_step alloc)\<^sup>*\<^sup>* db0 db"
    and "file_changes_since_with_byte_limit ul identity db (content_stamp_of identity db0) max_events max_ids max_bytes =
      Available target changes"
  shows "apply_changes changes (rows_by_id ul db0) = rows_by_id ul db"
  using delta_accounts [OF _ assms(6)] steps_account [OF assms(5,4) assms(1-3)] by blast

text \<open>C6: A delta that the journal offers is exact: between the snapshot that the reader knows and the
  current one, whatever inserts, updates and deletes came in between, applying the returned
  changes to the rows of the old snapshot gives the rows of the new one, and the returned stamp
  is the new one. The journal may have been pruned meanwhile; then no delta is offered.\<close>

theorem journal_delta_sound:
  assumes "ix_ok db0" and "journal_ok db0" and "ix_has_journal db0" and "alloc_ok alloc"
    and "(db_step alloc)\<^sup>*\<^sup>* db0 db"
    and "file_changes_since_with_byte_limit ul identity db (content_stamp_of identity db0) max_events max_ids max_bytes =
      Available target changes"
  shows "target = content_stamp_of identity db \<and> apply_changes changes (rows_by_id ul db0) = rows_by_id ul db"
  using delta_rows [OF assms] Available_parts(1) [OF assms(6)] by blast

theorem journal_delta_sound_witness:
  "\<exists>changes. file_changes_since_with_byte_limit id (1, 2) (insert_row example_alloc (file_record_new id ''/a'' File 5) empty_db)
      (content_stamp_of (1, 2) empty_db) 10 10 100 =
        Available (content_stamp_of (1, 2) (insert_row example_alloc (file_record_new id ''/a'' File 5) empty_db)) changes \<and>
    apply_changes changes (\<lambda>_. None) = rows_by_id id (insert_row example_alloc (file_record_new id ''/a'' File 5) empty_db)"
proof -
  let ?db = "insert_row example_alloc (file_record_new id ''/a'' File 5) empty_db"
  have "row_with_path empty_db p = None" for p by (simp add: row_with_path_def empty_db_def)
  then have step: "(db_step example_alloc)\<^sup>*\<^sup>* empty_db ?db" by (intro r_into_rtranclp step_insert)
  have ok: "ix_ok empty_db" "journal_ok empty_db" "ix_has_journal empty_db"
    by (simp_all add: ix_ok_def journal_ok_def empty_db_def)
  have none: "rows_by_id id empty_db = (\<lambda>_. None)" by (auto simp: rows_by_id_def row_with_id_def empty_db_def)
  have "(case file_changes_since_with_byte_limit id (1, 2) ?db (content_stamp_of (1, 2) empty_db) 10 10 100 of
      Available _ _ \<Rightarrow> True | Fallback _ \<Rightarrow> False)" by code_simp
  then obtain target changes where
      res: "file_changes_since_with_byte_limit id (1, 2) ?db (content_stamp_of (1, 2) empty_db) 10 10 100 = Available target changes"
    by (auto split: file_change_read.splits)
  show ?thesis using journal_delta_sound [OF ok example_alloc_ok step res] res none by auto
qed

subsection \<open>The journal reaches far enough back\<close>

definition journal_full :: "index_db \<Rightarrow> bool" where
  "journal_full db \<longleftrightarrow>
     (\<forall>n. ix_floor db < n \<and> n \<le> ix_revision db \<longrightarrow> (\<exists>e. entry_at db n = Some e \<and> entry_ids e \<noteq> {}))"

lemma foldl_max_ge: "a \<le> foldl max a xs" "x \<in> set xs \<Longrightarrow> x \<le> foldl max a xs" for a :: int
  using foldl_max [of a xs] by simp_all

lemma foldl_max_le: "a \<le> m \<Longrightarrow> (\<And>x. x \<in> set xs \<Longrightarrow> x \<le> m) \<Longrightarrow> foldl max a xs \<le> m" for a :: int
  by (induction xs arbitrary: a) auto

lemma prune_changes_floor:
  "ix_floor db \<le> ix_floor (prune_changes n db)"
  "ix_floor (prune_changes n db) \<le> max (ix_floor db) (n - change_retention)"
  by (auto simp: prune_changes_def Let_def intro!: foldl_max_le)

lemma prune_changes_full:
  assumes full: "journal_full db" and ok: "journal_ok db"
  shows "journal_full (prune_changes n db)"
proof (cases "n mod change_prune_interval = 0")
  case True
  define P where "P = (\<lambda>e :: change_entry. \<not> ce_revision e \<le> n - change_retention)"
  have j: "ix_journal (prune_changes n db) = filter P (ix_journal db)"
    and fl: "ix_floor (prune_changes n db) = max (ix_floor db) (foldl max (ix_floor db)
        (filter (\<lambda>r. r \<le> n - change_retention) (map ce_revision (ix_journal db))))"
    using True by (simp_all add: prune_changes_def Let_def P_def)
  have ok': "journal_ok (prune_changes n db)"
    using ok by (auto simp: journal_ok_def j distinct_map_filter list_all_iff)
  show ?thesis
    unfolding journal_full_def
  proof (intro allI impI)
    fix k assume k: "ix_floor (prune_changes n db) < k \<and> k \<le> ix_revision (prune_changes n db)"
    then have "ix_floor db < k" "k \<le> ix_revision db" using prune_changes_floor(1) [of db n] by simp_all
    then obtain e where e: "entry_at db k = Some e" "entry_ids e \<noteq> {}" using full unfolding journal_full_def by blast
    have "e \<in> set (ix_journal db)" "ce_revision e = k" using e(1) by (simp_all add: entry_at_Some [OF ok])
    moreover have "\<not> k \<le> n - change_retention"
    proof
      assume "k \<le> n - change_retention"
      then have "k \<in> set (filter (\<lambda>r. r \<le> n - change_retention) (map ce_revision (ix_journal db)))"
        using calculation by auto
      then have "k \<le> ix_floor (prune_changes n db)" unfolding fl by (intro max.coboundedI2 foldl_max_ge(2))
      then show False using k by simp
    qed
    ultimately have "entry_at (prune_changes n db) k = Some e"
      by (simp add: entry_at_Some [OF ok'] j P_def)
    then show "\<exists>e. entry_at (prune_changes n db) k = Some e \<and> entry_ids e \<noteq> {}" using e(2) by blast
  qed
qed (use full in \<open>simp add: prune_changes_def\<close>)

lemma record_change_full:
  assumes full: "journal_full db" and ok: "journal_ok db" and ids: "old \<noteq> None \<or> new \<noteq> None" and j: "ix_has_journal db"
    and rest: "ix_journal db' = ix_journal db" "ix_revision db' = ix_revision db" "ix_floor db' = ix_floor db"
      "ix_has_journal db' = ix_has_journal db"
  shows "journal_full (record_change old new c db') \<and>
    ix_floor (record_change old new c db') \<le> max (ix_floor db) (ix_revision (record_change old new c db') - change_retention)"
proof -
  let ?n = "ix_revision db + 1"
  let ?e = "\<lparr>ce_revision = ?n, ce_old = old, ce_new = new, ce_conflict = c\<rparr>"
  define d where "d = db'\<lparr>ix_revision := ?n, ix_journal := ix_journal db @ [?e]\<rparr>"
  have ok_d: "journal_ok d" using ok by (force simp: journal_ok_def d_def list_all_iff)
  have "journal_full d"
    unfolding journal_full_def
  proof (intro allI impI)
    fix k assume k: "ix_floor d < k \<and> k \<le> ix_revision d"
    show "\<exists>e. entry_at d k = Some e \<and> entry_ids e \<noteq> {}"
    proof (cases "k = ?n")
      case True
      then have "entry_at d k = Some ?e" by (simp add: entry_at_Some [OF ok_d]) (simp add: d_def)
      then show ?thesis using ids by (auto simp: entry_ids_def entry_columns_def)
    next
      case False
      then have "ix_floor db < k \<and> k \<le> ix_revision db" using k rest by (simp add: d_def)
      then obtain e where e: "entry_at db k = Some e" "entry_ids e \<noteq> {}" using full unfolding journal_full_def by blast
      then have "entry_at d k = Some e" by (simp add: entry_at_Some [OF ok_d] entry_at_Some [OF ok]) (simp add: d_def)
      then show ?thesis using e(2) by blast
    qed
  qed
  then have "journal_full (prune_changes ?n d)" using ok_d by (rule prune_changes_full)
  moreover have "record_change old new c db' = prune_changes ?n d"
    using j rest by (simp add: record_change_def Let_def d_def)
  moreover have "ix_floor d = ix_floor db" "ix_revision d = ?n" using rest by (simp_all add: d_def)
  ultimately show ?thesis using prune_changes_floor(2) [where n = ?n and db = d] by simp
qed

lemma journal_full_cong:
  "journal_full db \<Longrightarrow> ix_journal db' = ix_journal db \<Longrightarrow> ix_revision db' = ix_revision db \<Longrightarrow>
     ix_floor db' = ix_floor db \<Longrightarrow> journal_full db'"
  by (simp add: journal_full_def entry_at_def)

lemma step_full:
  assumes step: "db_step alloc db db'" and full: "journal_full db" and ok: "journal_ok db" and j: "ix_has_journal db"
  shows "journal_full db' \<and> ix_floor db' \<le> max (ix_floor db) (ix_revision db' - change_retention)"
  using step
proof (cases rule: db_step.cases)
  case (step_insert r)
  show ?thesis
    unfolding step_insert insert_row_def Let_def
    by (rule record_change_full [OF full ok _ j]) (simp_all add: set_conflict_def)
next
  case (step_update old r)
  let ?new = "r\<lparr>fr_id := fr_id old, fr_path := fr_path old\<rparr>"
  let ?db1 = "(set_conflict None db)\<lparr>ix_files := map (\<lambda>x. if fr_id x = fr_id old then ?new else x) (ix_files db)\<rparr>"
  have same: "journal_full ?db1 \<and> ix_floor ?db1 \<le> max (ix_floor db) (ix_revision ?db1 - change_retention)"
    using journal_full_cong [OF full, of ?db1] by (simp add: set_conflict_def)
  have changed: "journal_full (record_change (Some (fr_id old)) (Some (fr_id old)) (ix_conflict ?db1) ?db1) \<and>
      ix_floor (record_change (Some (fr_id old)) (Some (fr_id old)) (ix_conflict ?db1) ?db1)
        \<le> max (ix_floor db) (ix_revision (record_change (Some (fr_id old)) (Some (fr_id old)) (ix_conflict ?db1) ?db1) - change_retention)"
    by (rule record_change_full [OF full ok _ j]) (simp_all add: set_conflict_def)
  show ?thesis
    unfolding step_update update_row_def Let_def using same changed by (cases "?new = old") simp_all
next
  case (step_delete i)
  show ?thesis
    unfolding step_delete delete_row_def
    by (rule record_change_full [OF full ok _ j]) simp_all
qed (use full in \<open>auto simp: set_conflict_def intro: journal_full_cong\<close>)

lemma steps_full:
  assumes steps: "(db_step alloc)\<^sup>*\<^sup>* db0 db" and a: "alloc_ok alloc"
    and ok: "ix_ok db0" "journal_ok db0" "ix_has_journal db0" and full: "journal_full db0"
  shows "journal_full db \<and> ix_floor db \<le> max (ix_floor db0) (ix_revision db - change_retention)"
  using steps
proof (induction rule: rtranclp_induct)
  case base
  show ?case using full by simp
next
  case (step db1 db2)
  have acc: "accounts db0 db1" and "ix_ok db1" using steps_account [OF step(1) a ok] by simp_all
  then have j: "journal_ok db1" "ix_has_journal db1" using ok(3) by (simp_all add: accounts_def)
  then have "ix_revision db1 \<le> ix_revision db2"
    using step_accounts [OF step(2) \<open>ix_ok db1\<close>] by (simp add: accounts_def)
  then show ?case using step_full [OF step(2) _ j] step.IH by auto
qed

lemma read_events_contiguous:
  assumes "map ce_revision es = [previous + 1..t]" and "previous \<le> t" and "\<forall>e \<in> set es. entry_ids e \<noteq> {}"
  shows "read_events m es previous ids = Inl ''id_limit'' \<or> (\<exists>ids'. read_events m es previous ids = Inr (t, ids'))"
  using assms
proof (induction m es previous ids rule: read_events.induct)
  case (1 m previous ids)
  then have "[previous + 1..t] = []" by simp
  then show ?case using 1(2) by simp
next
  case (2 m e es previous ids)
  have lt: "previous < t"
  proof (rule ccontr)
    assume "\<not> previous < t"
    then have "[previous + 1..t] = []" by simp
    then show False using "2.prems"(1) by simp
  qed
  then have "[previous + 1..t] = (previous + 1) # [previous + 1 + 1..t]" by (simp add: upto_rec1)
  then have es: "ce_revision e = previous + 1" "map ce_revision es = [ce_revision e + 1..t]"
    using "2.prems"(1) by auto
  have "\<not> list_all (\<lambda>c. c = None) (entry_columns e)"
    using "2.prems"(3) by (auto simp: entry_ids_def list_all_iff)
  then show ?case
    using "2.IH" es "2.prems"(3) lt by (auto split: option.splits)
qed

lemma journal_between_upto:
  assumes full: "journal_full db" and ok: "journal_ok db" and lo: "ix_floor db \<le> lo"
  shows "map ce_revision (journal_between db lo (ix_revision db)) = [lo + 1..ix_revision db]"
proof (rule sorted_distinct_set_unique)
  show "sorted (map ce_revision (journal_between db lo (ix_revision db)))" by (simp add: journal_between_def)
  show "distinct (map ce_revision (journal_between db lo (ix_revision db)))"
    using ok by (auto simp: journal_between_def journal_ok_def distinct_map intro: inj_on_subset)
  have "n \<in> ce_revision ` set (ix_journal db)" if "lo < n" "n \<le> ix_revision db" for n
  proof -
    have "ix_floor db < n" using lo that(1) by simp
    then obtain e where "entry_at db n = Some e"
      using full \<open>n \<le> ix_revision db\<close> unfolding journal_full_def by blast
    then show ?thesis by (auto simp: entry_at_Some [OF ok])
  qed
  then have "{n. lo < n \<and> n \<le> ix_revision db \<and> n \<in> ce_revision ` set (ix_journal db)} = {lo + 1..ix_revision db}"
    by (simp add: set_eq_iff) (meson add1_zle_eq)
  moreover have "set (map ce_revision (journal_between db lo (ix_revision db))) =
      {n. lo < n \<and> n \<le> ix_revision db \<and> n \<in> ce_revision ` set (ix_journal db)}"
    by (auto simp: journal_between_def)
  ultimately show "set (map ce_revision (journal_between db lo (ix_revision db))) = set [lo + 1..ix_revision db]"
    by simp
qed simp_all

text \<open>C7: A reader that is at most 4096 revisions behind is never sent to read everything for lack of
  history: pruning keeps the last 16384 revisions, each entry names a row, and the entries are
  consecutive, so the only reasons left are too many ids and too many bytes.\<close>

theorem journal_within_reach:
  assumes "ix_ok db0" and "journal_ok db0" and "ix_has_journal db0" and "alloc_ok alloc"
    and "journal_full db0" and "ix_floor db0 \<le> ix_revision db0" and "(db_step alloc)\<^sup>*\<^sup>* db0 db"
    and "ix_revision db - ix_revision db0 \<le> int (min max_events max_file_change_batch)"
  shows "case file_changes_since ul identity db (content_stamp_of identity db0) max_events max_ids of
      Available target changes \<Rightarrow> target = content_stamp_of identity db
    | Fallback reason \<Rightarrow> reason = ''id_limit'' \<or> reason = ''byte_limit''"
proof -
  have acc: "accounts db0 db" using steps_account [OF assms(7,4,1,2,3)] by simp
  then have ok: "journal_ok db" and j: "ix_has_journal db" and same: "ix_database_id db = ix_database_id db0"
    and le: "ix_revision db0 \<le> ix_revision db" using assms(3) by (simp_all add: accounts_def)
  have full: "journal_full db" and "ix_floor db \<le> max (ix_floor db0) (ix_revision db - change_retention)"
    using steps_full [OF assms(7,4,1,2,3,5)] by simp_all
  moreover have "int (min max_events max_file_change_batch) \<le> 4096"
    by (simp add: max_file_change_batch_def)
  ultimately have fl: "ix_floor db \<le> ix_revision db0"
    using assms(6,8) by (simp add: change_retention_def)
  let ?es = "journal_between db (ix_revision db0) (ix_revision db)"
  have up: "map ce_revision ?es = [ix_revision db0 + 1..ix_revision db]"
    by (rule journal_between_upto [OF full ok fl])
  have "entry_ids e \<noteq> {}" if "e \<in> set ?es" for e
  proof -
    have "e \<in> set (ix_journal db)" "ix_floor db < ce_revision e" "ce_revision e \<le> ix_revision db"
      using that fl by (auto simp: journal_between_def)
    then show ?thesis
      using full unfolding journal_full_def by (metis entry_at_Some [OF ok] option.inject)
  qed
  then have ev: "read_events max_ids ?es (ix_revision db0) [] = Inl ''id_limit'' \<or>
      (\<exists>ids'. read_events max_ids ?es (ix_revision db0) [] = Inr (ix_revision db, ids'))"
    using read_events_contiguous [OF up le] by blast
  have "\<not> int (min max_events max_file_change_batch) < ix_revision db - ix_revision db0" using assms(8) by simp
  then show ?thesis
    using j same le fl ev
    unfolding file_changes_since_def file_changes_since_with_byte_limit_def content_stamp_of_def Let_def
    by (auto split: option.split)
qed

theorem journal_within_reach_witness:
  "case file_changes_since id (1, 2) (insert_row example_alloc (file_record_new id ''/a'' File 5) empty_db)
      (content_stamp_of (1, 2) empty_db) 10 10 of
      Available target changes \<Rightarrow>
        target = content_stamp_of (1, 2) (insert_row example_alloc (file_record_new id ''/a'' File 5) empty_db)
    | Fallback reason \<Rightarrow> reason = ''id_limit'' \<or> reason = ''byte_limit''"
proof -
  let ?db = "insert_row example_alloc (file_record_new id ''/a'' File 5) empty_db"
  have "row_with_path empty_db p = None" for p by (simp add: row_with_path_def empty_db_def)
  then have step: "(db_step example_alloc)\<^sup>*\<^sup>* empty_db ?db" by (intro r_into_rtranclp step_insert)
  have ok: "ix_ok empty_db" "journal_ok empty_db" "ix_has_journal empty_db" "journal_full empty_db"
      "ix_floor empty_db \<le> ix_revision empty_db"
    by (auto simp: ix_ok_def journal_ok_def empty_db_def journal_full_def)
  have "ix_revision ?db - ix_revision empty_db = 1" by code_simp
  then have reach: "ix_revision ?db - ix_revision empty_db \<le> int (min 10 max_file_change_batch)"
    by (simp add: max_file_change_batch_def)
  show ?thesis by (rule journal_within_reach [OF ok(1-3) example_alloc_ok ok(4,5) step reach])
qed

end
