(* ===== verification/Compact_Index.thy ===== *)
theory Compact_Index
  imports Packed_Row Packed_Metadata Prefix_Pool Top_Hits Change_Journal
begin

text \<open>
  \<open>CompactIndex\<close> of \<open>src/src/compact_index.rs\<close>: the rows of the database packed into blocks of
  records and metadata, arenas of text and a pool of shared parent directories; how it is
  built, changed by a batch of row changes, compared with the database, searched and read
  back.

  The environment is the allocator, the hasher of the pool, the Unicode tables, and, for the
  comparison of paths in two pieces, the memory and the addresses of the texts of the pool. \<open>None\<close> is \<open>Err\<close> (a failed allocation, a number that does not fit) or a panic.
\<close>

record packed_env =
  pe_alloc :: allocator
  pe_hash :: "str \<Rightarrow> usize"
  pe_lower :: "str \<Rightarrow> str"
  pe_memory :: memory
  pe_address :: "u32 \<Rightarrow> usize"

definition initial_arena_bytes :: usize where "initial_arena_bytes = 64 * 1024"
definition arena_bytes_default :: usize where "arena_bytes_default = 64 * 1024 * 1024"
definition records_per_block_default :: usize where "records_per_block_default = 64 * 1024"
definition prefix_pool_limit :: usize where "prefix_pool_limit = 64 * 1024 * 1024"
definition min_prefix_bytes :: usize where "min_prefix_bytes = 16"
definition max_dead_string_bytes :: usize where "max_dead_string_bytes = 32 * 1024 * 1024"
definition max_extension_growth_bytes :: usize where "max_extension_growth_bytes = 4 * 1024 * 1024"

record arena =
  ar_text :: str
  ar_capacity :: usize

record fragmentation_stats =
  fs_dead_records :: usize
  fs_dead_string_bytes :: usize
  fs_extension_growth_bytes :: usize

record compact_index =
  ci_arenas :: "arena list"
  ci_records :: "compact_record list list"
  ci_metadata :: "metadata_block list"
  ci_extensions :: "str list"
  ci_prefixes :: prefix_pool
  ci_len :: usize
  ci_physical_len :: usize
  ci_records_per_block :: usize
  ci_arena_bytes :: usize
  ci_ids_sorted :: bool
  ci_fragmentation :: fragmentation_stats

definition compact_index_default :: compact_index where
  "compact_index_default =
     \<lparr>ci_arenas = [], ci_records = [], ci_metadata = [], ci_extensions = [],
      ci_prefixes = prefix_pool_new prefix_pool_limit, ci_len = 0, ci_physical_len = 0,
      ci_records_per_block = records_per_block_default, ci_arena_bytes = arena_bytes_default,
      ci_ids_sorted = True,
      ci_fragmentation = \<lparr>fs_dead_records = 0, fs_dead_string_bytes = 0, fs_extension_growth_bytes = 0\<rparr>\<rparr>"

subsection \<open>Reading\<close>

definition record_at :: "compact_index \<Rightarrow> usize \<Rightarrow> compact_record option" where
  "record_at ix index =
     do {
       block \<leftarrow> vec_get (ci_records ix) (index div ci_records_per_block ix);
       vec_get block (index mod ci_records_per_block ix)
     }"

definition get_text :: "compact_index \<Rightarrow> compact_record \<Rightarrow> slice \<Rightarrow> str option" where
  "get_text ix r s =
     do { a \<leftarrow> vec_get (ci_arenas ix) (cr_arena r); str_slice (ar_text a) (sl_start s) (sl_len s) }"

definition ext_of :: "compact_index \<Rightarrow> compact_record \<Rightarrow> str option option" where
  "ext_of ix r =
     (if cr_ext r = no_extension then Some None
      else map_option Some (vec_get (ci_extensions ix) (unat (cr_ext r))))"

definition path_suffix_slice :: "compact_index \<Rightarrow> compact_record \<Rightarrow> slice option" where
  "path_suffix_slice ix r =
     do {
       p \<leftarrow> pool_get (ci_prefixes ix) (cr_prefix r);
       len \<leftarrow> checked_sub (sl_len (cr_path r)) (length p);
       Some \<lparr>sl_start = sl_start (cr_path r), sl_len = len\<rparr>
     }"

definition index_basename_slice :: "compact_index \<Rightarrow> compact_record \<Rightarrow> slice option" where
  "index_basename_slice ix r = Option.bind (path_suffix_slice ix r) (record_basename_slice r)"

definition index_basename_lower_slice :: "compact_index \<Rightarrow> compact_record \<Rightarrow> slice option" where
  "index_basename_lower_slice ix r =
     (if drop_bit 2 (cr_basename_parents r) = 0 then slice_suffix (cr_path_lower r) (cr_basename_lower_len r)
      else Option.bind (path_suffix_slice ix r) (record_basename_lower_slice r))"

definition path_parts :: "compact_index \<Rightarrow> compact_record \<Rightarrow> (str \<times> str) option" where
  "path_parts ix r =
     do {
       p \<leftarrow> pool_get (ci_prefixes ix) (cr_prefix r);
       s \<leftarrow> path_suffix_slice ix r;
       rest \<leftarrow> get_text ix r s;
       Some (p, rest)
     }"

definition original_path :: "compact_index \<Rightarrow> compact_record \<Rightarrow> str option" where
  "original_path ix r = map_option (\<lambda>(p, rest). p @ rest) (path_parts ix r)"

definition metadata_value :: "compact_index \<Rightarrow> usize \<Rightarrow> usize \<Rightarrow> i64 option" where
  "metadata_value ix index field =
     do {
       b \<leftarrow> vec_get (ci_metadata ix) (index div ci_records_per_block ix);
       block_value b (index mod ci_records_per_block ix) field
     }"

definition optional_metadata :: "compact_index \<Rightarrow> usize \<Rightarrow> compact_record \<Rightarrow> usize \<Rightarrow> i64 option option" where
  "optional_metadata ix index r field =
     (if cr_present r AND push_bit field 1 \<noteq> 0 then map_option Some (metadata_value ix index field) else Some None)"

definition to_file_record :: "compact_index \<Rightarrow> usize \<Rightarrow> file_record option" where
  "to_file_record ix index =
     do {
       r \<leftarrow> record_at ix index;
       path_suffix \<leftarrow> path_suffix_slice ix r;
       path \<leftarrow> original_path ix r;
       path_lower \<leftarrow> get_text ix r (cr_path_lower r);
       bs \<leftarrow> record_basename_slice r path_suffix;
       basename \<leftarrow> get_text ix r bs;
       ls \<leftarrow> record_basename_lower_slice r path_suffix;
       basename_lower \<leftarrow> get_text ix r ls;
       ext_lower \<leftarrow> ext_of ix r;
       size' \<leftarrow> optional_metadata ix index r 0;
       mtime \<leftarrow> optional_metadata ix index r 1;
       ctime \<leftarrow> optional_metadata ix index r 2;
       dev \<leftarrow> optional_metadata ix index r 3;
       inode \<leftarrow> optional_metadata ix index r 4;
       indexed_at \<leftarrow> metadata_value ix index 5;
       Some \<lparr>fr_id = cr_id r, fr_path = path, fr_path_lower = path_lower, fr_basename = basename,
             fr_basename_lower = basename_lower, fr_ext_lower = ext_lower, fr_kind = cr_kind r,
             fr_size = size', fr_mtime = mtime, fr_ctime = ctime, fr_dev = dev, fr_inode = inode,
             fr_indexed_at = indexed_at\<rparr>
     }"

subsection \<open>Packing a row\<close>

text \<open>\<open>reserve_row\<close>: the arena for a row of so many bytes, a new one when the last is too full.\<close>

definition reserve_row :: "packed_env \<Rightarrow> usize \<Rightarrow> compact_index \<Rightarrow> (usize \<times> compact_index) option" where
  "reserve_row env bytes ix =
     do {
       let needs_block = (case ci_arenas ix of [] \<Rightarrow> True
             | as \<Rightarrow> ci_arena_bytes ix - length (ar_text (last as)) < bytes);
       as \<leftarrow> (if needs_block
               then if u32_max < length (ci_arenas ix) then None
                    else Some (ci_arenas ix @ [\<lparr>ar_text = [], ar_capacity = 0\<rparr>])
               else Some (ci_arenas ix));
       let i = length as - 1;
       a \<leftarrow> vec_get as i;
       needed \<leftarrow> checked_add (length (ar_text a)) bytes;
       _ \<leftarrow> slice_checked 0 needed;
       capacity \<leftarrow> (if ar_capacity a < needed
         then do {
           let capacity = min (max (max needed (saturating_mul (ar_capacity a) 2)) (min initial_arena_bytes (ci_arena_bytes ix)))
                             (max (ci_arena_bytes ix) needed);
           more \<leftarrow> checked_sub capacity (length (ar_text a));
           try_reserve (pe_alloc env) (ar_capacity a) (length (ar_text a) + more)
         }
         else Some (ar_capacity a));
       Some (i, ix\<lparr>ci_arenas := as[i := a\<lparr>ar_capacity := capacity\<rparr>]\<rparr>)
     }"

text \<open>
  The loop that places the texts of a row: the texts, their parents, the slices so far and the
  arena.
\<close>

fun place_texts :: "str list \<Rightarrow> usize option list \<Rightarrow> str list \<Rightarrow> slice list \<Rightarrow> str \<Rightarrow> (slice list \<times> str) option" where
  "place_texts texts (p # ps) (v # vs) slices arena_text =
     do {
       (s, arena_text') \<leftarrow>
         (case p of
            Some parent \<Rightarrow> do {
              ps \<leftarrow> vec_get slices parent;
              pv \<leftarrow> vec_get texts parent;
              start \<leftarrow> checked_sub (sl_start ps + length pv) (length v);
              s \<leftarrow> slice_checked start (length v);
              Some (s, arena_text)
            }
          | None \<Rightarrow> do {
              s \<leftarrow> slice_checked (length arena_text) (length v);
              Some (s, arena_text @ v)
            });
       place_texts texts ps vs (slices @ [s]) arena_text'
     }"
| "place_texts texts _ _ slices arena_text = Some (slices, arena_text)"

definition rfind_slash :: "str \<Rightarrow> usize option" where
  "rfind_slash s = map_option (\<lambda>i. length s - 1 - i) (position (\<lambda>c. c = CHR ''/'') (rev s))"

text \<open>The shared parent directory of a path that is not its own lowercase form, if it is long enough.\<close>

definition pack_prefix :: "packed_env \<Rightarrow> str \<Rightarrow> str \<Rightarrow> u32 option \<Rightarrow> prefix_pool \<Rightarrow> (u32 \<times> prefix_pool) option" where
  "pack_prefix env path lowered hint pool =
     (if path = lowered then Some (no_prefix, pool)
      else case rfind_slash path of
             None \<Rightarrow> Some (no_prefix, pool)
           | Some offset \<Rightarrow>
               if offset + 1 < min_prefix_bytes then Some (no_prefix, pool)
               else do {
                 parent \<leftarrow> str_slice path 0 (offset + 1);
                 case hint of
                   Some i \<Rightarrow>
                     if vec_get (pp_values pool) (unat i) = Some parent then Some (i, pool)
                     else map_option (map_prod (\<lambda>r. case r of Some i \<Rightarrow> i | None \<Rightarrow> no_prefix) id)
                            (intern (pe_hash env) (pe_alloc env) parent pool)
                 | None \<Rightarrow> map_option (map_prod (\<lambda>r. case r of Some i \<Rightarrow> i | None \<Rightarrow> no_prefix) id)
                            (intern (pe_hash env) (pe_alloc env) parent pool)
               })"

definition pack_record ::
  "packed_env \<Rightarrow> db_record \<Rightarrow> str \<Rightarrow> u32 \<Rightarrow> u32 option \<Rightarrow> compact_index \<Rightarrow> (compact_record \<times> compact_index) option"
where
  "pack_record env r lowered ext_id hint ix =
     do {
       (prefix_id, pool) \<leftarrow> pack_prefix env (dr_path r) lowered hint (ci_prefixes ix);
       let ix1 = ix\<lparr>ci_prefixes := pool\<rparr>;
       prefix_text \<leftarrow> pool_get pool prefix_id;
       rest_len \<leftarrow> checked_sub (length (dr_path r)) (length prefix_text);
       rest \<leftarrow> str_slice (dr_path r) (length prefix_text) rest_len;
       let texts = [lowered, rest, dr_basename r, dr_basename_lower r];
       layout \<leftarrow> row_layout_new texts;
       (arena_id, ix2) \<leftarrow> reserve_row env (rl_required layout) ix1;
       a \<leftarrow> vec_get (ci_arenas ix2) arena_id;
       (slices, arena_text) \<leftarrow> place_texts texts (rl_parents layout) texts [] (ar_text a);
       let ix3 = ix2\<lparr>ci_arenas := (ci_arenas ix2)[arena_id := a\<lparr>ar_text := arena_text\<rparr>]\<rparr>;
       if u32_max < length (dr_path r) \<or> u32_max < arena_id then None
       else Some
         (record_update_metadata r ext_id
            \<lparr>cr_id = dr_id r,
             cr_path = \<lparr>sl_start = sl_start (slices ! 1), sl_len = length (dr_path r)\<rparr>,
             cr_path_lower = slices ! 0, cr_basename_len = sl_len (slices ! 2),
             cr_basename_lower_len = sl_len (slices ! 3), cr_arena = arena_id, cr_ext = ext_id,
             cr_prefix = prefix_id, cr_kind = dr_kind r, cr_present = 0,
             cr_basename_parents = layout_basename_parents layout\<rparr>, ix3)
     }"

text \<open>
  The extension dictionary. While an index is built a map finds an extension; the map holds
  exactly the dictionary, so both variants look for the same entry.
\<close>

definition intern_extension :: "packed_env \<Rightarrow> str option \<Rightarrow> compact_index \<Rightarrow> (u32 \<times> compact_index) option" where
  "intern_extension env e ix =
     (case e of
        None \<Rightarrow> Some (no_extension, ix)
      | Some v \<Rightarrow>
          (case position (\<lambda>x. x = v) (ci_extensions ix) of
             Some i \<Rightarrow> Some (word_of_nat i, ix)
           | None \<Rightarrow>
               let n = length (ci_extensions ix)
               in if u32_max \<le> n then None
                  else do {
                    _ \<leftarrow> pe_alloc env (n + 1);
                    Some (word_of_nat n, ix\<lparr>ci_extensions := ci_extensions ix @ [v]\<rparr>)
                  }))"

definition append_record :: "packed_env \<Rightarrow> compact_record \<Rightarrow> i64 option list \<Rightarrow> compact_index \<Rightarrow> compact_index option" where
  "append_record env packed metadata ix =
     do {
       sorted' \<leftarrow> (if 0 < ci_physical_len ix
         then map_option (\<lambda>r. ci_ids_sorted ix \<and> \<not> cr_id packed \<le> cr_id r) (record_at ix (ci_physical_len ix - 1))
         else Some (ci_ids_sorted ix));
       (records, blocks) \<leftarrow>
         (if ci_records ix = [] \<or> length (last (ci_records ix)) = ci_records_per_block ix
          then do {
            capacity \<leftarrow> try_reserve (pe_alloc env) 0 (ci_records_per_block ix);
            b \<leftarrow> metadata_block_new (pe_alloc env) capacity;
            Some (ci_records ix @ [[]], ci_metadata ix @ [b])
          }
          else Some (ci_records ix, ci_metadata ix));
       if blocks = [] then None
       else do {
         b \<leftarrow> block_push (pe_alloc env) metadata (last blocks);
         len \<leftarrow> checked_add (ci_len ix) 1;
         physical_len \<leftarrow> checked_add (ci_physical_len ix) 1;
         Some (ix\<lparr>ci_records := butlast records @ [last records @ [packed]],
                  ci_metadata := butlast blocks @ [b], ci_len := len, ci_physical_len := physical_len,
                  ci_ids_sorted := sorted'\<rparr>)
       }
     }"

subsection \<open>Building\<close>

text \<open>\<open>IndexBuilder\<close>: the index and the last prefix, a hint for the next row.\<close>

record index_builder =
  ib_index :: compact_index
  ib_last_prefix :: "u32 option"

definition index_builder_new :: "usize \<Rightarrow> usize \<Rightarrow> index_builder" where
  "index_builder_new arena_bytes records_per_block =
     \<lparr>ib_index = compact_index_default\<lparr>ci_records_per_block := records_per_block, ci_arena_bytes := arena_bytes\<rparr>,
      ib_last_prefix = None\<rparr>"

definition builder_push :: "packed_env \<Rightarrow> db_record \<Rightarrow> index_builder \<Rightarrow> index_builder option" where
  "builder_push env r self =
     do {
       lowered \<leftarrow> row_text_new (pe_lower env) r;
       (e, ix1) \<leftarrow> intern_extension env (dr_ext_lower r) (ib_index self);
       (packed, ix2) \<leftarrow> pack_record env r lowered e (ib_last_prefix self) ix1;
       ix3 \<leftarrow> append_record env packed (metadata_input_of r) ix2;
       Some \<lparr>ib_index = ix3,
             ib_last_prefix = (if cr_prefix packed \<noteq> no_prefix then Some (cr_prefix packed) else ib_last_prefix self)\<rparr>
     }"

fun builder_push_all :: "packed_env \<Rightarrow> db_record list \<Rightarrow> index_builder \<Rightarrow> index_builder option" where
  "builder_push_all env [] self = Some self"
| "builder_push_all env (r # rs) self = Option.bind (builder_push env r self) (builder_push_all env rs)"

definition compact_index_load :: "packed_env \<Rightarrow> db_record list \<Rightarrow> compact_index option" where
  "compact_index_load env refs =
     map_option ib_index
       (builder_push_all env refs (index_builder_new arena_bytes_default records_per_block_default))"

subsection \<open>Applying changes\<close>

definition set_record_at :: "usize \<Rightarrow> compact_record \<Rightarrow> compact_index \<Rightarrow> compact_index option" where
  "set_record_at index r ix =
     do {
       block \<leftarrow> vec_get (ci_records ix) (index div ci_records_per_block ix);
       block' \<leftarrow> vec_set block (index mod ci_records_per_block ix) r;
       blocks \<leftarrow> vec_set (ci_records ix) (index div ci_records_per_block ix) block';
       Some (ix\<lparr>ci_records := blocks\<rparr>)
     }"

definition index_update_metadata :: "packed_env \<Rightarrow> usize \<Rightarrow> db_record \<Rightarrow> compact_index \<Rightarrow> compact_index option" where
  "index_update_metadata env index r ix =
     do {
       b \<leftarrow> vec_get (ci_metadata ix) (index div ci_records_per_block ix);
       b' \<leftarrow> block_update (pe_alloc env) (index mod ci_records_per_block ix) (metadata_input_of r) b;
       Some (ix\<lparr>ci_metadata := (ci_metadata ix)[index div ci_records_per_block ix := b']\<rparr>)
     }"

text \<open>The binary search of \<open>find_id\<close>; the outer \<open>None\<close> would be an index out of range.\<close>

function find_id_loop :: "compact_index \<Rightarrow> i64 \<Rightarrow> usize \<Rightarrow> usize \<Rightarrow> usize option option" where
  "find_id_loop ix i low high =
     (if low < high
      then let middle = low + (high - low) div 2
           in case record_at ix middle of
                None \<Rightarrow> None
              | Some r \<Rightarrow>
                  (case cmp_of (cr_id r) i of
                     Less \<Rightarrow> find_id_loop ix i (middle + 1) high
                   | Greater \<Rightarrow> find_id_loop ix i low middle
                   | Equal \<Rightarrow> Some (Some middle))
      else Some None)"
  by pat_completeness auto

termination by (relation "measure (\<lambda>(_, _, low, high). high - low)") auto

declare find_id_loop.simps [simp del]

definition find_id :: "compact_index \<Rightarrow> i64 \<Rightarrow> usize option option" where
  "find_id ix i = find_id_loop ix i 0 (ci_physical_len ix)"

definition path_view_of :: "packed_env \<Rightarrow> compact_index \<Rightarrow> compact_record \<Rightarrow> path_view option" where
  "path_view_of env ix r =
     map_option (\<lambda>(p, rest). \<lparr>pv_ptr = pe_address env (cr_prefix r), pv_prefix_len = length p, pv_suffix = rest\<rparr>)
       (path_parts ix r)"

definition same_strings :: "packed_env \<Rightarrow> compact_index \<Rightarrow> compact_record \<Rightarrow> db_record \<Rightarrow> str \<Rightarrow> bool option" where
  "same_strings env ix old r lowered =
     do {
       v \<leftarrow> path_view_of env ix old;
       order \<leftarrow> path_view_cmp (pe_memory env) v (path_view_from (dr_path r));
       if order \<noteq> Equal then Some False
       else do {
         lower \<leftarrow> get_text ix old (cr_path_lower old);
         if lower \<noteq> lowered then Some False
         else do {
           bs \<leftarrow> index_basename_slice ix old;
           basename \<leftarrow> get_text ix old bs;
           if basename \<noteq> dr_basename r then Some False
           else do {
             ls \<leftarrow> index_basename_lower_slice ix old;
             basename_lower \<leftarrow> get_text ix old ls;
             Some (basename_lower = dr_basename_lower r)
           }
         }
       }
     }"

definition row_string_bytes :: "compact_index \<Rightarrow> compact_record \<Rightarrow> usize option" where
  "row_string_bytes ix r =
     do {
       path \<leftarrow> path_suffix_slice ix r;
       basename \<leftarrow> record_basename_slice r path;
       basename_lower \<leftarrow> record_basename_lower_slice r path;
       let slices = [path, cr_path_lower r, basename, basename_lower];
       checked_sub (Max (set (map slice_end slices))) (Min (set (map sl_start slices)))
     }"

definition borrow_record :: "file_record \<Rightarrow> db_record" where
  "borrow_record r =
     \<lparr>dr_id = fr_id r, dr_path = fr_path r, dr_path_lower = Some (fr_path_lower r),
      dr_basename = fr_basename r, dr_basename_lower = fr_basename_lower r,
      dr_ext_lower = fr_ext_lower r, dr_kind = fr_kind r, dr_size = fr_size r,
      dr_mtime = fr_mtime r, dr_ctime = fr_ctime r, dr_dev = fr_dev r, dr_inode = fr_inode r,
      dr_indexed_at = fr_indexed_at r\<rparr>"

datatype apply_outcome = Applied | NeedsFullReload str

record delta_limits =
  dl_dead_strings :: usize
  dl_dead_records :: usize
  dl_extension_growth :: usize

text \<open>The state of the first loop: the last id, the counters after the batch, and new extensions.\<close>

record plan_state =
  pl_previous :: "i64 option"
  pl_fragmentation :: fragmentation_stats
  pl_len :: usize
  pl_new_extensions :: "str list"

type_synonym delta_plan = "usize option \<times> str option"

definition count_string_bytes ::
  "compact_index \<Rightarrow> compact_record \<Rightarrow> plan_state \<Rightarrow> plan_state option" where
  "count_string_bytes ix old st =
     do {
       n \<leftarrow> row_string_bytes ix old;
       bytes \<leftarrow> checked_add (fs_dead_string_bytes (pl_fragmentation st)) n;
       Some (st\<lparr>pl_fragmentation := pl_fragmentation st\<lparr>fs_dead_string_bytes := bytes\<rparr>\<rparr>)
     }"

definition count_row :: "compact_index \<Rightarrow> compact_record option \<Rightarrow> bool \<Rightarrow> plan_state \<Rightarrow> plan_state option" where
  "count_row ix old unchanged st =
     (case old of
        None \<Rightarrow> map_option (\<lambda>n. st\<lparr>pl_len := n\<rparr>) (checked_add (pl_len st) 1)
      | Some r \<Rightarrow>
          if \<not> is_live r
          then do {
            dead \<leftarrow> checked_sub (fs_dead_records (pl_fragmentation st)) 1;
            n \<leftarrow> checked_add (pl_len st) 1;
            bytes \<leftarrow> (if unchanged
              then Option.bind (row_string_bytes ix r) (checked_sub (fs_dead_string_bytes (pl_fragmentation st)))
              else Some (fs_dead_string_bytes (pl_fragmentation st)));
            Some (st\<lparr>pl_len := n, pl_fragmentation := pl_fragmentation st\<lparr>fs_dead_records := dead, fs_dead_string_bytes := bytes\<rparr>\<rparr>)
          }
          else if \<not> unchanged then count_string_bytes ix r st
          else Some st)"

definition count_extension :: "compact_index \<Rightarrow> str option \<Rightarrow> plan_state \<Rightarrow> plan_state option" where
  "count_extension ix e st =
     (case e of
        None \<Rightarrow> Some st
      | Some x \<Rightarrow>
          if x \<in> set (ci_extensions ix) \<or> x \<in> set (pl_new_extensions st) then Some st
          else do {
            bytes \<leftarrow> checked_add (fs_extension_growth_bytes (pl_fragmentation st)) (saturating_add (length x) box_bytes);
            Some (st\<lparr>pl_new_extensions := x # pl_new_extensions st,
                     pl_fragmentation := pl_fragmentation st\<lparr>fs_extension_growth_bytes := bytes\<rparr>\<rparr>)
          })"

definition count_delete :: "compact_index \<Rightarrow> compact_record option \<Rightarrow> plan_state \<Rightarrow> plan_state option" where
  "count_delete ix old st =
     (case old of
        Some r \<Rightarrow>
          if is_live r
          then do {
            st1 \<leftarrow> count_string_bytes ix r
              (st\<lparr>pl_fragmentation := pl_fragmentation st\<lparr>fs_dead_records := fs_dead_records (pl_fragmentation st) + 1\<rparr>\<rparr>);
            n \<leftarrow> checked_sub (pl_len st1) 1;
            Some (st1\<lparr>pl_len := n\<rparr>)
          }
          else Some st
      | None \<Rightarrow> Some st)"

text \<open>One turn of the first loop; \<open>Inl\<close> is a return with \<open>NeedsFullReload\<close>.\<close>

definition plan_change ::
  "packed_env \<Rightarrow> compact_index \<Rightarrow> i64 option \<Rightarrow> file_change \<Rightarrow> plan_state \<Rightarrow> (str + plan_state \<times> delta_plan) option"
where
  "plan_change env ix last_id change st0 =
     (let i = fst change
      in if (case pl_previous st0 of Some p \<Rightarrow> i \<le> p | None \<Rightarrow> False) then None
         else if (case snd change of Some r \<Rightarrow> fr_id r \<noteq> i | None \<Rightarrow> False) then None
         else do {
           let st = st0\<lparr>pl_previous := Some i\<rparr>;
           slot \<leftarrow> find_id ix i;
           old \<leftarrow> (case slot of Some s \<Rightarrow> map_option Some (record_at ix s) | None \<Rightarrow> Some None);
           case snd change of
             Some r \<Rightarrow>
               if old = None \<and> (case last_id of Some l \<Rightarrow> i < l | None \<Rightarrow> False)
               then Some (Inl ''new non-monotonic record ID'')
               else do {
                 lowered \<leftarrow> row_text_new (pe_lower env) (borrow_record r);
                 unchanged \<leftarrow> (case old of Some o' \<Rightarrow> same_strings env ix o' (borrow_record r) lowered | None \<Rightarrow> Some False);
                 st1 \<leftarrow> count_row ix old unchanged st;
                 st2 \<leftarrow> count_extension ix (fr_ext_lower r) st1;
                 Some (Inr (st2, (slot, if unchanged then None else Some lowered)))
               }
           | None \<Rightarrow> map_option (\<lambda>st1. Inr (st1, (slot, None))) (count_delete ix old st)
         })"

fun plan_changes ::
  "packed_env \<Rightarrow> compact_index \<Rightarrow> i64 option \<Rightarrow> file_change list \<Rightarrow> plan_state \<Rightarrow> (str + plan_state \<times> delta_plan list) option"
where
  "plan_changes env ix last_id [] st = Some (Inr (st, []))"
| "plan_changes env ix last_id (c # cs) st =
     do {
       step \<leftarrow> plan_change env ix last_id c st;
       case step of
         Inl reason \<Rightarrow> Some (Inl reason)
       | Inr (st1, p) \<Rightarrow>
           map_option (\<lambda>r. case r of Inl reason \<Rightarrow> Inl reason | Inr (st2, ps) \<Rightarrow> Inr (st2, p # ps))
             (plan_changes env ix last_id cs st1)
     }"

text \<open>One turn of the second loop, which changes the index.\<close>

definition execute_change :: "packed_env \<Rightarrow> file_change \<Rightarrow> delta_plan \<Rightarrow> compact_index \<Rightarrow> compact_index option" where
  "execute_change env change plan ix =
     (case snd change of
        Some r \<Rightarrow> do {
          let d = borrow_record r;
          (e, ix1) \<leftarrow> intern_extension env (dr_ext_lower d) ix;
          case snd plan of
            Some lowered \<Rightarrow> do {
              (packed, ix2) \<leftarrow> pack_record env d lowered e None ix1;
              case fst plan of
                Some slot \<Rightarrow> Option.bind (index_update_metadata env slot d ix2) (set_record_at slot packed)
              | None \<Rightarrow> append_record env packed (metadata_input_of d) ix2
            }
          | None \<Rightarrow> do {
              slot \<leftarrow> fst plan;
              ix2 \<leftarrow> index_update_metadata env slot d ix1;
              old \<leftarrow> record_at ix2 slot;
              set_record_at slot (record_update_metadata d e old) ix2
            }
        }
      | None \<Rightarrow>
          (case fst plan of
             Some slot \<Rightarrow> do {
               old \<leftarrow> record_at ix slot;
               set_record_at slot (old\<lparr>cr_present := cr_present old OR tombstone\<rparr>) ix
             }
           | None \<Rightarrow> Some ix))"

fun execute_changes :: "packed_env \<Rightarrow> (file_change \<times> delta_plan) list \<Rightarrow> compact_index \<Rightarrow> compact_index option" where
  "execute_changes env [] ix = Some ix"
| "execute_changes env ((c, p) # cs) ix = Option.bind (execute_change env c p ix) (execute_changes env cs)"

definition over_limits :: "compact_index \<Rightarrow> delta_limits \<Rightarrow> plan_state \<Rightarrow> str option" where
  "over_limits ix limits st =
     (let f = pl_fragmentation st
      in if dl_dead_records limits < fs_dead_records f then Some ''packed tombstone budget exceeded''
         else if dl_dead_strings limits < fs_dead_string_bytes f then Some ''packed dead string budget exceeded''
         else if dl_extension_growth limits < fs_extension_growth_bytes f then Some ''packed extension growth budget exceeded''
         else if (case checked_add (length (ci_extensions ix)) (length (pl_new_extensions st)) of
                    None \<Rightarrow> True | Some n \<Rightarrow> u32_max \<le> n)
         then Some ''packed extension dictionary capacity exceeded''
         else None)"

definition apply_changes_with_limits ::
  "packed_env \<Rightarrow> file_change list \<Rightarrow> delta_limits \<Rightarrow> compact_index \<Rightarrow> (apply_outcome \<times> compact_index) option" where
  "apply_changes_with_limits env changes limits ix =
     (if \<not> ci_ids_sorted ix then Some (NeedsFullReload ''non-canonical record order'', ix)
      else do {
        last_id \<leftarrow> (if 0 < ci_physical_len ix
                    then map_option (\<lambda>r. Some (cr_id r)) (record_at ix (ci_physical_len ix - 1)) else Some None);
        planned \<leftarrow> plan_changes env ix last_id changes
          \<lparr>pl_previous = None, pl_fragmentation = ci_fragmentation ix, pl_len = ci_len ix, pl_new_extensions = []\<rparr>;
        case planned of
          Inl reason \<Rightarrow> Some (NeedsFullReload reason, ix)
        | Inr (st, plans) \<Rightarrow>
            (case over_limits ix limits st of
               Some reason \<Rightarrow> Some (NeedsFullReload reason, ix)
             | None \<Rightarrow> do {
                 ix1 \<leftarrow> execute_changes env (zip changes plans) ix;
                 Some (Applied, ix1\<lparr>ci_len := pl_len st, ci_fragmentation := pl_fragmentation st\<rparr>)
               })
      })"

definition index_apply_changes ::
  "packed_env \<Rightarrow> file_change list \<Rightarrow> compact_index \<Rightarrow> (apply_outcome \<times> compact_index) option" where
  "index_apply_changes env changes ix =
     apply_changes_with_limits env changes
       \<lparr>dl_dead_strings = max_dead_string_bytes,
        dl_dead_records = min (max (ci_physical_len ix div 20) 1024) 65536,
        dl_extension_growth = max_extension_growth_bytes\<rparr> ix"

subsection \<open>Searching\<close>

text \<open>The rows that a search visits: the position, the record, its block of metadata and the row in it.\<close>

definition index_rows :: "compact_index \<Rightarrow> (usize \<times> compact_record \<times> metadata_block \<times> usize) list" where
  "index_rows ix =
     List.enumerate 0 (concat (map (\<lambda>(records, metadata). map (\<lambda>(row, r). (r, metadata, row)) (List.enumerate 0 records))
       (zip (ci_records ix) (ci_metadata ix))))"

definition index_hit_score ::
  "compact_index \<Rightarrow> prepared_query \<Rightarrow> compact_record \<Rightarrow> metadata_block \<Rightarrow> usize \<Rightarrow> (i64 \<times> i64 option) option option"
where
  "index_hit_score ix q r metadata row =
     do {
       mtime \<leftarrow> (if cr_present r AND push_bit 1 1 \<noteq> 0 then map_option Some (block_value metadata row 1) else Some None);
       e \<leftarrow> (if needs_extension q then ext_of ix r else Some None);
       if \<not> matches_metadata (pq_options q) (cr_kind r) mtime e then Some None
       else do {
         path \<leftarrow> (if pq_needs_text q then get_text ix r (cr_path_lower r) else Some []);
         basename \<leftarrow> (if needs_basename q
           then Option.bind (index_basename_lower_slice ix r) (get_text ix r) else Some []);
         score \<leftarrow> rank_lowered q path basename (sl_len (cr_path r)) mtime;
         Some (map_option (\<lambda>s. (s, mtime)) score)
       }
     }"

fun index_search_loop ::
  "packed_env \<Rightarrow> compact_index \<Rightarrow> prepared_query \<Rightarrow> (usize \<times> compact_record \<times> metadata_block \<times> usize) list \<Rightarrow>
     top_hits_state \<Rightarrow> top_hits_state option" where
  "index_search_loop env ix q [] hits = Some hits"
| "index_search_loop env ix q ((index, r, metadata, row) # rows) hits =
     (if \<not> is_live r then index_search_loop env ix q rows hits
      else do {
        hit \<leftarrow> index_hit_score ix q r metadata row;
        case hit of
          None \<Rightarrow> index_search_loop env ix q rows hits
        | Some (score, mtime) \<Rightarrow> do {
            v \<leftarrow> path_view_of env ix r;
            index_search_loop env ix q rows
              (consider_hit (pe_memory env) index score mtime (sl_len (cr_path r)) v hits)
          }
      })"

definition index_search :: "packed_env \<Rightarrow> i64 \<Rightarrow> compact_index \<Rightarrow> search_options \<Rightarrow> search_result list option" where
  "index_search env now ix options0 =
     do {
       let options = normalized_at (pe_lower env) options0 now;
       q \<leftarrow> prepared_query_new (pe_lower env) options;
       hits \<leftarrow> index_search_loop env ix q (index_rows ix) (top_hits_new (effective_limit (limit options)));
       map_m (\<lambda>hit. map_option (\<lambda>r. \<lparr>sr_record = r, sr_score = si_score hit\<rparr>) (to_file_record ix (si_index hit)))
         (finish (pe_memory env) hits)
     }"

end
