(* ===== verification/Compact_Rows.thy ===== *)
theory Compact_Rows
  imports Compact_Index
begin

text \<open>
  Facts on the rows of the packed index: what is packed reads back, and stays readable while
  the arenas, the pool and the dictionary grow; lists of blocks.
\<close>

subsection \<open>Slices\<close>

definition slice_shows :: "str \<Rightarrow> slice \<Rightarrow> str \<Rightarrow> bool" where
  "slice_shows txt s v \<longleftrightarrow>
     sl_len s = length v \<and> slice_end s \<le> length txt \<and> take (sl_len s) (drop (sl_start s) txt) = v \<and>
     utf8_valid (drop (sl_start s) txt) \<and> utf8_valid (drop (slice_end s) txt)"

lemma utf8_valid_boundary:
  assumes "utf8_valid (drop i s)" and "i \<le> length s"
  shows "char_boundary s i"
proof (cases "i < length s")
  case True
  then obtain c cs where c: "drop i s = c # cs" "c = s ! i" by (metis Cons_nth_drop_Suc)
  have "\<not> is_continuation c"
  proof (cases "str_chars (c # cs)")
    case (Cons d ds)
    then have "rchar_valid (c # take (utf8_len c - 1) cs)" using assms(1) c(1) by (simp add: utf8_valid_Cons)
    then show ?thesis by (cases "c # take (utf8_len c - 1) cs" rule: rchar_valid.cases) (auto simp: is_continuation_def)
  qed simp
  then show ?thesis using c assms(2) by (simp add: char_boundary_def)
qed (use assms in \<open>simp add: char_boundary_def\<close>)

lemma slice_shows_get: "slice_shows txt s v \<Longrightarrow> str_slice txt (sl_start s) (sl_len s) = Some v"
  by (auto simp: slice_shows_def str_slice_def slice_end_def intro!: utf8_valid_boundary)

lemma slice_shows_append:
  assumes "slice_shows txt s v" and "utf8_valid t"
  shows "slice_shows (txt @ t) s v"
proof -
  have l: "sl_start s \<le> length txt" "slice_end s \<le> length txt" "sl_start s + sl_len s \<le> length txt"
    using assms(1) by (simp_all add: slice_shows_def slice_end_def)
  have "take (sl_len s) (drop (sl_start s) (txt @ t)) = take (sl_len s) (drop (sl_start s) txt)" using l by simp
  moreover have "utf8_valid (drop i txt @ t)" if "utf8_valid (drop i txt)" for i
    using that assms(2) by (rule utf8_valid_appendI)
  moreover have "sl_len s = length v" "take (length v) (drop (sl_start s) txt) = v"
      "utf8_valid (drop (sl_start s) txt)" "utf8_valid (drop (slice_end s) txt)"
    using assms(1) by (auto simp: slice_shows_def)
  ultimately show ?thesis using l by (simp add: slice_shows_def)
qed

lemma slice_shows_new:
  "utf8_valid v \<Longrightarrow> slice_shows (txt @ v) \<lparr>sl_start = length txt, sl_len = length v\<rparr> v"
  by (simp add: slice_shows_def slice_end_def)

lemma slice_shows_suffix:
  assumes "slice_shows txt s v" and "suffix u v" and "utf8_valid u"
  shows "\<exists>s'. slice_suffix s (length u) = Some s' \<and> slice_shows txt s' u \<and> slice_end s' = slice_end s \<and>
    sl_start s' = sl_start s + length v - length u"
proof -
  obtain w where w: "v = w @ u" using assms(2) by (auto simp: suffix_def)
  have s: "sl_len s = length w + length u" "slice_end s \<le> length txt" "take (sl_len s) (drop (sl_start s) txt) = w @ u"
      "utf8_valid (drop (slice_end s) txt)"
    using assms(1) w by (auto simp: slice_shows_def)
  define s' where "s' = \<lparr>sl_start = sl_start s + length w, sl_len = length u\<rparr>"
  have split: "drop (sl_start s) txt = w @ u @ drop (slice_end s) txt"
    using s(1,3) append_take_drop_id [of "sl_len s" "drop (sl_start s) txt"]
    by (simp add: slice_end_def add.commute)
  have "drop (sl_start s') txt = drop (length w) (drop (sl_start s) txt)" by (simp add: s'_def add.commute)
  then have d: "drop (sl_start s') txt = u @ drop (slice_end s) txt" using split by simp
  have "slice_shows txt s' u"
    using s d assms(3) by (simp add: slice_shows_def s'_def slice_end_def add.assoc utf8_valid_appendI)
  then show ?thesis using s(1) w
    by (intro exI [of _ s']) (simp add: slice_suffix_def checked_sub_def slice_end_def s'_def)
qed

lemma slice_checked_Some:
  "slice_checked start len = Some s \<longleftrightarrow> start + len \<le> u32_max \<and> s = \<lparr>sl_start = start, sl_len = len\<rparr>"
  by (auto simp: slice_checked_def checked_add_def u32_max_def usize_max_def bind_eq_Some_conv)

subsection \<open>Placing the texts of a row\<close>

text \<open>One turn of \<open>place_texts\<close>: a text is in its parent, or new at the end.\<close>

definition placed :: "str list \<Rightarrow> str \<Rightarrow> usize option \<Rightarrow> slice list \<Rightarrow> slice \<Rightarrow> str \<Rightarrow> str \<Rightarrow> bool" where
  "placed seen v p slices s txt txt' \<longleftrightarrow>
     (case p of
        Some i \<Rightarrow> txt' = txt \<and> slice_suffix (slices ! i) (length v) = Some s \<and> slice_end s = slice_end (slices ! i)
      | None \<Rightarrow> txt' = txt @ v \<and> s = \<lparr>sl_start = length txt, sl_len = length v\<rparr>)"

lemma place_one:
  assumes "list_all2 (slice_shows txt) slices seen" and "p = position (\<lambda>w. suffix v w) seen"
    and "utf8_valid v" and "texts = seen @ later"
    and "place_texts texts (p # ps) (v # vs) slices txt = Some r"
  shows "\<exists>s txt'. place_texts texts ps vs (slices @ [s]) txt' = Some r \<and> placed seen v p slices s txt txt' \<and>
    (\<exists>t. txt' = txt @ t \<and> utf8_valid t) \<and> list_all2 (slice_shows txt') (slices @ [s]) (seen @ [v])"
proof (cases p)
  case None
  then obtain s where s: "slice_checked (length txt) (length v) = Some s"
      "place_texts texts ps vs (slices @ [s]) (txt @ v) = Some r"
    using assms(5) by (auto simp: bind_eq_Some_conv)
  then have "s = \<lparr>sl_start = length txt, sl_len = length v\<rparr>" by (simp add: slice_checked_Some)
  moreover have "list_all2 (slice_shows (txt @ v)) slices seen"
    using assms(1) slice_shows_append [OF _ assms(3)] by (rule list_all2_mono)
  ultimately show ?thesis using None s assms(3) slice_shows_new [OF assms(3)]
    by (intro exI [of _ s] exI [of _ "txt @ v"]) (auto simp: placed_def intro!: list_all2_appendI)
next
  case (Some i)
  then have i: "i < length seen" "suffix v (seen ! i)" using assms(2) position_Some by metis+
  have l: "length slices = length seen" using assms(1) by (rule list_all2_lengthD)
  then have sh: "slice_shows txt (slices ! i) (seen ! i)" using assms(1) i(1) by (simp add: list_all2_conv_all_nth)
  obtain s where s: "slice_suffix (slices ! i) (length v) = Some s" "slice_shows txt s v"
      "slice_end s = slice_end (slices ! i)" "sl_start s = sl_start (slices ! i) + length (seen ! i) - length v"
    using slice_shows_suffix [OF sh i(2) assms(3)] by blast
  have "texts ! i = seen ! i" "i < length texts" using i(1) assms(4) by (simp_all add: nth_append)
  then obtain s' where s': "slice_checked (sl_start s) (length v) = Some s'"
      "place_texts texts ps vs (slices @ [s']) txt = Some r"
    using assms(5) Some s(4) i l
    by (auto simp: bind_eq_Some_conv checked_sub_def split: if_splits)
  have "sl_len s = length v" using s(2) by (simp add: slice_shows_def)
  then have "s' = s" using s'(1) by (simp add: slice_checked_Some)
  then show ?thesis using Some s s' assms(1)
    by (intro exI [of _ s] exI [of _ "txt"]) (auto simp: placed_def intro!: list_all2_appendI)
qed

lemma layout_four:
  assumes "row_layout_new [a, b, c, d] = Some l"
  shows "rl_parents l = [None, position (\<lambda>w. suffix b w) [a], position (\<lambda>w. suffix c w) [a, b],
    position (\<lambda>w. suffix d w) [a, b, c]]"
  using assms by (auto simp: row_layout_new_def bind_eq_Some_conv Let_def split: if_splits)

lemma parent_codes:
  assumes "p = None \<or> (\<exists>i < 3. p = Some i)" and "q = None \<or> (\<exists>i < 3. q = Some i)"
  shows "(parent_code p OR push_bit 2 (parent_code q)) AND 3 = parent_code p"
    and "drop_bit 2 (parent_code p OR push_bit 2 (parent_code q)) = parent_code q"
proof -
  have three: "i < 3 \<Longrightarrow> i \<in> {0, 1, 2}" for i :: nat by auto
  show "(parent_code p OR push_bit 2 (parent_code q)) AND 3 = parent_code p"
    and "drop_bit 2 (parent_code p OR push_bit 2 (parent_code q)) = parent_code q"
    using assms by (auto dest!: three simp: parent_code_def no_text_parent_def)
qed

lemma parent_code_eq:
  "parent_code None = 3" "parent_code (Some 0) = 0" "parent_code (Some (Suc 0)) = 1" "parent_code (Some 2) = 2"
  by (simp_all add: parent_code_def no_text_parent_def)

text \<open>The end of the arena is the largest end of the slices placed so far.\<close>

definition ends_at :: "slice list \<Rightarrow> nat \<Rightarrow> bool" where
  "ends_at slices n \<longleftrightarrow> slices \<noteq> [] \<and> Max (set (map slice_end slices)) = n"

lemma placed_ends:
  assumes "placed seen v p slices s txt txt'" and "ends_at slices (length txt)"
    and "p = None \<or> (\<exists>i < length slices. p = Some i)"
  shows "ends_at (slices @ [s]) (length txt')"
proof -
  have m: "Max (set (map slice_end (slices @ [s]))) = max (slice_end s) (Max (set (map slice_end slices)))"
    using assms(2) by (simp add: ends_at_def)
  show ?thesis
  proof (cases p)
    case None
    then have "slice_end s = length txt'" "length txt \<le> length txt'"
      using assms(1) by (simp_all add: placed_def slice_end_def)
    then show ?thesis using m assms(2) by (simp add: ends_at_def)
  next
    case (Some i)
    then have s: "slice_end s = slice_end (slices ! i)" "txt' = txt" "i < length slices"
      using assms(1,3) by (simp_all add: placed_def)
    then have "slice_end s \<le> Max (set (map slice_end slices))" by (intro Max_ge) auto
    then show ?thesis using m s assms(2) by (simp add: ends_at_def max_def)
  qed
qed

lemma position_range: "position P xs = None \<or> (\<exists>i < length xs. position P xs = Some i)"
  using position_Some by (cases "position P xs") auto

lemma place_four:
  assumes l: "row_layout_new [a, b, c, d] = Some l"
    and valid: "utf8_valid a" "utf8_valid b" "utf8_valid c" "utf8_valid d"
    and place: "place_texts [a, b, c, d] (rl_parents l) [a, b, c, d] [] txt = Some (slices, txt')"
  shows "\<exists>s0 s1 s2 s3 t. slices = [s0, s1, s2, s3] \<and> txt' = txt @ t \<and> utf8_valid t \<and>
    slice_shows txt' s0 a \<and> slice_shows txt' s1 b \<and> slice_shows txt' s2 c \<and> slice_shows txt' s3 d \<and>
    (\<forall>r. cr_path_lower r = s0 \<longrightarrow> cr_basename_len r = sl_len s2 \<longrightarrow> cr_basename_lower_len r = sl_len s3 \<longrightarrow>
       cr_basename_parents r = layout_basename_parents l \<longrightarrow>
       record_basename_slice r s1 = Some s2 \<and> record_basename_lower_slice r s1 = Some s3)"
proof -
  let ?texts = "[a, b, c, d]"
  define p1 where "p1 = position (\<lambda>w. suffix b w) [a]"
  define p2 where "p2 = position (\<lambda>w. suffix c w) [a, b]"
  define p3 where "p3 = position (\<lambda>w. suffix d w) [a, b, c]"
  have parents: "rl_parents l = [None, p1, p2, p3]" using layout_four [OF l] by (simp only: p1_def p2_def p3_def)
  have "place_texts ?texts (None # [p1, p2, p3]) (a # [b, c, d]) [] txt = Some (slices, txt')" using place parents by simp
  from place_one [OF _ _ valid(1) _ this, of "[]"] obtain s0 x0 where s0:
      "place_texts ?texts [p1, p2, p3] [b, c, d] [s0] x0 = Some (slices, txt')" "placed [] a None [] s0 txt x0"
      "\<exists>t. x0 = txt @ t \<and> utf8_valid t" "list_all2 (slice_shows x0) [s0] [a]" by auto
  from place_one [OF s0(4) p1_def valid(2) _ s0(1)] obtain s1 x1 where s1:
      "place_texts ?texts [p2, p3] [c, d] [s0, s1] x1 = Some (slices, txt')" "placed [a] b p1 [s0] s1 x0 x1"
      "\<exists>t. x1 = x0 @ t \<and> utf8_valid t" "list_all2 (slice_shows x1) [s0, s1] [a, b]" by auto
  from place_one [OF s1(4) p2_def valid(3) _ s1(1)] obtain s2 x2 where s2:
      "place_texts ?texts [p3] [d] [s0, s1, s2] x2 = Some (slices, txt')" "placed [a, b] c p2 [s0, s1] s2 x1 x2"
      "\<exists>t. x2 = x1 @ t \<and> utf8_valid t" "list_all2 (slice_shows x2) [s0, s1, s2] [a, b, c]" by auto
  from place_one [OF s2(4) p3_def valid(4) _ s2(1)] obtain s3 x3 where s3:
      "place_texts ?texts [] [] [s0, s1, s2, s3] x3 = Some (slices, txt')" "placed [a, b, c] d p3 [s0, s1, s2] s3 x2 x3"
      "\<exists>t. x3 = x2 @ t \<and> utf8_valid t" "list_all2 (slice_shows x3) [s0, s1, s2, s3] [a, b, c, d]" by auto
  have final: "slices = [s0, s1, s2, s3]" "txt' = x3" using s3(1) by simp_all
  have r1: "p1 = None \<or> (\<exists>i < length [s0]. p1 = Some i)" using position_range [of _ "[a]"] by (simp add: p1_def)
  have r2: "p2 = None \<or> (\<exists>i < length [s0, s1]. p2 = Some i)" using position_range [of _ "[a, b]"] by (simp add: p2_def)
  have r3: "p3 = None \<or> (\<exists>i < length [s0, s1, s2]. p3 = Some i)" using position_range [of _ "[a, b, c]"] by (simp add: p3_def)
  have e0: "ends_at [s0] (length x0)" using s0(2) by (simp add: placed_def ends_at_def slice_end_def)
  have e1: "ends_at [s0, s1] (length x1)" using placed_ends [OF s1(2) e0 r1] by simp
  have e2: "ends_at [s0, s1, s2] (length x2)" using placed_ends [OF s2(2) e1 r2] by simp
  have "\<exists>t. x3 = txt @ t \<and> utf8_valid t"
    using s0(3) s1(3) s2(3) s3(3) by (metis append.assoc utf8_valid_appendI)
  then obtain t where t: "txt' = txt @ t" "utf8_valid t" using final by blast
  have lens: "sl_len s2 = length c" "sl_len s3 = length d"
    using s3(4) by (simp_all add: slice_shows_def)
  have codes: "layout_basename_parents l AND 3 = parent_code p2" "drop_bit 2 (layout_basename_parents l) = parent_code p3"
    using parent_codes [of p2 p3] r2 r3 parents
    by (auto simp: layout_basename_parents_def numeral_2_eq_2 numeral_3_eq_3 less_Suc_eq)
  have "record_basename_slice r s1 = Some s2 \<and> record_basename_lower_slice r s1 = Some s3"
    if r: "cr_path_lower r = s0" "cr_basename_len r = sl_len s2" "cr_basename_lower_len r = sl_len s3"
      "cr_basename_parents r = layout_basename_parents l" for r
  proof -
    have b: "record_basename_slice r s1 = Some s2"
      using r2 s2(2) e1 r lens codes
      by (auto simp: record_basename_slice_def Let_def placed_def parent_code_eq ends_at_def less_Suc_eq)
    moreover have "record_basename_lower_slice r s1 = Some s3"
    proof -
      have end2: "max (max (slice_end s0) (slice_end s1)) (slice_end s2) = length x2"
        using e2 by (simp add: ends_at_def max.commute max.left_commute)
      consider "p3 = None" | "p3 = Some 0" | "p3 = Some (Suc 0)" | "p3 = Some 2"
        using r3 by (auto simp: less_Suc_eq numeral_2_eq_2)
      then show ?thesis
        using s3(2) end2 r lens(2) codes(2) b
        by cases (simp_all add: record_basename_lower_slice_def Let_def placed_def parent_code_eq)
    qed
    ultimately show ?thesis ..
  qed
  then show ?thesis using final t s3(4)
    by (intro exI [of _ s0] exI [of _ s1] exI [of _ s2] exI [of _ s3] exI [of _ t]) simp
qed

subsection \<open>Growing\<close>

text \<open>Arenas, pool and dictionary only grow, and rows stay readable.\<close>

definition arenas_extend :: "arena list \<Rightarrow> arena list \<Rightarrow> bool" where
  "arenas_extend as as' \<longleftrightarrow> length as \<le> length as' \<and>
     (\<forall>i < length as. \<exists>t. ar_text (as' ! i) = ar_text (as ! i) @ t \<and> utf8_valid t)"

definition extends :: "compact_index \<Rightarrow> compact_index \<Rightarrow> bool" where
  "extends ix ix' \<longleftrightarrow>
     arenas_extend (ci_arenas ix) (ci_arenas ix') \<and>
     (\<exists>us. pp_values (ci_prefixes ix') = pp_values (ci_prefixes ix) @ us) \<and>
     (\<exists>es. ci_extensions ix' = ci_extensions ix @ es)"

lemma arenas_extend_refl: "arenas_extend as as"
  by (auto simp: arenas_extend_def intro: exI [of _ "[]"])

lemma arenas_extend_trans: "arenas_extend a b \<Longrightarrow> arenas_extend b c \<Longrightarrow> arenas_extend a c"
  unfolding arenas_extend_def
  by (elim conjE, intro conjI allI impI, simp) (metis append.assoc order_less_le_trans utf8_valid_appendI)

lemma extends_refl: "extends ix ix"
  by (simp add: extends_def arenas_extend_refl)

lemma extends_trans: "extends a b \<Longrightarrow> extends b c \<Longrightarrow> extends a c"
  unfolding extends_def using arenas_extend_trans by (metis append.assoc)

lemma extends_same:
  "ci_arenas ix' = ci_arenas ix \<Longrightarrow> ci_prefixes ix' = ci_prefixes ix \<Longrightarrow> ci_extensions ix' = ci_extensions ix \<Longrightarrow> extends ix ix'"
  by (simp add: extends_def arenas_extend_refl)

definition texts_ok :: "compact_index \<Rightarrow> compact_record \<Rightarrow> file_record \<Rightarrow> bool" where
  "texts_ok ix r x \<longleftrightarrow>
     (\<exists>p rest s1 s2 s3. cr_arena r < length (ci_arenas ix) \<and> pool_get (ci_prefixes ix) (cr_prefix r) = Some p \<and>
        fr_path x = p @ rest \<and> sl_len (cr_path r) = length (fr_path x) \<and>
        s1 = \<lparr>sl_start = sl_start (cr_path r), sl_len = length rest\<rparr> \<and>
        slice_shows (ar_text (ci_arenas ix ! cr_arena r)) s1 rest \<and>
        slice_shows (ar_text (ci_arenas ix ! cr_arena r)) (cr_path_lower r) (fr_path_lower x) \<and>
        record_basename_slice r s1 = Some s2 \<and>
        slice_shows (ar_text (ci_arenas ix ! cr_arena r)) s2 (fr_basename x) \<and>
        record_basename_lower_slice r s1 = Some s3 \<and>
        slice_shows (ar_text (ci_arenas ix ! cr_arena r)) s3 (fr_basename_lower x))"

definition fields_of_file :: "file_record \<Rightarrow> i64 option list" where
  "fields_of_file x = [fr_size x, fr_mtime x, fr_ctime x, fr_dev x, fr_inode x]"

definition input_of_file :: "file_record \<Rightarrow> i64 option list" where
  "input_of_file x = fields_of_file x @ [Some (fr_indexed_at x)]"

definition row_ok :: "compact_index \<Rightarrow> compact_record \<Rightarrow> file_record \<Rightarrow> bool" where
  "row_ok ix r x \<longleftrightarrow>
     texts_ok ix r x \<and> cr_id r = fr_id x \<and> cr_kind r = fr_kind x \<and> ext_of ix r = Some (fr_ext_lower x) \<and>
     (\<forall>f < 5. bit (cr_present r) f = (fields_of_file x ! f \<noteq> None))"

lemma texts_ok_extends:
  assumes "texts_ok ix r x" and "extends ix ix'"
  shows "texts_ok ix' r x"
proof -
  obtain p rest' s1 s2 s3 where t: "cr_arena r < length (ci_arenas ix)" "pool_get (ci_prefixes ix) (cr_prefix r) = Some p"
      "fr_path x = p @ rest'" "sl_len (cr_path r) = length (fr_path x)"
      "s1 = \<lparr>sl_start = sl_start (cr_path r), sl_len = length rest'\<rparr>"
      "slice_shows (ar_text (ci_arenas ix ! cr_arena r)) s1 rest'"
      "slice_shows (ar_text (ci_arenas ix ! cr_arena r)) (cr_path_lower r) (fr_path_lower x)"
      "record_basename_slice r s1 = Some s2" "slice_shows (ar_text (ci_arenas ix ! cr_arena r)) s2 (fr_basename x)"
      "record_basename_lower_slice r s1 = Some s3" "slice_shows (ar_text (ci_arenas ix ! cr_arena r)) s3 (fr_basename_lower x)"
    using assms(1) unfolding texts_ok_def by blast
  have len: "cr_arena r < length (ci_arenas ix')" using t(1) assms(2) by (simp add: extends_def arenas_extend_def)
  obtain txt' where txt': "ar_text (ci_arenas ix' ! cr_arena r) = ar_text (ci_arenas ix ! cr_arena r) @ txt'" "utf8_valid txt'"
    using assms(2) t(1) by (auto simp: extends_def arenas_extend_def)
  have keep: "slice_shows (ar_text (ci_arenas ix' ! cr_arena r)) s v" if "slice_shows (ar_text (ci_arenas ix ! cr_arena r)) s v" for s v
    unfolding txt'(1) by (rule slice_shows_append [OF that txt'(2)])
  have pool: "pool_get (ci_prefixes ix') (cr_prefix r) = Some p"
    using assms(2) t(2) pool_get_append by (auto simp: extends_def)
  show ?thesis unfolding texts_ok_def
    by (rule exI [of _ p], rule exI [of _ rest'], rule exI [of _ s1], rule exI [of _ s2], rule exI [of _ s3])
       (use t pool len keep in simp)
qed

lemma ext_of_extends:
  assumes "ext_of ix r = Some e" and "extends ix ix'"
  shows "ext_of ix' r = Some e"
proof (cases "cr_ext r = no_extension")
  case True
  then show ?thesis using assms(1) by (simp add: ext_of_def)
next
  case False
  obtain es where "ci_extensions ix' = ci_extensions ix @ es" using assms(2) by (auto simp: extends_def)
  moreover obtain z where "e = Some z" "unat (cr_ext r) < length (ci_extensions ix)" "ci_extensions ix ! unat (cr_ext r) = z"
    using assms(1) False by (auto simp: ext_of_def)
  ultimately show ?thesis using False by (simp add: ext_of_def vec_get_def nth_append)
qed

lemma row_ok_extends: "row_ok ix r x \<Longrightarrow> extends ix ix' \<Longrightarrow> row_ok ix' r x"
  unfolding row_ok_def using texts_ok_extends ext_of_extends by blast

text \<open>Texts do not depend on the other fields of a record.\<close>

lemma texts_ok_cong:
  assumes "texts_ok ix r x"
    and "cr_path r' = cr_path r" "cr_path_lower r' = cr_path_lower r" "cr_basename_len r' = cr_basename_len r"
      "cr_basename_lower_len r' = cr_basename_lower_len r" "cr_arena r' = cr_arena r" "cr_prefix r' = cr_prefix r"
      "cr_basename_parents r' = cr_basename_parents r"
    and "fr_path x' = fr_path x" "fr_path_lower x' = fr_path_lower x" "fr_basename x' = fr_basename x"
      "fr_basename_lower x' = fr_basename_lower x"
  shows "texts_ok ix r' x'"
proof -
  have "record_basename_slice r' s = record_basename_slice r s" for s
    by (simp only: record_basename_slice_def assms)
  moreover from this have "record_basename_lower_slice r' s = record_basename_lower_slice r s" for s
    by (simp only: record_basename_lower_slice_def assms)
  ultimately show ?thesis using assms by (simp add: texts_ok_def)
qed

subsection \<open>Packing\<close>

lemma present_bits_bit:
  "i + length vs \<le> 8 \<Longrightarrow>
     bit (present_bits i vs p) f \<longleftrightarrow> bit p f \<or> (i \<le> f \<and> f < i + length vs \<and> vs ! (f - i) \<noteq> None)"
proof (induction i vs p rule: present_bits.induct)
  case (2 i v vs p)
  have set_bit: "bit (p OR push_bit i 1) f \<longleftrightarrow> bit p f \<or> f = i"
    using "2.prems" by (auto simp only: bit_or_iff bit_push_bit_iff bit_1_iff) (auto simp: bit_simps)
  have "bit (present_bits (i + 1) vs (if v \<noteq> None then p OR push_bit i 1 else p)) f \<longleftrightarrow>
      bit (if v \<noteq> None then p OR push_bit i 1 else p) f \<or> (i + 1 \<le> f \<and> f < i + 1 + length vs \<and> vs ! (f - (i + 1)) \<noteq> None)"
    by (rule "2.IH") (use "2.prems" in simp)
  moreover have "(v # vs) ! (f - i) = (if f = i then v else vs ! (f - (i + 1)))" if "i \<le> f"
    using that by (auto simp: nth_Cons')
  ultimately show ?case using set_bit by (cases "f = i") (auto simp del: present_bits.simps simp: present_bits.simps(2))
qed auto

lemma live_bit: "is_live r \<longleftrightarrow> \<not> bit (cr_present r) 7"
  unfolding is_live_def tombstone_def by (simp only: bit_iff_and_push_bit_not_eq_0 not_not)

lemma update_metadata_bits:
  "bit (cr_present (record_update_metadata d e r)) f \<longleftrightarrow> f < 5 \<and> metadata_fields_of d ! f \<noteq> None"
  "is_live (record_update_metadata d e r)"
proof -
  have "length (metadata_fields_of d) = 5" by (simp add: metadata_fields_of_def)
  then have b: "bit (cr_present (record_update_metadata d e r)) f \<longleftrightarrow> f < 5 \<and> metadata_fields_of d ! f \<noteq> None" for f
    using present_bits_bit [of 0 "metadata_fields_of d" 0 f] by (simp add: record_update_metadata_def del: not_None_eq)
  show "bit (cr_present (record_update_metadata d e r)) f \<longleftrightarrow> f < 5 \<and> metadata_fields_of d ! f \<noteq> None" by (rule b)
  show "is_live (record_update_metadata d e r)" using b [of 7] by (simp add: live_bit)
qed

text \<open>The record that a row of the database is for a reader.\<close>

definition file_of_ref :: "(str \<Rightarrow> str) \<Rightarrow> db_record \<Rightarrow> file_record" where
  "file_of_ref ul d =
     \<lparr>fr_id = dr_id d, fr_path = dr_path d, fr_path_lower = lowered_text ul d, fr_basename = dr_basename d,
      fr_basename_lower = dr_basename_lower d, fr_ext_lower = dr_ext_lower d, fr_kind = dr_kind d,
      fr_size = dr_size d, fr_mtime = dr_mtime d, fr_ctime = dr_ctime d, fr_dev = dr_dev d,
      fr_inode = dr_inode d, fr_indexed_at = dr_indexed_at d\<rparr>"

lemma file_of_ref_inputs [simp]:
  "fields_of_file (file_of_ref ul d) = metadata_fields_of d"
  "input_of_file (file_of_ref ul d) = metadata_input_of d"
  by (simp_all add: fields_of_file_def input_of_file_def metadata_fields_of_def metadata_input_of_def file_of_ref_def)

definition file_valid :: "file_record \<Rightarrow> bool" where
  "file_valid x \<longleftrightarrow>
     utf8_valid (fr_path x) \<and> utf8_valid (fr_path_lower x) \<and> utf8_valid (fr_basename x) \<and>
     utf8_valid (fr_basename_lower x) \<and> (\<forall>v. Some v \<in> set (input_of_file x) \<longrightarrow> is_i64 v)"

lemma rfind_slash_split:
  assumes "rfind_slash s = Some i"
  shows "i < length s \<and> s = take i s @ CHR ''/'' # drop (i + 1) s"
proof -
  obtain j where j: "position (\<lambda>c. c = CHR ''/'') (rev s) = Some j" "i = length s - 1 - j"
    using assms by (auto simp: rfind_slash_def)
  then have "j < length s" "rev s ! j = CHR ''/''" using position_Some by fastforce+
  then have "i < length s" "s ! i = CHR ''/''" using j(2) by (simp_all add: rev_nth)
  then show ?thesis using id_take_nth_drop [of i s] by simp
qed

text \<open>The prefix is the start of the path, up to a slash, or empty.\<close>

lemma pack_prefix_ok:
  assumes ok: "pool_ok (pe_hash env) pool" and alloc: "allocates (pe_alloc env)" and path: "utf8_valid path"
    and pack: "pack_prefix env path lowered hint pool = Some (i, pool')"
    and hint: "\<And>h. hint = Some h \<Longrightarrow> h \<noteq> no_prefix"
  shows "pool_ok (pe_hash env) pool' \<and> (\<exists>us. pp_values pool' = pp_values pool @ us) \<and>
    (\<exists>p rest. pool_get pool' i = Some p \<and> path = p @ rest \<and> utf8_valid p \<and> utf8_valid rest)"
proof -
  have none: ?thesis if "i = no_prefix" "pool' = pool" using that ok path by (simp add: pool_get_def)
  show ?thesis
  proof (cases "path = lowered \<or> rfind_slash path = None \<or> (\<exists>n. rfind_slash path = Some n \<and> n + 1 < min_prefix_bytes)")
    case True
    then have "i = no_prefix \<and> pool' = pool"
      using pack by (elim disjE exE conjE) (simp_all add: pack_prefix_def split: if_splits option.splits)
    then show ?thesis using none by blast
  next
    case False
    then obtain n where n: "path \<noteq> lowered" "rfind_slash path = Some n" "\<not> n + 1 < min_prefix_bytes" by auto
    note split = rfind_slash_split [OF n(2)]
    have v: "utf8_valid (take n path)" "utf8_valid (drop (n + 1) path)"
      using utf8_valid_cut [of "take n path" "CHR ''/''" "drop (n + 1) path"] split path by (simp_all add: byte_def)
    define parent where "parent = take (n + 1) path"
    have p: "parent = take n path @ ''/''" using split by (metis Suc_eq_plus1 append_Cons append_Nil nth_append_length parent_def take_Suc_conv_app_nth length_take min.absorb2 less_imp_le_nat)
    have parent: "path = parent @ drop (n + 1) path" "utf8_valid parent"
      using v(1) by (simp add: parent_def) (simp add: p utf8_valid_append v(1) byte_def)
    have "str_slice path 0 (n + 1) = Some parent"
      using split v(2) path by (simp add: str_slice_def parent_def utf8_valid_boundary)
    then have run: "(case hint of
               Some h \<Rightarrow> if vec_get (pp_values pool) (unat h) = Some parent then Some (h, pool)
                     else map_option (map_prod (\<lambda>r. case r of Some i \<Rightarrow> i | None \<Rightarrow> no_prefix) id)
                            (intern (pe_hash env) (pe_alloc env) parent pool)
             | None \<Rightarrow> map_option (map_prod (\<lambda>r. case r of Some i \<Rightarrow> i | None \<Rightarrow> no_prefix) id)
                            (intern (pe_hash env) (pe_alloc env) parent pool)) = Some (i, pool')"
      using pack n by (simp add: pack_prefix_def)
    show ?thesis
    proof (cases "\<exists>h. hint = Some h \<and> vec_get (pp_values pool) (unat h) = Some parent")
      case True
      then have "pool' = pool" "pool_get pool i = Some parent" using run hint by (auto simp: pool_get_def)
      then show ?thesis using ok parent v(2) by blast
    next
      case False
      then obtain r where r: "intern (pe_hash env) (pe_alloc env) parent pool = Some (r, pool')"
          "i = (case r of Some i \<Rightarrow> i | None \<Rightarrow> no_prefix)"
        using run by (cases hint) (auto split: if_splits)
      show ?thesis
      proof (cases r)
        case None
        then show ?thesis using intern_ok [OF ok alloc, of parent] r none by simp
      next
        case (Some k)
        then show ?thesis using intern_ok [OF ok alloc, of parent] r parent v(2) by auto
      qed
    qed
  qed
qed

lemma reserve_row_ok:
  assumes "reserve_row env n ix = Some (i, ix')"
  shows "i < length (ci_arenas ix') \<and> ix' = ix\<lparr>ci_arenas := ci_arenas ix'\<rparr> \<and> arenas_extend (ci_arenas ix) (ci_arenas ix')"
proof -
  define as where "as = (case ci_arenas ix of [] \<Rightarrow> [\<lparr>ar_text = [], ar_capacity = 0\<rparr>]
    | _ \<Rightarrow> if ci_arena_bytes ix - length (ar_text (last (ci_arenas ix))) < n
           then ci_arenas ix @ [\<lparr>ar_text = [], ar_capacity = 0\<rparr>] else ci_arenas ix)"
  have as: "as \<noteq> []" "\<exists>bs. as = ci_arenas ix @ bs" by (auto simp: as_def split: list.split)
  obtain capacity where r: "i = length as - 1" "ix' = ix\<lparr>ci_arenas := as[i := (as ! i)\<lparr>ar_capacity := capacity\<rparr>]\<rparr>"
    using assms by (cases "ci_arenas ix") (auto simp: reserve_row_def as_def bind_eq_Some_conv Let_def split: if_splits)
  have "i < length as" using as(1) r(1) by simp
  then have "\<forall>j < length as. ar_text (ci_arenas ix' ! j) = ar_text (as ! j)" using r(2) by (auto simp: nth_list_update)
  then have "arenas_extend as (ci_arenas ix')" using r(2) by (auto simp: arenas_extend_def intro: exI [of _ "[]"])
  moreover have "arenas_extend (ci_arenas ix) as"
    using as(2) by (auto simp: arenas_extend_def nth_append intro: exI [of _ "[]"])
  ultimately show ?thesis using r \<open>i < length as\<close> arenas_extend_trans by auto
qed

lemma pack_record_ok:
  assumes ok: "pool_ok (pe_hash env) (ci_prefixes ix)" and alloc: "allocates (pe_alloc env)"
    and valid: "file_valid (file_of_ref (pe_lower env) d)"
    and hint: "\<And>h. hint = Some h \<Longrightarrow> h \<noteq> no_prefix"
    and pack: "pack_record env d (lowered_text (pe_lower env) d) e hint ix = Some (r, ix')"
  shows "extends ix ix' \<and> ix' = ix\<lparr>ci_arenas := ci_arenas ix', ci_prefixes := ci_prefixes ix'\<rparr> \<and>
    pool_ok (pe_hash env) (ci_prefixes ix') \<and> texts_ok ix' r (file_of_ref (pe_lower env) d) \<and>
    cr_id r = dr_id d \<and> cr_kind r = dr_kind d \<and> cr_ext r = e \<and> is_live r \<and>
    (\<forall>f. bit (cr_present r) f \<longleftrightarrow> f < 5 \<and> metadata_fields_of d ! f \<noteq> None)"
proof -
  let ?x = "file_of_ref (pe_lower env) d" and ?low = "lowered_text (pe_lower env) d"
  have v: "utf8_valid (dr_path d)" "utf8_valid ?low" "utf8_valid (dr_basename d)" "utf8_valid (dr_basename_lower d)"
    using valid by (simp_all add: file_valid_def file_of_ref_def)
  obtain i pool where p: "pack_prefix env (dr_path d) ?low hint (ci_prefixes ix) = Some (i, pool)"
    using pack by (auto simp: pack_record_def bind_eq_Some_conv)
  obtain ptext rst where pp: "pool_ok (pe_hash env) pool" "\<exists>us. pp_values pool = pp_values (ci_prefixes ix) @ us"
      "pool_get pool i = Some ptext" "dr_path d = ptext @ rst" "utf8_valid ptext" "utf8_valid rst"
    using pack_prefix_ok [OF ok alloc v(1) p hint] by blast
  have slice: "str_slice (dr_path d) (length ptext) (length rst) = Some rst"
    using pp(4-6) v(1) by (simp add: str_slice_def utf8_valid_boundary)
  let ?texts = "[?low, rst, dr_basename d, dr_basename_lower d]"
  obtain l k ix2 slices txt' where q: "row_layout_new ?texts = Some l"
      "reserve_row env (rl_required l) (ix\<lparr>ci_prefixes := pool\<rparr>) = Some (k, ix2)"
      "place_texts ?texts (rl_parents l) ?texts [] (ar_text (ci_arenas ix2 ! k)) = Some (slices, txt')"
      "ix' = ix2\<lparr>ci_arenas := (ci_arenas ix2)[k := (ci_arenas ix2 ! k)\<lparr>ar_text := txt'\<rparr>]\<rparr>"
      "r = record_update_metadata d e
            \<lparr>cr_id = dr_id d, cr_path = \<lparr>sl_start = sl_start (slices ! 1), sl_len = length (dr_path d)\<rparr>,
             cr_path_lower = slices ! 0, cr_basename_len = sl_len (slices ! 2),
             cr_basename_lower_len = sl_len (slices ! 3), cr_arena = k, cr_ext = e,
             cr_prefix = i, cr_kind = dr_kind d, cr_present = 0,
             cr_basename_parents = layout_basename_parents l\<rparr>"
    using pack p pp(3,4) slice
    by (auto simp: pack_record_def bind_eq_Some_conv Let_def checked_sub_def split: if_splits)
  note res = reserve_row_ok [OF q(2)]
  obtain s0 s1 s2 s3 t where s: "slices = [s0, s1, s2, s3]" "txt' = ar_text (ci_arenas ix2 ! k) @ t" "utf8_valid t"
      "slice_shows txt' s0 ?low" "slice_shows txt' s1 rst" "slice_shows txt' s2 (dr_basename d)" "slice_shows txt' s3 (dr_basename_lower d)"
      "\<And>r. cr_path_lower r = s0 \<Longrightarrow> cr_basename_len r = sl_len s2 \<Longrightarrow> cr_basename_lower_len r = sl_len s3 \<Longrightarrow>
       cr_basename_parents r = layout_basename_parents l \<Longrightarrow>
       record_basename_slice r s1 = Some s2 \<and> record_basename_lower_slice r s1 = Some s3"
    using place_four [OF q(1) v(2) pp(6) v(3,4) q(3)] by blast
  have k: "k < length (ci_arenas ix2)" using res by simp
  have "\<exists>t. ar_text (ci_arenas ix' ! j) = ar_text (ci_arenas ix2 ! j) @ t \<and> utf8_valid t" if "j < length (ci_arenas ix2)" for j
    using q(4) s(2,3) k by (cases "j = k") (auto intro: exI [of _ "[]"])
  then have "arenas_extend (ci_arenas ix2) (ci_arenas ix')" using q(4) by (simp add: arenas_extend_def)
  moreover have "arenas_extend (ci_arenas ix) (ci_arenas ix2)" using res by simp
  ultimately have ae: "arenas_extend (ci_arenas ix) (ci_arenas ix')" using arenas_extend_trans by blast
  have "ix2 = ix\<lparr>ci_prefixes := pool, ci_arenas := ci_arenas ix2\<rparr>" using res by simp
  then have "ix' = ix\<lparr>ci_prefixes := pool, ci_arenas := ci_arenas ix'\<rparr>"
    unfolding q(4) by (cases ix; cases ix2) simp
  then have same: "ix' = ix\<lparr>ci_arenas := ci_arenas ix', ci_prefixes := pool\<rparr>" by (cases ix; cases ix') simp
  then have fields: "ci_prefixes ix' = pool" "ci_extensions ix' = ci_extensions ix" by (cases ix; cases ix'; simp)+
  have r: "cr_path r = \<lparr>sl_start = sl_start s1, sl_len = length (dr_path d)\<rparr>" "cr_path_lower r = s0"
      "cr_basename_len r = sl_len s2" "cr_basename_lower_len r = sl_len s3" "cr_arena r = k" "cr_prefix r = i"
      "cr_basename_parents r = layout_basename_parents l" "cr_id r = dr_id d" "cr_kind r = dr_kind d" "cr_ext r = e"
    using q(5) s(1) by (simp_all add: record_update_metadata_def numeral_3_eq_3 numeral_2_eq_2)
  have len: "sl_len s1 = length rst" using s(5) by (simp add: slice_shows_def)
  have arena: "ar_text (ci_arenas ix' ! k) = txt'" "k < length (ci_arenas ix')" using q(4) k by simp_all
  have "texts_ok ix' r ?x" unfolding texts_ok_def
    by (rule exI [of _ ptext], rule exI [of _ rst], rule exI [of _ s1], rule exI [of _ s2], rule exI [of _ s3])
       (use r s(4-8) len arena pp(3,4) fields(1) in \<open>simp add: file_of_ref_def\<close>)
  moreover have "extends ix ix'" using ae pp(2) fields by (simp add: extends_def)
  moreover have "is_live r" "\<forall>f. bit (cr_present r) f \<longleftrightarrow> f < 5 \<and> metadata_fields_of d ! f \<noteq> None"
    unfolding q(5) using update_metadata_bits by blast+
  ultimately show ?thesis using same fields pp(1) r by simp
qed

lemma intern_extension_ok:
  assumes "intern_extension env e ix = Some (k, ix')" and "length (ci_extensions ix) \<le> u32_max"
  shows "extends ix ix' \<and> ix' = ix\<lparr>ci_extensions := ci_extensions ix'\<rparr> \<and> length (ci_extensions ix') \<le> u32_max \<and>
    (\<forall>r. cr_ext r = k \<longrightarrow> ext_of ix' r = Some e)"
proof (cases e)
  case None
  then show ?thesis using assms by (auto simp: intern_extension_def ext_of_def extends_refl)
next
  case (Some v)
  have ne: "unat (word_of_nat n :: u32) = n \<and> (word_of_nat n :: u32) \<noteq> no_extension" if "n < u32_max" for n
    using small_id [OF that] by (simp add: no_extension_def no_prefix_def)
  show ?thesis
  proof (cases "position (\<lambda>x. x = v) (ci_extensions ix)")
    case None
    then have n: "length (ci_extensions ix) < u32_max" "k = word_of_nat (length (ci_extensions ix))"
        "ix' = ix\<lparr>ci_extensions := ci_extensions ix @ [v]\<rparr>"
      using assms(1) Some by (auto simp: intern_extension_def Let_def bind_eq_Some_conv split: if_splits)
    then show ?thesis using ne [OF n(1)] Some by (auto simp: extends_def arenas_extend_refl ext_of_def vec_get_def)
  next
    case (Some i)
    then have i: "k = word_of_nat i" "ix' = ix" "i < length (ci_extensions ix)" "ci_extensions ix ! i = v"
      using assms(1) \<open>e = Some v\<close> position_Some [OF Some] by (auto simp: intern_extension_def)
    then show ?thesis using ne [of i] assms(2) \<open>e = Some v\<close> by (auto simp: extends_refl ext_of_def)
  qed
qed

end
