(* ===== verification/Compact_Correct.thy ===== *)
theory Compact_Correct
  imports Compact_Rows
begin

text \<open>
  The packed index as a list of records: the invariant \<open>index_shows\<close>, that every operation
  keeps it, and that what is read back is what was packed.
\<close>

subsection \<open>Lists of blocks\<close>

text \<open>All blocks but the last are full, and no block is empty.\<close>

definition blocks_ok :: "nat \<Rightarrow> 'a list list \<Rightarrow> bool" where
  "blocks_ok n bs \<longleftrightarrow>
     0 < n \<and> (\<forall>b \<in> set (butlast bs). length b = n) \<and> (bs \<noteq> [] \<longrightarrow> 0 < length (last bs) \<and> length (last bs) \<le> n)"

lemma blocks_ok_Cons:
  "blocks_ok n (b # bs) \<longleftrightarrow>
     0 < length b \<and> length b \<le> n \<and> (bs \<noteq> [] \<longrightarrow> length b = n) \<and> blocks_ok n bs"
  by (auto simp: blocks_ok_def)

lemma block_position:
  assumes "blocks_ok n bs" and "i < length (concat bs)"
  shows "i div n < length bs \<and> i mod n < length (bs ! (i div n)) \<and> bs ! (i div n) ! (i mod n) = concat bs ! i"
  using assms
proof (induction bs arbitrary: i)
  case (Cons b bs)
  have b: "length b \<le> n" "bs \<noteq> [] \<Longrightarrow> length b = n" "blocks_ok n bs" "0 < n"
    using Cons.prems(1) by (auto simp: blocks_ok_Cons)
  show ?case
  proof (cases "i < length b")
    case True
    then have "i div n = 0" "i mod n = i" using b(1) by simp_all
    then show ?thesis using True by (simp add: nth_append)
  next
    case False
    then have "bs \<noteq> []" using Cons.prems(2) by auto
    then have n: "length b = n" using b(2) by simp
    then have i: "n \<le> i" "i - n < length (concat bs)" using False Cons.prems(2) by simp_all
    then have "i div n = Suc ((i - n) div n)" "i mod n = (i - n) mod n"
      using b(4) by (simp_all add: le_div_geq le_mod_geq)
    then show ?thesis using Cons.IH [OF b(3) i(2)] False n by (simp add: nth_append)
  qed
qed simp

lemma block_update:
  assumes "blocks_ok n bs" and "i < length (concat bs)"
  shows "concat (bs[i div n := (bs ! (i div n))[i mod n := x]]) = (concat bs)[i := x]"
  using assms
proof (induction bs arbitrary: i)
  case (Cons b bs)
  have b: "length b \<le> n" "bs \<noteq> [] \<Longrightarrow> length b = n" "blocks_ok n bs" "0 < n"
    using Cons.prems(1) by (auto simp: blocks_ok_Cons)
  show ?case
  proof (cases "i < length b")
    case True
    then have "i div n = 0" "i mod n = i" using b(1) by simp_all
    then show ?thesis using True by (simp add: list_update_append1)
  next
    case False
    then have "bs \<noteq> []" using Cons.prems(2) by auto
    then have n: "length b = n" using b(2) by simp
    then have i: "n \<le> i" "i - n < length (concat bs)" using False Cons.prems(2) by simp_all
    then have "i div n = Suc ((i - n) div n)" "i mod n = (i - n) mod n"
      using b(4) by (simp_all add: le_div_geq le_mod_geq)
    then show ?thesis using Cons.IH [OF b(3) i(2)] False n by (simp add: list_update_append)
  qed
qed simp

lemma blocks_ok_lengths: "map length bs = map length cs \<Longrightarrow> blocks_ok n bs = blocks_ok n cs"
proof (induction bs arbitrary: cs)
  case (Cons b bs)
  then obtain c cs' where "cs = c # cs'" "length b = length c" "map length bs = map length cs'" by (cases cs) auto
  moreover from this have "(bs = []) = (cs' = [])" by (metis list.map_disc_iff)
  ultimately show ?case using Cons.IH [of cs'] by (simp add: blocks_ok_Cons)
qed (simp add: blocks_ok_def)

lemma concat_lengths: "map length bs = map length cs \<Longrightarrow> length (concat bs) = length (concat cs)"
  by (simp add: length_concat)

lemma map_length_update: "i < length bs \<Longrightarrow> length b = length (bs ! i) \<Longrightarrow> map length (bs[i := b]) = map length bs"
  by (simp add: map_update list_update_same_conv)

text \<open>Appending an element, in the last block or in a new one.\<close>

definition block_append :: "nat \<Rightarrow> 'a list list \<Rightarrow> 'a \<Rightarrow> 'a list list" where
  "block_append n bs x =
     (if bs = [] \<or> length (last bs) = n then bs @ [[x]] else butlast bs @ [last bs @ [x]])"

lemma block_append_concat: "concat (block_append n bs x) = concat bs @ [x]"
proof (cases "bs = []")
  case False
  then have "concat bs = concat (butlast bs) @ last bs" by (metis append_butlast_last_id concat.simps concat_append append_Nil2)
  then show ?thesis using False by (simp add: block_append_def)
qed (simp add: block_append_def)

lemma block_append_ok: "blocks_ok n bs \<Longrightarrow> blocks_ok n (block_append n bs x)"
  by (cases bs rule: rev_cases) (auto simp: blocks_ok_def block_append_def butlast_append)

lemma block_append_lengths:
  "map length bs = map length cs \<Longrightarrow> map length (block_append n bs x) = map length (block_append n cs y)"
proof (cases "bs = []")
  case False
  assume l: "map length bs = map length cs"
  then have "cs \<noteq> []" "length (last bs) = length (last cs)" "map length (butlast bs) = map length (butlast cs)"
    using False by (auto simp: last_map [symmetric] map_butlast) (metis last_map list.map_disc_iff)+
  then show ?thesis using False l by (simp add: block_append_def)
qed (simp add: block_append_def)

subsection \<open>The invariant\<close>

text \<open>
  The index holds the records \<open>xs\<close>, in the order of its rows; the metadata of the rows is in
  blocks of the same sizes.
\<close>

definition metadata_shows :: "compact_index \<Rightarrow> file_record list \<Rightarrow> bool" where
  "metadata_shows ix xs \<longleftrightarrow>
     (\<exists>mss. map length mss = map length (ci_records ix) \<and> list_all2 block_shows (ci_metadata ix) mss \<and>
        concat mss = map input_of_file xs)"

definition index_shows :: "packed_env \<Rightarrow> compact_index \<Rightarrow> file_record list \<Rightarrow> bool" where
  "index_shows env ix xs \<longleftrightarrow>
     blocks_ok (ci_records_per_block ix) (ci_records ix) \<and>
     ci_physical_len ix = length xs \<and>
     list_all2 (row_ok ix) (concat (ci_records ix)) xs \<and>
     metadata_shows ix xs \<and>
     pool_ok (pe_hash env) (ci_prefixes ix) \<and>
     length (ci_extensions ix) \<le> u32_max \<and>
     (ci_ids_sorted ix \<longrightarrow> sorted_wrt (<) (map fr_id xs))"

lemma index_shows_row:
  assumes "index_shows env ix xs" and "i < length xs"
  shows "record_at ix i = Some (concat (ci_records ix) ! i)" "row_ok ix (concat (ci_records ix) ! i) (xs ! i)"
proof -
  have b: "blocks_ok (ci_records_per_block ix) (ci_records ix)" "i < length (concat (ci_records ix))"
    using assms by (auto simp: index_shows_def dest: list_all2_lengthD)
  show "record_at ix i = Some (concat (ci_records ix) ! i)"
    using block_position [OF b] by (simp add: record_at_def vec_get_less del: vec_get_Some)
  show "row_ok ix (concat (ci_records ix) ! i) (xs ! i)"
    using assms by (simp add: index_shows_def list_all2_conv_all_nth)
qed

lemma index_shows_metadata:
  assumes "index_shows env ix xs" and "i < length xs" and "f < 6" and "input_of_file (xs ! i) ! f = Some v"
  shows "metadata_value ix i f = Some v"
proof -
  let ?n = "ci_records_per_block ix"
  obtain mss where m: "map length mss = map length (ci_records ix)" "list_all2 block_shows (ci_metadata ix) mss"
      "concat mss = map input_of_file xs"
    using assms(1) by (auto simp: index_shows_def metadata_shows_def)
  have b: "blocks_ok ?n mss"
    using assms(1) blocks_ok_lengths [OF m(1)] by (simp add: index_shows_def)
  have i: "i < length (concat mss)" using m(3) assms(2) by simp
  note p = block_position [OF b i]
  have "block_shows (ci_metadata ix ! (i div ?n)) (mss ! (i div ?n))" "i div ?n < length (ci_metadata ix)"
    using m(2) p by (simp_all add: list_all2_conv_all_nth)
  moreover from this have "block_value (ci_metadata ix ! (i div ?n)) (i mod ?n) f = Some v"
    using block_value_shows [of "ci_metadata ix ! (i div ?n)" "mss ! (i div ?n)" "i mod ?n" f v] p assms(2-) m(3) by simp
  ultimately show ?thesis by (simp add: metadata_value_def vec_get_less del: vec_get_Some)
qed

lemma row_ok_slices:
  assumes "row_ok ix r x"
  shows "\<exists>p rst s1 s2 s3. fr_path x = p @ rst \<and> pool_get (ci_prefixes ix) (cr_prefix r) = Some p \<and>
    path_suffix_slice ix r = Some s1 \<and> path_parts ix r = Some (p, rst) \<and>
    original_path ix r = Some (fr_path x) \<and> sl_len (cr_path r) = length (fr_path x) \<and>
    get_text ix r (cr_path_lower r) = Some (fr_path_lower x) \<and>
    record_basename_slice r s1 = Some s2 \<and> get_text ix r s2 = Some (fr_basename x) \<and>
    record_basename_lower_slice r s1 = Some s3 \<and> get_text ix r s3 = Some (fr_basename_lower x) \<and>
    index_basename_slice ix r = Some s2 \<and> index_basename_lower_slice ix r = Some s3"
proof -
  obtain p rst s1 s2 s3 where t: "cr_arena r < length (ci_arenas ix)" "pool_get (ci_prefixes ix) (cr_prefix r) = Some p"
      "fr_path x = p @ rst" "sl_len (cr_path r) = length (fr_path x)"
      "s1 = \<lparr>sl_start = sl_start (cr_path r), sl_len = length rst\<rparr>"
      "slice_shows (ar_text (ci_arenas ix ! cr_arena r)) s1 rst"
      "slice_shows (ar_text (ci_arenas ix ! cr_arena r)) (cr_path_lower r) (fr_path_lower x)"
      "record_basename_slice r s1 = Some s2" "slice_shows (ar_text (ci_arenas ix ! cr_arena r)) s2 (fr_basename x)"
      "record_basename_lower_slice r s1 = Some s3" "slice_shows (ar_text (ci_arenas ix ! cr_arena r)) s3 (fr_basename_lower x)"
    using assms unfolding row_ok_def texts_ok_def by blast
  have get: "get_text ix r s = Some v" if "slice_shows (ar_text (ci_arenas ix ! cr_arena r)) s v" for s v
    using slice_shows_get [OF that] t(1) by (simp add: get_text_def vec_get_less del: vec_get_Some)
  have s: "path_suffix_slice ix r = Some s1"
    using t(2-5) by (simp add: path_suffix_slice_def checked_sub_def)
  then have "path_parts ix r = Some (p, rst)" using t(2) get [OF t(6)] by (simp add: path_parts_def)
  moreover from this have "original_path ix r = Some (fr_path x)" using t(3) by (simp add: original_path_def)
  moreover have "index_basename_slice ix r = Some s2" using s t(8) by (simp add: index_basename_slice_def)
  moreover have "index_basename_lower_slice ix r = Some s3"
    using s t(10) by (auto simp: index_basename_lower_slice_def record_basename_lower_slice_def Let_def)
  ultimately show ?thesis using t s get
    by (intro exI [of _ p] exI [of _ rst] exI [of _ s1] exI [of _ s2] exI [of _ s3]) simp
qed

lemma optional_metadata_shows:
  assumes "index_shows env ix xs" and "i < length xs" and "f < 5"
  shows "optional_metadata ix i (concat (ci_records ix) ! i) f = Some (fields_of_file (xs ! i) ! f)"
proof -
  let ?r = "concat (ci_records ix) ! i"
  have l: "length (fields_of_file (xs ! i)) = 5" by (simp add: fields_of_file_def)
  have bit: "bit (cr_present ?r) f = (fields_of_file (xs ! i) ! f \<noteq> None)"
    using index_shows_row(2) [OF assms(1,2)] assms(3) by (simp add: row_ok_def)
  have "(cr_present ?r AND push_bit f 1 \<noteq> 0) = bit (cr_present ?r) f" by (simp only: bit_iff_and_push_bit_not_eq_0)
  then have e: "optional_metadata ix i ?r f =
      (if fields_of_file (xs ! i) ! f \<noteq> None then map_option Some (metadata_value ix i f) else Some None)"
    unfolding optional_metadata_def using bit by (simp only:)
  show ?thesis
  proof (cases "fields_of_file (xs ! i) ! f")
    case (Some v)
    then have "input_of_file (xs ! i) ! f = Some v" using assms(3) l by (simp add: input_of_file_def nth_append)
    then show ?thesis using e Some index_shows_metadata [OF assms(1,2), of f v] assms(3) by simp
  qed (simp add: e)
qed

lemma to_file_record_shows:
  assumes "index_shows env ix xs" and "i < length xs"
  shows "to_file_record ix i = Some (xs ! i)"
proof -
  let ?r = "concat (ci_records ix) ! i" and ?x = "xs ! i"
  note row = index_shows_row [OF assms]
  obtain s1 s2 s3 where s: "path_suffix_slice ix ?r = Some s1" "original_path ix ?r = Some (fr_path ?x)"
      "get_text ix ?r (cr_path_lower ?r) = Some (fr_path_lower ?x)"
      "record_basename_slice ?r s1 = Some s2" "get_text ix ?r s2 = Some (fr_basename ?x)"
      "record_basename_lower_slice ?r s1 = Some s3" "get_text ix ?r s3 = Some (fr_basename_lower ?x)"
    using row_ok_slices [OF row(2)] by blast
  have "length (fields_of_file ?x) = 5" by (simp add: fields_of_file_def)
  then have "metadata_value ix i 5 = Some (fr_indexed_at ?x)"
    by (intro index_shows_metadata [OF assms]) (simp_all add: input_of_file_def nth_append)
  moreover have "optional_metadata ix i ?r 0 = Some (fr_size ?x)" "optional_metadata ix i ?r 1 = Some (fr_mtime ?x)"
      "optional_metadata ix i ?r 2 = Some (fr_ctime ?x)" "optional_metadata ix i ?r 3 = Some (fr_dev ?x)"
      "optional_metadata ix i ?r 4 = Some (fr_inode ?x)"
    using optional_metadata_shows [OF assms] by (simp_all add: fields_of_file_def numeral_2_eq_2 numeral_3_eq_3)
  moreover have "ext_of ix ?r = Some (fr_ext_lower ?x)" "cr_id ?r = fr_id ?x" "cr_kind ?r = fr_kind ?x"
    using row(2) by (simp_all add: row_ok_def)
  ultimately show ?thesis using row(1) s by (simp add: to_file_record_def)
qed

subsection \<open>Appending\<close>

lemma blocks_bound: "blocks_ok n bs \<Longrightarrow> b \<in> set bs \<Longrightarrow> length b \<le> n"
  by (induction bs) (auto simp: blocks_ok_Cons)

text \<open>What the environment guarantees, and sizes that fit in memory.\<close>

definition packed_env_ok :: "packed_env \<Rightarrow> bool" where
  "packed_env_ok env \<longleftrightarrow> allocates (pe_alloc env) \<and> rows_bounded (pe_alloc env)"

definition block_size_ok :: "compact_index \<Rightarrow> bool" where
  "block_size_ok ix \<longleftrightarrow> (ci_records_per_block ix + 1) * 24 < 2 ^ 63"

lemma file_valid_write: "file_valid x \<Longrightarrow> length (input_of_file x) = 6 \<and> (\<forall>v. Some v \<in> set (input_of_file x) \<longrightarrow> is_i64 v)"
  by (simp add: file_valid_def input_of_file_def fields_of_file_def)

lemma append_record_run:
  assumes "append_record env packed metadata ix = Some ix'"
  shows "\<exists>sorted' records blocks b.
      (if 0 < ci_physical_len ix
         then map_option (\<lambda>r. ci_ids_sorted ix \<and> \<not> cr_id packed \<le> cr_id r) (record_at ix (ci_physical_len ix - 1))
         else Some (ci_ids_sorted ix)) = Some sorted' \<and>
      (if ci_records ix = [] \<or> length (last (ci_records ix)) = ci_records_per_block ix
        then Option.bind (try_reserve (pe_alloc env) 0 (ci_records_per_block ix))
          (\<lambda>capacity. Option.bind (metadata_block_new (pe_alloc env) capacity)
             (\<lambda>b. Some (ci_records ix @ [[]], ci_metadata ix @ [b])))
        else Some (ci_records ix, ci_metadata ix)) = Some (records, blocks) \<and>
      blocks \<noteq> [] \<and> block_push (pe_alloc env) metadata (last blocks) = Some b \<and>
      ix' = ix\<lparr>ci_records := butlast records @ [last records @ [packed]], ci_metadata := butlast blocks @ [b],
                ci_len := ci_len ix + 1, ci_physical_len := ci_physical_len ix + 1, ci_ids_sorted := sorted'\<rparr>"
proof -
  have tail: "\<exists>b. blocks \<noteq> [] \<and> block_push (pe_alloc env) metadata (last blocks) = Some b \<and> y = f b (ci_len ix + 1) (ci_physical_len ix + 1)"
    if "(if blocks = [] then None else Option.bind (block_push (pe_alloc env) metadata (last blocks))
        (\<lambda>b. Option.bind (checked_add (ci_len ix) 1) (\<lambda>l. Option.bind (checked_add (ci_physical_len ix) 1) (\<lambda>p. Some (f b l p))))) = Some y"
    for blocks y and f :: "metadata_block \<Rightarrow> usize \<Rightarrow> usize \<Rightarrow> compact_index"
    using that by (auto simp: bind_eq_Some_conv checked_add_def split: if_splits)
  obtain sorted' opened where o: "(if 0 < ci_physical_len ix
         then map_option (\<lambda>r. ci_ids_sorted ix \<and> \<not> cr_id packed \<le> cr_id r) (record_at ix (ci_physical_len ix - 1))
         else Some (ci_ids_sorted ix)) = Some sorted'"
      "(if ci_records ix = [] \<or> length (last (ci_records ix)) = ci_records_per_block ix
        then Option.bind (try_reserve (pe_alloc env) 0 (ci_records_per_block ix))
          (\<lambda>capacity. Option.bind (metadata_block_new (pe_alloc env) capacity)
             (\<lambda>b. Some (ci_records ix @ [[]], ci_metadata ix @ [b])))
        else Some (ci_records ix, ci_metadata ix)) = Some opened"
    using assms unfolding append_record_def bind_eq_Some_conv by blast
  obtain records blocks where rb: "opened = (records, blocks)" by (cases opened)
  let ?f = "\<lambda>b l p. ix\<lparr>ci_records := butlast records @ [last records @ [packed]],
      ci_metadata := butlast blocks @ [b], ci_len := l, ci_physical_len := p, ci_ids_sorted := sorted'\<rparr>"
  have "(if blocks = [] then None else Option.bind (block_push (pe_alloc env) metadata (last blocks))
        (\<lambda>b. Option.bind (checked_add (ci_len ix) 1) (\<lambda>l. Option.bind (checked_add (ci_physical_len ix) 1) (\<lambda>p. Some (?f b l p))))) = Some ix'"
    using assms unfolding append_record_def o bind.bind_lunit rb prod.case .
  from tail [where f = ?f, OF this] show ?thesis using o rb by blast
qed

lemma append_record_ok:
  assumes shown: "index_shows env ix xs" and env: "packed_env_ok env" and size: "block_size_ok ix"
    and row: "row_ok ix packed x" and valid: "file_valid x"
    and app: "append_record env packed (input_of_file x) ix = Some ix'"
  shows "index_shows env ix' (xs @ [x]) \<and> extends ix ix' \<and> ci_records_per_block ix' = ci_records_per_block ix \<and>
    concat (ci_records ix') = concat (ci_records ix) @ [packed] \<and> ci_len ix' = ci_len ix + 1 \<and>
    ci_extensions ix' = ci_extensions ix \<and> ci_fragmentation ix' = ci_fragmentation ix \<and>
    ci_ids_sorted ix' = (ci_ids_sorted ix \<and> (\<forall>y. xs \<noteq> [] \<longrightarrow> y = last xs \<longrightarrow> fr_id y < fr_id x))"
proof -
  let ?n = "ci_records_per_block ix"
  obtain mss where m: "map length mss = map length (ci_records ix)" "list_all2 block_shows (ci_metadata ix) mss"
      "concat mss = map input_of_file xs"
    using shown by (auto simp: index_shows_def metadata_shows_def)
  have ok: "blocks_ok ?n (ci_records ix)" "ci_physical_len ix = length xs"
    using shown by (simp_all add: index_shows_def)
  note input = file_valid_write [OF valid]
  define fresh where "fresh \<longleftrightarrow> ci_records ix = [] \<or> length (last (ci_records ix)) = ?n"
  from append_record_run [OF app] obtain sorted' records blocks b where s:
      "(if 0 < ci_physical_len ix
         then map_option (\<lambda>r. ci_ids_sorted ix \<and> \<not> cr_id packed \<le> cr_id r) (record_at ix (ci_physical_len ix - 1))
         else Some (ci_ids_sorted ix)) = Some sorted'"
      "(if fresh then Option.bind (try_reserve (pe_alloc env) 0 ?n)
          (\<lambda>capacity. Option.bind (metadata_block_new (pe_alloc env) capacity)
             (\<lambda>b. Some (ci_records ix @ [[]], ci_metadata ix @ [b])))
        else Some (ci_records ix, ci_metadata ix)) = Some (records, blocks)"
      "blocks \<noteq> []" "block_push (pe_alloc env) (input_of_file x) (last blocks) = Some b"
      "ix' = ix\<lparr>ci_records := butlast records @ [last records @ [packed]], ci_metadata := butlast blocks @ [b],
                ci_len := ci_len ix + 1, ci_physical_len := ci_physical_len ix + 1, ci_ids_sorted := sorted'\<rparr>"
    unfolding fresh_def by blast
  have mss_nil: "(mss = []) = (ci_records ix = [])" using m(1) by (metis list.map_disc_iff)
  have meta_nil: "(ci_metadata ix = []) = (mss = [])" using m(2) by (metis list_all2_Nil list_all2_Nil2)
  have last_len: "length (last mss) = length (last (ci_records ix))" if "ci_records ix \<noteq> []"
    using m(1) that mss_nil by (metis last_map)
  have records: "butlast records @ [last records @ [packed]] = block_append ?n (ci_records ix) packed"
    using s(2) by (auto simp: block_append_def fresh_def bind_eq_Some_conv split: if_splits)
  have fresh_mss: "fresh \<longleftrightarrow> mss = [] \<or> length (last mss) = ?n" using fresh_def mss_nil last_len by auto
  have "list_all2 block_shows (butlast blocks @ [b]) (block_append ?n mss (input_of_file x))"
  proof (cases fresh)
    case True
    then obtain b0 capacity where b0: "metadata_block_new (pe_alloc env) capacity = Some b0" "blocks = ci_metadata ix @ [b0]"
      using s(2) by (auto simp: bind_eq_Some_conv)
    have "block_shows b0 []" using metadata_block_new_ok [of "pe_alloc env" capacity] b0(1) env by (simp add: packed_env_ok_def)
    moreover have "write_ok None (input_of_file x) 0" using input by (simp add: write_ok_def)
    ultimately have "block_shows b [input_of_file x]"
      using block_write_ok [of b0 "[]" None "input_of_file x" "pe_alloc env"] s(4) b0(2)
      by (simp add: block_push_def rows_after_write_def)
    then show ?thesis using True m(2) b0(2) fresh_mss by (simp add: block_append_def list_all2_appendI)
  next
    case False
    then have ne: "mss \<noteq> []" "ci_metadata ix \<noteq> []" "blocks = ci_metadata ix" using fresh_mss meta_nil s(2) by auto
    obtain ms m' bs b' where e: "mss = ms @ [m']" "ci_metadata ix = bs @ [b']" using ne by (metis append_butlast_last_id)
    then have l2: "list_all2 block_shows bs ms" "block_shows b' m'"
      using m(2) by (auto simp: list_all2_append2 list_all2_Cons2 list_all2_append1 dest: list_all2_lengthD)
    have "length m' \<le> ?n" using blocks_ok_lengths [OF m(1)] ok(1) blocks_bound [of ?n mss m'] e(1) by simp
    then have "write_ok None (input_of_file x) (length m')" using input size by (simp add: write_ok_def block_size_ok_def)
    then have "block_shows b (m' @ [input_of_file x])"
      using block_write_ok [OF l2(2), of None "input_of_file x" "pe_alloc env"] s(4) ne(3) e(2)
      by (simp add: block_push_def rows_after_write_def)
    then show ?thesis using False fresh_mss l2(1) ne e by (simp add: block_append_def list_all2_appendI)
  qed
  moreover have "map length (block_append ?n mss (input_of_file x)) = map length (block_append ?n (ci_records ix) packed)"
    using m(1) by (rule block_append_lengths)
  ultimately have meta: "metadata_shows ix' (xs @ [x])"
    using m(3) s(5) records unfolding metadata_shows_def
    by (intro exI [of _ "block_append ?n mss (input_of_file x)"]) (simp add: block_append_concat)
  have ext: "extends ix ix'" by (rule extends_same) (simp_all add: s(5))
  have "list_all2 (row_ok ix') (concat (ci_records ix') ) (xs @ [x])"
    using shown row row_ok_extends [OF _ ext] s(5) records
    by (auto simp: block_append_concat index_shows_def intro!: list_all2_appendI elim: list_all2_mono)
  moreover have sorted': "sorted' = (ci_ids_sorted ix \<and> (\<forall>y. xs \<noteq> [] \<longrightarrow> y = last xs \<longrightarrow> fr_id y < fr_id x))"
  proof (cases "xs = []")
    case True
    then show ?thesis using s(1) ok(2) by simp
  next
    case False
    then have "length xs - 1 < length xs" by simp
    note r = index_shows_row [OF shown this]
    have "cr_id (concat (ci_records ix) ! (length xs - 1)) = fr_id (last xs)" "cr_id packed = fr_id x"
      using r(2) row False by (simp_all add: row_ok_def last_conv_nth)
    then show ?thesis using s(1) ok(2) r(1) False by auto
  qed
  moreover have "sorted_wrt (<) (map fr_id (xs @ [x]))" if "sorted'"
  proof (cases "xs = []")
    case False
    have srt: "sorted_wrt (<) (map fr_id xs)" "fr_id (last xs) < fr_id x"
      using that sorted' shown False by (auto simp: index_shows_def)
    have "fr_id y \<le> fr_id (last xs)" if "y \<in> set xs" for y
    proof -
      have "map fr_id xs = map fr_id (butlast xs) @ [fr_id (last xs)]" using False by (metis append_butlast_last_id list.simps(8,9) map_append)
      moreover have "y \<in> set (butlast xs) \<or> y = last xs" using that False by (metis append_butlast_last_id in_set_butlastD rotate1.simps(2) set_ConsD set_rotate1)
      ultimately show ?thesis using srt(1) by (auto simp: sorted_wrt_append)
    qed
    then show ?thesis using srt by (force simp: sorted_wrt_append)
  qed simp
  ultimately have "index_shows env ix' (xs @ [x])"
    using shown meta s(5) records block_append_ok [OF ok(1)] by (simp add: index_shows_def)
  then show ?thesis using ext s(5) records sorted' by (simp add: block_append_concat)
qed


subsection \<open>Building\<close>

lemma index_shows_extends:
  assumes "index_shows env ix xs" and "extends ix ix'" and "pool_ok (pe_hash env) (ci_prefixes ix')"
    and "length (ci_extensions ix') \<le> u32_max"
    and "ci_records ix' = ci_records ix" "ci_metadata ix' = ci_metadata ix"
      "ci_records_per_block ix' = ci_records_per_block ix" "ci_physical_len ix' = ci_physical_len ix"
      "ci_ids_sorted ix' = ci_ids_sorted ix"
  shows "index_shows env ix' xs"
  using assms row_ok_extends [OF _ assms(2)]
  by (auto simp: index_shows_def metadata_shows_def elim: list_all2_mono)

lemma row_text_new_Some: "row_text_new ul r = Some t \<Longrightarrow> t = lowered_text ul r"
  by (auto simp: row_text_new_def Let_def split: if_splits)

text \<open>The index after a row was packed: all earlier rows, and the new row readable, but not yet listed.\<close>

lemma pack_row_ok:
  assumes shown: "index_shows env ix xs" and env: "packed_env_ok env"
    and valid: "file_valid (file_of_ref (pe_lower env) d)"
    and hint: "\<And>h. hint = Some h \<Longrightarrow> h \<noteq> no_prefix"
    and e: "intern_extension env (dr_ext_lower d) ix = Some (e, ix1)"
    and pack: "pack_record env d (lowered_text (pe_lower env) d) e hint ix1 = Some (r, ix2)"
  shows "index_shows env ix2 xs \<and> extends ix ix2 \<and> row_ok ix2 r (file_of_ref (pe_lower env) d) \<and> is_live r \<and>
    ix2 = ix\<lparr>ci_extensions := ci_extensions ix1, ci_arenas := ci_arenas ix2, ci_prefixes := ci_prefixes ix2\<rparr>"
proof -
  let ?x = "file_of_ref (pe_lower env) d"
  note i = intern_extension_ok [OF e]
  have s: "length (ci_extensions ix) \<le> u32_max" "pool_ok (pe_hash env) (ci_prefixes ix)"
    using shown by (simp_all add: index_shows_def)
  have i: "extends ix ix1" "ix1 = ix\<lparr>ci_extensions := ci_extensions ix1\<rparr>" "length (ci_extensions ix1) \<le> u32_max"
      "\<And>r. cr_ext r = e \<Longrightarrow> ext_of ix1 r = Some (dr_ext_lower d)"
    using i s(1) by blast+
  have p1: "ci_prefixes ix1 = ci_prefixes ix" using i(2) by (cases ix; cases ix1) simp
  have alloc: "allocates (pe_alloc env)" using env by (simp add: packed_env_ok_def)
  have p: "extends ix1 ix2" "ix2 = ix1\<lparr>ci_arenas := ci_arenas ix2, ci_prefixes := ci_prefixes ix2\<rparr>"
      "pool_ok (pe_hash env) (ci_prefixes ix2)" "texts_ok ix2 r ?x" "cr_id r = dr_id d" "cr_kind r = dr_kind d"
      "cr_ext r = e" "is_live r" "\<And>f. bit (cr_present r) f \<longleftrightarrow> f < 5 \<and> metadata_fields_of d ! f \<noteq> None"
    using pack_record_ok [OF _ alloc valid hint pack] s(2) p1 by auto
  have ext: "extends ix ix2" using extends_trans [OF i(1) p(1)] .
  have same: "ix2 = ix\<lparr>ci_extensions := ci_extensions ix1, ci_arenas := ci_arenas ix2, ci_prefixes := ci_prefixes ix2\<rparr>"
    using i(2) p(2) by (cases ix; cases ix1; cases ix2) simp
  have "row_ok ix2 r ?x"
    using p(4-7,9) ext_of_extends [OF i(4) p(1)] by (simp add: row_ok_def, simp add: file_of_ref_def)
  moreover have "index_shows env ix2 xs"
    by (rule index_shows_extends [OF shown ext p(3)]) (use same i(3) in \<open>cases ix; cases ix2; simp\<close>)+
  ultimately show ?thesis using ext same p(8) by blast
qed

lemma builder_push_ok:
  assumes shown: "index_shows env (ib_index b) xs" and env: "packed_env_ok env" and size: "block_size_ok (ib_index b)"
    and valid: "file_valid (file_of_ref (pe_lower env) d)" and hint: "ib_last_prefix b \<noteq> Some no_prefix"
    and push: "builder_push env d b = Some b'"
  shows "index_shows env (ib_index b') (xs @ [file_of_ref (pe_lower env) d]) \<and> block_size_ok (ib_index b') \<and>
    ib_last_prefix b' \<noteq> Some no_prefix \<and> ci_len (ib_index b') = ci_len (ib_index b) + 1 \<and>
    (\<exists>r. concat (ci_records (ib_index b')) = concat (ci_records (ib_index b)) @ [r] \<and> is_live r) \<and>
    ci_fragmentation (ib_index b') = ci_fragmentation (ib_index b) \<and>
    ci_ids_sorted (ib_index b') = (ci_ids_sorted (ib_index b) \<and> (xs \<noteq> [] \<longrightarrow> fr_id (last xs) < dr_id d))"
proof -
  let ?x = "file_of_ref (pe_lower env) d"
  obtain e ix1 packed ix2 ix3 where run: "intern_extension env (dr_ext_lower d) (ib_index b) = Some (e, ix1)"
      "pack_record env d (lowered_text (pe_lower env) d) e (ib_last_prefix b) ix1 = Some (packed, ix2)"
      "append_record env packed (metadata_input_of d) ix2 = Some ix3" "ib_index b' = ix3"
      "ib_last_prefix b' = (if cr_prefix packed \<noteq> no_prefix then Some (cr_prefix packed) else ib_last_prefix b)"
    using push by (auto simp: builder_push_def bind_eq_Some_conv dest!: row_text_new_Some)
  have p: "index_shows env ix2 xs" "row_ok ix2 packed ?x" "is_live packed"
      "ix2 = (ib_index b)\<lparr>ci_extensions := ci_extensions ix1, ci_arenas := ci_arenas ix2, ci_prefixes := ci_prefixes ix2\<rparr>"
    using pack_row_ok [OF shown env valid _ run(1,2)] hint by blast+
  have same: "ci_records_per_block ix2 = ci_records_per_block (ib_index b)" "ci_records ix2 = ci_records (ib_index b)"
      "ci_len ix2 = ci_len (ib_index b)" "ci_fragmentation ix2 = ci_fragmentation (ib_index b)"
      "ci_ids_sorted ix2 = ci_ids_sorted (ib_index b)"
    using p(4) by (metis compact_index.surjective compact_index.update_convs compact_index.select_convs)+
  have sz: "block_size_ok ix2" using size same by (simp add: block_size_ok_def)
  have "append_record env packed (input_of_file ?x) ix2 = Some ix3" using run(3) by simp
  from append_record_ok [OF p(1) env sz p(2) valid this]
  show ?thesis using run(4,5) same sz p(3) hint by (auto simp: block_size_ok_def file_of_ref_def)
qed

definition live_files :: "compact_index \<Rightarrow> file_record list \<Rightarrow> file_record list" where
  "live_files ix xs = map snd (filter (is_live \<circ> fst) (zip (concat (ci_records ix)) xs))"

lemma builder_push_all_ok:
  assumes "index_shows env (ib_index b) xs" and "packed_env_ok env" and "block_size_ok (ib_index b)"
    and "\<And>d. d \<in> set ds \<Longrightarrow> file_valid (file_of_ref (pe_lower env) d)" and "ib_last_prefix b \<noteq> Some no_prefix"
    and "builder_push_all env ds b = Some b'" and "\<forall>r \<in> set (concat (ci_records (ib_index b))). is_live r"
    and "ci_ids_sorted (ib_index b) = sorted_wrt (<) (map fr_id xs)"
  shows "index_shows env (ib_index b') (xs @ map (file_of_ref (pe_lower env)) ds) \<and> block_size_ok (ib_index b') \<and>
    ci_len (ib_index b') = ci_len (ib_index b) + length ds \<and>
    (\<forall>r \<in> set (concat (ci_records (ib_index b'))). is_live r) \<and>
    ci_fragmentation (ib_index b') = ci_fragmentation (ib_index b) \<and>
    ci_ids_sorted (ib_index b') = sorted_wrt (<) (map fr_id xs @ map dr_id ds)"
  using assms
proof (induction ds arbitrary: b xs)
  case Nil
  then show ?case by simp
next
  case (Cons d ds)
  let ?x = "file_of_ref (pe_lower env) d"
  obtain b1 where b1: "builder_push env d b = Some b1" "builder_push_all env ds b1 = Some b'"
    using Cons.prems(6) by (auto simp: bind_eq_Some_conv)
  have v: "file_valid ?x" using Cons.prems(4) by simp
  note push = builder_push_ok [OF Cons.prems(1-3) v Cons.prems(5) b1(1)]
  have "sorted_wrt (<) (map fr_id (xs @ [?x])) = (sorted_wrt (<) (map fr_id xs) \<and> (xs \<noteq> [] \<longrightarrow> fr_id (last xs) < dr_id d))"
    by (cases xs rule: rev_cases) (auto simp: sorted_wrt_append file_of_ref_def)
  then have srt: "ci_ids_sorted (ib_index b1) = sorted_wrt (<) (map fr_id (xs @ [?x]))"
    using push Cons.prems(8) by blast
  obtain r where "concat (ci_records (ib_index b1)) = concat (ci_records (ib_index b)) @ [r]" "is_live r"
    using push by blast
  then have live: "\<forall>r \<in> set (concat (ci_records (ib_index b1))). is_live r"
    using Cons.prems(7) by (simp only: set_append) simp
  have "index_shows env (ib_index b1) (xs @ [?x])" "block_size_ok (ib_index b1)" "ib_last_prefix b1 \<noteq> Some no_prefix"
    using push by blast+
  from Cons.IH [OF this(1) Cons.prems(2) this(2) _ this(3) b1(2) live srt]
  show ?case using push Cons.prems(4) by (simp add: file_of_ref_def)
qed

lemma index_builder_new_ok:
  assumes "packed_env_ok env" and "0 < n"
  shows "index_shows env (ib_index (index_builder_new arena_bytes n)) []"
  using assms pool_new_ok [of prefix_pool_limit]
  by (simp add: usize_max_def prefix_pool_limit_def index_builder_new_def compact_index_default_def index_shows_def blocks_ok_def metadata_shows_def)

lemma compact_index_load_shows:
  assumes env: "packed_env_ok env" and valid: "\<And>d. d \<in> set ds \<Longrightarrow> file_valid (file_of_ref (pe_lower env) d)"
    and load: "compact_index_load env ds = Some ix"
  shows "index_shows env ix (map (file_of_ref (pe_lower env)) ds) \<and> ci_len ix = length ds \<and>
    (\<forall>r \<in> set (concat (ci_records ix)). is_live r) \<and> fs_dead_records (ci_fragmentation ix) = 0 \<and> block_size_ok ix \<and>
    ci_ids_sorted ix = sorted_wrt (<) (map dr_id ds)"
proof -
  let ?b = "index_builder_new arena_bytes_default records_per_block_default"
  obtain b where b: "builder_push_all env ds ?b = Some b" "ix = ib_index b"
    using load by (auto simp: compact_index_load_def)
  have "0 < records_per_block_default" by (simp add: records_per_block_default_def)
  note start = index_builder_new_ok [OF env this, of arena_bytes_default]
  have new: "block_size_ok (ib_index ?b)" "ib_last_prefix ?b \<noteq> Some no_prefix" "ci_len (ib_index ?b) = 0"
      "\<forall>r \<in> set (concat (ci_records (ib_index ?b))). is_live r" "fs_dead_records (ci_fragmentation (ib_index ?b)) = 0"
      "ci_ids_sorted (ib_index ?b) = sorted_wrt (<) (map fr_id [])"
    by (simp_all add: index_builder_new_def compact_index_default_def block_size_ok_def records_per_block_default_def)
  from builder_push_all_ok [OF start env new(1) valid new(2) b(1) new(4,6)]
  show ?thesis using b(2) new by simp
qed

end
