(* ===== verification/Compact_Delta.thy ===== *)
theory Compact_Delta
  imports Compact_Correct
begin

text \<open>
  A batch of changes on the packed index: the first loop of \<open>apply_changes_with_limits\<close> plans
  against the index as it is, the second one changes it. What both do is stated on the rows as a
  list of records, each live or dead.
\<close>

subsection \<open>Looking up an identifier\<close>

definition id_position :: "i64 \<Rightarrow> file_record list \<Rightarrow> usize option" where
  "id_position i xs = position (\<lambda>x. fr_id x = i) xs"

lemma position_unique:
  assumes "k < length xs" and "P (xs ! k)" and "\<And>j. j < length xs \<Longrightarrow> P (xs ! j) \<Longrightarrow> j = k"
  shows "position P xs = Some k"
proof (cases "position P xs")
  case None
  then show ?thesis using assms(1,2) by (auto simp: position_None)
next
  case (Some j)
  then show ?thesis using position_Some [OF Some] assms(3) by simp
qed

lemma find_id_loop_ok:
  assumes "index_shows env ix xs" and "sorted_wrt (<) (map fr_id xs)" and "high \<le> length xs" and "low \<le> high"
    and "\<And>k. k < low \<Longrightarrow> fr_id (xs ! k) < i" and "\<And>k. high \<le> k \<Longrightarrow> k < length xs \<Longrightarrow> i < fr_id (xs ! k)"
  shows "find_id_loop ix i low high = Some (id_position i xs)"
  using assms(3-6)
proof (induction "high - low" arbitrary: low high rule: less_induct)
  case less
  have order: "fr_id (xs ! j) < fr_id (xs ! k)" if "j < k" "k < length xs" for j k
    using assms(2) that by (simp add: sorted_wrt_iff_nth_less)
  show ?case
  proof (cases "low < high")
    case False
    then have "fr_id (xs ! k) \<noteq> i" if "k < length xs" for k
      using less.prems(3) [of k] less.prems(4) [of k] that by (cases "k < low") auto
    then have "\<forall>x \<in> set xs. fr_id x \<noteq> i" by (metis in_set_conv_nth)
    then have "id_position i xs = None" by (simp add: id_position_def position_None)
    then show ?thesis using False by (simp add: find_id_loop.simps)
  next
    case True
    define m where "m = low + (high - low) div 2"
    have m: "low \<le> m" "m < high" "m < length xs" using True less.prems(1) by (auto simp: m_def)
    note row = index_shows_row [OF assms(1) m(3)]
    have r: "record_at ix m = Some (concat (ci_records ix) ! m)" "cr_id (concat (ci_records ix) ! m) = fr_id (xs ! m)"
      using row by (simp_all add: row_ok_def)
    have step: "find_id_loop ix i low high =
        (case cmp_of (fr_id (xs ! m)) i of
           Less \<Rightarrow> find_id_loop ix i (m + 1) high | Greater \<Rightarrow> find_id_loop ix i low m | Equal \<Rightarrow> Some (Some m))"
      unfolding find_id_loop.simps [of ix i low high] Let_def m_def [symmetric] using True r by simp
    show ?thesis
    proof (cases "cmp_of (fr_id (xs ! m)) i")
      case Less
      then have "fr_id (xs ! k) < i" if "k < m + 1" for k
        using order [of k m] m(3) that by (cases "k = m") auto
      then have "find_id_loop ix i (m + 1) high = Some (id_position i xs)"
        using less.prems m by (intro less.hyps) auto
      then show ?thesis using step Less by simp
    next
      case Equal
      then have "id_position i xs = Some m" unfolding id_position_def
        using order m(3) by (intro position_unique) (auto, metis linorder_neqE_nat order_less_irrefl)
      then show ?thesis using step Equal by simp
    next
      case Greater
      then have "i < fr_id (xs ! k)" if "m \<le> k" "k < length xs" for k
        using order [of m k] that by (cases "k = m") auto
      then have "find_id_loop ix i low m = Some (id_position i xs)"
        using less.prems m by (intro less.hyps) auto
      then show ?thesis using step Greater by simp
    qed
  qed
qed

lemma find_id_ok:
  assumes "index_shows env ix xs" and "ci_ids_sorted ix"
  shows "find_id ix i = Some (id_position i xs)"
proof -
  have "sorted_wrt (<) (map fr_id xs)" "ci_physical_len ix = length xs" using assms by (simp_all add: index_shows_def)
  then show ?thesis unfolding find_id_def using find_id_loop_ok [OF assms(1)] by simp
qed

subsection \<open>Comparing the texts of a row\<close>

text \<open>The memory holds the texts of the pool at the addresses of the environment.\<close>

definition memory_ok :: "packed_env \<Rightarrow> compact_index \<Rightarrow> bool" where
  "memory_ok env ix \<longleftrightarrow>
     (\<forall>i p. pool_get (ci_prefixes ix) i = Some p \<longrightarrow>
        map (pe_memory env) [pe_address env i..<pe_address env i + length p] = p)"

definition same_texts :: "file_record \<Rightarrow> file_record \<Rightarrow> bool" where
  "same_texts x y \<longleftrightarrow>
     fr_path x = fr_path y \<and> fr_path_lower x = fr_path_lower y \<and> fr_basename x = fr_basename y \<and>
     fr_basename_lower x = fr_basename_lower y"

lemma path_view_of_ok:
  assumes "row_ok ix r x" and "memory_ok env ix"
  shows "\<exists>v. path_view_of env ix r = Some v \<and> pv_bytes (pe_memory env) v = fr_path x \<and>
    path_view_len v = length (fr_path x)"
proof -
  obtain p rst where p: "path_parts ix r = Some (p, rst)" "pool_get (ci_prefixes ix) (cr_prefix r) = Some p"
      "fr_path x = p @ rst"
    using row_ok_slices [OF assms(1)] by blast
  then show ?thesis using assms(2)
    by (auto simp: path_view_of_def pv_bytes_def pv_prefix_def path_view_len_def memory_ok_def)
qed

lemma same_strings_ok:
  assumes "row_ok ix r x" and "memory_ok env ix"
  shows "same_strings env ix r d (lowered_text (pe_lower env) d) = Some (same_texts x (file_of_ref (pe_lower env) d))"
proof -
  obtain v where v: "path_view_of env ix r = Some v" "pv_bytes (pe_memory env) v = fr_path x"
    using path_view_of_ok [OF assms] by blast
  obtain s2 s3 where s: "get_text ix r (cr_path_lower r) = Some (fr_path_lower x)"
      "get_text ix r s2 = Some (fr_basename x)" "get_text ix r s3 = Some (fr_basename_lower x)"
      "index_basename_slice ix r = Some s2" "index_basename_lower_slice ix r = Some s3"
    using row_ok_slices [OF assms(1)] by blast
  have "path_view_cmp (pe_memory env) v (path_view_from (dr_path d)) = Some (cmp_of (fr_path x) (dr_path d))"
    using path_view_cmp_eq [of "pe_memory env" v "path_view_from (dr_path d)"] v(2) by simp
  then show ?thesis unfolding same_strings_def using v(1) s by (simp add: same_texts_def file_of_ref_def)
qed


subsection \<open>Replacing a row\<close>

lemma set_record_at_Some:
  assumes "index_shows env ix xs" and "k < length xs"
  shows "\<exists>ix'. set_record_at k r ix = Some ix' \<and> ix' = ix\<lparr>ci_records := ci_records ix'\<rparr> \<and>
    concat (ci_records ix') = (concat (ci_records ix))[k := r] \<and>
    map length (ci_records ix') = map length (ci_records ix)"
proof -
  let ?n = "ci_records_per_block ix" and ?bs = "ci_records ix"
  have b: "blocks_ok ?n ?bs" "k < length (concat ?bs)"
    using assms by (auto simp: index_shows_def dest: list_all2_lengthD)
  note p = block_position [OF b]
  have "set_record_at k r ix = Some (ix\<lparr>ci_records := ?bs[k div ?n := (?bs ! (k div ?n))[k mod ?n := r]]\<rparr>)"
    using p by (simp add: set_record_at_def vec_get_less vec_set_less del: vec_get_Some vec_set_Some)
  moreover have "map length (?bs[k div ?n := (?bs ! (k div ?n))[k mod ?n := r]]) = map length ?bs"
    using p by (intro map_length_update) simp_all
  ultimately show ?thesis using block_update [OF b, of r] by simp
qed

lemma index_update_metadata_ok:
  assumes shown: "index_shows env ix xs" and k: "k < length xs"
    and input: "metadata_input_of d = input_of_file x" and valid: "file_valid x"
    and upd: "index_update_metadata env k d ix = Some ix'"
  shows "ix' = ix\<lparr>ci_metadata := ci_metadata ix'\<rparr> \<and> metadata_shows ix' (xs[k := x])"
proof -
  let ?n = "ci_records_per_block ix"
  obtain mss where m: "map length mss = map length (ci_records ix)" "list_all2 block_shows (ci_metadata ix) mss"
      "concat mss = map input_of_file xs"
    using shown by (auto simp: index_shows_def metadata_shows_def)
  have b: "blocks_ok ?n mss" using shown blocks_ok_lengths [OF m(1)] by (simp add: index_shows_def)
  have i: "k < length (concat mss)" using m(3) k by simp
  note p = block_position [OF b i]
  let ?q = "k div ?n" and ?row = "k mod ?n"
  obtain b' where b': "block_update (pe_alloc env) ?row (input_of_file x) (ci_metadata ix ! ?q) = Some b'"
      "ix' = ix\<lparr>ci_metadata := (ci_metadata ix)[?q := b']\<rparr>"
    using upd input by (auto simp: index_update_metadata_def bind_eq_Some_conv)
  have "block_shows (ci_metadata ix ! ?q) (mss ! ?q)" using m(2) p by (simp add: list_all2_conv_all_nth)
  moreover have "write_ok (Some ?row) (input_of_file x) (length (mss ! ?q))"
    using p file_valid_write [OF valid] by (simp add: write_ok_def)
  ultimately have bs: "block_shows b' ((mss ! ?q)[?row := input_of_file x])"
    using block_write_ok [of "ci_metadata ix ! ?q" "mss ! ?q" "Some ?row" "input_of_file x" "pe_alloc env"] b'(1)
    by (simp add: block_update_def rows_after_write_def)
  let ?mss = "mss[?q := (mss ! ?q)[?row := input_of_file x]]"
  have "list_all2 block_shows ((ci_metadata ix)[?q := b']) ?mss" using m(2) bs by (rule list_all2_update_cong)
  moreover have "map length ?mss = map length (ci_records ix)"
    using p m(1) map_length_update [of ?q mss] by simp
  moreover have "concat ?mss = map input_of_file (xs[k := x])"
    using block_update [OF b i, of "input_of_file x"] m(3) by (simp add: map_update)
  ultimately have "metadata_shows ix' (xs[k := x])" using b'(2) unfolding metadata_shows_def by auto
  then show ?thesis using b'(2) by simp
qed

lemma replace_row_ok:
  assumes shown: "index_shows env ix xs" and k: "k < length xs"
    and meta: "metadata_shows ix1 (xs[k := x])" "ix1 = ix\<lparr>ci_metadata := ci_metadata ix1\<rparr>"
    and row: "row_ok ix r x" and id: "fr_id x = fr_id (xs ! k)"
    and set: "set_record_at k r ix1 = Some ix2"
  shows "index_shows env ix2 (xs[k := x]) \<and> extends ix ix2 \<and> concat (ci_records ix2) = (concat (ci_records ix))[k := r] \<and>
    ix2 = ix\<lparr>ci_records := ci_records ix2, ci_metadata := ci_metadata ix2\<rparr>"
proof -
  have same1: "ci_records ix1 = ci_records ix" "ci_records_per_block ix1 = ci_records_per_block ix"
    using meta(2) by (metis compact_index.surjective compact_index.update_convs compact_index.select_convs)+
  have "set_record_at k r ix = Some (ix\<lparr>ci_records := ci_records ix2\<rparr>) \<and> ix2 = ix1\<lparr>ci_records := ci_records ix2\<rparr>"
    using set by (auto simp: set_record_at_def bind_eq_Some_conv same1)
  moreover from set_record_at_Some [OF shown k, of r]
  obtain ix' where "set_record_at k r ix = Some ix'" "concat (ci_records ix') = (concat (ci_records ix))[k := r]"
      "map length (ci_records ix') = map length (ci_records ix)"
    by blast
  ultimately have c: "concat (ci_records ix2) = (concat (ci_records ix))[k := r]"
      "map length (ci_records ix2) = map length (ci_records ix)" and "ix2 = ix1\<lparr>ci_records := ci_records ix2\<rparr>"
    by simp_all
  then have same: "ix2 = ix\<lparr>ci_records := ci_records ix2, ci_metadata := ci_metadata ix2\<rparr>" "ci_metadata ix2 = ci_metadata ix1"
    using meta(2) by (cases ix; cases ix1; cases ix2; simp)+
  then have f: "ci_arenas ix2 = ci_arenas ix" "ci_prefixes ix2 = ci_prefixes ix" "ci_extensions ix2 = ci_extensions ix"
      "ci_records_per_block ix2 = ci_records_per_block ix" "ci_physical_len ix2 = ci_physical_len ix"
      "ci_ids_sorted ix2 = ci_ids_sorted ix"
    by (metis compact_index.surjective compact_index.update_convs compact_index.select_convs)+
  have ext: "extends ix ix2" using f by (intro extends_same)
  have rows: "list_all2 (row_ok ix2) ((concat (ci_records ix))[k := r]) (xs[k := x])"
    using shown row row_ok_extends [OF _ ext] by (intro list_all2_update_cong) (auto simp: index_shows_def elim: list_all2_mono)
  have "map fr_id (xs[k := x]) = map fr_id xs" using k id by (simp add: map_update list_update_same_conv)
  then have "index_shows env ix2 (xs[k := x])"
    using shown rows c f meta(1) same(2) same1(1) blocks_ok_lengths [OF c(2)]
    by (simp add: index_shows_def metadata_shows_def)
  then show ?thesis using ext c(1) same(1) by blast
qed


subsection \<open>Changing the index\<close>

text \<open>The rows of an index: each live or dead, and the record that it holds or held.\<close>

type_synonym packed_rows = "(bool \<times> file_record) list"

definition index_rows_are :: "packed_env \<Rightarrow> compact_index \<Rightarrow> packed_rows \<Rightarrow> bool" where
  "index_rows_are env ix rows \<longleftrightarrow>
     index_shows env ix (map snd rows) \<and> map is_live (concat (ci_records ix)) = map fst rows \<and>
     ci_ids_sorted ix \<and> block_size_ok ix"

definition packed_file :: "(str \<Rightarrow> str) \<Rightarrow> file_record \<Rightarrow> file_record" where
  "packed_file ul r = file_of_ref ul (borrow_record r)"

lemma packed_file_id [simp]: "fr_id (packed_file ul r) = fr_id r"
  by (simp add: packed_file_def file_of_ref_def borrow_record_def)

lemma packed_file_inputs:
  "metadata_input_of (borrow_record r) = input_of_file (packed_file ul r)"
  "dr_ext_lower (borrow_record r) = fr_ext_lower (packed_file ul r)"
  "dr_kind (borrow_record r) = fr_kind (packed_file ul r)"
  "dr_id (borrow_record r) = fr_id (packed_file ul r)"
  by (simp_all add: packed_file_def) (simp_all add: file_of_ref_def borrow_record_def)

definition row_step :: "(str \<Rightarrow> str) \<Rightarrow> file_change \<Rightarrow> usize option \<Rightarrow> packed_rows \<Rightarrow> packed_rows" where
  "row_step ul change slot rows =
     (case (snd change, slot) of
        (Some r, Some k) \<Rightarrow> rows[k := (True, packed_file ul r)]
      | (Some r, None) \<Rightarrow> rows @ [(True, packed_file ul r)]
      | (None, Some k) \<Rightarrow> rows[k := (False, snd (rows ! k))]
      | (None, None) \<Rightarrow> rows)"

definition row_ids :: "packed_rows \<Rightarrow> i64 list" where
  "row_ids rows = map (fr_id \<circ> snd) rows"

text \<open>A plan that fits the rows: where the identifier is, and texts to pack unless the old ones can stay.\<close>

definition plan_ok :: "(str \<Rightarrow> str) \<Rightarrow> packed_rows \<Rightarrow> file_change \<Rightarrow> delta_plan \<Rightarrow> bool" where
  "plan_ok ul rows change plan \<longleftrightarrow>
     fst plan = id_position (fst change) (map snd rows) \<and>
     (case snd change of None \<Rightarrow> True
      | Some r \<Rightarrow> fr_id r = fst change \<and> file_valid (packed_file ul r) \<and>
          (fst plan = None \<longrightarrow> (\<forall>i \<in> set (row_ids rows). i < fst change)) \<and>
          (case snd plan of
             Some l \<Rightarrow> l = lowered_text ul (borrow_record r)
           | None \<Rightarrow> \<exists>k. fst plan = Some k \<and> same_texts (snd (rows ! k)) (packed_file ul r)))"

lemma id_position_Some:
  "id_position i xs = Some k \<Longrightarrow> k < length xs \<and> fr_id (xs ! k) = i"
  unfolding id_position_def by (drule position_Some) simp

lemma tombstone_bits:
  "f < 5 \<Longrightarrow> bit (p OR tombstone) f = bit p f" "bit (p OR tombstone) 7" for p :: u8
  unfolding tombstone_def by (simp_all only: bit_or_iff bit_push_bit_iff bit_1_iff) (simp_all add: bit_simps)

lemma is_live_update: "k < length rs \<Longrightarrow> is_live r = b \<Longrightarrow> map is_live (rs[k := r]) = (map is_live rs)[k := b]"
  by (simp add: map_update)

lemma execute_delete_ok:
  assumes rows: "index_rows_are env ix rows" and k: "k < length rows"
    and run: "Option.bind (record_at ix k) (\<lambda>old. set_record_at k (old\<lparr>cr_present := cr_present old OR tombstone\<rparr>) ix) = Some ix'"
  shows "index_rows_are env ix' (rows[k := (False, snd (rows ! k))])"
proof -
  let ?xs = "map snd rows" and ?old = "concat (ci_records ix) ! k"
  let ?r = "?old\<lparr>cr_present := cr_present ?old OR tombstone\<rparr>"
  have shown: "index_shows env ix ?xs" and kx: "k < length ?xs" using rows k by (simp_all add: index_rows_are_def)
  note row = index_shows_row [OF shown kx]
  have set: "set_record_at k ?r ix = Some ix'" using run row(1) by simp
  have "texts_ok ix ?r (?xs ! k)"
    using row(2) texts_ok_cong [of ix ?old "?xs ! k" ?r "?xs ! k"] by (simp add: row_ok_def)
  moreover have "ext_of ix ?r = ext_of ix ?old" by (simp add: ext_of_def)
  ultimately have new: "row_ok ix ?r (?xs ! k)" using row(2) tombstone_bits(1) by (simp add: row_ok_def)
  have same: "?xs[k := ?xs ! k] = ?xs" by simp
  have meta: "metadata_shows ix (?xs[k := ?xs ! k])" using shown unfolding same by (simp add: index_shows_def)
  have "ix = ix\<lparr>ci_metadata := ci_metadata ix\<rparr>" by simp
  from replace_row_ok [OF shown kx meta this new refl set]
  have res: "index_shows env ix' ?xs" "concat (ci_records ix') = (concat (ci_records ix))[k := ?r]"
      "ix' = ix\<lparr>ci_records := ci_records ix', ci_metadata := ci_metadata ix'\<rparr>"
    unfolding same by blast+
  have f: "ci_ids_sorted ix' = ci_ids_sorted ix" "ci_records_per_block ix' = ci_records_per_block ix"
    using res(3) by (metis compact_index.surjective compact_index.update_convs compact_index.select_convs)+
  have "length (concat (ci_records ix)) = length rows"
    using rows by (metis index_rows_are_def length_map)
  moreover have "\<not> is_live ?r" using tombstone_bits(2) by (simp add: live_bit)
  ultimately have "map is_live (concat (ci_records ix')) = (map fst rows)[k := False]"
    using res(2) k rows is_live_update [of k "concat (ci_records ix)" ?r False] by (simp add: index_rows_are_def)
  moreover have "map snd (rows[k := (False, snd (rows ! k))]) = ?xs" using k by (simp add: map_update list_update_same_conv)
  ultimately show ?thesis using res(1) f rows by (simp add: index_rows_are_def map_update block_size_ok_def)
qed


lemma execute_update_ok:
  assumes rows: "index_rows_are env ix rows" and k: "k < length rows" and id: "fr_id x = fr_id (snd (rows ! k))"
    and row: "row_ok ix r x" "is_live r" and input: "metadata_input_of d = input_of_file x" "file_valid x"
    and run: "index_update_metadata env k d ix = Some ix1" "set_record_at k r ix1 = Some ix'"
  shows "index_rows_are env ix' (rows[k := (True, x)])"
proof -
  let ?xs = "map snd rows"
  have shown: "index_shows env ix ?xs" and kx: "k < length ?xs" and id': "fr_id x = fr_id (?xs ! k)"
    using rows k id by (simp_all add: index_rows_are_def)
  note meta = index_update_metadata_ok [OF shown kx input run(1)]
  have res: "index_shows env ix' (?xs[k := x])" "concat (ci_records ix') = (concat (ci_records ix))[k := r]"
      "ix' = ix\<lparr>ci_records := ci_records ix', ci_metadata := ci_metadata ix'\<rparr>"
    using replace_row_ok [OF shown kx _ _ row(1) id' run(2)] meta by blast+
  have f: "ci_ids_sorted ix' = ci_ids_sorted ix" "ci_records_per_block ix' = ci_records_per_block ix"
    using res(3) by (metis compact_index.surjective compact_index.update_convs compact_index.select_convs)+
  have "length (concat (ci_records ix)) = length rows"
    using rows by (metis index_rows_are_def length_map)
  then have "map is_live (concat (ci_records ix')) = (map fst rows)[k := True]"
    using res(2) k rows row(2) is_live_update [of k "concat (ci_records ix)" r True] by (simp add: index_rows_are_def)
  then show ?thesis using res(1) f rows by (simp add: index_rows_are_def map_update block_size_ok_def)
qed

lemma index_rows_are_extends:
  assumes "index_rows_are env ix rows" and "index_shows env ix' (map snd rows)"
    and "ci_records ix' = ci_records ix" "ci_ids_sorted ix' = ci_ids_sorted ix"
      "ci_records_per_block ix' = ci_records_per_block ix"
  shows "index_rows_are env ix' rows"
  using assms by (simp add: index_rows_are_def block_size_ok_def)

lemma append_row_ok:
  assumes rows: "index_rows_are env ix rows" and env: "packed_env_ok env"
    and row: "row_ok ix r x" "is_live r" "file_valid x" and above: "\<forall>i \<in> set (row_ids rows). i < fr_id x"
    and run: "append_record env r (input_of_file x) ix = Some ix'"
  shows "index_rows_are env ix' (rows @ [(True, x)])"
proof -
  have a: "index_shows env ix (map snd rows)" "block_size_ok ix" using rows by (simp_all add: index_rows_are_def)
  note app = append_record_ok [OF a(1) env a(2) row(1,3) run]
  have "fr_id y < fr_id x" if "map snd rows \<noteq> []" "y = last (map snd rows)" for y
    using above that by (auto simp: row_ids_def last_map)
  then show ?thesis using app rows row(2) by (auto simp: index_rows_are_def block_size_ok_def)
qed

lemma execute_in_place_ok:
  assumes rows: "index_rows_are env ix rows" and k: "k < length rows"
    and id: "fr_id r = fr_id (snd (rows ! k))" and valid: "file_valid (packed_file (pe_lower env) r)"
    and same: "same_texts (snd (rows ! k)) (packed_file (pe_lower env) r)"
    and e: "intern_extension env (dr_ext_lower (borrow_record r)) ix = Some (e, ix1)"
    and u: "index_update_metadata env k (borrow_record r) ix1 = Some ix2" "record_at ix2 k = Some old"
      "set_record_at k (record_update_metadata (borrow_record r) e old) ix2 = Some ix'"
  shows "index_rows_are env ix' (rows[k := (True, packed_file (pe_lower env) r)])"
proof -
  let ?x = "packed_file (pe_lower env) r" and ?d = "borrow_record r"
  note pf = packed_file_inputs [where ul = "pe_lower env" and r = r]
  have shown: "index_shows env ix (map snd rows)" using rows by (simp add: index_rows_are_def)
  have i: "extends ix ix1" "ix1 = ix\<lparr>ci_extensions := ci_extensions ix1\<rparr>" "length (ci_extensions ix1) \<le> u32_max"
      "\<And>r. cr_ext r = e \<Longrightarrow> ext_of ix1 r = Some (dr_ext_lower ?d)"
    using intern_extension_ok [OF e] shown by (simp_all add: index_shows_def)
  have f: "ci_records ix1 = ci_records ix" "ci_metadata ix1 = ci_metadata ix" "ci_prefixes ix1 = ci_prefixes ix"
      "ci_records_per_block ix1 = ci_records_per_block ix" "ci_physical_len ix1 = ci_physical_len ix"
      "ci_ids_sorted ix1 = ci_ids_sorted ix"
    using i(2) by (metis compact_index.surjective compact_index.update_convs compact_index.select_convs)+
  have shown1: "index_shows env ix1 (map snd rows)"
    by (rule index_shows_extends [OF shown i(1)]) (use f i(3) shown in \<open>simp_all add: index_shows_def\<close>)
  then have rows1: "index_rows_are env ix1 rows" using index_rows_are_extends [OF rows] f by blast
  have kx: "k < length (map snd rows)" using k by simp
  note row = index_shows_row [OF shown1 kx]
  have "ix2 = ix1\<lparr>ci_metadata := ci_metadata ix2\<rparr>"
    using index_update_metadata_ok [OF shown1 kx pf(1) valid u(1)] by blast
  then have "ci_records ix2 = ci_records ix1" "ci_records_per_block ix2 = ci_records_per_block ix1"
    by (cases ix1; cases ix2; simp)+
  then have "record_at ix2 k = record_at ix1 k" by (simp add: record_at_def)
  then have old: "row_ok ix1 old (snd (rows ! k))" using row u(2) kx by simp
  let ?r = "record_update_metadata ?d e old"
  have "texts_ok ix1 ?r ?x"
    using old same texts_ok_cong [of ix1 old "snd (rows ! k)" ?r ?x]
    by (simp add: row_ok_def same_texts_def record_update_metadata_def)
  moreover have "cr_id ?r = fr_id ?x" "cr_kind ?r = fr_kind ?x" "cr_ext ?r = e"
    using pf(3,4) by (simp_all add: record_update_metadata_def)
  moreover have "metadata_fields_of ?d = fields_of_file ?x" by (simp add: packed_file_def)
  ultimately have "row_ok ix1 ?r ?x" "is_live ?r"
    using i(4) pf(2) update_metadata_bits by (simp_all add: row_ok_def)
  then show ?thesis using execute_update_ok [OF rows1 k _ _ _ pf(1) valid u(1,3)] id by simp
qed

lemma execute_change_ok:
  assumes rows: "index_rows_are env ix rows" and env: "packed_env_ok env"
    and plan: "plan_ok (pe_lower env) rows change plan"
    and run: "execute_change env change plan ix = Some ix'"
  shows "index_rows_are env ix' (row_step (pe_lower env) change (fst plan) rows)"
proof (cases "snd change")
  case None
  show ?thesis
  proof (cases "fst plan")
    case (Some k)
    then have "k < length rows" using plan id_position_Some [of "fst change" "map snd rows" k] by (simp add: plan_ok_def)
    then show ?thesis using execute_delete_ok [OF rows] run None Some by (simp add: execute_change_def row_step_def)
  qed (use None run rows in \<open>simp add: execute_change_def row_step_def\<close>)
next
  case (Some r)
  let ?x = "packed_file (pe_lower env) r" and ?d = "borrow_record r"
  note pf = packed_file_inputs [where ul = "pe_lower env" and r = r]
  have p: "fr_id r = fst change" "file_valid ?x" "file_valid (file_of_ref (pe_lower env) ?d)"
    using plan Some by (simp_all add: plan_ok_def packed_file_def)
  have slot: "k < length rows \<and> fr_id ?x = fr_id (snd (rows ! k))" if "fst plan = Some k" for k
  proof -
    have "id_position (fst change) (map snd rows) = Some k" using that plan by (simp add: plan_ok_def)
    from id_position_Some [OF this] show ?thesis using p(1) by auto
  qed
  have shown: "index_shows env ix (map snd rows)" using rows by (simp add: index_rows_are_def)
  obtain e ix1 where e: "intern_extension env (dr_ext_lower ?d) ix = Some (e, ix1)"
    using run Some by (auto simp: execute_change_def Let_def bind_eq_Some_conv)
  show ?thesis
  proof (cases "snd plan")
    case (Some lowered)
    then have low: "lowered = lowered_text (pe_lower env) ?d" using plan \<open>snd change = Some r\<close> by (simp add: plan_ok_def)
    obtain packed ix2 where pk: "pack_record env ?d (lowered_text (pe_lower env) ?d) e None ix1 = Some (packed, ix2)"
        "(case fst plan of
            Some slot \<Rightarrow> Option.bind (index_update_metadata env slot ?d ix2) (set_record_at slot packed)
          | None \<Rightarrow> append_record env packed (metadata_input_of ?d) ix2) = Some ix'"
      using run Some \<open>snd change = Some r\<close> e low by (auto simp: execute_change_def Let_def bind_eq_Some_conv)
    have new: "index_shows env ix2 (map snd rows)" "row_ok ix2 packed ?x" "is_live packed"
        "ix2 = ix\<lparr>ci_extensions := ci_extensions ix1, ci_arenas := ci_arenas ix2, ci_prefixes := ci_prefixes ix2\<rparr>"
      using pack_row_ok [OF shown env p(3) _ e pk(1)] by (simp_all add: packed_file_def)
    have rows2: "index_rows_are env ix2 rows"
      by (rule index_rows_are_extends [OF rows new(1)])
         (use new(4) in \<open>metis compact_index.surjective compact_index.update_convs compact_index.select_convs\<close>)+
    show ?thesis
    proof (cases "fst plan")
      case None
      then have "\<forall>i \<in> set (row_ids rows). i < fr_id ?x" using plan \<open>snd change = Some r\<close> p(1) by (simp add: plan_ok_def)
      then show ?thesis using append_row_ok [OF rows2 env new(2,3) p(2)] None pk(2) \<open>snd change = Some r\<close> pf(1)
        by (simp add: row_step_def)
    next
      case (Some k)
      then obtain ix3 where "index_update_metadata env k ?d ix2 = Some ix3" "set_record_at k packed ix3 = Some ix'"
        using pk(2) by (auto simp: bind_eq_Some_conv)
      then show ?thesis using execute_update_ok [OF rows2 _ _ new(2,3) pf(1) p(2)] slot [OF Some] Some \<open>snd change = Some r\<close>
        by (simp add: row_step_def)
    qed
  next
    case None
    have "\<exists>k. fst plan = Some k \<and> same_texts (snd (rows ! k)) ?x"
      using plan unfolding plan_ok_def \<open>snd change = Some r\<close> None option.case by (elim conjE)
    then obtain k where k: "fst plan = Some k" "same_texts (snd (rows ! k)) ?x" by blast
    obtain ix2 old where u: "index_update_metadata env k ?d ix1 = Some ix2" "record_at ix2 k = Some old"
        "set_record_at k (record_update_metadata ?d e old) ix2 = Some ix'"
      using run None \<open>snd change = Some r\<close> e k(1) by (auto simp: execute_change_def Let_def bind_eq_Some_conv)
    then show ?thesis using execute_in_place_ok [OF rows _ _ p(2) k(2) e u] slot [OF k(1)] k(1) \<open>snd change = Some r\<close>
      by (simp add: row_step_def)
  qed
qed


subsection \<open>Planning\<close>

text \<open>
  The plans are made against the index as it is before the batch. Identifiers come in
  increasing order, so a row that is still to be changed is as it was.
\<close>

definition to_come :: "i64 option \<Rightarrow> i64 \<Rightarrow> bool" where
  "to_come previous j \<longleftrightarrow> (case previous of Some p \<Rightarrow> p < j | None \<Rightarrow> True)"

definition rows_agree :: "i64 option \<Rightarrow> packed_rows \<Rightarrow> packed_rows \<Rightarrow> bool" where
  "rows_agree previous rows0 rows \<longleftrightarrow>
     (\<exists>new. row_ids rows = row_ids rows0 @ new \<and> (\<forall>n \<in> set new. \<not> to_come previous n)) \<and>
     (\<forall>k < length rows0. to_come previous (fr_id (snd (rows0 ! k))) \<longrightarrow> rows ! k = rows0 ! k) \<and>
     sorted_wrt (<) (row_ids rows)"

lemma position_map: "position P (map f xs) = position (\<lambda>x. P (f x)) xs"
  by (induction xs) auto

lemma position_append: "(\<And>y. y \<in> set ys \<Longrightarrow> \<not> P y) \<Longrightarrow> position P (xs @ ys) = position P xs"
  by (induction xs) (auto simp: position_None)

lemma position_snoc: "\<forall>y \<in> set xs. \<not> P y \<Longrightarrow> P x \<Longrightarrow> position P (xs @ [x]) = Some (length xs)"
  by (induction xs) auto

lemma id_position_ids: "id_position i (map snd rows) = position (\<lambda>j. j = i) (row_ids rows)"
  by (simp add: id_position_def row_ids_def position_map)

lemma rows_agree_position:
  assumes "rows_agree previous rows0 rows" and "to_come previous i"
  shows "id_position i (map snd rows) = id_position i (map snd rows0)"
proof -
  obtain new where n: "row_ids rows = row_ids rows0 @ new" "\<forall>n \<in> set new. \<not> to_come previous n"
    using assms(1) by (auto simp: rows_agree_def)
  then have "j \<noteq> i" if "j \<in> set new" for j using assms(2) that by auto
  then show ?thesis using n(1) by (simp add: id_position_ids position_append)
qed

lemma rows_agree_row:
  assumes "rows_agree previous rows0 rows" and "to_come previous i" and "id_position i (map snd rows0) = Some k"
  shows "k < length rows0 \<and> k < length rows \<and> rows ! k = rows0 ! k \<and> fr_id (snd (rows0 ! k)) = i"
proof -
  have k: "k < length rows0" "fr_id (snd (rows0 ! k)) = i" using id_position_Some [OF assms(3)] by auto
  moreover have "k < length rows"
    using id_position_Some [of i "map snd rows" k] assms(3) rows_agree_position [OF assms(1,2)] by simp
  ultimately show ?thesis using assms(1,2) by (auto simp: rows_agree_def)
qed

text \<open>How many rows are live, and how many are dead.\<close>

definition count_live :: "packed_rows \<Rightarrow> nat" where "count_live rows = length (filter fst rows)"
definition count_dead :: "packed_rows \<Rightarrow> nat" where "count_dead rows = length (filter (Not \<circ> fst) rows)"

lemma filter_update_count:
  "k < length xs \<Longrightarrow> length (filter P (xs[k := x])) + (if P (xs ! k) then 1 else 0) = length (filter P xs) + (if P x then 1 else 0)"
proof (induction xs arbitrary: k)
  case (Cons y ys)
  then show ?case using Cons.IH [of "k - 1"] by (cases k) auto
qed simp

lemma count_update:
  "k < length rows \<Longrightarrow> count_live (rows[k := r]) + of_bool (fst (rows ! k)) = count_live rows + of_bool (fst r)"
  "k < length rows \<Longrightarrow> count_dead (rows[k := r]) + of_bool (\<not> fst (rows ! k)) = count_dead rows + of_bool (\<not> fst r)"
  using filter_update_count [of k rows fst r] filter_update_count [of k rows "Not \<circ> fst" r]
  by (auto simp: count_live_def count_dead_def)

definition counts_ok :: "plan_state \<Rightarrow> packed_rows \<Rightarrow> bool" where
  "counts_ok st rows \<longleftrightarrow> pl_len st = count_live rows \<and> fs_dead_records (pl_fragmentation st) = count_dead rows"

lemma count_string_bytes_same:
  "count_string_bytes ix r st = Some st' \<Longrightarrow>
     pl_len st' = pl_len st \<and> fs_dead_records (pl_fragmentation st') = fs_dead_records (pl_fragmentation st) \<and>
     pl_previous st' = pl_previous st"
  by (auto simp: count_string_bytes_def bind_eq_Some_conv)

lemma count_extension_same:
  "count_extension ix e st = Some st' \<Longrightarrow>
     pl_len st' = pl_len st \<and> fs_dead_records (pl_fragmentation st') = fs_dead_records (pl_fragmentation st) \<and>
     pl_previous st' = pl_previous st"
  by (auto simp: count_extension_def bind_eq_Some_conv split: option.splits if_splits)

lemma count_row_ok:
  assumes "count_row ix old unchanged st = Some st'" and "counts_ok st rows"
    and "\<And>r. old = Some r \<Longrightarrow> \<exists>k. slot = Some k \<and> k < length rows \<and> is_live r = fst (rows ! k)"
    and "old = None \<Longrightarrow> slot = None"
  shows "counts_ok st' (row_step ul (i, Some r) slot rows) \<and> pl_previous st' = pl_previous st"
proof (cases old)
  case None
  then show ?thesis using assms
    by (auto simp: count_row_def checked_add_def counts_ok_def row_step_def count_live_def count_dead_def split: if_splits)
next
  case (Some rec)
  then obtain k where k: "slot = Some k" "k < length rows" "is_live rec = fst (rows ! k)" using assms(3) by blast
  let ?new = "(True, packed_file ul r)"
  note c = count_update [OF k(2), of ?new]
  show ?thesis
  proof (cases "is_live rec")
    case True
    have "pl_len st' = pl_len st \<and> fs_dead_records (pl_fragmentation st') = fs_dead_records (pl_fragmentation st) \<and>
        pl_previous st' = pl_previous st"
      using assms(1) Some True count_string_bytes_same by (auto simp: count_row_def split: if_splits)
    then show ?thesis using c assms(2) k True by (simp add: counts_ok_def row_step_def)
  next
    case False
    have "0 < fs_dead_records (pl_fragmentation st) \<and> pl_len st' = pl_len st + 1 \<and> pl_previous st' = pl_previous st \<and>
        fs_dead_records (pl_fragmentation st') = fs_dead_records (pl_fragmentation st) - 1"
      using assms(1) Some False
      by (auto simp: count_row_def bind_eq_Some_conv checked_add_def checked_sub_def split: if_splits)
    then show ?thesis using c assms(2) k False by (simp add: counts_ok_def row_step_def)
  qed
qed

lemma count_delete_ok:
  assumes "count_delete ix old st = Some st'" and "counts_ok st rows"
    and "\<And>r. old = Some r \<Longrightarrow> \<exists>k. slot = Some k \<and> k < length rows \<and> is_live r = fst (rows ! k)"
    and "old = None \<Longrightarrow> slot = None"
  shows "counts_ok st' (row_step ul (i, None) slot rows) \<and> pl_previous st' = pl_previous st"
proof (cases old)
  case None
  then show ?thesis using assms by (auto simp: count_delete_def row_step_def)
next
  case (Some rec)
  then obtain k where k: "slot = Some k" "k < length rows" "is_live rec = fst (rows ! k)" using assms(3) by blast
  note c = count_update [OF k(2), of "(False, snd (rows ! k))"]
  show ?thesis
  proof (cases "is_live rec")
    case True
    have "0 < pl_len st \<and> pl_len st' = pl_len st - 1 \<and> pl_previous st' = pl_previous st \<and>
        fs_dead_records (pl_fragmentation st') = fs_dead_records (pl_fragmentation st) + 1"
      using assms(1) Some True
      by (auto simp: count_delete_def bind_eq_Some_conv checked_sub_def dest!: count_string_bytes_same split: if_splits)
    then show ?thesis using c assms(2) k True by (simp add: counts_ok_def row_step_def)
  next
    case False
    have "rows[k := (False, snd (rows ! k))] = rows" using k(3) False by (metis list_update_id prod.collapse)
    then show ?thesis using assms(1,2) Some False k(1) by (simp add: count_delete_def row_step_def)
  qed
qed


lemma row_step_ids:
  assumes "id_position (fst change) (map snd rows) = slot"
    and "\<And>r. snd change = Some r \<Longrightarrow> fr_id r = fst change"
  shows "row_ids (row_step ul change slot rows) =
    (if snd change \<noteq> None \<and> slot = None then row_ids rows @ [fst change] else row_ids rows)"
proof (cases slot)
  case None
  then show ?thesis using assms(2) by (cases "snd change") (simp_all add: row_step_def row_ids_def)
next
  case (Some k)
  then have k: "k < length rows" "fr_id (snd (rows ! k)) = fst change"
    using id_position_Some [of "fst change" "map snd rows" k] assms(1) by auto
  have "row_ids (rows[k := (b, x)]) = row_ids rows" if "fr_id x = fst change" for b x
    using k that by (simp add: row_ids_def map_update list_update_same_conv)
  then show ?thesis using Some assms(2) k(2) by (cases "snd change") (simp_all add: row_step_def)
qed

lemma row_step_other:
  assumes "id_position (fst change) (map snd rows) = slot" and "k < length rows"
    and "slot \<noteq> Some k"
  shows "row_step ul change slot rows ! k = rows ! k"
  using assms by (auto simp: row_step_def nth_append split: option.split)

lemma rows_agree_step:
  assumes agree: "rows_agree previous rows0 rows" and come: "to_come previous i"
    and change: "fst change = i" "\<And>r. snd change = Some r \<Longrightarrow> fr_id r = i"
    and slot: "slot = id_position i (map snd rows0)"
    and above: "snd change \<noteq> None \<Longrightarrow> slot = None \<Longrightarrow> (\<forall>j \<in> set (row_ids rows). j < i)"
  shows "rows_agree (Some i) rows0 (row_step ul change slot rows)"
proof -
  let ?rows = "row_step ul change slot rows"
  have pos: "id_position (fst change) (map snd rows) = slot" using rows_agree_position [OF agree come] slot change(1) by simp
  have ids: "row_ids ?rows = (if snd change \<noteq> None \<and> slot = None then row_ids rows @ [i] else row_ids rows)"
    using row_step_ids [OF pos] change by simp
  obtain new where new: "row_ids rows = row_ids rows0 @ new" "\<forall>n \<in> set new. \<not> to_come previous n"
    using agree by (auto simp: rows_agree_def)
  have later: "to_come previous j" if "to_come (Some i) j" for j
    using that come by (auto simp: to_come_def split: option.splits)
  have "\<exists>new'. row_ids ?rows = row_ids rows0 @ new' \<and> (\<forall>n \<in> set new'. \<not> to_come (Some i) n)"
  proof (cases "snd change \<noteq> None \<and> slot = None")
    case True
    have "\<not> to_come (Some i) n" if "n \<in> set (new @ [i])" for n
      using that new(2) later by (auto simp: to_come_def)
    then show ?thesis using ids new(1) True by (intro exI [of _ "new @ [i]"]) auto
  next
    case False
    have "\<not> to_come (Some i) n" if "n \<in> set new" for n using that new(2) later by blast
    then show ?thesis using ids new(1) False by (intro exI [of _ new]) auto
  qed
  moreover have "?rows ! k = rows0 ! k" if k: "k < length rows0" "to_come (Some i) (fr_id (snd (rows0 ! k)))" for k
  proof -
    have len: "length rows0 \<le> length rows" using arg_cong [OF new(1), of length] by (simp add: row_ids_def)
    have "slot \<noteq> Some k"
    proof
      assume "slot = Some k"
      then have "fr_id (snd (rows0 ! k)) = i" using slot id_position_Some [of i "map snd rows0" k] by auto
      then show False using k(2) by (simp add: to_come_def)
    qed
    then have "?rows ! k = rows ! k" using row_step_other [OF pos] k(1) len by simp
    moreover have "rows ! k = rows0 ! k" using agree k later by (simp add: rows_agree_def)
    ultimately show ?thesis by simp
  qed
  moreover have "sorted_wrt (<) (row_ids ?rows)"
    using agree ids above by (auto simp: rows_agree_def sorted_wrt_append)
  ultimately show ?thesis by (simp add: rows_agree_def)
qed

definition ids_below :: "i64 option \<Rightarrow> packed_rows \<Rightarrow> bool" where
  "ids_below last_id rows \<longleftrightarrow> (\<forall>i \<in> set (row_ids rows). \<exists>l. last_id = Some l \<and> i \<le> l)"

text \<open>What the first loop finds for the identifier of a change.\<close>

lemma row_lookup_ok:
  assumes rows: "index_rows_are env ix rows0" and agree: "rows_agree previous rows0 rows" and come: "to_come previous i"
  shows "\<exists>slot old. slot = id_position i (map snd rows0) \<and> slot = id_position i (map snd rows) \<and> find_id ix i = Some slot \<and>
    (case slot of Some s \<Rightarrow> map_option Some (record_at ix s) | None \<Rightarrow> Some None) = Some old \<and>
    (old = None \<longrightarrow> slot = None) \<and>
    (\<forall>r. old = Some r \<longrightarrow> (\<exists>k. slot = Some k \<and> k < length rows \<and> is_live r = fst (rows ! k) \<and> row_ok ix r (snd (rows ! k))))"
proof -
  let ?xs = "map snd rows0"
  have shown: "index_shows env ix ?xs" and srt: "ci_ids_sorted ix" using rows by (simp_all add: index_rows_are_def)
  have pos: "id_position i (map snd rows) = id_position i ?xs" using rows_agree_position [OF agree come] .
  have find: "find_id ix i = Some (id_position i ?xs)" using find_id_ok [OF shown srt] .
  show ?thesis
  proof (cases "id_position i ?xs")
    case (Some k)
    have k: "k < length rows0" "k < length rows" "rows ! k = rows0 ! k" "k < length ?xs"
      using rows_agree_row [OF agree come Some] by simp_all
    note row = index_shows_row [OF shown k(4)]
    have "length (concat (ci_records ix)) = length rows0" using rows by (metis index_rows_are_def length_map)
    then have "is_live (concat (ci_records ix) ! k) = fst (rows0 ! k)"
      using rows k(1) by (metis index_rows_are_def nth_map)
    then show ?thesis using Some find pos row k by simp
  qed (use find pos in simp)
qed

lemma new_id_above:
  assumes agree: "rows_agree previous rows0 rows" and come: "to_come previous i" and below: "ids_below last_id rows0"
    and new: "id_position i (map snd rows) = None" and last: "\<not> (case last_id of Some l \<Rightarrow> i < l | None \<Rightarrow> False)"
  shows "\<forall>j \<in> set (row_ids rows). j < i"
proof
  fix j assume j: "j \<in> set (row_ids rows)"
  have "j \<noteq> i" using j new by (auto simp: id_position_ids position_None)
  obtain ns where "row_ids rows = row_ids rows0 @ ns" "\<forall>n \<in> set ns. \<not> to_come previous n"
    using agree by (auto simp: rows_agree_def)
  then consider "j \<in> set (row_ids rows0)" | "\<not> to_come previous j" using j by auto
  then show "j < i"
  proof cases
    case 1
    then show ?thesis using below last \<open>j \<noteq> i\<close> by (fastforce simp: ids_below_def)
  next
    case 2
    then show ?thesis using come by (auto simp: to_come_def split: option.splits)
  qed
qed

lemma plan_change_ok:
  assumes rows: "index_rows_are env ix rows0" and mem: "memory_ok env ix"
    and agree: "rows_agree (pl_previous st) rows0 rows" and counts: "counts_ok st rows"
    and below: "ids_below last_id rows0"
    and valid: "\<And>r. snd change = Some r \<Longrightarrow> file_valid (packed_file (pe_lower env) r)"
    and plan: "plan_change env ix last_id change st = Some (Inr (st', p))"
  shows "plan_ok (pe_lower env) rows change p \<and> pl_previous st' = Some (fst change) \<and>
    rows_agree (Some (fst change)) rows0 (row_step (pe_lower env) change (fst p) rows) \<and>
    counts_ok st' (row_step (pe_lower env) change (fst p) rows)"
proof -
  let ?ul = "pe_lower env" and ?i = "fst change"
  define st0 where "st0 = st\<lparr>pl_previous := Some ?i\<rparr>"
  have come: "to_come (pl_previous st) ?i"
    using plan by (auto simp: plan_change_def to_come_def Let_def split: option.splits if_splits)
  have id: "fr_id r = ?i" if "snd change = Some r" for r
    using plan that by (auto simp: plan_change_def Let_def split: option.splits if_splits)
  obtain slot old where s: "slot = id_position ?i (map snd rows0)" "slot = id_position ?i (map snd rows)"
      "find_id ix ?i = Some slot"
      "(case slot of Some s \<Rightarrow> map_option Some (record_at ix s) | None \<Rightarrow> Some None) = Some old"
      "old = None \<longrightarrow> slot = None"
      "\<And>r. old = Some r \<Longrightarrow> \<exists>k. slot = Some k \<and> k < length rows \<and> is_live r = fst (rows ! k) \<and> row_ok ix r (snd (rows ! k))"
    using row_lookup_ok [OF rows agree come] by blast
  have c0: "counts_ok st0 rows" using counts by (simp add: counts_ok_def st0_def)
  have old: "\<exists>k. slot = Some k \<and> k < length rows \<and> is_live r = fst (rows ! k)" if "old = Some r" for r
    using s(6) [OF that] by blast
  have none: "slot = None" if "old = None" using s(5) that by blast
  show ?thesis
  proof (cases "snd change")
    case None
    have "plan_change env ix last_id change st = map_option (\<lambda>st1. Inr (st1, (slot, None))) (count_delete ix old st0)"
      using come s(3,4) None unfolding plan_change_def Let_def st0_def to_come_def by (simp split: option.splits)
    then obtain st1 where st1: "count_delete ix old st0 = Some st1" "st' = st1" "p = (slot, None)"
      using plan by (cases "count_delete ix old st0") auto
    have "counts_ok st' (row_step ?ul change slot rows) \<and> pl_previous st' = Some ?i"
      using count_delete_ok [OF st1(1) c0 old none, of ?ul ?i] st1(2) None by (cases change) (auto simp: st0_def)
    moreover have "rows_agree (Some ?i) rows0 (row_step ?ul change slot rows)"
      using rows_agree_step [OF agree come refl id s(1)] None by simp
    ultimately show ?thesis using st1(3) s(2) None by (simp add: plan_ok_def)
  next
    case (Some r)
    let ?d = "borrow_record r"
    have shape: "plan_change env ix last_id change st =
        (if old = None \<and> (case last_id of Some l \<Rightarrow> ?i < l | None \<Rightarrow> False)
         then Some (Inl ''new non-monotonic record ID'')
         else Option.bind (row_text_new ?ul ?d) (\<lambda>lowered.
           Option.bind (case old of Some o' \<Rightarrow> same_strings env ix o' ?d lowered | None \<Rightarrow> Some False) (\<lambda>unchanged.
             Option.bind (count_row ix old unchanged st0) (\<lambda>st1.
               Option.bind (count_extension ix (fr_ext_lower r) st1) (\<lambda>st2.
                 Some (Inr (st2, (slot, if unchanged then None else Some lowered))))))))"
      using come id [OF Some] s(3,4) Some unfolding plan_change_def Let_def st0_def to_come_def
      by (simp split: option.splits)
    let ?new = "old = None \<and> (case last_id of Some l \<Rightarrow> ?i < l | None \<Rightarrow> False)"
    obtain unchanged st1 where st1: "\<not> ?new"
        "(case old of Some o' \<Rightarrow> same_strings env ix o' ?d (lowered_text ?ul ?d) | None \<Rightarrow> Some False) = Some unchanged"
        "count_row ix old unchanged st0 = Some st1" "count_extension ix (fr_ext_lower r) st1 = Some st'"
        "p = (slot, if unchanged then None else Some (lowered_text ?ul ?d))"
    proof (cases ?new)
      case True
      then show ?thesis using shape plan by simp
    next
      case False
      note run = trans [OF shape [symmetric] plan]
      then obtain lowered u s1 where u: "row_text_new ?ul ?d = Some lowered"
          "(case old of Some o' \<Rightarrow> same_strings env ix o' ?d lowered | None \<Rightarrow> Some False) = Some u"
          "count_row ix old u st0 = Some s1" "count_extension ix (fr_ext_lower r) s1 = Some st'"
          "p = (slot, if u then None else Some lowered)"
        unfolding if_not_P [OF False] bind_eq_Some_conv option.inject sum.inject prod.inject by blast
      show ?thesis using that [OF False _ u(3,4)] u(2,5) unfolding row_text_new_Some [OF u(1)] by blast
    qed
    have "counts_ok st1 (row_step ?ul (?i, Some r) slot rows) \<and> pl_previous st1 = pl_previous st0"
      using count_row_ok [OF st1(3) c0 old none] .
    then have counts': "counts_ok st' (row_step ?ul change slot rows)" "pl_previous st' = Some ?i"
      using count_extension_same [OF st1(4)] Some by (cases change; simp add: counts_ok_def st0_def)+
    have above: "\<forall>j \<in> set (row_ids rows). j < ?i" if "slot = None"
    proof -
      have "old = None" using old that by (cases old) auto
      then show ?thesis using new_id_above [OF agree come below] s(2) that st1(1) by simp
    qed
    then have "rows_agree (Some ?i) rows0 (row_step ?ul change slot rows)"
      using rows_agree_step [OF agree come refl id s(1)] by blast
    moreover have "\<exists>k. slot = Some k \<and> same_texts (snd (rows ! k)) (packed_file ?ul r)" if "unchanged"
    proof (cases old)
      case (Some rec)
      then obtain k where k: "slot = Some k" "row_ok ix rec (snd (rows ! k))" using s(6) by blast
      then show ?thesis using same_strings_ok [OF k(2) mem, of ?d] st1(2) Some that by (simp add: packed_file_def)
    qed (use st1(2) that in simp)
    ultimately show ?thesis using counts' st1(5) s(2) Some id above valid [OF Some] by (auto simp: plan_ok_def)
  qed
qed


subsection \<open>A batch\<close>

text \<open>The rows after a batch, and plans that fit the rows at their turn.\<close>

fun batch_rows :: "(str \<Rightarrow> str) \<Rightarrow> (file_change \<times> delta_plan) list \<Rightarrow> packed_rows \<Rightarrow> packed_rows" where
  "batch_rows ul [] rows = rows"
| "batch_rows ul ((c, p) # cs) rows = batch_rows ul cs (row_step ul c (fst p) rows)"

fun plans_ok :: "(str \<Rightarrow> str) \<Rightarrow> packed_rows \<Rightarrow> (file_change \<times> delta_plan) list \<Rightarrow> bool" where
  "plans_ok ul rows [] \<longleftrightarrow> True"
| "plans_ok ul rows ((c, p) # cs) \<longleftrightarrow> plan_ok ul rows c p \<and> plans_ok ul (row_step ul c (fst p) rows) cs"

lemma plan_changes_ok:
  assumes rows: "index_rows_are env ix rows0" and mem: "memory_ok env ix" and below: "ids_below last_id rows0"
    and agree: "rows_agree (pl_previous st) rows0 rows" and counts: "counts_ok st rows"
    and valid: "\<forall>i r. (i, Some r) \<in> set changes \<longrightarrow> file_valid (packed_file (pe_lower env) r)"
    and plan: "plan_changes env ix last_id changes st = Some (Inr (st', plans))"
  shows "length plans = length changes \<and> plans_ok (pe_lower env) rows (zip changes plans) \<and>
    counts_ok st' (batch_rows (pe_lower env) (zip changes plans) rows) \<and>
    sorted_wrt (<) (map fst changes) \<and> (\<forall>i \<in> set (map fst changes). to_come (pl_previous st) i)"
  using agree counts valid plan
proof (induction changes arbitrary: st rows plans)
  case (Cons c cs)
  obtain step where step: "plan_change env ix last_id c st = Some step" using Cons.prems(4) by (auto simp: bind_eq_Some_conv)
  obtain st1 p where p: "step = Inr (st1, p)" using Cons.prems(4) step by (cases step) auto
  obtain res where res: "plan_changes env ix last_id cs st1 = Some res"
      "(case res of Inl reason \<Rightarrow> Inl reason | Inr (st2, ps) \<Rightarrow> Inr (st2, p # ps)) = Inr (st', plans)"
    using Cons.prems(4) step p by auto
  then obtain ps where ps: "plan_changes env ix last_id cs st1 = Some (Inr (st', ps))" "plans = p # ps"
    by (cases res) auto
  have "file_valid (packed_file (pe_lower env) r)" if "snd c = Some r" for r
    using that Cons.prems(3) by (cases c) auto
  from plan_change_ok [OF rows mem Cons.prems(1,2) below this] step p
  have ok: "plan_ok (pe_lower env) rows c p" "pl_previous st1 = Some (fst c)"
      "rows_agree (pl_previous st1) rows0 (row_step (pe_lower env) c (fst p) rows)"
      "counts_ok st1 (row_step (pe_lower env) c (fst p) rows)" by auto
  have "\<forall>i r. (i, Some r) \<in> set cs \<longrightarrow> file_valid (packed_file (pe_lower env) r)"
    using Cons.prems(3) by simp
  note IH = Cons.IH [OF ok(3,4) this ps(1)]
  have "to_come (pl_previous st) (fst c)"
    using step p by (auto simp: plan_change_def to_come_def Let_def split: option.splits if_splits)
  then show ?case using IH ok(1,2) ps(2) by (auto simp: to_come_def split: option.splits)
qed simp

lemma execute_changes_ok:
  assumes "index_rows_are env ix rows" and "packed_env_ok env" and "plans_ok (pe_lower env) rows cs"
    and "execute_changes env cs ix = Some ix'"
  shows "index_rows_are env ix' (batch_rows (pe_lower env) cs rows)"
  using assms(1,3,4)
proof (induction cs arbitrary: ix rows)
  case (Cons cp cs)
  obtain c p where cp: "cp = (c, p)" by (cases cp)
  obtain ix1 where run: "execute_change env c p ix = Some ix1" "execute_changes env cs ix1 = Some ix'"
    using Cons.prems(3) cp by (auto simp: bind_eq_Some_conv)
  have plans: "plan_ok (pe_lower env) rows c p" "plans_ok (pe_lower env) (row_step (pe_lower env) c (fst p) rows) cs"
    using Cons.prems(2) cp by simp_all
  have "index_rows_are env ix1 (row_step (pe_lower env) c (fst p) rows)"
    using execute_change_ok [OF Cons.prems(1) assms(2) plans(1) run(1)] .
  from Cons.IH [OF this plans(2) run(2)] show ?case using cp by simp
qed simp

text \<open>The live records by identifier.\<close>

definition live_map :: "packed_rows \<Rightarrow> i64 \<Rightarrow> file_record option" where
  "live_map rows i = map_option snd (List.find (\<lambda>(live, x). live \<and> fr_id x = i) rows)"

lemma find_position:
  "List.find P xs = map_option (\<lambda>k. xs ! k) (position P xs)"
  by (induction xs) (auto simp: option.map_comp comp_def)

lemma live_map_position:
  assumes "sorted_wrt (<) (row_ids rows)"
  shows "live_map rows i = (case id_position i (map snd rows) of
    Some k \<Rightarrow> if fst (rows ! k) then Some (snd (rows ! k)) else None | None \<Rightarrow> None)"
proof (cases "id_position i (map snd rows)")
  case None
  then have "\<forall>x \<in> set rows. fr_id (snd x) \<noteq> i" by (simp add: id_position_def position_None)
  then have "List.find (\<lambda>(live, x). live \<and> fr_id x = i) rows = None" by (auto simp: find_None_iff)
  then show ?thesis using None by (simp add: live_map_def)
next
  case (Some k)
  then have k: "k < length rows" "fr_id (snd (rows ! k)) = i" using id_position_Some [of i "map snd rows" k] by auto
  have uniq: "j = k" if "j < length rows" "fr_id (snd (rows ! j)) = i" for j
  proof -
    have "fr_id (snd (rows ! a)) < fr_id (snd (rows ! b))" if "a < b" "b < length rows" for a b
      using sorted_wrt_nth_less [OF assms, of a b] that by (simp add: row_ids_def)
    from this [of j k] this [of k j] show ?thesis using k that by (cases j k rule: linorder_cases) auto
  qed
  have pos: "position P rows = Some k" if "P (rows ! k)" "\<And>x. P x \<Longrightarrow> fr_id (snd x) = i" for P
    by (rule position_unique [of k rows P, OF k(1) that(1)]) (rule uniq, assumption, erule that(2))
  show ?thesis
  proof (cases "fst (rows ! k)")
    case True
    then have "position (\<lambda>(live, x). live \<and> fr_id x = i) rows = Some k"
      using k(2) by (intro pos) (auto split: prod.splits)
    then show ?thesis using Some True by (simp add: live_map_def find_position)
  next
    case False
    have "\<not> (fst x \<and> fr_id (snd x) = i)" if x: "x \<in> set rows" for x
    proof -
      obtain j where "j < length rows" "x = rows ! j" using x by (metis in_set_conv_nth)
      then show ?thesis using uniq [of j] False by auto
    qed
    then have "position (\<lambda>(live, x). live \<and> fr_id x = i) rows = None"
      by (simp add: position_None case_prod_beta)
    then show ?thesis using Some False by (simp add: live_map_def find_position)
  qed
qed

lemma row_step_sorted:
  assumes "plan_ok ul rows change p" and "sorted_wrt (<) (row_ids rows)"
  shows "sorted_wrt (<) (row_ids (row_step ul change (fst p) rows))"
proof -
  have "id_position (fst change) (map snd rows) = fst p" "\<And>r. snd change = Some r \<Longrightarrow> fr_id r = fst change"
    using assms(1) by (auto simp: plan_ok_def)
  note ids = row_step_ids [OF this, where ul = ul]
  have "\<forall>i \<in> set (row_ids rows). i < fst change" if "snd change \<noteq> None" "fst p = None"
    using assms(1) that by (auto simp: plan_ok_def)
  then show ?thesis using ids assms(2) by (simp add: sorted_wrt_append)
qed

lemma live_map_step:
  assumes plan: "plan_ok ul rows change p" and srt: "sorted_wrt (<) (row_ids rows)"
  shows "live_map (row_step ul change (fst p) rows) =
    (live_map rows)(fst change := map_option (packed_file ul) (snd change))"
proof
  fix j
  let ?i = "fst change" and ?rows = "row_step ul change (fst p) rows"
  have pos: "id_position ?i (map snd rows) = fst p" and id: "\<And>r. snd change = Some r \<Longrightarrow> fr_id r = ?i"
    using plan by (auto simp: plan_ok_def)
  note ids = row_step_ids [OF pos id, where ul = ul]
  note new = live_map_position [OF row_step_sorted [OF plan srt], of j] and old = live_map_position [OF srt, of j]
  show "live_map ?rows j = ((live_map rows)(?i := map_option (packed_file ul) (snd change))) j"
  proof (cases "j = ?i")
    case True
    show ?thesis
    proof (cases "fst p")
      case None
      then have none: "\<forall>y \<in> set (row_ids rows). y \<noteq> ?i" using pos by (auto simp: id_position_ids position_None)
      show ?thesis
      proof (cases "snd change")
        case None
        then show ?thesis using True \<open>fst p = None\<close> pos new by (simp add: row_step_def)
      next
        case (Some r)
        have "position (\<lambda>y. y = ?i) (row_ids rows @ [?i]) = Some (length rows)"
          using none position_snoc [of "row_ids rows" "\<lambda>y. y = ?i" ?i] by (simp add: row_ids_def)
        then have "id_position ?i (map snd ?rows) = Some (length rows)"
          using ids Some \<open>fst p = None\<close> by (simp add: id_position_ids)
        moreover have "?rows ! length rows = (True, packed_file ul r)" using Some \<open>fst p = None\<close> by (simp add: row_step_def)
        ultimately show ?thesis using new True Some by simp
      qed
    next
      case (Some k)
      then have k: "k < length rows" using pos id_position_Some [of ?i "map snd rows" k] by simp
      have "id_position ?i (map snd ?rows) = Some k" using ids Some pos by (simp add: id_position_ids)
      then show ?thesis using new True Some k by (cases "snd change") (simp_all add: row_step_def)
    qed
  next
    case False
    then have "id_position j (map snd ?rows) = id_position j (map snd rows)"
      using ids position_append [of "[?i]" "\<lambda>y. y = j" "row_ids rows"] by (simp add: id_position_ids)
    moreover have "?rows ! k = rows ! k" if "id_position j (map snd rows) = Some k" for k
    proof -
      have "k < length rows" "fr_id (snd (rows ! k)) = j" using id_position_Some [OF that] by auto
      moreover from this have "fst p \<noteq> Some k" using pos id_position_Some [of ?i "map snd rows" k] False by auto
      ultimately show ?thesis using row_step_other [OF pos] by simp
    qed
    ultimately show ?thesis using new old False by (simp split: option.splits)
  qed
qed

definition packed_change :: "(str \<Rightarrow> str) \<Rightarrow> file_change \<Rightarrow> file_change" where
  "packed_change ul c = (fst c, map_option (packed_file ul) (snd c))"

lemma packed_change_simps [simp]:
  "fst (packed_change ul c) = fst c" "snd (packed_change ul c) = map_option (packed_file ul) (snd c)"
  by (simp_all add: packed_change_def)

lemma live_map_batch:
  assumes "plans_ok ul rows (zip changes plans)" and "sorted_wrt (<) (row_ids rows)"
    and "length plans = length changes" and "sorted_wrt (<) (map fst changes)"
  shows "live_map (batch_rows ul (zip changes plans) rows) = apply_changes (map (packed_change ul) changes) (live_map rows)"
  using assms
proof (induction changes arbitrary: plans rows)
  case Nil
  then show ?case by (simp add: apply_changes_def fun_eq_iff)
next
  case (Cons c cs)
  obtain p ps where p: "plans = p # ps" using Cons.prems(3) by (cases plans) auto
  have plan: "plan_ok ul rows c p" "plans_ok ul (row_step ul c (fst p) rows) (zip cs ps)"
    using Cons.prems(1) p by simp_all
  note IH = Cons.IH [OF plan(2) row_step_sorted [OF plan(1) Cons.prems(2)]]
  have "\<forall>y \<in> set cs. fst y \<noteq> fst c" using Cons.prems(4) by auto
  then have none: "map_of (map (packed_change ul) cs) (fst c) = None"
    by (auto simp: map_of_eq_None_iff)
  have "live_map (batch_rows ul (zip cs ps) (row_step ul c (fst p) rows)) j =
      apply_changes (map (packed_change ul) (c # cs)) (live_map rows) j" for j
    using IH Cons.prems(3,4) p none unfolding live_map_step [OF plan(1) Cons.prems(2)]
    by (auto simp: apply_changes_def split: option.splits)
  then show ?case using p by (simp add: fun_eq_iff)
qed

end
