(* ===== verification/Packed_Contents.thy ===== *)
theory Packed_Contents
  imports Compact_Delta
begin

text \<open>
  What the packed index holds: after a load the rows of the database, after a batch of changes
  the rows with the changes applied. With the change journal: a delta brings the index to what a
  fresh load of the new snapshot would hold.
\<close>

text \<open>Every row has its block of metadata.\<close>

lemma index_shows_block:
  assumes "index_shows env ix xs" and "k < length xs"
  shows "k div ci_records_per_block ix < length (ci_metadata ix)"
proof -
  obtain mss where m: "map length mss = map length (ci_records ix)" "list_all2 block_shows (ci_metadata ix) mss"
    using assms(1) by (auto simp: index_shows_def metadata_shows_def)
  have "blocks_ok (ci_records_per_block ix) (ci_records ix)" "k < length (concat (ci_records ix))"
    using assms by (auto simp: index_shows_def dest: list_all2_lengthD)
  from block_position [OF this] show ?thesis using m by (metis length_map list_all2_lengthD)
qed

text \<open>The record that the index gives for an identifier.\<close>

definition index_contents :: "compact_index \<Rightarrow> i64 \<Rightarrow> file_record option" where
  "index_contents ix i =
     (case find_id ix i of
        Some (Some k) \<Rightarrow>
          (case record_at ix k of Some r \<Rightarrow> if is_live r then to_file_record ix k else None | None \<Rightarrow> None)
      | _ \<Rightarrow> None)"

text \<open>The invariant between batches; \<open>ci_len\<close> and the number of dead rows are exact.\<close>

definition index_ok :: "packed_env \<Rightarrow> compact_index \<Rightarrow> bool" where
  "index_ok env ix \<longleftrightarrow>
     (\<exists>rows. index_rows_are env ix rows \<and> ci_len ix = count_live rows \<and>
        fs_dead_records (ci_fragmentation ix) = count_dead rows)"

lemma index_rows_sorted: "index_rows_are env ix rows \<Longrightarrow> sorted_wrt (<) (row_ids rows)"
  by (simp add: index_rows_are_def index_shows_def row_ids_def comp_def)

lemma index_contents_rows:
  assumes rows: "index_rows_are env ix rows"
  shows "index_contents ix i = live_map rows i"
proof -
  have shown: "index_shows env ix (map snd rows)" and srt: "ci_ids_sorted ix" using rows by (simp_all add: index_rows_are_def)
  note find = find_id_ok [OF shown srt, of i] and live = live_map_position [OF index_rows_sorted [OF rows], of i]
  show ?thesis
  proof (cases "id_position i (map snd rows)")
    case None
    then show ?thesis using find live by (simp add: index_contents_def)
  next
    case (Some k)
    then have k: "k < length (map snd rows)" "k < length rows" using id_position_Some [of i "map snd rows" k] by simp_all
    have "length (concat (ci_records ix)) = length rows" using rows by (metis index_rows_are_def length_map)
    then have "is_live (concat (ci_records ix) ! k) = fst (rows ! k)"
      using rows k(2) by (metis index_rows_are_def nth_map)
    then show ?thesis
      using find live Some index_shows_row(1) [OF shown k(1)] to_file_record_shows [OF shown k(1)] k(2)
      by (simp add: index_contents_def)
  qed
qed

subsection \<open>Loading\<close>

lemma load_rows:
  assumes env: "packed_env_ok env" and valid: "\<And>d. d \<in> set ds \<Longrightarrow> file_valid (file_of_ref (pe_lower env) d)"
    and load: "compact_index_load env ds = Some ix" and srt: "sorted_wrt (<) (map dr_id ds)"
  shows "index_rows_are env ix (map (\<lambda>d. (True, file_of_ref (pe_lower env) d)) ds)"
proof -
  note l = compact_index_load_shows [OF env valid load]
  have "index_shows env ix (map (file_of_ref (pe_lower env)) ds)" using l by blast
  then have "length (concat (ci_records ix)) = length ds"
    by (auto simp: index_shows_def dest: list_all2_lengthD)
  then have "map is_live (concat (ci_records ix)) = replicate (length ds) True"
    using l by (intro replicate_eqI) auto
  then show ?thesis using l srt by (simp add: index_rows_are_def comp_def map_replicate_const)
qed

lemma live_map_map_of:
  "live_map (map (\<lambda>d. (True, f d)) ds) i = map_of (map (\<lambda>d. (fr_id (f d), f d)) ds) i"
  by (induction ds) (auto simp: live_map_def)

lemma load_index_ok:
  assumes "packed_env_ok env" and valid: "\<And>d. d \<in> set refs \<Longrightarrow> file_valid (file_of_ref (pe_lower env) d)"
    and "sorted_wrt (<) (map dr_id refs)" and "compact_index_load env refs = Some ix"
  shows "index_ok env ix"
proof -
  have rows: "index_rows_are env ix (map (\<lambda>d. (True, file_of_ref (pe_lower env) d)) refs)"
    by (rule load_rows [OF assms(1) _ assms(4,3)]) (rule valid)
  show ?thesis unfolding index_ok_def
    using compact_index_load_shows [OF assms(1) valid assms(4)] rows
    by (intro exI [of _ "map (\<lambda>d. (True, file_of_ref (pe_lower env) d)) refs"])
      (simp add: count_live_def count_dead_def filter_map comp_def)
qed

text \<open>C22: A load packs and unpacks without loss: the index then gives for every identifier the row of the
  database, with the lowercase path that the code derives when the column is empty, and nothing
  else; the k-th record read back is the k-th row; the length is the number of rows; and the
  index is in a state that later batches may build on.\<close>

theorem packed_load_correct:
  assumes "packed_env_ok env" and "\<And>d. d \<in> set refs \<Longrightarrow> file_valid (file_of_ref (pe_lower env) d)"
    and "sorted_wrt (<) (map dr_id refs)" and "compact_index_load env refs = Some ix"
  shows "index_contents ix = map_of (map (\<lambda>d. (dr_id d, file_of_ref (pe_lower env) d)) refs) \<and>
    (\<forall>k < length refs. to_file_record ix k = Some (file_of_ref (pe_lower env) (refs ! k))) \<and>
    ci_len ix = length refs \<and> index_ok env ix"
proof -
  note l = compact_index_load_shows [OF assms(1) _ assms(4), rule_format, OF assms(2)]
  have rows: "index_rows_are env ix (map (\<lambda>d. (True, file_of_ref (pe_lower env) d)) refs)"
    by (rule load_rows [OF assms(1) _ assms(4,3)]) (rule assms(2))
  have "fr_id (file_of_ref (pe_lower env) d) = dr_id d" for d by (simp add: file_of_ref_def)
  then have "index_contents ix i = map_of (map (\<lambda>d. (dr_id d, file_of_ref (pe_lower env) d)) refs) i" for i
    using live_map_map_of [of "file_of_ref (pe_lower env)" refs i] unfolding index_contents_rows [OF rows] by simp
  then have "index_contents ix = map_of (map (\<lambda>d. (dr_id d, file_of_ref (pe_lower env) d)) refs)" by (rule ext)
  moreover have "to_file_record ix k = Some (file_of_ref (pe_lower env) (refs ! k))" if "k < length refs" for k
    using l that to_file_record_shows [of env ix "map (file_of_ref (pe_lower env)) refs" k] by simp
  moreover have "index_ok env ix"
    by (rule load_index_ok [OF assms(1) _ assms(3,4)]) (rule assms(2))
  ultimately show ?thesis using l by blast
qed

subsection \<open>Batches\<close>

lemma index_shows_counters:
  "index_shows env (ix\<lparr>ci_len := n, ci_fragmentation := f\<rparr>) xs = index_shows env ix xs"
proof -
  have "row_ok (ix\<lparr>ci_len := n, ci_fragmentation := f\<rparr>) = row_ok ix"
    by (intro ext) (simp add: row_ok_def texts_ok_def ext_of_def)
  then show ?thesis by (simp add: index_shows_def metadata_shows_def)
qed

lemma last_id_below:
  assumes rows: "index_rows_are env ix rows"
    and last: "(if 0 < ci_physical_len ix then map_option (\<lambda>r. Some (cr_id r)) (record_at ix (ci_physical_len ix - 1)) else Some None) = Some last_id"
  shows "ids_below last_id rows"
proof (cases "rows = []")
  case False
  have shown: "index_shows env ix (map snd rows)" using rows by (simp add: index_rows_are_def)
  have n: "ci_physical_len ix = length rows" using shown by (simp add: index_shows_def)
  have k: "length rows - 1 < length (map snd rows)" using False by simp
  have "cr_id (concat (ci_records ix) ! (length rows - 1)) = fr_id (snd (last rows))"
    using index_shows_row(2) [OF shown k] False by (simp add: row_ok_def last_conv_nth)
  then have "last_id = Some (fr_id (snd (last rows)))"
    using last n False index_shows_row(1) [OF shown k] by simp
  moreover have "i \<le> fr_id (snd (last rows))" if "i \<in> set (row_ids rows)" for i
    using that index_rows_sorted [OF rows] False
    by (cases rows rule: rev_cases) (auto simp: row_ids_def sorted_wrt_append)
  ultimately show ?thesis by (simp add: ids_below_def)
qed (simp add: ids_below_def row_ids_def)

definition plan_start :: "compact_index \<Rightarrow> plan_state" where
  "plan_start ix =
     \<lparr>pl_previous = None, pl_fragmentation = ci_fragmentation ix, pl_len = ci_len ix, pl_new_extensions = []\<rparr>"

lemma apply_run:
  assumes "apply_changes_with_limits env changes limits ix = Some (outcome, ix')"
  shows "(\<exists>reason. outcome = NeedsFullReload reason) \<and> ix' = ix \<or>
    (\<exists>last_id st plans ix1. outcome = Applied \<and>
      (if 0 < ci_physical_len ix then map_option (\<lambda>r. Some (cr_id r)) (record_at ix (ci_physical_len ix - 1)) else Some None) = Some last_id \<and>
      plan_changes env ix last_id changes (plan_start ix) = Some (Inr (st, plans)) \<and>
      execute_changes env (zip changes plans) ix = Some ix1 \<and>
      ix' = ix1\<lparr>ci_len := pl_len st, ci_fragmentation := pl_fragmentation st\<rparr>)"
proof (cases "ci_ids_sorted ix")
  case True
  obtain last_id planned where last: "(if 0 < ci_physical_len ix then map_option (\<lambda>r. Some (cr_id r)) (record_at ix (ci_physical_len ix - 1)) else Some None) = Some last_id"
      and planned: "plan_changes env ix last_id changes (plan_start ix) = Some planned"
      and cont: "(case planned of
          Inl reason \<Rightarrow> Some (NeedsFullReload reason, ix)
        | Inr (st, plans) \<Rightarrow>
            (case over_limits ix limits st of
               Some reason \<Rightarrow> Some (NeedsFullReload reason, ix)
             | None \<Rightarrow> Option.bind (execute_changes env (zip changes plans) ix)
                 (\<lambda>ix1. Some (Applied, ix1\<lparr>ci_len := pl_len st, ci_fragmentation := pl_fragmentation st\<rparr>)))) = Some (outcome, ix')"
    using assms unfolding apply_changes_with_limits_def plan_start_def [symmetric]
    by (simp only: True not_True_eq_False if_False bind_eq_Some_conv) blast
  show ?thesis
  proof (cases planned)
    case (Inr r)
    obtain st plans where p: "planned = Inr (st, plans)" using Inr by (cases r) auto
    show ?thesis
    proof (cases "over_limits ix limits st")
      case None
      then obtain ix1 where "execute_changes env (zip changes plans) ix = Some ix1" "outcome = Applied"
          "ix' = ix1\<lparr>ci_len := pl_len st, ci_fragmentation := pl_fragmentation st\<rparr>"
        using cont p by (auto simp: bind_eq_Some_conv)
      then show ?thesis using last planned p by blast
    qed (use cont p in auto)
  qed (use cont in auto)
next
  case False
  then have "(NeedsFullReload ''non-canonical record order'', ix) = (outcome, ix')"
    using assms by (simp add: apply_changes_with_limits_def)
  then show ?thesis by blast
qed

lemma apply_changes_rows:
  assumes env: "packed_env_ok env" and mem: "memory_ok env ix" and rows: "index_rows_are env ix rows"
    and counts: "ci_len ix = count_live rows" "fs_dead_records (ci_fragmentation ix) = count_dead rows"
    and valid: "\<forall>i r. (i, Some r) \<in> set changes \<longrightarrow> file_valid (packed_file (pe_lower env) r)"
    and run: "apply_changes_with_limits env changes limits ix = Some (Applied, ix')"
  shows "\<exists>rows'. index_rows_are env ix' rows' \<and> ci_len ix' = count_live rows' \<and>
    fs_dead_records (ci_fragmentation ix') = count_dead rows' \<and>
    live_map rows' = apply_changes (map (packed_change (pe_lower env)) changes) (live_map rows)"
proof -
  let ?st0 = "plan_start ix"
  obtain last_id st plans ix1 where
      last: "(if 0 < ci_physical_len ix then map_option (\<lambda>r. Some (cr_id r)) (record_at ix (ci_physical_len ix - 1)) else Some None) = Some last_id"
      and planned: "plan_changes env ix last_id changes ?st0 = Some (Inr (st, plans))"
      and ix1: "execute_changes env (zip changes plans) ix = Some ix1"
      "ix' = ix1\<lparr>ci_len := pl_len st, ci_fragmentation := pl_fragmentation st\<rparr>"
    using apply_run [OF run] by blast
  have agree: "rows_agree (pl_previous ?st0) rows rows"
    using index_rows_sorted [OF rows] by (simp add: rows_agree_def)
  have c0: "counts_ok ?st0 rows" using counts by (simp add: counts_ok_def plan_start_def)
  have plan: "length plans = length changes" "plans_ok (pe_lower env) rows (zip changes plans)"
      "counts_ok st (batch_rows (pe_lower env) (zip changes plans) rows)" "sorted_wrt (<) (map fst changes)"
    using plan_changes_ok [OF rows mem last_id_below [OF rows last] agree c0 valid planned] by blast+
  let ?rows = "batch_rows (pe_lower env) (zip changes plans) rows"
  have "index_rows_are env ix1 ?rows" using execute_changes_ok [OF rows env plan(2) ix1(1)] .
  then have "index_rows_are env ix' ?rows" using ix1(2) by (simp add: index_rows_are_def index_shows_counters block_size_ok_def)
  moreover have "live_map ?rows = apply_changes (map (packed_change (pe_lower env)) changes) (live_map rows)"
    using live_map_batch [OF plan(2) index_rows_sorted [OF rows] plan(1,4)] .
  ultimately show ?thesis using plan(3) ix1(2) by (intro exI [of _ ?rows]) (simp add: counts_ok_def)
qed

lemma packed_apply:
  assumes "packed_env_ok env" and "memory_ok env ix" and "index_ok env ix"
    and "\<forall>i r. (i, Some r) \<in> set changes \<longrightarrow> file_valid (packed_file (pe_lower env) r)"
    and "apply_changes_with_limits env changes limits ix = Some (outcome, ix')"
  shows "index_ok env ix' \<and>
    (case outcome of
       Applied \<Rightarrow> index_contents ix' = apply_changes (map (packed_change (pe_lower env)) changes) (index_contents ix)
     | NeedsFullReload _ \<Rightarrow> ix' = ix)"
proof -
  obtain rows where rows: "index_rows_are env ix rows" "ci_len ix = count_live rows"
      "fs_dead_records (ci_fragmentation ix) = count_dead rows"
    using assms(3) by (auto simp: index_ok_def)
  have before: "index_contents ix = live_map rows" using index_contents_rows [OF rows(1)] by (rule ext)
  show ?thesis
  proof (cases outcome)
    case Applied
    obtain rows' where rows': "index_rows_are env ix' rows'" "ci_len ix' = count_live rows'"
        "fs_dead_records (ci_fragmentation ix') = count_dead rows'"
        "live_map rows' = apply_changes (map (packed_change (pe_lower env)) changes) (live_map rows)"
      using apply_changes_rows [OF assms(1,2) rows assms(4)] assms(5) Applied by blast
    have "index_contents ix' = live_map rows'" using index_contents_rows [OF rows'(1)] by (rule ext)
    then show ?thesis using rows' before Applied by (auto simp: index_ok_def)
  next
    case (NeedsFullReload reason)
    then have "ix' = ix" using apply_run [OF assms(5)] by auto
    then show ?thesis using assms(3) NeedsFullReload by simp
  qed
qed

text \<open>C21: A batch of changes, planned against the index as it is and then carried out in place, has exactly
  the effect of the batch: updated, revived, new and deleted rows read back with their new
  contents, all others are untouched, and the number of live and of dead rows is exact. When the
  answer is to reload, nothing has changed.\<close>

theorem packed_apply_correct:
  assumes "packed_env_ok env" and "memory_ok env ix" and "index_ok env ix"
    and "\<forall>i r. (i, Some r) \<in> set changes \<longrightarrow> file_valid (packed_file (pe_lower env) r)"
    and "apply_changes_with_limits env changes limits ix = Some (outcome, ix')"
  shows "index_ok env ix' \<and>
    (case outcome of
       Applied \<Rightarrow> index_contents ix' = apply_changes (map (packed_change (pe_lower env)) changes) (index_contents ix)
     | NeedsFullReload _ \<Rightarrow> ix' = ix)"
  using assms by (rule packed_apply)

subsection \<open>An example\<close>

definition example_env :: packed_env where
  "example_env =
     \<lparr>pe_alloc = (\<lambda>n. if n < 2 ^ 50 then Some n else None), pe_hash = (\<lambda>_. 7), pe_lower = id,
      pe_memory = (\<lambda>_. CHR ''a''), pe_address = (\<lambda>_. 0)\<rparr>"

definition example_ref :: db_record where
  "example_ref =
     \<lparr>dr_id = 1, dr_path = ''/a'', dr_path_lower = Some ''/a'', dr_basename = ''a'', dr_basename_lower = ''a'',
      dr_ext_lower = None, dr_kind = File, dr_size = Some 5, dr_mtime = None, dr_ctime = None, dr_dev = None,
      dr_inode = None, dr_indexed_at = 7\<rparr>"

definition example_start :: compact_index where
  "example_start = ib_index (index_builder_new arena_bytes_default records_per_block_default)"

definition example_record :: compact_record where
  "example_record =
     record_update_metadata example_ref no_extension
       \<lparr>cr_id = 1, cr_path = \<lparr>sl_start = 0, sl_len = Suc (Suc 0)\<rparr>,
        cr_path_lower = \<lparr>sl_start = 0, sl_len = Suc (Suc 0)\<rparr>, cr_basename_len = Suc 0,
        cr_basename_lower_len = Suc 0, cr_arena = 0, cr_ext = no_extension, cr_prefix = no_prefix,
        cr_kind = File, cr_present = 0, cr_basename_parents = 0\<rparr>"

definition example_index :: "metadata_block \<Rightarrow> compact_index" where
  "example_index b =
     example_start\<lparr>ci_arenas := [\<lparr>ar_text = ''/a'', ar_capacity = 65536\<rparr>], ci_records := [[example_record]],
       ci_metadata := [b], ci_len := 1, ci_physical_len := 1\<rparr>"

lemmas example_defs = example_start_def index_builder_new_def compact_index_default_def
  arena_bytes_default_def records_per_block_default_def

lemmas size_defs = slice_checked_def checked_add_def checked_sub_def u32_max_def usize_max_def
  saturating_add_def saturating_mul_def

lemma example_env_ok: "packed_env_ok example_env"
  by (auto simp: packed_env_ok_def example_env_def allocates_def rows_bounded_def split: if_splits)

lemma example_boundary: "char_boundary ''/a'' 0" "char_boundary ''/a'' (Suc (Suc 0))"
  by (simp_all add: char_boundary_def is_continuation_def byte_def)

lemma example_layout:
  "row_layout_new [''/a'', ''/a'', ''a'', ''a''] = Some \<lparr>rl_parents = [None, Some 0, Some 0, Some 0], rl_required = Suc (Suc 0)\<rparr>"
proof -
  have "suffix ''a'' ''/a''" "suffix ''/a'' ''/a''" by (simp_all add: suffix_Cons)
  then show ?thesis by (simp add: row_layout_new_def size_defs Let_def)
qed

lemma example_reserve:
  "reserve_row example_env (Suc (Suc 0)) example_start =
     Some (0, example_start\<lparr>ci_arenas := [\<lparr>ar_text = [], ar_capacity = 65536\<rparr>]\<rparr>)"
  by (simp add: reserve_row_def example_defs size_defs vec_get_def initial_arena_bytes_def try_reserve_def
      example_env_def Let_def)

lemma example_pack:
  "pack_record example_env example_ref ''/a'' no_extension None example_start =
     Some (example_record, example_start\<lparr>ci_arenas := [\<lparr>ar_text = ''/a'', ar_capacity = 65536\<rparr>]\<rparr>)"
proof -
  have p: "pack_prefix example_env ''/a'' ''/a'' None (ci_prefixes example_start) = Some (no_prefix, ci_prefixes example_start)"
    by (simp add: pack_prefix_def)
  show ?thesis
    by (simp add: pack_record_def p example_ref_def example_record_def pool_get_def str_slice_def example_boundary
        example_layout example_reserve vec_get_def size_defs layout_basename_parents_def parent_code_def Let_def)
qed

lemma example_prepare:
  "\<exists>c d m. prepare [Some 5, None, None, None, None, Some 7]
      \<lparr>nm_bases = [0, 0, 0, 0, 0, 0], nm_initialized = 0, nm_rows = [], nm_rows_capacity = 65536, nm_escapes = [],
       nm_escapes_capacity = 0, nm_free_head = None, nm_free_count = 0\<rparr> =
        ([Some c, Some 0, Some 0, Some 0, Some 0, Some d], m) \<and>
    nm_rows m = [] \<and> nm_rows_capacity m = 65536 \<and> nm_escapes m = [] \<and> nm_escapes_capacity m = 0 \<and> nm_free_count m = 0"
  by (simp add: prepare_def prepare_field_def inline_span_def i64_min_def Let_def
      bit_iff_and_push_bit_not_eq_0 [symmetric] del: push_bit_of_1)

lemma example_block:
  "\<exists>b0 b. metadata_block_new (pe_alloc example_env) 65536 = Some b0 \<and>
    block_push (pe_alloc example_env) (metadata_input_of example_ref) b0 = Some b"
proof -
  let ?m = "\<lparr>nm_bases = [0, 0, 0, 0, 0, 0], nm_initialized = 0, nm_rows = [], nm_rows_capacity = 65536, nm_escapes = [],
       nm_escapes_capacity = 0, nm_free_head = None, nm_free_count = 0\<rparr>"
  obtain c d m where m: "prepare [Some 5, None, None, None, None, Some 7] ?m = ([Some c, Some 0, Some 0, Some 0, Some 0, Some d], m)"
      "nm_rows m = []" "nm_rows_capacity m = 65536" "nm_escapes m = []" "nm_escapes_capacity m = 0" "nm_free_count m = 0"
    using example_prepare by blast
  have input: "metadata_input_of example_ref = [Some 5, None, None, None, None, Some 7]"
    by (simp add: metadata_input_of_def metadata_fields_of_def example_ref_def)
  have fits: "narrow_fits m 0" and res: "reserve_escapes (pe_alloc example_env) 0 m = Some m"
    using m by (simp_all add: narrow_fits_def reserve_escapes_def size_defs)
  have rep: "replicate metadata_fields x = [x, x, x, x, x, x]" for x by (simp add: metadata_fields_def eval_nat_numeral)
  have "block_push (pe_alloc example_env) (metadata_input_of example_ref) (Narrow ?m) \<noteq> None"
    unfolding block_push_def block_write_def input
    by (simp add: m(1) rep m(6) fits res Let_def narrow_write_def release_field_def encode_field_def escaped_def)
  moreover have "metadata_block_new (pe_alloc example_env) 65536 = Some (Narrow ?m)"
    by (simp add: metadata_block_new_def example_env_def try_reserve_def narrow_fits_def size_defs rep Let_def)
  ultimately show ?thesis by auto
qed

lemma example_load: "\<exists>b. compact_index_load example_env [example_ref] = Some (example_index b)"
proof -
  obtain b0 b where b: "metadata_block_new (pe_alloc example_env) 65536 = Some b0"
      "block_push (pe_alloc example_env) (metadata_input_of example_ref) b0 = Some b"
    using example_block by blast
  have low: "row_text_new id example_ref = Some ''/a''"
    by (simp add: row_text_new_def lowered_text_def example_ref_def raw_layout_needs_exact_check_def size_defs)
  have e: "dr_ext_lower example_ref = None" and l: "pe_lower example_env = id"
    by (simp_all add: example_ref_def example_env_def)
  have "append_record example_env example_record (metadata_input_of example_ref)
      (example_start\<lparr>ci_arenas := [\<lparr>ar_text = ''/a'', ar_capacity = 65536\<rparr>]\<rparr>) = Some (example_index b)"
    using b by (simp add: append_record_def example_index_def example_defs try_reserve_def size_defs)
      (simp add: example_env_def)
  moreover have start: "index_builder_new arena_bytes_default records_per_block_default =
      \<lparr>ib_index = example_start, ib_last_prefix = None\<rparr>"
    by (simp add: example_start_def index_builder_new_def)
  ultimately show ?thesis
    using example_pack by (intro exI [of _ b])
      (simp add: compact_index_load_def builder_push_def low l e start intern_extension_def)
qed

lemma example_file_valid: "file_valid (file_of_ref id example_ref)"
proof -
  have "utf8_valid ''/a''" "utf8_valid ''a''" by code_simp+
  then show ?thesis
    by (auto simp: file_valid_def file_of_ref_def example_ref_def lowered_text_def input_of_file_def fields_of_file_def
        is_i64_def i64_min_def i64_max_def)
qed

lemma example_memory: "memory_ok example_env (example_index b)"
  by (auto simp: memory_ok_def pool_get_def example_index_def example_defs prefix_pool_new_def split: if_splits)

lemma example_load_ok: "\<exists>ix. compact_index_load example_env [example_ref] = Some ix \<and> index_ok example_env ix"
proof -
  obtain b where b: "compact_index_load example_env [example_ref] = Some (example_index b)" using example_load by blast
  have low: "pe_lower example_env = id" by (simp add: example_env_def)
  have valid: "file_valid (file_of_ref (pe_lower example_env) d)" if "d \<in> set [example_ref]" for d
    using that example_file_valid low by simp
  have "sorted_wrt (<) (map dr_id [example_ref])" by simp
  from load_index_ok [OF example_env_ok valid this b] b show ?thesis by blast
qed

theorem packed_load_correct_witness:
  "\<exists>ix. compact_index_load example_env [example_ref] = Some ix \<and> index_contents ix 1 = Some (file_of_ref id example_ref) \<and>
    index_ok example_env ix"
proof -
  obtain b where b: "compact_index_load example_env [example_ref] = Some (example_index b)" using example_load by blast
  have low: "pe_lower example_env = id" by (simp add: example_env_def)
  have valid: "file_valid (file_of_ref (pe_lower example_env) d)" if "d \<in> set [example_ref]" for d
    using that example_file_valid low by simp
  have "sorted_wrt (<) (map dr_id [example_ref])" by simp
  from packed_load_correct [OF example_env_ok valid this b] b show ?thesis
    by (intro exI [of _ "example_index b"]) (simp add: low example_ref_def)
qed

lemma example_apply:
  "\<exists>ix'. apply_changes_with_limits example_env [(1, None)]
      \<lparr>dl_dead_strings = 100, dl_dead_records = 10, dl_extension_growth = 10\<rparr> (example_index b) = Some (Applied, ix')"
proof -
  let ?ix = "example_index b"
  have at: "record_at ?ix 0 = Some example_record"
    by (simp add: record_at_def example_index_def example_defs vec_get_def)
  have live: "is_live example_record" using update_metadata_bits by (simp add: example_record_def)
  have id: "cr_id example_record = 1" by (simp add: example_record_def record_update_metadata_def example_ref_def)
  have n: "ci_physical_len ?ix = 1" "ci_len ?ix = 1" "ci_ids_sorted ?ix" "ci_extensions ?ix = []"
      "ci_fragmentation ?ix = \<lparr>fs_dead_records = 0, fs_dead_string_bytes = 0, fs_extension_growth_bytes = 0\<rparr>"
    by (simp_all add: example_index_def example_defs)
  have find: "find_id ?ix 1 = Some (Some 0)"
    unfolding find_id_def n by (simp add: find_id_loop.simps at id cmp_of_def)
  have bytes: "row_string_bytes ?ix example_record = Some 2"
    by (simp add: row_string_bytes_def path_suffix_slice_def example_record_def record_update_metadata_def pool_get_def
        record_basename_slice_def record_basename_lower_slice_def slice_suffix_def slice_end_def size_defs Let_def)
  have "set_record_at 0 r ?ix = Some (?ix\<lparr>ci_records := [[r]]\<rparr>)" for r
    by (simp add: set_record_at_def example_index_def example_defs vec_get_def vec_set_def)
  then show ?thesis
    by (simp add: apply_changes_with_limits_def plan_change_def count_delete_def count_string_bytes_def over_limits_def
        execute_change_def n at find live bytes size_defs Let_def)
qed

theorem packed_apply_correct_witness:
  "\<exists>ix ix'. compact_index_load example_env [example_ref] = Some ix \<and>
    apply_changes_with_limits example_env [(1, None)]
      \<lparr>dl_dead_strings = 100, dl_dead_records = 10, dl_extension_growth = 10\<rparr> ix = Some (Applied, ix') \<and>
    index_ok example_env ix' \<and> index_contents ix' 1 = None"
proof -
  obtain ix where load: "compact_index_load example_env [example_ref] = Some ix" "index_ok example_env ix"
    using example_load_ok by blast
  obtain b where b: "ix = example_index b" using load(1) example_load by auto
  obtain ix' where run: "apply_changes_with_limits example_env [(1, None)]
      \<lparr>dl_dead_strings = 100, dl_dead_records = 10, dl_extension_growth = 10\<rparr> ix = Some (Applied, ix')"
    using example_apply b by blast
  have "\<forall>i r. (i, Some r) \<in> set [(1, None)] \<longrightarrow> file_valid (packed_file (pe_lower example_env) r)" by simp
  from packed_apply_correct [OF example_env_ok _ load(2) this run]
  show ?thesis using load(1) run example_memory b by (auto simp: apply_changes_def packed_change_def)
qed

end
