(* ===== verification/Packed_Delta.thy ===== *)
theory Packed_Delta
  imports Packed_Contents
begin

text \<open>
  The change journal and the packed index together: a delta read from the journal brings the
  index to what it would hold after a fresh load of the new snapshot.
\<close>

text \<open>The rows of the database as a load visits them, by ascending identifier.\<close>

definition index_refs :: "index_db \<Rightarrow> db_record list" where
  "index_refs db = map borrow_record (ix_files db)"

lemma packed_file_stored: "packed_file ul r = row_to_record ul r"
proof -
  have "kind_parse ul (kind_as_str k) = Some k" for k by (cases k) (simp_all add: kind_parse_def)
  then show ?thesis
    by (simp add: packed_file_def file_of_ref_def borrow_record_def row_to_record_def lowered_text_def)
qed

lemma packed_file_read: "packed_file ul (row_to_record ul r) = row_to_record ul r"
proof -
  have "row_to_record ul (row_to_record ul r) = row_to_record ul r"
  proof -
    have "kind_parse ul (kind_as_str k) = Some k" for k by (cases k) (simp_all add: kind_parse_def)
    then show ?thesis by (simp add: row_to_record_def)
  qed
  then show ?thesis by (simp add: packed_file_stored)
qed

lemma delta_packed:
  assumes "file_changes_since_with_byte_limit ul identity db base n k m = Available target changes"
  shows "map (packed_change ul) changes = changes"
    and "(i, Some r) \<in> set changes \<Longrightarrow> \<exists>r0 \<in> set (ix_files db). r = row_to_record ul r0"
proof -
  have row: "\<exists>r0 \<in> set (ix_files db). r = row_to_record ul r0" if "rows_by_id ul db i = Some r" for i r
    using that by (auto simp: rows_by_id_def row_with_id_def find_Some_iff)
  have "packed_change ul (i, rows_by_id ul db i) = (i, rows_by_id ul db i)" for i
    by (cases "row_with_id db i") (simp_all add: packed_change_def rows_by_id_def packed_file_read)
  then show "map (packed_change ul) changes = changes"
    using Available_parts(3) [OF assms] by auto
  show "\<exists>r0 \<in> set (ix_files db). r = row_to_record ul r0" if "(i, Some r) \<in> set changes"
    using that Available_parts(3) [OF assms] row by auto
qed

lemma fresh_load_contents:
  assumes env: "packed_env_ok env" and ok: "ix_ok db"
    and valid: "\<forall>r \<in> set (ix_files db). file_valid (row_to_record (pe_lower env) r)"
    and load: "compact_index_load env (index_refs db) = Some fresh"
  shows "index_contents fresh = rows_by_id (pe_lower env) db"
proof
  fix i
  let ?ul = "pe_lower env"
  have ref: "file_of_ref ?ul (borrow_record r) = row_to_record ?ul r" for r
    using packed_file_stored by (simp add: packed_file_def)
  have "sorted_wrt (<) (map fr_id (ix_files db))"
    using ok by (auto simp: ix_ok_def strict_sorted_iff)
  then have srt: "sorted_wrt (<) (map dr_id (index_refs db))"
    by (simp add: index_refs_def comp_def borrow_record_def)
  have v: "file_valid (file_of_ref ?ul d)" if "d \<in> set (index_refs db)" for d
    using that valid ref by (auto simp: index_refs_def)
  have "index_rows_are env fresh (map (\<lambda>d. (True, file_of_ref ?ul d)) (index_refs db))"
    by (rule load_rows [OF env _ load srt]) (rule v)
  then have "index_contents fresh i = live_map (map (\<lambda>d. (True, file_of_ref ?ul d)) (index_refs db)) i"
    by (rule index_contents_rows)
  also have "\<dots> = map_of (map (\<lambda>r. (fr_id r, row_to_record ?ul r)) (ix_files db)) i"
    unfolding live_map_map_of by (simp add: index_refs_def comp_def ref) (simp add: row_to_record_def)
  also have "\<dots> = rows_by_id ?ul db i"
  proof -
    have "map_of (map (\<lambda>r. (fr_id r, row_to_record ?ul r)) rs) i = map_option (row_to_record ?ul) (List.find (\<lambda>r. fr_id r = i) rs)" for rs
      by (induction rs) auto
    then show ?thesis by (simp add: rows_by_id_def row_with_id_def)
  qed
  finally show "index_contents fresh i = rows_by_id ?ul db i" .
qed

text \<open>C20: Catching up is as good as loading anew: an index that holds an old snapshot, and to which the
  delta of the journal since that snapshot was applied, gives for every identifier exactly what
  a fresh load of the new snapshot gives, and it is again in a state to build on; the stamp to
  publish for it is the stamp of the new snapshot.\<close>

theorem packed_delta_is_reload:
  assumes "packed_env_ok env" and "memory_ok env ix" and "index_ok env ix"
    and "index_contents ix = rows_by_id (pe_lower env) db0"
    and "ix_ok db0" and "journal_ok db0" and "ix_has_journal db0" and "alloc_ok alloc"
    and "(db_step alloc)\<^sup>*\<^sup>* db0 db" and "ix_ok db"
    and "\<forall>r \<in> set (ix_files db). file_valid (row_to_record (pe_lower env) r)"
    and "file_changes_since_with_byte_limit (pe_lower env) identity db (content_stamp_of identity db0) max_events max_ids max_bytes =
      Available target changes"
    and "apply_changes_with_limits env changes limits ix = Some (Applied, ix')"
    and "compact_index_load env (index_refs db) = Some fresh"
  shows "index_contents ix' = index_contents fresh \<and> index_ok env ix' \<and> target = content_stamp_of identity db"
proof -
  let ?ul = "pe_lower env"
  obtain rows where rows: "index_rows_are env ix rows" "ci_len ix = count_live rows"
      "fs_dead_records (ci_fragmentation ix) = count_dead rows"
    using assms(3) by (auto simp: index_ok_def)
  have "\<forall>i r. (i, Some r) \<in> set changes \<longrightarrow> file_valid (packed_file ?ul r)"
    using delta_packed(2) [OF assms(12)] assms(11) packed_file_read by fastforce
  then obtain rows' where rows': "index_rows_are env ix' rows'" "ci_len ix' = count_live rows'"
      "fs_dead_records (ci_fragmentation ix') = count_dead rows'"
      "live_map rows' = apply_changes (map (packed_change ?ul) changes) (live_map rows)"
    using apply_changes_rows [OF assms(1,2) rows _ assms(13)] by blast
  have "live_map rows = rows_by_id ?ul db0" using index_contents_rows [OF rows(1)] assms(4) by (simp add: fun_eq_iff)
  then have "live_map rows' = rows_by_id ?ul db"
    using rows'(4) delta_rows [OF assms(5-9,12)] delta_packed(1) [OF assms(12)] by simp
  moreover have "index_contents ix' = live_map rows'" using index_contents_rows [OF rows'(1)] by (rule ext)
  ultimately show ?thesis
    using fresh_load_contents [OF assms(1,10,11,14)] rows'(1-3) Available_parts(1) [OF assms(12)]
    by (auto simp: index_ok_def)
qed

definition example_db :: index_db where
  "example_db = empty_db\<lparr>ix_files := [file_of_ref id example_ref]\<rparr>"

lemma example_delta:
  "file_changes_since_with_byte_limit id (1, 2) (delete_row 1 example_db) (content_stamp_of (1, 2) example_db) 10 10 100 =
    Available (content_stamp_of (1, 2) (delete_row 1 example_db)) [(1, None)]"
  by code_simp

lemma example_db_rows: "index_contents (example_index b) = rows_by_id id example_db"
  if "compact_index_load example_env [example_ref] = Some (example_index b)"
proof -
  have low: "pe_lower example_env = id" by (simp add: example_env_def)
  have ok: "ix_ok example_db" by (simp add: ix_ok_def example_db_def)
  have stored: "row_to_record id (file_of_ref id example_ref) = file_of_ref id example_ref" by code_simp
  have "\<forall>r \<in> set (ix_files example_db). file_valid (row_to_record (pe_lower example_env) r)"
    using example_file_valid stored low by (simp add: example_db_def)
  moreover have "index_refs example_db = [example_ref]"
    by (simp add: index_refs_def example_db_def borrow_record_def file_of_ref_def example_ref_def lowered_text_def)
  ultimately show ?thesis using fresh_load_contents [OF example_env_ok ok] that low by simp
qed

theorem packed_delta_is_reload_witness:
  "\<exists>ix ix' fresh. compact_index_load example_env [example_ref] = Some ix \<and>
    apply_changes_with_limits example_env [(1, None)]
      \<lparr>dl_dead_strings = 100, dl_dead_records = 10, dl_extension_growth = 10\<rparr> ix = Some (Applied, ix') \<and>
    compact_index_load example_env (index_refs (delete_row 1 example_db)) = Some fresh \<and>
    index_contents ix' = index_contents fresh"
proof -
  have low: "pe_lower example_env = id" by (simp add: example_env_def)
  obtain b where b: "compact_index_load example_env [example_ref] = Some (example_index b)" using example_load by blast
  obtain ix' where run: "apply_changes_with_limits example_env [(1, None)]
      \<lparr>dl_dead_strings = 100, dl_dead_records = 10, dl_extension_growth = 10\<rparr> (example_index b) = Some (Applied, ix')"
    using example_apply by blast
  have ok: "index_ok example_env (example_index b)" using example_load_ok b by auto
  have files: "ix_files (delete_row 1 example_db) = []" by (simp add: example_db_def file_of_ref_def example_ref_def)
  have fresh: "compact_index_load example_env (index_refs (delete_row 1 example_db)) = Some example_start"
    unfolding index_refs_def files by (simp add: compact_index_load_def example_start_def)
  have db0: "ix_ok example_db" "journal_ok example_db" "ix_has_journal example_db"
    by (simp_all add: ix_ok_def journal_ok_def example_db_def empty_db_def)
  have "db_step example_alloc example_db (delete_row 1 example_db)"
    by (rule step_delete) (simp add: example_db_def file_of_ref_def example_ref_def)
  then have step: "(db_step example_alloc)\<^sup>*\<^sup>* example_db (delete_row 1 example_db)" by blast
  have db: "ix_ok (delete_row 1 example_db)"
    "\<forall>r \<in> set (ix_files (delete_row 1 example_db)). file_valid (row_to_record (pe_lower example_env) r)"
    unfolding ix_ok_def files by simp_all
  from packed_delta_is_reload [OF example_env_ok example_memory ok _ db0 example_alloc_ok step db _ run fresh, unfolded low,
      OF example_db_rows [OF b] example_delta]
  show ?thesis using b run fresh by blast
qed

end
