(* ===== verification/Snapshot_Diff.thy ===== *)
theory Snapshot_Diff
  imports Packed_Delta
begin

text \<open>
  \<open>CompactIndex::snapshot_diff\<close> of \<open>src/src/compact_index.rs\<close>: the index and the rows of a
  snapshot are walked together, both by ascending identifier, and the differences become a batch
  of changes, unless one of the limits stops the walk.

  The clock is a parameter: \<open>late n\<close> says whether the n-th look at it is past the limit. The
  result is \<open>None\<close> for \<open>Err\<close>, \<open>Inl\<close> with a reason for \<open>Fallback\<close>, and \<open>Inr\<close> for
  \<open>Available\<close>.
\<close>

record diff_limits =
  di_max_scan_rows :: usize
  di_max_changes :: usize
  di_max_payload_bytes :: usize

record diff_state =
  ds_cursor :: usize
  ds_scanned :: usize
  ds_payload_bytes :: usize
  ds_changes :: "file_change list"
  ds_looks :: nat

type_synonym diff_step = "(str + diff_state) option"

text \<open>The inner loop: rows of the index before the current row of the snapshot.\<close>

function skip_rows :: "(nat \<Rightarrow> bool) \<Rightarrow> diff_limits \<Rightarrow> compact_index \<Rightarrow> i64 \<Rightarrow> diff_state \<Rightarrow> diff_step" where
  "skip_rows late limits ix i st =
     (if ds_cursor st < ci_physical_len ix
      then case record_at ix (ds_cursor st) of
             None \<Rightarrow> None
           | Some old \<Rightarrow>
               if cr_id old < i
               then if is_live old \<and> di_max_changes limits \<le> length (ds_changes st)
                    then Some (Inl ''reconcile_change_limit'')
                    else if late (ds_looks st) then Some (Inl ''reconcile_time_limit'')
                    else skip_rows late limits ix i
                           (st\<lparr>ds_changes := ds_changes st @ (if is_live old then [(cr_id old, None)] else []),
                               ds_cursor := ds_cursor st + 1, ds_looks := ds_looks st + 1\<rparr>)
               else Some (Inr st)
      else Some (Inr st))"
  by pat_completeness auto

termination by (relation "measure (\<lambda>(_, _, ix, _, st). ci_physical_len ix - ds_cursor st)") auto

declare skip_rows.simps [simp del]

definition diff_lower_bytes :: "(str \<Rightarrow> str) \<Rightarrow> db_record \<Rightarrow> usize" where
  "diff_lower_bytes ul d =
     (case dr_path_lower d of
        Some p \<Rightarrow> if p \<noteq> [] then length p
          else foldl (\<lambda>sum c. saturating_add sum (length (to_lowercase ul c))) 0 (str_chars (dr_path d))
      | None \<Rightarrow> foldl (\<lambda>sum c. saturating_add sum (length (to_lowercase ul c))) 0 (str_chars (dr_path d)))"

definition diff_row_bytes :: "(str \<Rightarrow> str) \<Rightarrow> db_record \<Rightarrow> usize option" where
  "diff_row_bytes ul d =
     foldl (\<lambda>sum n. Option.bind sum (\<lambda>m. checked_add m n)) (Some 0)
       [length (dr_path d), diff_lower_bytes ul d, length (dr_basename d), length (dr_basename_lower d),
        (case dr_ext_lower d of None \<Rightarrow> 0 | Some e \<Rightarrow> length e)]"

text \<open>The numbers of a row against the ones of the snapshot, field by field.\<close>

fun same_metadata :: "compact_record \<Rightarrow> metadata_block \<Rightarrow> usize \<Rightarrow> usize \<Rightarrow> i64 option list \<Rightarrow> bool option" where
  "same_metadata old metadata row field [] = Some True"
| "same_metadata old metadata row field (v # vs) =
     do {
       let present = (field = 5 \<or> cr_present old AND push_bit field 1 \<noteq> 0);
       same \<leftarrow> (if present \<noteq> (v \<noteq> None) then Some False
                else case v of None \<Rightarrow> Some True | Some n \<Rightarrow> map_option (\<lambda>m. m = n) (block_value metadata row field));
       if same then same_metadata old metadata row (field + 1) vs else Some False
     }"

definition row_unchanged :: "packed_env \<Rightarrow> compact_index \<Rightarrow> usize \<Rightarrow> db_record \<Rightarrow> str \<Rightarrow> bool option" where
  "row_unchanged env ix slot d lowered =
     do {
       old \<leftarrow> record_at ix slot;
       metadata \<leftarrow> vec_get (ci_metadata ix) (slot div ci_records_per_block ix);
       if \<not> is_live old \<or> cr_kind old \<noteq> dr_kind d then Some False
       else do {
         e \<leftarrow> ext_of ix old;
         if e \<noteq> dr_ext_lower d then Some False
         else do {
           same \<leftarrow> same_metadata old metadata (slot mod ci_records_per_block ix) 0 (metadata_input_of d);
           if same then same_strings env ix old d lowered else Some False
         }
       }
     }"

definition owned_record :: "db_record \<Rightarrow> str \<Rightarrow> file_record" where
  "owned_record d lowered =
     \<lparr>fr_id = dr_id d, fr_path = dr_path d, fr_path_lower = lowered, fr_basename = dr_basename d,
      fr_basename_lower = dr_basename_lower d, fr_ext_lower = dr_ext_lower d, fr_kind = dr_kind d,
      fr_size = dr_size d, fr_mtime = dr_mtime d, fr_ctime = dr_ctime d, fr_dev = dr_dev d,
      fr_inode = dr_inode d, fr_indexed_at = dr_indexed_at d\<rparr>"

text \<open>The row against the one under the cursor, once the rows before it are passed.\<close>

definition diff_row :: "packed_env \<Rightarrow> diff_limits \<Rightarrow> compact_index \<Rightarrow> db_record \<Rightarrow> diff_state \<Rightarrow> diff_step" where
  "diff_row env limits ix d st =
     do {
       slot \<leftarrow> (if ds_cursor st < ci_physical_len ix
                then map_option (\<lambda>r. if cr_id r = dr_id d then Some (ds_cursor st) else None) (record_at ix (ds_cursor st))
                else Some None);
       if slot = None \<and> ds_cursor st < ci_physical_len ix then Some (Inl ''new non-monotonic record ID'')
       else case diff_row_bytes (pe_lower env) d of
         None \<Rightarrow> Some (Inl ''reconcile_byte_limit'')
       | Some row_bytes \<Rightarrow>
           if di_max_payload_bytes limits < row_bytes then Some (Inl ''reconcile_byte_limit'')
           else do {
             lowered \<leftarrow> row_text_new (pe_lower env) d;
             unchanged \<leftarrow> (case slot of Some s \<Rightarrow> row_unchanged env ix s d lowered | None \<Rightarrow> Some False);
             let next = (if slot = None then ds_cursor st else ds_cursor st + 1);
             if unchanged then Some (Inr (st\<lparr>ds_cursor := next\<rparr>))
             else if di_max_changes limits \<le> length (ds_changes st) then Some (Inl ''reconcile_change_limit'')
             else case checked_add (ds_payload_bytes st) row_bytes of
               None \<Rightarrow> Some (Inl ''reconcile_byte_limit'')
             | Some bytes \<Rightarrow>
                 if di_max_payload_bytes limits < bytes then Some (Inl ''reconcile_byte_limit'')
                 else Some (Inr (st\<lparr>ds_payload_bytes := bytes,
                        ds_changes := ds_changes st @ [(dr_id d, Some (owned_record d lowered))],
                        ds_cursor := next\<rparr>))
           }
     }"

definition diff_visit ::
  "packed_env \<Rightarrow> (nat \<Rightarrow> bool) \<Rightarrow> diff_limits \<Rightarrow> compact_index \<Rightarrow> db_record \<Rightarrow> diff_state \<Rightarrow> diff_step" where
  "diff_visit env late limits ix d st =
     (if di_max_scan_rows limits \<le> ds_scanned st then Some (Inl ''reconcile_scan_limit'')
      else if late (ds_looks st) then Some (Inl ''reconcile_time_limit'')
      else do {
        r \<leftarrow> skip_rows late limits ix (dr_id d) (st\<lparr>ds_scanned := ds_scanned st + 1, ds_looks := ds_looks st + 1\<rparr>);
        case r of Inl reason \<Rightarrow> Some (Inl reason) | Inr st1 \<Rightarrow> diff_row env limits ix d st1
      })"

fun diff_visit_all ::
  "packed_env \<Rightarrow> (nat \<Rightarrow> bool) \<Rightarrow> diff_limits \<Rightarrow> compact_index \<Rightarrow> db_record list \<Rightarrow> diff_state \<Rightarrow> diff_step" where
  "diff_visit_all env late limits ix [] st = Some (Inr st)"
| "diff_visit_all env late limits ix (d # ds) st =
     do {
       r \<leftarrow> diff_visit env late limits ix d st;
       case r of Inl reason \<Rightarrow> Some (Inl reason) | Inr st1 \<Rightarrow> diff_visit_all env late limits ix ds st1
     }"

text \<open>The last loop: rows of the index behind the last row of the snapshot.\<close>

function diff_tail :: "(nat \<Rightarrow> bool) \<Rightarrow> diff_limits \<Rightarrow> compact_index \<Rightarrow> diff_state \<Rightarrow> diff_step" where
  "diff_tail late limits ix st =
     (if ds_cursor st < ci_physical_len ix
      then if late (ds_looks st) then Some (Inl ''reconcile_time_limit'')
           else case record_at ix (ds_cursor st) of
             None \<Rightarrow> None
           | Some old \<Rightarrow>
               if is_live old \<and> di_max_changes limits \<le> length (ds_changes st)
               then Some (Inl ''reconcile_change_limit'')
               else diff_tail late limits ix
                      (st\<lparr>ds_changes := ds_changes st @ (if is_live old then [(cr_id old, None)] else []),
                          ds_cursor := ds_cursor st + 1, ds_looks := ds_looks st + 1\<rparr>)
      else Some (Inr st))"
  by pat_completeness auto

termination by (relation "measure (\<lambda>(_, _, ix, st). ci_physical_len ix - ds_cursor st)") auto

declare diff_tail.simps [simp del]

definition snapshot_diff ::
  "packed_env \<Rightarrow> (nat \<Rightarrow> bool) \<Rightarrow> diff_limits \<Rightarrow> compact_index \<Rightarrow> db_record list \<Rightarrow> (str + file_change list) option" where
  "snapshot_diff env late limits ix refs =
     (if \<not> ci_ids_sorted ix then Some (Inl ''reconcile_record_order'')
      else do {
        r \<leftarrow> diff_visit_all env late limits ix refs
          \<lparr>ds_cursor = 0, ds_scanned = 0, ds_payload_bytes = 0, ds_changes = [], ds_looks = 0\<rparr>;
        case r of
          Inl reason \<Rightarrow> Some (Inl reason)
        | Inr st \<Rightarrow> map_option (map_sum id ds_changes) (diff_tail late limits ix st)
      })"

subsection \<open>Rows that did not change\<close>

lemma same_metadata_ok:
  assumes shown: "index_shows env ix xs" and k: "k < length xs"
    and old: "record_at ix k = Some old" and metadata: "vec_get (ci_metadata ix) (k div ci_records_per_block ix) = Some metadata"
    and input: "input_of_file (xs ! k) = us @ ws" and len: "length vs = length ws" "field = length us"
  shows "same_metadata old metadata (k mod ci_records_per_block ix) field vs = Some (vs = ws)"
  using input len
proof (induction vs arbitrary: field us ws)
  case (Cons v vs)
  obtain w ws' where ws: "ws = w # ws'" using Cons.prems(2) by (cases ws) auto
  have row: "row_ok ix old (xs ! k)" using index_shows_row [OF shown k] old by simp
  have six: "length (input_of_file (xs ! k)) = 6" "length (fields_of_file (xs ! k)) = 5"
    by (simp_all add: input_of_file_def fields_of_file_def)
  have f: "field < 6" "input_of_file (xs ! k) ! field = w" using Cons.prems(1,3) six ws by (simp_all add: nth_append)
  have "bit (cr_present old) field = (w \<noteq> None)" if "field \<noteq> 5"
    using row f six that by (simp add: row_ok_def input_of_file_def nth_append)
  moreover have "w \<noteq> None" if "field = 5" using f six that by (auto simp: input_of_file_def nth_append)
  moreover have "(cr_present old AND push_bit field 1 \<noteq> 0) = bit (cr_present old) field" by (simp only: bit_iff_and_push_bit_not_eq_0)
  ultimately have present: "(field = 5 \<or> cr_present old AND push_bit field 1 \<noteq> 0) = (w \<noteq> None)" by blast
  have "block_value metadata (k mod ci_records_per_block ix) field = Some n" if "w = Some n" for n
    using index_shows_metadata [OF shown k f(1)] f(2) that metadata by (simp add: metadata_value_def)
  then have same: "(if (w \<noteq> None) \<noteq> (v \<noteq> None) then Some False
      else case v of None \<Rightarrow> Some True | Some n \<Rightarrow> map_option (\<lambda>m. m = n) (block_value metadata (k mod ci_records_per_block ix) field)) =
      Some (v = w)"
    by (cases v; cases w) auto
  have "same_metadata old metadata (k mod ci_records_per_block ix) (field + 1) vs = Some (vs = ws')"
    using Cons.prems ws by (intro Cons.IH [of "us @ [w]"]) simp_all
  then show ?case unfolding same_metadata.simps Let_def present same by (simp add: ws)
qed simp

lemma same_parts:
  assumes "fr_id x = dr_id d"
  shows "(fr_kind x = dr_kind d \<and> fr_ext_lower x = dr_ext_lower d \<and> metadata_input_of d = input_of_file x \<and>
      same_texts x (file_of_ref ul d)) = (x = file_of_ref ul d)"
proof
  assume "fr_kind x = dr_kind d \<and> fr_ext_lower x = dr_ext_lower d \<and> metadata_input_of d = input_of_file x \<and>
      same_texts x (file_of_ref ul d)"
  then show "x = file_of_ref ul d" using assms
    by (intro file_record.equality)
       (simp_all add: same_texts_def file_of_ref_def input_of_file_def fields_of_file_def metadata_input_of_def metadata_fields_of_def)
next
  assume "x = file_of_ref ul d"
  then show "fr_kind x = dr_kind d \<and> fr_ext_lower x = dr_ext_lower d \<and> metadata_input_of d = input_of_file x \<and>
      same_texts x (file_of_ref ul d)"
    by (simp add: same_texts_def) (simp add: file_of_ref_def)
qed

lemma row_unchanged_ok:
  assumes rows: "index_rows_are env ix rows" and mem: "memory_ok env ix" and k: "k < length rows"
    and id: "fr_id (snd (rows ! k)) = dr_id d"
  shows "row_unchanged env ix k d (lowered_text (pe_lower env) d) =
    Some (rows ! k = (True, file_of_ref (pe_lower env) d))"
proof -
  let ?x = "snd (rows ! k)" and ?y = "file_of_ref (pe_lower env) d" and ?old = "concat (ci_records ix) ! k"
  have shown: "index_shows env ix (map snd rows)" and kx: "k < length (map snd rows)"
    using rows k by (simp_all add: index_rows_are_def)
  note row = index_shows_row [OF shown kx]
  have r: "row_ok ix ?old ?x" using row(2) k by simp
  have len: "length (concat (ci_records ix)) = length rows" using rows by (metis index_rows_are_def length_map)
  then have live: "is_live ?old = fst (rows ! k)" using rows k by (metis index_rows_are_def nth_map)
  have "k div ci_records_per_block ix < length (ci_metadata ix)" using index_shows_block [OF shown kx] .
  then obtain metadata where md: "vec_get (ci_metadata ix) (k div ci_records_per_block ix) = Some metadata" by simp
  have meta: "same_metadata ?old metadata (k mod ci_records_per_block ix) 0 (metadata_input_of d) =
      Some (metadata_input_of d = input_of_file ?x)"
    by (rule same_metadata_ok [OF shown kx row(1) md, of "[]"])
       (use k in \<open>simp_all add: input_of_file_def fields_of_file_def metadata_input_of_def metadata_fields_of_def\<close>)
  have ext: "ext_of ix ?old = Some (fr_ext_lower ?x)" and kind: "cr_kind ?old = fr_kind ?x" using r by (simp_all add: row_ok_def)
  have "row_unchanged env ix k d (lowered_text (pe_lower env) d) =
      Some (is_live ?old \<and> (fr_kind ?x = dr_kind d \<and> fr_ext_lower ?x = dr_ext_lower d \<and> metadata_input_of d = input_of_file ?x \<and>
        same_texts ?x ?y))"
    unfolding row_unchanged_def row(1) md bind.bind_lunit meta ext kind same_strings_ok [OF r mem, of d] by auto
  also have "\<dots> = Some (rows ! k = (True, ?y))"
    unfolding same_parts [OF id] live by (cases "rows ! k") simp
  finally show ?thesis .
qed

subsection \<open>The walk\<close>

definition refs_map :: "(str \<Rightarrow> str) \<Rightarrow> db_record list \<Rightarrow> i64 \<Rightarrow> file_record option" where
  "refs_map ul ds = map_of (map (\<lambda>d. (dr_id d, file_of_ref ul d)) ds)"

text \<open>The identifiers on both sides that the walk has passed.\<close>

definition passed :: "packed_rows \<Rightarrow> db_record list \<Rightarrow> usize \<Rightarrow> i64 set" where
  "passed rows ds c = set (take c (row_ids rows)) \<union> dr_id ` set ds"

text \<open>
  The invariant: of the rows of the snapshot \<open>ds\<close> are passed and \<open>es\<close> are to come. What was
  passed is below what is to come on both sides; the changes turn the passed part of the index
  into the passed part of the snapshot, and each of them is needed.
\<close>

definition diff_inv :: "(str \<Rightarrow> str) \<Rightarrow> packed_rows \<Rightarrow> db_record list \<Rightarrow> db_record list \<Rightarrow> diff_state \<Rightarrow> bool" where
  "diff_inv ul rows ds es st \<longleftrightarrow>
     ds_cursor st \<le> length rows \<and>
     (\<forall>i \<in> passed rows ds (ds_cursor st). (\<forall>e \<in> set es. i < dr_id e) \<and> (\<forall>j \<in> set (drop (ds_cursor st) (row_ids rows)). i < j)) \<and>
     (\<forall>i \<in> passed rows ds (ds_cursor st). apply_changes (ds_changes st) (live_map rows) i = refs_map ul ds i) \<and>
     fst ` set (ds_changes st) \<subseteq> passed rows ds (ds_cursor st) \<and>
     sorted_wrt (<) (map fst (ds_changes st)) \<and>
     (\<forall>(i, c) \<in> set (ds_changes st). live_map rows i \<noteq> c)"

lemma apply_changes_other:
  "i \<noteq> j \<Longrightarrow> apply_changes (cs @ [(j, c)]) m i = apply_changes cs m i"
  by (simp add: apply_changes_def map_add_def split: option.split)

lemma apply_changes_new:
  "j \<notin> fst ` set cs \<Longrightarrow> apply_changes (cs @ [(j, c)]) m j = c"
  by (auto simp: apply_changes_def map_add_def map_of_eq_None_iff split: option.split dest!: map_of_SomeD) force

lemma apply_changes_untouched: "j \<notin> fst ` set cs \<Longrightarrow> apply_changes cs m j = m j"
  by (simp add: apply_changes_def map_of_eq_None_iff [THEN iffD2])

lemma refs_map_none: "i \<notin> dr_id ` set ds \<Longrightarrow> refs_map ul ds i = None"
  by (auto simp: refs_map_def map_of_eq_None_iff)

text \<open>Passing a new identifier, with the change that it needs.\<close>

lemma diff_inv_pass:
  assumes inv: "diff_inv ul rows ds es st"
    and new: "i \<notin> passed rows ds (ds_cursor st)" "\<And>j. j \<in> passed rows ds (ds_cursor st) \<Longrightarrow> j < i"
    and step: "passed rows ds' (ds_cursor st') = insert i (passed rows ds (ds_cursor st))" "ds_cursor st' \<le> length rows"
    and refs: "\<And>j. j \<noteq> i \<Longrightarrow> refs_map ul ds' j = refs_map ul ds j"
    and come: "\<forall>e \<in> set es'. i < dr_id e" "set es' \<subseteq> set es"
      "\<forall>j \<in> set (drop (ds_cursor st') (row_ids rows)). i < j" "ds_cursor st \<le> ds_cursor st'"
    and change: "ds_changes st' = ds_changes st @ (if live_map rows i = refs_map ul ds' i then [] else [(i, refs_map ul ds' i)])"
  shows "diff_inv ul rows ds' es' st'"
proof -
  let ?p = "passed rows ds (ds_cursor st)" and ?c = "refs_map ul ds' i"
  have old: "fst ` set (ds_changes st) \<subseteq> ?p" using inv by (simp add: diff_inv_def)
  then have fresh: "i \<notin> fst ` set (ds_changes st)" using new(1) by blast
  have later: "set (drop (ds_cursor st') (row_ids rows)) \<subseteq> set (drop (ds_cursor st) (row_ids rows))"
    using come(4) by (rule set_drop_subset_set_drop)
  have below: "\<forall>j \<in> insert i ?p. (\<forall>e \<in> set es'. j < dr_id e) \<and> (\<forall>l \<in> set (drop (ds_cursor st') (row_ids rows)). j < l)"
    using inv come later by (auto simp: diff_inv_def)
  have "apply_changes (ds_changes st') (live_map rows) j = refs_map ul ds' j" if "j \<in> insert i ?p" for j
  proof (cases "j = i")
    case True
    then show ?thesis using fresh apply_changes_new apply_changes_untouched by (simp add: change)
  next
    case False
    then have "apply_changes (ds_changes st') (live_map rows) j = apply_changes (ds_changes st) (live_map rows) j"
      by (simp add: change apply_changes_other)
    then show ?thesis using inv that False refs by (simp add: diff_inv_def)
  qed
  moreover have "fst ` set (ds_changes st') \<subseteq> insert i ?p" using old by (auto simp: change)
  moreover have "sorted_wrt (<) (map fst (ds_changes st'))"
    using inv old new(2) by (auto simp: change diff_inv_def sorted_wrt_append)
  moreover have "\<forall>(j, c) \<in> set (ds_changes st'). live_map rows j \<noteq> c"
    using inv by (auto simp: change diff_inv_def)
  ultimately show ?thesis using below step by (simp add: diff_inv_def)
qed

text \<open>What a row of the index says, and what it means to step over it.\<close>

lemma diff_row_at:
  assumes rows: "index_rows_are env ix rows" and k: "k < length rows"
  shows "\<exists>old. record_at ix k = Some old \<and> cr_id old = row_ids rows ! k \<and> is_live old = fst (rows ! k)"
proof -
  have shown: "index_shows env ix (map snd rows)" and kx: "k < length (map snd rows)"
    using rows k by (simp_all add: index_rows_are_def)
  note row = index_shows_row [OF shown kx]
  have "length (concat (ci_records ix)) = length rows" using rows by (metis index_rows_are_def length_map)
  then have "is_live (concat (ci_records ix) ! k) = fst (rows ! k)" using rows k by (metis index_rows_are_def nth_map)
  then show ?thesis using row k by (auto simp: row_ok_def row_ids_def)
qed

lemma live_map_row:
  assumes "sorted_wrt (<) (row_ids rows)" and "k < length rows"
  shows "live_map rows (row_ids rows ! k) = (if fst (rows ! k) then Some (snd (rows ! k)) else None)"
  using assms
proof (induction rows arbitrary: k)
  case (Cons p rows)
  show ?case
  proof (cases k)
    case 0
    have "List.find (\<lambda>(live, x). live \<and> fr_id x = fr_id (snd p)) rows = None"
      using Cons.prems(1) by (auto simp: find_None_iff row_ids_def)
    then show ?thesis using 0 by (cases p) (auto simp: live_map_def row_ids_def)
  next
    case (Suc l)
    then have "fr_id (snd p) < row_ids rows ! l" using Cons.prems by (simp add: row_ids_def)
    then have "live_map (p # rows) (row_ids rows ! l) = live_map rows (row_ids rows ! l)"
      by (cases p) (auto simp: live_map_def)
    then show ?thesis using Cons Suc by (simp add: row_ids_def)
  qed
qed simp

lemma live_map_none: "i \<notin> set (row_ids rows) \<Longrightarrow> live_map rows i = None"
  by (auto simp: live_map_def find_None_iff row_ids_def image_iff)

lemma sorted_passed:
  assumes "sorted_wrt (<) (xs :: i64 list)" and "k < length xs"
  shows "set (take (k + 1) xs) = insert (xs ! k) (set (take k xs))"
    and "j \<in> set (drop (k + 1) xs) \<Longrightarrow> xs ! k < j"
proof -
  show "set (take (k + 1) xs) = insert (xs ! k) (set (take k xs))" using assms(2) by (simp add: take_Suc_conv_app_nth)
  show "xs ! k < j" if later: "j \<in> set (drop (k + 1) xs)"
  proof -
    obtain m where "m < length (drop (k + 1) xs)" "drop (k + 1) xs ! m = j" using later unfolding in_set_conv_nth by blast
    then have "k + 1 + m < length xs" "xs ! (k + 1 + m) = j" by simp_all
    then show ?thesis using sorted_wrt_nth_less [OF assms(1), of k "k + 1 + m"] by simp
  qed
qed

text \<open>Stepping over a row of the index that is not in the snapshot.\<close>

lemma diff_inv_dead:
  assumes rows: "index_rows_are env ix rows" and inv: "diff_inv ul rows ds es st" and c: "ds_cursor st < length rows"
    and below: "\<forall>e \<in> set es. row_ids rows ! ds_cursor st < dr_id e" and old: "record_at ix (ds_cursor st) = Some old"
    and st': "ds_cursor st' = ds_cursor st + 1"
      "ds_changes st' = ds_changes st @ (if is_live old then [(cr_id old, None)] else [])"
  shows "diff_inv ul rows ds es st'"
proof (rule diff_inv_pass [OF inv, where i = "row_ids rows ! ds_cursor st"])
  let ?i = "row_ids rows ! ds_cursor st"
  have srt: "sorted_wrt (<) (row_ids rows)" using index_rows_sorted [OF rows] .
  have c': "ds_cursor st < length (row_ids rows)" using c by (simp add: row_ids_def)
  have come: "?i \<in> set (drop (ds_cursor st) (row_ids rows))"
    using c' by (metis Cons_nth_drop_Suc list.set_intros(1))
  show less: "j < ?i" if "j \<in> passed rows ds (ds_cursor st)" for j using inv that come by (auto simp: diff_inv_def)
  then show fresh: "?i \<notin> passed rows ds (ds_cursor st)" by blast
  show "passed rows ds (ds_cursor st') = insert ?i (passed rows ds (ds_cursor st))"
    using sorted_passed(1) [OF srt c'] by (simp add: passed_def st')
  show "\<forall>j \<in> set (drop (ds_cursor st') (row_ids rows)). ?i < j" using sorted_passed(2) [OF srt c'] by (simp add: st')
  have "refs_map ul ds ?i = None" using fresh by (intro refs_map_none) (simp add: passed_def)
  then show "ds_changes st' = ds_changes st @ (if live_map rows ?i = refs_map ul ds ?i then [] else [(?i, refs_map ul ds ?i)])"
    using diff_row_at [OF rows c] old live_map_row [OF srt c] by (auto simp: st')
qed (use below c st' in auto)

lemma skip_rows_inv:
  assumes rows: "index_rows_are env ix rows" and inv: "diff_inv ul rows ds es st"
    and come: "\<forall>e \<in> set es. i \<le> dr_id e" and run: "skip_rows late limits ix i st = Some (Inr st')"
  shows "diff_inv ul rows ds es st' \<and> (ds_cursor st' < length rows \<longrightarrow> i \<le> row_ids rows ! ds_cursor st')"
  using inv run
proof (induction late limits ix' \<equiv> ix i' \<equiv> i st rule: skip_rows.induct)
  case (1 late limits st)
  have len: "ci_physical_len ix = length rows" using rows by (simp add: index_rows_are_def index_shows_def)
  show ?case
  proof (cases "ds_cursor st < length rows")
    case False
    then show ?thesis using "1.prems" len by (subst (asm) skip_rows.simps) auto
  next
    case True
    obtain old where old: "record_at ix (ds_cursor st) = Some old" "cr_id old = row_ids rows ! ds_cursor st"
      using diff_row_at [OF rows True] by blast
    show ?thesis
    proof (cases "cr_id old < i")
      case False
      then show ?thesis using "1.prems" len True old by (subst (asm) skip_rows.simps) auto
    next
      case less: True
      let ?st = "st\<lparr>ds_changes := ds_changes st @ (if is_live old then [(cr_id old, None)] else []),
        ds_cursor := ds_cursor st + 1, ds_looks := ds_looks st + 1\<rparr>"
      have go: "\<not> (is_live old \<and> di_max_changes limits \<le> length (ds_changes st))" "\<not> late (ds_looks st)"
        "skip_rows late limits ix i ?st = Some (Inr st')"
        using "1.prems"(2) len True old less by (subst (asm) skip_rows.simps, auto split: if_splits)+
      have "diff_inv ul rows ds es ?st"
        by (rule diff_inv_dead [OF rows "1.prems"(1) True _ old(1)]) (use come less old in fastforce)+
      then show ?thesis using "1.hyps" [OF _ old(1) less go(1,2) _ go(3)] len True by simp
    qed
  qed
qed

text \<open>A row of the snapshot.\<close>

lemma owned_record_lowered: "owned_record d (lowered_text ul d) = file_of_ref ul d"
  by (simp add: owned_record_def file_of_ref_def)

lemma refs_map_snoc:
  assumes "dr_id d \<notin> dr_id ` set ds"
  shows "refs_map ul (ds @ [d]) (dr_id d) = Some (file_of_ref ul d)"
    and "j \<noteq> dr_id d \<Longrightarrow> refs_map ul (ds @ [d]) j = refs_map ul ds j"
  using refs_map_none [OF assms, of ul]
  by (auto simp: refs_map_def map_add_def split: option.split)

lemma diff_row_result:
  assumes "diff_row env limits ix d st = Some (Inr st')"
    and "slot = (if ds_cursor st < ci_physical_len ix then Some (ds_cursor st) else None)"
  shows "\<exists>unchanged.
    (case slot of Some k \<Rightarrow> map_option cr_id (record_at ix k) = Some (dr_id d) \<and>
        row_unchanged env ix k d (lowered_text (pe_lower env) d) = Some unchanged
      | None \<Rightarrow> \<not> unchanged) \<and>
    ds_cursor st' = (case slot of None \<Rightarrow> ds_cursor st | Some k \<Rightarrow> k + 1) \<and>
    ds_changes st' = ds_changes st @ (if unchanged then [] else [(dr_id d, Some (owned_record d (lowered_text (pe_lower env) d)))])"
proof -
  let ?low = "lowered_text (pe_lower env) d"
  obtain s where s: "(if ds_cursor st < ci_physical_len ix
        then map_option (\<lambda>r. if cr_id r = dr_id d then Some (ds_cursor st) else None) (record_at ix (ds_cursor st))
        else Some None) = Some s" and passed: "\<not> (s = None \<and> ds_cursor st < ci_physical_len ix)"
    using assms(1) unfolding diff_row_def by (cases "ds_cursor st < ci_physical_len ix") (auto simp: bind_eq_Some_conv split: if_split_asm)
  have slot: "s = slot" "case slot of Some k \<Rightarrow> map_option cr_id (record_at ix k) = Some (dr_id d) | None \<Rightarrow> True"
    using s passed assms(2) by (auto split: if_split_asm)
  obtain row_bytes where bytes: "diff_row_bytes (pe_lower env) d = Some row_bytes" "\<not> di_max_payload_bytes limits < row_bytes"
    using assms(1) passed unfolding diff_row_def s bind.bind_lunit by (auto split: option.split_asm if_split_asm)
  obtain lowered where low: "row_text_new (pe_lower env) d = Some lowered"
    using assms(1) passed bytes unfolding diff_row_def s bind.bind_lunit by (auto simp: bind_eq_Some_conv)
  obtain unchanged where un: "(case s of Some k \<Rightarrow> row_unchanged env ix k d ?low | None \<Rightarrow> Some False) = Some unchanged"
    using assms(1) passed bytes low row_text_new_Some [OF low] unfolding diff_row_def s bind.bind_lunit by (auto simp: bind_eq_Some_conv)
  have go: "(let next = (if s = None then ds_cursor st else ds_cursor st + 1) in
      if unchanged then Some (Inr (st\<lparr>ds_cursor := next\<rparr>))
      else if di_max_changes limits \<le> length (ds_changes st) then Some (Inl ''reconcile_change_limit'')
      else case checked_add (ds_payload_bytes st) row_bytes of
        None \<Rightarrow> Some (Inl ''reconcile_byte_limit'')
      | Some bytes \<Rightarrow>
          if di_max_payload_bytes limits < bytes then Some (Inl ''reconcile_byte_limit'')
          else Some (Inr (st\<lparr>ds_payload_bytes := bytes, ds_changes := ds_changes st @ [(dr_id d, Some (owned_record d ?low))],
                 ds_cursor := next\<rparr>))) = Some (Inr st')"
    using assms(1) passed bytes low row_text_new_Some [OF low] un
    unfolding diff_row_def s bind.bind_lunit by simp
  have "s = Some k \<Longrightarrow> k = ds_cursor st" for k using s by (auto split: if_split_asm)
  then show ?thesis using go un slot
    by (intro exI [of _ unchanged]) (auto simp: Let_def split: if_split_asm option.split_asm option.split)
qed

lemma diff_row_inv:
  assumes rows: "index_rows_are env ix rows" and mem: "memory_ok env ix"
    and inv: "diff_inv (pe_lower env) rows ds (d # es) st" and srt: "sorted_wrt (<) (map dr_id (d # es))"
    and run: "diff_row env limits ix d st = Some (Inr st')"
  shows "diff_inv (pe_lower env) rows (ds @ [d]) es st'"
proof -
  let ?ul = "pe_lower env" and ?c = "ds_cursor st" and ?i = "dr_id d"
  let ?slot = "if ?c < ci_physical_len ix then Some ?c else None"
  have len: "ci_physical_len ix = length rows" "length (row_ids rows) = length rows"
    using rows by (simp_all add: index_rows_are_def index_shows_def row_ids_def)
  have ids: "sorted_wrt (<) (row_ids rows)" using index_rows_sorted [OF rows] .
  have less: "j < ?i" if "j \<in> passed rows ds ?c" for j using inv that by (auto simp: diff_inv_def)
  then have fresh: "?i \<notin> passed rows ds ?c" by blast
  then have new: "?i \<notin> dr_id ` set ds" by (simp add: passed_def)
  obtain unchanged where r: "case ?slot of Some k \<Rightarrow> map_option cr_id (record_at ix k) = Some ?i \<and>
        row_unchanged env ix k d (lowered_text ?ul d) = Some unchanged | None \<Rightarrow> \<not> unchanged"
      "ds_cursor st' = (case ?slot of None \<Rightarrow> ?c | Some k \<Rightarrow> k + 1)"
      "ds_changes st' = ds_changes st @ (if unchanged then [] else [(?i, Some (file_of_ref ?ul d))])"
    using diff_row_result [OF run refl] by (auto simp: owned_record_lowered)
  have c: "?c \<le> length rows" using inv by (simp add: diff_inv_def)
  have parts: "unchanged = (live_map rows ?i = Some (file_of_ref ?ul d)) \<and> ds_cursor st' \<le> length rows \<and> ?c \<le> ds_cursor st' \<and>
      passed rows (ds @ [d]) (ds_cursor st') = insert ?i (passed rows ds ?c) \<and>
      (\<forall>j \<in> set (drop (ds_cursor st') (row_ids rows)). ?i < j)"
  proof (cases "?c < length rows")
    case True
    then have at: "row_ids rows ! ?c = ?i" using r(1) diff_row_at [OF rows True] len by auto
    have "row_unchanged env ix ?c d (lowered_text ?ul d) = Some (rows ! ?c = (True, file_of_ref ?ul d))"
      by (rule row_unchanged_ok [OF rows mem True]) (use at True in \<open>simp add: row_ids_def\<close>)
    then have "unchanged = (live_map rows ?i = Some (file_of_ref ?ul d))"
      using r(1) True len live_map_row [OF ids True] at by (cases "rows ! ?c") auto
    then show ?thesis
      using True r(2) len at sorted_passed [OF ids, of ?c] by (auto simp: passed_def)
  next
    case False
    then have end_: "?c = length rows" using c by simp
    then have "?i \<notin> set (row_ids rows)" using fresh len by (simp add: passed_def)
    then show ?thesis using live_map_none r(1,2) False len end_ by (auto simp: passed_def)
  qed
  show ?thesis
  proof (rule diff_inv_pass [OF inv, where i = ?i])
    show "\<forall>e \<in> set es. ?i < dr_id e" using srt by auto
    show "ds_changes st' = ds_changes st @
        (if live_map rows ?i = refs_map ?ul (ds @ [d]) ?i then [] else [(?i, refs_map ?ul (ds @ [d]) ?i)])"
      using r(3) parts refs_map_snoc(1) [OF new, of ?ul] by auto
  qed (use less fresh parts refs_map_snoc(2) [OF new] in auto)
qed

lemma diff_step_Inr:
  "(case r of Inl reason \<Rightarrow> Some (Inl reason) | Inr st \<Rightarrow> f st) = Some (Inr x) \<longleftrightarrow> (\<exists>st. r = Inr st \<and> f st = Some (Inr x))"
  by (cases r) auto

lemma diff_inv_state:
  "ds_cursor st' = ds_cursor st \<Longrightarrow> ds_changes st' = ds_changes st \<Longrightarrow> diff_inv ul rows ds es st' = diff_inv ul rows ds es st"
  by (simp add: diff_inv_def)

lemma diff_visit_inv:
  assumes rows: "index_rows_are env ix rows" and mem: "memory_ok env ix"
    and inv: "diff_inv (pe_lower env) rows ds (d # es) st" and srt: "sorted_wrt (<) (map dr_id (d # es))"
    and run: "diff_visit env late limits ix d st = Some (Inr st')"
  shows "diff_inv (pe_lower env) rows (ds @ [d]) es st'"
proof -
  let ?st = "st\<lparr>ds_scanned := ds_scanned st + 1, ds_looks := ds_looks st + 1\<rparr>"
  have inv0: "diff_inv (pe_lower env) rows ds (d # es) ?st" using inv by (subst diff_inv_state) auto
  obtain st1 where skip: "skip_rows late limits ix (dr_id d) ?st = Some (Inr st1)" and go: "diff_row env limits ix d st1 = Some (Inr st')"
    using run by (auto simp: diff_visit_def bind_eq_Some_conv diff_step_Inr split: if_split_asm)
  have "\<forall>e \<in> set (d # es). dr_id d \<le> dr_id e" using srt by (auto simp: less_imp_le)
  then have "diff_inv (pe_lower env) rows ds (d # es) st1" using skip_rows_inv [OF rows inv0 _ skip] by blast
  then show ?thesis using diff_row_inv [OF rows mem _ srt go] by blast
qed

lemma diff_visit_all_inv:
  assumes rows: "index_rows_are env ix rows" and mem: "memory_ok env ix"
    and "diff_inv (pe_lower env) rows ds es st" and "sorted_wrt (<) (map dr_id es)"
    and "diff_visit_all env late limits ix es st = Some (Inr st')"
  shows "diff_inv (pe_lower env) rows (ds @ es) [] st'"
  using assms(3-)
proof (induction es arbitrary: ds st)
  case (Cons d es)
  obtain st1 where one: "diff_visit env late limits ix d st = Some (Inr st1)"
      and all: "diff_visit_all env late limits ix es st1 = Some (Inr st')"
    using Cons.prems(3) by (auto simp: bind_eq_Some_conv diff_step_Inr)
  have "diff_inv (pe_lower env) rows (ds @ [d]) es st1"
    by (rule diff_visit_inv [OF rows mem Cons.prems(1,2) one])
  then have "diff_inv (pe_lower env) rows ((ds @ [d]) @ es) [] st'"
    by (rule Cons.IH [OF _ _ all]) (use Cons.prems(2) in simp)
  then show ?case by simp
qed simp

lemma diff_tail_inv:
  assumes rows: "index_rows_are env ix rows" and inv: "diff_inv ul rows ds [] st"
    and run: "diff_tail late limits ix st = Some (Inr st')"
  shows "diff_inv ul rows ds [] st' \<and> ds_cursor st' = length rows"
  using inv run
proof (induction late limits ix' \<equiv> ix st rule: diff_tail.induct)
  case (1 late limits st)
  have len: "ci_physical_len ix = length rows" using rows by (simp add: index_rows_are_def index_shows_def)
  show ?case
  proof (cases "ds_cursor st < length rows")
    case False
    then have "ds_cursor st = length rows" using "1.prems"(1) by (simp add: diff_inv_def)
    then show ?thesis using "1.prems" len by (subst (asm) diff_tail.simps) auto
  next
    case True
    obtain old where old: "record_at ix (ds_cursor st) = Some old" using diff_row_at [OF rows True] by blast
    let ?st = "st\<lparr>ds_changes := ds_changes st @ (if is_live old then [(cr_id old, None)] else []),
      ds_cursor := ds_cursor st + 1, ds_looks := ds_looks st + 1\<rparr>"
    have go: "\<not> late (ds_looks st)" "\<not> (is_live old \<and> di_max_changes limits \<le> length (ds_changes st))"
      "diff_tail late limits ix ?st = Some (Inr st')"
      using "1.prems"(2) len True old by (subst (asm) diff_tail.simps, auto split: if_splits)+
    have "diff_inv ul rows ds [] ?st"
      by (rule diff_inv_dead [OF rows "1.prems"(1) True _ old]) simp_all
    then show ?thesis using "1.hyps" [OF _ go(1) old go(2) _ go(3)] len True by simp
  qed
qed

lemma map_sum_Inr: "map_sum id f r = Inr y \<longleftrightarrow> (\<exists>x. r = Inr x \<and> y = f x)"
  by (cases r) auto

lemma snapshot_diff_inv:
  assumes rows: "index_rows_are env ix rows" and mem: "memory_ok env ix" and srt: "sorted_wrt (<) (map dr_id refs)"
    and run: "snapshot_diff env late limits ix refs = Some (Inr changes)"
  shows "\<exists>st. ds_changes st = changes \<and> diff_inv (pe_lower env) rows refs [] st \<and> ds_cursor st = length rows"
proof -
  let ?st = "\<lparr>ds_cursor = 0, ds_scanned = 0, ds_payload_bytes = 0, ds_changes = [], ds_looks = 0\<rparr>"
  obtain st1 st2 where walk: "diff_visit_all env late limits ix refs ?st = Some (Inr st1)"
      and tail: "diff_tail late limits ix st1 = Some (Inr st2)" "ds_changes st2 = changes"
    using run by (auto simp: snapshot_diff_def bind_eq_Some_conv diff_step_Inr map_sum_Inr split: if_split_asm)
  have "diff_inv (pe_lower env) rows [] refs ?st" by (simp add: diff_inv_def passed_def)
  then have "diff_inv (pe_lower env) rows ([] @ refs) [] st1" by (rule diff_visit_all_inv [OF rows mem _ srt walk])
  then show ?thesis using diff_tail_inv [OF rows _ tail(1)] tail(2) by auto
qed

lemma diff_inv_end:
  assumes inv: "diff_inv ul rows refs [] st" and "ds_cursor st = length rows"
  shows "apply_changes (ds_changes st) (live_map rows) = refs_map ul refs"
proof
  fix i
  have all: "passed rows refs (ds_cursor st) = set (row_ids rows) \<union> dr_id ` set refs"
    using assms(2) by (simp add: passed_def row_ids_def)
  show "apply_changes (ds_changes st) (live_map rows) i = refs_map ul refs i"
  proof (cases "i \<in> set (row_ids rows) \<union> dr_id ` set refs")
    case True
    then show ?thesis using inv unfolding diff_inv_def all by blast
  next
    case False
    then have "i \<notin> fst ` set (ds_changes st)" using inv unfolding diff_inv_def all by blast
    then show ?thesis using False apply_changes_untouched live_map_none refs_map_none by fastforce
  qed
qed

lemma snapshot_diff_exact:
  assumes rows: "index_rows_are env ix rows" and mem: "memory_ok env ix" and srt: "sorted_wrt (<) (map dr_id refs)"
    and run: "snapshot_diff env late limits ix refs = Some (Inr changes)"
  shows "apply_changes changes (index_contents ix) = refs_map (pe_lower env) refs"
    and "sorted_wrt (<) (map fst changes)" and "\<forall>(i, c) \<in> set changes. index_contents ix i \<noteq> c"
    and "(i, c) \<in> set changes \<Longrightarrow> c = refs_map (pe_lower env) refs i"
proof -
  obtain st where st: "ds_changes st = changes" "diff_inv (pe_lower env) rows refs [] st" "ds_cursor st = length rows"
    using snapshot_diff_inv [OF assms] by blast
  have same: "index_contents ix = live_map rows" using index_contents_rows [OF rows] by (rule ext)
  show result: "apply_changes changes (index_contents ix) = refs_map (pe_lower env) refs"
    using diff_inv_end [OF st(2,3)] st(1) same by simp
  show ids: "sorted_wrt (<) (map fst changes)" and "\<forall>(i, c) \<in> set changes. index_contents ix i \<noteq> c"
    using st same by (auto simp: diff_inv_def)
  show "c = refs_map (pe_lower env) refs i" if "(i, c) \<in> set changes"
  proof -
    have "distinct (map fst changes)" using ids by (simp add: strict_sorted_iff)
    then have "map_of changes i = Some c" using that by simp
    then show ?thesis using result by (auto simp: apply_changes_def fun_eq_iff dest!: spec [of _ i])
  qed
qed

lemma packed_file_ref: "packed_file ul (file_of_ref ul d) = file_of_ref ul d"
  by (simp add: packed_file_def file_of_ref_def borrow_record_def lowered_text_def split: option.split)

lemma refs_map_ref: "refs_map ul ds i = Some r \<Longrightarrow> \<exists>d \<in> set ds. r = file_of_ref ul d"
  by (auto simp: refs_map_def dest!: map_of_SomeD)

lemma snapshot_diff_changes:
  assumes rows: "index_rows_are env ix rows" and mem: "memory_ok env ix" and srt: "sorted_wrt (<) (map dr_id refs)"
    and valid: "\<forall>d \<in> set refs. file_valid (file_of_ref (pe_lower env) d)"
    and run: "snapshot_diff env late limits ix refs = Some (Inr changes)"
  shows "map (packed_change (pe_lower env)) changes = changes"
    and "\<forall>i r. (i, Some r) \<in> set changes \<longrightarrow> file_valid (packed_file (pe_lower env) r)"
proof -
  let ?ul = "pe_lower env"
  have refs: "\<exists>d \<in> set refs. r = file_of_ref ?ul d" if "(i, Some r) \<in> set changes" for i r
    using snapshot_diff_exact(4) [OF rows mem srt run that] refs_map_ref [of ?ul refs i r] by simp
  have "packed_change ?ul (i, c) = (i, c)" if "(i, c) \<in> set changes" for i c
    using refs [of i] that by (cases c) (auto simp: packed_change_def dest!: refs simp: packed_file_ref)
  then show "map (packed_change ?ul) changes = changes" by (intro map_idI) auto
  show "\<forall>i r. (i, Some r) \<in> set changes \<longrightarrow> file_valid (packed_file ?ul r)"
    using refs valid packed_file_ref by metis
qed

text \<open>The rows of a database as the walk sees them.\<close>

lemma refs_map_index: "refs_map ul (index_refs db) = rows_by_id ul db"
proof -
  have ref: "file_of_ref ul (borrow_record r) = row_to_record ul r" for r
    using packed_file_stored by (simp add: packed_file_def)
  have "map_of (map (\<lambda>d. (dr_id d, file_of_ref ul d)) (map borrow_record rs)) i =
      map_option (row_to_record ul) (List.find (\<lambda>r. fr_id r = i) rs)" for rs i
  proof (induction rs)
    case (Cons r rs)
    then show ?case using ref [of r] by (simp add: borrow_record_def)
  qed simp
  then show ?thesis by (simp add: fun_eq_iff refs_map_def index_refs_def rows_by_id_def row_with_id_def)
qed

text \<open>C23: Reconciling is as good as loading anew: when the bounded comparison of a published index with the
  rows of a snapshot offers a batch of changes, the changes are by strictly ascending identifier
  and each of them is needed; they take the contents of the index exactly to the rows of the
  snapshot; and the index that results when the batch is applied holds exactly these rows and is
  in a state to build on.\<close>

theorem snapshot_diff_reconciles:
  assumes "packed_env_ok env" and "memory_ok env ix" and "index_ok env ix"
    and "sorted_wrt (<) (map dr_id refs)" and "\<forall>d \<in> set refs. file_valid (file_of_ref (pe_lower env) d)"
    and "snapshot_diff env late limits ix refs = Some (Inr changes)"
  shows "sorted_wrt (<) (map fst changes) \<and> (\<forall>(i, c) \<in> set changes. index_contents ix i \<noteq> c) \<and>
    apply_changes changes (index_contents ix) = map_of (map (\<lambda>d. (dr_id d, file_of_ref (pe_lower env) d)) refs) \<and>
    (\<forall>delta_limits ix'. apply_changes_with_limits env changes delta_limits ix = Some (Applied, ix') \<longrightarrow>
       index_contents ix' = map_of (map (\<lambda>d. (dr_id d, file_of_ref (pe_lower env) d)) refs) \<and> index_ok env ix')"
proof -
  let ?ul = "pe_lower env"
  obtain rows where rows: "index_rows_are env ix rows" "ci_len ix = count_live rows"
      "fs_dead_records (ci_fragmentation ix) = count_dead rows"
    using assms(3) by (auto simp: index_ok_def)
  note exact = snapshot_diff_exact [OF rows(1) assms(2,4,6)]
  note batch = snapshot_diff_changes [OF rows(1) assms(2,4,5,6)]
  have "index_contents ix = live_map rows" using index_contents_rows [OF rows(1)] by (rule ext)
  then have "index_contents ix' = apply_changes changes (index_contents ix) \<and> index_ok env ix'"
    if "apply_changes_with_limits env changes delta_limits ix = Some (Applied, ix')" for delta_limits ix'
    using apply_changes_rows [OF assms(1,2) rows batch(2) that] batch(1) index_contents_rows by (fastforce simp: index_ok_def)
  then show ?thesis using exact(1-3) by (simp add: refs_map_def)
qed

lemma example_diff:
  "snapshot_diff example_env (\<lambda>_. False) \<lparr>di_max_scan_rows = 10, di_max_changes = 10, di_max_payload_bytes = 100\<rparr>
     (example_index b) [] = Some (Inr [(1, None)])"
proof -
  let ?ix = "example_index b"
  have at: "record_at ?ix 0 = Some example_record"
    by (simp add: record_at_def example_index_def example_defs vec_get_def)
  have live: "is_live example_record" using update_metadata_bits by (simp add: example_record_def)
  have id: "cr_id example_record = 1" by (simp add: example_record_def record_update_metadata_def example_ref_def)
  have n: "ci_physical_len ?ix = 1" "ci_ids_sorted ?ix" by (simp_all add: example_index_def example_defs)
  show ?thesis by (simp add: snapshot_diff_def diff_tail.simps n at live id)
qed

theorem snapshot_diff_reconciles_witness:
  "\<exists>ix. compact_index_load example_env [example_ref] = Some ix \<and>
    snapshot_diff example_env (\<lambda>_. False) \<lparr>di_max_scan_rows = 10, di_max_changes = 10, di_max_payload_bytes = 100\<rparr> ix [] =
      Some (Inr [(1, None)]) \<and>
    index_contents ix 1 \<noteq> None \<and> apply_changes [(1, None)] (index_contents ix) = Map.empty"
proof -
  obtain ix where load: "compact_index_load example_env [example_ref] = Some ix" "index_ok example_env ix"
    using example_load_ok by blast
  obtain b where b: "ix = example_index b" using load(1) example_load by auto
  have "sorted_wrt (<) (map dr_id [])" "\<forall>d \<in> set []. file_valid (file_of_ref (pe_lower example_env) d)" by simp_all
  from snapshot_diff_reconciles [OF example_env_ok _ load(2) this example_diff [of b, folded b]]
  show ?thesis using load(1) example_memory example_diff b by auto
qed

end
