(* ===== verification/Packed_Search.thy ===== *)
theory Packed_Search
  imports Packed_Contents
begin

text \<open>
  The search over the packed index is the reference search over its live records: tombstones are
  passed over, texts that no part of the query needs are not read, and a path is put together
  only for a hit that is kept, all without an effect on the results.
\<close>

subsection \<open>Texts that are not needed\<close>

lemma needs_text_split:
  assumes "prepared_query_new ul options = Some q"
  shows "pq_options q = options \<and>
    (pq_needs_text q \<or>
     pq_path_filters q = [] \<and> pq_excluded_path_filters q = [] \<and>
     (\<forall>t \<in> set (pq_terms q). \<exists>g. pt_glob t = Some g \<and> pg_all_stars g))"
proof -
  obtain ts pfs xfs where q: "map_m prepared_path_filter_new (path_filters options) = Some pfs"
      "map_m prepared_path_filter_new (excluded_path_filters options) = Some xfs"
      "q = \<lparr>pq_options = options, pq_terms = ts, pq_path_filters = pfs,
             pq_excluded_path_filters = xfs, pq_fuzzy = fuzzy_enabled options,
             pq_needs_text =
               (path_filters options \<noteq> [] \<or> excluded_path_filters options \<noteq> [] \<or>
                list_ex (\<lambda>t. case pt_glob t of None \<Rightarrow> True | Some g \<Rightarrow> \<not> pg_all_stars g) ts)\<rparr>"
    using assms by (auto simp: prepared_query_new_def bind_eq_Some_conv)
  have "\<exists>g. pt_glob t = Some g \<and> pg_all_stars g"
    if "\<not> list_ex (\<lambda>t. case pt_glob t of None \<Rightarrow> True | Some g \<Rightarrow> \<not> pg_all_stars g) ts" "t \<in> set ts" for t
    using that by (cases "pt_glob t") (auto simp: list_ex_iff)
  then show ?thesis using q by auto
qed

lemma term_score_stars:
  assumes "pt_glob t = Some g" and "pg_all_stars g"
  shows "term_score q t path basename = term_score q t path' basename'"
  using assms by (simp add: term_score_def prepared_glob_score_def Let_def)

lemma term_score_path_only:
  "path_only (pq_options q) \<Longrightarrow> term_score q t path basename = term_score q t path basename'"
  by (cases "pt_glob t") (simp_all add: term_score_def Let_def)

lemma rank_terms_cong:
  "(\<And>t. t \<in> set ts \<Longrightarrow> term_score q t path basename = term_score q t path' basename') \<Longrightarrow>
     rank_terms q path basename ts score = rank_terms q path' basename' ts score"
proof (induction ts arbitrary: score)
  case (Cons t ts)
  have "term_score q t path basename = term_score q t path' basename'" using Cons.prems by simp
  moreover have "rank_terms q path basename ts s = rank_terms q path' basename' ts s" for s
    using Cons.IH Cons.prems by simp
  ultimately show ?case by (simp only: rank_terms.simps)
qed simp

text \<open>What the loop passes to the scorer instead of texts that it did not read.\<close>

lemma rank_lowered_lazy:
  assumes new: "prepared_query_new ul options = Some q"
  shows "rank_lowered q (if pq_needs_text q then path else []) (if needs_basename q then basename else []) n mtime =
    rank_lowered q path basename n mtime"
proof -
  let ?path = "if pq_needs_text q then path else []" and ?base = "if needs_basename q then basename else []"
  note split = needs_text_split [OF new]
  have terms: "rank_terms q ?path ?base (pq_terms q) 0 = rank_terms q path basename (pq_terms q) 0"
  proof (cases "pq_needs_text q")
    case True
    show ?thesis
    proof (cases "needs_basename q \<or> pq_terms q = []")
      case False
      then have "path_only (pq_options q)" using True by (auto simp: needs_basename_def)
      then have "term_score q t path [] = term_score q t path basename" for t by (rule term_score_path_only)
      then show ?thesis using True False by (auto intro: rank_terms_cong)
    qed (use True in auto)
  next
    case False
    then have "term_score q t ?path ?base = term_score q t path basename" if "t \<in> set (pq_terms q)" for t
      using split that term_score_stars by blast
    then show ?thesis by (rule rank_terms_cong)
  qed
  show ?thesis
  proof (cases "pq_needs_text q")
    case True
    show ?thesis unfolding rank_lowered_def terms unfolding if_P [OF True] ..
  next
    case False
    then have "pq_path_filters q = []" "pq_excluded_path_filters q = []" using split by auto
    then show ?thesis unfolding rank_lowered_def terms by simp
  qed
qed

lemma matches_metadata_lazy:
  "matches_metadata (pq_options q) k mtime (if needs_extension q then e else None) = matches_metadata (pq_options q) k mtime e"
  by (auto simp: matches_metadata_def needs_extension_def split: option.splits)

subsection \<open>One row\<close>

text \<open>The rows that the loop visits are numbered as in the list of records.\<close>

definition row_visited :: "compact_index \<Rightarrow> usize \<Rightarrow> usize \<times> compact_record \<times> metadata_block \<times> usize" where
  "row_visited ix k =
     (k, concat (ci_records ix) ! k, ci_metadata ix ! (k div ci_records_per_block ix), k mod ci_records_per_block ix)"

lemma index_rows_visited:
  assumes shown: "index_shows env ix xs"
  shows "index_rows ix = map (row_visited ix) [0..<length xs]"
proof -
  let ?n = "ci_records_per_block ix" and ?bs = "ci_records ix" and ?ms = "ci_metadata ix"
  let ?rows = "map (\<lambda>(records, metadata). map (\<lambda>(row, r). (r, metadata, row)) (List.enumerate 0 records)) (zip ?bs ?ms)"
  have ok: "blocks_ok ?n ?bs" using shown by (simp add: index_shows_def)
  obtain mss where m: "map length mss = map length ?bs" "list_all2 block_shows ?ms mss"
    using shown by (auto simp: index_shows_def metadata_shows_def)
  have len: "length ?ms = length ?bs" using m by (metis length_map list_all2_lengthD)
  have lens: "map length ?rows = map length ?bs" using len by (intro nth_equalityI) (auto simp: split_beta)
  have bok: "blocks_ok ?n ?rows" using ok blocks_ok_lengths [OF lens] by simp
  have total: "length (concat ?rows) = length (concat ?bs)" "length (concat ?bs) = length xs"
    using concat_lengths [OF lens] shown by (auto simp: index_shows_def dest: list_all2_lengthD)
  have "concat ?rows ! k = snd (row_visited ix k)" if k: "k < length xs" for k
  proof -
    have kr: "k < length (concat ?rows)" and kb: "k < length (concat ?bs)" using k total by simp_all
    note p = block_position [OF ok kb] and q = block_position [OF bok kr]
    have "?rows ! (k div ?n) ! (k mod ?n) = (?bs ! (k div ?n) ! (k mod ?n), ?ms ! (k div ?n), k mod ?n)"
      using p len by (simp add: nth_enumerate_eq)
    then show ?thesis using p q by (simp add: row_visited_def)
  qed
  then show ?thesis
    using total by (intro nth_equalityI) (simp_all add: index_rows_def nth_enumerate_eq row_visited_def)
qed

lemma index_hit_score_rank:
  assumes new: "prepared_query_new ul options = Some q" and shown: "index_shows env ix xs" and k: "k < length xs"
  shows "index_hit_score ix q (concat (ci_records ix) ! k) (ci_metadata ix ! (k div ci_records_per_block ix))
      (k mod ci_records_per_block ix) =
    map_option (map_option (\<lambda>s. (s, fr_mtime (xs ! k)))) (rank q (record_view_from (xs ! k)))"
proof -
  let ?r = "concat (ci_records ix) ! k" and ?x = "xs ! k" and ?n = "ci_records_per_block ix"
  have row: "row_ok ix ?r ?x" using index_shows_row(2) [OF shown k] .
  obtain s3 where s: "get_text ix ?r (cr_path_lower ?r) = Some (fr_path_lower ?x)"
      "sl_len (cr_path ?r) = length (fr_path ?x)" "get_text ix ?r s3 = Some (fr_basename_lower ?x)"
      "index_basename_lower_slice ix ?r = Some s3"
    using row_ok_slices [OF row] by blast
  have e: "ext_of ix ?r = Some (fr_ext_lower ?x)" and kind: "cr_kind ?r = fr_kind ?x" using row by (simp_all add: row_ok_def)
  have "k div ?n < length (ci_metadata ix)" using index_shows_block [OF shown k] .
  then have mtime: "(if cr_present ?r AND push_bit 1 1 \<noteq> 0
      then map_option Some (block_value (ci_metadata ix ! (k div ?n)) (k mod ?n) 1) else Some None) = Some (fr_mtime ?x)"
    using optional_metadata_shows [OF shown k, of 1]
    by (simp only: optional_metadata_def metadata_value_def vec_get_less bind.bind_lunit) (simp add: fields_of_file_def)
  have v: "rv_kind (record_view_from ?x) = fr_kind ?x" "rv_mtime (record_view_from ?x) = fr_mtime ?x"
      "rv_ext_lower (record_view_from ?x) = fr_ext_lower ?x" "rv_path_lower (record_view_from ?x) = fr_path_lower ?x"
      "rv_basename_lower (record_view_from ?x) = fr_basename_lower ?x" "rv_path (record_view_from ?x) = fr_path ?x"
    by (simp_all add: record_view_from_def)
  have ext: "(if needs_extension q then ext_of ix ?r else Some None) = Some (if needs_extension q then fr_ext_lower ?x else None)"
    using e by simp
  have path: "(if pq_needs_text q then get_text ix ?r (cr_path_lower ?r) else Some []) =
      Some (if pq_needs_text q then fr_path_lower ?x else [])" using s(1) by simp
  have base: "(if needs_basename q then Option.bind (index_basename_lower_slice ix ?r) (get_text ix ?r) else Some []) =
      Some (if needs_basename q then fr_basename_lower ?x else [])" using s(3,4) by simp
  show ?thesis
    unfolding index_hit_score_def mtime ext path base bind.bind_lunit matches_metadata_lazy rank_lowered_lazy [OF new] s(2) kind rank_def v
    by (cases "rank_lowered q (fr_path_lower ?x) (fr_basename_lower ?x) (length (fr_path ?x)) (fr_mtime ?x)") simp_all
qed

subsection \<open>The loop\<close>

definition packed_hit :: "packed_env \<Rightarrow> compact_index \<Rightarrow> (usize \<times> record_view) \<times> i64 \<Rightarrow> ranked_hit" where
  "packed_hit env ix t =
     \<lparr>rh_index = fst (fst t), rh_score = snd t, rh_mtime = rv_mtime (snd (fst t)),
      rh_path = the (path_view_of env ix (concat (ci_records ix) ! fst (fst t)))\<rparr>"

lemma packed_hit_simps [simp]: "rh_index (packed_hit env ix t) = fst (fst t)" "rh_score (packed_hit env ix t) = snd t"
  by (simp_all add: packed_hit_def)

definition views :: "packed_rows \<Rightarrow> usize list \<Rightarrow> (usize \<times> record_view) list" where
  "views rows ks = map (\<lambda>k. (k, record_view_from (snd (rows ! k)))) (filter (\<lambda>k. fst (rows ! k)) ks)"

lemma index_search_loop_fold:
  assumes new: "prepared_query_new ul options = Some q" and rows: "index_rows_are env ix rows" and mem: "memory_ok env ix"
    and rank: "\<And>k. k < length rows \<Longrightarrow> fst (rows ! k) \<Longrightarrow>
      rank q (record_view_from (snd (rows ! k))) = Some (score (record_view_from (snd (rows ! k))))"
    and "\<forall>k \<in> set ks. k < length rows"
  shows "index_search_loop env ix q (map (row_visited ix) ks) h =
    Some (h\<lparr>th_hits := fold (keep_best (ranked_cmp (pe_memory env)) (th_limit h))
      (map (packed_hit env ix) (scored score (views rows ks))) (th_hits h)\<rparr>)"
  using assms(5)
proof (induction ks arbitrary: h)
  case Nil
  then show ?case by (simp add: views_def scored_def List.map_filter_simps)
next
  case (Cons k ks)
  let ?r = "concat (ci_records ix) ! k" and ?x = "snd (rows ! k)"
  have shown: "index_shows env ix (map snd rows)" using rows by (simp add: index_rows_are_def)
  have k: "k < length rows" "k < length (map snd rows)" using Cons.prems by simp_all
  have len: "length (concat (ci_records ix)) = length rows" using rows by (metis index_rows_are_def length_map)
  then have live: "is_live ?r = fst (rows ! k)" using rows k(1) by (metis index_rows_are_def nth_map)
  note IH = Cons.IH
  show ?case
  proof (cases "fst (rows ! k)")
    case False
    then show ?thesis using live IH Cons.prems by (simp add: row_visited_def views_def)
  next
    case True
    have hit: "index_hit_score ix q ?r (ci_metadata ix ! (k div ci_records_per_block ix)) (k mod ci_records_per_block ix) =
        Some (map_option (\<lambda>s. (s, fr_mtime ?x)) (score (record_view_from ?x)))"
      using index_hit_score_rank [OF new shown k(2)] rank [OF k(1) True] k(1) by simp
    show ?thesis
    proof (cases "score (record_view_from ?x)")
      case None
      then show ?thesis using live True hit IH Cons.prems
        by (simp add: row_visited_def views_def scored_def List.map_filter_simps)
    next
      case (Some s)
      have row: "row_ok ix ?r ?x" using index_shows_row(2) [OF shown k(2)] k(1) by simp
      obtain v where v: "path_view_of env ix ?r = Some v" "path_view_len v = length (fr_path ?x)"
        using path_view_of_ok [OF row mem] by blast
      have "sl_len (cr_path ?r) = length (fr_path ?x)" using row_ok_slices [OF row] by blast
      then have c: "consider_hit (pe_memory env) k s (fr_mtime ?x) (sl_len (cr_path ?r)) v h =
          h\<lparr>th_hits := keep_best (ranked_cmp (pe_memory env)) (th_limit h)
            (packed_hit env ix ((k, record_view_from ?x), s)) (th_hits h)\<rparr>"
        using consider_hit_keep_best [of "pe_memory env" k s "fr_mtime ?x" v h] v
        by (simp add: packed_hit_def record_view_from_def)
      show ?thesis using live True hit v(1) c Some IH Cons.prems
        by (simp add: row_visited_def views_def scored_def List.map_filter_simps)
    qed
  qed
qed

subsection \<open>The search\<close>

text \<open>The live records, in the order of the index.\<close>

definition index_files :: "compact_index \<Rightarrow> file_record list option" where
  "index_files ix =
     map_m (to_file_record ix)
       (filter (\<lambda>k. case record_at ix k of Some r \<Rightarrow> is_live r | None \<Rightarrow> False) [0..<ci_physical_len ix])"

lemma filter_nth_live: "map (\<lambda>k. f (rows ! k)) (filter (\<lambda>k. P (rows ! k)) [0..<length rows]) = map f (filter P rows)"
proof -
  have "map ((!) rows) (filter (P \<circ> (!) rows) [0..<length rows]) = filter P (map ((!) rows) [0..<length rows])"
    by (simp add: filter_map)
  then have "map f (map ((!) rows) (filter (P \<circ> (!) rows) [0..<length rows])) = map f (filter P rows)"
    by (simp only: map_nth)
  then show ?thesis by (simp add: comp_def)
qed

lemma index_files_rows:
  assumes rows: "index_rows_are env ix rows"
  shows "index_files ix = Some (map snd (filter fst rows))"
proof -
  have shown: "index_shows env ix (map snd rows)" using rows by (simp add: index_rows_are_def)
  have n: "ci_physical_len ix = length rows" using shown by (simp add: index_shows_def)
  have len: "length (concat (ci_records ix)) = length rows" using rows by (metis index_rows_are_def length_map)
  have live: "(case record_at ix k of Some r \<Rightarrow> is_live r | None \<Rightarrow> False) = fst (rows ! k)" if "k < length rows" for k
  proof -
    have "is_live (concat (ci_records ix) ! k) = fst (rows ! k)" using rows len that by (metis index_rows_are_def nth_map)
    then show ?thesis using index_shows_row(1) [OF shown, of k] that by simp
  qed
  have "filter (\<lambda>k. case record_at ix k of Some r \<Rightarrow> is_live r | None \<Rightarrow> False) [0..<length rows] =
      filter (\<lambda>k. fst (rows ! k)) [0..<length rows]"
    using live by (intro filter_cong) auto
  moreover have "map_m (to_file_record ix) (filter (\<lambda>k. fst (rows ! k)) [0..<length rows]) =
      Some (map (\<lambda>k. snd (rows ! k)) (filter (\<lambda>k. fst (rows ! k)) [0..<length rows]))"
    using to_file_record_shows [OF shown] by (intro map_m_Some) auto
  ultimately show ?thesis by (simp add: index_files_def n filter_nth_live [of snd rows fst])
qed

lemma scored_views:
  "map (\<lambda>t. \<lparr>sr_record = snd (rows ! fst (fst t)), sr_score = snd t\<rparr>) (scored score (views rows ks)) =
     List.map_filter (\<lambda>r. map_option (\<lambda>s. \<lparr>sr_record = r, sr_score = s\<rparr>) (score (record_view_from r)))
       (map (\<lambda>k. snd (rows ! k)) (filter (\<lambda>k. fst (rows ! k)) ks))"
  by (induction ks) (auto simp: views_def scored_def List.map_filter_simps split: option.splits)

lemma scored_views_member:
  assumes "t \<in> set (scored score (views rows ks))"
  shows "fst (fst t) \<in> set ks \<and> snd (fst t) = record_view_from (snd (rows ! fst (fst t)))"
  using assms by (auto simp: scored_def views_def map_filter_def)

lemma scored_views_sorted:
  assumes "sorted_wrt (<) ks"
  shows "sorted_wrt (\<lambda>x y. fst (fst x) < fst (fst y)) (scored score (views rows ks))"
proof (rule scored_index_increasing)
  show "sorted_wrt (\<lambda>x y. fst x < fst y) (views rows ks)"
    using assms by (induction ks) (auto simp: views_def)
qed

lemma packed_hit_key:
  assumes rows: "index_rows_are env ix rows" and mem: "memory_ok env ix"
    and t: "t \<in> set (scored score (views rows [0..<length rows]))"
  shows "fst (ranked_key (pe_memory env) (packed_hit env ix t)) =
    result_key \<lparr>sr_record = snd (rows ! fst (fst t)), sr_score = snd t\<rparr>"
proof -
  let ?k = "fst (fst t)"
  have k: "?k < length (map snd rows)" "snd (fst t) = record_view_from (snd (rows ! ?k))"
    using scored_views_member [OF t] by simp_all
  have shown: "index_shows env ix (map snd rows)" using rows by (simp add: index_rows_are_def)
  have "row_ok ix (concat (ci_records ix) ! ?k) (snd (rows ! ?k))" using index_shows_row(2) [OF shown k(1)] k(1) by simp
  from path_view_of_ok [OF this mem] obtain v where
      "path_view_of env ix (concat (ci_records ix) ! ?k) = Some v"
      "pv_bytes (pe_memory env) v = fr_path (snd (rows ! ?k))" "path_view_len v = length (fr_path (snd (rows ! ?k)))"
    by blast
  then show ?thesis using k(2)
    by (simp add: ranked_key_def packed_hit_def result_key_def record_view_from_def)
qed

lemma packed_search:
  assumes ul: "lowercase_ok (pe_lower env)" and o: "options_valid options" and ok: "index_ok env ix"
    and mem: "memory_ok env ix" and files: "index_files ix = Some records" and r: "list_all record_ok records"
  shows "index_search env now ix options = Some (ref_search_records (pe_lower env) now records options)"
proof -
  let ?ul = "pe_lower env" and ?mem = "pe_memory env"
  let ?o = "normalized_at ?ul options now" and ?score = "\<lambda>v. ref_rank_view ?ul v (normalized_at ?ul options now)"
  obtain rows where rows: "index_rows_are env ix rows" using ok by (auto simp: index_ok_def)
  let ?ks = "[0..<length rows]"
  let ?ts = "scored ?score (views rows ?ks)" and ?n = "effective_limit (limit ?o)"
  let ?res = "\<lambda>t. \<lparr>sr_record = snd (rows ! fst (fst t)), sr_score = snd t\<rparr>"
  have records: "records = map snd (filter fst rows)" using files index_files_rows [OF rows] by simp
  have shown: "index_shows env ix (map snd rows)" using rows by (simp add: index_rows_are_def)
  obtain q where q: "prepared_query_new ?ul ?o = Some q" "query_for ?ul ?o q"
    using prepared_query_new_for [OF ul normalized_valid [OF ul o]] by blast
  have rank: "rank q (record_view_from (snd (rows ! k))) = Some (?score (record_view_from (snd (rows ! k))))"
    if "k < length rows" "fst (rows ! k)" for k
  proof -
    have "snd (rows ! k) \<in> set records" using that unfolding records by (auto intro!: imageI)
    then have "record_ok (snd (rows ! k))" using r by (simp add: list_all_iff)
    then show ?thesis by (intro rank_for [OF q(2)]) (simp_all add: record_ok_def record_view_from_def)
  qed
  have loop: "index_search_loop env ix q (index_rows ix) (top_hits_new ?n) =
      Some ((top_hits_new ?n)\<lparr>th_hits := fold (keep_best (ranked_cmp ?mem) ?n) (map (packed_hit env ix) ?ts) []\<rparr>)"
    using index_search_loop_fold [OF q(1) rows mem rank, of ?ks "top_hits_new ?n"] index_rows_visited [OF shown]
    by (simp add: top_hits_new_def)
  have srt: "sorted_wrt (\<lambda>x y. rh_index (packed_hit env ix x) < rh_index (packed_hit env ix y)) ?ts"
    using scored_views_sorted [of ?ks] by (simp add: packed_hit_def)
  have key: "sort_key (\<lambda>t. fst (ranked_key ?mem (packed_hit env ix t))) ?ts = sort_key (\<lambda>t. result_key (?res t)) ?ts"
    by (rule sort_key_cong) (rule packed_hit_key [OF rows mem])
  let ?best = "take ?n (sort_key (\<lambda>t. result_key (?res t)) ?ts)"
  have front: "sort_by (ranked_cmp ?mem) (fold (keep_best (ranked_cmp ?mem) ?n) (map (packed_hit env ix) ?ts) []) =
      map (packed_hit env ix) ?best"
    using ranked_front [OF srt, of ?mem ?n] unfolding key .
  have "index_search env now ix options =
      map_m (\<lambda>hit. map_option (\<lambda>r. \<lparr>sr_record = r, sr_score = si_score hit\<rparr>) (to_file_record ix (si_index hit)))
        (map (\<lambda>t. \<lparr>si_index = fst (fst t), si_score = snd t\<rparr>) ?best)"
    unfolding index_search_def Let_def q(1) bind.bind_lunit loop finish_def
    by (simp add: front comp_def)
  also have "\<dots> = Some (map ?res ?best)"
  proof -
    have "to_file_record ix (fst (fst t)) = Some (snd (rows ! fst (fst t)))" if "t \<in> set ?best" for t
    proof -
      have "t \<in> set ?ts" using in_set_takeD [OF that] by (simp only: set_sort)
      from scored_views_member [OF this] have "fst (fst t) < length rows" by simp
      then show ?thesis using to_file_record_shows [OF shown] by simp
    qed
    then show ?thesis
      by (subst map_m_Some [where g = "\<lambda>hit. \<lparr>sr_record = snd (rows ! si_index hit), sr_score = si_score hit\<rparr>"]) auto
  qed
  also have "map ?res ?best = take ?n (sort_by result_cmp (map ?res ?ts))"
    by (simp add: results.sort_by_sort_key sort_key_map take_map)
  also have "map ?res ?ts = List.map_filter (\<lambda>r. map_option (\<lambda>s. \<lparr>sr_record = r, sr_score = s\<rparr>) (?score (record_view_from r))) records"
    unfolding scored_views filter_nth_live [of snd rows fst] records ..
  finally show ?thesis by (simp add: ref_search_records_def effective_limit_def Let_def)
qed

text \<open>C24: The search over the packed index returns what the reference search returns over its live
  records, if no lowercased path or name of them has a star: filtering, scoring and sorting every
  one and cutting the list. (On a name with a star the prepared patterns find what the scorer of the
  reference misses.) Packing, tombstones,
  texts left unread, paths in two pieces, the bounded heap and its early rejection change no
  score, lose no result and move none, ties included, and nothing panics.\<close>

theorem packed_search_is_reference:
  assumes ul: "lowercase_ok (pe_lower env)" and o: "options_valid options" and ok: "index_ok env ix"
    and mem: "memory_ok env ix" and files: "index_files ix = Some records" and r: "list_all record_ok records"
  shows "index_search env now ix options = Some (ref_search_records (pe_lower env) now records options)"
  using assms by (rule packed_search)

theorem packed_search_is_reference_witness:
  "\<exists>ix. compact_index_load example_env [example_ref] = Some ix \<and>
    map_option (map (\<lambda>r. (fr_path (sr_record r), sr_score r)))
      (index_search example_env 0 ix (default_options\<lparr>query := ''a'', limit := 3\<rparr>)) = Some [(''/a'', 2)]"
proof -
  let ?o = "default_options\<lparr>query := ''a'', limit := 3\<rparr>" and ?x = "file_of_ref id example_ref"
  have low: "pe_lower example_env = id" by (simp add: example_env_def)
  obtain b where b: "compact_index_load example_env [example_ref] = Some (example_index b)" using example_load by blast
  have ok: "index_ok example_env (example_index b)" using example_load_ok b by auto
  have valid: "file_valid (file_of_ref (pe_lower example_env) d)" if "d \<in> set [example_ref]" for d
    using that example_file_valid low by simp
  have "index_rows_are example_env (example_index b) (map (\<lambda>d. (True, file_of_ref (pe_lower example_env) d)) [example_ref])"
    by (rule load_rows [OF example_env_ok _ b]) (auto intro: valid)
  then have files: "index_files (example_index b) = Some [?x]" using index_files_rows low by fastforce
  have l: "lowercase_ok (pe_lower example_env)" by (simp add: low lowercase_ok_def)
  have o: "options_valid ?o" and r: "list_all record_ok [?x]" by code_simp+
  have "map (\<lambda>r. (fr_path (sr_record r), sr_score r)) (ref_search_records id 0 [?x] ?o) = [(''/a'', 2)]" by code_simp
  then show ?thesis
    using packed_search_is_reference [OF l o ok example_memory files r, of 0] b low by auto
qed

end
