(* ===== verification/Sqlite_Search.thy ===== *)
theory Sqlite_Search
  imports Top_Hits Sqlite_Rows
begin

text \<open>
  The search over the database, \<open>search\<close> of \<open>src/src/search.rs\<close>: a part of the table is visited
  first (basenames with the prefix, rows with the extension, basenames and paths with a
  literal), and the pass ends the search when its bounded heap proves that no other row can
  be among the results; otherwise every row is visited. \<open>None\<close> is an error or a panic.
\<close>

subsection \<open>The heap of complete records\<close>

record owned_hit =
  oh_score :: i64
  oh_record :: file_record

text \<open>\<open>Ord::cmp\<close>, and the comparison with a row that has not been copied.\<close>

definition owned_cmp :: "owned_hit \<Rightarrow> owned_hit \<Rightarrow> ordering" where
  "owned_cmp self other =
     then_with (cmp_of (oh_score self) (oh_score other))
       (then_with (option_cmp (fr_mtime (oh_record other)) (fr_mtime (oh_record self)))
         (then_with (cmp_of (length (fr_path (oh_record self))) (length (fr_path (oh_record other))))
           (then_with (cmp_of (fr_path (oh_record self)) (fr_path (oh_record other)))
             (cmp_of (fr_id (oh_record self)) (fr_id (oh_record other))))))"

definition compare_ref :: "owned_hit \<Rightarrow> i64 \<Rightarrow> db_record \<Rightarrow> ordering" where
  "compare_ref self score r =
     then_with (cmp_of score (oh_score self))
       (then_with (option_cmp (fr_mtime (oh_record self)) (dr_mtime r))
         (then_with (cmp_of (length (dr_path r)) (length (fr_path (oh_record self))))
           (then_with (cmp_of (dr_path r) (fr_path (oh_record self)))
             (cmp_of (dr_id r) (fr_id (oh_record self))))))"

record owned_top_hits =
  ot_hits :: "owned_hit list"
  ot_limit :: usize

definition owned_top_hits_new :: "usize \<Rightarrow> owned_top_hits" where
  "owned_top_hits_new lim = \<lparr>ot_hits = [], ot_limit = lim\<rparr>"

definition lowered_path :: "(str \<Rightarrow> str) \<Rightarrow> db_record \<Rightarrow> str" where
  "lowered_path ul r =
     (case dr_path_lower r of
        Some p \<Rightarrow> if p \<noteq> [] then p else to_lowercase ul (dr_path r)
      | None \<Rightarrow> to_lowercase ul (dr_path r))"

definition owned_record :: "(str \<Rightarrow> str) \<Rightarrow> db_record \<Rightarrow> file_record" where
  "owned_record ul r =
     \<lparr>fr_id = dr_id r, fr_path = dr_path r, fr_path_lower = lowered_path ul r,
      fr_basename = dr_basename r, fr_basename_lower = dr_basename_lower r,
      fr_ext_lower = dr_ext_lower r, fr_kind = dr_kind r, fr_size = dr_size r,
      fr_mtime = dr_mtime r, fr_ctime = dr_ctime r, fr_dev = dr_dev r, fr_inode = dr_inode r,
      fr_indexed_at = dr_indexed_at r\<rparr>"

definition consider_record ::
  "(str \<Rightarrow> str) \<Rightarrow> prepared_query \<Rightarrow> db_record \<Rightarrow> owned_top_hits \<Rightarrow> owned_top_hits option" where
  "consider_record ul q r self =
     (if \<not> matches_metadata (pq_options q) (dr_kind r) (dr_mtime r) (dr_ext_lower r) then Some self
      else do {
        s \<leftarrow> rank_lowered q (lowered_path ul r) (dr_basename_lower r) (length (dr_path r)) (dr_mtime r);
        case s of
          None \<Rightarrow> Some self
        | Some score \<Rightarrow>
            if ot_limit self = 0
               \<or> (ot_limit self \<le> length (ot_hits self)
                  \<and> (case heap_peek owned_cmp (ot_hits self) of
                       None \<Rightarrow> False | Some worst \<Rightarrow> compare_ref worst score r \<noteq> Less))
            then Some self
            else let hit = \<lparr>oh_score = score, oh_record = owned_record ul r\<rparr>
                 in Some (if length (ot_hits self) < ot_limit self
                          then self\<lparr>ot_hits := hit # ot_hits self\<rparr>
                          else self\<lparr>ot_hits := heap_replace owned_cmp hit (ot_hits self)\<rparr>)
      })"

definition is_complete_below :: "owned_top_hits \<Rightarrow> i64 \<Rightarrow> bool" where
  "is_complete_below self score_bound \<longleftrightarrow>
     length (ot_hits self) = ot_limit self \<and>
     (case heap_peek owned_cmp (ot_hits self) of
        None \<Rightarrow> False | Some worst \<Rightarrow> oh_score worst < score_bound)"

definition owned_finish :: "owned_top_hits \<Rightarrow> search_result list" where
  "owned_finish self =
     map (\<lambda>h. \<lparr>sr_record = oh_record h, sr_score = oh_score h\<rparr>) (sort_by owned_cmp (ot_hits self))"

text \<open>A visitor that considers every row it is given.\<close>

fun consider_all ::
  "(str \<Rightarrow> str) \<Rightarrow> prepared_query \<Rightarrow> db_record list \<Rightarrow> owned_top_hits \<Rightarrow> owned_top_hits option" where
  "consider_all ul q [] hits = Some hits"
| "consider_all ul q (r # rs) hits = do { h \<leftarrow> consider_record ul q r hits; consider_all ul q rs h }"

subsection \<open>What SQLite can filter\<close>

definition sqlite_basename_prefix :: "prepared_query \<Rightarrow> (str \<times> str) option" where
  "sqlite_basename_prefix q =
     (if path_only (pq_options q) \<or> length (pq_terms q) \<noteq> 1 then None
      else let trm = hd (pq_terms q); lower = fd_value (pt_finder trm)
           in if pt_glob trm \<noteq> None \<or> lower = [] \<or> \<not> list_all is_ascii lower \<or> has_nul lower then None
              else if byte (last lower) = 255 then None
              else let upper = butlast lower @ [char_of (byte (last lower) + 1)]
                   in if utf8_valid upper then Some (lower, upper) else None)"

definition sqlite_term_literal :: "prepared_term \<Rightarrow> str option" where
  "sqlite_term_literal t =
     do {
       literal \<leftarrow> (case pt_glob t of
          Some g \<Rightarrow> max_by_key length (filter (\<lambda>v. v \<noteq> [] \<and> \<not> has_nul v)
              (split_on (\<lambda>c. c = star \<or> c = question) (pg_pattern g)))
        | None \<Rightarrow> Some (fd_value (pt_finder t)));
       if literal \<noteq> [] \<and> \<not> has_nul literal then Some literal else None
     }"

definition sqlite_selected_literal :: "prepared_query \<Rightarrow> (str \<times> prepared_term) option" where
  "sqlite_selected_literal q =
     max_by_key (\<lambda>(literal, _). length literal)
       (List.map_filter (\<lambda>t. map_option (\<lambda>l. (l, t)) (sqlite_term_literal t)) (pq_terms q))"

definition sqlite_required_literal :: "prepared_query \<Rightarrow> str option" where
  "sqlite_required_literal q =
     (if pq_fuzzy q then None else map_option fst (sqlite_selected_literal q))"

definition sqlite_basename_literal :: "prepared_query \<Rightarrow> (str \<times> i64) option" where
  "sqlite_basename_literal q =
     (if path_only (pq_options q) then None
      else do {
        (literal, t) \<leftarrow> sqlite_selected_literal q;
        case pt_glob t of
          Some g \<Rightarrow> (let n = int (length (pg_pattern g))
                     in if n \<le> i64_max \<and> n + 520 \<le> i64_max then Some (literal, n + 520) else None)
        | None \<Rightarrow> Some (literal, 550)
      })"

subsection \<open>The passes\<close>

text \<open>
  Each pass returns its results when they are complete, and \<open>Some None\<close> when the search has to
  go on. First the basenames that start with the only term.
\<close>

definition prefix_pass ::
  "(str \<Rightarrow> str) \<Rightarrow> files_table \<Rightarrow> prepared_query \<Rightarrow> usize \<Rightarrow> search_result list option option" where
  "prefix_pass ul db q lim =
     (case sqlite_basename_prefix q of
        None \<Rightarrow> Some None
      | Some (lower, upper) \<Rightarrow> do {
          rows \<leftarrow> basename_prefix_refs ul db lower upper;
          hits \<leftarrow> consider_all ul q rows (owned_top_hits_new lim);
          Some (if is_complete_below hits 250 then Some (owned_finish hits) else None)
        })"

definition extension_pass ::
  "(str \<Rightarrow> str) \<Rightarrow> files_table \<Rightarrow> prepared_query \<Rightarrow> usize \<Rightarrow> search_result list option option" where
  "extension_pass ul db q lim =
     (if ext_filters (pq_options q) = [] then Some None
      else case extension_refs ul db (ext_filters (pq_options q)) of
             None \<Rightarrow> Some None
           | Some rows \<Rightarrow>
               map_option (\<lambda>hits. Some (owned_finish hits))
                 (consider_all ul q rows (owned_top_hits_new lim)))"

text \<open>The two visits of the pass with a literal.\<close>

definition basename_visit ::
  "(str \<Rightarrow> str) \<Rightarrow> files_table \<Rightarrow> prepared_query \<Rightarrow> str \<Rightarrow> owned_top_hits \<Rightarrow> owned_top_hits option" where
  "basename_visit ul db q literal hits =
     do {
       rows \<leftarrow> basename_literal_refs ul db literal;
       consider_all ul q (filter (\<lambda>r. contains (dr_basename_lower r) literal) rows) hits
     }"

definition path_visit ::
  "(str \<Rightarrow> str) \<Rightarrow> files_table \<Rightarrow> prepared_query \<Rightarrow> str \<Rightarrow> owned_top_hits \<Rightarrow> owned_top_hits option" where
  "path_visit ul db q literal hits =
     do {
       rows \<leftarrow> path_literal_refs ul db literal (\<not> path_only (pq_options q));
       consider_all ul q rows hits
     }"

definition literal_pass ::
  "(str \<Rightarrow> str) \<Rightarrow> files_table \<Rightarrow> prepared_query \<Rightarrow> usize \<Rightarrow> search_result list option option" where
  "literal_pass ul db q lim =
     (let union_literal = sqlite_required_literal q;
          basename_proof = sqlite_basename_literal q
      in case (case union_literal of Some l \<Rightarrow> Some l | None \<Rightarrow> map_option fst basename_proof) of
           None \<Rightarrow> Some None
         | Some literal \<Rightarrow> do {
             hits \<leftarrow> (if path_only (pq_options q) then Some (owned_top_hits_new lim)
                      else basename_visit ul db q literal (owned_top_hits_new lim));
             if \<not> path_only (pq_options q) \<and>
                (case basename_proof of
                   None \<Rightarrow> False
                 | Some (selected, bound) \<Rightarrow> selected = literal \<and> is_complete_below hits bound)
             then Some (Some (owned_finish hits))
             else if union_literal \<noteq> None
             then map_option (\<lambda>h. Some (owned_finish h)) (path_visit ul db q literal hits)
             else Some None
           })"

definition full_pass ::
  "(str \<Rightarrow> str) \<Rightarrow> files_table \<Rightarrow> prepared_query \<Rightarrow> usize \<Rightarrow> search_result list option" where
  "full_pass ul db q lim =
     map_option owned_finish (consider_all ul q (record_refs ul db) (owned_top_hits_new lim))"

definition search ::
  "(str \<Rightarrow> str) \<Rightarrow> i64 \<Rightarrow> files_table \<Rightarrow> search_options \<Rightarrow> search_result list option" where
  "search ul now db options0 =
     do {
       let options = normalized_at ul options0 now;
       q \<leftarrow> prepared_query_new ul options;
       let lim = effective_limit (limit options);
       if \<not> ft_utf8 db then full_pass ul db q lim
       else do {
         r1 \<leftarrow> prefix_pass ul db q lim;
         case r1 of Some out \<Rightarrow> Some out
         | None \<Rightarrow> do {
             r2 \<leftarrow> extension_pass ul db q lim;
             case r2 of Some out \<Rightarrow> Some out
             | None \<Rightarrow> do {
                 r3 \<leftarrow> literal_pass ul db q lim;
                 case r3 of Some out \<Rightarrow> Some out | None \<Rightarrow> full_pass ul db q lim
               }
           }
       }
     }"

subsection \<open>Facts: prepared patterns on arbitrary texts\<close>

text \<open>
  On every text, with stars or without: scoring does not panic, and a score is at least the
  length of the pattern and comes with an occurrence of every literal of the pattern.
\<close>

definition glob_sound :: "str \<Rightarrow> prepared_glob \<Rightarrow> bool" where
  "glob_sound v g \<longleftrightarrow> pg_pattern g = v \<and>
     (\<forall>hay. \<exists>r. prepared_glob_score g hay = Some r \<and>
        (\<forall>s. r = Some s \<longrightarrow> int (length v) \<le> s \<and> (\<forall>l \<in> set (glob_literals v). contains hay l)))"

lemma glob_match_literals:
  "glob_match hay v \<Longrightarrow> l \<in> set (glob_literals v) \<Longrightarrow> contains hay l"
  using glob_loop_sound [of 0 hay 0 v None 0] glob_literal_needed
  by (simp add: glob_match_def retry_def)

lemma prepared_glob_new_sound:
  assumes "utf8_valid v" and "prepared_glob_new v = Some g"
  shows "glob_sound v g"
proof -
  have g: "pg_pattern g = v" "pg_all_stars g = list_all (\<lambda>c. c = star) v"
      "pg_single_literal g = (question \<notin> set v \<and> tl (glob_literals v) = [])"
    using assms(2) by (auto simp: prepared_glob_new_def Option.bind_eq_Some_conv split: list.splits)
  have lit: "case glob_literals v of [] \<Rightarrow> pg_literal g = None
      | w # ws \<Rightarrow> \<exists>f. pg_literal g = Some f \<and> finder_for w f"
  proof (cases "glob_literals v")
    case (Cons w ws)
    then have "utf8_valid w" using glob_literals_valid [OF assms(1)] by simp
    then show ?thesis
      using finder_new_for [of w] assms(2) Cons by (auto simp: prepared_glob_new_def)
  qed (use assms(2) in \<open>auto simp: prepared_glob_new_def\<close>)
  have "\<exists>r. prepared_glob_score g hay = Some r \<and>
        (\<forall>s. r = Some s \<longrightarrow> int (length v) \<le> s \<and> (\<forall>l \<in> set (glob_literals v). contains hay l))" for hay
  proof (cases "list_all (\<lambda>c. c = star) v")
    case True
    then have "glob_literals v = []"
      using split_on_all_sep [of "\<lambda>c. c = star \<or> c = question" v]
      by (auto simp: glob_literals_def list_all_iff)
    then show ?thesis using True by (simp add: prepared_glob_score_def g)
  next
    case False
    show ?thesis
    proof (cases "glob_literals v")
      case Nil
      then have "question \<in> set v"
        using False split_on_all_sep [of "\<lambda>c. c = star \<or> c = question" v]
        by (auto simp: glob_literals_def list_all_iff)
      then show ?thesis
        using Nil False lit by (auto simp: prepared_glob_score_def prepared_glob_matches_def g)
    next
      case (Cons w ws)
      then obtain f where f: "pg_literal g = Some f" "finder_for w f" using lit by auto
      show ?thesis
        using False Cons f glob_match_literals [of hay v]
        by (auto simp: prepared_glob_score_def prepared_glob_matches_def g finder_for_def contains_def
            split: option.splits)
    qed
  qed
  then show ?thesis by (simp add: glob_sound_def g)
qed

text \<open>What the passes use of a prepared term.\<close>

definition term_sound :: "prepared_term \<Rightarrow> bool" where
  "term_sound t \<longleftrightarrow>
     utf8_valid (fd_value (pt_finder t)) \<and> finder_for (fd_value (pt_finder t)) (pt_finder t) \<and>
     (case pt_glob t of None \<Rightarrow> True | Some g \<Rightarrow> utf8_valid (pg_pattern g) \<and> glob_sound (pg_pattern g) g)"

definition filter_sound :: "prepared_path_filter \<Rightarrow> bool" where
  "filter_sound f \<longleftrightarrow>
     finder_for (fd_value (pp_finder f)) (pp_finder f) \<and>
     (case pp_glob f of None \<Rightarrow> True | Some g \<Rightarrow> glob_sound (pg_pattern g) g)"

definition query_sound :: "prepared_query \<Rightarrow> bool" where
  "query_sound q \<longleftrightarrow>
     list_all term_sound (pq_terms q) \<and> list_all filter_sound (pq_path_filters q) \<and>
     list_all filter_sound (pq_excluded_path_filters q)"

lemma map_m_sound:
  "map_m f xs = Some ys \<Longrightarrow> (\<And>x y. x \<in> set xs \<Longrightarrow> f x = Some y \<Longrightarrow> P y) \<Longrightarrow> list_all P ys"
proof (induction xs arbitrary: ys)
  case (Cons x xs)
  then obtain y zs where "f x = Some y" "map_m f xs = Some zs" "ys = y # zs"
    by (auto simp: Option.bind_eq_Some_conv)
  then show ?case using Cons.IH [of zs] Cons.prems(2) by (metis list.set_intros list.pred_inject(2))
qed simp

lemma finder_new_value: "utf8_valid v \<Longrightarrow> finder_new v = Some f \<Longrightarrow> finder_for v f \<and> fd_value f = v"
  using finder_new_for [of v] by (auto simp: finder_for_def)

lemma glob_if_sound:
  "utf8_valid v \<Longrightarrow> glob_if b v = Some (Some g) \<Longrightarrow> glob_sound v g"
  using prepared_glob_new_sound by (auto simp: glob_if_def split: if_splits)

lemma prepared_term_new_sound:
  assumes "lowercase_ok ul" and "utf8_valid t" and "prepared_term_new ul t = Some p"
  shows "term_sound p"
proof -
  have v: "utf8_valid (to_lowercase ul t)"
    using assms(1,2) by (intro to_lowercase_valid) (auto simp: lowercase_ok_def)
  obtain g f where "glob_if (has_glob_syntax t) (to_lowercase ul t) = Some g"
      "finder_new (to_lowercase ul t) = Some f" "p = \<lparr>pt_finder = f, pt_glob = g\<rparr>"
    using assms(3) by (auto simp: prepared_term_new_def split: bind_splits)
  then show ?thesis
    using finder_new_value [OF v] glob_if_sound [OF v] v
    by (auto simp: term_sound_def glob_sound_def split: option.splits)
qed

lemma prepared_path_filter_new_sound:
  assumes "utf8_valid (pf_value f)" and "prepared_path_filter_new f = Some p"
  shows "filter_sound p"
proof -
  obtain fd g where "finder_new (pf_value f) = Some fd"
      "glob_if (has_glob_syntax (pf_value f)) (pf_value f) = Some g"
      "p = \<lparr>pp_mode = pf_mode f, pp_finder = fd, pp_glob = g\<rparr>"
    using assms(2) by (auto simp: prepared_path_filter_new_def split: bind_splits)
  then show ?thesis
    using finder_new_value [OF assms(1)] glob_if_sound [OF assms(1)]
    by (auto simp: filter_sound_def glob_sound_def split: option.splits)
qed

lemma prepared_query_new_sound:
  assumes "lowercase_ok ul" and "options_valid options" and "prepared_query_new ul options = Some q"
  shows "query_sound q \<and> pq_options q = options"
proof -
  obtain ts ps xs where m: "map_m (prepared_term_new ul) (terms options) = Some ts"
      "map_m prepared_path_filter_new (path_filters options) = Some ps"
      "map_m prepared_path_filter_new (excluded_path_filters options) = Some xs"
    and q: "pq_terms q = ts" "pq_path_filters q = ps" "pq_excluded_path_filters q = xs" "pq_options q = options"
    using assms(3) by (auto simp: prepared_query_new_def split: bind_splits)
  have "list_all term_sound ts"
    by (rule map_m_sound [OF m(1)])
       (use prepared_term_new_sound [OF assms(1)] terms_valid assms(2) in \<open>auto simp: options_valid_def\<close>)
  moreover have "list_all filter_sound ps" "list_all filter_sound xs"
    by (rule map_m_sound [OF m(2)] map_m_sound [OF m(3)];
        use prepared_path_filter_new_sound assms(2) in \<open>auto simp: options_valid_def list_all_iff\<close>)+
  ultimately show ?thesis using q by (simp add: query_sound_def)
qed

subsection \<open>Facts: no panic, and lower bounds of scores\<close>

lemma any_m_defined: "(\<And>x. x \<in> set xs \<Longrightarrow> f x \<noteq> None) \<Longrightarrow> any_m f xs \<noteq> None"
proof (induction xs)
  case (Cons x xs)
  then obtain b where "f x = Some b" by fastforce
  then show ?case using Cons by (cases b) simp_all
qed simp

lemma prepared_path_filter_matches_defined:
  assumes "filter_sound f"
  shows "prepared_path_filter_matches f path \<noteq> None"
proof -
  have t: "path_text_matches f c s \<noteq> None" for c s
  proof (cases "pp_glob f")
    case None
    then show ?thesis
      using assms by (simp add: path_text_matches_def filter_sound_def finder_for_def)
  next
    case (Some g)
    then have "glob_sound (pg_pattern g) g" using assms by (simp add: filter_sound_def)
    then obtain r where "prepared_glob_score g s = Some r" unfolding glob_sound_def by blast
    then show ?thesis using Some by (simp add: path_text_matches_def)
  qed
  show ?thesis
    using t any_m_defined [of _ "path_text_matches f True"]
    by (auto simp: prepared_path_filter_matches_def split: path_filter_mode.splits)
qed

lemma fuzzy_score_nonneg: "fuzzy_score hay needle = Some v \<Longrightarrow> 0 \<le> v"
  using fuzzy_loop_nonneg [of "str_chars hay" 0 _ _ None 0 0]
  by (auto simp: fuzzy_score_def split: list.splits)

lemma glob_score_sound:
  assumes "term_sound t" and "pt_glob t = Some g"
  obtains r where "prepared_glob_score g s = Some r"
    and "\<And>v. r = Some v \<Longrightarrow> int (length (pg_pattern g)) \<le> v \<and> (\<forall>l \<in> set (glob_literals (pg_pattern g)). contains s l)"
proof -
  have "glob_sound (pg_pattern g) g" using assms by (simp add: term_sound_def)
  then show thesis using that unfolding glob_sound_def by blast
qed

lemma term_find:
  "term_sound t \<Longrightarrow> find (pt_finder t) s = Some (str_find (fd_value (pt_finder t)) s)"
  by (simp add: term_sound_def finder_for_def)

lemma term_score_defined:
  assumes "term_sound t"
  shows "\<exists>r. term_score q t path basename = Some r \<and> (\<forall>s. r = Some s \<longrightarrow> 0 \<le> s)"
proof (cases "pt_glob t")
  case None
  then show ?thesis
    by (auto simp: term_score_def Let_def term_find [OF assms] split: option.splits dest: fuzzy_score_nonneg)
next
  case (Some g)
  obtain r where r: "prepared_glob_score g path = Some r" "\<And>v. r = Some v \<Longrightarrow> int (length (pg_pattern g)) \<le> v"
    using glob_score_sound [OF assms Some] by metis
  obtain b where b: "prepared_glob_score g basename = Some b" "\<And>v. b = Some v \<Longrightarrow> int (length (pg_pattern g)) \<le> v"
    using glob_score_sound [OF assms Some] by metis
  show ?thesis
    using Some r b by (cases r; cases b) (fastforce simp: term_score_def Let_def)+
qed

text \<open>A name that does not start with the term costs at least 250.\<close>

lemma term_score_not_prefix:
  assumes "term_sound t" and "pt_glob t = None" and "\<not> path_only (pq_options q)"
    and "\<not> prefix (fd_value (pt_finder t)) basename"
    and "term_score q t path basename = Some (Some s)"
  shows "250 \<le> s"
  using assms(2-)
  by (auto simp: term_score_def Let_def term_find [OF assms(1)] split: option.splits if_splits
      dest: fuzzy_score_nonneg)

definition literal_bound :: "prepared_term \<Rightarrow> i64" where
  "literal_bound t = (case pt_glob t of Some g \<Rightarrow> int (length (pg_pattern g)) + 520 | None \<Rightarrow> 550)"

lemma sqlite_term_literal_glob:
  assumes "sqlite_term_literal t = Some l" and "pt_glob t = Some g"
  shows "l \<in> set (glob_literals (pg_pattern g))"
  using assms max_by_key_mem
  by (fastforce simp: sqlite_term_literal_def glob_literals_def Option.bind_eq_Some_conv split: if_splits)

lemma sqlite_term_literal_plain:
  "sqlite_term_literal t = Some l \<Longrightarrow> pt_glob t = None \<Longrightarrow> l = fd_value (pt_finder t)"
  by (auto simp: sqlite_term_literal_def split: if_splits)

lemma sqlite_term_literal_ok: "sqlite_term_literal t = Some l \<Longrightarrow> l \<noteq> [] \<and> \<not> has_nul l"
  by (auto simp: sqlite_term_literal_def Option.bind_eq_Some_conv split: if_splits)

lemma term_score_outside:
  assumes t: "term_sound t" and l: "sqlite_term_literal t = Some l" and "\<not> path_only (pq_options q)"
    and "\<not> contains basename l" and "term_score q t path basename = Some (Some s)"
  shows "literal_bound t \<le> s"
proof (cases "pt_glob t")
  case None
  have "l = fd_value (pt_finder t)" using l None by (rule sqlite_term_literal_plain)
  moreover have "contains basename basename" by (simp add: prefix_imp_contains)
  ultimately show ?thesis
    using assms(3-) None prefix_imp_contains [of l basename]
    by (auto simp: term_score_def Let_def term_find [OF t] literal_bound_def contains_def
        split: option.splits if_splits dest: fuzzy_score_nonneg)
next
  case (Some g)
  have "l \<in> set (glob_literals (pg_pattern g))" using l Some by (rule sqlite_term_literal_glob)
  then have "prepared_glob_score g basename = Some None"
    using glob_score_sound [OF t Some, of basename] assms(4) by (metis option.exhaust)
  moreover obtain r where "prepared_glob_score g path = Some r"
      "\<And>v. r = Some v \<Longrightarrow> int (length (pg_pattern g)) \<le> v"
    using glob_score_sound [OF t Some] by metis
  ultimately show ?thesis
    using assms(3,5) Some by (auto simp: term_score_def Let_def literal_bound_def)
qed

lemma term_score_needs_literal:
  assumes t: "term_sound t" and l: "sqlite_term_literal t = Some l" and "\<not> pq_fuzzy q"
    and "term_score q t path basename = Some (Some s)"
  shows "contains path l \<or> \<not> path_only (pq_options q) \<and> contains basename l"
proof (cases "pt_glob t")
  case None
  have "l = fd_value (pt_finder t)" using l None by (rule sqlite_term_literal_plain)
  moreover have "contains basename basename" by (simp add: prefix_imp_contains)
  ultimately show ?thesis
    using assms(3,4) None prefix_imp_contains [of l basename]
    by (auto simp: term_score_def Let_def term_find [OF t] contains_def split: option.splits if_splits)
next
  case (Some g)
  have l: "l \<in> set (glob_literals (pg_pattern g))" using l Some by (rule sqlite_term_literal_glob)
  obtain r where r: "prepared_glob_score g path = Some r" "\<And>v. r = Some v \<Longrightarrow> contains path l"
    using glob_score_sound [OF t Some] l by metis
  obtain b where b: "prepared_glob_score g basename = Some b" "\<And>v. b = Some v \<Longrightarrow> contains basename l"
    using glob_score_sound [OF t Some] l by metis
  show ?thesis
    using assms(4) Some r b by (auto simp: term_score_def Let_def split: if_splits option.splits)
qed

lemma rank_terms_defined:
  "list_all term_sound ts \<Longrightarrow> rank_terms q path basename ts acc \<noteq> None"
proof (induction ts arbitrary: acc)
  case (Cons t ts)
  then obtain r where "term_score q t path basename = Some r" using term_score_defined by fastforce
  then show ?case using Cons by (simp split: option.splits)
qed simp

lemma rank_terms_ge:
  "list_all term_sound ts \<Longrightarrow> rank_terms q path basename ts acc = Some (Some v) \<Longrightarrow>
     acc \<le> v \<and> (\<forall>t \<in> set ts. \<exists>s. term_score q t path basename = Some (Some s) \<and> acc + s \<le> v)"
proof (induction ts arbitrary: acc)
  case (Cons t ts)
  obtain s where s: "term_score q t path basename = Some (Some s)"
      "rank_terms q path basename ts (acc + s) = Some (Some v)"
    using Cons.prems(2) by (auto simp: Option.bind_eq_Some_conv split: option.splits)
  have s0: "0 \<le> s" using term_score_defined [of t q path basename] Cons.prems(1) s(1) by auto
  have "acc + s \<le> v \<and> (\<forall>t \<in> set ts. \<exists>s'. term_score q t path basename = Some (Some s') \<and> acc + s + s' \<le> v)"
    using Cons.IH [of "acc + s"] Cons.prems(1) s(2) by simp
  then show ?case using s(1) s0 by fastforce
qed simp

definition row_score :: "(str \<Rightarrow> str) \<Rightarrow> prepared_query \<Rightarrow> db_record \<Rightarrow> i64 option option" where
  "row_score ul q r =
     (if \<not> matches_metadata (pq_options q) (dr_kind r) (dr_mtime r) (dr_ext_lower r) then Some None
      else rank_lowered q (lowered_path ul r) (dr_basename_lower r) (length (dr_path r)) (dr_mtime r))"

lemma rank_lowered_defined: "query_sound q \<Longrightarrow> rank_lowered q path basename n mtime \<noteq> None"
proof -
  assume q: "query_sound q"
  obtain b where b: "any_m (\<lambda>f. map_option Not (prepared_path_filter_matches f path)) (pq_path_filters q) = Some b"
    using any_m_defined [of "pq_path_filters q" "\<lambda>f. map_option Not (prepared_path_filter_matches f path)"]
      prepared_path_filter_matches_defined q by (fastforce simp: query_sound_def list_all_iff)
  obtain c where c: "any_m (\<lambda>f. prepared_path_filter_matches f path) (pq_excluded_path_filters q) = Some c"
    using any_m_defined [of "pq_excluded_path_filters q" "\<lambda>f. prepared_path_filter_matches f path"]
      prepared_path_filter_matches_defined q by (fastforce simp: query_sound_def list_all_iff)
  show ?thesis
    using rank_terms_defined [of "pq_terms q" q path basename 0] q
    by (simp add: rank_lowered_def b c query_sound_def)
qed

lemma rank_lowered_ge:
  assumes "query_sound q" and "rank_lowered q path basename n mtime = Some (Some v)" and "t \<in> set (pq_terms q)"
  shows "\<exists>s. term_score q t path basename = Some (Some s) \<and> s \<le> v"
proof -
  have "pq_terms q \<noteq> []" using assms(3) by auto
  then obtain w where "rank_terms q path basename (pq_terms q) 0 = Some (Some w)" "w \<le> v"
    using assms(2) by (auto simp: rank_lowered_def Option.bind_eq_Some_conv split: if_splits)
  then show ?thesis using rank_terms_ge [of "pq_terms q" q path basename 0 w] assms(1,3)
    by (fastforce simp: query_sound_def)
qed

subsection \<open>Facts: the heap of complete records\<close>

definition owned_key :: "owned_hit \<Rightarrow> (int \<times> (nat \<times> int) \<times> nat \<times> str) \<times> int" where
  "owned_key h =
     ((oh_score h, newest_key (fr_mtime (oh_record h)), length (fr_path (oh_record h)), fr_path (oh_record h)),
      fr_id (oh_record h))"

interpretation owned: key_cmp owned_cmp owned_key
  by unfold_locales
     (simp add: owned_cmp_def owned_key_def option_cmp_newest flip: cmp_of_pair, simp add: then_with_assoc)

definition hit_for :: "(str \<Rightarrow> str) \<Rightarrow> prepared_query \<Rightarrow> db_record \<Rightarrow> owned_hit option" where
  "hit_for ul q r =
     (case row_score ul q r of
        Some (Some s) \<Rightarrow> Some \<lparr>oh_score = s, oh_record = owned_record ul r\<rparr>
      | _ \<Rightarrow> None)"

lemma compare_ref_owned:
  "compare_ref worst s r = owned_cmp \<lparr>oh_score = s, oh_record = owned_record ul r\<rparr> worst"
  by (simp add: compare_ref_def owned_cmp_def owned_record_def)

lemma consider_record_keep_best:
  assumes "query_sound q"
  shows "consider_record ul q r self =
    Some (case hit_for ul q r of
        None \<Rightarrow> self
      | Some hit \<Rightarrow> self\<lparr>ot_hits := keep_best owned_cmp (ot_limit self) hit (ot_hits self)\<rparr>)"
proof -
  obtain o' where "rank_lowered q (lowered_path ul r) (dr_basename_lower r) (length (dr_path r)) (dr_mtime r) = Some o'"
    using rank_lowered_defined [OF assms] by fastforce
  then show ?thesis
    by (auto simp: consider_record_def hit_for_def row_score_def keep_best_def Let_def
        compare_ref_owned [of _ _ _ ul] split: option.splits)
qed

lemma consider_all_fold:
  assumes "query_sound q"
  shows "consider_all ul q rows h =
    Some (h\<lparr>ot_hits := fold (keep_best owned_cmp (ot_limit h)) (List.map_filter (hit_for ul q) rows) (ot_hits h)\<rparr>)"
  using assms
proof (induction ul q rows h rule: consider_all.induct)
  case (2 ul q r rs h)
  define h' where "h' = (case hit_for ul q r of
        None \<Rightarrow> h
      | Some hit \<Rightarrow> h\<lparr>ot_hits := keep_best owned_cmp (ot_limit h) hit (ot_hits h)\<rparr>)"
  have step: "consider_record ul q r h = Some h'"
    unfolding h'_def by (rule consider_record_keep_best [OF "2.prems"])
  show ?case
    unfolding consider_all.simps step bind.bind_lunit "2.IH" [OF step "2.prems"]
    by (cases "hit_for ul q r") (simp_all add: List.map_filter_simps h'_def)
qed (simp add: List.map_filter_simps)

text \<open>The results of a heap that was offered a list of hits.\<close>

definition best :: "usize \<Rightarrow> owned_hit list \<Rightarrow> search_result list" where
  "best n hits = map (\<lambda>h. \<lparr>sr_record = oh_record h, sr_score = oh_score h\<rparr>) (take n (sort_by owned_cmp hits))"

definition offered :: "usize \<Rightarrow> owned_hit list \<Rightarrow> owned_top_hits" where
  "offered n hits = \<lparr>ot_hits = fold (keep_best owned_cmp n) hits [], ot_limit = n\<rparr>"

lemma finish_offered: "distinct (map owned_key hits) \<Longrightarrow> owned_finish (offered n hits) = best n hits"
  using owned.keep_best_fold [of hits n] by (simp add: owned_finish_def offered_def best_def)

lemma consider_all_offered:
  "query_sound q \<Longrightarrow> consider_all ul q rows (offered n hits) = Some (offered n (hits @ List.map_filter (hit_for ul q) rows))"
  by (simp add: consider_all_fold offered_def)

lemma owned_top_hits_new_offered: "owned_top_hits_new n = offered n []"
  by (simp add: owned_top_hits_new_def offered_def)

lemma best_cong: "distinct (map owned_key hits) \<Longrightarrow> mset hits = mset hits' \<Longrightarrow> best n hits = best n hits'"
  using owned.sort_by_unique [of hits hits'] by (simp add: best_def)

text \<open>A full heap whose worst hit is better than a bound cannot be improved by hits above it.\<close>

lemma complete_below:
  assumes full: "is_complete_below (offered n hits) bound" and d: "distinct (map owned_key all)"
    and m: "mset all = mset hits + mset others"
    and above: "\<And>h. h \<in> set others \<Longrightarrow> bound \<le> oh_score h"
  shows "best n hits = best n all"
proof -
  let ?heap = "fold (keep_best owned_cmp n) hits []"
  have dh: "distinct (map owned_key hits)"
    using d m by (metis distinct_append map_append mset_append mset_eq_imp_distinct_iff mset_map)
  note front = owned.keep_best_fold [OF dh, of n]
  obtain w where w: "heap_peek owned_cmp ?heap = Some w" "oh_score w < bound" and len: "length ?heap = n"
    using full by (auto simp: is_complete_below_def offered_def split: option.splits)
  have heap: "set (take n (sort_by owned_cmp hits)) = set ?heap" "length (take n (sort_by owned_cmp hits)) = n"
    using front len owned.sort_by_mset by (metis mset_eq_setD size_mset)+
  have "oh_score h < bound" if "h \<in> set (take n (sort_by owned_cmp hits))" for h
  proof -
    have "owned_key h \<le> owned_key w" using owned.heap_peek_max [OF w(1)] that heap(1) by simp
    then show ?thesis using w(2) by (auto simp: owned_key_def less_eq_prod_def)
  qed
  then have "owned_key h < owned_key y" if "h \<in> set (take n (sort_by owned_cmp hits))" "y \<in> set others" for h y
    using above [OF that(2)] that(1) by (fastforce simp: owned_key_def less_prod_def)
  moreover have "n \<le> length hits" using heap(2) owned.sort_by_mset by (metis length_take min.cobounded1 size_mset)
  ultimately have "take n (sort_by owned_cmp all) = take n (sort_by owned_cmp hits)"
    by (intro owned.take_sort_front [OF m d]) auto
  then show ?thesis by (simp add: best_def)
qed

subsection \<open>Facts: the passes\<close>

text \<open>What a table is: ids are primary keys, a statement visits the rows it selects, each once,
  and a text column holds no number.\<close>

definition table_ok :: "files_table \<Rightarrow> bool" where
  "table_ok db \<longleftrightarrow>
     distinct (map rr_id (ft_rows db)) \<and> (\<forall>rs. mset (ft_plan db rs) = mset rs) \<and>
     list_all (\<lambda>r. case rr_basename_lower r of SqlInteger _ \<Rightarrow> False | SqlReal _ \<Rightarrow> False | _ \<Rightarrow> True) (ft_rows db)"

definition row_hit :: "(str \<Rightarrow> str) \<Rightarrow> prepared_query \<Rightarrow> raw_row \<Rightarrow> owned_hit option" where
  "row_hit ul q r = hit_for ul q (row_to_record_ref ul r)"

definition row_hits :: "(str \<Rightarrow> str) \<Rightarrow> prepared_query \<Rightarrow> raw_row list \<Rightarrow> owned_hit list" where
  "row_hits ul q rs = List.map_filter (row_hit ul q) rs"

lemma map_filter_refs: "List.map_filter (hit_for ul q) (map (row_to_record_ref ul) rs) = row_hits ul q rs"
  by (induction rs) (auto simp: row_hits_def row_hit_def List.map_filter_simps split: option.splits)

lemma row_hits_append: "row_hits ul q (rs @ ss) = row_hits ul q rs @ row_hits ul q ss"
  by (induction rs) (auto simp: row_hits_def List.map_filter_simps split: option.splits)

lemma row_hits_mset: "mset rs = mset ss \<Longrightarrow> mset (row_hits ul q rs) = mset (row_hits ul q ss)"
  by (simp add: row_hits_def map_filter_def)

lemma row_hits_split:
  "mset (row_hits ul q rs) = mset (row_hits ul q (filter P rs)) + mset (row_hits ul q (filter (\<lambda>r. \<not> P r) rs))"
  using row_hits_mset [of rs "filter P rs @ filter (\<lambda>r. \<not> P r) rs" ul q]
  by (simp add: row_hits_append)

lemma row_hits_Nil: "(\<And>r. r \<in> set rs \<Longrightarrow> row_hit ul q r = None) \<Longrightarrow> row_hits ul q rs = []"
  by (induction rs) (auto simp: row_hits_def List.map_filter_simps)

lemma row_hits_distinct:
  assumes "distinct (map rr_id rs)"
  shows "distinct (map owned_key (row_hits ul q rs))"
proof -
  have h: "fr_id (oh_record h) = rr_id r" if "row_hit ul q r = Some h" for r h
    using that by (auto simp: row_hit_def hit_for_def owned_record_def row_to_record_ref_def split: option.splits)
  have "fr_id ` oh_record ` set (row_hits ul q ss) \<subseteq> rr_id ` set ss" for ss
    by (auto simp: row_hits_def map_filter_def h)
  then have "distinct (map (\<lambda>h. fr_id (oh_record h)) (row_hits ul q rs))"
    using assms
    by (induction rs) (fastforce simp: row_hits_def List.map_filter_simps h split: option.splits)+
  then have "inj_on (\<lambda>h. fr_id (oh_record h)) (set (row_hits ul q rs))" "distinct (row_hits ul q rs)"
    by (simp_all add: distinct_map)
  then show ?thesis by (auto simp: distinct_map inj_on_def owned_key_def)
qed

lemma select_rows_mset: "table_ok db \<Longrightarrow> mset (select_rows db P) = mset (filter P (ft_rows db))"
  by (simp add: select_rows_def table_ok_def)

lemma table_hits_distinct: "table_ok db \<Longrightarrow> distinct (map owned_key (row_hits ul q (ft_rows db)))"
  by (rule row_hits_distinct) (simp add: table_ok_def)

lemma visited_distinct:
  assumes "table_ok db" and "mset L = mset (filter P (ft_rows db))"
  shows "distinct (map owned_key (row_hits ul q L))"
proof (rule row_hits_distinct)
  have "distinct (map rr_id (filter P (ft_rows db)))" using assms(1) by (simp add: table_ok_def distinct_map_filter)
  then show "distinct (map rr_id L)" using assms(2) by (metis mset_eq_imp_distinct_iff mset_map)
qed

text \<open>A pass that leaves out no hit returns the results of the whole table.\<close>

lemma visited_complete:
  assumes t: "table_ok db" and m: "mset L = mset (filter P (ft_rows db))"
    and out: "\<And>r. r \<in> set (ft_rows db) \<Longrightarrow> \<not> P r \<Longrightarrow> row_hit ul q r = None"
  shows "owned_finish (offered n (row_hits ul q L)) = best n (row_hits ul q (ft_rows db))"
proof -
  have "mset (row_hits ul q (ft_rows db)) = mset (row_hits ul q L)"
    using row_hits_split [of ul q "ft_rows db" P] row_hits_mset [OF m, of ul q]
      row_hits_Nil [of "filter (\<lambda>r. \<not> P r) (ft_rows db)" ul q] out by simp
  then show ?thesis
    using finish_offered [OF visited_distinct [OF t m, of ul q], of n]
      best_cong [OF visited_distinct [OF t m, of ul q], of "row_hits ul q (ft_rows db)" n] by simp
qed

text \<open>A pass whose heap is full below the scores of all other rows does too.\<close>

lemma visited_below:
  assumes t: "table_ok db" and m: "mset L = mset (filter P (ft_rows db))"
    and below: "is_complete_below (offered n (row_hits ul q L)) bound"
    and out: "\<And>r h. r \<in> set (ft_rows db) \<Longrightarrow> \<not> P r \<Longrightarrow> row_hit ul q r = Some h \<Longrightarrow> bound \<le> oh_score h"
  shows "owned_finish (offered n (row_hits ul q L)) = best n (row_hits ul q (ft_rows db))"
proof -
  let ?others = "row_hits ul q (filter (\<lambda>r. \<not> P r) (ft_rows db))"
  have "mset (row_hits ul q (ft_rows db)) = mset (row_hits ul q L) + mset ?others"
    using row_hits_split [of ul q "ft_rows db" P] row_hits_mset [OF m, of ul q] by simp
  moreover have "\<And>h. h \<in> set ?others \<Longrightarrow> bound \<le> oh_score h"
    using out by (auto simp: row_hits_def map_filter_def)
  ultimately have "best n (row_hits ul q L) = best n (row_hits ul q (ft_rows db))"
    by (rule complete_below [OF below table_hits_distinct [OF t]])
  then show ?thesis using finish_offered [OF visited_distinct [OF t m]] by simp
qed

lemma row_hit_score: "row_hit ul q r = Some h \<Longrightarrow> row_score ul q (row_to_record_ref ul r) = Some (Some (oh_score h))"
  by (auto simp: row_hit_def hit_for_def split: option.splits)

lemma row_hit_rank:
  "row_hit ul q r = Some h \<Longrightarrow>
     matches_metadata (pq_options q) (dr_kind (row_to_record_ref ul r)) (dr_mtime (row_to_record_ref ul r))
       (dr_ext_lower (row_to_record_ref ul r)) \<and>
     rank_lowered q (lowered_path ul (row_to_record_ref ul r)) (dr_basename_lower (row_to_record_ref ul r))
       (length (dr_path (row_to_record_ref ul r))) (dr_mtime (row_to_record_ref ul r)) = Some (Some (oh_score h))"
  using row_hit_score [of ul q r h] by (simp add: row_score_def split: if_splits)

lemma full_pass_best:
  "query_sound q \<Longrightarrow> table_ok db \<Longrightarrow> full_pass ul db q n = Some (best n (row_hits ul q (ft_rows db)))"
  by (simp add: full_pass_def owned_top_hits_new_offered consider_all_offered record_refs_def map_filter_refs
      finish_offered table_hits_distinct)


lemma prefix_range:
  assumes "lower \<noteq> []" and "byte (last lower) \<noteq> 255" and "prefix lower b"
  shows "lower \<le> b \<and> b < butlast lower @ [char_of (byte (last lower) + 1)]"
proof -
  define p c where "p = butlast lower" and "c = last lower"
  have lower: "lower = p @ [c]" using assms(1) by (simp add: p_def c_def)
  obtain r where b: "b = lower @ r" using assms(3) by (auto simp: prefix_def)
  have lt: "byte c < 256" by (simp add: byte_def)
  then have "byte c + 1 < 256" using assms(2) unfolding c_def by linarith
  then have "byte (char_of (byte c + 1)) = byte c + 1" by (rule byte_char_of)
  then have "c < char_of (byte c + 1)" by (simp add: less_char_def byte_def)
  then have "p @ c # r < p @ [char_of (byte c + 1)]" by (simp add: list_less_append)
  moreover have "lower \<le> lower @ r" using list_less_append(2) [of lower "[]" r] by simp
  moreover have "b = p @ c # r" using b lower by simp
  ultimately show ?thesis unfolding p_def [symmetric] c_def [symmetric] using b by simp
qed

lemma mset_filter_disjoint:
  "(\<And>r. \<not> (P r \<and> Q r)) \<Longrightarrow> mset (filter P rs) + mset (filter Q rs) = mset (filter (\<lambda>r. P r \<or> Q r) rs)"
  by (induction rs) auto

lemma decoded_prefix:
  assumes t: "case v of SqlInteger _ \<Rightarrow> False | SqlReal _ \<Rightarrow> False | _ \<Rightarrow> True"
    and "lower \<noteq> []" and "byte (last lower) \<noteq> 255" and p: "prefix lower (or_empty (column_str v))"
  shows "in_text_range lower (butlast lower @ [char_of (byte (last lower) + 1)]) v \<or>
    in_blob_range lower (butlast lower @ [char_of (byte (last lower) + 1)]) v"
proof -
  obtain b where b: "column_str v = Some b" "prefix lower b"
    using p assms(2) by (cases "column_str v") (auto simp: or_empty_def)
  have "v = SqlText b \<or> v = SqlBlob b"
    using b(1) t by (cases v) (auto simp: column_str_def split: if_splits)
  then show ?thesis using prefix_range [OF assms(2,3) b(2)] by auto
qed

lemma dr_basename_lower_ref [simp]:
  "dr_basename_lower (row_to_record_ref ul r) = or_empty (column_str (rr_basename_lower r))"
  by (simp add: row_to_record_ref_def)

lemma prefix_pass_ok:
  assumes q: "query_sound q" and t: "table_ok db"
  shows "prefix_pass ul db q n = Some None \<or> prefix_pass ul db q n = Some (Some (best n (row_hits ul q (ft_rows db))))"
proof (cases "sqlite_basename_prefix q")
  case None
  then show ?thesis by (simp add: prefix_pass_def)
next
  case (Some lu)
  define trm where "trm = hd (pq_terms q)"
  define lower where "lower = fd_value (pt_finder trm)"
  define upper where "upper = butlast lower @ [char_of (byte (last lower) + 1)]"
  have s: "\<not> path_only (pq_options q)" "length (pq_terms q) = 1" "pt_glob trm = None" "lower \<noteq> []"
      "list_all is_ascii lower" "\<not> has_nul lower" "byte (last lower) \<noteq> 255" "lu = (lower, upper)"
    using Some by (auto simp: sqlite_basename_prefix_def Let_def trm_def lower_def upper_def split: if_splits)
  have trm: "trm \<in> set (pq_terms q)" "term_sound trm"
    using s(2) q by (cases "pq_terms q"; simp add: trm_def query_sound_def)+
  have "byte (last lower) < 256" "byte nul = 0" by (simp_all add: byte_def nul_def)
  moreover from this have "byte (last lower) + 1 < 256" using s(7) by linarith
  ultimately have "char_of (byte (last lower) + 1) \<noteq> nul"
    using byte_char_of [of "byte (last lower) + 1"] by (metis add_is_0 one_neq_zero)
  then have nu: "\<not> has_nul upper"
    using s(6) by (auto simp: upper_def has_nul_def dest: in_set_butlastD)
  define P where "P = (\<lambda>r :: raw_row. in_text_range lower upper (rr_basename_lower r) \<or> in_blob_range lower upper (rr_basename_lower r))"
  define L where "L = select_rows db (\<lambda>r. in_text_range lower upper (rr_basename_lower r)) @
      select_rows db (\<lambda>r. in_blob_range lower upper (rr_basename_lower r))"
  have disj: "\<not> (in_text_range lower upper (rr_basename_lower r) \<and> in_blob_range lower upper (rr_basename_lower r))" for r
    by (cases "rr_basename_lower r") auto
  have m: "mset L = mset (filter P (ft_rows db))"
    unfolding L_def P_def using mset_filter_disjoint [OF disj] by (simp add: select_rows_mset [OF t])
  have pass: "prefix_pass ul db q n =
      Some (if is_complete_below (offered n (row_hits ul q L)) 250
        then Some (owned_finish (offered n (row_hits ul q L))) else None)"
    using Some s nu
    by (simp add: prefix_pass_def basename_prefix_refs_def owned_top_hits_new_offered consider_all_offered [OF q]
        map_filter_refs L_def del: map_append)
  have "250 \<le> oh_score h" if r: "r \<in> set (ft_rows db)" "\<not> P r" "row_hit ul q r = Some h" for r h
  proof -
    have "\<not> prefix lower (or_empty (column_str (rr_basename_lower r)))"
      using decoded_prefix [of "rr_basename_lower r" lower] r(1,2) t s(4,7)
      by (auto simp: P_def upper_def table_ok_def list_all_iff)
    then show ?thesis
      using rank_lowered_ge [OF q conjunct2 [OF row_hit_rank [OF r(3)]] trm(1)]
        term_score_not_prefix [OF trm(2) s(3,1)] by (fastforce simp: lower_def)
  qed
  then show ?thesis using visited_below [OF t m] pass by (auto simp: P_def)
qed

lemma extension_pass_ok:
  assumes q: "query_sound q" and t: "table_ok db"
  shows "extension_pass ul db q n = Some None \<or> extension_pass ul db q n = Some (Some (best n (row_hits ul q (ft_rows db))))"
proof (cases "ext_filters (pq_options q) = [] \<or> extension_refs ul db (ext_filters (pq_options q)) = None")
  case True
  then show ?thesis by (auto simp: extension_pass_def)
next
  case False
  let ?e = "ext_filters (pq_options q)"
  define L where "L = select_rows db (\<lambda>r. ext_text_in ?e (rr_ext_lower r)) @
      select_rows db (\<lambda>r. ext_blob_in ?e (rr_ext_lower r)) @ select_rows db (\<lambda>r. ext_number_in ?e (rr_ext_lower r))"
  define P where "P = (\<lambda>r :: raw_row. ext_text_in ?e (rr_ext_lower r) \<or> ext_blob_in ?e (rr_ext_lower r) \<or> ext_number_in ?e (rr_ext_lower r))"
  have d1: "\<not> (ext_text_in ?e (rr_ext_lower r) \<and> (ext_blob_in ?e (rr_ext_lower r) \<or> ext_number_in ?e (rr_ext_lower r)))"
   and d2: "\<not> (ext_blob_in ?e (rr_ext_lower r) \<and> ext_number_in ?e (rr_ext_lower r))" for r
    by (cases "rr_ext_lower r"; simp)+
  have m: "mset L = mset (filter P (ft_rows db))"
    unfolding L_def P_def mset_filter_disjoint [OF d1, symmetric]
    by (simp add: select_rows_mset [OF t] mset_filter_disjoint [OF d2] del: mset_filter)
  have pass: "extension_pass ul db q n = Some (Some (owned_finish (offered n (row_hits ul q L))))"
    using False
    by (auto simp: extension_pass_def extension_refs_def owned_top_hits_new_offered consider_all_offered [OF q]
        map_filter_refs L_def simp del: map_append)
  have "row_hit ul q r = None" if "r \<in> set (ft_rows db)" "\<not> P r" for r
  proof (rule ccontr)
    assume "row_hit ul q r \<noteq> None"
    then obtain h where "row_hit ul q r = Some h" by auto
    then have "\<exists>e. column_str (rr_ext_lower r) = Some e \<and> e \<in> set ?e"
      using row_hit_rank [of ul q r h] False
      by (auto simp: matches_metadata_def row_to_record_ref_def list_ex_iff split: if_splits option.splits)
    then show False
      using that(2) by (cases "rr_ext_lower r") (auto simp: P_def column_str_def split: if_splits)
  qed
  then show ?thesis using visited_complete [OF t m] pass by simp
qed

lemma selected_literal_term:
  assumes "query_sound q" and "sqlite_selected_literal q = Some (l, t)"
  shows "t \<in> set (pq_terms q) \<and> term_sound t \<and> sqlite_term_literal t = Some l"
proof -
  have "(l, t) \<in> set (List.map_filter (\<lambda>t. map_option (\<lambda>l. (l, t)) (sqlite_term_literal t)) (pq_terms q))"
    using assms(2) unfolding sqlite_selected_literal_def by (rule max_by_key_mem)
  then show ?thesis using assms(1) by (auto simp: map_filter_def query_sound_def list_all_iff)
qed

lemma contains_decoded:
  "l \<noteq> [] \<Longrightarrow> contains (or_empty (column_str v)) l \<Longrightarrow> bytes_contain v l"
  by (auto simp: or_empty_def column_str_def bytes_contain_def contains_append split: option.splits if_splits)

lemma lookup_id_rows:
  assumes "distinct (map rr_id (ft_rows db))" and "set L \<subseteq> set (ft_rows db)"
  shows "map_m (lookup_id db) (map rr_id L) = Some L"
  using assms(2)
proof (induction L)
  case (Cons r L)
  have "List.find (\<lambda>x. rr_id x = rr_id r) rs = Some r" if "distinct (map rr_id rs)" "r \<in> set rs" for rs
    using that by (induction rs) auto
  then show ?case using Cons assms(1) by (simp add: lookup_id_def)
qed simp

text \<open>A row whose path cannot contain the literal has a decoded lowercase path without it.\<close>

lemma path_may_contain_lowered:
  assumes "\<not> path_may_contain (rr_path_lower r) (SqlText l)"
  shows "\<not> contains (lowered_path ul (row_to_record_ref ul r)) l"
  using assms
  by (auto simp: path_may_contain_def lowered_path_def row_to_record_ref_def column_str_def
      split: option.splits if_splits)

lemma basename_visited:
  assumes q: "query_sound q" and t: "table_ok db" and l: "l \<noteq> []" "\<not> has_nul l"
  obtains L where
    "basename_visit ul db q l (owned_top_hits_new n) = Some (offered n (row_hits ul q L))"
    and "mset L = mset (filter (\<lambda>r. contains (or_empty (column_str (rr_basename_lower r))) l) (ft_rows db))"
proof
  let ?D = "\<lambda>r. contains (or_empty (column_str (rr_basename_lower r))) l"
  let ?B = "\<lambda>r. bytes_contain (rr_basename_lower r) l"
  let ?L = "filter ?D (select_rows db ?B)"
  have "filter (\<lambda>r. contains (dr_basename_lower r) l) (map (row_to_record_ref ul) (select_rows db ?B)) =
      map (row_to_record_ref ul) ?L"
    by (simp add: filter_map comp_def)
  then show "basename_visit ul db q l (owned_top_hits_new n) = Some (offered n (row_hits ul q ?L))"
    using l(2) consider_all_offered [OF q, of ul "map (row_to_record_ref ul) ?L" n "[]"]
    by (simp add: basename_visit_def basename_literal_refs_def owned_top_hits_new_offered map_filter_refs)
  have "mset ?L = filter_mset ?D (mset (select_rows db ?B))" by simp
  also have "\<dots> = mset (filter ?D (filter ?B (ft_rows db)))" by (simp only: select_rows_mset [OF t] mset_filter)
  also have "filter ?D (filter ?B (ft_rows db)) = filter ?D (ft_rows db)"
    using contains_decoded [OF l(1)] by (auto simp: intro: filter_cong)
  finally show "mset ?L = mset (filter ?D (ft_rows db))" .
qed

lemma path_visited:
  assumes q: "query_sound q" and t: "table_ok db" and l: "\<not> has_nul l"
  obtains L where
    "path_visit ul db q l (offered n hits) = Some (offered n (hits @ row_hits ul q L))"
    and "mset L = mset (filter (\<lambda>r. path_may_contain (rr_path_lower r) (SqlText l) \<and>
      (path_only (pq_options q) \<or> \<not> contains (or_empty (column_str (rr_basename_lower r))) l)) (ft_rows db))"
proof
  let ?M = "\<lambda>r. path_may_contain (rr_path_lower r) (SqlText l)"
  let ?S = "\<lambda>r. path_only (pq_options q) \<or> \<not> contains (or_empty (column_str (rr_basename_lower r))) l"
  let ?L = "filter ?S (select_rows db ?M)"
  have "mset (select_rows db ?M) = mset (filter ?M (ft_rows db))" by (rule select_rows_mset [OF t])
  then have "set (select_rows db ?M) = set (filter ?M (ft_rows db))" by (rule mset_eq_setD)
  then have "map_m (lookup_id db) (map rr_id (select_rows db ?M)) = Some (select_rows db ?M)"
    using t by (intro lookup_id_rows) (auto simp: table_ok_def)
  moreover have "filter (\<lambda>r. path_only (pq_options q) \<or> \<not> contains (dr_basename_lower r) l) (map (row_to_record_ref ul) (select_rows db ?M)) =
      map (row_to_record_ref ul) ?L"
    by (simp add: filter_map comp_def)
  ultimately show "path_visit ul db q l (offered n hits) = Some (offered n (hits @ row_hits ul q ?L))"
    using l consider_all_offered [OF q, of ul "map (row_to_record_ref ul) ?L" n hits]
    by (simp add: path_visit_def path_literal_refs_def map_filter_refs)
  show "mset ?L = mset (filter (\<lambda>r. ?M r \<and> ?S r) (ft_rows db))"
    using select_rows_mset [OF t, of ?M] by (simp add: filter_filter_mset conj_commute)
qed

lemma literal_outside:
  assumes q: "query_sound q" and s: "sqlite_selected_literal q = Some (l, t)" and "\<not> path_only (pq_options q)"
    and "\<not> contains (or_empty (column_str (rr_basename_lower r))) l" and r: "row_hit ul q r = Some h"
  shows "literal_bound t \<le> oh_score h"
proof -
  note st = selected_literal_term [OF q s]
  have t: "t \<in> set (pq_terms q)" "term_sound t" "sqlite_term_literal t = Some l" using st by simp_all
  obtain v where "term_score q t (lowered_path ul (row_to_record_ref ul r))
      (dr_basename_lower (row_to_record_ref ul r)) = Some (Some v)" "v \<le> oh_score h"
    using rank_lowered_ge [OF q conjunct2 [OF row_hit_rank [OF r]] t(1)] by blast
  moreover have "\<not> contains (dr_basename_lower (row_to_record_ref ul r)) l" using assms(4) by simp
  ultimately show ?thesis using term_score_outside [OF t(2,3) assms(3)] by fastforce
qed

lemma literal_needed:
  assumes q: "query_sound q" and s: "sqlite_selected_literal q = Some (l, t)" and "\<not> pq_fuzzy q"
    and "\<not> path_may_contain (rr_path_lower r) (SqlText l)"
    and "path_only (pq_options q) \<or> \<not> contains (or_empty (column_str (rr_basename_lower r))) l"
  shows "row_hit ul q r = None"
proof (rule ccontr)
  assume "row_hit ul q r \<noteq> None"
  then obtain h where h: "row_hit ul q r = Some h" by auto
  have t: "t \<in> set (pq_terms q)" "term_sound t" "sqlite_term_literal t = Some l"
    using selected_literal_term [OF q s] by simp_all
  obtain v where "term_score q t (lowered_path ul (row_to_record_ref ul r))
      (dr_basename_lower (row_to_record_ref ul r)) = Some (Some v)"
    using rank_lowered_ge [OF q conjunct2 [OF row_hit_rank [OF h]] t(1)] by blast
  then show False
    using term_score_needs_literal [OF t(2,3) assms(3)] path_may_contain_lowered [OF assms(4)] assms(5)
    by auto
qed

lemma literal_pass_ok:
  assumes q: "query_sound q" and t: "table_ok db"
  shows "literal_pass ul db q n = Some None \<or> literal_pass ul db q n = Some (Some (best n (row_hits ul q (ft_rows db))))"
proof (cases "sqlite_selected_literal q")
  case None
  then show ?thesis
    by (simp add: literal_pass_def sqlite_required_literal_def sqlite_basename_literal_def)
next
  case (Some lt)
  obtain l tm where lt: "lt = (l, tm)" by fastforce
  note sel = Some [unfolded lt]
  have l: "l \<noteq> []" "\<not> has_nul l" using selected_literal_term [OF q sel] sqlite_term_literal_ok by blast+
  let ?D = "\<lambda>r. contains (or_empty (column_str (rr_basename_lower r))) l"
  let ?M = "\<lambda>r. path_may_contain (rr_path_lower r) (SqlText l)"
  obtain B where B: "basename_visit ul db q l (owned_top_hits_new n) = Some (offered n (row_hits ul q B))" "mset B = mset (filter ?D (ft_rows db))"
    using basename_visited [OF q t l] .
  have proof': "sqlite_basename_literal q = None \<or> sqlite_basename_literal q = Some (l, literal_bound tm)"
    by (auto simp: sqlite_basename_literal_def sel literal_bound_def Let_def split: option.splits)
  have required: "sqlite_required_literal q = (if pq_fuzzy q then None else Some l)"
    by (simp add: sqlite_required_literal_def sel)
  show ?thesis
  proof (cases "path_only (pq_options q)")
    case True
    obtain L where L: "path_visit ul db q l (offered n []) = Some (offered n ([] @ row_hits ul q L))"
      "mset L = mset (filter (\<lambda>r. ?M r \<and> (path_only (pq_options q) \<or> \<not> ?D r)) (ft_rows db))"
      using path_visited [OF q t l(2)] .
    have "sqlite_basename_literal q = None" using True by (simp add: sqlite_basename_literal_def)
    moreover have "owned_finish (offered n (row_hits ul q L)) = best n (row_hits ul q (ft_rows db))" if "\<not> pq_fuzzy q"
      by (rule visited_complete [OF t L(2)]) (use literal_needed [OF q sel that] True in auto)
    ultimately show ?thesis
      using True L(1) required by (simp add: literal_pass_def owned_top_hits_new_offered)
  next
    case False
    show ?thesis
    proof (cases "sqlite_basename_literal q \<noteq> None \<and> is_complete_below (offered n (row_hits ul q B)) (literal_bound tm)")
      case True
      then have "owned_finish (offered n (row_hits ul q B)) = best n (row_hits ul q (ft_rows db))"
        using visited_below [OF t B(2)] literal_outside [OF q sel False] by blast
      then show ?thesis
        using True False proof' required B(1) by (auto simp: literal_pass_def Let_def)
    next
      case go: False
      obtain L where L: "path_visit ul db q l (offered n (row_hits ul q B)) =
          Some (offered n (row_hits ul q B @ row_hits ul q L))"
        "mset L = mset (filter (\<lambda>r. ?M r \<and> (path_only (pq_options q) \<or> \<not> ?D r)) (ft_rows db))"
        using path_visited [OF q t l(2)] .
      have "mset (B @ L) = mset (filter (\<lambda>r. ?D r \<or> ?M r \<and> \<not> ?D r) (ft_rows db))"
        using B(2) L(2) False mset_filter_disjoint [of ?D "\<lambda>r. ?M r \<and> \<not> ?D r"] by simp
      then have "owned_finish (offered n (row_hits ul q (B @ L))) = best n (row_hits ul q (ft_rows db))" if "\<not> pq_fuzzy q"
        by (rule visited_complete [OF t]) (use literal_needed [OF q sel that] in auto)
      then show ?thesis
        using go False proof' required B(1) L(1)
        by (auto simp: literal_pass_def Let_def row_hits_append)
    qed
  qed
qed

text \<open>The complete scan: every row is scored, the hits are sorted, and the list is cut.\<close>

definition scan_results ::
  "(str \<Rightarrow> str) \<Rightarrow> prepared_query \<Rightarrow> files_table \<Rightarrow> usize \<Rightarrow> search_result list" where
  "scan_results ul q db n =
     map (\<lambda>h. \<lparr>sr_record = oh_record h, sr_score = oh_score h\<rparr>)
       (take n (sort_by owned_cmp (List.map_filter (hit_for ul q) (record_refs ul db))))"

lemma scan_results_best: "scan_results ul q db n = best n (row_hits ul q (ft_rows db))"
  by (simp add: scan_results_def best_def record_refs_def map_filter_refs)

lemma search_scan:
  assumes "lowercase_ok ul" and "options_valid options" and t: "table_ok db"
  shows "\<exists>q. prepared_query_new ul (normalized_at ul options now) = Some q \<and>
    search ul now db options = Some (scan_results ul q db (effective_limit (limit (normalized_at ul options now))))"
proof -
  note v = normalized_valid [OF assms(1,2), of now]
  obtain q where q: "prepared_query_new ul (normalized_at ul options now) = Some q"
    using prepared_query_new_for [OF assms(1) v] by blast
  have s: "query_sound q" using prepared_query_new_sound [OF assms(1) v q] by simp
  define n where "n = effective_limit (limit (normalized_at ul options now))"
  let ?r = "Some (best n (row_hits ul q (ft_rows db)))"
  have 1: "search ul now db options = (if \<not> ft_utf8 db then ?r else do {
         r1 \<leftarrow> prefix_pass ul db q n;
         case r1 of Some out \<Rightarrow> Some out
         | None \<Rightarrow> do {
             r2 \<leftarrow> extension_pass ul db q n;
             case r2 of Some out \<Rightarrow> Some out
             | None \<Rightarrow> do { r3 \<leftarrow> literal_pass ul db q n; case r3 of Some out \<Rightarrow> Some out | None \<Rightarrow> ?r }
           }
       })"
    unfolding search_def Let_def q bind.bind_lunit n_def [symmetric] full_pass_best [OF s t] by (rule refl)
  have "search ul now db options = ?r"
    unfolding 1
    by (rule disjE [OF prefix_pass_ok [OF s t, of ul n]]; rule disjE [OF extension_pass_ok [OF s t, of ul n]];
        rule disjE [OF literal_pass_ok [OF s t, of ul n]]; simp)
  then show ?thesis using q by (simp add: scan_results_best n_def)
qed

text \<open>C30: The prefiltered search returns what the complete scan returns. Whatever order SQLite visits
  rows in, the early exits (basenames with the prefix, below 250; rows with the extension;
  basenames with the longest literal, below 550 or the pattern's length plus 520; the union
  with the paths that may contain it) lose no result, change no score and no place, and no
  statement fails.\<close>

theorem search_is_scan:
  assumes "lowercase_ok ul" and "options_valid options" and "table_ok db"
  shows "\<exists>q. prepared_query_new ul (normalized_at ul options now) = Some q \<and>
    search ul now db options = Some (scan_results ul q db (effective_limit (limit (normalized_at ul options now))))"
  using assms by (rule search_scan)

definition example_row :: "i64 \<Rightarrow> str \<Rightarrow> str \<Rightarrow> raw_row" where
  "example_row i path name =
     \<lparr>rr_id = i, rr_path = SqlText path, rr_path_lower = SqlText path, rr_basename = SqlText name,
      rr_basename_lower = SqlText name, rr_ext_lower = SqlNull, rr_kind = SqlText ''file'',
      rr_size = SqlNull, rr_mtime = SqlNull, rr_ctime = SqlNull, rr_dev = SqlNull, rr_inode = SqlNull,
      rr_indexed_at = SqlInteger 0\<rparr>"

theorem search_is_scan_witness:
  "map_option (map (\<lambda>r. (fr_id (sr_record r), sr_score r)))
     (search id 0 \<lparr>ft_rows = [example_row 1 ''/a/notes'' ''notes'', example_row 2 ''/a/report'' ''report'',
         example_row 3 ''/report/z'' ''z''], ft_plan = rev, ft_utf8 = True\<rparr> (default_options\<lparr>query := ''report''\<rparr>))
   = Some [(2, 9), (3, 560)]"
proof -
  let ?db = "\<lparr>ft_rows = [example_row 1 ''/a/notes'' ''notes'', example_row 2 ''/a/report'' ''report'',
         example_row 3 ''/report/z'' ''z''], ft_plan = rev, ft_utf8 = True\<rparr>"
  let ?o = "default_options\<lparr>query := ''report''\<rparr>"
  have l: "lowercase_ok id" by (simp add: lowercase_ok_def)
  have o: "options_valid ?o" by code_simp
  have t: "table_ok ?db" by (simp add: table_ok_def example_row_def)
  obtain q where q: "prepared_query_new id (normalized_at id ?o 0) = Some q"
      "search id 0 ?db ?o = Some (scan_results id q ?db (effective_limit (limit (normalized_at id ?o 0))))"
    using search_is_scan [OF l o t, of 0] by blast
  have "map_option (\<lambda>q. map (\<lambda>r. (fr_id (sr_record r), sr_score r))
      (scan_results id q ?db (effective_limit (limit (normalized_at id ?o 0)))))
      (prepared_query_new id (normalized_at id ?o 0)) = Some [(2, 9), (3, 560)]"
    by code_simp
  then show ?thesis using q by simp
qed

end
