(* ===== verification/Rust_Lossy.thy ===== *)
theory Rust_Lossy
  imports Rust_Text
begin

text \<open>
  \<open>String::from_utf8_lossy\<close> and \<open>Path::to_string_lossy\<close>, and the texts that the HTTP code takes
  apart: lines and words.
\<close>

subsection \<open>Bytes that need not be a text\<close>

text \<open>\<open>to_string_lossy\<close>: each maximal ill-formed part becomes U+FFFD.\<close>

definition second_byte_ok :: "char \<Rightarrow> char \<Rightarrow> bool" where
  "second_byte_ok a b \<longleftrightarrow>
     194 \<le> byte a \<and> byte a < 245 \<and> is_continuation b \<and>
     (byte a = 224 \<longrightarrow> 160 \<le> byte b) \<and> (byte a = 237 \<longrightarrow> byte b < 160) \<and>
     (byte a = 240 \<longrightarrow> 144 \<le> byte b) \<and> (byte a = 244 \<longrightarrow> byte b < 144)"

definition ill_formed_len :: "char \<Rightarrow> str \<Rightarrow> nat" where
  "ill_formed_len a rest =
     (case rest of
        b # rest' \<Rightarrow>
          if 224 \<le> byte a \<and> second_byte_ok a b
          then (case rest' of c # _ \<Rightarrow> if 240 \<le> byte a \<and> is_continuation c then 3 else 2 | [] \<Rightarrow> 2)
          else 1
      | [] \<Rightarrow> 1)"

function to_string_lossy :: "str \<Rightarrow> str" where
  "to_string_lossy [] = []"
| "to_string_lossy (a # rest) =
     (let n = utf8_len a - 1
      in if rchar_valid (a # take n rest) then a # take n rest @ to_string_lossy (drop n rest)
         else [CHR 0xEF, CHR 0xBF, CHR 0xBD] @ to_string_lossy (drop (ill_formed_len a rest - 1) rest))"
  by pat_completeness auto

termination by (relation "measure length") auto

declare to_string_lossy.simps(2) [simp del]

lemma to_string_lossy_valid [simp]: "utf8_valid s \<Longrightarrow> to_string_lossy s = s"
  by (induction s rule: to_string_lossy.induct) (simp_all add: to_string_lossy.simps(2) utf8_valid_Cons)

lemma replacement_char: "utf8_valid [CHR 0xEF, CHR 0xBF, CHR 0xBD]"
  by code_simp

lemma to_string_lossy_is_text: "utf8_valid (to_string_lossy s)"
proof (induction s rule: to_string_lossy.induct)
  case (2 a rest)
  let ?n = "utf8_len a - 1"
  show ?case
  proof (cases "rchar_valid (a # take ?n rest)")
    case True
    then have "utf8_valid ((a # take ?n rest) @ to_string_lossy (drop ?n rest))"
      using "2.IH"(1) [OF refl True] utf8_valid_char by (intro utf8_valid_appendI) blast+
    then show ?thesis using True by (simp add: to_string_lossy.simps(2) Let_def)
  next
    case False
    then have "utf8_valid ([CHR 0xEF, CHR 0xBF, CHR 0xBD] @ to_string_lossy (drop (ill_formed_len a rest - 1) rest))"
      using "2.IH"(2) [OF refl False] replacement_char by (intro utf8_valid_appendI) blast+
    then show ?thesis using False by (simp add: to_string_lossy.simps(2) Let_def)
  qed
qed simp

subsection \<open>Lines and words\<close>

text \<open>\<open>str::lines\<close>: pieces between newlines without a carriage return at their end.\<close>

definition strip_cr :: "str \<Rightarrow> str" where
  "strip_cr s = (if s \<noteq> [] \<and> last s = CHR 0x0D then butlast s else s)"

definition str_lines :: "str \<Rightarrow> str list" where
  "str_lines s =
     (let pieces = split_on (\<lambda>c. c = CHR 0x0A) s
      in map strip_cr (if last pieces = [] then butlast pieces else pieces))"

text \<open>\<open>str::split_whitespace\<close>\<close>

fun split_words :: "rchar list \<Rightarrow> str \<Rightarrow> str list" where
  "split_words [] word = (if word = [] then [] else [word])"
| "split_words (ch # rest) word =
     (if is_whitespace ch then (if word = [] then [] else [word]) @ split_words rest []
      else split_words rest (word @ ch))"

definition split_whitespace :: "str \<Rightarrow> str list" where
  "split_whitespace s = split_words (str_chars s) []"

lemma split_words_parts: "w \<in> set (split_words cs word) \<Longrightarrow> contains (word @ concat cs) w"
proof (induction cs word rule: split_words.induct)
  case (1 word)
  then show ?case by (auto simp: contains_append split: if_split_asm intro: exI [of _ "[]"])
next
  case (2 ch rest word)
  show ?case
  proof (cases "is_whitespace ch")
    case True
    then consider "w = word" | "w \<in> set (split_words rest [])" using "2.prems" by (auto split: if_split_asm)
    then show ?thesis
    proof cases
      case 1
      then show ?thesis by (metis append_Nil contains_append)
    next
      case 2
      then have "contains (concat rest) w" using "2.IH"(1) [OF True] by simp
      then obtain us vs where "concat rest = us @ w @ vs" by (auto simp: contains_append)
      then have "word @ concat (ch # rest) = (word @ ch @ us) @ w @ vs" by simp
      then show ?thesis unfolding contains_append by blast
    qed
  next
    case False
    then show ?thesis using "2.IH"(2) "2.prems" by simp
  qed
qed

lemma split_whitespace_parts: "w \<in> set (split_whitespace s) \<Longrightarrow> contains s w"
  using split_words_parts [of w "str_chars s" "[]"] by (simp add: split_whitespace_def)

end
