(* ===== verification/Json.thy ===== *)
theory Json
  imports Model Rust_Lossy
begin

text \<open>
  Results as JSON, the end of \<open>src/src/server.rs\<close>, with a reader for JSON strings that
  escaping is proved against.
\<close>

definition json_i64 :: "i64 option \<Rightarrow> str" where
  "json_i64 v = (case v of Some n \<Rightarrow> int_to_str n | None \<Rightarrow> ''null'')"

text \<open>\<open>char::is_control\<close>: U+0000 to U+001F and U+007F to U+009F.\<close>

definition is_control :: "rchar \<Rightarrow> bool" where
  "is_control ch \<longleftrightarrow>
     (case ch of
        [a] \<Rightarrow> byte a < 32 \<or> byte a = 127
      | [a, b] \<Rightarrow> byte a = 194 \<and> byte b < 160
      | _ \<Rightarrow> False)"

definition hex_digit :: "nat \<Rightarrow> char" where
  "hex_digit n = (if n < 10 then char_of (48 + n) else char_of (87 + n))"

text \<open>The code point of a control character; \<open>ch as u32\<close> in four hexadecimal digits.\<close>

definition control_point :: "rchar \<Rightarrow> nat" where
  "control_point ch = (case ch of [a] \<Rightarrow> byte a | [a, b] \<Rightarrow> byte b | _ \<Rightarrow> 0)"

definition hex4 :: "nat \<Rightarrow> str" where
  "hex4 n = [hex_digit (n div 4096 mod 16), hex_digit (n div 256 mod 16), hex_digit (n div 16 mod 16), hex_digit (n mod 16)]"

definition escape_char :: "rchar \<Rightarrow> str" where
  "escape_char ch =
     (if ch = [CHR 0x22] then [CHR 0x5C, CHR 0x22]
      else if ch = [CHR 0x5C] then [CHR 0x5C, CHR 0x5C]
      else if ch = [CHR 0x0A] then [CHR 0x5C, CHR ''n'']
      else if ch = [CHR 0x0D] then [CHR 0x5C, CHR ''r'']
      else if ch = [CHR 0x09] then [CHR 0x5C, CHR ''t'']
      else if is_control ch then [CHR 0x5C, CHR ''u''] @ hex4 (control_point ch)
      else ch)"

definition json_escape :: "str \<Rightarrow> str" where
  "json_escape s = concat (map escape_char (str_chars s))"

definition quote :: "str \<Rightarrow> str" where
  "quote s = [CHR 0x22] @ s @ [CHR 0x22]"

definition json_field :: "str \<Rightarrow> str \<Rightarrow> str" where
  "json_field name v = quote name @ '':'' @ v"

definition result_json :: "search_result \<Rightarrow> str" where
  "result_json r =
     ''{'' @ json_field ''path'' (quote (json_escape (fr_path (sr_record r))))
     @ '','' @ json_field ''basename'' (quote (json_escape (fr_basename (sr_record r))))
     @ '','' @ json_field ''kind'' (quote (kind_as_str (fr_kind (sr_record r))))
     @ '','' @ json_field ''size'' (json_i64 (fr_size (sr_record r)))
     @ '','' @ json_field ''mtime'' (json_i64 (fr_mtime (sr_record r)))
     @ '','' @ json_field ''score'' (int_to_str (sr_score r)) @ ''}''"

definition search_results_json :: "search_result list \<Rightarrow> str" where
  "search_results_json results = ''['' @ join_with '','' (map result_json results) @ '']'' @ [CHR 0x0A]"

subsection \<open>Reading a JSON string\<close>

definition hex_value :: "char \<Rightarrow> nat option" where
  "hex_value c =
     (if 48 \<le> byte c \<and> byte c \<le> 57 then Some (byte c - 48)
      else if 97 \<le> byte c \<and> byte c \<le> 102 then Some (byte c - 87)
      else if 65 \<le> byte c \<and> byte c \<le> 70 then Some (byte c - 55)
      else None)"

text \<open>The encoding of a code point below U+0800, all that the escapes above need.\<close>

definition encode_point :: "nat \<Rightarrow> str option" where
  "encode_point n =
     (if n < 128 then Some [char_of n]
      else if n < 2048 then Some [char_of (192 + n div 64), char_of (128 + n mod 64)]
      else None)"

definition simple_escape :: "char \<Rightarrow> char option" where
  "simple_escape e = map_of [(CHR ''n'', CHR 0x0A), (CHR ''r'', CHR 0x0D), (CHR ''t'', CHR 0x09),
     (CHR 0x22, CHR 0x22), (CHR 0x5C, CHR 0x5C)] e"

definition read_escape :: "str \<Rightarrow> (str \<times> str) option" where
  "read_escape s =
     (case s of
        [] \<Rightarrow> None
      | e # rest \<Rightarrow>
          if e = CHR ''u''
          then (case rest of
                  a # b # c # d # rest' \<Rightarrow>
                    (case (hex_value a, hex_value b, hex_value c, hex_value d) of
                       (Some w, Some x, Some y, Some z) \<Rightarrow>
                         map_option (\<lambda>t. (t, rest')) (encode_point (4096 * w + 256 * x + 16 * y + z))
                     | _ \<Rightarrow> None)
                | _ \<Rightarrow> None)
          else map_option (\<lambda>t. ([t], rest)) (simple_escape e))"

lemma read_escape_length: "read_escape s = Some (t, rest) \<Longrightarrow> length rest < length s"
  by (auto simp: read_escape_def split: list.splits if_splits option.splits)

text \<open>
  The body of a string after its opening quote: the text and what follows the closing quote.
  Bytes below 32 must be escaped.
\<close>

function json_read :: "str \<Rightarrow> (str \<times> str) option" where
  "json_read [] = None"
| "json_read (c # s) =
     (if byte c = 34 then Some ([], s)
      else if byte c = 92
      then (case read_escape s of
              None \<Rightarrow> None
            | Some (t, rest) \<Rightarrow> map_option (\<lambda>(u, v). (t @ u, v)) (json_read rest))
      else if byte c < 32 then None
      else map_option (\<lambda>(u, v). (c # u, v)) (json_read s))"
  by pat_completeness auto

termination by (relation "measure length") (auto dest: read_escape_length)

declare json_read.simps(2) [simp del]

lemma json_read_plain:
  "(\<And>c. c \<in> set t \<Longrightarrow> 32 \<le> byte c \<and> byte c \<noteq> 34 \<and> byte c \<noteq> 92) \<Longrightarrow>
     json_read (t @ s) = map_option (\<lambda>(u, v). (t @ u, v)) (json_read s)"
proof (induction t)
  case (Cons a t)
  have a: "\<not> byte a < 32" "byte a \<noteq> 34" "byte a \<noteq> 92" using Cons.prems [of a] by simp_all
  have "json_read (t @ s) = map_option (\<lambda>(u, v). (t @ u, v)) (json_read s)" using Cons by simp
  then show ?case using a by (cases "json_read s") (auto simp: json_read.simps(2))
qed (cases "json_read s"; auto)

lemma json_read_escaped:
  "read_escape (e @ s) = Some (t, s) \<Longrightarrow>
     json_read (CHR 0x5C # e @ s) = map_option (\<lambda>(u, v). (t @ u, v)) (json_read s)"
  by (simp add: json_read.simps(2) byte_def)

lemma hex_value_digit: "n < 16 \<Longrightarrow> hex_value (hex_digit n) = Some n"
  by (auto simp: hex_value_def hex_digit_def byte_char_of)

lemma hex_sum: "n = 16 * a + w \<Longrightarrow> a = 16 * b + x \<Longrightarrow> b = 16 * c + y \<Longrightarrow> 4096 * c + 256 * y + 16 * x + w = n" for n :: nat
  by simp

lemma byte_quote: "byte c = 34 \<longleftrightarrow> c = CHR 0x22" "byte c = 92 \<longleftrightarrow> c = CHR 0x5C"
proof -
  have "byte (CHR 0x22) = 34" "byte (CHR 0x5C) = 92" by (simp_all add: byte_def)
  then show "byte c = 34 \<longleftrightarrow> c = CHR 0x22" "byte c = 92 \<longleftrightarrow> c = CHR 0x5C" by (metis byte_eq_iff)+
qed

lemma read_escape_hex4:
  assumes "n < 65536" and "encode_point n = Some t"
  shows "read_escape (''u'' @ hex4 n @ s) = Some (t, s)"
proof -
  have "4096 * (n div 4096 mod 16) + 256 * (n div 256 mod 16) + 16 * (n div 16 mod 16) + n mod 16 = n"
  proof -
    define a b c where abc: "a = n div 16" "b = a div 16" "c = b div 16"
    have "n div 256 = b" "n div 4096 = c" unfolding abc by (simp_all flip: div_mult2_eq)
    moreover have "c mod 16 = c" using assms(1) unfolding abc by (simp flip: div_mult2_eq)
    moreover have "n = 16 * a + n mod 16" "a = 16 * b + a mod 16" "b = 16 * c + b mod 16"
      unfolding abc by simp_all
    ultimately show ?thesis
      using hex_sum [of n a "n mod 16" b "a mod 16" c "b mod 16"] abc(1) by (simp only:)
  qed
  then have sum: "encode_point (4096 * (n div 4096 mod 16) + 256 * (n div 256 mod 16) + 16 * (n div 16 mod 16) + n mod 16) = Some t"
    using assms(2) by (simp only:)
  have "hex_value (hex_digit (k mod 16)) = Some (k mod 16)" for k by (simp add: hex_value_digit)
  then show ?thesis using sum unfolding read_escape_def hex4_def by (simp only: append.simps list.case option.case if_True prod.case option.map refl)
qed

lemma rchar_valid_bytes:
  "rchar_valid ch \<Longrightarrow> (\<exists>a. ch = [a] \<and> byte a < 128) \<or> (\<forall>c \<in> set ch. 128 \<le> byte c)"
  by (cases ch rule: rchar_valid.cases) (auto simp: is_continuation_def)

lemma control_point_encoded:
  assumes v: "rchar_valid ch" and c: "is_control ch"
  shows "control_point ch < 65536 \<and> encode_point (control_point ch) = Some ch"
proof (cases ch rule: rchar_valid.cases)
  case (1 a)
  then show ?thesis using v by (simp add: control_point_def encode_point_def byte_def)
next
  case (2 a b)
  then have b: "byte a = 194" "128 \<le> byte b" "byte b < 160" using v c by (auto simp: is_control_def is_continuation_def)
  then have d: "byte b div 64 = 2" by (intro div_nat_eqI) simp_all
  then have "128 + byte b mod 64 = byte b" using mult_div_mod_eq [of 64 "byte b"] by simp
  moreover have "192 + byte b div 64 = 194" using d by simp
  ultimately have "char_of (192 + byte b div 64) = a" "char_of (128 + byte b mod 64) = b"
    using b(1) by (simp_all add: byte_def) (metis char_of_char)
  then show ?thesis using b 2 by (simp add: control_point_def encode_point_def)
qed (use v c in \<open>auto simp: is_control_def\<close>)

lemma json_read_char:
  assumes v: "rchar_valid ch"
  shows "json_read (escape_char ch @ s) = map_option (\<lambda>(u, v). (ch @ u, v)) (json_read s)"
proof -
  consider "ch \<in> {[CHR 0x22], [CHR 0x5C], [CHR 0x0A], [CHR 0x0D], [CHR 0x09]}"
    | "ch \<notin> {[CHR 0x22], [CHR 0x5C], [CHR 0x0A], [CHR 0x0D], [CHR 0x09]}" "is_control ch"
    | "ch \<notin> {[CHR 0x22], [CHR 0x5C], [CHR 0x0A], [CHR 0x0D], [CHR 0x09]}" "\<not> is_control ch" by blast
  then show ?thesis
  proof cases
    case 1
    then show ?thesis
      by (elim insertE emptyE)
         (simp_all add: escape_char_def json_read.simps(2) read_escape_def simple_escape_def byte_def)
  next
    case 2
    note cp = control_point_encoded [OF v 2(2)]
    have "read_escape ((''u'' @ hex4 (control_point ch)) @ s) = Some (ch, s)"
      using read_escape_hex4 cp by simp
    from json_read_escaped [OF this] show ?thesis using 2 by (simp add: escape_char_def)
  next
    case 3
    have "32 \<le> byte c \<and> byte c \<noteq> 34 \<and> byte c \<noteq> 92" if "c \<in> set ch" for c
    proof (cases "\<exists>a. ch = [a] \<and> byte a < 128")
      case True
      then have "ch = [c]" using that by auto
      then have "byte c \<noteq> 34" "byte c \<noteq> 92" "\<not> byte c < 32"
        using 3 by (simp_all add: is_control_def byte_quote)
      then show ?thesis by simp
    next
      case False
      then show ?thesis using rchar_valid_bytes [OF v] that by force
    qed
    then show ?thesis using json_read_plain [of ch s] 3 by (simp add: escape_char_def)
  qed
qed

text \<open>Escaping is exact: whatever the text of a path holds (quotes, backslashes, newlines, other
  control characters, any Unicode), a JSON reader gets the text back from the quoted string and
  stops at its closing quote.\<close>

theorem json_escape_roundtrip:
  assumes "utf8_valid s"
  shows "json_read (json_escape s @ CHR 0x22 # rest) = Some (s, rest)"
proof -
  have "json_read (concat (map escape_char cs) @ CHR 0x22 # rest) = Some (concat cs, rest)" if "list_all rchar_valid cs" for cs
    using that by (induction cs) (simp_all add: json_read_char json_read.simps(2) byte_def)
  then show ?thesis using assms concat_str_chars [of s] unfolding json_escape_def utf8_valid_def by metis
qed

theorem json_escape_roundtrip_witness:
  "json_read (json_escape (''a'' @ [CHR 0x22, CHR 0x0A, CHR 0x01, CHR 0xC2, CHR 0x85]) @ CHR 0x22 # '','') =
     Some (''a'' @ [CHR 0x22, CHR 0x0A, CHR 0x01, CHR 0xC2, CHR 0x85], '','')"
  by (rule json_escape_roundtrip) code_simp

end
