(* ===== verification/Http.thy ===== *)
theory Http
  imports Json
begin

text \<open>
  The HTTP side of \<open>src/src/server.rs\<close>: reading a request, targets and query strings, the token
  check, responses, the choice of a backend and the limits on concurrent requests. Time and
  the socket are parameters: a request is read from a list of results of \<open>read\<close>, each with
  whether the total timeout had elapsed before it.
\<close>

datatype error = Cli str | Io str | Sqlite str

definition error_text :: "error \<Rightarrow> str" where
  "error_text e = (case e of Cli m \<Rightarrow> m | Io m \<Rightarrow> m | Sqlite m \<Rightarrow> ''sqlite: '' @ m)"

subsection \<open>Backends\<close>

datatype backend_preference = Auto | Memory | Compact | SqliteBackend

fun backend_as_str :: "backend_preference \<Rightarrow> str" where
  "backend_as_str Auto = ''auto''"
| "backend_as_str Memory = ''memory''"
| "backend_as_str Compact = ''compact''"
| "backend_as_str SqliteBackend = ''sqlite''"

definition backend_from_str :: "(str \<Rightarrow> str) \<Rightarrow> str \<Rightarrow> error + backend_preference" where
  "backend_from_str ul value =
     (let v = to_lowercase ul value
      in if v \<in> set [''auto'', ''automatic''] then Inr Auto
         else if v \<in> set [''memory'', ''fast'', ''fastest''] then Inr Memory
         else if v \<in> set [''compact'', ''balanced'', ''compressed''] then Inr Compact
         else if v \<in> set [''sqlite'', ''sql'', ''low-memory'', ''low_memory''] then Inr SqliteBackend
         else Inl (Cli ''--backend must be auto, memory, compact, or sqlite''))"

definition default_memory_budget_bytes :: nat where "default_memory_budget_bytes = 2560 * 1024 * 1024"
definition estimated_record_bytes :: nat where "estimated_record_bytes = 900"
definition estimated_compact_record_bytes :: nat where "estimated_compact_record_bytes = 420"

text \<open>Products of \<open>u64\<close> wrap (in release builds).\<close>

definition estimate_memory_bytes :: "i64 \<Rightarrow> nat" where
  "estimate_memory_bytes records_total = nat (max records_total 0) * estimated_record_bytes mod 2 ^ 64"

definition estimate_compact_memory_bytes :: "i64 \<Rightarrow> nat" where
  "estimate_compact_memory_bytes records_total = nat (max records_total 0) * estimated_compact_record_bytes mod 2 ^ 64"

definition estimate_backend_memory_bytes :: "backend_preference \<Rightarrow> i64 \<Rightarrow> nat" where
  "estimate_backend_memory_bytes backend records_total =
     (case backend of
        Auto \<Rightarrow> estimate_memory_bytes records_total
      | Memory \<Rightarrow> estimate_memory_bytes records_total
      | Compact \<Rightarrow> estimate_compact_memory_bytes records_total
      | SqliteBackend \<Rightarrow> 0)"

text \<open>Environment variables are arguments, \<open>None\<close> when unset.\<close>

definition memory_budget_bytes :: "str option \<Rightarrow> nat" where
  "memory_budget_bytes var =
     (case Option.bind var parse_usize of
        Some v \<Rightarrow> min (v * (1024 * 1024)) (2 ^ 64 - 1)
      | None \<Rightarrow> default_memory_budget_bytes)"

definition positive_setting :: "usize \<Rightarrow> str option \<Rightarrow> usize" where
  "positive_setting fallback var =
     (case Option.bind var parse_usize of Some v \<Rightarrow> if 0 < v then v else fallback | None \<Rightarrow> fallback)"

definition max_active_requests :: "str option \<Rightarrow> usize" where
  "max_active_requests var = positive_setting 64 var"

definition max_active_searches :: "str option \<Rightarrow> usize" where
  "max_active_searches var = positive_setting 2 var"

definition select_backend :: "str option \<Rightarrow> backend_preference \<Rightarrow> i64 \<Rightarrow> backend_preference" where
  "select_backend var requested records_total =
     (case requested of
        Auto \<Rightarrow>
          let budget = memory_budget_bytes var
          in if estimate_memory_bytes records_total \<le> budget then Memory
             else if estimate_compact_memory_bytes records_total \<le> budget then Compact
             else SqliteBackend
      | v \<Rightarrow> v)"

subsection \<open>Query strings\<close>

definition hex :: "char \<Rightarrow> nat option" where
  "hex c =
     (if 48 \<le> byte c \<and> byte c \<le> 57 then Some (byte c - 48)
      else if 97 \<le> byte c \<and> byte c \<le> 102 then Some (byte c - 97 + 10)
      else if 65 \<le> byte c \<and> byte c \<le> 70 then Some (byte c - 65 + 10)
      else None)"

text \<open>The loop over the bytes; \<open>index + 2 < bytes.len()\<close> says that two more bytes are there.\<close>

fun percent_bytes :: "str \<Rightarrow> str" where
  "percent_bytes [] = []"
| "percent_bytes (c # s) =
     (if c = CHR ''+'' then CHR '' '' # percent_bytes s
      else if c = CHR ''%'' then
        (case s of
           h # l # rest \<Rightarrow>
             (case (hex h, hex l) of
                (Some hi, Some lo) \<Rightarrow> char_of (16 * hi + lo) # percent_bytes rest
              | _ \<Rightarrow> c # percent_bytes s)
         | _ \<Rightarrow> c # percent_bytes s)
      else c # percent_bytes s)"

definition percent_decode :: "str \<Rightarrow> str" where
  "percent_decode value = to_string_lossy (percent_bytes value)"

definition split_target :: "str \<Rightarrow> str \<times> str" where
  "split_target target = (case split_once (CHR ''?'') target of Some (p, q) \<Rightarrow> (p, q) | None \<Rightarrow> (target, []))"

definition insert_param :: "str \<Rightarrow> (str \<rightharpoonup> str) \<Rightarrow> (str \<rightharpoonup> str)" where
  "insert_param part params =
     (let (k, v) = (case split_once (CHR ''='') part of Some kv \<Rightarrow> kv | None \<Rightarrow> (part, []))
      in params(percent_decode k \<mapsto> percent_decode v))"

definition parse_query :: "str \<Rightarrow> (str \<rightharpoonup> str)" where
  "parse_query q = fold insert_param (filter (\<lambda>part. part \<noteq> []) (split_on (\<lambda>c. c = CHR ''&'') q)) Map.empty"

definition flag_param :: "str option \<Rightarrow> bool" where
  "flag_param p = (case p of Some v \<Rightarrow> v = ''1'' \<or> eq_ignore_ascii_case v ''true'' | None \<Rightarrow> False)"

definition parse_search_options :: "(str \<Rightarrow> str) \<Rightarrow> str \<Rightarrow> error + search_options" where
  "parse_search_options ul text =
     (let params = parse_query text;
          q = (case params ''q'' of Some v \<Rightarrow> v | None \<Rightarrow> [])
      in if trim q = [] then Inl (Cli ''missing q parameter'')
         else Inr (default_options\<lparr>query := q,
           limit := (case Option.bind (params ''limit'') parse_usize of Some n \<Rightarrow> n | None \<Rightarrow> 80),
           ext := (case params ''ext'' of
               Some v \<Rightarrow> (let e = to_lowercase ul (trim_start_matches (\<lambda>ch. ch = ''.'') v)
                         in if e = [] then None else Some e)
             | None \<Rightarrow> None),
           kind := Option.bind (params ''kind'') (kind_parse ul),
           path_only := flag_param (params ''path''),
           fuzzy := flag_param (params ''fuzzy'')\<rparr>))"

subsection \<open>Tokens\<close>

definition authorization_value_matches :: "str \<Rightarrow> str \<Rightarrow> bool" where
  "authorization_value_matches value expected =
     (case split_whitespace value of
        [] \<Rightarrow> False
      | first # parts \<Rightarrow>
          if eq_ignore_ascii_case first ''bearer'' then parts = [expected] else value = expected)"

fun header_token :: "str list \<Rightarrow> str \<Rightarrow> bool" where
  "header_token [] expected = False"
| "header_token (line # lines) expected =
     (if line = [] then False
      else case split_once (CHR '':'') line of
             None \<Rightarrow> header_token lines expected
           | Some (name, value) \<Rightarrow>
               if eq_ignore_ascii_case name ''authorization''
               then authorization_value_matches (trim value) expected
               else header_token lines expected)"

definition request_has_valid_token :: "str \<Rightarrow> str \<Rightarrow> bool" where
  "request_has_valid_token request expected = header_token (tl (str_lines request)) expected"

subsection \<open>Requests and responses\<close>

definition request_header_limit :: usize where "request_header_limit = 64 * 1024"
definition read_buffer :: usize where "read_buffer = 8192"

text \<open>One result of \<open>read\<close>: bytes (none at the end of the stream), a timeout, or another error.\<close>

datatype read_result = Bytes str | Retry | Broken str

definition header_end :: str where "header_end = [CHR 0x0D, CHR 0x0A, CHR 0x0D, CHR 0x0A]"

text \<open>\<open>None\<close>: the request is not decided by these results yet.\<close>

fun read_loop :: "(bool \<times> read_result) list \<Rightarrow> str \<Rightarrow> (error + str) option" where
  "read_loop [] data = None"
| "read_loop ((timed_out, r) # rest) data =
     (if timed_out then Some (Inl (Cli ''request header timed out''))
      else case r of
             Retry \<Rightarrow> read_loop rest data
           | Broken e \<Rightarrow> Some (Inl (Io e))
           | Bytes b \<Rightarrow>
               if b = [] then Some (Inr data)
               else if contains (data @ b) header_end then Some (Inr (data @ b))
               else if request_header_limit \<le> length (data @ b) then Some (Inl (Cli ''request header is too large''))
               else read_loop rest (data @ b))"

definition read_request :: "(bool \<times> read_result) list \<Rightarrow> (error + str) option" where
  "read_request reads =
     map_option (\<lambda>r. case r of
          Inl e \<Rightarrow> Inl e
        | Inr data \<Rightarrow> if utf8_valid data then Inr data else Inl (Cli ''request is not utf-8''))
       (read_loop reads [])"

definition crlf :: str where "crlf = [CHR 0x0D, CHR 0x0A]"

definition write_response :: "str \<Rightarrow> str \<Rightarrow> str \<Rightarrow> str" where
  "write_response status content_type body =
     ''HTTP/1.1 '' @ status @ crlf @ ''Content-Type: '' @ content_type @ crlf
     @ ''Content-Length: '' @ nat_to_str (length body) @ crlf @ ''Connection: close'' @ crlf @ crlf @ body"

subsection \<open>Facts: query strings\<close>

text \<open>An encoder, as clients have it: kept bytes, and the others as two hexadecimal digits.\<close>

definition percent_encode_char :: "(char \<Rightarrow> bool) \<Rightarrow> char \<Rightarrow> str" where
  "percent_encode_char keep c =
     (if keep c \<and> c \<notin> set ''+%&='' then [c] else [CHR ''%'', hex_digit (byte c div 16), hex_digit (byte c mod 16)])"

definition percent_encode :: "(char \<Rightarrow> bool) \<Rightarrow> str \<Rightarrow> str" where
  "percent_encode keep s = concat (map (percent_encode_char keep) s)"

lemma hex_hex_digit: "n < 16 \<Longrightarrow> hex (hex_digit n) = Some n"
  by (auto simp: hex_def hex_digit_def byte_char_of)

lemma nibble: "byte c div 16 < 16"
  by (rule less_mult_imp_div_less) (use byte_less [of c] in simp)

lemma percent_bytes_char: "percent_bytes (percent_encode_char keep c @ s) = c # percent_bytes s"
proof (cases "keep c \<and> c \<notin> set ''+%&=''")
  case True
  then show ?thesis by (simp add: percent_encode_char_def)
next
  case False
  have "char_of (16 * (byte c div 16) + byte c mod 16) = c" by (simp add: byte_def)
  then show ?thesis using False nibble [of c] by (auto simp: percent_encode_char_def hex_hex_digit)
qed

lemma percent_decode_encode: "utf8_valid s \<Longrightarrow> percent_decode (percent_encode keep s) = s"
proof -
  have "percent_bytes (percent_encode keep s) = s"
    by (induction s) (simp_all add: percent_encode_def percent_bytes_char)
  then show "utf8_valid s \<Longrightarrow> percent_decode (percent_encode keep s) = s" by (simp add: percent_decode_def)
qed

lemma hex_digit_plain: "n < 16 \<Longrightarrow> hex_digit n \<notin> set ''+%&=''"
proof
  assume n: "n < 16" and "hex_digit n \<in> set ''+%&=''"
  then have "hex (hex_digit n) = None" by (auto simp: hex_def byte_def)
  then show False using hex_hex_digit [OF n] by simp
qed

lemma percent_encode_plain: "CHR ''&'' \<notin> set (percent_encode keep s)" "CHR ''='' \<notin> set (percent_encode keep s)"
proof -
  have "c \<notin> set (percent_encode_char keep x)" if "c \<in> set ''&=''" for c x
    using that hex_digit_plain [OF nibble [of x]] hex_digit_plain [of "byte x mod 16"]
    by (auto simp: percent_encode_char_def split: if_split_asm)
  then show "CHR ''&'' \<notin> set (percent_encode keep s)" "CHR ''='' \<notin> set (percent_encode keep s)"
    by (auto simp: percent_encode_def)
qed

definition encode_pair :: "(char \<Rightarrow> bool) \<Rightarrow> str \<times> str \<Rightarrow> str" where
  "encode_pair keep kv = percent_encode keep (fst kv) @ ''='' @ percent_encode keep (snd kv)"

lemma insert_encoded:
  assumes "utf8_valid k" and "utf8_valid v"
  shows "insert_param (encode_pair keep (k, v)) params = params(k \<mapsto> v)"
proof -
  have "split_once (CHR ''='') (encode_pair keep (k, v)) = Some (percent_encode keep k, percent_encode keep v)"
  proof -
    have "split_once (CHR ''='') (a @ CHR ''='' # b) = Some (a, b)" if "CHR ''='' \<notin> set a" for a b
      using that by (induction a) auto
    then show ?thesis using percent_encode_plain(2) [of keep k] by (simp add: encode_pair_def)
  qed
  then show ?thesis using assms by (simp add: insert_param_def percent_decode_encode)
qed

lemma split_on_join:
  assumes "\<And>w. w \<in> set ws \<Longrightarrow> CHR ''&'' \<notin> set w" and "ws \<noteq> []"
  shows "split_on (\<lambda>c. c = CHR ''&'') (join_with ''&'' ws) = ws"
  using assms
proof (induction ws)
  case (Cons w ws)
  show ?case
  proof (cases ws)
    case Nil
    have "split_on (\<lambda>c. c = CHR ''&'') w = [w]" by (rule split_on_no_sep) (use Cons.prems(1) in auto)
    then show ?thesis using Nil by simp
  next
    case (Cons v vs)
    have "split_on (\<lambda>c. c = CHR ''&'') (w @ CHR ''&'' # join_with ''&'' ws) = w # split_on (\<lambda>c. c = CHR ''&'') (join_with ''&'' ws)"
      by (rule split_on_append) (use Cons.prems(1) in auto)
    then show ?thesis using Cons Cons.IH Cons.prems(1) by simp
  qed
qed simp

text \<open>A query string that a client encodes is read back as its parameters, whatever bytes their
  keys and values have, with any choice of bytes left as they are; of a repeated key the last
  value counts.\<close>

theorem parse_query_roundtrip:
  assumes "\<forall>(k, v) \<in> set kvs. utf8_valid k \<and> utf8_valid v"
  shows "parse_query (join_with ''&'' (map (encode_pair keep) kvs)) = map_of (rev kvs)"
proof (cases "kvs = []")
  case True
  then show ?thesis by (simp add: parse_query_def)
next
  case False
  let ?parts = "map (encode_pair keep) kvs"
  have "split_on (\<lambda>c. c = CHR ''&'') (join_with ''&'' ?parts) = ?parts"
    by (rule split_on_join) (use False percent_encode_plain(1) in \<open>auto simp: encode_pair_def\<close>)
  moreover have "filter (\<lambda>part. part \<noteq> []) ?parts = ?parts"
    by (simp add: filter_id_conv encode_pair_def)
  moreover have "fold insert_param ?parts m = m ++ map_of (rev kvs)" for m
    using assms
  proof (induction kvs arbitrary: m)
    case (Cons kv kvs)
    obtain k v where kv: "kv = (k, v)" by fastforce
    have "insert_param (encode_pair keep (k, v)) m = m(k \<mapsto> v)" using Cons.prems kv by (intro insert_encoded) auto
    then show ?case using Cons kv by (simp add: map_add_def fun_eq_iff map_of_append split: option.splits)
  qed simp
  ultimately show ?thesis by (simp add: parse_query_def)
qed

theorem parse_query_roundtrip_witness:
  "parse_query (join_with ''&'' (map (encode_pair (\<lambda>_. False)) [(''q'', ''a b&c=%''), (''q'', [CHR 0xC3, CHR 0xA9])])) ''q'' =
     Some [CHR 0xC3, CHR 0xA9]"
proof -
  have "\<forall>(k, v) \<in> set [(''q'', ''a b&c=%''), (''q'', [CHR 0xC3, CHR 0xA9])]. utf8_valid k \<and> utf8_valid v" by code_simp
  from parse_query_roundtrip [OF this, of "\<lambda>_. False"] show ?thesis by simp
qed

subsection \<open>Facts: tokens\<close>

lemma trim_contains: "contains s (trim s)"
proof -
  have "\<exists>us. s = us @ trim_start_matches p s" for p
    unfolding trim_start_matches_def using concat_str_chars [of s] takeWhile_dropWhile_id [of p "str_chars s"]
    by (metis concat_append)
  moreover have "\<exists>vs. t = trim_end_matches p t @ vs" for p and t :: str
    unfolding trim_end_matches_def using concat_str_chars [of t] takeWhile_dropWhile_id [of p "rev (str_chars t)"]
    by (metis concat_append rev_append rev_rev_ident)
  ultimately show ?thesis unfolding trim_def contains_append by metis
qed

lemma contains_trans: "contains a b \<Longrightarrow> contains b c \<Longrightarrow> contains a c"
  by (auto simp: contains_append) (metis append.assoc)

lemma authorization_value_contains:
  "authorization_value_matches value expected \<Longrightarrow> contains value expected"
proof -
  assume m: "authorization_value_matches value expected"
  show "contains value expected"
  proof (cases "value = expected")
    case True
    then show ?thesis by (metis append_Nil append_Nil2 contains_append)
  next
    case False
    then have "expected \<in> set (split_whitespace value)"
      using m by (auto simp: authorization_value_matches_def split: list.splits if_splits)
    then show ?thesis by (rule split_whitespace_parts)
  qed
qed

text \<open>The lines of the header: those after the first one, up to an empty one.\<close>

definition header_lines :: "str \<Rightarrow> str list" where
  "header_lines request = takeWhile (\<lambda>line. line \<noteq> []) (tl (str_lines request))"

text \<open>No request passes the token check without the token: there is a header line, before the
  empty line, whose name is \<open>Authorization\<close> in some case and whose value contains the expected
  token, and it is the first such line that decides, not a later one.\<close>

theorem token_check_sound:
  assumes "request_has_valid_token request expected"
  shows "\<exists>pre line post name value. header_lines request = pre @ line # post \<and>
    split_once (CHR '':'') line = Some (name, value) \<and> eq_ignore_ascii_case name ''authorization'' \<and>
    contains value expected \<and>
    (\<forall>l \<in> set pre. case split_once (CHR '':'') l of
        Some (n, _) \<Rightarrow> \<not> eq_ignore_ascii_case n ''authorization'' | None \<Rightarrow> True)"
proof -
  have "header_token lines expected \<Longrightarrow>
      \<exists>pre line post name value. takeWhile (\<lambda>line. line \<noteq> []) lines = pre @ line # post \<and>
        split_once (CHR '':'') line = Some (name, value) \<and> eq_ignore_ascii_case name ''authorization'' \<and>
        contains value expected \<and>
        (\<forall>l \<in> set pre. case split_once (CHR '':'') l of
            Some (n, _) \<Rightarrow> \<not> eq_ignore_ascii_case n ''authorization'' | None \<Rightarrow> True)" for lines
  proof (induction lines)
    case (Cons line lines)
    have ne: "line \<noteq> []" using Cons.prems by auto
    show ?case
    proof (cases "\<exists>name value. split_once (CHR '':'') line = Some (name, value) \<and> eq_ignore_ascii_case name ''authorization''")
      case True
      then obtain name hv where nv: "split_once (CHR '':'') line = Some (name, hv)"
          "eq_ignore_ascii_case name ''authorization''" by blast
      then have "authorization_value_matches (trim hv) expected" using Cons.prems ne by simp
      then have "contains hv expected"
        using authorization_value_contains contains_trans [OF trim_contains] by blast
      then show ?thesis using nv ne
        by (intro exI [of _ "[]"] exI [of _ line] exI [of _ "takeWhile (\<lambda>line. line \<noteq> []) lines"]
            exI [of _ name] exI [of _ hv]) simp
    next
      case False
      then have "header_token lines expected" using Cons.prems ne by (auto split: option.splits)
      from Cons.IH [OF this] obtain pre l post name v where
        IH: "takeWhile (\<lambda>line. line \<noteq> []) lines = pre @ l # post" "split_once (CHR '':'') l = Some (name, v)"
          "eq_ignore_ascii_case name ''authorization''" "contains v expected"
          "\<forall>l \<in> set pre. case split_once (CHR '':'') l of Some (n, _) \<Rightarrow> \<not> eq_ignore_ascii_case n ''authorization'' | None \<Rightarrow> True"
        by blast
      then show ?thesis using False ne
        by (intro exI [of _ "line # pre"] exI [of _ l] exI [of _ post] exI [of _ name] exI [of _ v])
           (auto split: option.splits)
    qed
  qed simp
  from this [OF assms [unfolded request_has_valid_token_def]] show ?thesis by (simp add: header_lines_def)
qed

theorem token_check_sound_witness:
  "\<exists>line \<in> set (header_lines (''GET /status HTTP/1.1'' @ crlf @ ''Host: a'' @ crlf @ ''AUTHORIZATION: bearer t'' @ crlf @ crlf)).
     contains line ''bearer t''"
proof -
  let ?r = "''GET /status HTTP/1.1'' @ crlf @ ''Host: a'' @ crlf @ ''AUTHORIZATION: bearer t'' @ crlf @ crlf"
  have "request_has_valid_token ?r ''t''" by code_simp
  from token_check_sound [OF this] have "header_lines ?r \<noteq> []" by auto
  moreover have "header_lines ?r = [''Host: a'', ''AUTHORIZATION: bearer t'']" by code_simp
  moreover have "contains ''AUTHORIZATION: bearer t'' ''bearer t''" by code_simp
  ultimately show ?thesis by simp
qed

subsection \<open>Facts: requests and backends\<close>

lemma read_loop_bounded:
  assumes "\<forall>(t, r) \<in> set reads. case r of Bytes b \<Rightarrow> length b \<le> read_buffer | _ \<Rightarrow> True"
    and "length data < request_header_limit" and "read_loop reads data = Some (Inr d)"
  shows "length d < request_header_limit + read_buffer \<and> prefix data d \<and>
    (contains d header_end \<or> (\<exists>t. (t, Bytes []) \<in> set reads))"
  using assms
proof (induction reads data rule: read_loop.induct)
  case (2 timed_out r rest data)
  have rest: "\<forall>(t, r) \<in> set rest. case r of Bytes b \<Rightarrow> length b \<le> read_buffer | _ \<Rightarrow> True"
    using "2.prems"(1) by simp
  show ?case
  proof (cases r)
    case (Bytes b)
    have b: "length b \<le> read_buffer" using "2.prems"(1) Bytes by simp
    consider "b = []" | "b \<noteq> []" "contains (data @ b) header_end"
      | "b \<noteq> []" "\<not> contains (data @ b) header_end" "length (data @ b) < request_header_limit" "read_loop rest (data @ b) = Some (Inr d)"
      using "2.prems"(3) Bytes by (auto split: if_split_asm)
    then show ?thesis
    proof cases
      case 1
      then show ?thesis using "2.prems"(2,3) Bytes by (auto split: if_split_asm)
    next
      case 2
      then show ?thesis using "2.prems"(2,3) Bytes b by (auto split: if_split_asm)
    next
      case 3
      have "\<not> timed_out" using "2.prems"(3) by (auto split: if_split_asm)
      then have "length d < request_header_limit + read_buffer \<and> prefix (data @ b) d \<and>
          (contains d header_end \<or> (\<exists>t. (t, Bytes []) \<in> set rest))"
        using "2.IH"(1,2) 3 Bytes rest by simp
      then show ?thesis by (auto dest: append_prefixD)
    qed
  next
    case Retry
    then have "\<not> timed_out" "read_loop rest data = Some (Inr d)" using "2.prems"(3) by (auto split: if_split_asm)
    then show ?thesis using "2.IH"(1,2) Retry rest "2.prems"(2) by auto
  next
    case (Broken e)
    then show ?thesis using "2.prems"(3) by (simp split: if_split_asm)
  qed
qed simp

text \<open>However a client sends its request, in pieces of any size that the buffer takes, what is
  accepted is a text of less than 64 KiB plus one buffer, and it ends the header or the client
  closed the connection; the loop never keeps more than that.\<close>

theorem read_request_bounded:
  assumes "\<forall>(t, r) \<in> set reads. case r of Bytes b \<Rightarrow> length b \<le> read_buffer | _ \<Rightarrow> True"
    and "read_request reads = Some (Inr request)"
  shows "length request < request_header_limit + read_buffer \<and> utf8_valid request \<and>
    (contains request header_end \<or> (\<exists>t. (t, Bytes []) \<in> set reads))"
proof -
  have "read_loop reads [] = Some (Inr request)" "utf8_valid request"
    using assms(2) unfolding read_request_def
    by (cases "read_loop reads []"; simp split: sum.split_asm if_split_asm)+
  then show ?thesis using read_loop_bounded [OF assms(1), of "[]" request] by (simp add: request_header_limit_def)
qed

theorem read_request_bounded_witness:
  "length (''GET /health HTTP/1.1'' @ header_end) < request_header_limit + read_buffer"
proof -
  let ?reads = "[(False, Bytes ''GET /health''), (False, Retry), (False, Bytes ('' HTTP/1.1'' @ header_end))]"
  have a: "\<forall>(t, r) \<in> set ?reads. case r of Bytes b \<Rightarrow> length b \<le> read_buffer | _ \<Rightarrow> True"
    by (simp add: read_buffer_def header_end_def)
  have "contains (''GET /health HTTP/1.1'' @ header_end) header_end"
      "\<not> contains ''GET /health'' header_end" "utf8_valid (''GET /health HTTP/1.1'' @ header_end)" by code_simp+
  then have b: "read_request ?reads = Some (Inr (''GET /health HTTP/1.1'' @ header_end))"
    by (simp add: read_request_def request_header_limit_def)
  show ?thesis using read_request_bounded [OF a b] by blast
qed

text \<open>The automatic choice of a backend never takes an index whose estimate is over the budget, and
  takes the faster one whenever its estimate fits, for every number of records whose estimate
  fits in 64 bits.\<close>

theorem select_backend_within_budget:
  assumes "0 \<le> n" and "nat n * 900 < 2 ^ 64"
  shows "case select_backend var Auto n of
      Auto \<Rightarrow> False
    | Memory \<Rightarrow> nat n * 900 \<le> memory_budget_bytes var
    | Compact \<Rightarrow> nat n * 420 \<le> memory_budget_bytes var \<and> memory_budget_bytes var < nat n * 900
    | SqliteBackend \<Rightarrow> memory_budget_bytes var < nat n * 420"
  using assms
  by (simp add: select_backend_def Let_def estimate_memory_bytes_def estimate_compact_memory_bytes_def
      estimated_record_bytes_def estimated_compact_record_bytes_def)

theorem select_backend_within_budget_witness:
  "select_backend (Some ''1'') Auto 2000 = Compact \<and> 2000 * 420 \<le> memory_budget_bytes (Some ''1'')"
proof -
  have "select_backend (Some ''1'') Auto 2000 = Compact"
    by (simp add: select_backend_def memory_budget_bytes_def estimate_memory_bytes_def estimate_compact_memory_bytes_def
        estimated_record_bytes_def estimated_compact_record_bytes_def parse_usize_def parse_digits_def is_digit_def digits_value_def byte_def)
  then show ?thesis using select_backend_within_budget [of 2000 "Some ''1''"] by simp
qed

end
