(* ===== verification/Slots.thy ===== *)
theory Slots
  imports Http
begin

text \<open>
  The limits on concurrent requests and searches, \<open>try_acquire_request_slot\<close> and
  \<open>ActiveRequestGuard\<close> of \<open>src/src/server.rs\<close>, as a system of threads around one counter. Each
  atomic operation on the counter is one step, and the steps of different threads interleave.
\<close>

text \<open>
  Where a thread is: before the load, between the load and the compare-exchange, holding a
  guard, or refused.
\<close>

datatype slot_thread = Before | Loaded usize | Holding | Refused

record slots =
  sl_active :: usize
  sl_limit :: usize
  sl_threads :: "slot_thread list"

text \<open>The operations of thread \<open>i\<close>: the load, the compare-exchange, and dropping the guard.\<close>

definition slot_load :: "nat \<Rightarrow> slots \<Rightarrow> slots" where
  "slot_load i s =
     s\<lparr>sl_threads := (sl_threads s)[i := if sl_limit s \<le> sl_active s then Refused else Loaded (sl_active s)]\<rparr>"

definition slot_compare_exchange :: "nat \<Rightarrow> usize \<Rightarrow> slots \<Rightarrow> slots" where
  "slot_compare_exchange i current s =
     (if sl_active s = current
      then s\<lparr>sl_active := current + 1, sl_threads := (sl_threads s)[i := Holding]\<rparr>
      else s\<lparr>sl_threads := (sl_threads s)[i := Before]\<rparr>)"

definition slot_drop :: "nat \<Rightarrow> slots \<Rightarrow> slots" where
  "slot_drop i s = s\<lparr>sl_active := sl_active s - 1, sl_threads := (sl_threads s)[i := Before]\<rparr>"

text \<open>A thread that was refused or is done serves another request later.\<close>

inductive slot_step :: "slots \<Rightarrow> slots \<Rightarrow> bool" where
  step_load: "i < length (sl_threads s) \<Longrightarrow> sl_threads s ! i \<in> {Before, Refused} \<Longrightarrow> slot_step s (slot_load i s)"
| step_exchange: "i < length (sl_threads s) \<Longrightarrow> sl_threads s ! i = Loaded current \<Longrightarrow>
    slot_step s (slot_compare_exchange i current s)"
| step_drop: "i < length (sl_threads s) \<Longrightarrow> sl_threads s ! i = Holding \<Longrightarrow> slot_step s (slot_drop i s)"

inductive_cases slot_stepE: "slot_step s s'"

definition slots_new :: "usize \<Rightarrow> nat \<Rightarrow> slots" where
  "slots_new bound n = \<lparr>sl_active = 0, sl_limit = bound, sl_threads = replicate n Before\<rparr>"

definition holders :: "slots \<Rightarrow> nat" where
  "holders s = count_list (sl_threads s) Holding"

text \<open>The invariant; a thread between load and exchange read a value below the limit.\<close>

definition slots_ok :: "slots \<Rightarrow> bool" where
  "slots_ok s \<longleftrightarrow> sl_active s = holders s \<and> sl_active s \<le> sl_limit s \<and>
     (\<forall>c. Loaded c \<in> set (sl_threads s) \<longrightarrow> c < sl_limit s)"

lemma count_list_update:
  "i < length xs \<Longrightarrow> count_list (xs[i := y]) x + (if xs ! i = x then 1 else 0) = count_list xs x + (if y = x then 1 else 0)"
proof (induction xs arbitrary: i)
  case (Cons a xs)
  show ?case
  proof (cases i)
    case (Suc j)
    then show ?thesis using Cons.IH [of j] Cons.prems by (cases "y = x"; cases "xs ! j = x") auto
  qed simp
qed simp

lemma mem_update: "x \<in> set (xs[i := y]) \<Longrightarrow> x = y \<or> x \<in> set xs"
  using set_update_subset_insert by fastforce

lemma holding_counts: "i < length ts \<Longrightarrow> ts ! i = Holding \<Longrightarrow> 0 < count_list ts Holding"
  by (metis count_list_0_iff gr0I nth_mem)

lemma slot_step_ok:
  assumes "slot_step s s'" and "slots_ok s"
  shows "slots_ok s' \<and> sl_limit s' = sl_limit s"
  using assms
proof (cases rule: slot_step.cases)
  case (step_load i)
  then show ?thesis
    using assms(2) count_list_update [of i "sl_threads s" _ Holding]
    by (auto simp: slots_ok_def holders_def slot_load_def dest!: mem_update)
next
  case (step_exchange i current)
  have "current < sl_limit s"
    using assms(2) step_exchange nth_mem by (fastforce simp: slots_ok_def)
  then show ?thesis
    using assms(2) step_exchange count_list_update [of i "sl_threads s" _ Holding]
    by (auto simp: slots_ok_def holders_def slot_compare_exchange_def dest!: mem_update)
next
  case (step_drop i)
  then show ?thesis
    using assms(2) count_list_update [of i "sl_threads s" Before Holding] holding_counts [of i "sl_threads s"]
    by (auto simp: slots_ok_def holders_def slot_drop_def dest!: mem_update)
qed

text \<open>C39: Whatever the interleaving of the atomic operations of the threads, at most \<open>bound\<close> of them
  hold a guard at any time, and the counter is the number of guards: a compare-exchange that
  lost a race is retried, and no guard is counted twice or dropped twice.\<close>

theorem slots_never_exceeded:
  assumes "slot_step\<^sup>*\<^sup>* (slots_new bound n) s"
  shows "holders s \<le> bound \<and> sl_active s = holders s"
proof -
  have "slots_ok (slots_new bound n)"
    by (auto simp: slots_ok_def slots_new_def holders_def count_list_0_iff)
  with assms have "slots_ok s \<and> sl_limit s = bound"
    by (induction rule: rtranclp_induct) (auto dest: slot_step_ok simp: slots_new_def)
  then show ?thesis by (auto simp: slots_ok_def)
qed

theorem slots_never_exceeded_witness:
  "holders (slot_compare_exchange 0 0 (slot_load 1 (slot_load 0 (slots_new 1 2)))) \<le> 1"
proof -
  have "slot_step (slots_new 1 2) (slot_load 0 (slots_new 1 2))"
    by (rule step_load) (simp_all add: slots_new_def)
  moreover have "slot_step (slot_load 0 (slots_new 1 2)) (slot_load 1 (slot_load 0 (slots_new 1 2)))"
    by (rule step_load) (simp_all add: slots_new_def slot_load_def numeral_2_eq_2)
  moreover have "slot_step (slot_load 1 (slot_load 0 (slots_new 1 2)))
      (slot_compare_exchange 0 0 (slot_load 1 (slot_load 0 (slots_new 1 2))))"
    by (rule step_exchange) (simp_all add: slots_new_def slot_load_def numeral_2_eq_2)
  ultimately have "slot_step\<^sup>*\<^sup>* (slots_new 1 2) (slot_compare_exchange 0 0 (slot_load 1 (slot_load 0 (slots_new 1 2))))"
    by (meson rtranclp.rtrancl_into_rtrancl r_into_rtranclp)
  then show ?thesis using slots_never_exceeded by blast
qed

end
