(* ===== verification/Serve_Memory.thy ===== *)
theory Serve_Memory
  imports Compact_Index
begin

text \<open>
  The memory evidence of the search service, \<open>src/src/serve_memory.rs\<close>: the counters of the
  traffic, the snapshot of the counters of the index, the queue of captures between two flushes,
  and the log file with its one rotation. Clocks are numbers of milliseconds that the caller
  reads; the samples of the operating system (\<open>VmSample\<close>) are left out of the records.
\<close>

subsection \<open>Traffic\<close>

record traffic =
  tr_http_accepted :: u64
  tr_http_completed :: u64
  tr_http_rejected :: u64
  tr_searches_started :: u64
  tr_searches_completed :: u64

definition http_accept :: "traffic \<Rightarrow> traffic" where
  "http_accept t = t\<lparr>tr_http_accepted := tr_http_accepted t + 1\<rparr>"

definition http_complete :: "traffic \<Rightarrow> traffic" where
  "http_complete t = t\<lparr>tr_http_completed := tr_http_completed t + 1\<rparr>"

definition http_reject :: "traffic \<Rightarrow> traffic" where
  "http_reject t = t\<lparr>tr_http_rejected := tr_http_rejected t + 1\<rparr>"

definition search_start :: "traffic \<Rightarrow> traffic" where
  "search_start t = t\<lparr>tr_searches_started := tr_searches_started t + 1\<rparr>"

definition search_complete :: "traffic \<Rightarrow> traffic" where
  "search_complete t = t\<lparr>tr_searches_completed := tr_searches_completed t + 1\<rparr>"

subsection \<open>Snapshots\<close>

record index_memory =
  im_record_capacity_bytes :: usize
  im_metadata_capacity_bytes :: usize
  im_string_capacity_bytes :: usize
  im_string_used_bytes :: usize
  im_extension_capacity_bytes :: usize
  im_container_bytes :: usize
  im_prefix_string_bytes :: usize
  im_prefix_entry_capacity_bytes :: usize
  im_prefix_lookup_capacity_bytes :: usize
  im_prefix_entries :: usize
  im_narrow_metadata_blocks :: usize
  im_wide_metadata_blocks :: usize
  im_live_metadata_escapes :: usize

definition no_memory :: index_memory where
  "no_memory =
     \<lparr>im_record_capacity_bytes = 0, im_metadata_capacity_bytes = 0, im_string_capacity_bytes = 0,
      im_string_used_bytes = 0, im_extension_capacity_bytes = 0, im_container_bytes = 0,
      im_prefix_string_bytes = 0, im_prefix_entry_capacity_bytes = 0, im_prefix_lookup_capacity_bytes = 0,
      im_prefix_entries = 0, im_narrow_metadata_blocks = 0, im_wide_metadata_blocks = 0, im_live_metadata_escapes = 0\<rparr>"

text \<open>
  What the compiler and the standard library decide: the size of a record, the capacity of a block
  of records, and the bytes of the containers themselves.
\<close>

record heap_sizes =
  hs_record :: usize
  hs_block_capacity :: "compact_record list \<Rightarrow> usize"
  hs_containers :: "compact_index \<Rightarrow> usize"

definition live_escapes :: "metadata_block \<Rightarrow> usize" where
  "live_escapes b = (case b of Narrow v \<Rightarrow> length (nm_escapes v) - nm_free_count v | Wide _ _ \<Rightarrow> 0)"

definition memory_breakdown :: "heap_sizes \<Rightarrow> compact_index \<Rightarrow> index_memory" where
  "memory_breakdown h ix =
     \<lparr>im_record_capacity_bytes = sum_list (map (\<lambda>b. hs_block_capacity h b * hs_record h) (ci_records ix)),
      im_metadata_capacity_bytes = sum_list (map block_capacity_bytes (ci_metadata ix)),
      im_string_capacity_bytes = sum_list (map ar_capacity (ci_arenas ix)),
      im_string_used_bytes = sum_list (map (length \<circ> ar_text) (ci_arenas ix)),
      im_extension_capacity_bytes = sum_list (map length (ci_extensions ix)),
      im_container_bytes = hs_containers h ix,
      im_prefix_string_bytes = pp_string_bytes (ci_prefixes ix),
      im_prefix_entry_capacity_bytes = pp_values_capacity (ci_prefixes ix) * box_bytes,
      im_prefix_lookup_capacity_bytes = pp_slots_capacity (ci_prefixes ix) * slot_bytes,
      im_prefix_entries = length (pp_values (ci_prefixes ix)),
      im_narrow_metadata_blocks = length (filter (\<lambda>b. case b of Narrow _ \<Rightarrow> True | Wide _ _ \<Rightarrow> False) (ci_metadata ix)),
      im_wide_metadata_blocks = length (filter (\<lambda>b. case b of Narrow _ \<Rightarrow> False | Wide _ _ \<Rightarrow> True) (ci_metadata ix)),
      im_live_metadata_escapes = sum_list (map live_escapes (ci_metadata ix))\<rparr>"

definition u64_max :: nat where "u64_max = 2 ^ 64 - 1"

definition saturating_u64 :: "nat \<Rightarrow> nat \<Rightarrow> nat" where
  "saturating_u64 a b = min (a + b) u64_max"

text \<open>\<open>memory_usage_bytes\<close>, and the same sum in \<open>collect_memory\<close>.\<close>

definition capacity_bytes :: "index_memory \<Rightarrow> nat" where
  "capacity_bytes m =
     foldl saturating_u64 0
       [im_record_capacity_bytes m, im_metadata_capacity_bytes m, im_string_capacity_bytes m,
        im_extension_capacity_bytes m, im_container_bytes m, im_prefix_string_bytes m,
        im_prefix_entry_capacity_bytes m, im_prefix_lookup_capacity_bytes m]"

record snapshot =
  sn_phase :: str
  sn_backend :: str
  sn_revision :: "i64 option"
  sn_database_device :: "nat option"
  sn_database_inode :: "nat option"
  sn_database_token :: "nat option"
  sn_records :: usize
  sn_physical_records :: usize
  sn_capacity_bytes :: nat
  sn_memory :: index_memory
  sn_dead_records :: usize
  sn_dead_string_bytes :: usize
  sn_extension_growth_bytes :: usize
  sn_load_attempts :: nat
  sn_successful_loads :: nat
  sn_incremental_attempts :: nat
  sn_incremental_applies :: nat
  sn_incremental_change_ids :: nat
  sn_last_change_ids :: usize
  sn_method :: str
  sn_fallback_reason :: "str option"

definition snapshot_default :: snapshot where
  "snapshot_default =
     \<lparr>sn_phase = [], sn_backend = [], sn_revision = None, sn_database_device = None, sn_database_inode = None,
      sn_database_token = None, sn_records = 0, sn_physical_records = 0, sn_capacity_bytes = 0, sn_memory = no_memory,
      sn_dead_records = 0, sn_dead_string_bytes = 0, sn_extension_growth_bytes = 0, sn_load_attempts = 0,
      sn_successful_loads = 0, sn_incremental_attempts = 0, sn_incremental_applies = 0, sn_incremental_change_ids = 0,
      sn_last_change_ids = 0, sn_method = [], sn_fallback_reason = None\<rparr>"

definition set_fragmentation :: "fragmentation_stats \<Rightarrow> snapshot \<Rightarrow> snapshot" where
  "set_fragmentation v s =
     s\<lparr>sn_dead_records := fs_dead_records v, sn_dead_string_bytes := fs_dead_string_bytes v,
       sn_extension_growth_bytes := fs_extension_growth_bytes v,
       sn_physical_records := saturating_add (sn_records s) (fs_dead_records v)\<rparr>"

subsection \<open>The queue of captures\<close>

definition pending_records :: nat where "pending_records = 16"

record audit_record =
  au_snapshot :: snapshot
  au_at_ms :: nat
  au_snapshot_at_ms :: nat
  au_idle :: bool
  au_traffic :: traffic

record audit_state =
  as_enabled :: bool
  as_latest :: snapshot
  as_latest_at_ms :: nat
  as_pending :: "audit_record list"
  as_capture_window :: nat
  as_captures :: nat
  as_suppressed :: nat
  as_io_failures :: nat
  as_sequence :: nat

text \<open>
  \<open>update_at\<close>: \<open>now\<close> is the monotonic clock, \<open>ms\<close> and \<open>ms'\<close> the two looks at the wall clock.
\<close>

definition update_at :: "snapshot \<Rightarrow> nat \<Rightarrow> bool \<Rightarrow> nat \<Rightarrow> nat \<Rightarrow> traffic \<Rightarrow> audit_state \<Rightarrow> audit_state" where
  "update_at snap now capture_vm ms ms' t s =
     (if \<not> as_enabled s then s
      else let s1 = s\<lparr>as_latest := snap, as_latest_at_ms := ms\<rparr>
      in if \<not> capture_vm then s1
      else let s2 = (if 1000 \<le> now - as_capture_window s1 then s1\<lparr>as_capture_window := now, as_captures := 0\<rparr> else s1)
      in if 2 \<le> as_captures s2 then s2\<lparr>as_suppressed := saturating_u64 (as_suppressed s2) 1\<rparr>
      else let s3 = s2\<lparr>as_captures := as_captures s2 + 1\<rparr>;
               s4 = (if length (as_pending s3) = pending_records
                     then s3\<lparr>as_pending := tl (as_pending s3), as_suppressed := saturating_u64 (as_suppressed s3) 1\<rparr>
                     else s3)
      in s4\<lparr>as_pending := as_pending s4 @
              [\<lparr>au_snapshot = snap, au_at_ms = ms', au_snapshot_at_ms = as_latest_at_ms s4, au_idle = False, au_traffic = t\<rparr>]\<rparr>)"

definition publish_at :: "snapshot \<Rightarrow> nat \<Rightarrow> nat \<Rightarrow> nat \<Rightarrow> traffic \<Rightarrow> audit_state \<Rightarrow> audit_state" where
  "publish_at snap now ms ms' t s = update_at snap now True ms ms' t s"

definition cache_only :: "snapshot \<Rightarrow> nat \<Rightarrow> nat \<Rightarrow> nat \<Rightarrow> traffic \<Rightarrow> audit_state \<Rightarrow> audit_state" where
  "cache_only snap now ms ms' t s = update_at snap now False ms ms' t s"

definition audit_new :: "bool \<Rightarrow> nat \<Rightarrow> audit_state" where
  "audit_new enabled now =
     \<lparr>as_enabled = enabled, as_latest = snapshot_default, as_latest_at_ms = 0, as_pending = [], as_capture_window = now,
      as_captures = 0, as_suppressed = 0, as_io_failures = 0, as_sequence = 0\<rparr>"

text \<open>\<open>flush\<close> takes the queue, adds an idle record, and writes without the lock; what fails is counted.\<close>

definition flush_take :: "nat \<Rightarrow> traffic \<Rightarrow> audit_state \<Rightarrow> audit_record list \<times> audit_state" where
  "flush_take ms t s =
     (as_pending s @
        [\<lparr>au_snapshot = as_latest s, au_at_ms = ms, au_snapshot_at_ms = as_latest_at_ms s, au_idle = True, au_traffic = t\<rparr>],
      s\<lparr>as_pending := []\<rparr>)"

fun flush_write ::
  "(audit_record \<Rightarrow> nat \<Rightarrow> str) \<Rightarrow> (str \<Rightarrow> 'd \<Rightarrow> bool \<times> 'd) \<Rightarrow> audit_record list \<Rightarrow> nat \<Rightarrow> nat \<Rightarrow> 'd \<Rightarrow>
     bool \<times> nat \<times> nat \<times> 'd" where
  "flush_write line write [] sequence written d = (True, sequence, written, d)"
| "flush_write line write (r # rs) sequence written d =
     (let sequence' = saturating_u64 sequence 1
      in case write (line r sequence') d of
           (True, d') \<Rightarrow> flush_write line write rs sequence' (written + 1) d'
         | (False, d') \<Rightarrow> (False, sequence', written, d'))"

definition flush_done :: "bool \<Rightarrow> nat \<Rightarrow> nat \<Rightarrow> nat \<Rightarrow> audit_state \<Rightarrow> audit_state" where
  "flush_done ok sequence n written s =
     (let s1 = s\<lparr>as_sequence := sequence\<rparr>
      in if ok then s1
         else s1\<lparr>as_io_failures := saturating_u64 (as_io_failures s1) 1,
                 as_suppressed := saturating_u64 (as_suppressed s1) (n - written)\<rparr>)"

subsection \<open>The log file\<close>

definition file_bytes :: nat where "file_bytes = 512 * 1024"
definition record_bytes :: nat where "record_bytes = 4096"

text \<open>A name in the directory: whether it is a private regular file, and its text.\<close>

record audit_file =
  af_private :: bool
  af_text :: str

record audit_dir =
  ad_lock :: "audit_file option"
  ad_log :: "audit_file option"
  ad_previous :: "audit_file option"

definition private_file :: "audit_file option \<Rightarrow> audit_file option" where
  "private_file f =
     (case f of None \<Rightarrow> Some \<lparr>af_private = True, af_text = []\<rparr> | Some f \<Rightarrow> if af_private f then Some f else None)"

text \<open>
  \<open>append_record\<close>: \<open>locked\<close> is the answer of \<open>flock\<close>, \<open>same\<close> whether the opened file is still the
  one at its name. The result says whether the line was written.
\<close>

definition rotate_log :: "audit_dir \<Rightarrow> audit_dir option" where
  "rotate_log d =
     (case ad_previous d of
        Some p \<Rightarrow> if \<not> af_private p \<or> file_bytes < length (af_text p) then None
                  else Some (d\<lparr>ad_previous := ad_log d, ad_log := private_file None\<rparr>)
      | None \<Rightarrow> Some (d\<lparr>ad_previous := ad_log d, ad_log := private_file None\<rparr>))"

definition append_line :: "str \<Rightarrow> audit_dir \<Rightarrow> audit_dir" where
  "append_line line d = d\<lparr>ad_log := map_option (\<lambda>f. f\<lparr>af_text := af_text f @ line\<rparr>) (ad_log d)\<rparr>"

definition audit_append :: "bool \<Rightarrow> bool \<Rightarrow> str \<Rightarrow> audit_dir \<Rightarrow> bool \<times> audit_dir" where
  "audit_append locked same line d =
     (if record_bytes < length line then (False, d)
      else case private_file (ad_lock d) of
        None \<Rightarrow> (False, d)
      | Some lock \<Rightarrow>
          let d1 = d\<lparr>ad_lock := Some lock\<rparr>
          in if af_text lock \<noteq> [] \<or> \<not> locked then (False, d1)
          else (case private_file (ad_log d1) of
            None \<Rightarrow> (False, d1)
          | Some f \<Rightarrow>
              let d2 = d1\<lparr>ad_log := Some f\<rparr>
              in if \<not> same \<or> file_bytes < length (af_text f) then (False, d2)
              else if length (af_text f) + length line \<le> file_bytes then (True, append_line line d2)
              else case rotate_log d2 of
                None \<Rightarrow> (False, d2)
              | Some d3 \<Rightarrow> (True, append_line line d3)))"

subsection \<open>Facts\<close>

definition audit_ok :: "audit_state \<Rightarrow> bool" where
  "audit_ok s \<longleftrightarrow> length (as_pending s) \<le> pending_records \<and> as_captures s \<le> 2"

lemma audit_new_ok: "audit_ok (audit_new enabled now)"
  by (simp add: audit_ok_def audit_new_def)

lemma update_at_ok: "audit_ok s \<Longrightarrow> audit_ok (update_at snap now vm ms ms' t s)"
  by (auto simp: audit_ok_def update_at_def Let_def pending_records_def)

text \<open>Nothing is lost without a trace: a capture is queued or counted, and so is the one it drops.\<close>

lemma publish_at_counts:
  assumes "as_enabled s" and "as_suppressed s < u64_max"
  shows "length (as_pending (publish_at snap now ms ms' t s)) + as_suppressed (publish_at snap now ms ms' t s) =
    length (as_pending s) + as_suppressed s + 1"
  using assms by (auto simp: publish_at_def update_at_def Let_def saturating_u64_def pending_records_def)

lemma flush_write_result:
  "flush_write line write rs sequence written d = (ok, sequence', written', d') \<Longrightarrow>
     written \<le> written' \<and> written' \<le> written + length rs \<and> (ok \<longleftrightarrow> written' = written + length rs)"
proof (induction rs arbitrary: sequence written d)
  case (Cons r rs)
  then show ?case by (fastforce simp: Let_def split: prod.split_asm bool.split_asm)
qed simp

text \<open>The files of the evidence.\<close>

definition dir_texts :: "audit_dir \<Rightarrow> str" where
  "dir_texts d = (case ad_previous d of None \<Rightarrow> [] | Some p \<Rightarrow> af_text p) @ (case ad_log d of None \<Rightarrow> [] | Some f \<Rightarrow> af_text f)"

definition dir_bounded :: "audit_dir \<Rightarrow> bool" where
  "dir_bounded d \<longleftrightarrow>
     (\<forall>f. ad_log d = Some f \<longrightarrow> length (af_text f) \<le> file_bytes) \<and>
     (\<forall>f. ad_previous d = Some f \<longrightarrow> length (af_text f) \<le> file_bytes)"

lemma audit_append_ok:
  assumes "audit_append locked same line d = (ok, d')" and "dir_bounded d"
  shows "dir_bounded d' \<and> (if ok then \<exists>kept. suffix kept (dir_texts d) \<and> dir_texts d' = kept @ line \<and>
      suffix (case ad_log d of None \<Rightarrow> [] | Some f \<Rightarrow> af_text f) kept
    else dir_texts d' = dir_texts d)"
  using assms
  by (auto simp: audit_append_def dir_bounded_def dir_texts_def append_line_def rotate_log_def private_file_def Let_def
      record_bytes_def file_bytes_def suffix_def split: if_split_asm option.split_asm)

end
