(* ===== verification/Db_History.thy ===== *)
theory Db_History
  imports Packed_Delta
begin

text \<open>
  The life of one database file: the statements of the theory \<open>Change_Journal\<close>, and the
  migration \<open>init_file_changes\<close> of \<open>src/src/db.rs\<close> that installs the change journal in a database
  that has none. The content revision names the rows, and a delta is sound whatever happened
  to the file since its base.
\<close>

text \<open>\<open>init_file_changes\<close>: the table and the triggers are installed, and the coverage is reset.\<close>

definition init_file_changes :: "index_db \<Rightarrow> index_db" where
  "init_file_changes db =
     (if ix_has_journal db then db
      else db\<lparr>ix_journal := [], ix_floor := ix_revision db, ix_conflict := None, ix_has_journal := True\<rparr>)"

inductive db_move :: "(file_record list \<Rightarrow> i64) \<Rightarrow> index_db \<Rightarrow> index_db \<Rightarrow> bool" for alloc where
  move_step: "db_step alloc db db' \<Longrightarrow> db_move alloc db db'"
| move_migrate: "db_move alloc db (init_file_changes db)"

inductive_cases db_moveE: "db_move alloc db db'"

text \<open>A database is in order when its rows are and its journal, if it has one, is.\<close>

definition db_ok :: "index_db \<Rightarrow> bool" where
  "db_ok db \<longleftrightarrow> ix_ok db \<and> (ix_has_journal db \<longrightarrow> journal_ok db)"

text \<open>Without a journal the triggers still count the revision.\<close>

lemma plain_step:
  assumes step: "db_step alloc db db'" and ok: "ix_ok db" and j: "\<not> ix_has_journal db"
  shows "\<not> ix_has_journal db' \<and> ix_database_id db' = ix_database_id db \<and>
    (ix_revision db' = ix_revision db \<and> ix_files db' = ix_files db \<or> ix_revision db < ix_revision db')"
  using step
proof (cases rule: db_step.cases)
  case (step_insert r)
  then show ?thesis using j by (simp add: insert_row_def record_change_def set_conflict_def Let_def)
next
  case (step_update old r)
  let ?new = "r\<lparr>fr_id := fr_id old, fr_path := fr_path old\<rparr>"
  show ?thesis
  proof (cases "?new = old")
    case True
    have "ix_files (update_row old r db) = ix_files db" by (rule update_row_same [OF ok step_update(2) True])
    moreover have "update_row old r db = (set_conflict None db)\<lparr>ix_files := ix_files (update_row old r db)\<rparr>"
      using True by (simp add: update_row_def Let_def)
    ultimately show ?thesis unfolding step_update using j by (simp add: update_row_def set_conflict_def True Let_def)
  next
    case False
    then show ?thesis
      unfolding step_update update_row_def Let_def if_not_P [OF False]
      using j by (simp add: record_change_def set_conflict_def Let_def)
  qed
next
  case (step_delete i)
  then show ?thesis using j by (simp add: delete_row_def record_change_def Let_def)
qed (use j in \<open>simp_all add: set_conflict_def\<close>)

lemma step_floor:
  assumes step: "db_step alloc db db'"
  shows "ix_floor db \<le> ix_floor db'"
  using step
  by (cases rule: db_step.cases)
     (auto simp: insert_row_def update_row_def delete_row_def record_change_def set_conflict_def prune_changes_def Let_def)

text \<open>
  What the moves of a file add up to: its rows stay in order, the revision never falls, it
  names the rows, and a journal accounts for everything since the later of the base and its
  installation.
\<close>

definition moved :: "index_db \<Rightarrow> index_db \<Rightarrow> bool" where
  "moved db0 db \<longleftrightarrow>
     db_ok db \<and> ix_database_id db = ix_database_id db0 \<and> ix_revision db0 \<le> ix_revision db \<and>
     (ix_revision db = ix_revision db0 \<longrightarrow> row_with_id db = row_with_id db0) \<and>
     (ix_has_journal db0 \<longrightarrow> accounts db0 db) \<and>
     (ix_has_journal db \<longrightarrow> \<not> ix_has_journal db0 \<longrightarrow>
        (\<exists>db1. ix_ok db1 \<and> ix_revision db0 \<le> ix_revision db1 \<and> ix_revision db1 \<le> ix_floor db \<and>
           (ix_revision db1 = ix_revision db0 \<longrightarrow> row_with_id db1 = row_with_id db0) \<and> ix_has_journal db1 \<and>
           journal_ok db1 \<and> ix_database_id db1 = ix_database_id db0 \<and> accounts db1 db))"

lemma accounts_same_revision: "accounts db0 db \<Longrightarrow> ix_revision db = ix_revision db0 \<Longrightarrow> row_with_id db = row_with_id db0"
  using accounts_change [of db0 db] by fastforce

lemma moved_refl: "db_ok db \<Longrightarrow> moved db db"
  by (simp add: moved_def db_ok_def accounts_refl)

lemma moved_step:
  assumes m: "moved db0 db" and step: "db_step alloc db db'" and a: "alloc_ok alloc"
  shows "moved db0 db'"
proof -
  have ok: "ix_ok db" using m by (simp add: moved_def db_ok_def)
  have ok': "ix_ok db'" by (rule step_ok [OF step ok a])
  show ?thesis
  proof (cases "ix_has_journal db")
    case True
    then have acc: "accounts db db'" using step_accounts [OF step ok] m by (simp add: moved_def db_ok_def)
    have same: "row_with_id db' = row_with_id db0" if "ix_revision db' = ix_revision db0"
    proof -
      have "ix_revision db = ix_revision db'" using that m accounts_revision [OF acc] by (simp add: moved_def)
      then show ?thesis using that m accounts_same_revision [OF acc] by (simp add: moved_def)
    qed
    have j: "journal_ok db'" "ix_has_journal db'" "ix_database_id db' = ix_database_id db0" "ix_revision db0 \<le> ix_revision db'"
      using acc True m by (auto simp: accounts_def moved_def)
    have "accounts db0 db'" if "ix_has_journal db0" using that m accounts_trans [OF _ acc] by (simp add: moved_def)
    moreover have "\<exists>db1. ix_ok db1 \<and> ix_revision db0 \<le> ix_revision db1 \<and> ix_revision db1 \<le> ix_floor db' \<and>
        (ix_revision db1 = ix_revision db0 \<longrightarrow> row_with_id db1 = row_with_id db0) \<and> ix_has_journal db1 \<and>
        journal_ok db1 \<and> ix_database_id db1 = ix_database_id db0 \<and> accounts db1 db'" if "\<not> ix_has_journal db0"
      using that m True step_floor [OF step] accounts_trans [OF _ acc] unfolding moved_def by (meson order_trans)
    ultimately show ?thesis using ok' j same by (simp add: moved_def db_ok_def)
  next
    case False
    then have "\<not> ix_has_journal db0" using m by (auto simp: moved_def accounts_def)
    moreover have "row_with_id db' = row_with_id db0" if "ix_revision db' = ix_revision db0"
    proof -
      have "ix_files db' = ix_files db" "ix_revision db = ix_revision db0"
        using that plain_step [OF step ok False] m by (auto simp: moved_def)
      then show ?thesis using m by (simp add: moved_def row_with_id_def [abs_def])
    qed
    moreover have "ix_revision db0 \<le> ix_revision db'" "ix_database_id db' = ix_database_id db0" "\<not> ix_has_journal db'"
      using plain_step [OF step ok False] m by (auto simp: moved_def)
    ultimately show ?thesis using ok' by (simp add: moved_def db_ok_def)
  qed
qed

lemma moved_migrate:
  assumes m: "moved db0 db"
  shows "moved db0 (init_file_changes db)"
proof (cases "ix_has_journal db")
  case True
  then show ?thesis using m by (simp add: init_file_changes_def)
next
  case False
  let ?db = "init_file_changes db"
  have db: "ix_files ?db = ix_files db" "ix_revision ?db = ix_revision db" "ix_database_id ?db = ix_database_id db"
    "ix_floor ?db = ix_revision db" "ix_has_journal ?db" "journal_ok ?db"
    using False by (simp_all add: init_file_changes_def journal_ok_def)
  have "\<not> ix_has_journal db0" using m False by (auto simp: moved_def accounts_def)
  moreover have "ix_ok ?db" using m db(1) by (simp add: moved_def db_ok_def ix_ok_def)
  moreover have "row_with_id ?db = row_with_id db" by (simp add: row_with_id_def [abs_def] db(1))
  ultimately show ?thesis
    using m db accounts_refl [OF db(6)] unfolding moved_def db_ok_def by (auto intro!: exI [of _ ?db])
qed

lemma moves_moved:
  assumes "(db_move alloc)\<^sup>*\<^sup>* db0 db" and "alloc_ok alloc" and "db_ok db0"
  shows "moved db0 db"
  using assms(1)
proof (induction rule: rtranclp_induct)
  case base
  show ?case by (rule moved_refl) (rule assms(3))
next
  case (step db1 db2)
  from step(2) show ?case
  proof (cases rule: db_move.cases)
    case move_step
    then show ?thesis using moved_step [OF step(3) _ assms(2)] by blast
  next
    case move_migrate
    then show ?thesis using moved_migrate [OF step(3)] by simp
  qed
qed

lemma rows_by_id_eq: "row_with_id db = row_with_id db' \<Longrightarrow> rows_by_id ul db = rows_by_id ul db'"
  by (simp add: rows_by_id_def [abs_def])

lemma Available_journal:
  assumes "file_changes_since_with_byte_limit ul identity db base n k m = Available target changes"
  shows "ix_has_journal db" and "ix_revision db = cs_revision base \<or> ix_floor db \<le> cs_revision base"
  using assms by (auto simp: file_changes_since_with_byte_limit_def Let_def content_stamp_of_def split: if_split_asm)

text \<open>A delta is exact over every life of the file, a migration included.\<close>

lemma delta_moved:
  assumes m: "moved db0 db"
    and delta: "file_changes_since_with_byte_limit ul identity db (content_stamp_of identity db0) max_events max_ids max_bytes =
      Available target changes"
  shows "apply_changes changes (rows_by_id ul db0) = rows_by_id ul db"
proof (cases "ix_has_journal db0")
  case True
  then show ?thesis using delta_accounts [OF _ delta] m by (simp add: moved_def)
next
  case False
  have base: "cs_revision (content_stamp_of identity db0) = ix_revision db0" by (simp add: content_stamp_of_def)
  obtain db1 where db1: "ix_revision db0 \<le> ix_revision db1" "ix_revision db1 \<le> ix_floor db"
      "ix_revision db1 = ix_revision db0 \<longrightarrow> row_with_id db1 = row_with_id db0"
      "ix_database_id db1 = ix_database_id db0" "accounts db1 db"
    using m False Available_journal(1) [OF delta] unfolding moved_def by blast
  show ?thesis
  proof (cases "ix_revision db = ix_revision db0")
    case True
    then have "changes = []"
      using delta Available_journal(1) [OF delta] base
      by (auto simp: file_changes_since_with_byte_limit_def Let_def content_stamp_of_def split: if_split_asm)
    moreover have "rows_by_id ul db = rows_by_id ul db0" using True m by (intro rows_by_id_eq) (simp add: moved_def)
    ultimately show ?thesis by (simp add: apply_changes_def [abs_def])
  next
    case False
    then have same: "ix_revision db1 = ix_revision db0"
      using Available_journal(2) [OF delta] base db1(1,2) by simp
    then have "content_stamp_of identity db0 = content_stamp_of identity db1" using db1(4) by (simp add: content_stamp_of_def)
    then show ?thesis using delta_accounts [OF db1(5)] delta db1(3) same rows_by_id_eq by metis
  qed
qed

lemma moved_same_stamp:
  assumes "moved db0 db" and "content_stamp_of i db0 = content_stamp_of j db"
  shows "rows_by_id ul db = rows_by_id ul db0"
  using assms by (intro rows_by_id_eq) (auto simp: moved_def content_stamp_of_def)

end
