(* ===== verification/Db_Access.thy ===== *)
theory Db_Access
  imports Db_History Http
begin

text \<open>
  Access to a database that other processes write and replace meanwhile: opening a connection,
  reading the content stamp, \<open>ContentObserver\<close> of \<open>src/src/db.rs\<close>, and \<open>with_read_snapshot\<close> of
  \<open>src/src/server.rs\<close>.

  Every look at the file system or through a connection happens at a moment; moments are
  numbered in the order of the looks of this process, and the world says what is there at each
  moment. A statement may fail at any moment.
\<close>

type_synonym identity = "nat \<times> nat"

record disk =
  dk_at_path :: "error + identity"
  dk_content :: "identity \<Rightarrow> error + index_db"

type_synonym world = "nat \<Rightarrow> disk"

text \<open>A computation with looks: from the number of the next look to a result and the next look.\<close>

type_synonym 'a io = "nat \<Rightarrow> (error + 'a) \<times> nat"

definition io_return :: "'a \<Rightarrow> 'a io" where
  "io_return x n = (Inr x, n)"

definition io_fail :: "error \<Rightarrow> 'a io" where
  "io_fail e n = (Inl e, n)"

text \<open>The operator \<open>?\<close>.\<close>

definition io_bind :: "'a io \<Rightarrow> ('a \<Rightarrow> 'b io) \<Rightarrow> 'b io" where
  "io_bind m f n = (case m n of (Inl e, n') \<Rightarrow> (Inl e, n') | (Inr x, n') \<Rightarrow> f x n')"

text \<open>\<open>let _ = m;\<close>: the looks happen, the result is dropped.\<close>

definition io_ignore :: "'a io \<Rightarrow> 'b io \<Rightarrow> 'b io" where
  "io_ignore m k n = k (snd (m n))"

subsection \<open>Files and connections\<close>

definition file_identity_at :: "world \<Rightarrow> identity io" where
  "file_identity_at w n = (dk_at_path (w n), n + 1)"

text \<open>A connection: the file it has open, and the identity that \<open>Database\<close> remembers for it.\<close>

record db_conn =
  cn_file :: identity
  cn_identity :: identity

definition replaced_while_opening :: error where
  "replaced_while_opening = Sqlite ''database replaced while opening; retry''"

text \<open>One statement through a connection.\<close>

definition statement :: "world \<Rightarrow> identity \<Rightarrow> index_db io" where
  "statement w file n = (dk_content (w n) file, n + 1)"

text \<open>\<open>Connection::open_read_only\<close> opens what is at the path at its own moment.\<close>

definition open_read_only :: "world \<Rightarrow> db_conn io" where
  "open_read_only w =
     io_bind (file_identity_at w) (\<lambda>before.
     io_bind (file_identity_at w) (\<lambda>file.
     io_bind (file_identity_at w) (\<lambda>identity.
       if identity \<noteq> before then io_fail replaced_while_opening
       else io_return \<lparr>cn_file = file, cn_identity = identity\<rparr>)))"

text \<open>\<open>open_existing\<close> also migrates the file; the migration itself is a move of the file (\<open>Db_History\<close>).\<close>

definition open_existing :: "world \<Rightarrow> db_conn io" where
  "open_existing w =
     io_bind (open_read_only w) (\<lambda>conn. io_bind (statement w (cn_file conn)) (\<lambda>_. io_return conn))"

text \<open>\<open>Database::open\<close> may create the file; then there is no identity before.\<close>

definition not_found :: error where "not_found = Io ''No such file or directory (os error 2)''"

definition database_open :: "world \<Rightarrow> db_conn io" where
  "database_open w n =
     (case file_identity_at w n of
        (Inl e, n1) \<Rightarrow>
          if e \<noteq> not_found then (Inl e, n1)
          else io_bind (file_identity_at w) (\<lambda>opened. io_bind (file_identity_at w) (\<lambda>identity.
                 io_bind (statement w opened) (\<lambda>_. io_return \<lparr>cn_file = opened, cn_identity = identity\<rparr>))) n1
      | (Inr before, n1) \<Rightarrow>
          io_bind (file_identity_at w) (\<lambda>opened. io_bind (file_identity_at w) (\<lambda>identity.
            if before \<noteq> identity then io_fail replaced_while_opening
            else io_bind (statement w opened) (\<lambda>_. io_return \<lparr>cn_file = opened, cn_identity = identity\<rparr>))) n1)"

definition conn_stamp :: "world \<Rightarrow> db_conn \<Rightarrow> content_stamp io" where
  "conn_stamp w conn =
     io_bind (statement w (cn_file conn)) (\<lambda>db. io_return (content_stamp_of (cn_identity conn) db))"

definition has_change_journal :: "world \<Rightarrow> db_conn \<Rightarrow> bool io" where
  "has_change_journal w conn = io_bind (statement w (cn_file conn)) (\<lambda>db. io_return (ix_has_journal db))"

subsection \<open>The observer\<close>

text \<open>
  \<open>ContentObserver::content_stamp\<close>: the connection is kept as long as the file at the path is
  the one it has open, and dropped after every failure.
\<close>

definition observe :: "world \<Rightarrow> db_conn option \<Rightarrow> nat \<Rightarrow> (error + content_stamp) \<times> db_conn option \<times> nat" where
  "observe w database n =
     (case file_identity_at w n of
        (Inl e, n1) \<Rightarrow> (Inl e, None, n1)
      | (Inr identity, n1) \<Rightarrow>
          (case (if (case database of None \<Rightarrow> True | Some conn \<Rightarrow> cn_identity conn \<noteq> identity)
                 then open_read_only w n1 else (Inr (the database), n1)) of
             (Inl e, n2) \<Rightarrow> (Inl e, None, n2)
           | (Inr conn, n2) \<Rightarrow>
               (case conn_stamp w conn n2 of
                  (Inl e, n3) \<Rightarrow> (Inl e, None, n3)
                | (Inr stamp, n3) \<Rightarrow> (Inr stamp, Some conn, n3))))"

subsection \<open>Read snapshots\<close>

text \<open>
  A statement inside a transaction sees the pinned snapshot, or fails at its moment.
\<close>

definition pinned :: "world \<Rightarrow> db_conn \<Rightarrow> index_db \<Rightarrow> index_db io" where
  "pinned w conn db = io_bind (statement w (cn_file conn)) (\<lambda>_. io_return db)"

text \<open>
  \<open>with_read_snapshot\<close>: \<open>BEGIN\<close>, the stamp that pins the snapshot, the reads, \<open>COMMIT\<close>; after an
  error the transaction is rolled back and the error returned.
\<close>

definition with_read_snapshot ::
  "world \<Rightarrow> db_conn \<Rightarrow> (content_stamp \<Rightarrow> index_db \<Rightarrow> 'a io) \<Rightarrow> (content_stamp \<times> 'a) io" where
  "with_read_snapshot w conn read =
     io_bind (statement w (cn_file conn)) (\<lambda>_ n.
       case io_bind (statement w (cn_file conn)) (\<lambda>db.
              let stamp = content_stamp_of (cn_identity conn) db
              in io_bind (read stamp db) (\<lambda>v. io_return (stamp, v))) n of
         (Inl e, n1) \<Rightarrow> io_ignore (statement w (cn_file conn)) (io_fail e) n1
       | (Inr r, n1) \<Rightarrow>
           (case statement w (cn_file conn) n1 of
              (Inl e, n2) \<Rightarrow> io_ignore (statement w (cn_file conn)) (io_fail e) n2
            | (Inr _, n2) \<Rightarrow> (Inr r, n2)))"

subsection \<open>Facts\<close>

lemma io_bind_Inr: "io_bind m f n = (Inr y, n'') \<longleftrightarrow> (\<exists>x n'. m n = (Inr x, n') \<and> f x n' = (Inr y, n''))"
  by (auto simp: io_bind_def split: prod.split sum.split)

lemma io_return_Inr: "io_return x n = (Inr y, n') \<longleftrightarrow> y = x \<and> n' = n"
  by (auto simp: io_return_def)

lemma io_fail_Inr [simp]: "io_fail e n = (Inr y, n') \<longleftrightarrow> False"
  by (simp add: io_fail_def)

lemmas io_Inr = io_bind_Inr io_return_Inr io_fail_Inr

text \<open>
  What is assumed of the world: whatever is read at the path is a database in order, and a
  file with the same identity and the same database identifier only makes the moves of
  \<open>Db_History\<close>. While a connection is opened the path does not change to another file and back.
\<close>

definition world_ok :: "(file_record list \<Rightarrow> i64) \<Rightarrow> (str \<Rightarrow> str) \<Rightarrow> world \<Rightarrow> bool" where
  "world_ok alloc ul w \<longleftrightarrow>
     (\<forall>n i db. dk_content (w n) i = Inr db \<longrightarrow>
        db_ok db \<and> (\<forall>r \<in> set (ix_files db). file_valid (row_to_record ul r))) \<and>
     (\<forall>m n i db db'. m \<le> n \<longrightarrow> dk_content (w m) i = Inr db \<longrightarrow> dk_content (w n) i = Inr db' \<longrightarrow>
        ix_database_id db' = ix_database_id db \<longrightarrow> (db_move alloc)\<^sup>*\<^sup>* db db') \<and>
     (\<forall>n i. dk_at_path (w n) = Inr i \<longrightarrow> dk_at_path (w (n + 2)) = Inr i \<longrightarrow>
        (\<forall>j. dk_at_path (w (n + 1)) = Inr j \<longrightarrow> j = i))"

lemma world_content: "world_ok alloc ul w \<Longrightarrow> dk_content (w n) i = Inr db \<Longrightarrow> db_ok db"
  unfolding world_ok_def by blast

lemma world_rows:
  "world_ok alloc ul w \<Longrightarrow> dk_content (w n) i = Inr db \<Longrightarrow> \<forall>r \<in> set (ix_files db). file_valid (row_to_record ul r)"
  unfolding world_ok_def by blast

lemma world_moves:
  "world_ok alloc ul w \<Longrightarrow> m \<le> n \<Longrightarrow> dk_content (w m) i = Inr db \<Longrightarrow> dk_content (w n) i = Inr db' \<Longrightarrow>
     ix_database_id db' = ix_database_id db \<Longrightarrow> (db_move alloc)\<^sup>*\<^sup>* db db'"
  unfolding world_ok_def by blast

lemma world_path:
  "world_ok alloc ul w \<Longrightarrow> dk_at_path (w n) = Inr i \<Longrightarrow> dk_at_path (w (n + 2)) = Inr i \<Longrightarrow>
     dk_at_path (w (n + 1)) = Inr j \<Longrightarrow> j = i"
  unfolding world_ok_def by blast

lemma open_read_only_ok:
  assumes "world_ok alloc ul w" and "open_read_only w n = (Inr conn, n')"
  shows "cn_file conn = cn_identity conn \<and> n' = n + 3 \<and> dk_at_path (w (n + 2)) = Inr (cn_identity conn)"
proof -
  obtain before f i where at: "dk_at_path (w n) = Inr before" "dk_at_path (w (n + 1)) = Inr f"
      "dk_at_path (w (n + 2)) = Inr i" "i = before" "conn = \<lparr>cn_file = f, cn_identity = i\<rparr>" "n' = n + 3"
    using assms(2) by (auto simp: open_read_only_def io_Inr file_identity_at_def split: if_split_asm)
  then show ?thesis using world_path [OF assms(1), of n before f] by simp
qed

text \<open>A stamp that was read names a snapshot that was there at some moment.\<close>

definition stamped :: "world \<Rightarrow> nat \<Rightarrow> content_stamp \<Rightarrow> index_db \<Rightarrow> bool" where
  "stamped w n stamp db \<longleftrightarrow>
     (\<exists>m < n. dk_content (w m) (cs_identity stamp) = Inr db) \<and> stamp = content_stamp_of (cs_identity stamp) db"

lemma stamped_later: "stamped w n stamp db \<Longrightarrow> n \<le> n' \<Longrightarrow> stamped w n' stamp db"
  unfolding stamped_def by (meson order_less_le_trans)

lemma content_stamp_identity [simp]: "cs_identity (content_stamp_of i db) = i"
  by (simp add: content_stamp_of_def)

lemma conn_stamp_ok:
  assumes "conn_stamp w conn n = (Inr stamp, n')" and "cn_file conn = cn_identity conn"
  shows "n' = n + 1 \<and> (\<exists>db. dk_content (w n) (cs_identity stamp) = Inr db \<and> stamp = content_stamp_of (cs_identity stamp) db)"
  using assms by (auto simp: conn_stamp_def io_Inr statement_def)

text \<open>Two snapshots with the same stamp have the same rows, whichever was seen first.\<close>

lemma stamped_unique:
  assumes world: "world_ok alloc ul0 w" and a: "alloc_ok alloc"
    and s: "stamped w n stamp db" "stamped w n stamp db'"
  shows "rows_by_id ul db = rows_by_id ul db'"
proof -
  obtain m where m: "dk_content (w m) (cs_identity stamp) = Inr db" "stamp = content_stamp_of (cs_identity stamp) db"
    using s(1) by (auto simp: stamped_def)
  obtain m' where m': "dk_content (w m') (cs_identity stamp) = Inr db'" "stamp = content_stamp_of (cs_identity stamp) db'"
    using s(2) by (auto simp: stamped_def)
  have same: "content_stamp_of (cs_identity stamp) db = content_stamp_of (cs_identity stamp) db'" using m(2) m'(2) by simp
  then have id: "ix_database_id db = ix_database_id db'" by (simp add: content_stamp_of_def)
  have ok: "db_ok db" "db_ok db'" using world_content [OF world] m(1) m'(1) by blast+
  show ?thesis
  proof (cases "m \<le> m'")
    case True
    then have "(db_move alloc)\<^sup>*\<^sup>* db db'" using world_moves [OF world _ m(1) m'(1)] id by simp
    then show ?thesis using moved_same_stamp [OF moves_moved [OF _ a ok(1)] same] by metis
  next
    case False
    then have "(db_move alloc)\<^sup>*\<^sup>* db' db" using world_moves [OF world _ m'(1) m(1)] id by simp
    then show ?thesis using moved_same_stamp [OF moves_moved [OF _ a ok(2)] same [symmetric]] by metis
  qed
qed

subsection \<open>Time goes on\<close>

named_theorems io_rules

definition io_mono :: "'a io \<Rightarrow> bool" where
  "io_mono m \<longleftrightarrow> (\<forall>n. n \<le> snd (m n))"

lemma io_mono_look: "io_mono m \<Longrightarrow> m n = (r, n') \<Longrightarrow> n \<le> n'"
  unfolding io_mono_def by (metis snd_conv)

lemma io_mono_basic [io_rules]:
  "io_mono (io_return x)" "io_mono (io_fail e)" "io_mono (statement w f)" "io_mono (file_identity_at w)"
  by (simp_all add: io_mono_def io_return_def io_fail_def statement_def file_identity_at_def)

lemma io_mono_bind [io_rules]:
  assumes "io_mono m" and "\<And>x. io_mono (f x)"
  shows "io_mono (io_bind m f)"
  unfolding io_mono_def
proof
  fix n
  obtain r n1 where m: "m n = (r, n1)" by (cases "m n")
  then have "n \<le> n1" by (rule io_mono_look [OF assms(1)])
  moreover have "n1 \<le> snd (f x n1)" for x using assms(2) by (simp add: io_mono_def)
  ultimately show "n \<le> snd (io_bind m f n)" using m by (cases r) (auto simp: io_bind_def intro: order_trans)
qed

lemma io_mono_if [io_rules]: "io_mono m \<Longrightarrow> io_mono m' \<Longrightarrow> io_mono (if b then m else m')"
  by simp

lemma io_mono_open [io_rules]: "io_mono (open_read_only w)"
  unfolding open_read_only_def by (intro io_rules)

lemma io_mono_statements [io_rules]:
  "io_mono (open_existing w)" "io_mono (conn_stamp w conn)" "io_mono (has_change_journal w conn)" "io_mono (pinned w conn db)"
  unfolding open_existing_def conn_stamp_def has_change_journal_def pinned_def by (intro io_rules)+

lemma with_read_snapshot_Inr:
  assumes "with_read_snapshot w conn read n = (Inr (stamp, v), n')"
  shows "\<exists>db k. dk_content (w (n + 1)) (cn_file conn) = Inr db \<and> stamp = content_stamp_of (cn_identity conn) db \<and>
    read stamp db (n + 2) = (Inr v, k) \<and> n' = k + 1"
proof -
  let ?body = "io_bind (statement w (cn_file conn)) (\<lambda>db.
      let stamp = content_stamp_of (cn_identity conn) db in io_bind (read stamp db) (\<lambda>v. io_return (stamp, v)))"
  obtain n1 where n1: "n1 = n + 1" and body: "(case ?body n1 of
         (Inl e, n1) \<Rightarrow> io_ignore (statement w (cn_file conn)) (io_fail e) n1
       | (Inr r, n1) \<Rightarrow>
           (case statement w (cn_file conn) n1 of
              (Inl e, n2) \<Rightarrow> io_ignore (statement w (cn_file conn)) (io_fail e) n2
            | (Inr _, n2) \<Rightarrow> (Inr r, n2))) = (Inr (stamp, v), n')"
    using assms unfolding with_read_snapshot_def by (auto simp: io_bind_Inr statement_def)
  obtain r n2 where r: "?body n1 = (r, n2)" by (cases "?body n1")
  obtain sv where sv: "r = Inr sv" using body r by (cases r) (simp_all add: io_ignore_def)
  then have "sv = (stamp, v)" "n' = n2 + 1"
    using body r by (auto simp: statement_def io_ignore_def split: sum.split_asm)
  then show ?thesis using r sv n1 by (auto simp: io_bind_Inr io_return_Inr statement_def Let_def)
qed

lemma io_mono_snapshot [io_rules]:
  assumes "\<And>stamp db. io_mono (read stamp db)"
  shows "io_mono (with_read_snapshot w conn read)"
proof -
  let ?body = "io_bind (statement w (cn_file conn)) (\<lambda>db.
      let stamp = content_stamp_of (cn_identity conn) db in io_bind (read stamp db) (\<lambda>v. io_return (stamp, v)))"
  have "io_mono ?body" unfolding Let_def by (intro io_rules assms)
  then have body: "n \<le> snd (?body n)" for n by (simp add: io_mono_def)
  show ?thesis
    unfolding with_read_snapshot_def
  proof (rule io_mono_bind)
    show "io_mono (\<lambda>n. case ?body n of
         (Inl e, n1) \<Rightarrow> io_ignore (statement w (cn_file conn)) (io_fail e) n1
       | (Inr r, n1) \<Rightarrow>
           (case statement w (cn_file conn) n1 of
              (Inl e, n2) \<Rightarrow> io_ignore (statement w (cn_file conn)) (io_fail e) n2
            | (Inr _, n2) \<Rightarrow> (Inr r, n2)))"
      unfolding io_mono_def
    proof
      fix n
      obtain r n1 where r: "?body n = (r, n1)" by (cases "?body n")
      have "n \<le> n1" using body [of n] r by simp
      then show "n \<le> snd (case ?body n of
         (Inl e, n1) \<Rightarrow> io_ignore (statement w (cn_file conn)) (io_fail e) n1
       | (Inr r, n1) \<Rightarrow>
           (case statement w (cn_file conn) n1 of
              (Inl e, n2) \<Rightarrow> io_ignore (statement w (cn_file conn)) (io_fail e) n2
            | (Inr _, n2) \<Rightarrow> (Inr r, n2)))"
        unfolding r by (auto simp: io_ignore_def io_fail_def statement_def split: sum.split)
    qed
  qed (intro io_rules)
qed

lemma observe_mono:
  assumes "observe w database n = (r, database', n')"
  shows "n \<le> n'"
proof -
  obtain i n1 where i: "file_identity_at w n = (i, n1)" by (cases "file_identity_at w n")
  have n1: "n \<le> n1" using io_mono_look [OF io_mono_basic(4) i] .
  have "n1 \<le> n2" if "open_read_only w n1 = (c, n2)" for c n2 using io_mono_look [OF io_mono_open that] .
  moreover have "n2 \<le> n3" if "conn_stamp w conn n2 = (c, n3)" for conn c n2 n3 using io_mono_look [OF io_mono_statements(2) that] .
  ultimately show ?thesis using assms i n1
    by (fastforce simp: observe_def split: sum.split_asm prod.split_asm if_split_asm)
qed

text \<open>A stamp that the observer returns was read at the file that the connection names.\<close>

definition observer_ok :: "db_conn option \<Rightarrow> bool" where
  "observer_ok database \<longleftrightarrow> (\<forall>conn. database = Some conn \<longrightarrow> cn_file conn = cn_identity conn)"

lemma observe_ok:
  assumes world: "world_ok alloc ul w" and ok: "observer_ok database"
    and run: "observe w database n = (r, database', n')"
  shows "observer_ok database' \<and>
    (\<forall>stamp. r = Inr stamp \<longrightarrow>
       (\<exists>m db. n \<le> m \<and> m < n' \<and> dk_content (w m) (cs_identity stamp) = Inr db \<and> stamp = content_stamp_of (cs_identity stamp) db))"
proof (cases "file_identity_at w n")
  case (Pair i n1)
  have n1: "n \<le> n1" using io_mono_look [OF io_mono_basic(4) Pair] .
  show ?thesis
  proof (cases i)
    case (Inl e)
    then show ?thesis using run Pair by (auto simp: observe_def observer_ok_def)
  next
    case (Inr identity)
    let ?open = "if (case database of None \<Rightarrow> True | Some conn \<Rightarrow> cn_identity conn \<noteq> identity)
      then open_read_only w n1 else (Inr (the database), n1)"
    obtain c n2 where c: "?open = (c, n2)" by (cases ?open)
    have n2: "n1 \<le> n2" using c io_mono_look [OF io_mono_open, of w n1 c n2] by (auto split: if_split_asm)
    show ?thesis
    proof (cases c)
      case (Inl e)
      then show ?thesis using run Pair Inr c by (auto simp: observe_def observer_ok_def)
    next
      case (Inr conn)
      have same: "cn_file conn = cn_identity conn"
        using c Inr ok open_read_only_ok [OF world, of n1 conn n2]
        by (auto simp: observer_ok_def split: if_split_asm option.split_asm)
      obtain s n3 where s: "conn_stamp w conn n2 = (s, n3)" by (cases "conn_stamp w conn n2")
      have "(r, database', n') = (case s of Inl e \<Rightarrow> (Inl e, None, n3) | Inr stamp \<Rightarrow> (Inr stamp, Some conn, n3))"
        using run Pair \<open>i = Inr identity\<close> c Inr s by (auto simp: observe_def split: sum.split)
      then show ?thesis
        using conn_stamp_ok [of w conn n2 _ n3] s same n1 n2
        by (cases s) (auto simp: observer_ok_def intro!: exI [of _ n2])
    qed
  qed
qed

end
