(* ===== verification/Db_Status.thy ===== *)
theory Db_Status
  imports Index_Db Rust_Lossy
begin

text \<open>
  What the program reports of a database, \<open>stats\<close> and \<open>bootstrap_status\<close> of \<open>src/src/db.rs\<close>: the counts
  of the rows by their kind, and the configuration it was built with.
\<close>

record index_stats =
  st_files :: i64
  st_dirs :: i64
  st_symlinks :: i64
  st_apps :: i64
  st_others :: i64
  st_db_path :: str
  st_last_indexed_at :: "i64 option"
  st_roots :: "str list"
  st_excludes :: "str list"

record bootstrap_status =
  bs_db_path :: str
  bs_has_records :: bool
  bs_roots :: "str list"
  bs_excludes :: "str list"
  bs_last_indexed_at :: "i64 option"

definition last_indexed_at :: "index_db \<Rightarrow> i64 option" where
  "last_indexed_at db = Option.bind (map_of (ix_meta db) ''last_indexed_at'') parse_i64"

definition kind_count :: "file_kind \<Rightarrow> index_db \<Rightarrow> i64" where
  "kind_count k db = int (length (filter (\<lambda>r. fr_kind r = k) (ix_files db)))"

definition db_stats :: "str \<Rightarrow> index_db \<Rightarrow> index_stats" where
  "db_stats path db =
     \<lparr>st_files = kind_count File db, st_dirs = kind_count Directory db, st_symlinks = kind_count Symlink db,
      st_apps = kind_count App db, st_others = kind_count Other db, st_db_path = to_string_lossy path,
      st_last_indexed_at = last_indexed_at db,
      st_roots = fst (roots_and_excludes db), st_excludes = snd (roots_and_excludes db)\<rparr>"

definition db_bootstrap_status :: "str \<Rightarrow> index_db \<Rightarrow> bootstrap_status" where
  "db_bootstrap_status path db =
     \<lparr>bs_db_path = to_string_lossy path, bs_has_records = (ix_files db \<noteq> []),
      bs_roots = fst (roots_and_excludes db), bs_excludes = snd (roots_and_excludes db),
      bs_last_indexed_at = last_indexed_at db\<rparr>"

end
