(* ===== verification/Service.thy ===== *)
theory Service
  imports Snapshot_Diff Packed_Search Sqlite_Search Slots Serve_Memory Db_Access Db_Status
begin

text \<open>
  \<open>ServiceState\<close> of \<open>src/src/server.rs\<close>: the index that the search service has in memory, how it is
  loaded, how it catches up with the database, and how a search reads it.

  The environment has the world of \<open>Db_Access\<close>, the allocator and hasher of the packed index,
  where the texts of an index lie in memory, the clocks, and the budget from the process
  environment. The number of the next look is part of the state.
\<close>

definition max_incremental_events :: usize where "max_incremental_events = 4096"
definition max_incremental_ids :: usize where "max_incremental_ids = 4096"

definition snapshot_diff_limits :: diff_limits where
  "snapshot_diff_limits =
     \<lparr>di_max_scan_rows = 10000000, di_max_changes = max_incremental_ids,
      di_max_payload_bytes = file_change_max_payload_bytes\<rparr>"

record service_env =
  se_world :: world
  se_packed :: packed_env
  se_layout :: "compact_index \<Rightarrow> memory \<times> (u32 \<Rightarrow> usize)"
  se_budget :: "str option"
  se_clock :: "nat \<Rightarrow> i64"
  se_late :: "nat \<Rightarrow> nat \<Rightarrow> bool"
  se_sizes :: heap_sizes
  se_token :: "str \<Rightarrow> nat"
  se_plan :: "raw_row list \<Rightarrow> raw_row list"
  se_utf8 :: bool
  se_audit_clock :: "nat \<Rightarrow> nat \<times> nat \<times> nat"
  se_traffic :: "nat \<Rightarrow> traffic"
  se_db_path :: str

text \<open>The environment of an index, once its texts have their place.\<close>

definition placed :: "service_env \<Rightarrow> compact_index \<Rightarrow> packed_env" where
  "placed env ix = (se_packed env)\<lparr>pe_memory := fst (se_layout env ix), pe_address := snd (se_layout env ix)\<rparr>"

datatype backend = Packed compact_index | SqliteDb db_conn | Unavailable

definition loaded_records :: "backend \<Rightarrow> usize" where
  "loaded_records b = (case b of Packed ix \<Rightarrow> ci_len ix | SqliteDb _ \<Rightarrow> 0 | Unavailable \<Rightarrow> 0)"

definition is_ready :: "backend \<Rightarrow> bool" where
  "is_ready b = (b \<noteq> Unavailable)"

record service =
  sv_requested :: backend_preference
  sv_selected :: backend_preference
  sv_observer :: "db_conn option"
  sv_backend :: backend
  sv_stamp :: "content_stamp option"
  sv_records_total :: i64
  sv_estimated_bytes :: nat
  sv_loaded_at :: i64
  sv_load_attempts :: nat
  sv_successful_loads :: nat
  sv_load_error :: "str option"
  sv_incremental_attempts :: nat
  sv_incremental_applies :: nat
  sv_incremental_change_ids :: nat
  sv_last_change_ids :: usize
  sv_refreshed_at :: i64
  sv_method :: str
  sv_fallback_reason :: "str option"
  sv_refresh_error :: "str option"
  sv_pending_reason :: "str option"
  sv_memory :: snapshot
  sv_audit :: audit_state
  sv_looks :: nat

subsection \<open>Counts\<close>

definition stats_total :: "index_stats \<Rightarrow> i64" where
  "stats_total s = st_files s + st_dirs s + st_symlinks s + st_apps s + st_others s"

subsection \<open>Loading\<close>

text \<open>A load that fails inside the packed index, or a panic there.\<close>

definition packed_failure :: error where "packed_failure = Cli ''packed index failure''"

definition index_load :: "service_env \<Rightarrow> index_db \<Rightarrow> compact_index io" where
  "index_load env db =
     (case compact_index_load (se_packed env) (index_refs db) of None \<Rightarrow> io_fail packed_failure | Some ix \<Rightarrow> io_return ix)"

definition read_backend ::
  "service_env \<Rightarrow> backend_preference \<Rightarrow> db_conn \<Rightarrow> index_db \<Rightarrow> (backend_preference \<times> compact_index option \<times> i64) io"
where
  "read_backend env requested conn db =
     io_bind (if requested = Auto
              then io_bind (pinned (se_world env) conn db) (\<lambda>db.
                     io_return (select_backend (se_budget env) Auto (stats_total (db_stats (se_db_path env) db))))
              else io_return requested) (\<lambda>selected.
       if selected \<in> {Memory, Compact}
       then io_bind (io_bind (pinned (se_world env) conn db) (index_load env)) (\<lambda>ix.
              io_return (selected, Some ix, int (ci_len ix)))
       else io_bind (pinned (se_world env) conn db) (\<lambda>db.
              io_return (selected, None, stats_total (db_stats (se_db_path env) db))))"

definition no_content_state :: "error \<Rightarrow> bool" where
  "no_content_state e = (case e of Sqlite m \<Rightarrow> contains m ''no such table: macevery_content_state'' | _ \<Rightarrow> False)"

text \<open>Whether the database has to be migrated before it is loaded.\<close>

definition needs_migration :: "service_env \<Rightarrow> db_conn \<Rightarrow> bool io" where
  "needs_migration env conn n =
     (case conn_stamp (se_world env) conn n of
        (Inl e, n1) \<Rightarrow>
          if no_content_state e then (Inr True, n1)
          else io_bind (has_change_journal (se_world env) conn) (\<lambda>j. io_return (\<not> j)) n1
      | (Inr _, n1) \<Rightarrow> io_bind (has_change_journal (se_world env) conn) (\<lambda>j. io_return (\<not> j)) n1)"

definition load_backend ::
  "service_env \<Rightarrow> backend_preference \<Rightarrow> (backend \<times> backend_preference \<times> content_stamp \<times> i64) io" where
  "load_backend env requested =
     io_bind (open_read_only (se_world env)) (\<lambda>conn0.
     io_bind (needs_migration env conn0) (\<lambda>migrate.
     io_bind (if migrate
              then io_bind (open_existing (se_world env)) (\<lambda>_. open_read_only (se_world env))
              else io_return conn0) (\<lambda>conn.
     io_bind (with_read_snapshot (se_world env) conn (\<lambda>_. read_backend env requested conn)) (\<lambda>(stamp, selected, index, records).
       io_return (case index of Some ix \<Rightarrow> Packed ix | None \<Rightarrow> SqliteDb conn, selected, stamp, records)))))"

subsection \<open>The published state\<close>

definition invalidate_backend :: "service \<Rightarrow> service" where
  "invalidate_backend sv =
     sv\<lparr>sv_backend := Unavailable, sv_stamp := None, sv_records_total := 0, sv_estimated_bytes := 0,
        sv_loaded_at := 0, sv_refreshed_at := 0, sv_memory := snapshot_default\<rparr>"

definition collect_memory :: "service_env \<Rightarrow> str \<Rightarrow> service \<Rightarrow> snapshot" where
  "collect_memory env phase sv =
     (let s = snapshot_default
        \<lparr>sn_phase := phase, sn_backend := backend_as_str (sv_selected sv),
         sn_revision := map_option cs_revision (sv_stamp sv),
         sn_database_device := map_option (fst \<circ> cs_identity) (sv_stamp sv),
         sn_database_inode := map_option (snd \<circ> cs_identity) (sv_stamp sv),
         sn_database_token := map_option (se_token env \<circ> cs_database_id) (sv_stamp sv),
         sn_records := loaded_records (sv_backend sv), sn_load_attempts := sv_load_attempts sv,
         sn_successful_loads := sv_successful_loads sv, sn_incremental_attempts := sv_incremental_attempts sv,
         sn_incremental_applies := sv_incremental_applies sv,
         sn_incremental_change_ids := sv_incremental_change_ids sv, sn_last_change_ids := sv_last_change_ids sv,
         sn_method := sv_method sv, sn_fallback_reason := sv_fallback_reason sv\<rparr>
      in case sv_backend sv of
           Packed ix \<Rightarrow>
             let m = memory_breakdown (se_sizes env) ix
             in set_fragmentation (ci_fragmentation ix) (s\<lparr>sn_memory := m, sn_capacity_bytes := capacity_bytes m\<rparr>)
         | _ \<Rightarrow> s)"

definition publish_memory :: "service_env \<Rightarrow> str \<Rightarrow> service \<Rightarrow> service" where
  "publish_memory env phase sv =
     (let s = collect_memory env phase sv; (now, ms, ms') = se_audit_clock env (sv_looks sv)
      in sv\<lparr>sv_memory := s, sv_audit := publish_at s now ms ms' (se_traffic env (sv_looks sv)) (sv_audit sv)\<rparr>)"

definition cache_memory :: "service_env \<Rightarrow> str \<Rightarrow> service \<Rightarrow> service" where
  "cache_memory env phase sv =
     (let s = collect_memory env phase sv; (now, ms, ms') = se_audit_clock env (sv_looks sv)
      in sv\<lparr>sv_memory := s, sv_audit := cache_only s now ms ms' (se_traffic env (sv_looks sv)) (sv_audit sv)\<rparr>)"

definition full_reload_with_capture ::
  "service_env \<Rightarrow> str \<Rightarrow> str option \<Rightarrow> bool \<Rightarrow> service \<Rightarrow> (error + unit) \<times> service" where
  "full_reload_with_capture env method reason capture_before sv =
     (let sv1 = sv\<lparr>sv_load_attempts := saturating_u64 (sv_load_attempts sv) 1, sv_fallback_reason := reason\<rparr>;
          sv2 = (if capture_before then publish_memory env ''full_before'' sv1 else sv1);
          sv3 = cache_memory env ''full_loading'' (invalidate_backend sv2)
      in case load_backend env (sv_requested sv3) (sv_looks sv3) of
           (Inr (backend, selected, stamp, records), n) \<Rightarrow>
             (Inr (), publish_memory env ''full_after''
               (sv3\<lparr>sv_backend := backend, sv_selected := selected, sv_stamp := Some stamp, sv_records_total := records,
                    sv_estimated_bytes := estimate_backend_memory_bytes selected records,
                    sv_loaded_at := se_clock env n, sv_refreshed_at := se_clock env n,
                    sv_successful_loads := saturating_u64 (sv_successful_loads sv3) 1,
                    sv_load_error := None, sv_refresh_error := None, sv_method := method, sv_pending_reason := None,
                    sv_looks := n\<rparr>))
         | (Inl e, n) \<Rightarrow>
             (Inl e, publish_memory env ''full_failed''
               (sv3\<lparr>sv_load_error := Some (error_text e), sv_refresh_error := Some (error_text e),
                    sv_method := ''full_failed'', sv_looks := n\<rparr>)))"

definition full_reload :: "service_env \<Rightarrow> str \<Rightarrow> str option \<Rightarrow> service \<Rightarrow> (error + unit) \<times> service" where
  "full_reload env method reason sv = full_reload_with_capture env method reason True sv"

definition reload :: "service_env \<Rightarrow> service \<Rightarrow> (error + unit) \<times> service" where
  "reload env sv = full_reload env ''explicit_full'' None sv"

text \<open>\<open>ServiceState::load\<close>, once the observer is open: a failed first load is retried later.\<close>

definition service_new :: "backend_preference \<Rightarrow> db_conn option \<Rightarrow> audit_state \<Rightarrow> nat \<Rightarrow> service" where
  "service_new requested observer audit n =
     \<lparr>sv_requested = requested, sv_selected = requested, sv_observer = observer, sv_backend = Unavailable,
      sv_stamp = None, sv_records_total = 0, sv_estimated_bytes = 0, sv_loaded_at = 0, sv_load_attempts = 0,
      sv_successful_loads = 0, sv_load_error = None, sv_incremental_attempts = 0, sv_incremental_applies = 0,
      sv_incremental_change_ids = 0, sv_last_change_ids = 0, sv_refreshed_at = 0, sv_method = ''unavailable'',
      sv_fallback_reason = None, sv_refresh_error = None, sv_pending_reason = None, sv_memory = snapshot_default,
      sv_audit = audit, sv_looks = n\<rparr>"

definition service_load :: "service_env \<Rightarrow> backend_preference \<Rightarrow> audit_state \<Rightarrow> service io" where
  "service_load env requested audit =
     io_bind (database_open (se_world env)) (\<lambda>_.
     io_bind (open_read_only (se_world env)) (\<lambda>observer n.
       let sv = snd (full_reload env ''startup_full'' None (service_new requested (Some observer) audit n))
       in (Inr sv, sv_looks sv)))"

subsection \<open>Catching up\<close>

definition needs_reload :: "service_env \<Rightarrow> service \<Rightarrow> bool \<times> service" where
  "needs_reload env sv =
     (if \<not> is_ready (sv_backend sv) then (True, sv)
      else case observe (se_world env) (sv_observer sv) (sv_looks sv) of
             (Inr current, observer, n) \<Rightarrow> (sv_stamp sv \<noteq> Some current, sv\<lparr>sv_observer := observer, sv_looks := n\<rparr>)
           | (Inl _, observer, n) \<Rightarrow> (True, sv\<lparr>sv_observer := observer, sv_looks := n\<rparr>))"

text \<open>
  The changes since \<open>base\<close>, from the journal or, where its history has a gap, from a comparison
  with the whole snapshot; with the name of the method.
\<close>

definition read_changes ::
  "service_env \<Rightarrow> diff_limits \<Rightarrow> content_stamp \<Rightarrow> compact_index \<Rightarrow> db_conn \<Rightarrow> content_stamp \<Rightarrow> index_db \<Rightarrow>
     (file_change_read \<times> str) io" where
  "read_changes env limits base ix conn target db =
     io_bind (pinned (se_world env) conn db) (\<lambda>db.
       let delta = file_changes_since (pe_lower (se_packed env)) (cn_identity conn) db base max_incremental_events max_incremental_ids
       in if delta = Fallback ''history_gap''
          then io_bind (pinned (se_world env) conn db) (\<lambda>db n.
                 case snapshot_diff (placed env ix) (se_late env n) limits ix (index_refs db) of
                   None \<Rightarrow> (Inl packed_failure, n)
                 | Some (Inr changes) \<Rightarrow> (Inr (Available target changes, ''snapshot_reconcile''), n)
                 | Some (Inl reason) \<Rightarrow> (Inr (Fallback reason, ''incremental''), n))
          else io_return (delta, ''incremental''))"

definition read_delta ::
  "service_env \<Rightarrow> diff_limits \<Rightarrow> content_stamp \<Rightarrow> compact_index \<Rightarrow> (file_change_read \<times> str) io" where
  "read_delta env limits base ix =
     io_bind (open_read_only (se_world env)) (\<lambda>conn.
     io_bind (with_read_snapshot (se_world env) conn (\<lambda>target db. read_changes env limits base ix conn target db)) (\<lambda>(_, delta).
       io_return delta))"

definition apply_delta_with_method ::
  "service_env \<Rightarrow> content_stamp \<Rightarrow> file_change list \<Rightarrow> str \<Rightarrow> service \<Rightarrow> (error + unit) \<times> service" where
  "apply_delta_with_method env target changes method sv0 =
     (let sv = publish_memory env ''incremental_before'' sv0
      in case sv_backend sv of
        Packed ix \<Rightarrow>
          (case index_apply_changes (placed env ix) changes ix of
             Some (NeedsFullReload reason, _) \<Rightarrow>
               full_reload_with_capture env ''fallback_full'' (Some reason) False sv
           | Some (Applied, ix') \<Rightarrow>
               let sv1 = sv\<lparr>sv_backend := Packed ix'\<rparr>;
                   records = int (ci_len ix');
                   selected = (if sv_requested sv1 = Auto then select_backend (se_budget env) Auto records else sv_selected sv1)
               in if selected = SqliteBackend
                  then full_reload env ''fallback_full'' (Some ''auto_backend_change'') sv1
                  else (Inr (), publish_memory env ''incremental_after''
                    (sv1\<lparr>sv_stamp := Some target, sv_records_total := records, sv_selected := selected,
                         sv_estimated_bytes := estimate_backend_memory_bytes selected records,
                         sv_refreshed_at := se_clock env (sv_looks sv1),
                         sv_incremental_applies := saturating_u64 (sv_incremental_applies sv1) 1,
                         sv_incremental_change_ids := saturating_u64 (sv_incremental_change_ids sv1) (length changes),
                         sv_last_change_ids := length changes, sv_method := method, sv_fallback_reason := None,
                         sv_load_error := None, sv_refresh_error := None\<rparr>))
           | None \<Rightarrow>
               (Inl packed_failure, publish_memory env ''incremental_failed''
                 ((invalidate_backend sv)\<lparr>sv_pending_reason := Some ''apply_failed'', sv_fallback_reason := Some ''apply_failed'',
                    sv_method := ''incremental_failed'', sv_refresh_error := Some (error_text packed_failure)\<rparr>)))
      | _ \<Rightarrow> full_reload_with_capture env ''fallback_full'' (Some ''backend_not_packed'') False sv)"

definition reload_if_changed_with_limits ::
  "service_env \<Rightarrow> diff_limits \<Rightarrow> service \<Rightarrow> (error + unit) \<times> service" where
  "reload_if_changed_with_limits env limits sv0 =
     (case needs_reload env sv0 of
        (False, sv) \<Rightarrow> (Inr (), sv)
      | (True, sv) \<Rightarrow>
          if \<not> is_ready (sv_backend sv)
          then full_reload env ''fallback_full''
                 (Some (case sv_pending_reason sv of Some r \<Rightarrow> r | None \<Rightarrow> ''index_unavailable'')) sv
          else (case observe (se_world env) (sv_observer sv) (sv_looks sv) of
            (Inl _, observer, n) \<Rightarrow>
              full_reload env ''fallback_full'' (Some ''database_unavailable'') (sv\<lparr>sv_observer := observer, sv_looks := n\<rparr>)
          | (Inr current, observer, n) \<Rightarrow>
              let sv1 = sv\<lparr>sv_observer := observer, sv_looks := n\<rparr>
              in case sv_stamp sv1 of
                None \<Rightarrow> full_reload env ''fallback_full'' (Some ''missing_loaded_stamp'') sv1
              | Some base \<Rightarrow>
                  if cs_database_id current \<noteq> cs_database_id base \<or> cs_identity current \<noteq> cs_identity base
                  then full_reload env ''fallback_full'' (Some ''database_replaced'') sv1
                  else (case sv_backend sv1 of
                    Packed ix \<Rightarrow>
                      let sv2 = sv1\<lparr>sv_incremental_attempts := saturating_u64 (sv_incremental_attempts sv1) 1\<rparr>
                      in (case read_delta env limits base ix (sv_looks sv2) of
                        (Inr (Fallback reason, _), n1) \<Rightarrow>
                          full_reload env ''fallback_full'' (Some reason) (sv2\<lparr>sv_looks := n1\<rparr>)
                      | (Inr (Available target changes, method), n1) \<Rightarrow>
                          apply_delta_with_method env target changes method (sv2\<lparr>sv_looks := n1\<rparr>)
                      | (Inl e, n1) \<Rightarrow>
                          (Inl e, publish_memory env ''incremental_read_failed''
                            (sv2\<lparr>sv_method := ''incremental_failed'', sv_refresh_error := Some (error_text e),
                                 sv_looks := n1\<rparr>)))
                  | _ \<Rightarrow> full_reload env ''fallback_full'' (Some ''backend_not_packed'') sv1)))"

definition reload_if_changed :: "service_env \<Rightarrow> service \<Rightarrow> (error + unit) \<times> service" where
  "reload_if_changed env sv = reload_if_changed_with_limits env snapshot_diff_limits sv"

text \<open>\<open>ensure_fresh\<close>: the check under the read lock, the refresh under the write lock.\<close>

definition ensure_fresh :: "service_env \<Rightarrow> service \<Rightarrow> (error + unit) \<times> service" where
  "ensure_fresh env sv =
     (case needs_reload env sv of
        (False, sv1) \<Rightarrow> (Inr (), sv1)
      | (True, sv1) \<Rightarrow> reload_if_changed env sv1)"

subsection \<open>Searching and the status\<close>

text \<open>The rows of the database as SQLite stores them.\<close>

definition sql_text_option :: "str option \<Rightarrow> sql_value" where
  "sql_text_option v = (case v of Some t \<Rightarrow> SqlText t | None \<Rightarrow> SqlNull)"

definition sql_int_option :: "i64 option \<Rightarrow> sql_value" where
  "sql_int_option v = (case v of Some n \<Rightarrow> SqlInteger n | None \<Rightarrow> SqlNull)"

definition stored_row :: "file_record \<Rightarrow> raw_row" where
  "stored_row r =
     \<lparr>rr_id = fr_id r, rr_path = SqlText (fr_path r), rr_path_lower = SqlText (fr_path_lower r),
      rr_basename = SqlText (fr_basename r), rr_basename_lower = SqlText (fr_basename_lower r),
      rr_ext_lower = sql_text_option (fr_ext_lower r), rr_kind = SqlText (kind_as_str (fr_kind r)),
      rr_size = sql_int_option (fr_size r), rr_mtime = sql_int_option (fr_mtime r),
      rr_ctime = sql_int_option (fr_ctime r), rr_dev = sql_int_option (fr_dev r),
      rr_inode = sql_int_option (fr_inode r), rr_indexed_at = SqlInteger (fr_indexed_at r)\<rparr>"

definition stored_table :: "service_env \<Rightarrow> index_db \<Rightarrow> files_table" where
  "stored_table env db = \<lparr>ft_rows = map stored_row (ix_files db), ft_plan = se_plan env, ft_utf8 = se_utf8 env\<rparr>"

definition panicked :: error where "panicked = Cli ''search panicked''"

definition service_search :: "service_env \<Rightarrow> search_options \<Rightarrow> service \<Rightarrow> (error + search_result list) \<times> service" where
  "service_search env options sv =
     (case sv_backend sv of
        Packed ix \<Rightarrow>
          (case index_search (placed env ix) (se_clock env (sv_looks sv)) ix options of
             Some results \<Rightarrow> (Inr results, sv) | None \<Rightarrow> (Inl panicked, sv))
      | SqliteDb conn \<Rightarrow>
          (case statement (se_world env) (cn_file conn) (sv_looks sv) of
             (Inl e, n) \<Rightarrow> (Inl e, sv\<lparr>sv_looks := n\<rparr>)
           | (Inr db, n) \<Rightarrow>
               (case search (pe_lower (se_packed env)) (se_clock env n) (stored_table env db) options of
                  Some results \<Rightarrow> (Inr results, sv\<lparr>sv_looks := n\<rparr>) | None \<Rightarrow> (Inl panicked, sv\<lparr>sv_looks := n\<rparr>)))
      | Unavailable \<Rightarrow> (Inl (Cli ''search index is unavailable; retry''), sv))"

definition json_text :: "str option \<Rightarrow> str" where
  "json_text v = (case v of Some m \<Rightarrow> quote (json_escape m) | None \<Rightarrow> ''null'')"

definition json_bool :: "bool \<Rightarrow> str" where
  "json_bool b = (if b then ''true'' else ''false'')"

definition status_json :: "service_env \<Rightarrow> service \<Rightarrow> str \<times> service" where
  "status_json env sv =
     (let (observed, observer, n) = observe (se_world env) (sv_observer sv) (sv_looks sv);
          stale = (case observed of Inr stamp \<Rightarrow> sv_stamp sv \<noteq> Some stamp | Inl _ \<Rightarrow> True);
          ready = is_ready (sv_backend sv);
          failure = (case sv_load_error sv of Some m \<Rightarrow> Some m
                     | None \<Rightarrow> (case observed of Inl e \<Rightarrow> Some (error_text e) | Inr _ \<Rightarrow> None));
          fields =
            [json_field ''ok'' (json_bool (ready \<and> \<not> stale)), json_field ''ready'' (json_bool ready),
             json_field ''stale'' (json_bool stale), json_field ''backend'' (quote (backend_as_str (sv_selected sv))),
             json_field ''requested_backend'' (quote (backend_as_str (sv_requested sv))),
             json_field ''records'' (int_to_str (sv_records_total sv)),
             json_field ''loaded_records'' (nat_to_str (loaded_records (sv_backend sv))),
             json_field ''estimated_memory_bytes'' (nat_to_str (sv_estimated_bytes sv)),
             json_field ''actual_index_bytes'' (nat_to_str (sn_capacity_bytes (sv_memory sv))),
             json_field ''loaded_at'' (int_to_str (sv_loaded_at sv)),
             json_field ''reload_count'' (nat_to_str (sv_successful_loads sv - 1)),
             json_field ''reload_attempts'' (nat_to_str (sv_load_attempts sv - 1)),
             json_field ''content_revision'' (json_i64 (map_option cs_revision (sv_stamp sv))),
             json_field ''current_content_revision'' (json_i64 (case observed of Inr s \<Rightarrow> Some (cs_revision s) | Inl _ \<Rightarrow> None)),
             json_field ''last_load_error'' (json_text failure),
             json_field ''incremental_attempts'' (nat_to_str (sv_incremental_attempts sv)),
             json_field ''incremental_applies'' (nat_to_str (sv_incremental_applies sv)),
             json_field ''incremental_change_ids'' (nat_to_str (sv_incremental_change_ids sv)),
             json_field ''last_incremental_change_ids'' (nat_to_str (sv_last_change_ids sv)),
             json_field ''refreshed_at'' (int_to_str (sv_refreshed_at sv)),
             json_field ''last_refresh_method'' (quote (sv_method sv)),
             json_field ''last_fallback_reason'' (json_text (sv_fallback_reason sv)),
             json_field ''last_refresh_error'' (json_text (sv_refresh_error sv)),
             json_field ''db_path'' (quote (json_escape (se_db_path env)))]
      in (''{'' @ join_with '','' fields @ ''}'' @ [CHR 0x0A], sv\<lparr>sv_observer := observer, sv_looks := n\<rparr>))"

subsection \<open>Facts: the environment\<close>

text \<open>
  What is assumed of the environment: the world as in \<open>Db_Access\<close>, an allocator that gives the
  capacity asked for, and texts of an index that stay where they lie.
\<close>

definition env_ok :: "(file_record list \<Rightarrow> i64) \<Rightarrow> service_env \<Rightarrow> bool" where
  "env_ok alloc env \<longleftrightarrow>
     world_ok alloc (pe_lower (se_packed env)) (se_world env) \<and> alloc_ok alloc \<and> packed_env_ok (se_packed env) \<and>
     (\<forall>ix. memory_ok (placed env ix) ix)"

lemma placed_simps [simp]:
  "pe_alloc (placed env ix) = pe_alloc (se_packed env)" "pe_hash (placed env ix) = pe_hash (se_packed env)"
  "pe_lower (placed env ix) = pe_lower (se_packed env)"
  by (simp_all add: placed_def)

lemma placed_env_ok: "packed_env_ok (placed env ix) = packed_env_ok (se_packed env)"
  by (simp add: packed_env_ok_def)

lemma placed_index_ok: "index_ok (placed env ix) ix' = index_ok (se_packed env) ix'"
  by (simp add: index_ok_def index_rows_are_def index_shows_def)

lemma stats_total_rows: "stats_total (db_stats path db) = int (length (ix_files db))"
proof -
  have "length (filter (\<lambda>r. fr_kind r = File) rs) + length (filter (\<lambda>r. fr_kind r = Directory) rs) +
      length (filter (\<lambda>r. fr_kind r = Symlink) rs) + length (filter (\<lambda>r. fr_kind r = App) rs) +
      length (filter (\<lambda>r. fr_kind r = Other) rs) = length rs" for rs :: "file_record list"
  proof (induction rs)
    case (Cons r rs)
    then show ?case by (cases "fr_kind r") simp_all
  qed simp
  from this [of "ix_files db"] show ?thesis
    unfolding stats_total_def db_stats_def kind_count_def index_stats.simps by (simp only: of_nat_add [symmetric])
qed

subsection \<open>Facts: loading\<close>

lemma index_load_ok:
  assumes env: "env_ok alloc env" and content: "dk_content (se_world env m) i = Inr db"
    and load: "compact_index_load (se_packed env) (index_refs db) = Some ix"
  shows "index_ok (se_packed env) ix \<and> index_contents ix = rows_by_id (pe_lower (se_packed env)) db"
proof -
  let ?ul = "pe_lower (se_packed env)"
  have w: "world_ok alloc ?ul (se_world env)" and p: "packed_env_ok (se_packed env)" using env by (simp_all add: env_ok_def)
  have ok: "ix_ok db" using world_content [OF w content] by (simp add: db_ok_def)
  have valid: "\<forall>r \<in> set (ix_files db). file_valid (row_to_record ?ul r)" by (rule world_rows [OF w content])
  have "sorted_wrt (<) (map fr_id (ix_files db))" using ok by (auto simp: ix_ok_def strict_sorted_iff)
  then have srt: "sorted_wrt (<) (map dr_id (index_refs db))" by (simp add: index_refs_def comp_def borrow_record_def)
  have v: "file_valid (file_of_ref ?ul d)" if "d \<in> set (index_refs db)" for d
    using that valid packed_file_stored by (auto simp: index_refs_def packed_file_def)
  have "index_ok (se_packed env) ix" by (rule load_index_ok [OF p _ srt load]) (rule v)
  then show ?thesis using fresh_load_contents [OF p ok valid load] by simp
qed

lemma select_backend_not_auto: "select_backend budget requested n \<noteq> Auto"  if "requested = Auto"
  using that by (simp add: select_backend_def Let_def)

lemma read_backend_ok:
  assumes "read_backend env requested conn db n = (Inr (selected, index, records), n')"
  shows "selected \<noteq> Auto \<and> (requested \<noteq> Auto \<longrightarrow> selected = requested) \<and>
    (case index of
       Some ix \<Rightarrow> selected \<in> {Memory, Compact} \<and> compact_index_load (se_packed env) (index_refs db) = Some ix \<and> records = int (ci_len ix)
     | None \<Rightarrow> selected = SqliteBackend \<and> records = stats_total (db_stats (se_db_path env) db))"
proof -
  have sel: "s \<noteq> Memory \<Longrightarrow> s \<noteq> Compact \<Longrightarrow> s \<noteq> Auto \<Longrightarrow> s = SqliteBackend" for s by (cases s) auto
  show ?thesis
    using assms select_backend_not_auto [of requested "se_budget env"]
    by (auto simp: read_backend_def io_Inr pinned_def index_load_def statement_def intro!: sel
        split: if_split_asm option.split_asm)
qed

lemma io_mono_load [io_rules]:
  "io_mono (index_load env db)" "io_mono (read_backend env requested conn db)" "io_mono (needs_migration env conn)"
  "io_mono (load_backend env requested)"
proof -
  show load: "io_mono (index_load env db)" for db
    by (simp add: index_load_def io_rules split: option.split)
  show read: "io_mono (read_backend env requested conn db)" for conn db
    unfolding read_backend_def by (intro io_rules load)
  show needs: "io_mono (needs_migration env conn)" for conn
  proof -
    have "n1 \<le> snd (io_bind (has_change_journal (se_world env) conn) (\<lambda>j. io_return (\<not> j)) n1)" for n1
      using io_mono_bind [OF io_mono_statements(3) io_mono_basic(1)] unfolding io_mono_def by blast
    moreover have "n \<le> n1" if "conn_stamp (se_world env) conn n = (r, n1)" for n r n1
      using io_mono_look [OF io_mono_statements(2) that] .
    ultimately have "n \<le> snd (needs_migration env conn n)" for n
    proof (cases "conn_stamp (se_world env) conn n")
      case (Pair r n1)
      then have "n \<le> n1" using \<open>\<And>r n1 n. conn_stamp (se_world env) conn n = (r, n1) \<Longrightarrow> n \<le> n1\<close> by blast
      then show ?thesis
        using Pair order_trans [OF _ \<open>\<And>n1. n1 \<le> snd (io_bind (has_change_journal (se_world env) conn) (\<lambda>j. io_return (\<not> j)) n1)\<close>, of n n1]
        by (cases r) (simp_all add: needs_migration_def)
    qed
    then show ?thesis by (simp add: io_mono_def)
  qed
  show "io_mono (load_backend env requested)"
    unfolding load_backend_def prod.case_distrib
    by (intro io_rules needs) (simp_all add: io_rules read split: prod.split)
qed

text \<open>A stamp read between two looks, and the snapshot that it names.\<close>

definition seen :: "service_env \<Rightarrow> nat \<Rightarrow> nat \<Rightarrow> content_stamp \<Rightarrow> index_db \<Rightarrow> bool" where
  "seen env since n stamp db \<longleftrightarrow>
     (\<exists>m. since \<le> m \<and> m < n \<and> dk_content (se_world env m) (cs_identity stamp) = Inr db) \<and>
     stamp = content_stamp_of (cs_identity stamp) db"

lemma seen_wider: "seen env since n stamp db \<Longrightarrow> since' \<le> since \<Longrightarrow> n \<le> n' \<Longrightarrow> seen env since' n' stamp db"
  unfolding seen_def by (meson order_trans order_less_le_trans)

text \<open>What a backend offers is the content of the snapshot that its stamp names.\<close>

definition backend_shows :: "service_env \<Rightarrow> backend \<Rightarrow> content_stamp \<Rightarrow> index_db \<Rightarrow> i64 \<Rightarrow> bool" where
  "backend_shows env b stamp db records \<longleftrightarrow>
     (case b of
        Packed ix \<Rightarrow> index_ok (se_packed env) ix \<and> index_contents ix = rows_by_id (pe_lower (se_packed env)) db \<and>
          records = int (ci_len ix)
      | SqliteDb conn \<Rightarrow> cn_file conn = cn_identity conn \<and> cn_identity conn = cs_identity stamp \<and>
          records = stats_total (db_stats (se_db_path env) db)
      | Unavailable \<Rightarrow> False)"

lemma load_backend_ok:
  assumes env: "env_ok alloc env" and run: "load_backend env requested n = (Inr (b, selected, stamp, records), n')"
  shows "n \<le> n' \<and> selected \<noteq> Auto \<and> (requested \<noteq> Auto \<longrightarrow> selected = requested) \<and>
    (\<exists>db. seen env n n' stamp db \<and> backend_shows env b stamp db records)"
proof -
  let ?w = "se_world env"
  have world: "world_ok alloc (pe_lower (se_packed env)) ?w" using env by (simp add: env_ok_def)
  obtain conn0 n0 migrate n1 conn n2 index where r: "open_read_only ?w n = (Inr conn0, n0)"
      "needs_migration env conn0 n0 = (Inr migrate, n1)"
      "(if migrate then io_bind (open_existing ?w) (\<lambda>_. open_read_only ?w) else io_return conn0) n1 = (Inr conn, n2)"
      "with_read_snapshot ?w conn (\<lambda>_. read_backend env requested conn) n2 = (Inr (stamp, selected, index, records), n')"
      "b = (case index of Some ix \<Rightarrow> Packed ix | None \<Rightarrow> SqliteDb conn)"
    using run unfolding load_backend_def by (auto simp: io_Inr)
  have n1: "n \<le> n1"
    using io_mono_look [OF io_mono_open r(1)] io_mono_look [OF io_mono_load(3) r(2)] by simp
  have conn: "n1 \<le> n2 \<and> cn_file conn = cn_identity conn"
  proof (cases migrate)
    case True
    then obtain c k where "open_existing ?w n1 = (Inr c, k)" "open_read_only ?w k = (Inr conn, n2)"
      using r(3) by (auto simp: io_bind_Inr)
    then show ?thesis
      using io_mono_look [OF io_mono_statements(1), of ?w n1] io_mono_look [OF io_mono_open, of ?w k]
        open_read_only_ok [OF world, of k conn n2] by fastforce
  next
    case False
    then show ?thesis using r(1,3) open_read_only_ok [OF world r(1)] by (simp add: io_return_Inr)
  qed
  obtain db k where db: "dk_content (?w (n2 + 1)) (cn_file conn) = Inr db" "stamp = content_stamp_of (cn_identity conn) db"
      "read_backend env requested conn db (n2 + 2) = (Inr (selected, index, records), k)" "n' = k + 1"
    using with_read_snapshot_Inr [OF r(4)] by auto
  have k: "n2 + 2 \<le> k" using io_mono_look [OF io_mono_load(2) db(3)] .
  have seen: "seen env n n' stamp db"
    unfolding seen_def using db conn n1 k by (auto intro!: exI [of _ "n2 + 1"])
  have "backend_shows env b stamp db records"
    using read_backend_ok [OF db(3)] index_load_ok [OF env db(1)] r(5) conn db(2)
    by (cases index) (auto simp: backend_shows_def)
  then show ?thesis using read_backend_ok [OF db(3)] seen n1 conn k db(4) by auto
qed

subsection \<open>Facts: what is published\<close>

text \<open>
  The invariant: either nothing is published, or the backend shows the snapshot that the stamp
  names, and the snapshot was read at a moment since \<open>since\<close>.
\<close>

definition published :: "service_env \<Rightarrow> nat \<Rightarrow> service \<Rightarrow> bool" where
  "published env since sv \<longleftrightarrow>
     observer_ok (sv_observer sv) \<and>
     (if sv_backend sv = Unavailable
      then sv_stamp sv = None \<and> sv_records_total sv = 0 \<and> sv_estimated_bytes sv = 0
      else sv_selected sv \<noteq> Auto \<and>
        sv_estimated_bytes sv = estimate_backend_memory_bytes (sv_selected sv) (sv_records_total sv) \<and>
        (\<exists>stamp db. sv_stamp sv = Some stamp \<and> seen env since (sv_looks sv) stamp db \<and>
           backend_shows env (sv_backend sv) stamp db (sv_records_total sv)))"

lemma published_earlier: "published env since sv \<Longrightarrow> since' \<le> since \<Longrightarrow> published env since' sv"
  unfolding published_def using seen_wider by (metis order_refl)

text \<open>The fields that the invariant reads.\<close>

definition same_published :: "service \<Rightarrow> service \<Rightarrow> bool" where
  "same_published sv sv' \<longleftrightarrow>
     sv_backend sv' = sv_backend sv \<and> sv_stamp sv' = sv_stamp sv \<and> sv_records_total sv' = sv_records_total sv \<and>
     sv_estimated_bytes sv' = sv_estimated_bytes sv \<and> sv_selected sv' = sv_selected sv \<and>
     sv_requested sv' = sv_requested sv \<and> sv_looks sv \<le> sv_looks sv'"

lemma published_same:
  assumes "published env since sv" and "same_published sv sv'" and "observer_ok (sv_observer sv')"
  shows "published env since sv'"
  using assms seen_wider unfolding published_def same_published_def by (metis order_refl)

lemma publish_memory_same [simp]:
  "same_published sv (publish_memory env phase sv)" "sv_observer (publish_memory env phase sv) = sv_observer sv"
  "sv_backend (publish_memory env phase sv) = sv_backend sv" "sv_looks (publish_memory env phase sv) = sv_looks sv"
  "sv_stamp (publish_memory env phase sv) = sv_stamp sv" "sv_requested (publish_memory env phase sv) = sv_requested sv"
  by (simp_all add: publish_memory_def same_published_def Let_def split: prod.split)

lemma cache_memory_same [simp]:
  "same_published sv (cache_memory env phase sv)" "sv_observer (cache_memory env phase sv) = sv_observer sv"
  "sv_looks (cache_memory env phase sv) = sv_looks sv" "sv_requested (cache_memory env phase sv) = sv_requested sv"
  by (simp_all add: cache_memory_def same_published_def Let_def split: prod.split)

text \<open>
  A reload: time goes on, the invariant holds again, and after a success the published
  snapshot was read during the reload; after a failure nothing is published.
\<close>

definition refreshed :: "service_env \<Rightarrow> service \<Rightarrow> (error + unit) \<times> service \<Rightarrow> bool" where
  "refreshed env sv r \<longleftrightarrow>
     (let sv' = snd r
      in sv_looks sv \<le> sv_looks sv' \<and> observer_ok (sv_observer sv') \<and> sv_requested sv' = sv_requested sv \<and>
         (case fst r of
            Inr _ \<Rightarrow> is_ready (sv_backend sv') \<and> published env (sv_looks sv) sv'
          | Inl _ \<Rightarrow> published env (sv_looks sv) sv' \<and> sv_backend sv' = Unavailable))"

lemma full_reload_refreshed:
  assumes env: "env_ok alloc env" and obs: "observer_ok (sv_observer sv)"
  shows "refreshed env sv (full_reload_with_capture env method reason capture sv)"
proof -
  define sv1 where "sv1 = sv\<lparr>sv_load_attempts := saturating_u64 (sv_load_attempts sv) 1, sv_fallback_reason := reason\<rparr>"
  define sv2 where "sv2 = (if capture then publish_memory env ''full_before'' sv1 else sv1)"
  define sv3 where "sv3 = cache_memory env ''full_loading'' (invalidate_backend sv2)"
  have sv2: "sv_observer sv2 = sv_observer sv" "sv_looks sv2 = sv_looks sv" "sv_requested sv2 = sv_requested sv"
    by (simp_all add: sv2_def sv1_def)
  have sv3: "sv_observer sv3 = sv_observer sv" "sv_looks sv3 = sv_looks sv" "sv_requested sv3 = sv_requested sv"
    "sv_backend sv3 = Unavailable" "sv_stamp sv3 = None" "sv_records_total sv3 = 0" "sv_estimated_bytes sv3 = 0"
    using sv2 by (simp_all add: sv3_def invalidate_backend_def cache_memory_def Let_def split: prod.split)
  obtain r n where run: "load_backend env (sv_requested sv3) (sv_looks sv3) = (r, n)"
    by (cases "load_backend env (sv_requested sv3) (sv_looks sv3)")
  have n: "sv_looks sv \<le> n" using io_mono_look [OF io_mono_load(4) run] sv3(2) by simp
  show ?thesis
  proof (cases r)
    case (Inl e)
    let ?sv = "sv3\<lparr>sv_load_error := Some (error_text e), sv_refresh_error := Some (error_text e),
      sv_method := ''full_failed'', sv_looks := n\<rparr>"
    have out: "full_reload_with_capture env method reason capture sv = (Inl e, publish_memory env ''full_failed'' ?sv)"
      using run Inl unfolding full_reload_with_capture_def Let_def sv1_def [symmetric] sv2_def [symmetric] sv3_def [symmetric] by simp
    have "published env (sv_looks sv) ?sv" using sv3 obs by (simp add: published_def)
    then have "published env (sv_looks sv) (publish_memory env ''full_failed'' ?sv)"
      by (rule published_same) (use obs sv3 in simp_all)
    then show ?thesis unfolding out refreshed_def using n obs sv3 by simp
  next
    case (Inr v)
    obtain b selected stamp records where v: "v = (b, selected, stamp, records)" by (cases v)
    let ?sv = "sv3\<lparr>sv_backend := b, sv_selected := selected, sv_stamp := Some stamp, sv_records_total := records,
                    sv_estimated_bytes := estimate_backend_memory_bytes selected records,
                    sv_loaded_at := se_clock env n, sv_refreshed_at := se_clock env n,
                    sv_successful_loads := saturating_u64 (sv_successful_loads sv3) 1,
                    sv_load_error := None, sv_refresh_error := None, sv_method := method, sv_pending_reason := None,
                    sv_looks := n\<rparr>"
    have out: "full_reload_with_capture env method reason capture sv = (Inr (), publish_memory env ''full_after'' ?sv)"
      using run Inr v unfolding full_reload_with_capture_def Let_def sv1_def [symmetric] sv2_def [symmetric] sv3_def [symmetric] by simp
    obtain db where db: "seen env (sv_looks sv) n stamp db" "backend_shows env b stamp db records" "selected \<noteq> Auto"
      using load_backend_ok [OF env run [unfolded Inr v]] sv3(2) by auto
    have ready: "b \<noteq> Unavailable" using db(2) by (auto simp: backend_shows_def)
    have "published env (sv_looks sv) ?sv" using sv3 obs db ready by (auto simp: published_def)
    then have "published env (sv_looks sv) (publish_memory env ''full_after'' ?sv)"
      by (rule published_same) (use obs sv3 in simp_all)
    then show ?thesis unfolding out refreshed_def using n obs sv3 ready by (simp add: is_ready_def)
  qed
qed

end
