(* ===== verification/Service_Correct.thy ===== *)
theory Service_Correct
  imports Service
begin

text \<open>
  Catching up is correct: whatever the world does meanwhile, what the service publishes is the
  content of the snapshot that its stamp names, and after a successful refresh that snapshot
  was read during the refresh.
\<close>

subsection \<open>The check\<close>

lemma rows_count:
  assumes "ix_ok db" and "ix_ok db'" and "rows_by_id ul db = rows_by_id ul db'"
  shows "length (ix_files db) = length (ix_files db')"
proof -
  have dom: "dom (rows_by_id ul d) = fr_id ` set (ix_files d)" for d
    by (auto simp: rows_by_id_def row_with_id_def dom_def find_None)
  have "length (ix_files d) = card (dom (rows_by_id ul d))" if "ix_ok d" for d
    using distinct_card [of "map fr_id (ix_files d)"] that unfolding dom by (simp add: ix_ok_def)
  then show ?thesis using assms by simp
qed

lemma seen_unique:
  assumes env: "env_ok alloc env" and s: "seen env a n stamp db" "seen env b n stamp db'"
  shows "rows_by_id ul db = rows_by_id ul db'" and "ix_ok db" and "ix_ok db'"
proof -
  have w: "world_ok alloc (pe_lower (se_packed env)) (se_world env)" "alloc_ok alloc" using env by (simp_all add: env_ok_def)
  have "stamped (se_world env) n stamp db" "stamped (se_world env) n stamp db'" using s by (auto simp: seen_def stamped_def)
  then show "rows_by_id ul db = rows_by_id ul db'" by (rule stamped_unique [OF w])
  show "ix_ok db" "ix_ok db'" using s world_content [OF w(1)] unfolding seen_def db_ok_def by blast+
qed

text \<open>Seeing the published stamp again renews what is published.\<close>

lemma published_renewed:
  assumes env: "env_ok alloc env" and pub: "published env since sv"
    and stamp: "sv_stamp sv = Some stamp" and again: "seen env a (sv_looks sv) stamp db"
  shows "published env a sv"
proof -
  have ready: "sv_backend sv \<noteq> Unavailable" using pub stamp by (auto simp: published_def)
  then obtain db0 where db0: "seen env since (sv_looks sv) stamp db0" "backend_shows env (sv_backend sv) stamp db0 (sv_records_total sv)"
    using pub stamp by (auto simp: published_def)
  have same: "rows_by_id ul db0 = rows_by_id ul db" for ul using seen_unique(1) [OF env db0(1) again] .
  have "stats_total (db_stats (se_db_path env) db0) = stats_total (db_stats (se_db_path env) db)"
    using rows_count [OF seen_unique(2,3) [OF env db0(1) again] same] by (simp add: stats_total_rows)
  then have "backend_shows env (sv_backend sv) stamp db (sv_records_total sv)"
    using db0(2) same by (simp add: backend_shows_def split: backend.splits)
  then show ?thesis using pub ready stamp again unfolding published_def by auto
qed

lemma needs_reload_ok:
  assumes env: "env_ok alloc env" and pub: "published env since sv" and run: "needs_reload env sv = (b, sv')"
  shows "same_published sv sv' \<and> published env since sv' \<and>
    (\<not> b \<longrightarrow> is_ready (sv_backend sv') \<and> published env (sv_looks sv) sv')"
proof (cases "is_ready (sv_backend sv)")
  case False
  then show ?thesis using run pub by (simp add: needs_reload_def same_published_def)
next
  case True
  have world: "world_ok alloc (pe_lower (se_packed env)) (se_world env)" using env by (simp add: env_ok_def)
  have obs: "observer_ok (sv_observer sv)" using pub by (simp add: published_def)
  obtain r observer n where o: "observe (se_world env) (sv_observer sv) (sv_looks sv) = (r, observer, n)"
    by (cases "observe (se_world env) (sv_observer sv) (sv_looks sv)")
  note o_ok = observe_ok [OF world obs o] and o_mono = observe_mono [OF o]
  have sv': "sv' = sv\<lparr>sv_observer := observer, sv_looks := n\<rparr>" using run True o by (auto simp: needs_reload_def split: sum.split_asm)
  have same: "same_published sv sv'" using o_mono by (simp add: sv' same_published_def)
  then have keep: "published env since sv'" by (rule published_same [OF pub]) (use o_ok in \<open>simp add: sv'\<close>)
  have "published env (sv_looks sv) sv'" if fresh: "\<not> b"
  proof -
    obtain current where r: "r = Inr current" "sv_stamp sv = Some current"
      using run True o fresh by (auto simp: needs_reload_def split: sum.split_asm)
    obtain db where "seen env (sv_looks sv) n current db" using o_ok r(1) by (auto simp: seen_def)
    then show ?thesis using published_renewed [OF env keep, of current "sv_looks sv" db] r(2) by (simp add: sv')
  qed
  then show ?thesis using same keep True by (auto simp: sv')
qed

subsection \<open>Reading the changes\<close>

lemma io_mono_changes [io_rules]: "io_mono (read_changes env limits base ix conn target db)"
proof -
  have body: "io_mono (\<lambda>n. case snapshot_diff (placed env ix) (se_late env n) limits ix (index_refs db) of
      None \<Rightarrow> (Inl packed_failure, n)
    | Some (Inr changes) \<Rightarrow> (Inr (Available target changes, ''snapshot_reconcile''), n)
    | Some (Inl reason) \<Rightarrow> (Inr (Fallback reason, ''incremental''), n))" for db target
    by (auto simp: io_mono_def split: option.split sum.split)
  show ?thesis unfolding read_changes_def Let_def by (intro io_rules body)
qed

lemma io_mono_delta [io_rules]: "io_mono (read_delta env limits base ix)"
  unfolding read_delta_def by (intro io_rules) (simp_all add: io_rules split: prod.split)

text \<open>A batch of changes that takes the index to a snapshot.\<close>

definition changes_lead ::
  "service_env \<Rightarrow> compact_index \<Rightarrow> file_change list \<Rightarrow> index_db \<Rightarrow> bool" where
  "changes_lead env ix changes db \<longleftrightarrow>
     (let ul = pe_lower (se_packed env)
      in apply_changes changes (index_contents ix) = rows_by_id ul db \<and> map (packed_change ul) changes = changes \<and>
         (\<forall>i r. (i, Some r) \<in> set changes \<longrightarrow> file_valid (packed_file ul r)))"

lemma diff_answer:
  "(case r of
      None \<Rightarrow> (Inl e, n)
    | Some (Inr changes) \<Rightarrow> (Inr (Available t changes, a), n)
    | Some (Inl reason) \<Rightarrow> (Inr (Fallback reason, b), n)) = (Inr (Available t' changes', m), n') \<Longrightarrow>
   r = Some (Inr changes') \<and> t' = t"
  by (cases r) (auto split: sum.split_asm)

lemma read_changes_ok:
  assumes env: "env_ok alloc env" and ok: "index_ok (se_packed env) ix"
    and contents: "index_contents ix = rows_by_id (pe_lower (se_packed env)) db0"
    and base: "seen env since n0 base db0" and n0: "n0 \<le> m" and content: "dk_content (se_world env m) (cn_identity conn) = Inr db"
    and run: "read_changes env limits base ix conn (content_stamp_of (cn_identity conn) db) db n = (Inr (Available target changes, method), n')"
  shows "target = content_stamp_of (cn_identity conn) db \<and> changes_lead env ix changes db"
proof -
  let ?ul = "pe_lower (se_packed env)" and ?w = "se_world env"
  let ?delta = "file_changes_since ?ul (cn_identity conn) db base max_incremental_events max_incremental_ids"
  have world: "world_ok alloc ?ul ?w" "alloc_ok alloc" "packed_env_ok (se_packed env)" "memory_ok (placed env ix) ix"
    using env by (simp_all add: env_ok_def)
  have valid: "\<forall>r \<in> set (ix_files db). file_valid (row_to_record ?ul r)" by (rule world_rows [OF world(1) content])
  show ?thesis
  proof (cases "?delta = Fallback ''history_gap''")
    case False
    then have delta: "?delta = Available target changes" using run by (auto simp: read_changes_def io_Inr pinned_def Let_def)
    note d = delta [unfolded file_changes_since_def]
    have same: "cs_identity base = cn_identity conn" "cs_database_id base = ix_database_id db"
      using d by (auto simp: file_changes_since_with_byte_limit_def Let_def content_stamp_of_def split: if_split_asm)
    obtain k where k: "k < n0" "dk_content (?w k) (cs_identity base) = Inr db0" "base = content_stamp_of (cs_identity base) db0"
      using base by (auto simp: seen_def)
    have "ix_database_id db = ix_database_id db0" using same(2) k(3) by (metis content_stamp.select_convs(1) content_stamp_of_def)
    then have "(db_move alloc)\<^sup>*\<^sup>* db0 db"
      using world_moves [OF world(1) _ k(2) content [folded same(1)]] k(1) n0 by simp
    then have moved: "moved db0 db" using moves_moved world(2) world_content [OF world(1) k(2)] by blast
    have b: "base = content_stamp_of (cn_identity conn) db0" using k(3) same(1) by simp
    have "apply_changes changes (index_contents ix) = rows_by_id ?ul db"
      using delta_moved [OF moved d [unfolded b]] contents by simp
    moreover have "\<forall>i r. (i, Some r) \<in> set changes \<longrightarrow> file_valid (packed_file ?ul r)"
      using delta_packed(2) [OF d] valid packed_file_read by fastforce
    ultimately show ?thesis
      using delta_packed(1) [OF d] Available_parts(1) [OF d] by (simp add: changes_lead_def)
  next
    case True
    then obtain late where diff: "snapshot_diff (placed env ix) late limits ix (index_refs db) = Some (Inr changes)"
        and target: "target = content_stamp_of (cn_identity conn) db"
      using run by (auto simp: read_changes_def io_Inr pinned_def dest!: diff_answer)
    obtain rows where rows: "index_rows_are (placed env ix) ix rows"
      using ok unfolding placed_index_ok [of env ix, symmetric] by (auto simp: index_ok_def)
    have "ix_ok db" using world_content [OF world(1) content] by (simp add: db_ok_def)
    then have "sorted_wrt (<) (map fr_id (ix_files db))" by (auto simp: ix_ok_def strict_sorted_iff)
    then have srt: "sorted_wrt (<) (map dr_id (index_refs db))" by (simp add: index_refs_def comp_def borrow_record_def)
    have v: "\<forall>d \<in> set (index_refs db). file_valid (file_of_ref (pe_lower (placed env ix)) d)"
      using valid packed_file_stored by (auto simp: index_refs_def packed_file_def)
    show ?thesis
      using snapshot_diff_exact(1) [OF rows world(4) srt diff] snapshot_diff_changes [OF rows world(4) srt v diff] target
      by (simp add: changes_lead_def refs_map_index)
  qed
qed

lemma read_delta_ok:
  assumes env: "env_ok alloc env" and ok: "index_ok (se_packed env) ix"
    and contents: "index_contents ix = rows_by_id (pe_lower (se_packed env)) db0"
    and base: "seen env since n base db0"
    and run: "read_delta env limits base ix n = (Inr (Available target changes, method), n')"
  shows "n \<le> n' \<and> (\<exists>db. seen env n n' target db \<and> changes_lead env ix changes db)"
proof -
  let ?w = "se_world env"
  have world: "world_ok alloc (pe_lower (se_packed env)) ?w" using env by (simp add: env_ok_def)
  obtain conn k stamp where r: "open_read_only ?w n = (Inr conn, k)"
      "with_read_snapshot ?w conn (\<lambda>target db. read_changes env limits base ix conn target db) k =
        (Inr (stamp, (Available target changes, method)), n')"
    using run by (auto simp: read_delta_def io_Inr)
  have conn: "cn_file conn = cn_identity conn" "k = n + 3" using open_read_only_ok [OF world r(1)] by simp_all
  obtain db k' where db: "dk_content (?w (k + 1)) (cn_identity conn) = Inr db" "stamp = content_stamp_of (cn_identity conn) db"
      "read_changes env limits base ix conn stamp db (k + 2) = (Inr (Available target changes, method), k')" "n' = k' + 1"
    using with_read_snapshot_Inr [OF r(2)] conn(1) by auto
  have n': "n \<le> n'" using io_mono_look [OF io_mono_delta run] .
  have lead: "target = content_stamp_of (cn_identity conn) db \<and> changes_lead env ix changes db"
    by (rule read_changes_ok [OF env ok contents base _ db(1) db(3) [unfolded db(2)]]) (simp add: conn(2))
  have "k + 2 \<le> k'"
    using io_mono_look [OF io_mono_changes db(3)] .
  then have "seen env n n' target db" using lead db conn(2) by (auto simp: seen_def intro!: exI [of _ "k + 1"])
  then show ?thesis using lead n' by blast
qed

subsection \<open>Applying them\<close>

text \<open>
  What a refresh from \<open>sv\<close> leaves: time went on and the invariant holds; after a success the
  service is ready, and the published snapshot was read during the refresh.
\<close>

definition caught_up :: "service_env \<Rightarrow> nat \<Rightarrow> service \<Rightarrow> (error + unit) \<times> service \<Rightarrow> bool" where
  "caught_up env since sv r \<longleftrightarrow>
     sv_looks sv \<le> sv_looks (snd r) \<and> sv_requested (snd r) = sv_requested sv \<and> published env since (snd r) \<and>
     (fst r = Inr () \<longrightarrow> is_ready (sv_backend (snd r)) \<and> published env (sv_looks sv) (snd r))"

lemma refreshed_caught_up:
  assumes "refreshed env sv' r" and "sv_looks sv \<le> sv_looks sv'" and "sv_requested sv' = sv_requested sv" and "since \<le> sv_looks sv"
  shows "caught_up env since sv r"
  using assms published_earlier
  by (auto simp: refreshed_def caught_up_def Let_def split: sum.split_asm)

lemma full_reload_caught_up:
  assumes "env_ok alloc env" and "observer_ok (sv_observer sv')" and "sv_looks sv \<le> sv_looks sv'"
    and "sv_requested sv' = sv_requested sv" and "since \<le> sv_looks sv"
  shows "caught_up env since sv (full_reload_with_capture env method reason capture sv')"
  using refreshed_caught_up [OF full_reload_refreshed [OF assms(1,2)] assms(3-5)] .

lemma apply_delta_caught_up:
  assumes env: "env_ok alloc env" and obs: "observer_ok (sv_observer sv0)"
    and backend: "sv_backend sv0 = Packed ix" "sv_selected sv0 \<noteq> Auto" and ok: "index_ok (se_packed env) ix"
    and looks: "since \<le> sv_looks sv" "sv_looks sv \<le> sv_looks sv0" "sv_requested sv0 = sv_requested sv"
    and target: "seen env (sv_looks sv) (sv_looks sv0) target db" and lead: "changes_lead env ix changes db"
  shows "caught_up env since sv (apply_delta_with_method env target changes method sv0)"
proof -
  let ?ul = "pe_lower (se_packed env)"
  define sv1 where "sv1 = publish_memory env ''incremental_before'' sv0"
  have sv1: "sv_backend sv1 = Packed ix" "sv_looks sv1 = sv_looks sv0" "sv_observer sv1 = sv_observer sv0"
    "sv_requested sv1 = sv_requested sv" "sv_selected sv1 = sv_selected sv0"
    using backend looks publish_memory_same(1) [of sv0] by (simp_all add: sv1_def same_published_def)
  have world: "packed_env_ok (placed env ix)" "memory_ok (placed env ix) ix" "index_ok (placed env ix) ix"
    using env ok by (simp_all add: env_ok_def placed_env_ok placed_index_ok)
  have valid: "\<forall>i r. (i, Some r) \<in> set changes \<longrightarrow> file_valid (packed_file (pe_lower (placed env ix)) r)"
    using lead by (simp add: changes_lead_def Let_def)
  note apply_def = apply_delta_with_method_def Let_def sv1_def [symmetric]
  show ?thesis
  proof (cases "index_apply_changes (placed env ix) changes ix")
    case None
    let ?sv = "(invalidate_backend sv1)\<lparr>sv_pending_reason := Some ''apply_failed'', sv_fallback_reason := Some ''apply_failed'',
                    sv_method := ''incremental_failed'', sv_refresh_error := Some (error_text packed_failure)\<rparr>"
    have "published env since ?sv" using obs sv1 by (simp add: published_def invalidate_backend_def)
    then have "published env since (publish_memory env ''incremental_failed'' ?sv)"
      by (rule published_same) (use obs sv1 in \<open>simp_all add: invalidate_backend_def\<close>)
    then show ?thesis using None sv1 looks unfolding apply_def caught_up_def by (simp add: invalidate_backend_def)
  next
    case (Some p)
    obtain outcome ix' where p: "p = (outcome, ix')" by (cases p)
    show ?thesis
    proof (cases outcome)
      case (NeedsFullReload reason)
      then have "apply_delta_with_method env target changes method sv0 =
          full_reload_with_capture env ''fallback_full'' (Some reason) False sv1"
        using Some p sv1 unfolding apply_def by simp
      then show ?thesis using full_reload_caught_up [OF env, of sv1 sv since] obs sv1 looks by simp
    next
      case Applied
      have run: "index_apply_changes (placed env ix) changes ix = Some (Applied, ix')" using Some p Applied by simp
      have applied: "index_ok (placed env ix) ix' \<and>
          index_contents ix' = apply_changes (map (packed_change ?ul) changes) (index_contents ix)"
        using packed_apply [OF world valid run [unfolded index_apply_changes_def]] by simp
      then have shows_ix': "index_ok (se_packed env) ix'" "index_contents ix' = rows_by_id ?ul db"
        using lead by (simp_all add: changes_lead_def Let_def placed_index_ok)
      let ?sel = "if sv_requested sv1 = Auto then select_backend (se_budget env) Auto (int (ci_len ix')) else sv_selected sv1"
      show ?thesis
      proof (cases "?sel = SqliteBackend")
        case True
        have "apply_delta_with_method env target changes method sv0 =
            full_reload env ''fallback_full'' (Some ''auto_backend_change'') (sv1\<lparr>sv_backend := Packed ix'\<rparr>)"
          unfolding apply_def sv1(1) backend.case run using True by (cases "sv_requested sv1 = Auto") simp_all
        then show ?thesis
          using full_reload_caught_up [OF env, of "sv1\<lparr>sv_backend := Packed ix'\<rparr>" sv since] obs sv1 looks
          by (simp add: full_reload_def)
      next
        case False
        let ?sv = "(sv1\<lparr>sv_backend := Packed ix'\<rparr>)\<lparr>sv_stamp := Some target, sv_records_total := int (ci_len ix'), sv_selected := ?sel,
                         sv_estimated_bytes := estimate_backend_memory_bytes ?sel (int (ci_len ix')),
                         sv_refreshed_at := se_clock env (sv_looks sv1),
                         sv_incremental_applies := saturating_u64 (sv_incremental_applies sv1) 1,
                         sv_incremental_change_ids := saturating_u64 (sv_incremental_change_ids sv1) (length changes),
                         sv_last_change_ids := length changes, sv_method := method, sv_fallback_reason := None,
                         sv_load_error := None, sv_refresh_error := None\<rparr>"
        have out: "apply_delta_with_method env target changes method sv0 = (Inr (), publish_memory env ''incremental_after'' ?sv)"
          unfolding apply_def sv1(1) backend.case run using False by (cases "sv_requested sv1 = Auto") simp_all
        have sel: "?sel \<noteq> Auto" using select_backend_not_auto backend(2) sv1(5) by auto
        have "published env (sv_looks sv) ?sv"
          using obs sv1 sel target shows_ix' by (auto simp: published_def backend_shows_def)
        then have "published env (sv_looks sv) (publish_memory env ''incremental_after'' ?sv)"
          by (rule published_same) (use obs sv1 in simp_all)
        then show ?thesis
          unfolding out caught_up_def using published_earlier [OF _ looks(1)] looks sv1 by (simp add: is_ready_def)
      qed
    qed
  qed
qed

subsection \<open>The refresh\<close>

lemma reload_caught_up:
  assumes env: "env_ok alloc env" and pub: "published env since sv0" and since: "since \<le> sv_looks sv0"
  shows "caught_up env since sv0 (reload_if_changed_with_limits env limits sv0)"
proof -
  have world: "world_ok alloc (pe_lower (se_packed env)) (se_world env)" using env by (simp add: env_ok_def)
  obtain b sv where check: "needs_reload env sv0 = (b, sv)" by (cases "needs_reload env sv0")
  note c = needs_reload_ok [OF env pub check]
  have looks: "sv_looks sv0 \<le> sv_looks sv" "sv_requested sv = sv_requested sv0" using c by (simp_all add: same_published_def)
  have obs: "observer_ok (sv_observer sv)" using c by (simp add: published_def)
  have full: "caught_up env since sv0 (full_reload env how reason sv')"
    if "observer_ok (sv_observer sv')" "sv_looks sv0 \<le> sv_looks sv'" "sv_requested sv' = sv_requested sv0" for sv' how reason
    unfolding full_reload_def by (rule full_reload_caught_up [OF env that since])
  consider (fresh) "\<not> b" | (gone) "b" "\<not> is_ready (sv_backend sv)" | (stale) "b" "is_ready (sv_backend sv)" by blast
  then show ?thesis
  proof cases
    case fresh
    then have "reload_if_changed_with_limits env limits sv0 = (Inr (), sv)" using check by (simp add: reload_if_changed_with_limits_def)
    then show ?thesis using fresh c looks by (simp add: caught_up_def)
  next
    case gone
    then have "reload_if_changed_with_limits env limits sv0 = full_reload env ''fallback_full''
        (Some (case sv_pending_reason sv of Some r \<Rightarrow> r | None \<Rightarrow> ''index_unavailable'')) sv"
      using check by (simp add: reload_if_changed_with_limits_def)
    then show ?thesis using full [OF obs looks] by simp
  next
    case stale
    obtain r observer n where o: "observe (se_world env) (sv_observer sv) (sv_looks sv) = (r, observer, n)"
      by (cases "observe (se_world env) (sv_observer sv) (sv_looks sv)")
    note o_ok = observe_ok [OF world obs o] and o_mono = observe_mono [OF o]
    define sv1 where "sv1 = sv\<lparr>sv_observer := observer, sv_looks := n\<rparr>"
    have sv1: "observer_ok (sv_observer sv1)" "sv_looks sv0 \<le> sv_looks sv1" "sv_requested sv1 = sv_requested sv0"
      "sv_backend sv1 = sv_backend sv" "sv_stamp sv1 = sv_stamp sv"
      using o_ok o_mono looks by (simp_all add: sv1_def)
    have pub1: "published env since sv1"
      by (rule published_same [of _ _ sv]) (use c o_mono sv1 in \<open>simp_all add: sv1_def same_published_def\<close>)
    note run = reload_if_changed_with_limits_def check prod.case bool.case o sv1_def [symmetric] Let_def
    show ?thesis
    proof (cases r)
      case (Inl e)
      have "reload_if_changed_with_limits env limits sv0 = full_reload env ''fallback_full'' (Some ''database_unavailable'') sv1"
        unfolding run using stale Inl by simp
      then show ?thesis using full [OF sv1(1-3)] by simp
    next
      case (Inr current)
      obtain base db0 where base: "sv_stamp sv1 = Some base" "seen env since (sv_looks sv1) base db0"
          "backend_shows env (sv_backend sv1) base db0 (sv_records_total sv1)"
        using pub1 stale sv1(4) by (auto simp: published_def is_ready_def)
      show ?thesis
      proof (cases "cs_database_id current \<noteq> cs_database_id base \<or> cs_identity current \<noteq> cs_identity base")
        case True
        have "reload_if_changed_with_limits env limits sv0 = full_reload env ''fallback_full'' (Some ''database_replaced'') sv1"
          unfolding run using stale Inr base(1) True by simp
        then show ?thesis using full [OF sv1(1-3)] by simp
      next
        case same: False
        show ?thesis
        proof (cases "sv_backend sv1")
          case (Packed ix)
          define sv2 where "sv2 = sv1\<lparr>sv_incremental_attempts := saturating_u64 (sv_incremental_attempts sv1) 1\<rparr>"
          have ok: "index_ok (se_packed env) ix" "index_contents ix = rows_by_id (pe_lower (se_packed env)) db0"
            using base(3) Packed by (simp_all add: backend_shows_def)
          obtain d n1 where delta: "read_delta env limits base ix (sv_looks sv2) = (d, n1)"
            by (cases "read_delta env limits base ix (sv_looks sv2)")
          have n1: "sv_looks sv1 \<le> n1" using io_mono_look [OF io_mono_delta delta] by (simp add: sv2_def)
          have sv2: "observer_ok (sv_observer (sv2\<lparr>sv_looks := n1\<rparr>))" "sv_looks sv0 \<le> sv_looks (sv2\<lparr>sv_looks := n1\<rparr>)"
            "sv_requested (sv2\<lparr>sv_looks := n1\<rparr>) = sv_requested sv0"
            using sv1 n1 by (simp_all add: sv2_def)
          have out: "reload_if_changed_with_limits env limits sv0 = (case (d, n1) of
                (Inr (Fallback reason, _), n1) \<Rightarrow> full_reload env ''fallback_full'' (Some reason) (sv2\<lparr>sv_looks := n1\<rparr>)
              | (Inr (Available target changes, method), n1) \<Rightarrow>
                  apply_delta_with_method env target changes method (sv2\<lparr>sv_looks := n1\<rparr>)
              | (Inl e, n1) \<Rightarrow>
                  (Inl e, publish_memory env ''incremental_read_failed''
                    (sv2\<lparr>sv_method := ''incremental_failed'', sv_refresh_error := Some (error_text e), sv_looks := n1\<rparr>)))"
            unfolding run delta [symmetric] sv2_def using stale Inr base(1) same Packed by simp
          show ?thesis
          proof (cases d)
            case (Inl e)
            let ?sv = "sv2\<lparr>sv_method := ''incremental_failed'', sv_refresh_error := Some (error_text e), sv_looks := n1\<rparr>"
            have "published env since (publish_memory env ''incremental_read_failed'' ?sv)"
            proof (rule published_same)
              show "published env since ?sv"
                by (rule published_same [OF pub1]) (use n1 sv1(1) in \<open>simp_all add: sv2_def same_published_def\<close>)
            qed (use sv2 in simp_all)
            then show ?thesis unfolding out Inl caught_up_def using sv2 by simp
          next
            case (Inr p)
            show ?thesis
            proof (cases "fst p")
              case (Fallback reason)
              then have "reload_if_changed_with_limits env limits sv0 =
                  full_reload env ''fallback_full'' (Some reason) (sv2\<lparr>sv_looks := n1\<rparr>)"
                unfolding out Inr by (cases p) simp
              then show ?thesis using full [OF sv2] by simp
            next
              case (Available target changes)
              obtain how where p: "p = (Available target changes, how)" using Available by (cases p) simp
              have "seen env since (sv_looks sv2) base db0" using base(2) by (simp add: sv2_def)
              note read = read_delta_ok [OF env ok this delta [unfolded Inr p]]
              obtain db where db: "seen env (sv_looks sv2) n1 target db" "changes_lead env ix changes db" using read by blast
              have at: "seen env (sv_looks sv0) (sv_looks (sv2\<lparr>sv_looks := n1\<rparr>)) target db"
                using seen_wider [OF db(1), of "sv_looks sv0" n1] sv1(2) by (simp add: sv2_def)
              have "caught_up env since sv0 (apply_delta_with_method env target changes how (sv2\<lparr>sv_looks := n1\<rparr>))"
                by (rule apply_delta_caught_up [OF env sv2(1) _ _ ok(1) since sv2(2,3) at db(2)])
                   (use Packed pub1 stale sv1(4) in \<open>auto simp: sv2_def published_def is_ready_def\<close>)
              then show ?thesis unfolding out Inr p by simp
            qed
          qed
        next
          case (SqliteDb conn)
          have "reload_if_changed_with_limits env limits sv0 = full_reload env ''fallback_full'' (Some ''backend_not_packed'') sv1"
            unfolding run using stale Inr base(1) same SqliteDb by simp
          then show ?thesis using full [OF sv1(1-3)] by simp
        next
          case Unavailable
          then show ?thesis using stale sv1(4) by (simp add: is_ready_def)
        qed
      qed
    qed
  qed
qed

end
