(* ===== verification/Requests.thy ===== *)
theory Requests
  imports Service_Correct
begin

text \<open>
  \<open>handle_stream\<close> of \<open>src/src/server.rs\<close>: from the bytes of a request to its response and the
  effect on the service, and the interleaving of requests: each section under the lock of the
  service is one step.
\<close>

definition json_type :: str where "json_type = ''application/json''"
definition text_type :: str where "text_type = ''text/plain; charset=utf-8''"

definition line_of :: "str \<Rightarrow> str" where "line_of s = s @ [CHR 0x0A]"

definition unavailable_response :: str where
  "unavailable_response =
     write_response ''503 Service Unavailable'' text_type (line_of ''search index unavailable; retry the latest query'')"

definition handle_reload :: "service_env \<Rightarrow> service \<Rightarrow> str \<times> service" where
  "handle_reload env sv =
     (let (r, sv1) = reload env sv;
          status = (case r of Inr _ \<Rightarrow> ''200 OK'' | Inl _ \<Rightarrow> ''503 Service Unavailable'');
          (body, sv2) = status_json env sv1
      in (write_response status json_type body, sv2))"

definition handle_status :: "service_env \<Rightarrow> service \<Rightarrow> str \<times> service" where
  "handle_status env sv = (let (body, sv1) = status_json env sv in (write_response ''200 OK'' json_type body, sv1))"

text \<open>The last part of a search, under the read lock.\<close>

definition answer_search :: "service_env \<Rightarrow> search_options \<Rightarrow> service \<Rightarrow> str \<times> service" where
  "answer_search env options sv =
     (case service_search env options sv of
        (Inr results, sv1) \<Rightarrow> (write_response ''200 OK'' json_type (search_results_json results), sv1)
      | (Inl _, sv1) \<Rightarrow> (unavailable_response, sv1))"

definition handle_search :: "service_env \<Rightarrow> bool \<Rightarrow> str \<Rightarrow> service \<Rightarrow> (error + str) \<times> service" where
  "handle_search env acquired query_text sv =
     (case parse_search_options (pe_lower (se_packed env)) query_text of
        Inl e \<Rightarrow> (Inl e, sv)
      | Inr options \<Rightarrow>
          if \<not> acquired
          then (Inr (write_response ''503 Service Unavailable'' text_type (line_of ''search busy; retry the latest query'')), sv)
          else (case ensure_fresh env sv of
                  (Inl _, sv1) \<Rightarrow> (Inr unavailable_response, sv1)
                | (Inr _, sv1) \<Rightarrow> map_prod Inr id (answer_search env options sv1)))"

text \<open>\<open>acquired\<close>: whether a search finds a free slot.\<close>

definition respond :: "service_env \<Rightarrow> str option \<Rightarrow> bool \<Rightarrow> str \<Rightarrow> service \<Rightarrow> (error + str) \<times> service" where
  "respond env auth_token acquired request sv =
     (case str_lines request of
        [] \<Rightarrow> (Inr (write_response ''400 Bad Request'' ''text/plain'' (line_of ''bad request'')), sv)
      | first_line # _ \<Rightarrow>
          let parts = split_whitespace first_line;
              method = (case parts of m # _ \<Rightarrow> m | [] \<Rightarrow> []);
              target = (case parts of _ # t # _ \<Rightarrow> t | _ \<Rightarrow> [])
          in if method \<noteq> ''GET'' \<and> method \<noteq> ''POST''
          then (Inr (write_response ''405 Method Not Allowed'' text_type (line_of ''method not allowed'')), sv)
          else let (path, query_text) = split_target target
          in if path \<noteq> ''/health'' \<and> (case auth_token of Some expected \<Rightarrow> \<not> request_has_valid_token request expected | None \<Rightarrow> False)
          then (Inr (write_response ''401 Unauthorized'' text_type (line_of ''unauthorized'')), sv)
          else if path = ''/health'' then (Inr (write_response ''200 OK'' json_type (line_of (''{'' @ json_field ''ok'' ''true'' @ ''}''))), sv)
          else if path = ''/reload'' then map_prod Inr id (handle_reload env sv)
          else if path = ''/status'' then map_prod Inr id (handle_status env sv)
          else if path = ''/search'' then handle_search env acquired query_text sv
          else (Inr (write_response ''404 Not Found'' text_type (line_of ''not found'')), sv))"

definition handle_stream ::
  "service_env \<Rightarrow> str option \<Rightarrow> bool \<Rightarrow> (bool \<times> read_result) list \<Rightarrow> service \<Rightarrow> ((error + str) \<times> service) option" where
  "handle_stream env auth_token acquired reads sv =
     map_option (\<lambda>r. case r of Inl e \<Rightarrow> (Inl e, sv) | Inr request \<Rightarrow> respond env auth_token acquired request sv)
       (read_request reads)"

subsection \<open>Interleaving\<close>

text \<open>
  The sections under the lock, of any thread: the check and the refresh of a search, the search
  itself, a forced reload, a status; and time passes between them.
\<close>

inductive service_step :: "service_env \<Rightarrow> service \<Rightarrow> service \<Rightarrow> bool" for env where
  step_check: "service_step env sv (snd (needs_reload env sv))"
| step_refresh: "service_step env sv (snd (reload_if_changed env sv))"
| step_answer: "service_step env sv (snd (service_search env options sv))"
| step_reload: "service_step env sv (snd (reload env sv))"
| step_status: "service_step env sv (snd (status_json env sv))"
| step_time: "sv_looks sv \<le> n \<Longrightarrow> service_step env sv (sv\<lparr>sv_looks := n\<rparr>)"

inductive_cases service_stepE: "service_step env sv sv'"

lemma search_same: "same_published sv (snd (service_search env options sv)) \<and>
    sv_observer (snd (service_search env options sv)) = sv_observer sv"
proof (cases "sv_backend sv")
  case (SqliteDb conn)
  then show ?thesis
    by (simp add: service_search_def same_published_def statement_def split: sum.split option.split)
qed (simp_all add: service_search_def same_published_def split: option.split)

lemma status_published:
  assumes env: "env_ok alloc env" and pub: "published env since sv"
  shows "published env since (snd (status_json env sv)) \<and> sv_looks sv \<le> sv_looks (snd (status_json env sv)) \<and>
    sv_backend (snd (status_json env sv)) = sv_backend sv"
proof -
  have world: "world_ok alloc (pe_lower (se_packed env)) (se_world env)" using env by (simp add: env_ok_def)
  have obs: "observer_ok (sv_observer sv)" using pub by (simp add: published_def)
  obtain r observer n where o: "observe (se_world env) (sv_observer sv) (sv_looks sv) = (r, observer, n)"
    by (cases "observe (se_world env) (sv_observer sv) (sv_looks sv)")
  have out: "snd (status_json env sv) = sv\<lparr>sv_observer := observer, sv_looks := n\<rparr>"
    by (simp add: status_json_def o Let_def)
  have "published env since (sv\<lparr>sv_observer := observer, sv_looks := n\<rparr>)"
    by (rule published_same [OF pub])
       (use observe_ok [OF world obs o] observe_mono [OF o] in \<open>simp_all add: same_published_def\<close>)
  then show ?thesis using observe_mono [OF o] unfolding out by simp
qed

lemma reload_published:
  assumes env: "env_ok alloc env" and pub: "published env since sv" and since: "since \<le> sv_looks sv"
  shows "published env since (snd (reload env sv)) \<and> sv_looks sv \<le> sv_looks (snd (reload env sv))"
proof -
  have "observer_ok (sv_observer sv)" using pub by (simp add: published_def)
  from full_reload_caught_up [OF env this order_refl refl since]
  show ?thesis by (simp add: reload_def full_reload_def caught_up_def)
qed

lemma step_published:
  assumes env: "env_ok alloc env" and step: "service_step env sv sv'"
    and pub: "published env since sv" and since: "since \<le> sv_looks sv"
  shows "published env since sv' \<and> sv_looks sv \<le> sv_looks sv'"
  using step
proof (cases rule: service_step.cases)
  case step_check
  then show ?thesis
    using needs_reload_ok [OF env pub, of "fst (needs_reload env sv)" "snd (needs_reload env sv)"]
    by (auto simp: same_published_def)
next
  case step_refresh
  then show ?thesis
    using reload_caught_up [OF env pub since] by (auto simp: reload_if_changed_def caught_up_def)
next
  case (step_answer options)
  have "observer_ok (sv_observer sv')" using search_same [of sv env options] pub step_answer by (simp add: published_def)
  then show ?thesis
    using published_same [OF pub] search_same [of sv env options] step_answer by (simp add: same_published_def)
next
  case step_reload
  then show ?thesis using reload_published [OF env pub since] by simp
next
  case step_status
  then show ?thesis using status_published [OF env pub] by simp
next
  case (step_time n)
  then show ?thesis using published_same [OF pub, of sv'] pub by (simp add: same_published_def published_def [of env since sv])
qed

lemma steps_published:
  assumes env: "env_ok alloc env" and steps: "(service_step env)\<^sup>*\<^sup>* sv sv'"
    and pub: "published env since sv" and since: "since \<le> sv_looks sv"
  shows "published env since sv' \<and> sv_looks sv \<le> sv_looks sv'"
  using steps
proof (induction rule: rtranclp_induct)
  case base
  show ?case using pub by simp
next
  case (step y z)
  then show ?case using step_published [OF env step(2)] since by (meson order_trans)
qed

lemma ensure_fresh_ok:
  assumes env: "env_ok alloc env" and pub: "published env since sv" and since: "since \<le> sv_looks sv"
    and run: "ensure_fresh env sv = (r, sv')"
  shows "published env since sv' \<and> sv_looks sv \<le> sv_looks sv' \<and>
    (r = Inr () \<longrightarrow> is_ready (sv_backend sv') \<and> published env (sv_looks sv) sv')"
proof -
  obtain b sv1 where check: "needs_reload env sv = (b, sv1)" by (cases "needs_reload env sv")
  note c = needs_reload_ok [OF env pub check]
  have looks: "sv_looks sv \<le> sv_looks sv1" using c by (simp add: same_published_def)
  show ?thesis
  proof (cases b)
    case False
    then show ?thesis using run check c looks by (auto simp: ensure_fresh_def)
  next
    case True
    then have "caught_up env since sv1 (r, sv')"
      using reload_caught_up [OF env, of since sv1 snapshot_diff_limits] run check c since looks
      by (auto simp: ensure_fresh_def reload_if_changed_def)
    then show ?thesis using looks published_earlier [of env "sv_looks sv1" sv' "sv_looks sv"] by (auto simp: caught_up_def)
  qed
qed

subsection \<open>What a search sees\<close>

lemma find_sorted_eq:
  assumes "sorted_wrt (<) (map fr_id xs)" and "sorted_wrt (<) (map fr_id ys)"
    and "\<And>i. List.find (\<lambda>x. fr_id x = i) xs = List.find (\<lambda>x. fr_id x = i) ys"
  shows "xs = ys"
proof -
  have d: "distinct (map fr_id xs)" "distinct (map fr_id ys)" "sorted (map fr_id xs)" "sorted (map fr_id ys)"
    using assms(1,2) by (simp_all add: strict_sorted_iff)
  have set: "set xs = set ys"
  proof -
    have "x \<in> set xs \<longleftrightarrow> List.find (\<lambda>y. fr_id y = fr_id x) xs = Some x" for x using find_unique [OF d(1)] by auto
    moreover have "x \<in> set ys \<longleftrightarrow> List.find (\<lambda>y. fr_id y = fr_id x) ys = Some x" for x using find_unique [OF d(2)] by auto
    ultimately show ?thesis using assms(3) by (intro set_eqI) metis
  qed
  have "inj_on fr_id (set xs \<union> set ys)" using d(1) set by (simp add: distinct_map)
  then show ?thesis using map_sorted_distinct_set_unique [OF _ d(3) d(1) d(4) d(2) set] by blast
qed

lemma index_files_stored:
  assumes ok: "index_ok env ix" and contents: "index_contents ix = rows_by_id ul db" and db: "ix_ok db"
  shows "index_files ix = Some (map (row_to_record ul) (ix_files db))"
proof -
  obtain rows where rows: "index_rows_are env ix rows" using ok by (auto simp: index_ok_def)
  have "map snd (filter fst rows) = map (row_to_record ul) (ix_files db)"
  proof (rule find_sorted_eq)
    have "sorted_wrt (<) (map fr_id (map snd (filter fst rows)))" if "sorted_wrt (<) (row_ids rows)" for rows :: packed_rows
      using that by (induction rows) (auto simp: row_ids_def)
    then show "sorted_wrt (<) (map fr_id (map snd (filter fst rows)))" using index_rows_sorted [OF rows] by blast
    show "sorted_wrt (<) (map fr_id (map (row_to_record ul) (ix_files db)))"
      using db by (simp add: ix_ok_def strict_sorted_iff comp_def row_to_record_def)
    fix i
    have "List.find (\<lambda>x. fr_id x = i) (map snd (filter fst rs)) = live_map rs i" for rs :: packed_rows
    proof (induction rs)
      case (Cons p rs)
      then show ?case by (cases p) (simp add: live_map_def)
    qed (simp add: live_map_def)
    moreover have "List.find (\<lambda>x. fr_id x = i) (map (row_to_record ul) rs) =
        map_option (row_to_record ul) (List.find (\<lambda>r. fr_id r = i) rs)" for rs
      by (induction rs) (auto simp: row_to_record_def)
    ultimately show "List.find (\<lambda>x. fr_id x = i) (map snd (filter fst rows)) =
        List.find (\<lambda>x. fr_id x = i) (map (row_to_record ul) (ix_files db))"
      using contents index_contents_rows [OF rows, of i] by (simp add: rows_by_id_def row_with_id_def)
  qed
  then show ?thesis using index_files_rows [OF rows] by simp
qed

lemma load_published:
  assumes env: "env_ok alloc env" and load: "service_load env requested audit n = (Inr sv, n')"
  shows "published env 0 sv"
proof -
  have world: "world_ok alloc (pe_lower (se_packed env)) (se_world env)" using env by (simp add: env_ok_def)
  obtain c n1 observer n2 where r: "database_open (se_world env) n = (Inr c, n1)" "open_read_only (se_world env) n1 = (Inr observer, n2)"
      "sv = snd (full_reload env ''startup_full'' None (service_new requested (Some observer) audit n2))"
    using load unfolding service_load_def Let_def by (auto simp: io_bind_Inr)
  have "observer_ok (sv_observer (service_new requested (Some observer) audit n2))"
    using open_read_only_ok [OF world r(2)] by (simp add: service_new_def observer_ok_def)
  from full_reload_caught_up [OF env this order_refl refl le0]
  show ?thesis unfolding r(3) full_reload_def caught_up_def by blast
qed

subsection \<open>Failures\<close>

lemma full_reload_failed:
  assumes "full_reload_with_capture env method reason capture sv = (Inl e, sv')"
  shows "sv_backend sv' = Unavailable"
proof -
  have cache: "sv_backend (cache_memory env phase s) = sv_backend s" for phase s
    using cache_memory_same(1) [of s env phase] by (simp add: same_published_def)
  show ?thesis
    using assms by (auto simp: full_reload_with_capture_def Let_def cache invalidate_backend_def split: prod.split_asm sum.split_asm)
qed

lemma apply_delta_failed:
  assumes "apply_delta_with_method env target changes method sv = (Inl e, sv')"
  shows "sv_backend sv' = Unavailable"
  using assms
  by (auto simp: apply_delta_with_method_def full_reload_def invalidate_backend_def Let_def dest: full_reload_failed
      split: backend.split_asm option.split_asm prod.split_asm apply_outcome.split_asm if_split_asm)

lemma needs_reload_keeps:
  assumes "needs_reload env sv = (b, sv')"
  shows "sv_backend sv' = sv_backend sv \<and> sv_stamp sv' = sv_stamp sv"
  using assms by (auto simp: needs_reload_def split: if_split_asm prod.split_asm sum.split_asm)

lemma reload_if_changed_failed:
  assumes "reload_if_changed_with_limits env limits sv0 = (Inl e, sv')"
  shows "sv_backend sv' = Unavailable \<or> sv_backend sv' = sv_backend sv0 \<and> sv_stamp sv' = sv_stamp sv0"
proof -
  obtain b sv where check: "needs_reload env sv0 = (b, sv)" by (cases "needs_reload env sv0")
  note keep = needs_reload_keeps [OF check]
  obtain r observer n where o: "observe (se_world env) (sv_observer sv) (sv_looks sv) = (r, observer, n)"
    by (cases "observe (se_world env) (sv_observer sv) (sv_looks sv)")
  show ?thesis
    using assms keep
    unfolding reload_if_changed_with_limits_def check o Let_def prod.case
    by (auto simp: full_reload_def dest: full_reload_failed apply_delta_failed
        split: bool.split_asm if_split_asm sum.split_asm option.split_asm backend.split_asm prod.split_asm file_change_read.split_asm)
qed

subsection \<open>An example\<close>

text \<open>The texts of the pool of an index, one after the other.\<close>

definition heap_layout :: "compact_index \<Rightarrow> memory \<times> (u32 \<Rightarrow> usize)" where
  "heap_layout ix =
     (let texts = pp_values (ci_prefixes ix)
      in (\<lambda>a. concat texts ! a, \<lambda>i. if i = no_prefix then 0 else length (concat (take (unat i) texts))))"

lemma heap_layout_ok:
  assumes "pe_memory env = fst (heap_layout ix)" and "pe_address env = snd (heap_layout ix)"
  shows "memory_ok env ix"
  unfolding memory_ok_def
proof (intro allI impI)
  fix i p
  let ?texts = "pp_values (ci_prefixes ix)"
  assume p: "pool_get (ci_prefixes ix) i = Some p"
  show "map (pe_memory env) [pe_address env i..<pe_address env i + length p] = p"
  proof (cases "i = no_prefix")
    case True
    then show ?thesis using p by (simp add: pool_get_def)
  next
    case False
    then have at: "unat i < length ?texts" "?texts ! unat i = p"
      using p by (auto simp: pool_get_def vec_get_def split: if_split_asm)
    have split: "concat ?texts = concat (take (unat i) ?texts) @ p @ concat (drop (Suc (unat i)) ?texts)"
      using id_take_nth_drop [OF at(1)] at(2) by (metis concat.simps(2) concat_append)
    have "map ((!) (xs @ ys @ zs)) [length xs..<length xs + length ys] = ys" for xs ys zs :: str
      by (rule nth_equalityI) (simp_all add: nth_append)
    then show ?thesis using False assms split by (simp add: heap_layout_def Let_def)
  qed
qed

definition example_world :: world where
  "example_world = (\<lambda>_. \<lparr>dk_at_path = Inr (1, 2), dk_content = (\<lambda>_. Inr example_db)\<rparr>)"

definition example_sizes :: heap_sizes where
  "example_sizes = \<lparr>hs_record = 80, hs_block_capacity = length, hs_containers = (\<lambda>_. 1000)\<rparr>"

definition example_traffic :: traffic where
  "example_traffic = \<lparr>tr_http_accepted = 0, tr_http_completed = 0, tr_http_rejected = 0, tr_searches_started = 0, tr_searches_completed = 0\<rparr>"

definition example_service_env :: service_env where
  "example_service_env =
     \<lparr>se_world = example_world, se_packed = example_env, se_layout = heap_layout, se_budget = None, se_clock = (\<lambda>_. 0),
      se_late = (\<lambda>_ _. False), se_sizes = example_sizes, se_token = length, se_plan = rev, se_utf8 = True,
      se_audit_clock = (\<lambda>n. (n, n, n)), se_traffic = (\<lambda>_. example_traffic), se_db_path = ''/db''\<rparr>"

lemma example_service_env_ok: "env_ok example_alloc example_service_env"
proof -
  have stored: "row_to_record id (file_of_ref id example_ref) = file_of_ref id example_ref" by code_simp
  have low: "pe_lower example_env = id" by (simp add: example_env_def)
  have "db_ok example_db" by (simp add: db_ok_def ix_ok_def journal_ok_def example_db_def empty_db_def)
  then have "world_ok example_alloc (pe_lower example_env) example_world"
    using stored example_file_valid low by (auto simp: world_ok_def example_world_def example_db_def [of] intro: exI)
  moreover have "memory_ok (placed example_service_env ix) ix" for ix
    by (rule heap_layout_ok) (simp_all add: placed_def example_service_env_def)
  ultimately show ?thesis
    using example_env_ok example_alloc_ok by (simp add: env_ok_def) (simp add: example_service_env_def)
qed

lemma example_refs: "index_refs example_db = [example_ref]"
  by (simp add: index_refs_def example_db_def borrow_record_def file_of_ref_def example_ref_def lowered_text_def)

lemma example_load_backend:
  "\<exists>b. load_backend example_service_env Memory n =
    (Inr (Packed (example_index b), Memory, content_stamp_of (1, 2) example_db, 1), n + 9)"
proof -
  obtain b where b: "compact_index_load example_env [example_ref] = Some (example_index b)" using example_load by blast
  have len: "ci_len (example_index b) = 1" by (simp add: example_index_def)
  have j: "ix_has_journal example_db" by (simp add: example_db_def empty_db_def)
  show ?thesis
    using b len j
    by (auto simp: load_backend_def open_read_only_def needs_migration_def conn_stamp_def has_change_journal_def
        with_read_snapshot_def read_backend_def pinned_def index_load_def io_bind_def io_return_def file_identity_at_def
        statement_def example_service_env_def example_world_def example_refs Let_def intro!: exI [of _ b])
qed

lemma example_service:
  "\<exists>sv. service_load example_service_env Memory (audit_new True 0) 0 = (Inr sv, sv_looks sv) \<and>
    (\<exists>b. sv_backend sv = Packed (example_index b)) \<and> sv_stamp sv = Some (content_stamp_of (1, 2) example_db) \<and>
    sv_requested sv = Memory"
proof -
  let ?env = "example_service_env"
  have open_: "database_open (se_world ?env) 0 = (Inr \<lparr>cn_file = (1, 2), cn_identity = (1, 2)\<rparr>, 4)"
    "open_read_only (se_world ?env) 4 = (Inr \<lparr>cn_file = (1, 2), cn_identity = (1, 2)\<rparr>, 7)"
    by (simp_all add: database_open_def open_read_only_def io_bind_def io_return_def file_identity_at_def statement_def
        example_service_env_def example_world_def)
  obtain b where b: "load_backend ?env Memory 7 = (Inr (Packed (example_index b), Memory, content_stamp_of (1, 2) example_db, 1), 16)"
    using example_load_backend [of 7] by auto
  let ?new = "service_new Memory (Some \<lparr>cn_file = (1, 2), cn_identity = (1, 2)\<rparr>) (audit_new True 0) 7"
  have "sv_requested (cache_memory ?env phase (invalidate_backend sv)) = sv_requested sv \<and>
      sv_looks (cache_memory ?env phase (invalidate_backend sv)) = sv_looks sv" for phase sv
    by (simp add: invalidate_backend_def)
  then have full: "\<exists>sv. full_reload ?env ''startup_full'' None ?new = (Inr (), sv) \<and> sv_backend sv = Packed (example_index b) \<and>
      sv_stamp sv = Some (content_stamp_of (1, 2) example_db) \<and> sv_requested sv = Memory"
    unfolding full_reload_def full_reload_with_capture_def Let_def
    by (simp add: b service_new_def)
  then obtain sv where sv: "full_reload ?env ''startup_full'' None ?new = (Inr (), sv)" "sv_backend sv = Packed (example_index b)"
      "sv_stamp sv = Some (content_stamp_of (1, 2) example_db)" "sv_requested sv = Memory"
    by blast
  have "service_load ?env Memory (audit_new True 0) 0 = (Inr sv, sv_looks sv)"
    by (simp only: service_load_def io_bind_def open_ prod.case sum.case sv(1) Let_def snd_conv)
  then show ?thesis using sv by blast
qed

subsection \<open>Properties\<close>

text \<open>C8: Whatever requests are interleaved and whatever the world does meanwhile, failures included, the
  service never offers a mixture: either nothing is published, or the index in memory is in order
  and holds exactly the rows of one snapshot of the database, the one that the published stamp
  names, with its counts; this holds from the first load through every check, refresh,
  incremental or full, forced reload, search and status.\<close>

theorem service_publishes_snapshots:
  assumes "env_ok alloc env" and "service_load env requested audit n = (Inr sv0, n')"
    and "(service_step env)\<^sup>*\<^sup>* sv0 sv" and "sv_backend sv = Packed ix"
  shows "index_ok (se_packed env) ix \<and> sv_records_total sv = int (ci_len ix) \<and>
    (\<exists>stamp db. sv_stamp sv = Some stamp \<and> seen env 0 (sv_looks sv) stamp db \<and>
       index_contents ix = rows_by_id (pe_lower (se_packed env)) db)"
  using steps_published [OF assms(1,3) load_published [OF assms(1,2)] le0] assms(4)
  by (auto simp: published_def backend_shows_def)

theorem service_publishes_snapshots_witness:
  "\<exists>sv ix. service_load example_service_env Memory (audit_new True 0) 0 = (Inr sv, sv_looks sv) \<and>
    sv_backend (snd (status_json example_service_env sv)) = Packed ix \<and> index_ok example_env ix"
proof -
  obtain sv b where sv: "service_load example_service_env Memory (audit_new True 0) 0 = (Inr sv, sv_looks sv)"
      "sv_backend sv = Packed (example_index b)"
    using example_service by blast
  have "(service_step example_service_env)\<^sup>*\<^sup>* sv (snd (status_json example_service_env sv))"
    by (rule r_into_rtranclp) (rule step_status)
  moreover have backend: "sv_backend (snd (status_json example_service_env sv)) = Packed (example_index b)"
    using status_published [OF example_service_env_ok load_published [OF example_service_env_ok sv(1)]] sv(2) by simp
  moreover have "se_packed example_service_env = example_env" by (simp add: example_service_env_def)
  ultimately show ?thesis
    using service_publishes_snapshots [OF example_service_env_ok sv(1)] sv(1) by metis
qed

text \<open>C9: A search in the packed index sees the present: when the freshness check of a request succeeded
  and the packed index is the published backend when the search gets the lock, then, whatever other
  requests did in between, its results are those of the reference search over all rows of one
  snapshot of the database that was taken after the request began. The lowercased paths and names of
  the rows have no star (\<open>record_ok\<close>): on names with a star the reference scorer itself differs
  from the prepared one. A search that falls back to SQLite is not covered here; it is
  \<open>search_is_scan\<close> of \<open>Sqlite_Search\<close> on the connection it opens.\<close>

theorem search_sees_the_present:
  assumes "env_ok alloc env" and "service_load env requested audit n = (Inr sv0, n')"
    and "(service_step env)\<^sup>*\<^sup>* sv0 sv" and "ensure_fresh env sv = (Inr (), sv1)"
    and "(service_step env)\<^sup>*\<^sup>* sv1 sv2" and "sv_backend sv2 = Packed ix"
    and "lowercase_ok (pe_lower (se_packed env))" and "options_valid options"
    and "\<forall>m i db. dk_content (se_world env m) i = Inr db \<longrightarrow>
      list_all record_ok (map (row_to_record (pe_lower (se_packed env))) (ix_files db))"
  shows "\<exists>stamp db. sv_stamp sv2 = Some stamp \<and> seen env (sv_looks sv) (sv_looks sv2) stamp db \<and>
    fst (service_search env options sv2) =
      Inr (ref_search_records (pe_lower (se_packed env)) (se_clock env (sv_looks sv2))
        (map (row_to_record (pe_lower (se_packed env))) (ix_files db)) options)"
proof -
  have "published env 0 sv" using steps_published [OF assms(1,3) load_published [OF assms(1,2)] le0] by blast
  note fresh = ensure_fresh_ok [OF assms(1) this le0 assms(4)]
  then have "published env (sv_looks sv) sv2" using steps_published [OF assms(1,5)] by blast
  then obtain stamp db where db: "sv_stamp sv2 = Some stamp" "seen env (sv_looks sv) (sv_looks sv2) stamp db"
      "backend_shows env (Packed ix) stamp db (sv_records_total sv2)"
    using assms(6) by (auto simp: published_def)
  then have ok: "index_ok (se_packed env) ix" "index_contents ix = rows_by_id (pe_lower (se_packed env)) db"
    by (simp_all add: backend_shows_def)
  have "list_all record_ok (map (row_to_record (pe_lower (se_packed env))) (ix_files db))"
    using db(2) assms(9) unfolding seen_def by blast
  moreover have "index_files ix = Some (map (row_to_record (pe_lower (se_packed env))) (ix_files db))"
    by (rule index_files_stored [OF ok]) (rule seen_unique(2) [OF assms(1) db(2) db(2)])
  moreover have "memory_ok (placed env ix) ix" using assms(1) by (simp add: env_ok_def)
  ultimately have "index_search (placed env ix) (se_clock env (sv_looks sv2)) ix options =
      Some (ref_search_records (pe_lower (se_packed env)) (se_clock env (sv_looks sv2))
        (map (row_to_record (pe_lower (se_packed env))) (ix_files db)) options)"
    using packed_search [of "placed env ix"] assms(7,8) ok(1) by (simp add: placed_index_ok)
  then show ?thesis using db assms(6) by (auto simp: service_search_def)
qed

lemma example_observe:
  "\<exists>observer k. observe example_world database n = (Inr (content_stamp_of (1, 2) example_db), observer, k)"
  by (auto simp: observe_def open_read_only_def conn_stamp_def io_bind_def io_return_def file_identity_at_def statement_def
      example_world_def split: option.split)

lemma example_ensure_fresh:
  assumes "sv_stamp sv = Some (content_stamp_of (1, 2) example_db)" and "sv_backend sv = Packed ix"
  shows "\<exists>sv1. ensure_fresh example_service_env sv = (Inr (), sv1) \<and> sv_backend sv1 = Packed ix"
proof -
  have w: "se_world example_service_env = example_world" by (simp add: example_service_env_def)
  obtain observer k where o: "observe example_world (sv_observer sv) (sv_looks sv) =
      (Inr (content_stamp_of (1, 2) example_db), observer, k)" using example_observe by blast
  have "needs_reload example_service_env sv = (False, sv\<lparr>sv_observer := observer, sv_looks := k\<rparr>)"
    unfolding needs_reload_def w o using assms by (simp add: is_ready_def)
  then show ?thesis using assms(2) by (simp add: ensure_fresh_def)
qed

theorem search_sees_the_present_witness:
  "\<exists>sv sv1. service_load example_service_env Memory (audit_new True 0) 0 = (Inr sv, sv_looks sv) \<and>
    ensure_fresh example_service_env sv = (Inr (), sv1) \<and>
    map_sum id (map (\<lambda>r. (fr_path (sr_record r), sr_score r)))
      (fst (service_search example_service_env (default_options\<lparr>query := ''a'', limit := 3\<rparr>) sv1)) = Inr [(''/a'', 2)]"
proof -
  let ?o = "default_options\<lparr>query := ''a'', limit := 3\<rparr>" and ?env = "example_service_env" and ?x = "file_of_ref id example_ref"
  obtain sv b where sv: "service_load ?env Memory (audit_new True 0) 0 = (Inr sv, sv_looks sv)"
      "sv_backend sv = Packed (example_index b)" "sv_stamp sv = Some (content_stamp_of (1, 2) example_db)"
    using example_service by blast
  obtain sv1 where sv1: "ensure_fresh ?env sv = (Inr (), sv1)" "sv_backend sv1 = Packed (example_index b)"
    using example_ensure_fresh [OF sv(3,2)] by blast
  have env: "pe_lower (se_packed ?env) = id" "\<And>m i. dk_content (se_world ?env m) i = Inr example_db"
    by (simp_all add: example_service_env_def example_env_def example_world_def)
  have l: "lowercase_ok (pe_lower (se_packed ?env))" by (simp add: env lowercase_ok_def)
  have stored: "map (row_to_record id) (ix_files example_db) = [?x]" by code_simp
  have o: "options_valid ?o" and r: "list_all record_ok [?x]" by code_simp+
  have rows: "\<forall>m i db. dk_content (se_world ?env m) i = Inr db \<longrightarrow>
      list_all record_ok (map (row_to_record (pe_lower (se_packed ?env))) (ix_files db))"
    using r stored env by simp
  obtain stamp db where out: "seen ?env (sv_looks sv) (sv_looks sv1) stamp db"
      "fst (service_search ?env ?o sv1) = Inr (ref_search_records id (se_clock ?env (sv_looks sv1))
        (map (row_to_record id) (ix_files db)) ?o)"
    using search_sees_the_present [OF example_service_env_ok sv(1) rtranclp.rtrancl_refl sv1(1) rtranclp.rtrancl_refl sv1(2) l o rows] env(1)
    by auto
  have "db = example_db" using out(1) env(2) by (auto simp: seen_def)
  have at: "se_clock ?env n = 0" for n by (simp add: example_service_env_def)
  have "map (\<lambda>r. (fr_path (sr_record r), sr_score r)) (ref_search_records id 0 [?x] ?o) = [(''/a'', 2)]" by code_simp
  then show ?thesis using sv sv1 out(2) stored at \<open>db = example_db\<close> by (intro exI [of _ sv] exI [of _ sv1]) simp
qed

text \<open>C10: A refresh that fails leaves no half-changed index behind: afterwards either the backend and the
  stamp are the ones from before, or nothing is published and searches are refused until a load
  succeeds.\<close>

theorem failed_refresh_is_clean:
  assumes "reload_if_changed env sv = (Inl e, sv')"
  shows "sv_backend sv' = sv_backend sv \<and> sv_stamp sv' = sv_stamp sv \<or>
    sv_backend sv' = Unavailable \<and> fst (service_search env options sv') = Inl (Cli ''search index is unavailable; retry'')"
  using reload_if_changed_failed [OF assms [unfolded reload_if_changed_def]] by (auto simp: service_search_def)

theorem failed_refresh_is_clean_witness:
  "\<exists>sv'. reload_if_changed (example_service_env\<lparr>se_world := \<lambda>_. \<lparr>dk_at_path = Inl not_found, dk_content = \<lambda>_. Inl not_found\<rparr>\<rparr>)
      (service_new Memory None (audit_new True 0) 0) = (Inl not_found, sv') \<and> sv_backend sv' = Unavailable"
proof -
  let ?env = "example_service_env\<lparr>se_world := \<lambda>_. \<lparr>dk_at_path = Inl not_found, dk_content = \<lambda>_. Inl not_found\<rparr>\<rparr>"
  let ?sv = "service_new Memory None (audit_new True 0) 0"
  have "fst (reload_if_changed ?env ?sv) = Inl not_found"
    by (simp add: reload_if_changed_def reload_if_changed_with_limits_def needs_reload_def full_reload_def
        full_reload_with_capture_def load_backend_def open_read_only_def io_bind_def file_identity_at_def is_ready_def
        service_new_def Let_def)
  then obtain sv' where run: "reload_if_changed ?env ?sv = (Inl not_found, sv')" by (metis prod.collapse)
  from failed_refresh_is_clean [OF run] have "sv_backend sv' = Unavailable" by (auto simp: service_new_def)
  then show ?thesis using run by blast
qed

text \<open>C11: Without the token a request gets nothing: when the service has a token and a request does not
  carry it, the state of the service stays as it is and the response does not depend on it;
  only \<open>/health\<close>, which tells nothing, is answered.\<close>

theorem no_token_no_effect:
  assumes "\<not> request_has_valid_token request expected"
  shows "snd (respond env (Some expected) acquired request sv) = sv \<and>
    fst (respond env (Some expected) acquired request sv) = fst (respond env (Some expected) acquired request other)"
proof (cases "str_lines request")
  case Nil
  then show ?thesis by (simp add: respond_def)
next
  case (Cons first_line more)
  define verb where "verb = (case split_whitespace first_line of m # _ \<Rightarrow> m | [] \<Rightarrow> [])"
  define target where "target = (case split_whitespace first_line of _ # t # _ \<Rightarrow> t | _ \<Rightarrow> [])"
  obtain path q where path: "split_target target = (path, q)" by (cases "split_target target")
  note run = respond_def Cons list.case Let_def verb_def [symmetric] target_def [symmetric] path prod.case
  show ?thesis
  proof (cases "verb \<noteq> ''GET'' \<and> verb \<noteq> ''POST''")
    case True
    then show ?thesis unfolding run by (simp only: if_True fst_conv snd_conv simp_thms)
  next
    case False
    show ?thesis unfolding run if_not_P [OF False] using assms by (cases "path = ''/health''") simp_all
  qed
qed

theorem no_token_no_effect_witness:
  "snd (respond example_service_env (Some ''secret'') True (''GET /reload HTTP/1.1'' @ crlf @ crlf)
    (service_new Memory None (audit_new True 0) 0)) = service_new Memory None (audit_new True 0) 0"
proof -
  have "\<not> request_has_valid_token (''GET /reload HTTP/1.1'' @ crlf @ crlf) ''secret''" by code_simp
  from no_token_no_effect [OF this] show ?thesis by blast
qed

end
