(* ===== verification/Scanner.thy ===== *)
theory Scanner
  imports Index_Db Rust_Lossy
begin

text \<open>
  The scanner of \<open>src/src/scanner.rs\<close>: walking a file tree, writing what is found into the
  index and deleting what is gone. The file system is a parameter, what \<open>symlink_metadata\<close> and
  \<open>read_dir\<close> answer for every path during one operation; a path is its bytes and the index
  holds texts. An operation is a function on the connection; its result is \<open>None\<close> for \<open>Err\<close>.
\<close>

subsection \<open>Texts of paths\<close>

definition component_text :: "path_component \<Rightarrow> str option" where
  "component_text c =
     (case c of RootDir \<Rightarrow> None | CurDir \<Rightarrow> Some ''.'' | ParentDir \<Rightarrow> Some ''..''
      | Normal s \<Rightarrow> Some (to_string_lossy s))"

definition component_texts :: "str \<Rightarrow> str list" where
  "component_texts path = List.map_filter component_text (path_components path)"

subsection \<open>Exclusion patterns\<close>

record exclude_matcher = em_patterns :: "str \<rightharpoonup> str list list"

definition pattern_parts :: "str \<Rightarrow> str list" where
  "pattern_parts pattern = filter (\<lambda>part. part \<noteq> []) (split_on (\<lambda>c. c = CHR ''/'') (trim pattern))"

definition add_pattern :: "str \<Rightarrow> exclude_matcher \<Rightarrow> exclude_matcher" where
  "add_pattern pattern m =
     (case pattern_parts pattern of
        [] \<Rightarrow> m
      | first # others \<Rightarrow>
          (let choices = (case em_patterns m first of Some c \<Rightarrow> c | None \<Rightarrow> [])
           in m\<lparr>em_patterns := (em_patterns m)(first \<mapsto>
                (if others \<in> set choices then choices else choices @ [others]))\<rparr>))"

definition exclude_matcher_new :: "str list \<Rightarrow> exclude_matcher" where
  "exclude_matcher_new excludes = fold add_pattern excludes \<lparr>em_patterns = Map.empty\<rparr>"

fun suffix_matches :: "str list \<Rightarrow> str list \<Rightarrow> bool" where
  "suffix_matches [] tail = True"
| "suffix_matches (expected # others) [] = False"
| "suffix_matches (expected # others) (v # tail) = (v = expected \<and> suffix_matches others tail)"

fun any_pattern :: "exclude_matcher \<Rightarrow> str list \<Rightarrow> bool" where
  "any_pattern m [] = False"
| "any_pattern m (first # tail) =
     ((case em_patterns m first of
         None \<Rightarrow> False
       | Some choices \<Rightarrow> list_ex (\<lambda>others. suffix_matches others tail) choices) \<or> any_pattern m tail)"

definition is_excluded :: "exclude_matcher \<Rightarrow> str \<Rightarrow> bool" where
  "is_excluded m path = any_pattern m (component_texts path)"

lemma suffix_matches_prefix: "suffix_matches others tail \<longleftrightarrow> prefix others tail"
  by (induction others tail rule: suffix_matches.induct) auto

definition has_pattern :: "exclude_matcher \<Rightarrow> str list \<Rightarrow> bool" where
  "has_pattern m parts \<longleftrightarrow>
     (case parts of [] \<Rightarrow> False
      | first # others \<Rightarrow> (case em_patterns m first of None \<Rightarrow> False | Some c \<Rightarrow> others \<in> set c))"

lemma has_pattern_simps [simp]:
  "\<not> has_pattern m []"
  "has_pattern m (first # others) \<longleftrightarrow> (\<exists>c. em_patterns m first = Some c \<and> others \<in> set c)"
  by (auto simp: has_pattern_def split: option.splits)

lemma ex_has_pattern: "(\<exists>parts. has_pattern m parts \<and> P parts) \<longleftrightarrow> (\<exists>f r. has_pattern m (f # r) \<and> P (f # r))"
  by (metis has_pattern_simps(1) list.exhaust)

lemma any_pattern_iff:
  "any_pattern m texts \<longleftrightarrow> (\<exists>parts. has_pattern m parts \<and> contains texts parts)"
proof (induction m texts rule: any_pattern.induct)
  case (1 m)
  show ?case by (auto simp: has_pattern_def contains_append split: list.splits)
next
  case (2 m first tail)
  have "(\<exists>parts. has_pattern m parts \<and> contains (first # tail) parts) \<longleftrightarrow>
      (\<exists>parts. has_pattern m parts \<and> prefix parts (first # tail)) \<or>
      (\<exists>parts. has_pattern m parts \<and> contains tail parts)"
  proof -
    have "contains (first # tail) parts \<longleftrightarrow> prefix parts (first # tail) \<or> contains tail parts" for parts
      by (auto simp: contains_append prefix_def Cons_eq_append_conv)
    then show ?thesis by blast
  qed
  moreover have "(\<exists>parts. has_pattern m parts \<and> prefix parts (first # tail)) \<longleftrightarrow>
      (case em_patterns m first of None \<Rightarrow> False
       | Some choices \<Rightarrow> list_ex (\<lambda>others. suffix_matches others tail) choices)"
    unfolding ex_has_pattern by (auto simp: suffix_matches_prefix list_ex_iff split: option.splits)
  ultimately show ?case using "2.IH" by simp
qed

lemma has_pattern_add:
  "has_pattern (add_pattern p m) parts \<longleftrightarrow> parts \<noteq> [] \<and> parts = pattern_parts p \<or> has_pattern m parts"
  by (auto simp: has_pattern_def add_pattern_def Let_def split: list.splits option.splits if_splits)

lemma has_pattern_new:
  "has_pattern (exclude_matcher_new excludes) parts \<longleftrightarrow> parts \<noteq> [] \<and> parts \<in> pattern_parts ` set excludes"
proof -
  have "has_pattern (fold add_pattern excludes m) parts \<longleftrightarrow>
      parts \<noteq> [] \<and> parts \<in> pattern_parts ` set excludes \<or> has_pattern m parts" for m
    by (induction excludes arbitrary: m) (auto simp: has_pattern_add)
  then show ?thesis by (auto simp: exclude_matcher_new_def has_pattern_def split: list.splits)
qed

text \<open>C29: A path is excluded exactly when the parts of one of the patterns occur next to each other
  among the components of the path; grouping the patterns by their first part and dropping
  duplicates changes nothing, and a blank pattern excludes nothing.\<close>

theorem is_excluded_exact:
  "is_excluded (exclude_matcher_new excludes) path \<longleftrightarrow>
     (\<exists>pattern \<in> set excludes. pattern_parts pattern \<noteq> [] \<and> contains (component_texts path) (pattern_parts pattern))"
  by (auto simp: is_excluded_def any_pattern_iff has_pattern_new)

subsection \<open>The file system\<close>

datatype io_kind = NotFound | NotADirectory | OtherError

type_synonym io_error = "io_kind \<times> str"

datatype file_type = IsSymlink | IsDir | IsFile | IsOther

record metadata =
  md_type :: file_type
  md_len :: nat
  md_mtime :: i64
  md_ctime :: i64
  md_dev :: nat
  md_ino :: nat

record fs_view =
  symlink_metadata :: "str \<Rightarrow> io_error + metadata"
  read_dir :: "str \<Rightarrow> io_error + (io_error + str) list"

definition classify :: "str \<Rightarrow> metadata \<Rightarrow> file_kind" where
  "classify path md =
     (if md_type md = IsSymlink then Symlink
      else if md_type md = IsDir \<and>
        (case extension path of Some e \<Rightarrow> utf8_valid e \<and> eq_ignore_ascii_case e ''app'' | None \<Rightarrow> False)
        then App
      else if md_type md = IsDir then Directory
      else if md_type md = IsFile then File
      else Other)"

subsection \<open>Generations\<close>

text \<open>The new value of \<open>LAST_GENERATION\<close>, which is also the result.\<close>

definition next_index_generation :: "i64 \<Rightarrow> i64 \<Rightarrow> i64" where
  "next_index_generation last_generation wall_now = max wall_now (clamp_i64 (last_generation + 1))"

subsection \<open>Summaries\<close>

record index_summary =
  is_indexed :: nat
  is_rows_written :: nat
  is_unchanged :: nat
  is_deleted :: nat
  is_warnings :: "str list"
  is_retry_paths :: "str list"
  is_deferred_cleanups :: "(str \<times> i64) list"
  is_legacy_fallback :: bool

definition summary_default :: index_summary where
  "summary_default =
     \<lparr>is_indexed = 0, is_rows_written = 0, is_unchanged = 0, is_deleted = 0, is_warnings = [],
      is_retry_paths = [], is_deferred_cleanups = [], is_legacy_fallback = False\<rparr>"

definition warn :: "str \<Rightarrow> str \<Rightarrow> index_summary \<Rightarrow> index_summary" where
  "warn path what summary =
     summary\<lparr>is_retry_paths := is_retry_paths summary @ [path],
       is_warnings := is_warnings summary @ [to_string_lossy path @ '': '' @ what]\<rparr>"

subsection \<open>Walking a tree\<close>

record scan_env =
  se_lower :: "str \<Rightarrow> str"
  se_alloc :: "file_record list \<Rightarrow> i64"
  se_fs :: fs_view
  se_excludes :: exclude_matcher
  se_indexed_at :: i64

type_synonym scan_state = "file_upsert \<times> index_db \<times> index_summary"

definition max_scan_depth :: nat where "max_scan_depth = 256"

definition scanned_record :: "scan_env \<Rightarrow> str \<Rightarrow> metadata \<Rightarrow> file_record" where
  "scanned_record env path md =
     (file_record_new (se_lower env) (to_string_lossy path) (classify path md) (se_indexed_at env))
       \<lparr>fr_size := (if md_type md = IsFile then Some (wrap_i64 (int (md_len md))) else None),
        fr_mtime := Some (md_mtime md), fr_ctime := Some (md_ctime md),
        fr_dev := Some (wrap_i64 (int (md_dev md))), fr_inode := Some (wrap_i64 (int (md_ino md)))\<rparr>"

definition upsert_scanned :: "scan_env \<Rightarrow> str \<Rightarrow> metadata \<Rightarrow> scan_state \<Rightarrow> scan_state option" where
  "upsert_scanned env path md st =
     (case st of (fu, db, summary) \<Rightarrow>
        map_option (\<lambda>(changed, fu', db').
            (fu', db', (if changed then summary\<lparr>is_rows_written := is_rows_written summary + 1\<rparr>
                        else summary\<lparr>is_unchanged := is_unchanged summary + 1\<rparr>)
                         \<lparr>is_indexed := is_indexed summary + 1\<rparr>))
          (upsert (se_alloc env) (scanned_record env path md) (fu, db)))"

definition warn_state :: "str \<Rightarrow> str \<Rightarrow> scan_state \<Rightarrow> scan_state" where
  "warn_state path what st = (case st of (fu, db, summary) \<Rightarrow> (fu, db, warn path what summary))"

definition is_directory :: "str \<Rightarrow> metadata \<Rightarrow> bool" where
  "is_directory path md \<longleftrightarrow> md_type md = IsDir \<and> classify path md \<noteq> Symlink"

text \<open>The walk and its loop over the entries of a directory.\<close>

function scan_path_inner :: "scan_env \<Rightarrow> str \<Rightarrow> nat \<Rightarrow> scan_state \<Rightarrow> scan_state option"
  and scan_entries :: "scan_env \<Rightarrow> str \<Rightarrow> nat \<Rightarrow> (io_error + str) list \<Rightarrow> scan_state \<Rightarrow> scan_state option"
where
  "scan_path_inner env path depth st =
     (if max_scan_depth < depth then Some (warn_state path ''exceeded max depth 256'' st)
      else if is_excluded (se_excludes env) path then Some st
      else case symlink_metadata (se_fs env) path of
             Inl err \<Rightarrow> Some (warn_state path (snd err) st)
           | Inr md \<Rightarrow>
               (case upsert_scanned env path md st of
                  None \<Rightarrow> None
                | Some st1 \<Rightarrow>
                    if is_directory path md
                    then (case read_dir (se_fs env) path of
                            Inl err \<Rightarrow> Some (warn_state path (snd err) st1)
                          | Inr entries \<Rightarrow> scan_entries env path depth entries st1)
                    else Some st1))"
| "scan_entries env path depth [] st = Some st"
| "scan_entries env path depth (entry # entries) st =
     (if seen_limit_exceeded (fst st) then Some st
      else case entry of
             Inl err \<Rightarrow> scan_entries env path depth entries (warn_state path (snd err) st)
           | Inr name \<Rightarrow>
               (case scan_path_inner env (path_join path name) (depth + 1) st of
                  None \<Rightarrow> None
                | Some st1 \<Rightarrow> scan_entries env path depth entries st1))"
  by pat_completeness auto

termination
  by (relation "inv_image (less_than <*lex*> less_than)
        (\<lambda>x. case x of Inl (env, path, depth, st) \<Rightarrow> (258 - depth, 0)
                     | Inr (env, path, depth, entries, st) \<Rightarrow> (257 - depth, length entries + 1))")
     (auto simp: max_scan_depth_def)

declare scan_path_inner.simps [simp del]

definition scan_path :: "scan_env \<Rightarrow> str \<Rightarrow> scan_state \<Rightarrow> scan_state option" where
  "scan_path env path st =
     (if seen_limit_exceeded (fst st) then Some st else scan_path_inner env path 0 st)"

text \<open>The loop over the roots of \<open>refresh_roots\<close>, which stops when the set of ids is full.\<close>

fun scan_roots :: "scan_env \<Rightarrow> str list \<Rightarrow> scan_state \<Rightarrow> scan_state option" where
  "scan_roots env [] st = Some st"
| "scan_roots env (root # roots) st =
     (case scan_path env root st of
        None \<Rightarrow> None
      | Some st1 \<Rightarrow> if seen_limit_exceeded (fst st1) then Some st1 else scan_roots env roots st1)"

subsection \<open>Indexing and refreshing\<close>

text \<open>
  What an operation is given: the configuration of the scan, the seconds of \<open>now_epoch\<close> (as
  text), the generation of \<open>now_index_generation\<close>, and whether SQLite can commit.
\<close>

record scan_request =
  sr_lower :: "str \<Rightarrow> str"
  sr_alloc :: "file_record list \<Rightarrow> i64"
  sr_fs :: fs_view
  sr_generation :: i64
  sr_now :: str
  sr_can_commit :: "index_db \<Rightarrow> bool"

record index_request =
  iq_roots :: "str list"
  iq_excludes :: "str list"
  iq_rebuild :: bool

definition env_of :: "scan_request \<Rightarrow> str list \<Rightarrow> scan_env" where
  "env_of req excludes =
     \<lparr>se_lower = sr_lower req, se_alloc = sr_alloc req, se_fs = sr_fs req,
      se_excludes = exclude_matcher_new excludes, se_indexed_at = sr_generation req\<rparr>"

definition cleanup_stale_if_complete ::
  "index_db \<Rightarrow> str list \<Rightarrow> i64 \<Rightarrow> index_summary \<Rightarrow> (index_db \<times> index_summary) option" where
  "cleanup_stale_if_complete db roots indexed_at summary =
     (if is_warnings summary = []
      then map_option (\<lambda>(n, db'). (db', summary\<lparr>is_deleted := is_deleted summary + n\<rparr>))
             (delete_stale_under_roots (map to_string_lossy roots) indexed_at db)
      else Some (db, summary\<lparr>
             is_deferred_cleanups := is_deferred_cleanups summary @ map (\<lambda>root. (root, indexed_at)) roots,
             is_warnings := is_warnings summary @ [''stale cleanup deferred until incomplete subtrees recover'']\<rparr>))"

definition prepare_refresh_upsert :: "usize option \<Rightarrow> file_upsert" where
  "prepare_refresh_upsert exact_pages =
     (case exact_pages of Some max_pages \<Rightarrow> prepare_scanner_upsert max_pages | None \<Rightarrow> prepare_file_upsert)"

text \<open>\<open>begin\<close> fails inside a transaction; a failed \<open>COMMIT\<close> leaves the transaction open.\<close>

definition finish_write :: "(index_db \<Rightarrow> bool) \<Rightarrow> bool \<Rightarrow> connection \<Rightarrow> bool \<times> connection" where
  "finish_write can_commit ok c =
     (case (if ok \<and> can_commit (cn_db c) then commit c else None) of
        Some c' \<Rightarrow> (True, c')
      | None \<Rightarrow> (False, case rollback c of Some c' \<Rightarrow> c' | None \<Rightarrow> c))"

definition with_write ::
  "(index_db \<Rightarrow> bool) \<Rightarrow> (index_db \<Rightarrow> (index_db \<times> 'a) option) \<Rightarrow> connection \<Rightarrow> 'a option \<times> connection" where
  "with_write can_commit body c =
     (case begin_write c of
        None \<Rightarrow> (None, c)
      | Some c1 \<Rightarrow>
          (case body (cn_db c1) of
             None \<Rightarrow> (None, snd (finish_write can_commit False c1))
           | Some (db, x) \<Rightarrow>
               (case finish_write can_commit True (c1\<lparr>cn_db := db\<rparr>) of
                  (True, c2) \<Rightarrow> (Some x, c2)
                | (False, c2) \<Rightarrow> (None, c2))))"

text \<open>\<open>scan_path\<close> for all roots, without a limit.\<close>

fun scan_all :: "scan_env \<Rightarrow> str list \<Rightarrow> scan_state \<Rightarrow> scan_state option" where
  "scan_all env [] st = Some st"
| "scan_all env (root # roots) st =
     (case scan_path env root st of None \<Rightarrow> None | Some st1 \<Rightarrow> scan_all env roots st1)"

definition index_body :: "scan_request \<Rightarrow> index_request \<Rightarrow> index_db \<Rightarrow> (index_db \<times> index_summary) option" where
  "index_body req request db =
     (case scan_all (env_of req (iq_excludes request)) (iq_roots request) (prepare_file_upsert, db, summary_default) of
        None \<Rightarrow> None
      | Some (_, db1, s1) \<Rightarrow>
          (case (if iq_rebuild request then Some (db1, s1)
                 else cleanup_stale_if_complete db1 (iq_roots request) (sr_generation req) s1) of
             None \<Rightarrow> None
           | Some (db2, s2) \<Rightarrow> map_option (\<lambda>db3. (db3, s2)) (set_meta ''last_indexed_at'' (sr_now req) db2)))"

definition index_paths :: "scan_request \<Rightarrow> index_request \<Rightarrow> connection \<Rightarrow> index_summary option \<times> connection" where
  "index_paths req request c =
     (let db0 = (if iq_rebuild request then clear_index (cn_db c) else cn_db c);
          (ok1, db1) = set_roots (map to_string_lossy (iq_roots request)) db0
      in if \<not> ok1 then (None, c\<lparr>cn_db := db1\<rparr>)
         else let (ok2, db2) = set_excludes (iq_excludes request) db1
              in if \<not> ok2 then (None, c\<lparr>cn_db := db2\<rparr>)
                 else with_write (sr_can_commit req) (index_body req request) (c\<lparr>cn_db := db2\<rparr>))"

text \<open>The body of \<open>refresh_roots\<close>: whether to fall back, and the summary.\<close>

definition refresh_roots_body ::
  "scan_request \<Rightarrow> str list \<Rightarrow> str list \<Rightarrow> usize option \<Rightarrow> index_db \<Rightarrow> (index_db \<times> bool \<times> index_summary) option" where
  "refresh_roots_body req roots excludes exact_pages db =
     (case scan_roots (env_of req excludes) roots (prepare_refresh_upsert exact_pages, db, summary_default) of
        None \<Rightarrow> None
      | Some (fu, db1, s1) \<Rightarrow>
          (if exact_pages \<noteq> None \<and> (seen_limit_exceeded fu \<or> is_warnings s1 \<noteq> []) then Some (db1, True, s1)
           else case (case into_seen_ids fu of
                        Some seen \<Rightarrow>
                          map_option (\<lambda>(n, db2). (db2, s1\<lparr>is_deleted := is_deleted s1 + n\<rparr>))
                            (delete_unseen_under_roots (map to_string_lossy roots) seen db1)
                      | None \<Rightarrow> cleanup_stale_if_complete db1 roots (sr_generation req) s1) of
                  None \<Rightarrow> None
                | Some (db2, s2) \<Rightarrow>
                    map_option (\<lambda>db3. (db3, False, s2)) (set_meta ''last_indexed_at'' (sr_now req) db2)))"

text \<open>
  A refresh with its fallback: when the exact body asks for it, its writes are rolled back and
  the same refresh runs with generations.
\<close>

definition with_fallback ::
  "(index_db \<Rightarrow> bool) \<Rightarrow> (index_db \<Rightarrow> (index_db \<times> bool \<times> index_summary) option) \<Rightarrow>
     (connection \<Rightarrow> index_summary option \<times> connection) \<Rightarrow> connection \<Rightarrow> index_summary option \<times> connection" where
  "with_fallback can_commit body legacy c =
     (case begin_write c of
        None \<Rightarrow> (None, c)
      | Some c1 \<Rightarrow>
          (case body (cn_db c1) of
             None \<Rightarrow> (None, snd (finish_write can_commit False c1))
           | Some (db, fallback, summary) \<Rightarrow>
               if fallback
               then (case rollback (c1\<lparr>cn_db := db\<rparr>) of
                       None \<Rightarrow> (None, c1\<lparr>cn_db := db\<rparr>)
                     | Some c2 \<Rightarrow> map_prod (map_option (\<lambda>s. s\<lparr>is_legacy_fallback := True\<rparr>)) id (legacy c2))
               else (case finish_write can_commit True (c1\<lparr>cn_db := db\<rparr>) of
                       (True, c2) \<Rightarrow> (Some summary, c2)
                     | (False, c2) \<Rightarrow> (None, c2))))"

definition refresh_roots_legacy ::
  "scan_request \<Rightarrow> str list \<Rightarrow> str list \<Rightarrow> connection \<Rightarrow> index_summary option \<times> connection" where
  "refresh_roots_legacy req roots excludes c =
     with_write (sr_can_commit req)
       (\<lambda>db. map_option (\<lambda>(db', _, s). (db', s)) (refresh_roots_body req roots excludes None db)) c"

text \<open>The second request is what the operation is given when it starts again.\<close>

definition refresh_roots_with_budget ::
  "scan_request \<Rightarrow> scan_request \<Rightarrow> str list \<Rightarrow> str list \<Rightarrow> usize option \<Rightarrow> connection \<Rightarrow> index_summary option \<times> connection" where
  "refresh_roots_with_budget req again roots excludes exact_pages c =
     with_fallback (sr_can_commit req) (refresh_roots_body req roots excludes exact_pages)
       (refresh_roots_legacy again roots excludes) c"

definition scanner_seen_max_pages :: usize where "scanner_seen_max_pages = 4096"

definition refresh_roots ::
  "scan_request \<Rightarrow> scan_request \<Rightarrow> str list \<Rightarrow> str list \<Rightarrow> connection \<Rightarrow> index_summary option \<times> connection" where
  "refresh_roots req again roots excludes c =
     refresh_roots_with_budget req again roots excludes (Some scanner_seen_max_pages) c"

text \<open>The body of \<open>refresh_path\<close>; the metadata is \<open>None\<close> when there is nothing at the path.\<close>

definition refresh_path_body ::
  "scan_request \<Rightarrow> str \<Rightarrow> str list \<Rightarrow> metadata option \<Rightarrow> usize option \<Rightarrow> index_db \<Rightarrow>
     (index_db \<times> bool \<times> index_summary) option" where
  "refresh_path_body req path excludes md exact_pages db =
     (case kind_for_path (sr_lower req) db (to_string_lossy path) of
        None \<Rightarrow> None
      | Some previous_kind \<Rightarrow>
          (case md of
             None \<Rightarrow> map_option (\<lambda>db1. (db1, False, summary_default)) (delete_path_prefix (to_string_lossy path) db)
           | Some m \<Rightarrow>
               (case (if previous_kind \<in> {Some Directory, Some App} \<and> \<not> is_directory path m
                      then delete_path_prefix (to_string_lossy path) db else Some db) of
                  None \<Rightarrow> None
                | Some db1 \<Rightarrow>
                    (case scan_path (env_of req excludes) path (prepare_refresh_upsert exact_pages, db1, summary_default) of
                       None \<Rightarrow> None
                     | Some (fu, db2, s1) \<Rightarrow>
                         let fallback = exact_pages \<noteq> None \<and> (seen_limit_exceeded fu \<or> is_warnings s1 \<noteq> [])
                         in if is_directory path m \<and> \<not> fallback
                            then (case into_seen_ids fu of
                                    Some seen \<Rightarrow>
                                      map_option (\<lambda>(n, db3). (db3, fallback, s1\<lparr>is_deleted := is_deleted s1 + n\<rparr>))
                                        (delete_unseen_under_roots [to_string_lossy path] seen db2)
                                  | None \<Rightarrow>
                                      map_option (\<lambda>(db3, s2). (db3, fallback, s2))
                                        (cleanup_stale_if_complete db2 [path] (sr_generation req) s1))
                            else Some (db2, fallback, s1)))))"

definition refresh_path_attempt ::
  "scan_request \<Rightarrow> str \<Rightarrow> str list \<Rightarrow> (metadata option \<Rightarrow> connection \<Rightarrow> index_summary option \<times> connection) \<Rightarrow>
     connection \<Rightarrow> index_summary option \<times> connection" where
  "refresh_path_attempt req path excludes body c =
     (if is_excluded (exclude_matcher_new excludes) path then (Some summary_default, c)
      else case symlink_metadata (sr_fs req) path of
             Inr m \<Rightarrow> body (Some m) c
           | Inl (NotFound, _) \<Rightarrow> body None c
           | Inl (NotADirectory, _) \<Rightarrow> body None c
           | Inl (OtherError, _) \<Rightarrow> (None, c))"

definition refresh_path_legacy ::
  "scan_request \<Rightarrow> str \<Rightarrow> str list \<Rightarrow> connection \<Rightarrow> index_summary option \<times> connection" where
  "refresh_path_legacy req path excludes c =
     refresh_path_attempt req path excludes
       (\<lambda>md. with_write (sr_can_commit req)
          (\<lambda>db. map_option (\<lambda>(db', _, s). (db', s)) (refresh_path_body req path excludes md None db))) c"

definition refresh_path_with_budget ::
  "scan_request \<Rightarrow> scan_request \<Rightarrow> str \<Rightarrow> str list \<Rightarrow> usize option \<Rightarrow> connection \<Rightarrow> index_summary option \<times> connection" where
  "refresh_path_with_budget req again path excludes exact_pages c =
     refresh_path_attempt req path excludes
       (\<lambda>md. with_fallback (sr_can_commit req) (refresh_path_body req path excludes md exact_pages)
          (refresh_path_legacy again path excludes)) c"

definition refresh_path ::
  "scan_request \<Rightarrow> scan_request \<Rightarrow> str \<Rightarrow> str list \<Rightarrow> connection \<Rightarrow> index_summary option \<times> connection" where
  "refresh_path req again path excludes c =
     refresh_path_with_budget req again path excludes (Some scanner_seen_max_pages) c"

end
