(* ===== verification/Watch_Work.thy ===== *)
theory Watch_Work
  imports Scanner
begin

text \<open>
  The work of the file watcher, \<open>src/src/watch.rs\<close>: events of the operating system are filtered,
  gathered in an inbox of bounded size, merged into the pending work of the worker, and turned
  into refreshes of paths or rescans of the roots; the event checkpoint moves when no work is
  left.

  A \<open>BTreeMap\<close> is an association list without duplicate keys (its order decides nothing here),
  flags are words, and event ids are numbers. The capacity of a string is a parameter.
\<close>

type_synonym flags = "32 word"

definition flag_must_scan_subdirs :: flags where "flag_must_scan_subdirs = 1"
definition flag_user_dropped :: flags where "flag_user_dropped = 2"
definition flag_kernel_dropped :: flags where "flag_kernel_dropped = 4"
definition flag_ids_wrapped :: flags where "flag_ids_wrapped = 8"
definition flag_history_done :: flags where "flag_history_done = 16"
definition flag_root_changed :: flags where "flag_root_changed = 32"

text \<open>\<open>flags & flag != 0\<close>.\<close>

definition has_flag :: "flags \<Rightarrow> flags \<Rightarrow> bool" where
  "has_flag flags flag \<longleftrightarrow> flags AND flag \<noteq> 0"

record fs_event =
  ev_path :: str
  ev_flags :: flags
  ev_id :: nat

datatype watch_action = RefreshPaths | RescanRoots

definition action_for_flags :: "flags \<Rightarrow> watch_action" where
  "action_for_flags flags =
     (if has_flag flags (flag_user_dropped OR flag_kernel_dropped OR flag_ids_wrapped OR flag_root_changed)
      then RescanRoots else RefreshPaths)"

subsection \<open>Diagnostics\<close>

definition saturating_count :: "nat \<Rightarrow> nat \<Rightarrow> nat" where
  "saturating_count a b = min (a + b) (2 ^ 64 - 1)"

record raw_counts =
  rc_must_scan :: nat
  rc_user_dropped :: nat
  rc_kernel_dropped :: nat
  rc_ids_wrapped :: nat
  rc_root_changed :: nat
  rc_first_id :: "nat option"
  rc_last_id :: "nat option"

definition raw_counts_default :: raw_counts where
  "raw_counts_default =
     \<lparr>rc_must_scan = 0, rc_user_dropped = 0, rc_kernel_dropped = 0, rc_ids_wrapped = 0, rc_root_changed = 0,
      rc_first_id = None, rc_last_id = None\<rparr>"

definition count_flag :: "flags \<Rightarrow> flags \<Rightarrow> nat \<Rightarrow> nat" where
  "count_flag flags flag n = saturating_count n (if has_flag flags flag then 1 else 0)"

definition raw_counts_record :: "flags \<Rightarrow> nat \<Rightarrow> raw_counts \<Rightarrow> raw_counts" where
  "raw_counts_record flags i c =
     c\<lparr>rc_must_scan := count_flag flags flag_must_scan_subdirs (rc_must_scan c),
       rc_user_dropped := count_flag flags flag_user_dropped (rc_user_dropped c),
       rc_kernel_dropped := count_flag flags flag_kernel_dropped (rc_kernel_dropped c),
       rc_ids_wrapped := count_flag flags flag_ids_wrapped (rc_ids_wrapped c),
       rc_root_changed := count_flag flags flag_root_changed (rc_root_changed c),
       rc_first_id := Some (case rc_first_id c of Some j \<Rightarrow> j | None \<Rightarrow> i),
       rc_last_id := Some i\<rparr>"

definition option_or :: "'a option \<Rightarrow> 'a option \<Rightarrow> 'a option" where
  "option_or a b = (case a of Some x \<Rightarrow> Some x | None \<Rightarrow> b)"

definition raw_counts_merge :: "raw_counts \<Rightarrow> raw_counts \<Rightarrow> raw_counts" where
  "raw_counts_merge incoming c =
     \<lparr>rc_must_scan = saturating_count (rc_must_scan c) (rc_must_scan incoming),
      rc_user_dropped = saturating_count (rc_user_dropped c) (rc_user_dropped incoming),
      rc_kernel_dropped = saturating_count (rc_kernel_dropped c) (rc_kernel_dropped incoming),
      rc_ids_wrapped = saturating_count (rc_ids_wrapped c) (rc_ids_wrapped incoming),
      rc_root_changed = saturating_count (rc_root_changed c) (rc_root_changed incoming),
      rc_first_id = option_or (rc_first_id c) (rc_first_id incoming),
      rc_last_id = option_or (rc_last_id incoming) (rc_last_id c)\<rparr>"

record event_sample =
  es_flags :: flags
  es_id :: nat
  es_path_hash :: nat

subsection \<open>Paths\<close>

text \<open>\<open>Path::ancestors\<close>: the path, its parent and so on.\<close>

function ancestors :: "str \<Rightarrow> str list" where
  "ancestors p = p # (case path_parent p of None \<Rightarrow> [] | Some q \<Rightarrow> ancestors q)"
  by pat_completeness auto

termination
  by (relation "measure (\<lambda>p. length (path_components p))") (auto dest: path_parent_components)

declare ancestors.simps [simp del]

definition fold_refresh_step :: "str \<Rightarrow> str list \<Rightarrow> str list" where
  "fold_refresh_step path folded = (if \<exists>a \<in> set (ancestors path). a \<in> set folded then folded else folded @ [path])"

text \<open>\<open>fold_refresh_paths\<close>: the set of ancestors there and the result have the same elements.\<close>

definition fold_refresh_paths :: "str list \<Rightarrow> str list" where
  "fold_refresh_paths paths = fold fold_refresh_step (sort paths) []"

definition has_parent_dir :: "str \<Rightarrow> bool" where
  "has_parent_dir p \<longleftrightarrow> ParentDir \<in> set (path_components p)"

definition is_absolute :: "str \<Rightarrow> bool" where
  "is_absolute p \<longleftrightarrow> prefix ''/'' p"

definition known_namespace :: "str \<Rightarrow> bool" where
  "known_namespace p \<longleftrightarrow> is_absolute p \<and> \<not> has_parent_dir p"

definition subtree_targets :: "str \<Rightarrow> str list \<Rightarrow> str list option" where
  "subtree_targets path roots =
     (if \<not> known_namespace path \<or> (\<exists>root \<in> set roots. \<not> known_namespace root) then None
      else let targets = List.map_filter (\<lambda>root.
                 if path_starts_with path root then Some (to_string_lossy path)
                 else if path_starts_with root path then Some (to_string_lossy root) else None) roots
           in if targets = [] then None else Some (fold_refresh_paths targets))"

subsection \<open>Filtering\<close>

definition is_ignored_event_path :: "str \<Rightarrow> str \<Rightarrow> str option \<Rightarrow> bool" where
  "is_ignored_event_path path db_path db_dir \<longleftrightarrow>
     path_components path = path_components db_path \<or>
     (case db_dir of Some d \<Rightarrow> path_starts_with path d | None \<Rightarrow> False)"

record event_filter =
  ef_db_path :: str
  ef_db_dir :: "str option"
  ef_excludes :: exclude_matcher
  ef_received :: nat
  ef_rejected :: nat
  ef_flags :: flags

definition event_filter_new :: "str \<Rightarrow> str list \<Rightarrow> event_filter" where
  "event_filter_new db_path excludes =
     \<lparr>ef_db_path = db_path, ef_db_dir = path_parent db_path, ef_excludes = exclude_matcher_new excludes,
      ef_received = 0, ef_rejected = 0, ef_flags = 0\<rparr>"

definition filter_accepts :: "str \<Rightarrow> flags \<Rightarrow> event_filter \<Rightarrow> bool \<times> event_filter" where
  "filter_accepts path flags f =
     (let global_recovery = (action_for_flags flags = RescanRoots)
      in if \<not> global_recovery \<and> is_ignored_event_path path (ef_db_path f) (ef_db_dir f) then (False, f)
         else let f1 = f\<lparr>ef_received := ef_received f + 1, ef_flags := ef_flags f OR flags\<rparr>;
                  accepted = (global_recovery \<or>
                    (\<not> has_flag flags flag_history_done \<or> has_flag flags flag_must_scan_subdirs) \<and>
                     \<not> is_excluded (ef_excludes f1) path)
              in (accepted, if accepted then f1 else f1\<lparr>ef_rejected := ef_rejected f1 + 1\<rparr>))"

definition push_exclude_once :: "str \<Rightarrow> str list \<Rightarrow> str list" where
  "push_exclude_once pattern excludes = (if pattern \<in> set excludes then excludes else excludes @ [pattern])"

definition runtime_excludes :: "str list \<Rightarrow> str \<Rightarrow> str list" where
  "runtime_excludes excludes db_path =
     (let excludes1 = fold push_exclude_once [''.local/share/macevery'', ''.codex'', ''.gemini'', ''.cursor''] excludes
      in case path_parent db_path of Some parent \<Rightarrow> push_exclude_once (to_string_lossy parent) excludes1 | None \<Rightarrow> excludes1)"

datatype checkpoint_decision = UseCheckpoint nat | FullRescan

definition since_now :: nat where "since_now = 2 ^ 64 - 1"

definition resolve_since_when :: "nat option \<Rightarrow> nat \<Rightarrow> checkpoint_decision" where
  "resolve_since_when stored current_system_id =
     (case stored of
        None \<Rightarrow> FullRescan
      | Some i \<Rightarrow>
          if i = 0 \<or> i = since_now then FullRescan
          else if current_system_id < i then FullRescan
          else UseCheckpoint i)"

subsection \<open>Pending work\<close>

type_synonym path_flags = "(str \<times> flags) list"

record pending_work =
  pw_paths :: path_flags
  pw_path_bytes :: nat
  pw_retry_paths :: path_flags
  pw_rescan_roots :: bool
  pw_retry_roots :: bool
  pw_max_event_id :: nat
  pw_deferred_cleanups :: "(str \<times> i64) list"
  pw_checkpoint_reset :: bool
  pw_checkpoint_invalidated :: bool
  pw_scope_fallback :: bool
  pw_event_count :: nat
  pw_raw_flags :: flags
  pw_raw_counts :: raw_counts
  pw_first_events :: "event_sample option list"
  pw_last_event :: "event_sample option"
  pw_recovery_event :: "event_sample option"
  pw_inbox_overflow :: bool
  pw_worker_overflow :: bool
  pw_full_recovery_obligation :: bool
  pw_full_recovery_generation :: "i64 option"
  pw_worker_scope_failure :: bool

definition pending_default :: pending_work where
  "pending_default =
     \<lparr>pw_paths = [], pw_path_bytes = 0, pw_retry_paths = [], pw_rescan_roots = False, pw_retry_roots = False,
      pw_max_event_id = 0, pw_deferred_cleanups = [], pw_checkpoint_reset = False,
      pw_checkpoint_invalidated = False, pw_scope_fallback = False, pw_event_count = 0, pw_raw_flags = 0,
      pw_raw_counts = raw_counts_default, pw_first_events = [None, None, None], pw_last_event = None,
      pw_recovery_event = None, pw_inbox_overflow = False, pw_worker_overflow = False,
      pw_full_recovery_obligation = False, pw_full_recovery_generation = None,
      pw_worker_scope_failure = False\<rparr>"

text \<open>
  What the watcher is configured with: the capacity of a string (at least its length), the
  keyed hash of \<open>RandomState\<close> and the indexed roots.
\<close>

record watch_config =
  wc_capacity :: "str \<Rightarrow> nat"
  wc_hash :: "str \<Rightarrow> nat"
  wc_roots :: "str list"

definition clear_paths :: "pending_work \<Rightarrow> pending_work" where
  "clear_paths pw = pw\<lparr>pw_paths := [], pw_path_bytes := 0\<rparr>"

definition insert_path :: "watch_config \<Rightarrow> str \<Rightarrow> flags \<Rightarrow> pending_work \<Rightarrow> pending_work" where
  "insert_path cfg path flags pw =
     (case map_of (pw_paths pw) path of
        Some old \<Rightarrow> pw\<lparr>pw_paths := AList.update path (old OR flags) (pw_paths pw)\<rparr>
      | None \<Rightarrow> pw\<lparr>pw_path_bytes := saturating_count (pw_path_bytes pw) (wc_capacity cfg path),
                  pw_paths := AList.update path flags (pw_paths pw)\<rparr>)"

definition record_event :: "watch_config \<Rightarrow> fs_event \<Rightarrow> pending_work \<Rightarrow> pending_work" where
  "record_event cfg event pw =
     (let pw1 = pw\<lparr>pw_raw_counts := raw_counts_record (ev_flags event) (ev_id event) (pw_raw_counts pw)\<rparr>;
          pw2 = (if has_flag (ev_flags event) flag_ids_wrapped
                 then pw1\<lparr>pw_max_event_id := ev_id event, pw_checkpoint_reset := True, pw_checkpoint_invalidated := False\<rparr>
                 else pw1\<lparr>pw_max_event_id := max (pw_max_event_id pw1) (ev_id event)\<rparr>);
          sample = \<lparr>es_flags = ev_flags event, es_id = ev_id event, es_path_hash = wc_hash cfg (ev_path event)\<rparr>
      in pw2\<lparr>pw_first_events :=
               (if pw_event_count pw2 < length (pw_first_events pw2)
                then (pw_first_events pw2)[pw_event_count pw2 := Some sample] else pw_first_events pw2),
             pw_event_count := saturating_count (pw_event_count pw2) 1,
             pw_raw_flags := pw_raw_flags pw2 OR ev_flags event,
             pw_last_event := Some sample,
             pw_recovery_event :=
               (if pw_recovery_event pw2 = None \<and> action_for_flags (ev_flags event) = RescanRoots
                then Some sample else pw_recovery_event pw2)\<rparr>)"

definition add_event :: "watch_config \<Rightarrow> fs_event \<Rightarrow> pending_work \<Rightarrow> pending_work" where
  "add_event cfg event pw =
     (let pw1 = record_event cfg event pw
      in if action_for_flags (ev_flags event) = RescanRoots then clear_paths (pw1\<lparr>pw_rescan_roots := True\<rparr>)
         else if \<not> pw_rescan_roots pw1 then insert_path cfg (ev_path event) (ev_flags event) pw1
         else pw1)"

definition add_scoped :: "watch_config \<Rightarrow> fs_event \<Rightarrow> pending_work \<Rightarrow> pending_work" where
  "add_scoped cfg event pw =
     (if action_for_flags (ev_flags event) = RescanRoots then add_event cfg event pw
      else let pw1 = record_event cfg event pw
           in case subtree_targets (ev_path event) (wc_roots cfg) of
                Some paths \<Rightarrow>
                  (if \<not> pw_rescan_roots pw1 then fold (\<lambda>path. insert_path cfg path (ev_flags event)) paths pw1 else pw1)
              | None \<Rightarrow> (clear_paths (pw1\<lparr>pw_scope_fallback := True, pw_rescan_roots := True\<rparr>))
                          \<lparr>pw_recovery_event := pw_last_event pw1\<rparr>)"

definition clear_diagnostics :: "pending_work \<Rightarrow> pending_work" where
  "clear_diagnostics pw =
     pw\<lparr>pw_scope_fallback := False, pw_event_count := 0, pw_raw_flags := 0, pw_raw_counts := raw_counts_default,
        pw_first_events := [None, None, None], pw_last_event := None, pw_recovery_event := None,
        pw_inbox_overflow := False, pw_worker_overflow := False\<rparr>"

text \<open>The free places of the first samples take the incoming samples in order.\<close>

definition merge_samples :: "nat \<Rightarrow> event_sample option list \<Rightarrow> event_sample option list \<Rightarrow> event_sample option list" where
  "merge_samples event_count incoming own =
     (let n = min event_count (length own); news = filter (\<lambda>s. s \<noteq> None) incoming; free = length own - n
      in take n own @ take free news @ drop (n + min free (length news)) own)"

definition merge_incoming :: "watch_config \<Rightarrow> pending_work \<Rightarrow> pending_work \<Rightarrow> pending_work" where
  "merge_incoming cfg incoming pw =
     (let pw1 = (if pw_checkpoint_reset incoming
                 then pw\<lparr>pw_max_event_id := pw_max_event_id incoming, pw_checkpoint_reset := True,
                         pw_checkpoint_invalidated := False\<rparr>
                 else pw\<lparr>pw_max_event_id := max (pw_max_event_id pw) (pw_max_event_id incoming)\<rparr>);
          pw2 = pw1\<lparr>pw_first_events := merge_samples (pw_event_count pw1) (pw_first_events incoming) (pw_first_events pw1),
                    pw_event_count := saturating_count (pw_event_count pw1) (pw_event_count incoming),
                    pw_raw_flags := pw_raw_flags pw1 OR pw_raw_flags incoming,
                    pw_raw_counts := raw_counts_merge (pw_raw_counts incoming) (pw_raw_counts pw1),
                    pw_last_event := option_or (pw_last_event incoming) (pw_last_event pw1),
                    pw_recovery_event := option_or (pw_recovery_event pw1) (pw_recovery_event incoming),
                    pw_scope_fallback := (pw_scope_fallback pw1 \<or> pw_scope_fallback incoming),
                    pw_inbox_overflow := (pw_inbox_overflow pw1 \<or> pw_inbox_overflow incoming),
                    pw_rescan_roots := (pw_rescan_roots pw1 \<or> pw_rescan_roots incoming)\<rparr>
      in if pw_worker_scope_failure pw2 then pw2
         else if pw_rescan_roots pw2 then clear_paths pw2
         else fold (\<lambda>(path, flags). insert_path cfg path flags) (pw_paths incoming) pw2)"

definition has_retries :: "pending_work \<Rightarrow> bool" where
  "has_retries pw \<longleftrightarrow> pw_retry_roots pw \<or> pw_retry_paths pw \<noteq> [] \<or> pw_full_recovery_obligation pw"

definition needs_legacy_generation :: "pending_work \<Rightarrow> bool" where
  "needs_legacy_generation pw \<longleftrightarrow> pw_deferred_cleanups pw \<noteq> [] \<or> pw_full_recovery_generation pw \<noteq> None"

definition has_work :: "pending_work \<Rightarrow> bool" where
  "has_work pw \<longleftrightarrow> pw_rescan_roots pw \<or> pw_paths pw \<noteq> [] \<or> has_retries pw \<or> pw_worker_scope_failure pw"

definition has_pending :: "pending_work \<Rightarrow> bool" where
  "has_pending pw \<longleftrightarrow>
     has_work pw \<or> 0 < pw_max_event_id pw \<or> pw_checkpoint_reset pw \<or> pw_deferred_cleanups pw \<noteq> []"

definition inbox_max_paths :: nat where "inbox_max_paths = 16384"
definition inbox_max_path_bytes :: nat where "inbox_max_path_bytes = 4 * 1024 * 1024"

text \<open>\<open>INBOX_MAX_PATH_BYTES\<close> bounds what is kept; the sums of a list of capacities stay below \<open>2 ^ 64\<close>.\<close>

definition capacities :: "watch_config \<Rightarrow> (str \<times> 'a) list \<Rightarrow> nat" where
  "capacities cfg m = sum_list (map (wc_capacity cfg) (map fst m))"

definition worker_plan_size :: "watch_config \<Rightarrow> pending_work \<Rightarrow> nat \<times> nat" where
  "worker_plan_size cfg pw =
     (length (pw_paths pw) + length (pw_retry_paths pw) + length (pw_deferred_cleanups pw),
      capacities cfg (pw_paths pw) + capacities cfg (pw_retry_paths pw) + capacities cfg (pw_deferred_cleanups pw))"

definition covered_by_roots :: "str list \<Rightarrow> str \<Rightarrow> bool" where
  "covered_by_roots roots path \<longleftrightarrow>
     \<not> has_parent_dir path \<and>
     (\<exists>root \<in> set roots. is_absolute path = is_absolute root \<and> \<not> has_parent_dir root \<and> path_starts_with path root)"

text \<open>\<open>Iterator::max\<close> over generations.\<close>

definition max_generation :: "i64 list \<Rightarrow> i64 option" where
  "max_generation gs = (case gs of [] \<Rightarrow> None | _ \<Rightarrow> Some (Max (set gs)))"

definition enforce_worker_plan_bound :: "watch_config \<Rightarrow> pending_work \<Rightarrow> bool \<times> pending_work" where
  "enforce_worker_plan_bound cfg pw =
     (let (entries, bytes) = worker_plan_size cfg pw
      in if \<not> pw_full_recovery_obligation pw \<and> entries \<le> inbox_max_paths \<and> bytes \<le> inbox_max_path_bytes
         then (\<not> pw_worker_scope_failure pw, pw)
         else if \<not> ((\<forall>p \<in> set (map fst (pw_paths pw)). covered_by_roots (wc_roots cfg) p) \<and>
                    (\<forall>p \<in> set (map fst (pw_retry_paths pw)). covered_by_roots (wc_roots cfg) p) \<and>
                    (\<forall>p \<in> set (map fst (pw_deferred_cleanups pw)). covered_by_roots (wc_roots cfg) p))
         then (False, pw\<lparr>pw_worker_scope_failure := True\<rparr>)
         else (True, (clear_paths (pw\<lparr>pw_full_recovery_obligation := True,
                   pw_worker_overflow := (pw_worker_overflow pw \<or> inbox_max_paths < entries \<or> inbox_max_path_bytes < bytes),
                   pw_full_recovery_generation :=
                     max_generation (map snd (pw_deferred_cleanups pw) @
                       (case pw_full_recovery_generation pw of None \<Rightarrow> [] | Some g \<Rightarrow> [g]))\<rparr>))
                 \<lparr>pw_retry_paths := [], pw_deferred_cleanups := [], pw_retry_roots := True\<rparr>))"

subsection \<open>The inbox\<close>

record inbox_stats =
  st_admitted :: nat
  st_coalesced :: nat
  st_overflows :: nat
  st_highwater_paths :: nat
  st_highwater_bytes :: nat
  st_first_delivery :: "nat option"
  st_last_delivery :: "nat option"

definition inbox_stats_default :: inbox_stats where
  "inbox_stats_default =
     \<lparr>st_admitted = 0, st_coalesced = 0, st_overflows = 0, st_highwater_paths = 0, st_highwater_bytes = 0,
      st_first_delivery = None, st_last_delivery = None\<rparr>"

record inbox_state =
  ib_pending :: pending_work
  ib_stats :: inbox_stats
  ib_closed :: bool

definition inbox_new :: inbox_state where
  "inbox_new = \<lparr>ib_pending = pending_default, ib_stats = inbox_stats_default, ib_closed = False\<rparr>"

text \<open>\<open>EventInbox::push\<close> under its lock; the instant of delivery is an argument.\<close>

definition inbox_push :: "watch_config \<Rightarrow> nat \<Rightarrow> fs_event \<Rightarrow> inbox_state \<Rightarrow> inbox_state" where
  "inbox_push cfg delivered event ib =
     (if ib_closed ib then ib
      else let was_empty = (pw_event_count (ib_pending ib) = 0);
               previous_paths = length (pw_paths (ib_pending ib));
               pw = add_scoped cfg event (ib_pending ib);
               stats = ib_stats ib;
               overflow = (inbox_max_paths < length (pw_paths pw) \<or> inbox_max_path_bytes < pw_path_bytes pw)
           in ib\<lparr>ib_pending := (if overflow
                   then clear_paths (pw\<lparr>pw_rescan_roots := True, pw_inbox_overflow := True\<rparr>) else pw),
                 ib_stats := stats\<lparr>
                   st_admitted := saturating_count (st_admitted stats) 1,
                   st_coalesced := (if \<not> was_empty \<and> length (pw_paths pw) \<le> previous_paths
                                    then saturating_count (st_coalesced stats) 1 else st_coalesced stats),
                   st_highwater_paths := max (st_highwater_paths stats) (length (pw_paths pw)),
                   st_highwater_bytes := max (st_highwater_bytes stats) (pw_path_bytes pw),
                   st_overflows := (if overflow then saturating_count (st_overflows stats) 1 else st_overflows stats),
                   st_first_delivery := (case st_first_delivery stats of None \<Rightarrow> Some delivered | d \<Rightarrow> d),
                   st_last_delivery := Some delivered\<rparr>\<rparr>)"

definition inbox_close :: "inbox_state \<Rightarrow> inbox_state" where
  "inbox_close ib = ib\<lparr>ib_closed := True\<rparr>"

text \<open>\<open>take_locked\<close>: the batch is the whole state; an empty inbox replaces it.\<close>

definition take_locked :: "inbox_state \<Rightarrow> inbox_state \<times> inbox_state" where
  "take_locked ib = (ib, ib\<lparr>ib_pending := pending_default, ib_stats := inbox_stats_default\<rparr>)"

subsection \<open>The callback\<close>

record callback_state =
  cb_inbox :: inbox_state
  cb_filter :: event_filter
  cb_signals :: raw_counts
  cb_events :: nat
  cb_count :: nat

definition recovery_signals :: flags where
  "recovery_signals =
     flag_must_scan_subdirs OR flag_user_dropped OR flag_kernel_dropped OR flag_ids_wrapped OR flag_root_changed"

text \<open>One event as the system hands it over: its path may be missing, and need not be a text.\<close>

record raw_event =
  re_path :: "str option"
  re_flags :: flags
  re_id :: nat

definition callback_event :: "watch_config \<Rightarrow> nat \<Rightarrow> raw_event \<Rightarrow> callback_state \<Rightarrow> callback_state" where
  "callback_event cfg delivered raw cb =
     (let cb1 = (if has_flag (re_flags raw) recovery_signals
                 then cb\<lparr>cb_signals := raw_counts_record (re_flags raw) (re_id raw) (cb_signals cb)\<rparr> else cb)
      in case re_path raw of
           None \<Rightarrow> cb1
         | Some bytes \<Rightarrow>
             let path = to_string_lossy bytes; (accepted, flt) = filter_accepts path (re_flags raw) (cb_filter cb1);
                 cb2 = cb1\<lparr>cb_filter := flt\<rparr>
             in if accepted
                then cb2\<lparr>cb_inbox := inbox_push cfg delivered
                           \<lparr>ev_path = path, ev_flags = re_flags raw, ev_id = re_id raw\<rparr> (cb_inbox cb2)\<rparr>
                else cb2)"

text \<open>The counters of elapsed nanoseconds are left out.\<close>

definition event_callback :: "watch_config \<Rightarrow> nat \<Rightarrow> raw_event list \<Rightarrow> callback_state \<Rightarrow> callback_state" where
  "event_callback cfg delivered raws cb =
     (let cb1 = fold (callback_event cfg delivered) raws cb
      in cb1\<lparr>cb_events := cb_events cb1 + length raws, cb_count := cb_count cb1 + 1\<rparr>)"

definition callback_new :: "event_filter \<Rightarrow> callback_state" where
  "callback_new flt =
     \<lparr>cb_inbox = inbox_new, cb_filter = flt, cb_signals = raw_counts_default, cb_events = 0, cb_count = 0\<rparr>"

subsection \<open>Scans\<close>

text \<open>
  What the worker does with the world \<open>'w\<close> outside (the database and the file tree): refreshes of
  a path and rescans of the roots, with generations or exact, the event checkpoint and the
  clean-ups in one transaction.
\<close>

record 'w watch_ops =
  wo_refresh :: "bool \<Rightarrow> str \<Rightarrow> 'w \<Rightarrow> index_summary option \<times> 'w"
  wo_rescan :: "bool \<Rightarrow> 'w \<Rightarrow> index_summary option \<times> 'w"
  wo_set_checkpoint :: "nat \<Rightarrow> 'w \<Rightarrow> bool \<times> 'w"
  wo_cleanup :: "(str \<times> i64) list \<Rightarrow> 'w \<Rightarrow> bool \<times> 'w"

text \<open>The keys are paths, which are equal when their components are.\<close>

definition same_path :: "str \<Rightarrow> str \<Rightarrow> bool" where
  "same_path p q \<longleftrightarrow> path_components p = path_components q"

definition keep_newest :: "str \<times> i64 \<Rightarrow> (str \<times> i64) list \<Rightarrow> (str \<times> i64) list" where
  "keep_newest c m =
     (if \<exists>e \<in> set m. same_path (fst e) (fst c)
      then map (\<lambda>e. if same_path (fst e) (fst c) then (fst e, max (snd e) (snd c)) else e) m
      else m @ [c])"

definition retain_incomplete :: "index_summary \<Rightarrow> pending_work \<Rightarrow> pending_work" where
  "retain_incomplete summary pw =
     pw\<lparr>pw_retry_paths := fold (\<lambda>path. AList.update (to_string_lossy path) 0) (is_retry_paths summary) (pw_retry_paths pw),
        pw_deferred_cleanups := fold keep_newest (is_deferred_cleanups summary) (pw_deferred_cleanups pw)\<rparr>"

text \<open>A scan that was made: its path (none for the roots) and what it returned.\<close>

type_synonym scan = "str option \<times> index_summary option"

definition due_work :: "watch_config \<Rightarrow> bool \<Rightarrow> pending_work \<Rightarrow> pending_work" where
  "due_work cfg retry_due pw =
     (if retry_due
      then let paths = fold (\<lambda>(p, fl). AList.update p fl) (pw_retry_paths pw) (pw_paths pw)
           in pw\<lparr>pw_paths := paths, pw_retry_paths := [], pw_path_bytes := capacities cfg paths,
                 pw_rescan_roots := (pw_rescan_roots pw \<or> pw_retry_roots pw), pw_retry_roots := False\<rparr>
      else pw)"

definition refreshed_path :: "str \<Rightarrow> index_summary option \<Rightarrow> pending_work \<Rightarrow> pending_work" where
  "refreshed_path path outcome pw =
     (let (retry, pw1) =
        (case outcome of
           Some summary \<Rightarrow>
             (if is_warnings summary = []
              then (False, pw\<lparr>pw_retry_paths := filter (\<lambda>(old, _). \<not> path_starts_with old path) (pw_retry_paths pw)\<rparr>)
              else (is_retry_paths summary = [], retain_incomplete summary pw))
         | None \<Rightarrow> (True, pw))
      in if retry then pw1\<lparr>pw_retry_paths := AList.update path 0 (pw_retry_paths pw1)\<rparr> else pw1)"

fun refresh_all :: "(str \<Rightarrow> 'w \<Rightarrow> index_summary option \<times> 'w) \<Rightarrow> str list \<Rightarrow> pending_work \<Rightarrow> 'w \<Rightarrow>
    pending_work \<times> 'w \<times> scan list" where
  "refresh_all refresh [] pw w = (pw, w, [])"
| "refresh_all refresh (path # paths) pw w =
     (let (outcome, w1) = refresh path w;
          (pw2, w2, scans) = refresh_all refresh paths (refreshed_path path outcome pw) w1
      in (pw2, w2, (Some path, outcome) # scans))"

definition refresh_paths :: "(str \<Rightarrow> 'w \<Rightarrow> index_summary option \<times> 'w) \<Rightarrow> pending_work \<Rightarrow> 'w \<Rightarrow>
    pending_work \<times> 'w \<times> scan list" where
  "refresh_paths refresh pw w = refresh_all refresh (fold_refresh_paths (map fst (pw_paths pw))) (clear_paths pw) w"

text \<open>\<open>process_pending\<close>, with the scans it made, in order.\<close>

definition process_pending :: "watch_config \<Rightarrow> bool \<Rightarrow> (str \<Rightarrow> 'w \<Rightarrow> index_summary option \<times> 'w) \<Rightarrow>
    ('w \<Rightarrow> index_summary option \<times> 'w) \<Rightarrow> pending_work \<Rightarrow> 'w \<Rightarrow> pending_work \<times> 'w \<times> scan list" where
  "process_pending cfg retry_due refresh rescan pw w =
     (let pw1 = due_work cfg retry_due pw
      in if \<not> pw_rescan_roots pw1 then refresh_paths refresh pw1 w
         else let pw2 = pw1\<lparr>pw_rescan_roots := False\<rparr>; (outcome, w1) = rescan w
              in case outcome of
                   Some summary \<Rightarrow>
                     (if is_warnings summary = []
                      then let pw3 = (clear_paths pw2)\<lparr>pw_retry_paths := [], pw_retry_roots := False\<rparr>
                           in (if pw_full_recovery_obligation pw3 \<and> \<not> pw_worker_scope_failure pw3
                               then pw3\<lparr>pw_full_recovery_obligation := False, pw_full_recovery_generation := None,
                                        pw_deferred_cleanups := []\<rparr>
                               else pw3, w1, [(None, outcome)])
                      else (retain_incomplete summary ((clear_paths pw2)
                              \<lparr>pw_retry_paths := [], pw_retry_roots := (is_retry_paths summary = [])\<rparr>),
                            w1, [(None, outcome)]))
                 | None \<Rightarrow>
                     let (pw3, w2, scans) = refresh_paths refresh (pw2\<lparr>pw_retry_roots := True\<rparr>) w1
                     in (pw3, w2, (None, None) # scans))"

subsection \<open>The checkpoint\<close>

definition invalidate_wrapped_checkpoint :: "'w watch_ops \<Rightarrow> pending_work \<Rightarrow> 'w \<Rightarrow> bool \<times> pending_work \<times> 'w" where
  "invalidate_wrapped_checkpoint ops pw w =
     (if pw_checkpoint_reset pw \<and> \<not> pw_checkpoint_invalidated pw
      then (case wo_set_checkpoint ops 0 w of
              (False, w1) \<Rightarrow> (False, pw, w1)
            | (True, w1) \<Rightarrow> (True, pw\<lparr>pw_checkpoint_invalidated := True\<rparr>, w1))
      else (True, pw, w))"

definition persist_checkpoint :: "'w watch_ops \<Rightarrow> pending_work \<Rightarrow> 'w \<Rightarrow> bool \<times> pending_work \<times> 'w" where
  "persist_checkpoint ops pw w =
     (case invalidate_wrapped_checkpoint ops pw w of
        (False, pw1, w1) \<Rightarrow> (False, pw1, w1)
      | (True, pw1, w1) \<Rightarrow>
          (if has_work pw1 then (False, pw1, w1)
           else case (if pw_deferred_cleanups pw1 = [] then (True, w1) else wo_cleanup ops (pw_deferred_cleanups pw1) w1) of
                  (False, w2) \<Rightarrow> (False, pw1, w2)
                | (True, w2) \<Rightarrow>
                    let pw2 = pw1\<lparr>pw_deferred_cleanups := []\<rparr>
                    in if 0 < pw_max_event_id pw2 \<or> pw_checkpoint_reset pw2
                       then (case wo_set_checkpoint ops (pw_max_event_id pw2) w2 of
                               (False, w3) \<Rightarrow> (False, pw2, w3)
                             | (True, w3) \<Rightarrow>
                                 (True, clear_diagnostics (pw2\<lparr>pw_max_event_id := 0, pw_checkpoint_reset := False,
                                    pw_checkpoint_invalidated := False\<rparr>), w3))
                       else (True, clear_diagnostics pw2, w2)))"

text \<open>
  One turn of the loop of \<open>spawn_processor\<close> after a batch was taken: merge it, bound the plan,
  make the scans and move the checkpoint; with what it scanned, and whether it is complete.
\<close>

definition merge_batch :: "watch_config \<Rightarrow> pending_work \<Rightarrow> pending_work \<Rightarrow> bool \<times> pending_work" where
  "merge_batch cfg incoming pw = enforce_worker_plan_bound cfg (merge_incoming cfg incoming pw)"

definition worker_turn :: "watch_config \<Rightarrow> 'w watch_ops \<Rightarrow> bool \<Rightarrow> pending_work \<Rightarrow> pending_work \<Rightarrow> 'w \<Rightarrow>
    bool \<times> pending_work \<times> 'w \<times> scan list" where
  "worker_turn cfg ops retry_due incoming pw w =
     (let (scoped_plan, pw1) = merge_batch cfg incoming pw;
          (ready, pw2, w1) = invalidate_wrapped_checkpoint ops pw1 w
      in if \<not> scoped_plan \<or> \<not> ready then (False, pw2, w1, [])
         else let legacy = needs_legacy_generation pw2;
                  (pw3, w2, scans) = process_pending cfg retry_due (wo_refresh ops legacy) (wo_rescan ops legacy) pw2 w1;
                  (within, pw4) = enforce_worker_plan_bound cfg pw3
              in if \<not> within then (False, pw4, w2, scans)
                 else let (complete, pw5, w3) = persist_checkpoint ops pw4 w2 in (complete, pw5, w3, scans))"

text \<open>
  The beginning of \<open>watch_index\<close>: from the stored checkpoint and the current event id to the
  pending work the worker starts with and the id the stream starts from; without a usable
  checkpoint the roots are scanned first.
\<close>

definition watch_start :: "'w watch_ops \<Rightarrow> nat option \<Rightarrow> nat \<Rightarrow> 'w \<Rightarrow> (pending_work \<times> nat \<times> scan list) option \<times> 'w" where
  "watch_start ops stored current_system_id w =
     (case resolve_since_when stored current_system_id of
        UseCheckpoint i \<Rightarrow> (Some (pending_default, i, []), w)
      | FullRescan \<Rightarrow>
          let initial = pending_default\<lparr>pw_max_event_id := current_system_id\<rparr>
          in case wo_rescan ops False w of
               (None, w1) \<Rightarrow> (None, w1)
             | (Some summary, w1) \<Rightarrow>
                 if is_warnings summary = []
                 then (case wo_set_checkpoint ops current_system_id w1 of
                         (False, w2) \<Rightarrow> (None, w2)
                       | (True, w2) \<Rightarrow>
                           (Some (initial\<lparr>pw_max_event_id := 0\<rparr>, current_system_id, [(None, Some summary)]), w2))
                 else let kept = retain_incomplete summary initial
                      in (Some (if has_work kept then kept else kept\<lparr>pw_retry_roots := True\<rparr>,
                                current_system_id, [(None, Some summary)]), w1))"

text \<open>The retry clock of the loop: the delay doubles up to a minute and starts again after a complete turn.\<close>

definition min_retry_delay :: nat where "min_retry_delay = 1000"
definition max_retry_delay :: nat where "max_retry_delay = 60000"

definition retry_is_due :: "bool \<Rightarrow> nat option \<Rightarrow> nat \<Rightarrow> bool" where
  "retry_is_due disconnected retry_at now \<longleftrightarrow> disconnected \<or> (case retry_at of None \<Rightarrow> True | Some deadline \<Rightarrow> deadline \<le> now)"

definition next_retry :: "bool \<Rightarrow> bool \<Rightarrow> nat \<Rightarrow> nat option \<times> nat \<Rightarrow> nat option \<times> nat" where
  "next_retry complete retry_due now clock =
     (if complete then (None, min_retry_delay)
      else if retry_due \<or> fst clock = None then (Some (now + snd clock), min (snd clock * 2) max_retry_delay)
      else clock)"

end
