(* ===== verification/Watch_Cover.thy ===== *)
theory Watch_Cover
  imports Watch_Work Rust_Lossy
begin

text \<open>
  What the pending work of the watcher covers: which changed paths are still owed a scan, and that
  gathering events, merging batches and bounding the plan never forget one.
\<close>

subsection \<open>Paths\<close>

lemma utf8_valid_split:
  "utf8_valid s \<longleftrightarrow> (\<forall>w \<in> set (split_on is_sep s). utf8_valid w)"
proof
  show "\<forall>w \<in> set (split_on is_sep s). utf8_valid w" if "utf8_valid s"
    using that by (auto intro!: split_on_valid [of is_sep s] simp: is_sep_def byte_def)
next
  show "utf8_valid s" if "\<forall>w \<in> set (split_on is_sep s). utf8_valid w"
    using that
  proof (induction s rule: split_on_induct [of is_sep])
    case (whole s)
    then show ?case by (simp add: split_on_no_sep)
  next
    case (piece w x s)
    then have "x = CHR ''/''" by (simp add: is_sep_def)
    then have "byte x < 128" by (simp add: byte_def)
    with piece show ?case by (simp add: split_on_append utf8_valid_append)
  qed
qed

lemma map_filter_set: "x \<in> set (List.map_filter f xs) \<longleftrightarrow> (\<exists>y \<in> set xs. f y = Some x)"
  by (force simp: List.map_filter_def)

definition component_valid :: "path_component \<Rightarrow> bool" where
  "component_valid c \<longleftrightarrow> (case c of Normal s \<Rightarrow> utf8_valid s | _ \<Rightarrow> True)"

lemma utf8_valid_components: "utf8_valid p \<longleftrightarrow> (\<forall>c \<in> set (path_components p). component_valid c)"
proof -
  have seg: "utf8_valid w \<longleftrightarrow> (\<forall>c. segment_component w = Some c \<longrightarrow> component_valid c)" for w
    by (auto simp: segment_component_def component_valid_def byte_def)
  have "utf8_valid p \<longleftrightarrow> (\<forall>c \<in> set (List.map_filter segment_component (split_on is_sep p)). component_valid c)"
    unfolding utf8_valid_split [of p] using seg by (metis map_filter_set)
  moreover have "component_valid RootDir" "component_valid CurDir" by (simp_all add: component_valid_def)
  ultimately show ?thesis unfolding path_components_def Let_def set_append by auto
qed

lemma valid_base: "path_starts_with y p \<Longrightarrow> utf8_valid y \<Longrightarrow> utf8_valid p"
  unfolding utf8_valid_components path_starts_with_def using set_mono_prefix by blast

lemma starts_with_lossy: "path_starts_with y p \<Longrightarrow> utf8_valid y \<Longrightarrow> path_starts_with y (to_string_lossy p)"
  using valid_base by fastforce

lemma ancestors_starts_with: "a \<in> set (ancestors p) \<Longrightarrow> path_starts_with p a"
proof (induction p rule: ancestors.induct)
  case (1 p)
  show ?case
  proof (cases "a = p")
    case False
    have "a \<in> set (p # (case path_parent p of None \<Rightarrow> [] | Some q \<Rightarrow> ancestors q))"
      using "1.prems" ancestors.simps [of p] by simp
    with False obtain q where q: "path_parent p = Some q" "a \<in> set (ancestors q)"
      by (cases "path_parent p") auto
    from path_parent_components [OF q(1)] have "path_starts_with p q"
      by (metis path_starts_with_def append_butlast_last_id prefixI)
    moreover have "path_starts_with q a" using "1.IH" q by blast
    ultimately show ?thesis by (rule path_starts_with_trans)
  qed simp
qed

lemma fold_refresh_covers_acc:
  "\<forall>p \<in> set ps \<union> set acc. \<exists>q \<in> set (fold fold_refresh_step ps acc). path_starts_with p q"
proof (induction ps arbitrary: acc)
  case (Cons p ps)
  have now: "\<exists>q \<in> set (fold_refresh_step p acc). path_starts_with r q" if "r \<in> set (p # acc)" for r
  proof (cases "r = p \<and> (\<exists>a \<in> set (ancestors p). a \<in> set acc)")
    case True
    then obtain a where "a \<in> set (ancestors p)" "a \<in> set acc" "r = p" by blast
    then show ?thesis using ancestors_starts_with [of a p] unfolding fold_refresh_step_def by auto
  next
    case False
    with that have "r \<in> set (fold_refresh_step p acc)" unfolding fold_refresh_step_def by auto
    then show ?thesis using path_starts_with_refl by blast
  qed
  show ?case
  proof
    fix r assume r: "r \<in> set (p # ps) \<union> set acc"
    consider "r \<in> set ps" | q where "q \<in> set (fold_refresh_step p acc)" "path_starts_with r q"
      using r now [of r] by auto
    then show "\<exists>q \<in> set (fold fold_refresh_step (p # ps) acc). path_starts_with r q"
    proof cases
      case 1
      then show ?thesis using Cons.IH [of "fold_refresh_step p acc"] by auto
    next
      case 2
      then show ?thesis using Cons.IH [of "fold_refresh_step p acc"] path_starts_with_trans by fastforce
    qed
  qed
qed (auto intro: path_starts_with_refl bexI)

lemma fold_refresh_subset: "set (fold fold_refresh_step ps acc) \<subseteq> set ps \<union> set acc"
proof (induction ps arbitrary: acc)
  case (Cons p ps)
  have "set (fold_refresh_step p acc) \<subseteq> insert p (set acc)" by (auto simp: fold_refresh_step_def)
  then show ?case using Cons.IH [of "fold_refresh_step p acc"] by auto
qed simp

lemma fold_refresh_paths_covers: "p \<in> set ps \<Longrightarrow> \<exists>q \<in> set (fold_refresh_paths ps). path_starts_with p q"
  using fold_refresh_covers_acc [of "sort ps" "[]"] by (simp add: fold_refresh_paths_def)

lemma fold_refresh_paths_subset: "set (fold_refresh_paths ps) \<subseteq> set ps"
  using fold_refresh_subset [of "sort ps" "[]"] by (simp add: fold_refresh_paths_def)

subsection \<open>What is owed\<close>

definition in_roots :: "watch_config \<Rightarrow> str \<Rightarrow> bool" where
  "in_roots cfg y \<longleftrightarrow> utf8_valid y \<and> (\<exists>root \<in> set (wc_roots cfg). path_starts_with y root)"

text \<open>The part of the indexed trees that an event makes uncertain.\<close>

definition region :: "watch_config \<Rightarrow> fs_event \<Rightarrow> str set" where
  "region cfg e =
     {y. in_roots cfg y \<and> (action_for_flags (ev_flags e) = RescanRoots \<or> path_starts_with y (ev_path e))}"

definition covers :: "path_flags \<Rightarrow> str \<Rightarrow> bool" where
  "covers m y \<longleftrightarrow> (\<exists>p \<in> set (map fst m). path_starts_with y p)"

definition owes :: "pending_work \<Rightarrow> str \<Rightarrow> bool" where
  "owes pw y \<longleftrightarrow> pw_rescan_roots pw \<or> pw_retry_roots pw \<or> pw_full_recovery_obligation pw \<or> pw_worker_scope_failure pw \<or>
     covers (pw_paths pw) y \<or> covers (pw_retry_paths pw) y"

lemma no_work_owes_nothing: "\<not> has_work pw \<Longrightarrow> \<not> owes pw y"
  by (auto simp: has_work_def has_retries_def owes_def covers_def)

lemma covers_update [simp]: "covers (AList.update p fl m) y \<longleftrightarrow> path_starts_with y p \<or> covers m y"
  by (auto simp: covers_def update_keys simp del: set_map)

lemma covers_Nil [simp]: "\<not> covers [] y"
  by (simp add: covers_def)

lemma owes_clear_paths [simp]:
  "owes (clear_paths pw) y \<longleftrightarrow> pw_rescan_roots pw \<or> pw_retry_roots pw \<or> pw_full_recovery_obligation pw \<or>
     pw_worker_scope_failure pw \<or> covers (pw_retry_paths pw) y"
  by (simp add: owes_def clear_paths_def)

lemma owes_insert_path [simp]: "owes (insert_path cfg p fl pw) y \<longleftrightarrow> path_starts_with y p \<or> owes pw y"
  by (auto simp: owes_def insert_path_def split: option.splits)

lemma owes_insert_paths:
  "owes (fold (\<lambda>p. insert_path cfg p fl) ps pw) y \<longleftrightarrow> (\<exists>p \<in> set ps. path_starts_with y p) \<or> owes pw y"
  by (induction ps arbitrary: pw) auto

lemma record_event_simps [simp]:
  "pw_rescan_roots (record_event cfg e pw) = pw_rescan_roots pw"
  "pw_retry_roots (record_event cfg e pw) = pw_retry_roots pw"
  "pw_full_recovery_obligation (record_event cfg e pw) = pw_full_recovery_obligation pw"
  "pw_worker_scope_failure (record_event cfg e pw) = pw_worker_scope_failure pw"
  "pw_paths (record_event cfg e pw) = pw_paths pw"
  "pw_retry_paths (record_event cfg e pw) = pw_retry_paths pw"
  "pw_path_bytes (record_event cfg e pw) = pw_path_bytes pw"
  by (simp_all add: record_event_def Let_def)

lemma owes_record_event [simp]: "owes (record_event cfg e pw) = owes pw"
  by (simp add: owes_def fun_eq_iff)

definition roots_ok :: "watch_config \<Rightarrow> bool" where
  "roots_ok cfg \<longleftrightarrow> (\<forall>root \<in> set (wc_roots cfg). utf8_valid root)"

lemma subtree_targets_cover:
  assumes ts: "subtree_targets p (wc_roots cfg) = Some ts" and y: "in_roots cfg y" "path_starts_with y p"
    and valid: "utf8_valid p" "roots_ok cfg"
  shows "\<exists>t \<in> set ts. path_starts_with y t"
proof -
  let ?f = "\<lambda>root. if path_starts_with p root then Some (to_string_lossy p)
                 else if path_starts_with root p then Some (to_string_lossy root) else None"
  obtain root where root: "root \<in> set (wc_roots cfg)" "path_starts_with y root"
    using y unfolding in_roots_def by blast
  from root(1) valid have lossy: "to_string_lossy root = root" "to_string_lossy p = p" by (simp_all add: roots_ok_def)
  have "path_starts_with p root \<or> path_starts_with root p"
    using root(2) y(2) prefix_same_cases by (auto simp: path_starts_with_def)
  then have "\<exists>t. ?f root = Some t \<and> path_starts_with y t" using lossy root(2) y(2) by simp blast
  then obtain t where t: "?f root = Some t" "path_starts_with y t" by blast
  then have "t \<in> set (List.map_filter ?f (wc_roots cfg))" using root(1) unfolding map_filter_set by blast
  moreover have "ts = fold_refresh_paths (List.map_filter ?f (wc_roots cfg))"
    using ts by (auto simp: subtree_targets_def Let_def split: if_split_asm)
  ultimately obtain q where "q \<in> set ts" "path_starts_with t q" using fold_refresh_paths_covers by blast
  then show ?thesis using path_starts_with_trans [OF t(2)] by blast
qed

lemma add_event_owes: "action_for_flags (ev_flags e) = RescanRoots \<Longrightarrow> owes (add_event cfg e pw) y"
  by (simp add: add_event_def Let_def)

lemma add_scoped_owes:
  assumes "utf8_valid (ev_path e)" "roots_ok cfg" and y: "owes pw y \<or> y \<in> region cfg e"
  shows "owes (add_scoped cfg e pw) y"
proof (cases "action_for_flags (ev_flags e) = RescanRoots")
  case True
  then show ?thesis by (simp add: add_scoped_def add_event_owes)
next
  case False
  show ?thesis
  proof (cases "subtree_targets (ev_path e) (wc_roots cfg)")
    case None
    with False show ?thesis by (simp add: add_scoped_def Let_def owes_def clear_paths_def)
  next
    case (Some ts)
    have "\<exists>t \<in> set ts. path_starts_with y t" if "y \<in> region cfg e"
      using that False subtree_targets_cover [OF Some _ _ assms(1,2)] by (simp add: region_def)
    with y have "owes (fold (\<lambda>p. insert_path cfg p (ev_flags e)) ts (record_event cfg e pw)) y"
      by (auto simp: owes_insert_paths)
    moreover have "owes (record_event cfg e pw) y" if "pw_rescan_roots pw" using that by (simp add: owes_def)
    ultimately show ?thesis using False Some by (auto simp: add_scoped_def Let_def)
  qed
qed

lemma push_owes:
  assumes "utf8_valid (ev_path e)" "roots_ok cfg" "\<not> ib_closed ib"
    and "owes (ib_pending ib) y \<or> y \<in> region cfg e"
  shows "owes (ib_pending (inbox_push cfg t e ib)) y"
  using add_scoped_owes [OF assms(1,2,4)] assms(3) by (simp add: inbox_push_def Let_def)

text \<open>Merging keeps what either side owes; only the worker has a scope failure or retries.\<close>

definition fresh_work :: "pending_work \<Rightarrow> bool" where
  "fresh_work pw \<longleftrightarrow> \<not> pw_retry_roots pw \<and> \<not> pw_full_recovery_obligation pw \<and> \<not> pw_worker_scope_failure pw \<and>
     pw_retry_paths pw = []"

lemma fresh_work_owes: "fresh_work pw \<Longrightarrow> owes pw y \<longleftrightarrow> pw_rescan_roots pw \<or> covers (pw_paths pw) y"
  by (auto simp: fresh_work_def owes_def)

lemma owes_insert_entries:
  "owes (fold (\<lambda>(p, fl). insert_path cfg p fl) m pw) y \<longleftrightarrow> covers m y \<or> owes pw y"
proof (induction m arbitrary: pw)
  case (Cons e m)
  then show ?case by (cases e) (auto simp: covers_def)
qed simp

lemma merge_owes:
  assumes "fresh_work new" and y: "owes new y \<or> owes pw y"
  shows "owes (merge_incoming cfg new pw) y"
proof -
  have m: "\<And>P. owes (P\<lparr>pw_rescan_roots := b\<rparr>) y \<longleftrightarrow> b \<or> owes (P\<lparr>pw_rescan_roots := False\<rparr>) y" for b
    by (auto simp: owes_def)
  show ?thesis
    using y unfolding merge_incoming_def Let_def fresh_work_owes [OF assms(1)]
    by (auto simp: owes_insert_entries) (auto simp: owes_def)
qed

definition compressed :: "pending_work \<Rightarrow> pending_work \<Rightarrow> bool" where
  "compressed pw pw' \<longleftrightarrow>
     pw_paths pw' = [] \<and> pw_path_bytes pw' = 0 \<and> pw_retry_paths pw' = [] \<and> pw_deferred_cleanups pw' = [] \<and>
     pw_full_recovery_obligation pw' \<and> pw_retry_roots pw' \<and>
     pw_rescan_roots pw' = pw_rescan_roots pw \<and> pw_worker_scope_failure pw' = pw_worker_scope_failure pw \<and>
     pw_max_event_id pw' = pw_max_event_id pw \<and> pw_checkpoint_reset pw' = pw_checkpoint_reset pw \<and>
     pw_checkpoint_invalidated pw' = pw_checkpoint_invalidated pw"

definition within_bounds :: "watch_config \<Rightarrow> pending_work \<Rightarrow> bool" where
  "within_bounds cfg pw \<longleftrightarrow>
     fst (worker_plan_size cfg pw) \<le> inbox_max_paths \<and> snd (worker_plan_size cfg pw) \<le> inbox_max_path_bytes"

lemma enforce_cases:
  assumes "enforce_worker_plan_bound cfg pw = (ok, pw')"
  obtains "pw' = pw" "ok = (\<not> pw_worker_scope_failure pw)" "within_bounds cfg pw" "\<not> pw_full_recovery_obligation pw"
  | "\<not> ok" "pw' = pw\<lparr>pw_worker_scope_failure := True\<rparr>"
  | "ok" "compressed pw pw'"
proof -
  obtain entries bytes where size: "worker_plan_size cfg pw = (entries, bytes)" by fastforce
  let ?small = "\<not> pw_full_recovery_obligation pw \<and> entries \<le> inbox_max_paths \<and> bytes \<le> inbox_max_path_bytes"
  let ?covered = "(\<forall>p \<in> set (map fst (pw_paths pw)). covered_by_roots (wc_roots cfg) p) \<and>
     (\<forall>p \<in> set (map fst (pw_retry_paths pw)). covered_by_roots (wc_roots cfg) p) \<and>
     (\<forall>p \<in> set (map fst (pw_deferred_cleanups pw)). covered_by_roots (wc_roots cfg) p)"
  note eq = assms [unfolded enforce_worker_plan_bound_def size Let_def prod.case]
  consider "?small" | "\<not> ?small" "\<not> ?covered" | "\<not> ?small" "?covered" by blast
  then show ?thesis
  proof cases
    case 1
    with eq have "pw' = pw" "ok = (\<not> pw_worker_scope_failure pw)" by auto
    moreover have "within_bounds cfg pw" using 1 by (simp add: within_bounds_def size)
    ultimately show ?thesis using that(1) 1 by blast
  next
    case 2
    note eq [unfolded if_not_P [OF 2(1)] if_P [OF 2(2)]]
    then show ?thesis using that(2) by blast
  next
    case 3
    from 3(2) have "\<not> \<not> ?covered" by blast
    note eq [unfolded if_not_P [OF 3(1)] if_not_P [OF this]]
    then show ?thesis by (intro that(3)) (auto simp: compressed_def clear_paths_def)
  qed
qed

lemma enforce_owes:
  assumes "owes pw y"
  shows "owes (snd (enforce_worker_plan_bound cfg pw)) y"
proof -
  obtain ok pw' where e: "enforce_worker_plan_bound cfg pw = (ok, pw')" by fastforce
  have "owes pw' y"
    using e
  proof (cases rule: enforce_cases)
    case 1
    with assms show ?thesis by simp
  next
    case 2
    then show ?thesis by (simp add: owes_def)
  next
    case 3
    then show ?thesis by (simp add: owes_def compressed_def)
  qed
  with e show ?thesis by simp
qed

lemma merge_batch_owes:
  "fresh_work new \<Longrightarrow> owes new y \<or> owes pw y \<Longrightarrow> owes (snd (merge_batch cfg new pw)) y"
  unfolding merge_batch_def by (intro enforce_owes merge_owes)

subsection \<open>Scans\<close>

text \<open>
  A scan that returns a summary without warnings has read everything in its scope. A summary with
  warnings names what it could not read; when it names nothing, nothing counts as read.
\<close>

definition leaves :: "index_summary \<Rightarrow> str \<Rightarrow> bool" where
  "leaves s y \<longleftrightarrow> is_warnings s \<noteq> [] \<and> (is_retry_paths s = [] \<or> (\<exists>r \<in> set (is_retry_paths s). path_starts_with y r))"

definition scanned :: "watch_config \<Rightarrow> str \<Rightarrow> scan \<Rightarrow> bool" where
  "scanned cfg y sc \<longleftrightarrow>
     (case snd sc of None \<Rightarrow> False
      | Some s \<Rightarrow> (case fst sc of None \<Rightarrow> in_roots cfg y | Some p \<Rightarrow> path_starts_with y p) \<and> \<not> leaves s y)"

lemma scanned_simps [simp]:
  "\<not> scanned cfg y (scope, None)"
  "scanned cfg y (Some p, Some s) \<longleftrightarrow> path_starts_with y p \<and> \<not> leaves s y"
  "scanned cfg y (None, Some s) \<longleftrightarrow> in_roots cfg y \<and> \<not> leaves s y"
  by (auto simp: scanned_def)

lemma covers_updates:
  "covers (fold (\<lambda>p. AList.update (f p) fl) ps m) y \<longleftrightarrow> (\<exists>p \<in> set ps. path_starts_with y (f p)) \<or> covers m y"
  by (induction ps arbitrary: m) auto

lemma covers_entries: "covers (fold (\<lambda>(p, fl). AList.update p fl) m m') y \<longleftrightarrow> covers m y \<or> covers m' y"
proof (induction m arbitrary: m')
  case (Cons e m)
  then show ?case by (cases e) (auto simp: covers_def [of "_ # _"] covers_def [of m])
qed simp

lemma owes_retry:
  "owes (pw\<lparr>pw_retry_paths := m\<rparr>) y \<longleftrightarrow> covers m y \<or> owes (pw\<lparr>pw_retry_paths := []\<rparr>) y"
  by (auto simp: owes_def)

lemma owes_split: "owes pw y \<longleftrightarrow> covers (pw_retry_paths pw) y \<or> owes (pw\<lparr>pw_retry_paths := []\<rparr>) y"
  by (auto simp: owes_def)

lemma retain_incomplete_owes:
  assumes y: "utf8_valid y" and or: "owes pw y \<or> leaves s y \<and> is_retry_paths s \<noteq> []"
  shows "owes (retain_incomplete s pw) y"
proof -
  have "leaves s y \<Longrightarrow> is_retry_paths s \<noteq> [] \<Longrightarrow> \<exists>r \<in> set (is_retry_paths s). path_starts_with y (to_string_lossy r)"
    using starts_with_lossy y by (auto simp: leaves_def)
  with or show ?thesis by (auto simp: retain_incomplete_def owes_def covers_updates)
qed

lemma refreshed_path_owes:
  assumes y: "utf8_valid y" and or: "path_starts_with y p \<or> owes pw y" and not: "\<not> scanned cfg y (Some p, outcome)"
  shows "owes (refreshed_path p outcome pw) y"
proof (cases outcome)
  case None
  with or show ?thesis by (auto simp: refreshed_path_def owes_def)
next
  case (Some s)
  show ?thesis
  proof (cases "is_warnings s = []")
    case True
    with not Some have np: "\<not> path_starts_with y p" by (simp add: leaves_def)
    have "covers (filter (\<lambda>(old, _). \<not> path_starts_with old p) m) y" if "covers m y" for m :: path_flags
      using that np path_starts_with_trans by (fastforce simp: covers_def)
    with or np Some True show ?thesis by (auto simp: refreshed_path_def owes_def)
  next
    case False
    have retain: "owes (retain_incomplete s pw) y" if "owes pw y \<or> is_retry_paths s \<noteq> []"
      using that or not Some by (intro retain_incomplete_owes [OF y]) auto
    show ?thesis
    proof (cases "is_retry_paths s = []")
      case True
      have "path_starts_with y p \<or> owes (retain_incomplete s pw) y" using or retain by blast
      with True False Some show ?thesis by (auto simp: refreshed_path_def owes_def)
    next
      case ne: False
      with retain False Some show ?thesis by (simp add: refreshed_path_def)
    qed
  qed
qed

lemma refresh_all_owes:
  assumes "refresh_all refresh ps pw w = (pw', w', scans)" and "utf8_valid y"
    and "(\<exists>p \<in> set ps. path_starts_with y p) \<or> owes pw y" and "\<forall>sc \<in> set scans. \<not> scanned cfg y sc"
  shows "owes pw' y"
  using assms
proof (induction ps arbitrary: pw w scans)
  case (Cons p ps)
  obtain outcome w1 where r: "refresh p w = (outcome, w1)" by fastforce
  obtain scans' where rest: "refresh_all refresh ps (refreshed_path p outcome pw) w1 = (pw', w', scans')"
    and scans: "scans = (Some p, outcome) # scans'"
    using Cons.prems(1) r by (auto split: prod.splits)
  have "(\<exists>p \<in> set ps. path_starts_with y p) \<or> owes (refreshed_path p outcome pw) y"
    using Cons.prems refreshed_path_owes [of y p pw cfg outcome] scans by auto
  with Cons.IH [OF rest] Cons.prems scans show ?case by simp
qed auto

lemma refresh_paths_owes:
  assumes "refresh_paths refresh pw w = (pw', w', scans)" and "utf8_valid y" and "owes pw y"
    and "\<forall>sc \<in> set scans. \<not> scanned cfg y sc" and "\<not> pw_rescan_roots pw"
  shows "owes pw' y"
proof -
  have "(\<exists>p \<in> set (fold_refresh_paths (map fst (pw_paths pw))). path_starts_with y p) \<or> owes (clear_paths pw) y"
  proof (cases "covers (pw_paths pw) y")
    case True
    then show ?thesis unfolding covers_def using fold_refresh_paths_covers path_starts_with_trans by blast
  next
    case False
    with assms(3) show ?thesis by (auto simp: owes_def clear_paths_def)
  qed
  with assms show ?thesis unfolding refresh_paths_def by (intro refresh_all_owes)
qed

lemma due_work_owes: "owes (due_work cfg retry_due pw) y \<longleftrightarrow> owes pw y"
  by (auto simp: due_work_def Let_def owes_def covers_entries)

lemma process_pending_owes:
  assumes p: "process_pending cfg retry_due refresh rescan pw w = (pw', w', scans)" and y: "in_roots cfg y" "owes pw y"
    and not: "\<forall>sc \<in> set scans. \<not> scanned cfg y sc"
  shows "owes pw' y"
proof -
  have valid: "utf8_valid y" using y by (simp add: in_roots_def)
  let ?d = "due_work cfg retry_due pw"
  have due: "owes ?d y" using y by (simp add: due_work_owes)
  show ?thesis
  proof (cases "pw_rescan_roots ?d")
    case False
    with p due refresh_paths_owes [OF _ valid _ not] show ?thesis by (simp add: process_pending_def Let_def)
  next
    case True
    obtain outcome w1 where r: "rescan w = (outcome, w1)" by fastforce
    show ?thesis
    proof (cases outcome)
      case None
      let ?d' = "?d\<lparr>pw_rescan_roots := False, pw_retry_roots := True\<rparr>"
      obtain pw3 w3 scans' where q: "refresh_paths refresh ?d' w1 = (pw3, w3, scans')" by (metis prod_cases3)
      have "pw' = pw3" "scans = (None, None) # scans'"
        using p True r None q by (simp_all add: process_pending_def Let_def)
      moreover have "owes ?d' y" by (simp add: owes_def)
      ultimately show ?thesis using refresh_paths_owes [OF q valid] not by simp
    next
      case (Some s)
      have sc: "scans = [(None, Some s)]"
        using p True r Some by (auto simp: process_pending_def Let_def split: if_split_asm)
      with not y have l: "leaves s y" by simp
      then have w: "is_warnings s \<noteq> []" by (simp add: leaves_def)
      then have "pw' = retain_incomplete s ((clear_paths (?d\<lparr>pw_rescan_roots := False\<rparr>))
          \<lparr>pw_retry_paths := [], pw_retry_roots := (is_retry_paths s = [])\<rparr>)"
        using p True r Some by (simp add: process_pending_def Let_def)
      moreover have "owes (P\<lparr>pw_retry_paths := [], pw_retry_roots := (is_retry_paths s = [])\<rparr>) y \<or> is_retry_paths s \<noteq> []" for P
        by (auto simp: owes_def)
      ultimately show ?thesis using retain_incomplete_owes [OF valid] l by metis
    qed
  qed
qed

end
