(* ===== verification/Watch_Safe.thy ===== *)
theory Watch_Safe
  imports Watch_Cover
begin

text \<open>
  The watcher as a state machine: events arrive at the callback while the worker takes its turns.
  What has arrived and was not scanned since is remembered beside the state. The machine keeps it
  owed by the inbox or by the worker, whatever the ids of the events; and as long as the ids rise,
  the stored checkpoint never passes an event that has one.
\<close>

subsection \<open>Arrivals\<close>

text \<open>The paths the watcher takes care of: not excluded, and not those of the database itself.\<close>

definition tracked :: "event_filter \<Rightarrow> str \<Rightarrow> bool" where
  "tracked flt y \<longleftrightarrow>
     \<not> path_starts_with y (ef_db_path flt) \<and>
     (case ef_db_dir flt of None \<Rightarrow> True | Some d \<Rightarrow> \<not> path_starts_with y d) \<and> \<not> is_excluded (ef_excludes flt) y"

definition history_marker :: "flags \<Rightarrow> bool" where
  "history_marker flags \<longleftrightarrow> has_flag flags flag_history_done \<and> \<not> has_flag flags flag_must_scan_subdirs"

text \<open>
  The paths that an event says may have changed. The system gives every event a path; the callback
  skips a null pointer.
\<close>

definition dirty :: "watch_config \<Rightarrow> event_filter \<Rightarrow> raw_event \<Rightarrow> str set" where
  "dirty cfg flt raw =
     {y. in_roots cfg y \<and> tracked flt y \<and>
         (\<exists>p. re_path raw = Some p \<and>
            (action_for_flags (re_flags raw) = RescanRoots \<or> \<not> history_marker (re_flags raw) \<and> path_starts_with y p))}"

lemma prefix_map_filter: "prefix xs ys \<Longrightarrow> prefix (List.map_filter f xs) (List.map_filter f ys)"
  by (auto simp: prefix_def List.map_filter_def)

lemma any_pattern_append: "any_pattern m xs \<Longrightarrow> any_pattern m (xs @ ys)"
proof (induction xs)
  case (Cons x xs)
  have "suffix_matches others xs \<Longrightarrow> suffix_matches others (xs @ ys)" for others
    by (simp add: suffix_matches_prefix)
  with Cons show ?case by (auto simp: list_ex_iff split: option.splits)
qed simp

lemma is_excluded_below: "is_excluded m p \<Longrightarrow> path_starts_with y p \<Longrightarrow> is_excluded m y"
  unfolding is_excluded_def path_starts_with_def component_texts_def
  by (drule prefix_map_filter [of _ _ component_text]) (auto simp: prefix_def any_pattern_append)

lemma ignored_below:
  "is_ignored_event_path p (ef_db_path flt) (ef_db_dir flt) \<Longrightarrow> path_starts_with y p \<Longrightarrow> \<not> tracked flt y"
  by (auto simp: is_ignored_event_path_def tracked_def path_starts_with_def split: option.splits
      intro: prefix_order.trans)

definition same_rules :: "event_filter \<Rightarrow> event_filter \<Rightarrow> bool" where
  "same_rules f g \<longleftrightarrow> ef_db_path f = ef_db_path g \<and> ef_db_dir f = ef_db_dir g \<and> ef_excludes f = ef_excludes g"

lemma same_rules_dirty: "same_rules f g \<Longrightarrow> dirty cfg f raw = dirty cfg g raw"
  by (simp add: same_rules_def dirty_def tracked_def)

lemma filter_accepts_rules: "filter_accepts p flags f = (ok, f') \<Longrightarrow> same_rules f' f"
  by (auto simp: filter_accepts_def same_rules_def Let_def split: if_split_asm)

lemma filter_rejects:
  assumes "filter_accepts (to_string_lossy p) (re_flags raw) f = (False, f')" and "re_path raw = Some p"
  shows "dirty cfg f raw = {}" and "action_for_flags (re_flags raw) \<noteq> RescanRoots"
proof -
  let ?p = "to_string_lossy p"
  consider "is_ignored_event_path ?p (ef_db_path f) (ef_db_dir f)" | "history_marker (re_flags raw)"
    | "is_excluded (ef_excludes f) ?p"
    using assms(1) by (auto simp: filter_accepts_def history_marker_def Let_def split: if_split_asm)
  moreover show act: "action_for_flags (re_flags raw) \<noteq> RescanRoots"
    using assms(1) by (auto simp: filter_accepts_def Let_def split: if_split_asm)
  moreover have "path_starts_with y ?p" if "y \<in> dirty cfg f raw" for y
    using that act assms(2) starts_with_lossy by (auto simp: dirty_def in_roots_def)
  moreover have "tracked f y \<and> \<not> history_marker (re_flags raw)" if "y \<in> dirty cfg f raw" for y
    using that act by (auto simp: dirty_def)
  ultimately show "dirty cfg f raw = {}"
    using ignored_below [of ?p f] is_excluded_below [of "ef_excludes f" ?p] unfolding tracked_def by (metis equals0I)
qed

definition lossy_event :: "str \<Rightarrow> raw_event \<Rightarrow> fs_event" where
  "lossy_event p raw = \<lparr>ev_path = to_string_lossy p, ev_flags = re_flags raw, ev_id = re_id raw\<rparr>"

text \<open>What the callback does with any event: into the inbox, or nothing that was tracked is uncertain.\<close>

lemma callback_event_cases:
  obtains (accepted) p flt where "re_path raw = Some p" "same_rules flt (cb_filter cb)"
      "filter_accepts (to_string_lossy p) (re_flags raw) (cb_filter cb) = (True, flt)"
      "cb_inbox (callback_event cfg t raw cb) = inbox_push cfg t (lossy_event p raw) (cb_inbox cb)"
      "cb_filter (callback_event cfg t raw cb) = flt"
  | (rejected) "same_rules (cb_filter (callback_event cfg t raw cb)) (cb_filter cb)"
      "dirty cfg (cb_filter cb) raw = {}" "re_path raw = None \<or> action_for_flags (re_flags raw) \<noteq> RescanRoots"
      "cb_inbox (callback_event cfg t raw cb) = cb_inbox cb"
proof (cases "re_path raw")
  case None
  then show ?thesis by (intro rejected) (simp_all add: callback_event_def same_rules_def dirty_def)
next
  case (Some p)
  obtain ok flt where f: "filter_accepts (to_string_lossy p) (re_flags raw) (cb_filter cb) = (ok, flt)" by fastforce
  note rules = filter_accepts_rules [OF f]
  show ?thesis
  proof (cases ok)
    case True
    with f rules Some show ?thesis by (intro accepted) (simp_all add: callback_event_def lossy_event_def Let_def)
  next
    case False
    with f have f': "filter_accepts (to_string_lossy p) (re_flags raw) (cb_filter cb) = (False, flt)" by simp
    show ?thesis
      by (intro rejected) (use rules filter_rejects [OF f' Some] in \<open>simp_all add: callback_event_def Let_def Some f'\<close>)
  qed
qed

lemma dirty_region: "re_path raw = Some p \<Longrightarrow> dirty cfg flt raw \<subseteq> region cfg (lossy_event p raw)"
  using starts_with_lossy by (auto simp: dirty_def region_def lossy_event_def in_roots_def)

lemma callback_event_owes:
  assumes "roots_ok cfg" "\<not> ib_closed (cb_inbox cb)"
    and "owes (ib_pending (cb_inbox cb)) y \<or> y \<in> dirty cfg (cb_filter cb) raw"
  shows "owes (ib_pending (cb_inbox (callback_event cfg t raw cb))) y"
proof (rule callback_event_cases [of raw cb cfg t], goal_cases)
  case (1 p flt)
  have "utf8_valid (ev_path (lossy_event p raw))" by (simp add: lossy_event_def to_string_lossy_is_text)
  from push_owes [OF this assms(1,2)] assms(3) dirty_region [OF 1(1)] 1(4) show ?case by fastforce
next
  case 2
  with assms show ?case by simp
qed

subsection \<open>The worker's turn\<close>

text \<open>The part of the pending work that decides about the checkpoint; scans leave it alone.\<close>

definition watermark :: "pending_work \<Rightarrow> nat \<times> bool \<times> bool" where
  "watermark pw = (pw_max_event_id pw, pw_checkpoint_reset pw, pw_checkpoint_invalidated pw)"

definition wrapped :: "pending_work \<Rightarrow> bool" where
  "wrapped pw \<longleftrightarrow> pw_checkpoint_reset pw \<and> \<not> pw_checkpoint_invalidated pw"

lemma watermark_wrapped: "watermark pw' = watermark pw \<Longrightarrow> wrapped pw' = wrapped pw \<and> pw_max_event_id pw' = pw_max_event_id pw"
  by (simp add: watermark_def wrapped_def)

lemma watermark_simps [simp]:
  "watermark (clear_paths pw) = watermark pw"
  "watermark (retain_incomplete s pw) = watermark pw"
  "watermark (due_work cfg due pw) = watermark pw"
  "watermark (pw\<lparr>pw_retry_paths := m\<rparr>) = watermark pw"
  "watermark (pw\<lparr>pw_retry_roots := b\<rparr>) = watermark pw"
  "watermark (pw\<lparr>pw_rescan_roots := b\<rparr>) = watermark pw"
  "watermark (pw\<lparr>pw_full_recovery_obligation := b\<rparr>) = watermark pw"
  "watermark (pw\<lparr>pw_full_recovery_generation := g\<rparr>) = watermark pw"
  "watermark (pw\<lparr>pw_deferred_cleanups := cs\<rparr>) = watermark pw"
  by (simp_all add: watermark_def clear_paths_def retain_incomplete_def due_work_def Let_def)

lemma watermark_refreshed_path [simp]: "watermark (refreshed_path p s pw) = watermark pw"
  by (auto simp: refreshed_path_def Let_def split: option.splits)

lemma watermark_refresh_all: "refresh_all refresh ps pw w = (pw', w', scans) \<Longrightarrow> watermark pw' = watermark pw"
proof (induction ps arbitrary: pw w scans)
  case (Cons p ps)
  obtain s w1 where r: "refresh p w = (s, w1)" by fastforce
  obtain scans' where "refresh_all refresh ps (refreshed_path p s pw) w1 = (pw', w', scans')"
    using Cons.prems r by (auto split: prod.splits)
  then show ?case using Cons.IH by fastforce
qed simp

lemma watermark_refresh_paths: "refresh_paths refresh pw w = (pw', w', scans) \<Longrightarrow> watermark pw' = watermark pw"
  unfolding refresh_paths_def by (drule watermark_refresh_all) simp

lemma watermark_process_pending:
  assumes p: "process_pending cfg due refresh rescan pw w = (pw', w', scans)"
  shows "watermark pw' = watermark pw"
proof (cases "pw_rescan_roots (due_work cfg due pw)")
  case False
  with p watermark_refresh_paths [of refresh "due_work cfg due pw"] show ?thesis by (simp add: process_pending_def Let_def)
next
  case True
  obtain outcome w1 where r: "rescan w = (outcome, w1)" by fastforce
  show ?thesis
  proof (cases outcome)
    case None
    let ?d = "due_work cfg due pw\<lparr>pw_rescan_roots := False, pw_retry_roots := True\<rparr>"
    obtain pw3 w3 scans' where q: "refresh_paths refresh ?d w1 = (pw3, w3, scans')" by (metis prod_cases3)
    with p True r None have "pw' = pw3" by (simp add: process_pending_def Let_def)
    with watermark_refresh_paths [OF q] show ?thesis by simp
  next
    case (Some s)
    with p True r show ?thesis by (auto simp: process_pending_def Let_def split: if_split_asm)
  qed
qed

lemma watermark_enforce: "enforce_worker_plan_bound cfg pw = (ok, pw') \<Longrightarrow> watermark pw' = watermark pw"
  by (cases rule: enforce_cases, assumption) (auto simp: watermark_def compressed_def)

text \<open>
  The state: the callback with its inbox, the worker's pending work, the world, and beside them
  what was handed over since the last batch was taken, what happened before (both with the newest
  first), the last event id that counts, and whether the system and the other processes have
  kept to what the checkpoint relies on so far.
\<close>

datatype happening = Delivered raw_event | Scanned scan

record 'w watch_state =
  wt_callback :: callback_state
  wt_worker :: pending_work
  wt_world :: 'w
  wt_new :: "raw_event list"
  wt_past :: "happening list"
  wt_last :: nat
  wt_orderly :: bool

text \<open>The pairs of an event and a path it made dirty that no later scan has read.\<close>

fun unscanned :: "watch_config \<Rightarrow> event_filter \<Rightarrow> happening list \<Rightarrow> (raw_event \<times> str) set" where
  "unscanned cfg flt [] = {}"
| "unscanned cfg flt (Delivered raw # h) = {raw} \<times> dirty cfg flt raw \<union> unscanned cfg flt h"
| "unscanned cfg flt (Scanned sc # h) = {(raw, y) \<in> unscanned cfg flt h. \<not> scanned cfg y sc}"

definition wt_history :: "'w watch_state \<Rightarrow> happening list" where
  "wt_history st = map Delivered (wt_new st) @ wt_past st"

text \<open>A start without a checkpoint makes everything dirty.\<close>

definition everything_dirty :: "nat \<Rightarrow> raw_event" where
  "everything_dirty i = \<lparr>re_path = Some [], re_flags = flag_root_changed, re_id = i\<rparr>"

definition start_history :: "nat \<Rightarrow> scan list \<Rightarrow> happening list" where
  "start_history i scans = (if scans = [] then [] else rev (map Scanned scans) @ [Delivered (everything_dirty i)])"

text \<open>
  What the checkpoint relies on: event ids rise, and begin again only with the flag that says so.
  Some events stand outside this order: a change of a root is announced with the id 0
  (\<open>FSEvents.h\<close>), the callback uses 0 when it is given no ids, and the id of the marker that ends
  the history means nothing.
\<close>

definition unnumbered :: "raw_event \<Rightarrow> bool" where
  "unnumbered raw \<longleftrightarrow> re_path raw = None \<or>
     \<not> has_flag (re_flags raw) flag_ids_wrapped \<and>
     (re_id raw = 0 \<or> history_marker (re_flags raw) \<and> action_for_flags (re_flags raw) \<noteq> RescanRoots)"

definition in_order :: "nat \<Rightarrow> raw_event \<Rightarrow> bool" where
  "in_order latest raw \<longleftrightarrow> unnumbered raw \<or> has_flag (re_flags raw) flag_ids_wrapped \<or> latest < re_id raw"

definition start_in_order :: "nat option \<Rightarrow> nat \<Rightarrow> bool" where
  "start_in_order stored current \<longleftrightarrow> (case stored of None \<Rightarrow> True | Some c \<Rightarrow> c = since_now \<or> c \<le> current)"

definition deliver :: "watch_config \<Rightarrow> nat \<Rightarrow> raw_event \<Rightarrow> 'w watch_state \<Rightarrow> 'w watch_state" where
  "deliver cfg t raw st =
     st\<lparr>wt_callback := callback_event cfg t raw (wt_callback st), wt_new := raw # wt_new st,
        wt_last := (if unnumbered raw then wt_last st else re_id raw),
        wt_orderly := (wt_orderly st \<and> in_order (wt_last st) raw)\<rparr>"

text \<open>
  Steps. The system delivers an event, whatever its path, its flags and its 64-bit id, as long as the
  inbox is open; the inbox may be closed; the worker takes the batch and makes its turn; and the
  world changes by itself. A turn works on the worker and the world only, so that events that
  arrive while it lasts are those that arrive after it. No step and no start is excluded for its
  ids: \<open>wt_orderly\<close> notes whether they were in order and nobody else wrote the checkpoint.
\<close>

inductive watch_step ::
  "watch_config \<Rightarrow> 'w watch_ops \<Rightarrow> ('w \<Rightarrow> bool) \<Rightarrow> ('w \<Rightarrow> nat option) \<Rightarrow> 'w watch_state \<Rightarrow> 'w watch_state \<Rightarrow> bool"
  for cfg ops fine stored where
  step_event: "\<not> ib_closed (cb_inbox (wt_callback st)) \<Longrightarrow> re_id raw < 2 ^ 64 \<Longrightarrow>
     watch_step cfg ops fine stored st (deliver cfg t raw st)"
| step_close: "watch_step cfg ops fine stored st
     (st\<lparr>wt_callback := (wt_callback st)\<lparr>cb_inbox := inbox_close (cb_inbox (wt_callback st))\<rparr>\<rparr>)"
| step_turn: "take_locked (cb_inbox (wt_callback st)) = (taken, ib) \<Longrightarrow>
     worker_turn cfg ops due (ib_pending taken) (wt_worker st) (wt_world st) = (complete, pw, w, scans) \<Longrightarrow>
     watch_step cfg ops fine stored st
       (st\<lparr>wt_callback := (wt_callback st)\<lparr>cb_inbox := ib\<rparr>, wt_worker := pw, wt_world := w, wt_new := [],
           wt_past := rev (map Scanned scans) @ map Delivered (wt_new st) @ wt_past st\<rparr>)"
| step_world: "fine w \<Longrightarrow> watch_step cfg ops fine stored st
     (st\<lparr>wt_world := w, wt_orderly := (wt_orderly st \<and> stored w = stored (wt_world st))\<rparr>)"

inductive watch_reachable ::
  "watch_config \<Rightarrow> event_filter \<Rightarrow> 'w watch_ops \<Rightarrow> ('w \<Rightarrow> bool) \<Rightarrow> ('w \<Rightarrow> nat option) \<Rightarrow> 'w watch_state \<Rightarrow> bool"
  for cfg flt ops fine stored where
  reach_start: "fine w \<Longrightarrow> current < 2 ^ 64 \<Longrightarrow>
     watch_start ops (stored w) current w = (Some (initial, since, scans), w') \<Longrightarrow>
     watch_reachable cfg flt ops fine stored
       \<lparr>wt_callback = callback_new flt, wt_worker = initial, wt_world = w', wt_new = [],
        wt_past = start_history current scans, wt_last = since, wt_orderly = start_in_order (stored w) current\<rparr>"
| reach_step: "watch_reachable cfg flt ops fine stored st \<Longrightarrow> watch_step cfg ops fine stored st st' \<Longrightarrow>
     watch_reachable cfg flt ops fine stored st'"

text \<open>Whether a start with this checkpoint lets the system deliver the event again, or scans everything.\<close>

definition replayed :: "nat option \<Rightarrow> nat \<Rightarrow> raw_event \<Rightarrow> bool" where
  "replayed stored current raw =
     (case resolve_since_when stored current of FullRescan \<Rightarrow> True | UseCheckpoint c \<Rightarrow> c < re_id raw)"

definition will_replay :: "nat option \<Rightarrow> raw_event \<Rightarrow> bool" where
  "will_replay stored raw \<longleftrightarrow> (case stored of None \<Rightarrow> True | Some c \<Rightarrow> c = 0 \<or> c = since_now \<or> c < re_id raw)"

lemma will_replay_replayed: "will_replay stored raw \<Longrightarrow> replayed stored current raw"
  by (auto simp: will_replay_def replayed_def resolve_since_when_def split: option.splits)

lemma will_replay_zero [simp]: "will_replay (Some 0) raw"
  by (simp add: will_replay_def)

lemma unscanned_scans:
  "(raw, y) \<in> unscanned cfg flt (rev (map Scanned scans) @ h) \<longleftrightarrow>
     (raw, y) \<in> unscanned cfg flt h \<and> (\<forall>sc \<in> set scans. \<not> scanned cfg y sc)"
  by (induction scans rule: rev_induct) auto

lemma unscanned_delivered:
  "(raw, y) \<in> unscanned cfg flt (map Delivered new @ h) \<longleftrightarrow>
     raw \<in> set new \<and> y \<in> dirty cfg flt raw \<or> (raw, y) \<in> unscanned cfg flt h"
  by (induction new) auto

lemma dirty_in_roots: "y \<in> dirty cfg flt raw \<Longrightarrow> in_roots cfg y"
  by (simp add: dirty_def)

lemma unscanned_in_roots: "(raw, y) \<in> unscanned cfg flt h \<Longrightarrow> in_roots cfg y"
  by (induction cfg flt h rule: unscanned.induct) (auto dest: dirty_in_roots)

subsection \<open>The invariant\<close>

text \<open>What holds of every event, and what holds of the checkpoint as long as the ids are in order.\<close>

definition owed_inv :: "watch_config \<Rightarrow> event_filter \<Rightarrow> ('w \<Rightarrow> bool) \<Rightarrow> 'w watch_state \<Rightarrow> bool" where
  "owed_inv cfg flt fine st \<longleftrightarrow>
     (let ib = ib_pending (cb_inbox (wt_callback st)); pw = wt_worker st
      in same_rules (cb_filter (wt_callback st)) flt \<and> fine (wt_world st) \<and> fresh_work ib \<and>
         (\<forall>raw \<in> set (wt_new st). \<forall>y \<in> dirty cfg flt raw. owes ib y) \<and>
         (\<forall>raw y. (raw, y) \<in> unscanned cfg flt (wt_past st) \<longrightarrow> owes pw y) \<and>
         pw_max_event_id ib < 2 ^ 64 \<and> pw_max_event_id pw < 2 ^ 64)"

lemma owed_invI:
  fixes cfg :: watch_config and st :: "'w watch_state"
  assumes "ib_pending (cb_inbox (wt_callback st)) = ib" "wt_worker st = pw"
    and "same_rules (cb_filter (wt_callback st)) flt" "fine (wt_world st)" "fresh_work ib"
    and "\<And>raw y. raw \<in> set (wt_new st) \<Longrightarrow> y \<in> dirty cfg flt raw \<Longrightarrow> owes ib y"
    and "\<And>raw y. (raw, y) \<in> unscanned cfg flt (wt_past st) \<Longrightarrow> owes pw y"
    and "pw_max_event_id ib < 2 ^ 64" "pw_max_event_id pw < 2 ^ 64"
  shows "owed_inv cfg flt fine st"
  unfolding owed_inv_def Let_def assms(1,2) using assms by simp

lemma owed_invD:
  assumes "owed_inv cfg flt fine st"
  shows "same_rules (cb_filter (wt_callback st)) flt" "fine (wt_world st)" "fresh_work (ib_pending (cb_inbox (wt_callback st)))"
    and "raw \<in> set (wt_new st) \<Longrightarrow> y \<in> dirty cfg flt raw \<Longrightarrow> owes (ib_pending (cb_inbox (wt_callback st))) y"
    and "(raw, y) \<in> unscanned cfg flt (wt_past st) \<Longrightarrow> owes (wt_worker st) y"
    and "pw_max_event_id (ib_pending (cb_inbox (wt_callback st))) < 2 ^ 64" "pw_max_event_id (wt_worker st) < 2 ^ 64"
  using assms unfolding owed_inv_def Let_def by blast+

definition replay_inv :: "watch_config \<Rightarrow> event_filter \<Rightarrow> ('w \<Rightarrow> nat option) \<Rightarrow> 'w watch_state \<Rightarrow> bool" where
  "replay_inv cfg flt stored st \<longleftrightarrow>
     (let ib = ib_pending (cb_inbox (wt_callback st)); pw = wt_worker st; cp = stored (wt_world st)
      in (\<forall>raw y. (raw, y) \<in> unscanned cfg flt (wt_past st) \<longrightarrow> \<not> unnumbered raw \<longrightarrow> will_replay cp raw \<or> wrapped pw) \<and>
         (\<forall>raw \<in> set (wt_new st). \<not> unnumbered raw \<longrightarrow> will_replay cp raw \<or> wrapped pw \<or> pw_checkpoint_reset ib) \<and>
         pw_max_event_id ib \<le> wt_last st \<and> (pw_max_event_id pw \<le> wt_last st \<or> pw_checkpoint_reset ib) \<and>
         (case cp of None \<Rightarrow> True | Some c \<Rightarrow> c = 0 \<or> c = since_now \<or> c \<le> wt_last st \<or> wrapped pw \<or> pw_checkpoint_reset ib))"

lemma replay_invI:
  fixes cfg :: watch_config and st :: "'w watch_state"
  assumes "ib_pending (cb_inbox (wt_callback st)) = ib" "wt_worker st = pw" "stored (wt_world st) = cp"
    and "\<And>raw y. (raw, y) \<in> unscanned cfg flt (wt_past st) \<Longrightarrow> \<not> unnumbered raw \<Longrightarrow> will_replay cp raw \<or> wrapped pw"
    and "\<And>raw. raw \<in> set (wt_new st) \<Longrightarrow> \<not> unnumbered raw \<Longrightarrow> will_replay cp raw \<or> wrapped pw \<or> pw_checkpoint_reset ib"
    and "pw_max_event_id ib \<le> wt_last st" "pw_max_event_id pw \<le> wt_last st \<or> pw_checkpoint_reset ib"
    and "\<And>c. cp = Some c \<Longrightarrow> c = 0 \<or> c = since_now \<or> c \<le> wt_last st \<or> wrapped pw \<or> pw_checkpoint_reset ib"
  shows "replay_inv cfg flt stored st"
  unfolding replay_inv_def Let_def assms(1-3) using assms by (cases cp) auto

lemma replay_invD:
  assumes "replay_inv cfg flt stored st"
  shows "(raw, y) \<in> unscanned cfg flt (wt_past st) \<Longrightarrow> \<not> unnumbered raw \<Longrightarrow>
      will_replay (stored (wt_world st)) raw \<or> wrapped (wt_worker st)"
    and "raw \<in> set (wt_new st) \<Longrightarrow> \<not> unnumbered raw \<Longrightarrow> will_replay (stored (wt_world st)) raw \<or> wrapped (wt_worker st) \<or>
      pw_checkpoint_reset (ib_pending (cb_inbox (wt_callback st)))"
    and "pw_max_event_id (ib_pending (cb_inbox (wt_callback st))) \<le> wt_last st"
    and "pw_max_event_id (wt_worker st) \<le> wt_last st \<or> pw_checkpoint_reset (ib_pending (cb_inbox (wt_callback st)))"
    and "stored (wt_world st) = Some c \<Longrightarrow> c = 0 \<or> c = since_now \<or> c \<le> wt_last st \<or> wrapped (wt_worker st) \<or>
      pw_checkpoint_reset (ib_pending (cb_inbox (wt_callback st)))"
  using assms unfolding replay_inv_def Let_def by (fastforce split: option.splits)+

definition watch_inv ::
  "watch_config \<Rightarrow> event_filter \<Rightarrow> ('w \<Rightarrow> bool) \<Rightarrow> ('w \<Rightarrow> nat option) \<Rightarrow> 'w watch_state \<Rightarrow> bool" where
  "watch_inv cfg flt fine stored st \<longleftrightarrow> owed_inv cfg flt fine st \<and> (wt_orderly st \<longrightarrow> replay_inv cfg flt stored st)"

lemma fresh_work_default [simp]: "fresh_work pending_default"
  by (simp add: fresh_work_def pending_default_def)

lemma watermark_default [simp]: "watermark pending_default = (0, False, False)"
  by (simp add: watermark_def pending_default_def)

lemma insert_path_kept:
  "watermark (insert_path cfg p fl pw) = watermark pw \<and> fresh_work (insert_path cfg p fl pw) = fresh_work pw"
  by (simp add: insert_path_def watermark_def fresh_work_def split: option.splits)

lemma insert_paths_kept:
  "watermark (fold (\<lambda>p. insert_path cfg p fl) ps pw) = watermark pw \<and>
   fresh_work (fold (\<lambda>p. insert_path cfg p fl) ps pw) = fresh_work pw"
  by (induction ps arbitrary: pw) (simp_all add: insert_path_kept)

lemma insert_entries_kept: "watermark (fold (\<lambda>(p, fl). insert_path cfg p fl) m pw) = watermark pw"
proof (induction m arbitrary: pw)
  case (Cons e m)
  then show ?case by (cases e) (simp add: insert_path_kept)
qed simp

lemma fresh_work_record_event [simp]: "fresh_work (record_event cfg e pw) = fresh_work pw"
  by (simp add: fresh_work_def)

lemma fresh_work_clear_paths [simp]: "fresh_work (clear_paths pw) = fresh_work pw"
  by (simp add: fresh_work_def clear_paths_def)

lemma fresh_work_flags [simp]:
  "fresh_work (pw\<lparr>pw_rescan_roots := b\<rparr>) = fresh_work pw"
  "fresh_work (pw\<lparr>pw_scope_fallback := b\<rparr>) = fresh_work pw"
  "fresh_work (pw\<lparr>pw_recovery_event := s\<rparr>) = fresh_work pw"
  "fresh_work (pw\<lparr>pw_inbox_overflow := b\<rparr>) = fresh_work pw"
  by (simp_all add: fresh_work_def)

lemma watermark_flags [simp]:
  "watermark (pw\<lparr>pw_scope_fallback := b\<rparr>) = watermark pw"
  "watermark (pw\<lparr>pw_recovery_event := s\<rparr>) = watermark pw"
  "watermark (pw\<lparr>pw_inbox_overflow := b\<rparr>) = watermark pw"
  by (simp_all add: watermark_def)

lemma add_scoped_kept:
  "watermark (add_scoped cfg e pw) = watermark (record_event cfg e pw) \<and>
   fresh_work (add_scoped cfg e pw) = fresh_work pw"
  by (simp add: add_scoped_def add_event_def Let_def insert_path_kept insert_paths_kept split: option.splits)

lemma push_kept:
  "\<not> ib_closed ib \<Longrightarrow>
   watermark (ib_pending (inbox_push cfg t e ib)) = watermark (record_event cfg e (ib_pending ib)) \<and>
   fresh_work (ib_pending (inbox_push cfg t e ib)) = fresh_work (ib_pending ib)"
  by (simp add: inbox_push_def Let_def add_scoped_kept)

lemma record_event_watermark:
  "watermark (record_event cfg e pw) =
     (if has_flag (ev_flags e) flag_ids_wrapped then (ev_id e, True, False)
      else (max (pw_max_event_id pw) (ev_id e), pw_checkpoint_reset pw, pw_checkpoint_invalidated pw))"
  by (simp add: watermark_def record_event_def Let_def)

lemma merge_watermark:
  "watermark (snd (merge_batch cfg new pw)) =
     (if pw_checkpoint_reset new then (pw_max_event_id new, True, False)
      else (max (pw_max_event_id pw) (pw_max_event_id new), pw_checkpoint_reset pw, pw_checkpoint_invalidated pw))"
proof -
  obtain ok pw' where e: "enforce_worker_plan_bound cfg (merge_incoming cfg new pw) = (ok, pw')" by fastforce
  have "watermark (merge_incoming cfg new pw) =
     (if pw_checkpoint_reset new then (pw_max_event_id new, True, False)
      else (max (pw_max_event_id pw) (pw_max_event_id new), pw_checkpoint_reset pw, pw_checkpoint_invalidated pw))"
    unfolding merge_incoming_def Let_def by (simp add: insert_entries_kept) (simp add: watermark_def)
  with watermark_enforce [OF e] e show ?thesis by (simp add: merge_batch_def)
qed

lemma merge_wrapped:
  "wrapped (snd (merge_batch cfg new pw)) \<longleftrightarrow> pw_checkpoint_reset new \<or> wrapped pw"
  "pw_max_event_id (snd (merge_batch cfg new pw)) =
     (if pw_checkpoint_reset new then pw_max_event_id new else max (pw_max_event_id pw) (pw_max_event_id new))"
  using merge_watermark [of cfg new pw] by (auto simp: watermark_def wrapped_def split: if_split_asm)

lemma wrapped_rescans: "has_flag flags flag_ids_wrapped \<Longrightarrow> action_for_flags flags = RescanRoots"
  unfolding action_for_flags_def has_flag_def
  by (metis bit.conj_disj_distrib or_eq_0_iff)

lemma watermark_max: "watermark pw = (m, r, v) \<Longrightarrow> pw_max_event_id pw = m \<and> pw_checkpoint_reset pw = r"
  by (simp add: watermark_def)

text \<open>What the callback does to the watermark of the inbox.\<close>

lemma callback_event_watermark:
  fixes cb :: callback_state and raw :: raw_event and cfg :: watch_config and t :: nat
  assumes open_box: "\<not> ib_closed (cb_inbox cb)"
  defines "ib \<equiv> ib_pending (cb_inbox cb)" and "ib' \<equiv> ib_pending (cb_inbox (callback_event cfg t raw cb))"
  shows "same_rules (cb_filter (callback_event cfg t raw cb)) (cb_filter cb) \<and> fresh_work ib' = fresh_work ib"
    and "pw_max_event_id ib' \<le> max (pw_max_event_id ib) (re_id raw)"
    and "unnumbered raw \<Longrightarrow> pw_max_event_id ib' = pw_max_event_id ib \<and> pw_checkpoint_reset ib' = pw_checkpoint_reset ib"
    and "\<not> unnumbered raw \<Longrightarrow> has_flag (re_flags raw) flag_ids_wrapped \<Longrightarrow>
      pw_max_event_id ib' = re_id raw \<and> pw_checkpoint_reset ib'"
    and "pw_checkpoint_reset ib \<Longrightarrow> pw_checkpoint_reset ib'"
proof -
  let ?wrap = "has_flag (re_flags raw) flag_ids_wrapped"
  have "same_rules (cb_filter (callback_event cfg t raw cb)) (cb_filter cb) \<and> fresh_work ib' = fresh_work ib \<and>
      ((re_path raw = None \<or> action_for_flags (re_flags raw) \<noteq> RescanRoots) \<and> ib' = ib \<or>
       re_path raw \<noteq> None \<and> \<not> (history_marker (re_flags raw) \<and> action_for_flags (re_flags raw) \<noteq> RescanRoots) \<and>
       pw_max_event_id ib' = (if ?wrap then re_id raw else max (pw_max_event_id ib) (re_id raw)) \<and>
       pw_checkpoint_reset ib' = (?wrap \<or> pw_checkpoint_reset ib))"
  proof (rule callback_event_cases [of raw cb cfg t], goal_cases)
    case (1 p f)
    have live: "\<not> (history_marker (re_flags raw) \<and> action_for_flags (re_flags raw) \<noteq> RescanRoots)"
      using 1(3) by (auto simp: filter_accepts_def history_marker_def Let_def split: if_split_asm)
    note w = push_kept [OF open_box, of cfg t "lossy_event p raw"]
    have fw: "fresh_work ib' = fresh_work ib" and wm: "watermark ib' = (if ?wrap then (re_id raw, True, False)
        else (max (pw_max_event_id ib) (re_id raw), pw_checkpoint_reset ib, pw_checkpoint_invalidated ib))"
      using w 1(4) by (simp_all add: record_event_watermark ib_def ib'_def lossy_event_def)
    have "pw_max_event_id ib' = (if ?wrap then re_id raw else max (pw_max_event_id ib) (re_id raw)) \<and>
        pw_checkpoint_reset ib' = (?wrap \<or> pw_checkpoint_reset ib)"
      using wm by (cases ?wrap) (simp_all add: watermark_def)
    with fw live 1(1,2,5) show ?case by simp
  next
    case 2
    then show ?case by (simp add: ib_def ib'_def)
  qed
  note box = this
  show "same_rules (cb_filter (callback_event cfg t raw cb)) (cb_filter cb) \<and> fresh_work ib' = fresh_work ib"
    using box by blast
  show "pw_max_event_id ib' \<le> max (pw_max_event_id ib) (re_id raw)" "pw_checkpoint_reset ib \<Longrightarrow> pw_checkpoint_reset ib'"
    using box by (auto split: if_split_asm)
  show "pw_max_event_id ib' = pw_max_event_id ib \<and> pw_checkpoint_reset ib' = pw_checkpoint_reset ib" if "unnumbered raw"
    using box that unfolding unnumbered_def by (auto split: if_split_asm)
  show "pw_max_event_id ib' = re_id raw \<and> pw_checkpoint_reset ib'" if "\<not> unnumbered raw" ?wrap
    using box that wrapped_rescans unfolding unnumbered_def by auto
qed

lemma inv_event:
  assumes inv: "watch_inv cfg flt fine stored st" and open_box: "\<not> ib_closed (cb_inbox (wt_callback st))"
    and raw: "re_id raw < 2 ^ 64" and roots: "roots_ok cfg"
  shows "watch_inv cfg flt fine stored (deliver cfg t raw st)"
proof -
  let ?cb = "wt_callback st"
  let ?ib = "ib_pending (cb_inbox ?cb)" and ?ib' = "ib_pending (cb_inbox (callback_event cfg t raw ?cb))"
  note B = callback_event_watermark [OF open_box, where cfg = cfg and t = t and raw = raw]
  from inv have O: "owed_inv cfg flt fine st" by (simp add: watch_inv_def)
  note D = owed_invD [OF O]
  have keep: "owes ?ib y \<Longrightarrow> owes ?ib' y" and here: "y \<in> dirty cfg flt raw \<Longrightarrow> owes ?ib' y" for y
    using callback_event_owes [OF roots open_box] same_rules_dirty [OF D(1)] by auto
  have "owed_inv cfg flt fine (deliver cfg t raw st)"
  proof (rule owed_invI [OF refl refl], goal_cases)
    case 1
    show ?case using B(1) D(1) by (simp add: deliver_def same_rules_def)
  next
    case (4 r y)
    then show ?case using D(4) [of r y] keep here by (auto simp: deliver_def)
  next
    case 6
    show ?case using B(2) D(6) raw by (simp add: deliver_def)
  qed (use D B(1) in \<open>auto simp: deliver_def\<close>)
  moreover have "replay_inv cfg flt stored (deliver cfg t raw st)"
    if ord: "wt_orderly st" "in_order (wt_last st) raw"
  proof -
    from inv ord(1) have "replay_inv cfg flt stored st" by (simp add: watch_inv_def)
    note R = replay_invD [OF this]
    have last: "unnumbered raw \<or> has_flag (re_flags raw) flag_ids_wrapped \<or> wt_last st \<le> re_id raw"
      using ord(2) by (auto simp: in_order_def)
    have here: "will_replay (stored (wt_world st)) raw \<or> wrapped (wt_worker st) \<or> pw_checkpoint_reset ?ib'"
      if "\<not> unnumbered raw"
    proof (cases "has_flag (re_flags raw) flag_ids_wrapped")
      case True
      with B(4) that show ?thesis by blast
    next
      case False
      with that ord(2) have "wt_last st < re_id raw" by (simp add: in_order_def)
      then show ?thesis using R(5) B(5) by (auto simp: will_replay_def split: option.splits)
    qed
    show ?thesis
    proof (rule replay_invI [OF refl refl refl], goal_cases)
      case (1 r y)
      then show ?case using R(1) [of r y] by (simp add: deliver_def)
    next
      case (2 r)
      then show ?case using R(2) [of r] here B(5) by (auto simp: deliver_def)
    next
      case 3
      show ?case using R(3) B(2-4) last by (cases "unnumbered raw") (auto simp: deliver_def)
    next
      case 4
      show ?case using R(4) B(3-5) last by (cases "unnumbered raw") (auto simp: deliver_def)
    next
      case (5 c)
      then show ?case using R(5) [of c] B(3-5) last by (cases "unnumbered raw") (auto simp: deliver_def)
    qed
  qed
  ultimately show ?thesis by (auto simp: watch_inv_def deliver_def)
qed

lemma has_work_persisted [simp]:
  "has_work (clear_diagnostics pw) = has_work pw"
  "has_work (pw\<lparr>pw_deferred_cleanups := cs\<rparr>) = has_work pw"
  "has_work (pw\<lparr>pw_max_event_id := n\<rparr>) = has_work pw"
  "has_work (pw\<lparr>pw_checkpoint_reset := b\<rparr>) = has_work pw"
  "has_work (pw\<lparr>pw_checkpoint_invalidated := b\<rparr>) = has_work pw"
  by (simp_all add: has_work_def has_retries_def clear_diagnostics_def)

text \<open>What the worker needs of the world: the stored checkpoint is written by the checkpoint operation only.\<close>

locale watch_world =
  fixes ops :: "'w watch_ops" and world_fine :: "'w \<Rightarrow> bool" and stored :: "'w \<Rightarrow> nat option"
  assumes checkpoint_written: "world_fine w \<Longrightarrow> n < 2 ^ 64 \<Longrightarrow> wo_set_checkpoint ops n w = (True, w') \<Longrightarrow> stored w' = Some n"
    and checkpoint_failed: "world_fine w \<Longrightarrow> wo_set_checkpoint ops n w = (False, w') \<Longrightarrow> stored w' = stored w"
    and checkpoint_fine: "world_fine w \<Longrightarrow> wo_set_checkpoint ops n w = (ok, w') \<Longrightarrow> world_fine w'"
    and refresh_stored: "world_fine w \<Longrightarrow> wo_refresh ops l p w = (s, w') \<Longrightarrow> stored w' = stored w \<and> world_fine w'"
    and rescan_stored: "world_fine w \<Longrightarrow> wo_rescan ops l w = (s, w') \<Longrightarrow> stored w' = stored w \<and> world_fine w'"
    and cleanup_stored: "world_fine w \<Longrightarrow> wo_cleanup ops cs w = (ok, w') \<Longrightarrow> stored w' = stored w \<and> world_fine w'"
begin

lemma refresh_all_stored:
  "refresh_all (wo_refresh ops l) ps pw w = (pw', w', scans) \<Longrightarrow> world_fine w \<Longrightarrow> stored w' = stored w \<and> world_fine w'"
proof (induction ps arbitrary: pw w scans)
  case (Cons p ps)
  obtain s w1 where r: "wo_refresh ops l p w = (s, w1)" by fastforce
  obtain scans' where "refresh_all (wo_refresh ops l) ps (refreshed_path p s pw) w1 = (pw', w', scans')"
    using Cons.prems(1) r by (auto split: prod.splits)
  then show ?case using Cons.IH refresh_stored [OF Cons.prems(2) r] by metis
qed simp

lemma process_pending_stored:
  assumes p: "process_pending cfg due (wo_refresh ops l) (wo_rescan ops l) pw w = (pw', w', scans)" and w: "world_fine w"
  shows "stored w' = stored w \<and> world_fine w'"
proof (cases "pw_rescan_roots (due_work cfg due pw)")
  case False
  with p w refresh_all_stored show ?thesis by (auto simp: process_pending_def refresh_paths_def Let_def)
next
  case True
  obtain outcome w1 where r: "wo_rescan ops l w = (outcome, w1)" by fastforce
  show ?thesis
  proof (cases outcome)
    case None
    let ?d = "due_work cfg due pw\<lparr>pw_rescan_roots := False, pw_retry_roots := True\<rparr>"
    obtain pw3 w3 scans' where q: "refresh_paths (wo_refresh ops l) ?d w1 = (pw3, w3, scans')" by (metis prod_cases3)
    with p True r None have "w' = w3" by (simp add: process_pending_def Let_def)
    with q refresh_all_stored rescan_stored [OF w r] show ?thesis by (metis refresh_paths_def)
  next
    case (Some s)
    with p True r have "w' = w1" by (auto simp: process_pending_def Let_def split: if_split_asm)
    with rescan_stored [OF w r] show ?thesis by simp
  qed
qed

lemma invalidate_cases:
  assumes "invalidate_wrapped_checkpoint ops pw w = (ok, pw', w')" and "world_fine w"
  obtains "ok" "\<not> wrapped pw" "pw' = pw" "w' = w"
  | "\<not> ok" "wrapped pw" "pw' = pw" "stored w' = stored w" "world_fine w'"
  | "ok" "wrapped pw" "pw' = pw\<lparr>pw_checkpoint_invalidated := True\<rparr>" "stored w' = Some 0" "world_fine w'"
proof (cases "wrapped pw")
  case False
  with assms(1) show ?thesis by (intro that(1)) (auto simp: invalidate_wrapped_checkpoint_def wrapped_def)
next
  case True
  obtain b w1 where c: "wo_set_checkpoint ops 0 w = (b, w1)" by fastforce
  with assms(1) True have res: "ok = b" "w' = w1" "pw' = (if b then pw\<lparr>pw_checkpoint_invalidated := True\<rparr> else pw)"
    by (auto simp: invalidate_wrapped_checkpoint_def wrapped_def split: if_split_asm bool.splits)
  show ?thesis
  proof (cases b)
    case True
    with c checkpoint_written [OF assms(2), of 0] have "stored w1 = Some 0" by simp
    with True res \<open>wrapped pw\<close> checkpoint_fine [OF assms(2) c] show ?thesis by (intro that(3)) auto
  next
    case False
    with c checkpoint_failed [OF assms(2)] have "stored w1 = stored w" by simp
    with False res \<open>wrapped pw\<close> checkpoint_fine [OF assms(2) c] show ?thesis by (intro that(2)) auto
  qed
qed

text \<open>Outcomes of \<open>persist_checkpoint\<close> after an invalidation.\<close>

lemma persist_cases:
  assumes p: "persist_checkpoint ops pw w = (complete, pw', w')" and w: "world_fine w" and i: "\<not> wrapped pw"
    and m: "pw_max_event_id pw < 2 ^ 64"
  obtains "\<not> complete" "pw' = pw \<or> pw' = pw\<lparr>pw_deferred_cleanups := []\<rparr>" "stored w' = stored w" "world_fine w'"
  | "complete" "\<not> has_work pw"
     "pw' = clear_diagnostics (pw\<lparr>pw_deferred_cleanups := [], pw_max_event_id := 0, pw_checkpoint_reset := False,
        pw_checkpoint_invalidated := False\<rparr>)"
     "world_fine w'" "stored w' = Some (pw_max_event_id pw)"
  | "complete" "\<not> has_work pw" "pw' = clear_diagnostics (pw\<lparr>pw_deferred_cleanups := []\<rparr>)"
     "pw_max_event_id pw = 0" "\<not> pw_checkpoint_reset pw" "world_fine w'" "stored w' = stored w"
proof -
  have inv: "invalidate_wrapped_checkpoint ops pw w = (True, pw, w)"
    using i by (auto simp: invalidate_wrapped_checkpoint_def wrapped_def)
  obtain b w2 where c: "(if pw_deferred_cleanups pw = [] then (True, w) else wo_cleanup ops (pw_deferred_cleanups pw) w) = (b, w2)"
    by fastforce
  have w2: "stored w2 = stored w" "world_fine w2"
    using c w cleanup_stored [OF w] by (auto split: if_split_asm)
  note eq = p [unfolded persist_checkpoint_def inv prod.case bool.case c Let_def]
  let ?pw = "pw\<lparr>pw_deferred_cleanups := []\<rparr>"
  consider "has_work pw" | "\<not> has_work pw" "\<not> b" | "\<not> has_work pw" "b" "0 < pw_max_event_id pw \<or> pw_checkpoint_reset pw"
    | "\<not> has_work pw" "b" "\<not> (0 < pw_max_event_id pw \<or> pw_checkpoint_reset pw)" by blast
  then show ?thesis
  proof cases
    case 1
    with eq w show ?thesis by (intro that(1)) simp_all
  next
    case 2
    with eq w2 show ?thesis by (intro that(1)) simp_all
  next
    case 3
    obtain b2 w3 where k: "wo_set_checkpoint ops (pw_max_event_id pw) w2 = (b2, w3)" by fastforce
    note fine = checkpoint_fine [OF w2(2) k]
    show ?thesis
    proof (cases b2)
      case True
      with k checkpoint_written [OF w2(2) m] have "stored w3 = Some (pw_max_event_id pw)" by simp
      with eq 3 k True fine show ?thesis by (intro that(2)) simp_all
    next
      case False
      with k checkpoint_failed [OF w2(2)] w2 have "stored w3 = stored w" by simp
      with eq 3 k False fine show ?thesis by (intro that(1)) simp_all
    qed
  next
    case 4
    with eq w2 show ?thesis by (intro that(3)) simp_all
  qed
qed

text \<open>What a turn does before it persists: the debts, the watermark and the stored checkpoint.\<close>

definition turn_middle :: "watch_config \<Rightarrow> pending_work \<Rightarrow> pending_work \<Rightarrow> 'w \<Rightarrow> scan list \<Rightarrow> pending_work \<Rightarrow> 'w \<Rightarrow> bool" where
  "turn_middle cfg new pw w scans pw4 w4 \<longleftrightarrow>
     (\<forall>y. in_roots cfg y \<longrightarrow> owes new y \<or> owes pw y \<longrightarrow> (\<forall>sc \<in> set scans. \<not> scanned cfg y sc) \<longrightarrow> owes pw4 y) \<and>
     pw_max_event_id pw4 = pw_max_event_id (snd (merge_batch cfg new pw)) \<and> world_fine w4 \<and>
     (wrapped (snd (merge_batch cfg new pw)) \<and> wrapped pw4 \<and> stored w4 = stored w \<or>
      wrapped (snd (merge_batch cfg new pw)) \<and> \<not> wrapped pw4 \<and> stored w4 = Some 0 \<or>
      \<not> wrapped (snd (merge_batch cfg new pw)) \<and> \<not> wrapped pw4 \<and> stored w4 = stored w)"

lemma worker_turn_middle:
  assumes t: "worker_turn cfg ops due new pw w = (complete, pw', w', scans)" and w: "world_fine w" and new: "fresh_work new"
  obtains pw4 w4 where "turn_middle cfg new pw w scans pw4 w4"
    "\<not> complete \<and> pw' = pw4 \<and> w' = w4 \<or> \<not> wrapped pw4 \<and> persist_checkpoint ops pw4 w4 = (complete, pw', w')"
proof -
  obtain ok pw1 where mb: "merge_batch cfg new pw = (ok, pw1)" by fastforce
  obtain ready pw2 w1 where iv: "invalidate_wrapped_checkpoint ops pw1 w = (ready, pw2, w1)" by (metis prod_cases3)
  let ?l = "needs_legacy_generation pw2"
  obtain pw3 w2 scans' where pp: "process_pending cfg due (wo_refresh ops ?l) (wo_rescan ops ?l) pw2 w1 = (pw3, w2, scans')"
    by (metis prod_cases3)
  obtain inside pw4 where en: "enforce_worker_plan_bound cfg pw3 = (inside, pw4)" by fastforce
  note eq = t [unfolded worker_turn_def mb Let_def prod.case iv pp en]
  have owes1: "owes pw1 y" if "owes new y \<or> owes pw y" for y
    using merge_batch_owes [OF new that, of cfg] by (simp add: mb)
  have inv: "(ready \<and> \<not> wrapped pw1 \<and> pw2 = pw1 \<and> w1 = w) \<or>
      (\<not> ready \<and> wrapped pw1 \<and> pw2 = pw1 \<and> stored w1 = stored w \<and> world_fine w1) \<or>
      (ready \<and> wrapped pw1 \<and> pw2 = pw1\<lparr>pw_checkpoint_invalidated := True\<rparr> \<and> stored w1 = Some 0 \<and> world_fine w1)"
    using invalidate_cases [OF iv w] by metis
  have owes2: "owes pw2 y" if "owes new y \<or> owes pw y" for y
    using owes1 [OF that] inv by (auto simp: owes_def)
  have mid2: "pw_max_event_id pw2 = pw_max_event_id pw1 \<and> world_fine w1 \<and>
      (wrapped pw1 \<and> wrapped pw2 \<and> \<not> ready \<and> stored w1 = stored w \<or> wrapped pw1 \<and> \<not> wrapped pw2 \<and> stored w1 = Some 0 \<or>
       \<not> wrapped pw1 \<and> \<not> wrapped pw2 \<and> stored w1 = stored w)"
    using inv w by (auto simp: wrapped_def)
  show ?thesis
  proof (cases "\<not> ok \<or> \<not> ready")
    case True
    then have "scans = []" "\<not> complete" "pw' = pw2" "w' = w1" using eq by simp_all
    then show ?thesis using that [of pw2 w1] owes2 mid2 by (auto simp: turn_middle_def mb)
  next
    case False
    have wm: "watermark pw4 = watermark pw2"
      using watermark_enforce [OF en] watermark_process_pending [OF pp] by simp
    have st: "stored w2 = stored w1 \<and> world_fine w2" using process_pending_stored [OF pp] mid2 by blast
    have sc: "scans = scans'" using eq False by (auto split: if_split_asm prod.splits)
    have ow: "owes pw4 y" if "in_roots cfg y" "owes new y \<or> owes pw y" "\<forall>s \<in> set scans. \<not> scanned cfg y s" for y
      using enforce_owes [of pw3 y cfg] process_pending_owes [OF pp that(1) owes2 [OF that(2)]] that(3) sc by (simp add: en)
    have "turn_middle cfg new pw w scans pw4 w2"
      unfolding turn_middle_def using ow watermark_wrapped [OF wm] st mid2 False by (auto simp: mb)
    moreover have "\<not> wrapped pw4" using watermark_wrapped [OF wm] mid2 False by auto
    ultimately show ?thesis
      using that [of pw4 w2] eq False by (cases inside) (auto split: prod.splits)
  qed
qed

text \<open>What a turn leaves: every pair still unscanned is owed, and the checkpoint replays the numbered ones.\<close>

lemma turn_left:
  assumes turn: "worker_turn cfg ops due new pw w = (complete, pw', w', scans)"
    and w: "world_fine w" and new: "fresh_work new"
    and max: "pw_max_event_id new < 2 ^ 64" "pw_max_event_id pw < 2 ^ 64"
    and owed: "\<forall>raw y. (raw, y) \<in> unscanned cfg flt h \<longrightarrow> owes new y \<or> owes pw y"
  defines "left \<equiv> unscanned cfg flt (rev (map Scanned scans) @ h)"
  shows "world_fine w' \<and> pw_max_event_id pw' < 2 ^ 64 \<and> (\<forall>raw y. (raw, y) \<in> left \<longrightarrow> owes pw' y)"
    and "\<lbrakk>\<forall>raw y. (raw, y) \<in> unscanned cfg flt h \<longrightarrow> \<not> unnumbered raw \<longrightarrow>
            will_replay (stored w) raw \<or> wrapped pw \<or> pw_checkpoint_reset new;
          pw_max_event_id new \<le> latest; pw_max_event_id pw \<le> latest \<or> pw_checkpoint_reset new;
          \<forall>c. stored w = Some c \<longrightarrow> c = 0 \<or> c = since_now \<or> c \<le> latest \<or> wrapped pw \<or> pw_checkpoint_reset new\<rbrakk> \<Longrightarrow>
         pw_max_event_id pw' \<le> latest \<and>
         (\<forall>raw y. (raw, y) \<in> left \<longrightarrow> \<not> unnumbered raw \<longrightarrow> will_replay (stored w') raw \<or> wrapped pw') \<and>
         (\<forall>c. stored w' = Some c \<longrightarrow> c = 0 \<or> c = since_now \<or> c \<le> latest \<or> wrapped pw')"
    (is "\<lbrakk>?replays; ?new; ?pw; ?cp\<rbrakk> \<Longrightarrow> ?kept")
proof -
  obtain pw4 w4 where mid: "turn_middle cfg new pw w scans pw4 w4"
    and fin: "\<not> complete \<and> pw' = pw4 \<and> w' = w4 \<or> \<not> wrapped pw4 \<and> persist_checkpoint ops pw4 w4 = (complete, pw', w')"
    using worker_turn_middle [OF turn w new] by blast
  have owed4: "owes pw4 y" if "(raw, y) \<in> left" for raw y
  proof -
    from that have u: "(raw, y) \<in> unscanned cfg flt h" "\<forall>sc \<in> set scans. \<not> scanned cfg y sc"
      by (simp_all add: unscanned_scans left_def)
    with owed mid unscanned_in_roots show ?thesis unfolding turn_middle_def by blast
  qed
  have m4: "pw_max_event_id pw4 < 2 ^ 64" and w4: "world_fine w4"
    using mid max by (auto simp: turn_middle_def merge_wrapped split: if_split_asm)
  consider (kept) "\<not> complete" "pw' = pw4 \<or> pw' = pw4\<lparr>pw_deferred_cleanups := []\<rparr>" "stored w' = stored w4" "world_fine w'"
    | (moved) "left = {}" "pw_max_event_id pw' = 0" "stored w' = Some (pw_max_event_id pw4)" "world_fine w'"
    | (empty) "left = {}" "pw_max_event_id pw' = 0" "wrapped pw' = wrapped pw4" "stored w' = stored w4" "world_fine w'"
  proof (cases "\<not> complete \<and> pw' = pw4 \<and> w' = w4")
    case True
    then show ?thesis using kept w4 by blast
  next
    case False
    with fin have p: "persist_checkpoint ops pw4 w4 = (complete, pw', w')" and nw: "\<not> wrapped pw4" by blast+
    have none: "left = {}" if "\<not> has_work pw4" using owed4 no_work_owes_nothing [OF that] by auto
    show ?thesis
    proof (rule persist_cases [OF p w4 nw m4], goal_cases)
      case 1
      then show ?case by (intro kept)
    next
      case 2
      then show ?case using none by (intro moved) (simp_all add: clear_diagnostics_def)
    next
      case 3
      then show ?case using none nw by (intro empty) (simp_all add: clear_diagnostics_def wrapped_def)
    qed
  qed
  note outcome = this
  have fields: "owes pw' y = owes pw4 y" "wrapped pw' = wrapped pw4" "pw_max_event_id pw' = pw_max_event_id pw4"
    if "pw' = pw4 \<or> pw' = pw4\<lparr>pw_deferred_cleanups := []\<rparr>" for y
    using that by (auto simp: owes_def wrapped_def)
  show "world_fine w' \<and> pw_max_event_id pw' < 2 ^ 64 \<and> (\<forall>raw y. (raw, y) \<in> left \<longrightarrow> owes pw' y)"
    using outcome by cases (use fields m4 owed4 in auto)
  show ?kept if ?replays ?new ?pw ?cp
  proof -
    have l4: "pw_max_event_id pw4 \<le> latest" using mid that(2,3) by (auto simp: turn_middle_def merge_wrapped)
    have replay4: "will_replay (stored w4) raw \<or> wrapped pw4" if "(raw, y) \<in> left" "\<not> unnumbered raw" for raw y
    proof -
      from that have "(raw, y) \<in> unscanned cfg flt h" by (simp add: unscanned_scans left_def)
      then have "will_replay (stored w) raw \<or> wrapped pw \<or> pw_checkpoint_reset new" using \<open>?replays\<close> that by blast
      then show ?thesis using mid by (auto simp: turn_middle_def merge_wrapped)
    qed
    have cp4: "c = 0 \<or> c = since_now \<or> c \<le> latest \<or> wrapped pw4" if "stored w4 = Some c" for c
    proof -
      have "stored w = Some c \<longrightarrow> c = 0 \<or> c = since_now \<or> c \<le> latest \<or> wrapped pw \<or> pw_checkpoint_reset new"
        using \<open>?cp\<close> by blast
      with mid that show ?thesis by (auto simp: turn_middle_def merge_wrapped)
    qed
    from outcome show ?thesis
    proof cases
      case kept
      then show ?thesis using fields l4 replay4 cp4 by simp
    next
      case moved
      then show ?thesis using l4 by simp
    next
      case empty
      then show ?thesis using cp4 by simp
    qed
  qed
qed

lemma inv_turn:
  assumes inv: "watch_inv cfg flt world_fine stored st" and taken: "take_locked (cb_inbox (wt_callback st)) = (taken, ib)"
    and turn: "worker_turn cfg ops due (ib_pending taken) (wt_worker st) (wt_world st) = (complete, pw', w', scans)"
  shows "watch_inv cfg flt world_fine stored
     (st\<lparr>wt_callback := (wt_callback st)\<lparr>cb_inbox := ib\<rparr>, wt_worker := pw', wt_world := w', wt_new := [],
         wt_past := rev (map Scanned scans) @ map Delivered (wt_new st) @ wt_past st\<rparr>)" (is "watch_inv _ _ _ _ ?st'")
proof -
  let ?new = "ib_pending (cb_inbox (wt_callback st))"
  let ?h = "map Delivered (wt_new st) @ wt_past st"
  from inv have O: "owed_inv cfg flt world_fine st" by (simp add: watch_inv_def)
  note D = owed_invD [OF O]
  have t: "ib_pending taken = ?new" "ib_pending ib = pending_default"
    using taken by (auto simp: take_locked_def)
  have owed: "\<forall>raw y. (raw, y) \<in> unscanned cfg flt ?h \<longrightarrow> owes ?new y \<or> owes (wt_worker st) y"
    using D(4,5) unfolding unscanned_delivered by blast
  note L = turn_left [OF turn [unfolded t] D(2,3,6,7) owed]
  have "owed_inv cfg flt world_fine ?st'"
    by (rule owed_invI [OF refl refl]) (use D(1) t(2) L(1) in \<open>simp_all, simp_all add: pending_default_def\<close>)
  moreover have "replay_inv cfg flt stored ?st'" if "wt_orderly st"
  proof -
    from inv that have "replay_inv cfg flt stored st" by (simp add: watch_inv_def)
    note R = replay_invD [OF this]
    have "\<forall>raw y. (raw, y) \<in> unscanned cfg flt ?h \<longrightarrow> \<not> unnumbered raw \<longrightarrow>
        will_replay (stored (wt_world st)) raw \<or> wrapped (wt_worker st) \<or> pw_checkpoint_reset ?new"
      using R(1,2) unfolding unscanned_delivered by blast
    note numbered = this
    have "\<forall>c. stored (wt_world st) = Some c \<longrightarrow>
        c = 0 \<or> c = since_now \<or> c \<le> wt_last st \<or> wrapped (wt_worker st) \<or> pw_checkpoint_reset ?new"
      using R(5) by blast
    note K = L(2) [OF numbered R(3,4) this]
    have "pw_max_event_id pending_default = 0" by (simp add: pending_default_def)
    then show ?thesis by (intro replay_invI [OF refl refl refl]) (use K t(2) in auto)
  qed
  ultimately show ?thesis by (simp add: watch_inv_def)
qed

lemma inv_start:
  assumes fine: "world_fine w" and cur: "current < 2 ^ 64"
    and start: "watch_start ops (stored w) current w = (Some (initial, since, scans), w')"
  shows "watch_inv cfg flt world_fine stored
     \<lparr>wt_callback = callback_new flt, wt_worker = initial, wt_world = w', wt_new = [],
      wt_past = start_history current scans, wt_last = since, wt_orderly = start_in_order (stored w) current\<rparr>"
    (is "watch_inv _ _ _ _ ?st")
proof -
  have box: "ib_pending (cb_inbox (callback_new flt)) = pending_default" "cb_filter (callback_new flt) = flt"
    by (simp_all add: callback_new_def inbox_new_def)
  have max0: "pw_max_event_id pending_default = 0" by (simp add: pending_default_def)
  let ?left = "unscanned cfg flt (start_history current scans)"
  have O: "owed_inv cfg flt world_fine ?st"
    if "world_fine w'" "pw_max_event_id initial < 2 ^ 64" "\<And>raw y. (raw, y) \<in> ?left \<Longrightarrow> owes initial y"
    by (rule owed_invI [OF refl refl]) (use that box max0 in \<open>auto simp: same_rules_def\<close>)
  have R: "replay_inv cfg flt stored ?st"
    if "\<And>raw y. (raw, y) \<in> ?left \<Longrightarrow> will_replay (stored w') raw" "pw_max_event_id initial \<le> since"
      "\<And>c. stored w' = Some c \<Longrightarrow> c = 0 \<or> c = since_now \<or> c \<le> since"
    by (rule replay_invI [OF refl refl refl]) (use that box max0 in auto)
  show ?thesis
  proof (cases "resolve_since_when (stored w) current")
    case (UseCheckpoint i)
    then have i: "stored w = Some i" "i \<le> current" by (auto simp: resolve_since_when_def split: option.splits if_split_asm)
    from UseCheckpoint start have s: "initial = pending_default" "since = i" "scans = []" "w' = w"
      by (simp_all add: watch_start_def)
    show ?thesis
      unfolding watch_inv_def using s i fine max0 by (intro conjI impI O R) (auto simp: start_history_def)
  next
    case FullRescan
    obtain summary w1 where r: "wo_rescan ops False w = (Some summary, w1)"
      using start FullRescan by (auto simp: watch_start_def Let_def split: prod.splits option.splits)
    note kept = rescan_stored [OF fine r]
    show ?thesis
    proof (cases "is_warnings summary = []")
      case True
      obtain w2 where c: "wo_set_checkpoint ops current w1 = (True, w2)"
        and s: "initial = (pending_default\<lparr>pw_max_event_id := current\<rparr>)\<lparr>pw_max_event_id := 0\<rparr>" "since = current"
          "scans = [(None, Some summary)]" "w' = w2"
        using start FullRescan r True by (auto simp: watch_start_def Let_def split: prod.splits bool.splits)
      have none: "?left = {}"
        using s True by (auto simp: start_history_def leaves_def dest: dirty_in_roots)
      show ?thesis
        unfolding watch_inv_def using s none checkpoint_written [OF conjunct2 [OF kept] cur c] checkpoint_fine [OF conjunct2 [OF kept] c]
        by (intro conjI impI O R) auto
    next
      case False
      let ?kept = "retain_incomplete summary (pending_default\<lparr>pw_max_event_id := current\<rparr>)"
      have s: "initial = (if has_work ?kept then ?kept else ?kept\<lparr>pw_retry_roots := True\<rparr>)" "since = current"
          "scans = [(None, Some summary)]" "w' = w1"
        using start FullRescan r False by (auto simp: watch_start_def Let_def)
      have "watermark initial = (current, False, False)"
        using s by (auto simp: watermark_def retain_incomplete_def pending_default_def)
      then have m: "pw_max_event_id initial = current" by (simp add: watermark_def)
      have owed: "owes initial y" if "(raw, y) \<in> ?left" for raw y
      proof -
        have "leaves summary y" "utf8_valid y"
          using that s dirty_in_roots by (auto simp: start_history_def in_roots_def dirty_def)
        then have "is_retry_paths summary \<noteq> [] \<Longrightarrow> owes ?kept y" using retain_incomplete_owes by blast
        moreover have "\<not> has_work ?kept" if "is_retry_paths summary = []"
          using that by (simp add: retain_incomplete_def pending_default_def has_work_def has_retries_def)
        ultimately show ?thesis using s no_work_owes_nothing by (auto simp: owes_def)
      qed
      have old: "will_replay (stored w) raw" if "start_in_order (stored w) current" for raw
        using FullRescan that
        by (auto simp: resolve_since_when_def will_replay_def start_in_order_def split: option.splits if_split_asm)
      show ?thesis
        unfolding watch_inv_def using s cur owed old kept m
        by (intro conjI impI O R) (auto simp: start_in_order_def split: option.splits)
    qed
  qed
qed

lemma reachable_inv:
  assumes "watch_reachable cfg flt ops world_fine stored st" and roots: "roots_ok cfg"
  shows "watch_inv cfg flt world_fine stored st"
  using assms(1)
proof (induction rule: watch_reachable.induct)
  case (reach_start w current initial since scans w')
  then show ?case by (intro inv_start)
next
  case (reach_step st st')
  note inv = reach_step.IH
  from inv have O: "owed_inv cfg flt world_fine st" by (simp add: watch_inv_def)
  note D = owed_invD [OF O]
  from reach_step.hyps(2) show ?case
  proof (cases rule: watch_step.cases)
    case (step_event raw t)
    then show ?thesis using inv_event [OF inv _ _ roots] by blast
  next
    case step_close
    then have "owed_inv cfg flt world_fine st'" using D by (intro owed_invI [OF refl refl]) (auto simp: inbox_close_def)
    moreover have "replay_inv cfg flt stored st'" if "replay_inv cfg flt stored st"
      using step_close replay_invD [OF that] by (intro replay_invI [OF refl refl refl]) (auto simp: inbox_close_def)
    ultimately show ?thesis using inv step_close by (simp add: watch_inv_def)
  next
    case (step_turn taken ib due complete pw w scans)
    then show ?thesis using inv_turn [OF inv] by blast
  next
    case (step_world w)
    then have "owed_inv cfg flt world_fine st'" using D by (intro owed_invI [OF refl refl]) auto
    moreover have "replay_inv cfg flt stored st'" if "replay_inv cfg flt stored st" "stored w = stored (wt_world st)"
      using step_world that(2) replay_invD [OF that(1)] by (intro replay_invI [OF refl refl refl]) auto
    moreover have "wt_orderly st' \<longleftrightarrow> wt_orderly st \<and> stored w = stored (wt_world st)" using step_world by simp
    ultimately show ?thesis using inv unfolding watch_inv_def by blast
  qed
qed

end

end
