(* ===== verification/Watch_Turn.thy ===== *)
theory Watch_Turn
  imports Watch_Safe
begin

text \<open>
  What a single turn of the worker and a single delivery achieve: clean scans leave no work, and the
  memory for paths stays bounded.
\<close>

subsection \<open>Clean turns\<close>

definition clean_scan :: "scan \<Rightarrow> bool" where
  "clean_scan sc \<longleftrightarrow> (case snd sc of None \<Rightarrow> False | Some s \<Rightarrow> is_warnings s = [])"

lemma clean_refresh_all:
  assumes "refresh_all refresh ps pw w = (pw', w', scans)" "list_all clean_scan scans" "pw_retry_paths pw = []"
  shows "pw' = pw"
  using assms
proof (induction ps arbitrary: pw w scans)
  case (Cons p ps)
  obtain s w1 where r: "refresh p w = (s, w1)" by fastforce
  obtain scans' where rest: "refresh_all refresh ps (refreshed_path p s pw) w1 = (pw', w', scans')"
    and scans: "scans = (Some p, s) # scans'"
    using Cons.prems(1) r by (auto split: prod.splits)
  then have "refreshed_path p s pw = pw"
    using Cons.prems by (auto simp: refreshed_path_def clean_scan_def split: option.splits)
  with Cons.IH [OF rest [unfolded this]] Cons.prems scans show ?case by simp
qed simp

definition idle :: "pending_work \<Rightarrow> bool" where
  "idle pw \<longleftrightarrow> \<not> pw_rescan_roots pw \<and> pw_paths pw = [] \<and> \<not> pw_retry_roots pw \<and> pw_retry_paths pw = [] \<and>
     \<not> pw_full_recovery_obligation pw"

lemma clean_process_pending:
  assumes p: "process_pending cfg True refresh rescan pw w = (pw', w', scans)" and clean: "list_all clean_scan scans"
    and scope: "\<not> pw_worker_scope_failure pw" and full: "pw_full_recovery_obligation pw \<Longrightarrow> pw_retry_roots pw"
  shows "idle pw' \<and> \<not> pw_worker_scope_failure pw' \<and>
    (pw_deferred_cleanups pw' = pw_deferred_cleanups pw \<or> pw_deferred_cleanups pw' = [])"
proof -
  let ?d = "due_work cfg True pw"
  have d: "pw_retry_paths ?d = []" "\<not> pw_retry_roots ?d" "pw_rescan_roots ?d = (pw_rescan_roots pw \<or> pw_retry_roots pw)"
    "pw_full_recovery_obligation ?d = pw_full_recovery_obligation pw" "\<not> pw_worker_scope_failure ?d"
    "pw_deferred_cleanups ?d = pw_deferred_cleanups pw"
    using scope by (simp_all add: due_work_def Let_def)
  show ?thesis
  proof (cases "pw_rescan_roots ?d")
    case False
    with p have r: "refresh_all refresh (fold_refresh_paths (map fst (pw_paths ?d))) (clear_paths ?d) w = (pw', w', scans)"
      by (simp add: process_pending_def refresh_paths_def Let_def)
    have "pw' = clear_paths ?d" by (rule clean_refresh_all [OF r clean]) (simp add: clear_paths_def d)
    with False d full show ?thesis by (auto simp: idle_def clear_paths_def)
  next
    case True
    obtain outcome w1 where r: "rescan w = (outcome, w1)" by fastforce
    show ?thesis
    proof (cases outcome)
      case None
      with p True r clean have False
        by (auto simp: process_pending_def Let_def clean_scan_def split: prod.splits)
      then show ?thesis ..
    next
      case (Some s)
      with p True r clean have "is_warnings s = []"
        by (auto simp: process_pending_def Let_def clean_scan_def split: if_split_asm)
      with p True r Some d show ?thesis
        by (auto simp: process_pending_def Let_def idle_def clear_paths_def split: if_split_asm)
    qed
  qed
qed

lemma idle_no_work: "idle pw \<Longrightarrow> \<not> pw_worker_scope_failure pw \<Longrightarrow> \<not> has_work pw"
  by (simp add: idle_def has_work_def has_retries_def)

text \<open>The writes of a turn: the checkpoint, and the clean-ups \<open>cs\<close> it has put off, in the worlds it meets.\<close>

definition writes_succeed :: "('w \<Rightarrow> bool) \<Rightarrow> 'w watch_ops \<Rightarrow> (str \<times> i64) list \<Rightarrow> bool" where
  "writes_succeed fine ops cs \<longleftrightarrow>
     (\<forall>w. fine w \<longrightarrow> (\<forall>n < 2 ^ 64. fst (wo_set_checkpoint ops n w)) \<and> fst (wo_cleanup ops cs w))"

context watch_world
begin

lemma write_succeeds:
  assumes "writes_succeed world_fine ops cs" and "world_fine w"
  shows "n < 2 ^ 64 \<Longrightarrow> \<exists>w'. wo_set_checkpoint ops n w = (True, w') \<and> world_fine w'"
    and "\<exists>w'. wo_cleanup ops cs w = (True, w') \<and> world_fine w'"
proof -
  show "\<exists>w'. wo_cleanup ops cs w = (True, w') \<and> world_fine w'"
    using assms cleanup_stored [OF assms(2)] by (cases "wo_cleanup ops cs w") (force simp: writes_succeed_def)
  show "\<exists>w'. wo_set_checkpoint ops n w = (True, w') \<and> world_fine w'" if "n < 2 ^ 64"
    using that assms checkpoint_fine [OF assms(2)] by (cases "wo_set_checkpoint ops n w") (force simp: writes_succeed_def)
qed

lemma invalidate_succeeds:
  assumes "writes_succeed world_fine ops cs" and "world_fine w"
  obtains pw1 w1 where "invalidate_wrapped_checkpoint ops pw w = (True, pw1, w1)" "world_fine w1"
    "pw1 = pw \<or> pw1 = pw\<lparr>pw_checkpoint_invalidated := True\<rparr>"
proof (cases "pw_checkpoint_reset pw \<and> \<not> pw_checkpoint_invalidated pw")
  case True
  obtain w1 where "wo_set_checkpoint ops 0 w = (True, w1)" "world_fine w1"
    using write_succeeds(1) [OF assms, of 0] by auto
  with True show ?thesis using that by (simp add: invalidate_wrapped_checkpoint_def)
next
  case False
  then show ?thesis using that [of pw w] assms(2) by (auto simp: invalidate_wrapped_checkpoint_def)
qed

lemma persist_completes:
  assumes p: "persist_checkpoint ops pw w = (complete, pw', w')" and w: "world_fine w"
    and ok: "writes_succeed world_fine ops cs" "pw_deferred_cleanups pw = cs \<or> pw_deferred_cleanups pw = []"
    and ready: "\<not> has_work pw" "pw_max_event_id pw < 2 ^ 64"
  shows "complete \<and> \<not> has_pending pw'"
proof -
  obtain pw1 w1 where iv: "invalidate_wrapped_checkpoint ops pw w = (True, pw1, w1)" and w1: "world_fine w1"
    and pw1: "pw1 = pw \<or> pw1 = pw\<lparr>pw_checkpoint_invalidated := True\<rparr>"
    using invalidate_succeeds [OF ok(1) w] by metis
  with ok(2) ready have ready1: "\<not> has_work pw1" "pw_max_event_id pw1 < 2 ^ 64"
    "pw_deferred_cleanups pw1 = cs \<or> pw_deferred_cleanups pw1 = []" by auto
  obtain w2 where c: "(if pw_deferred_cleanups pw1 = [] then (True, w1) else wo_cleanup ops (pw_deferred_cleanups pw1) w1) = (True, w2)"
    and w2: "world_fine w2"
    using write_succeeds(2) [OF ok(1) w1] ready1(3) w1 by metis
  obtain w3 where k: "wo_set_checkpoint ops (pw_max_event_id pw1) w2 = (True, w3)"
    using write_succeeds(1) [OF ok(1) w2 ready1(2)] by metis
  note eq = p [unfolded persist_checkpoint_def iv prod.case bool.case c Let_def]
  have idle: "\<not> has_pending (clear_diagnostics (pw1\<lparr>pw_deferred_cleanups := [], pw_max_event_id := 0, pw_checkpoint_reset := False,
        pw_checkpoint_invalidated := False\<rparr>))"
    using ready1(1) by (simp add: has_pending_def) (simp add: clear_diagnostics_def)
  show ?thesis
  proof (cases "0 < pw_max_event_id pw1 \<or> pw_checkpoint_reset pw1")
    case True
    with eq ready1 k idle show ?thesis by simp
  next
    case False
    with eq ready1 have "complete" "pw' = clear_diagnostics (pw1\<lparr>pw_deferred_cleanups := []\<rparr>)" by simp_all
    with False ready1 show ?thesis by (simp add: has_pending_def) (simp add: clear_diagnostics_def)
  qed
qed

end

lemma capacities_simps [simp]: "capacities cfg [] = 0" "capacities cfg (e # m) = wc_capacity cfg (fst e) + capacities cfg m"
  by (simp_all add: capacities_def)

context watch_world
begin

lemma clean_turn:
  assumes t: "worker_turn cfg ops True new pw w = (complete, pw', w', scans)" and w: "world_fine w"
    and plan: "merge_batch cfg new pw = (True, pw1)" "\<not> pw_worker_scope_failure pw1" "pw_max_event_id pw1 < 2 ^ 64"
    and clean: "list_all clean_scan scans" and ok: "writes_succeed world_fine ops (pw_deferred_cleanups pw1)"
  shows "complete \<and> \<not> has_pending pw'"
proof -
  obtain pw2 w1 where iv: "invalidate_wrapped_checkpoint ops pw1 w = (True, pw2, w1)" and w1: "world_fine w1"
    and pw2: "pw2 = pw1 \<or> pw2 = pw1\<lparr>pw_checkpoint_invalidated := True\<rparr>"
    using invalidate_succeeds [OF ok w] by metis
  let ?l = "needs_legacy_generation pw2"
  obtain pw3 w2 scans' where pp: "process_pending cfg True (wo_refresh ops ?l) (wo_rescan ops ?l) pw2 w1 = (pw3, w2, scans')"
    by (metis prod_cases3)
  obtain inside pw4 where en: "enforce_worker_plan_bound cfg pw3 = (inside, pw4)" by fastforce
  note eq = t [unfolded worker_turn_def plan(1) Let_def prod.case iv pp en]
  have sc: "scans' = scans" using eq by (auto split: if_split_asm prod.splits)
  have "(pw_full_recovery_obligation pw1 \<longrightarrow> pw_retry_roots pw1) \<and> within_bounds cfg pw1"
    using plan(1) unfolding merge_batch_def
    by (rule enforce_cases) (auto simp: compressed_def within_bounds_def worker_plan_size_def)
  then have pre: "pw_full_recovery_obligation pw2 \<Longrightarrow> pw_retry_roots pw2" "\<not> pw_worker_scope_failure pw2"
    "pw_deferred_cleanups pw2 = pw_deferred_cleanups pw1"
    and small: "length (pw_deferred_cleanups pw2) \<le> inbox_max_paths" "capacities cfg (pw_deferred_cleanups pw2) \<le> inbox_max_path_bytes"
    using pw2 plan(2) by (auto simp: within_bounds_def worker_plan_size_def)
  have done3: "idle pw3" "\<not> pw_worker_scope_failure pw3"
    "pw_deferred_cleanups pw3 = pw_deferred_cleanups pw2 \<or> pw_deferred_cleanups pw3 = []"
    using clean_process_pending [OF pp clean [folded sc] pre(2) pre(1)] by simp_all
  have id3: "pw_max_event_id pw3 < 2 ^ 64"
    using watermark_process_pending [OF pp] pw2 plan(3) by (auto simp: watermark_def)
  have w2: "world_fine w2" using process_pending_stored [OF pp w1] by blast
  have "inside \<and> pw4 = pw3"
    using en small done3 by (auto simp: enforce_worker_plan_bound_def worker_plan_size_def idle_def)
  moreover then obtain pw5 w3 where "persist_checkpoint ops pw3 w2 = (complete, pw5, w3)" "pw' = pw5"
    using eq by (auto split: prod.splits)
  ultimately show ?thesis
    using persist_completes [OF _ w2 ok _ idle_no_work id3] done3 pre(3) by auto
qed

end

subsection \<open>Bounds\<close>

lemma capacities_update: "capacities cfg (AList.update p fl m) = (if p \<in> set (map fst m) then capacities cfg m else capacities cfg m + wc_capacity cfg p)"
  by (auto simp: capacities_def update_keys simp del: set_map)

text \<open>The running sum of the inbox is the sum of the capacities of its paths, up to \<open>usize\<close>.\<close>

definition sized :: "watch_config \<Rightarrow> pending_work \<Rightarrow> bool" where
  "sized cfg pw \<longleftrightarrow> pw_path_bytes pw = min (capacities cfg (pw_paths pw)) (2 ^ 64 - 1)"

lemma sized_clear [simp]: "sized cfg (clear_paths pw)"
  by (simp add: sized_def clear_paths_def)

lemma sized_insert_path: "sized cfg pw \<Longrightarrow> sized cfg (insert_path cfg p fl pw)"
proof (cases "map_of (pw_paths pw) p")
  case None
  then have "p \<notin> set (map fst (pw_paths pw))" by (simp add: map_of_eq_None_iff)
  moreover assume "sized cfg pw"
  ultimately show ?thesis using None by (simp add: sized_def insert_path_def saturating_count_def capacities_update)
next
  case (Some old)
  then have "p \<in> set (map fst (pw_paths pw))" by (force dest: map_of_SomeD)
  moreover assume "sized cfg pw"
  ultimately show ?thesis using Some by (simp add: sized_def insert_path_def capacities_update)
qed

lemma sized_insert_paths: "sized cfg pw \<Longrightarrow> sized cfg (fold (\<lambda>p. insert_path cfg p fl) ps pw)"
  by (induction ps arbitrary: pw) (simp_all add: sized_insert_path)

lemma sized_record_event [simp]: "sized cfg (record_event cfg e pw) = sized cfg pw"
  by (simp add: sized_def)

lemma sized_flags [simp]: "sized cfg (pw\<lparr>pw_recovery_event := s\<rparr>) = sized cfg pw"
  by (simp add: sized_def)

lemma sized_add_scoped: "sized cfg pw \<Longrightarrow> sized cfg (add_scoped cfg e pw)"
  by (simp add: add_scoped_def add_event_def Let_def sized_insert_path sized_insert_paths split: option.splits)

definition inbox_bounded :: "watch_config \<Rightarrow> pending_work \<Rightarrow> bool" where
  "inbox_bounded cfg pw \<longleftrightarrow> length (pw_paths pw) \<le> inbox_max_paths \<and> capacities cfg (pw_paths pw) \<le> inbox_max_path_bytes"

lemma push_bounded:
  assumes "sized cfg (ib_pending ib)" "inbox_bounded cfg (ib_pending ib)"
  shows "sized cfg (ib_pending (inbox_push cfg t e ib)) \<and> inbox_bounded cfg (ib_pending (inbox_push cfg t e ib))"
proof (cases "ib_closed ib")
  case True
  with assms show ?thesis by (simp add: inbox_push_def)
next
  case False
  let ?pw = "add_scoped cfg e (ib_pending ib)"
  let ?over = "inbox_max_paths < length (pw_paths ?pw) \<or> inbox_max_path_bytes < pw_path_bytes ?pw"
  have p: "ib_pending (inbox_push cfg t e ib) =
      (if ?over then clear_paths (?pw\<lparr>pw_rescan_roots := True, pw_inbox_overflow := True\<rparr>) else ?pw)"
    using False by (simp add: inbox_push_def Let_def)
  have s: "sized cfg ?pw" using assms(1) by (rule sized_add_scoped)
  have "inbox_bounded cfg ?pw" if "\<not> ?over"
    using that s by (auto simp: inbox_bounded_def sized_def inbox_max_path_bytes_def)
  then show ?thesis using s unfolding p by (auto simp: inbox_bounded_def clear_paths_def sized_def)
qed

lemma callback_event_bounded:
  assumes "sized cfg (ib_pending (cb_inbox cb))" "inbox_bounded cfg (ib_pending (cb_inbox cb))"
  shows "sized cfg (ib_pending (cb_inbox (callback_event cfg t raw cb))) \<and>
    inbox_bounded cfg (ib_pending (cb_inbox (callback_event cfg t raw cb)))"
proof -
  have "cb_inbox (callback_event cfg t raw cb) = cb_inbox cb \<or>
      (\<exists>e. cb_inbox (callback_event cfg t raw cb) = inbox_push cfg t e (cb_inbox cb))"
    by (auto simp: callback_event_def Let_def split: option.splits prod.splits)
  with assms push_bounded show ?thesis by metis
qed

lemma reachable_bounded:
  "watch_reachable cfg flt ops fine stored st \<Longrightarrow>
   sized cfg (ib_pending (cb_inbox (wt_callback st))) \<and> inbox_bounded cfg (ib_pending (cb_inbox (wt_callback st)))"
proof (induction rule: watch_reachable.induct)
  case reach_start
  show ?case by (simp add: callback_new_def inbox_new_def pending_default_def sized_def inbox_bounded_def)
next
  case (reach_step st st')
  from reach_step.hyps(2) reach_step.IH show ?case
  proof (cases rule: watch_step.cases)
    case (step_event raw t)
    then show ?thesis using callback_event_bounded reach_step.IH by (simp add: deliver_def)
  next
    case (step_turn taken ib due complete pw w scans)
    then show ?thesis by (auto simp: take_locked_def pending_default_def sized_def inbox_bounded_def)
  qed (auto simp: inbox_close_def)
qed

lemma enforce_bounded:
  assumes "enforce_worker_plan_bound cfg pw = (ok, pw')"
  shows "within_bounds cfg pw' \<or> pw_worker_scope_failure pw'"
  by (rule enforce_cases [OF assms]) (auto simp: compressed_def within_bounds_def worker_plan_size_def)

lemma within_bounds_fewer:
  "within_bounds cfg pw \<Longrightarrow> within_bounds cfg (pw\<lparr>pw_deferred_cleanups := []\<rparr>)"
  "within_bounds cfg (clear_diagnostics pw) = within_bounds cfg pw"
  "within_bounds cfg (pw\<lparr>pw_max_event_id := n\<rparr>) = within_bounds cfg pw"
  "within_bounds cfg (pw\<lparr>pw_checkpoint_reset := b\<rparr>) = within_bounds cfg pw"
  "within_bounds cfg (pw\<lparr>pw_checkpoint_invalidated := b\<rparr>) = within_bounds cfg pw"
  by (auto simp: within_bounds_def worker_plan_size_def clear_diagnostics_def)

end
