(* ===== verification/Scan_Correct.thy ===== *)
theory Scan_Correct
  imports Scanner
begin

text \<open>
  What the scanner does to the index: a complete refresh makes the rows below its roots the
  mirror of the tree, an incomplete one deletes nothing, and a failed one changes nothing.
\<close>

subsection \<open>What a scan finds\<close>

text \<open>The paths of a tree that are not excluded and whose metadata can be read.\<close>

inductive found :: "fs_view \<Rightarrow> exclude_matcher \<Rightarrow> str \<Rightarrow> str \<Rightarrow> bool" for fs m where
  found_here: "\<not> is_excluded m path \<Longrightarrow> symlink_metadata fs path = Inr md \<Longrightarrow> found fs m path path"
| found_below: "\<not> is_excluded m path \<Longrightarrow> symlink_metadata fs path = Inr md \<Longrightarrow> is_directory path md \<Longrightarrow>
    read_dir fs path = Inr entries \<Longrightarrow> Inr name \<in> set entries \<Longrightarrow> found fs m (path_join path name) p \<Longrightarrow>
    found fs m path p"

inductive_simps found_iff: "found fs m path p"

lemma found_metadata: "found fs m path p \<Longrightarrow> \<exists>md. symlink_metadata fs p = Inr md"
  by (induction rule: found.induct) auto

abbreviation found_in :: "scan_env \<Rightarrow> str \<Rightarrow> str set" where
  "found_in env path \<equiv> Collect (found (se_fs env) (se_excludes env) path)"

text \<open>The row of a text is the row of one of the paths that have this text.\<close>

definition row_of_scan :: "scan_env \<Rightarrow> str set \<Rightarrow> str \<Rightarrow> file_record \<Rightarrow> bool" where
  "row_of_scan env S t e \<longleftrightarrow>
     (\<exists>p md. p \<in> S \<and> to_string_lossy p = t \<and> symlink_metadata (se_fs env) p = Inr md \<and>
        same_content e (scanned_record env p md))"

lemma row_of_scan_mono: "row_of_scan env S t e \<Longrightarrow> S \<subseteq> S' \<Longrightarrow> row_of_scan env S' t e"
  unfolding row_of_scan_def by blast

subsection \<open>Facts: one upsert\<close>

lemma upsert_statement_row:
  assumes ok: "ix_ok db" and a: "alloc_ok alloc" and u: "upsert_statement alloc sc r db = (changed, db')"
  shows "\<exists>e. row_with_path db' (fr_path r) = Some e \<and> same_content e r \<and>
    (\<not> sc \<longrightarrow> fr_indexed_at e = fr_indexed_at r) \<and>
    (\<forall>e0. row_with_path db (fr_path r) = Some e0 \<longrightarrow> fr_id e = fr_id e0)"
proof (cases "row_with_path db (fr_path r)")
  case None
  then have db': "db' = insert_row alloc r db" using u by (simp add: upsert_statement_def)
  have ok': "ix_ok db'" unfolding db' by (rule insert_row_ok [OF ok a None])
  have "row_with_path db' (fr_path r) = Some (r\<lparr>fr_id := alloc (ix_files db)\<rparr>)"
    by (simp add: row_with_path_Some [OF ok']) (simp add: db' set_insort_key)
  then show ?thesis using None by (simp add: same_content_def)
next
  case (Some e0)
  have e0: "e0 \<in> set (ix_files db)" "fr_path e0 = fr_path r" using Some by (auto simp: row_with_path_Some [OF ok])
  show ?thesis
  proof (cases "same_content e0 r \<and> (sc \<or> fr_indexed_at e0 = fr_indexed_at r)")
    case True
    then have "db' = db" using u Some by (auto simp: upsert_statement_def)
    then show ?thesis using True Some by auto
  next
    case False
    then have db': "db' = update_row e0 r (set_conflict (Some (fr_id e0)) db)"
      using u Some by (auto simp: upsert_statement_def)
    have ok0: "ix_ok (set_conflict (Some (fr_id e0)) db)" using ok by (simp add: ix_ok_def)
    have ok': "ix_ok db'" unfolding db' by (rule update_row_ok [OF ok0]) (simp add: e0)
    have "row_with_path db' (fr_path r) = Some (r\<lparr>fr_id := fr_id e0, fr_path := fr_path e0\<rparr>)"
      by (simp add: row_with_path_Some [OF ok'] e0(2)) (use e0 in \<open>auto simp: db' image_iff intro!: bexI [of _ e0]\<close>)
    then show ?thesis using Some e0(2) by (simp add: same_content_def)
  qed
qed

lemma row_with_path_of: "ix_ok db \<Longrightarrow> row_with_path db p = Some e \<Longrightarrow> fr_path e = p"
  by (simp add: row_with_path_Some)

text \<open>The ids that a scanner upsert has seen, when its limit was not exceeded.\<close>

definition seen_exactly :: "file_upsert \<Rightarrow> i64 set \<Rightarrow> bool" where
  "seen_exactly fu I \<longleftrightarrow>
     (case fu_scanner fu of None \<Rightarrow> True | Some s \<Rightarrow> su_exceeded s \<or> (\<forall>i. seen_contains (su_seen s) i \<longleftrightarrow> i \<in> I))"

lemma upsert_row:
  assumes ok: "ix_ok db" and a: "alloc_ok alloc" and s: "upsert_seen_ok fu"
    and u: "upsert alloc r (fu, db) = Some (changed, fu', db')"
  obtains e where "row_with_path db' (fr_path r) = Some e" "same_content e r"
    "fu_scanner fu = None \<longrightarrow> fr_indexed_at e = fr_indexed_at r"
    "\<forall>e0. row_with_path db (fr_path r) = Some e0 \<longrightarrow> fr_id e = fr_id e0"
    "\<forall>I. seen_exactly fu I \<longrightarrow> seen_exactly fu' (insert (fr_id e) I)"
    "fu_scanner fu' = None \<longleftrightarrow> fu_scanner fu = None"
    "seen_limit_exceeded fu \<longrightarrow> seen_limit_exceeded fu'"
proof (cases "fu_scanner fu")
  case None
  obtain d where d: "upsert_statement alloc False r db = (changed, d)" "fu' = fu" "db' = d"
    using u None by (auto simp: upsert_def Let_def split: if_splits prod.splits)
  then show ?thesis
    using upsert_statement_row [OF ok a d(1)] None that by (auto simp: seen_exactly_def)
next
  case (Some sc)
  have sok: "seen_ok (su_seen sc)" using s Some by (simp add: upsert_seen_ok_def)
  have seen: "(\<forall>I. seen_exactly fu I \<longrightarrow> seen_exactly (fu\<lparr>fu_scanner := Some (see i sc)\<rparr>) (insert i I)) \<and>
      (seen_limit_exceeded fu \<longrightarrow> seen_limit_exceeded (fu\<lparr>fu_scanner := Some (see i sc)\<rparr>))" for i
    using see_facts [OF sok, of i] Some by (auto simp: seen_exactly_def seen_limit_exceeded_def)
  show ?thesis
  proof (cases "unchanged_id db r")
    case None
    obtain d e where d: "upsert_statement alloc True r db = (changed, d)" "db' = d"
        "row_with_path d (fr_path r) = Some e" "fu' = fu\<lparr>fu_scanner := Some (see (fr_id e) sc)\<rparr>"
      using u None Some by (auto simp: upsert_def Let_def split: if_splits prod.splits option.splits)
    then show ?thesis
      using upsert_statement_row [OF ok a d(1)] Some seen [of "fr_id e"] that [of e] by auto
  next
    case (Some i)
    have f: "fu' = fu\<lparr>fu_scanner := Some (see i sc)\<rparr>" "db' = db"
      using u Some \<open>fu_scanner fu = Some sc\<close> by (auto simp: upsert_def Let_def split: if_splits)
    obtain e where "row_with_path db (fr_path r) = Some e" "same_content e r" "fr_id e = i"
      using unchanged_id_Some [OF ok Some] by blast
    then show ?thesis using f \<open>fu_scanner fu = Some sc\<close> seen [of i] that [of e] by auto
  qed
qed

subsection \<open>The invariant of a scan\<close>

text \<open>
  After the paths \<open>S\<close> were upserted: their rows hold what was found, other rows are those of the
  index before, and the ids seen are those of the rows of \<open>S\<close>.
\<close>

definition ids_of :: "index_db \<Rightarrow> str set \<Rightarrow> i64 set" where
  "ids_of db T = {i. \<exists>t \<in> T. \<exists>e. row_with_path db t = Some e \<and> fr_id e = i}"

lemma ids_of_update:
  assumes row: "row_with_path db' t = Some e" and other: "\<And>u. u \<noteq> t \<Longrightarrow> row_with_path db' u = row_with_path db u"
    and same: "\<forall>e0. row_with_path db t = Some e0 \<longrightarrow> fr_id e = fr_id e0"
  shows "ids_of db' (insert t T) = insert (fr_id e) (ids_of db T)"
proof (intro set_eqI iffI)
  fix i assume "i \<in> ids_of db' (insert t T)"
  then obtain u x where u: "u = t \<or> u \<in> T" "row_with_path db' u = Some x" "fr_id x = i" by (auto simp: ids_of_def)
  show "i \<in> insert (fr_id e) (ids_of db T)"
  proof (cases "u = t")
    case False
    then show ?thesis using u other [OF False] by (auto simp: ids_of_def)
  qed (use u row in simp)
next
  fix i assume "i \<in> insert (fr_id e) (ids_of db T)"
  then consider "i = fr_id e" | u x where "u \<in> T" "row_with_path db u = Some x" "fr_id x = i"
    by (auto simp: ids_of_def)
  then show "i \<in> ids_of db' (insert t T)"
  proof cases
    case 1
    then show ?thesis using row by (auto simp: ids_of_def)
  next
    case 2
    show ?thesis
    proof (cases "u = t")
      case True
      then show ?thesis using 2 row same by (auto simp: ids_of_def)
    next
      case False
      then show ?thesis using 2 other [OF False] by (auto simp: ids_of_def)
    qed
  qed
qed

definition scan_inv :: "scan_env \<Rightarrow> index_db \<Rightarrow> str set \<Rightarrow> file_upsert \<Rightarrow> index_db \<Rightarrow> bool" where
  "scan_inv env db0 S fu db \<longleftrightarrow>
     ix_ok db \<and> upsert_seen_ok fu \<and>
     (\<forall>t. t \<notin> to_string_lossy ` S \<longrightarrow> row_with_path db t = row_with_path db0 t) \<and>
     (\<forall>t \<in> to_string_lossy ` S. \<exists>e. row_with_path db t = Some e \<and> row_of_scan env S t e \<and>
        (fu_scanner fu = None \<longrightarrow> fr_indexed_at e = se_indexed_at env)) \<and>
     seen_exactly fu (ids_of db (to_string_lossy ` S))"

lemma scanned_record_fields [simp]:
  "fr_path (scanned_record env p md) = to_string_lossy p"
  "fr_indexed_at (scanned_record env p md) = se_indexed_at env"
  by (simp_all add: scanned_record_def file_record_new_def Let_def)

lemma scan_inv_upsert:
  assumes inv: "scan_inv env db0 S fu db" and a: "alloc_ok (se_alloc env)"
    and md: "symlink_metadata (se_fs env) p = Inr md"
    and u: "upsert (se_alloc env) (scanned_record env p md) (fu, db) = Some (changed, fu', db')"
  shows "scan_inv env db0 (insert p S) fu' db' \<and> (fu_scanner fu' = None \<longleftrightarrow> fu_scanner fu = None) \<and>
    (seen_limit_exceeded fu \<longrightarrow> seen_limit_exceeded fu')"
proof -
  let ?t = "to_string_lossy p" and ?L = "\<lambda>S. to_string_lossy ` S"
  have ok: "ix_ok db" and s: "upsert_seen_ok fu" using inv by (simp_all add: scan_inv_def)
  have c: "ix_ok db' \<and> upsert_seen_ok fu'" and other: "\<And>t. t \<noteq> ?t \<Longrightarrow> row_with_path db' t = row_with_path db t"
    using upsert_correct [OF ok a s u] by auto
  obtain e where e: "row_with_path db' ?t = Some e" "same_content e (scanned_record env p md)"
      "fu_scanner fu = None \<longrightarrow> fr_indexed_at e = se_indexed_at env"
      "\<forall>e0. row_with_path db ?t = Some e0 \<longrightarrow> fr_id e = fr_id e0"
      "\<forall>I. seen_exactly fu I \<longrightarrow> seen_exactly fu' (insert (fr_id e) I)"
      "fu_scanner fu' = None \<longleftrightarrow> fu_scanner fu = None"
      "seen_limit_exceeded fu \<longrightarrow> seen_limit_exceeded fu'"
    using upsert_row [OF ok a s u] by auto
  have "ids_of db' (?L (insert p S)) = insert (fr_id e) (ids_of db (?L S))"
    unfolding image_insert by (rule ids_of_update [OF e(1) other e(4)])
  then have seen: "seen_exactly fu' (ids_of db' (?L (insert p S)))"
    using e(5) inv by (simp add: scan_inv_def)
  have row: "row_of_scan env (insert p S) ?t e" using e(2) md by (auto simp: row_of_scan_def)
  have "\<exists>e. row_with_path db' t = Some e \<and> row_of_scan env (insert p S) t e \<and>
      (fu_scanner fu' = None \<longrightarrow> fr_indexed_at e = se_indexed_at env)" if "t \<in> ?L (insert p S)" for t
  proof (cases "t = ?t")
    case True
    show ?thesis unfolding True using e(1,3,6) row by simp
  next
    case False
    then have "t \<in> ?L S" using that by auto
    then obtain x where x: "row_with_path db t = Some x" "row_of_scan env S t x"
        "fu_scanner fu = None \<longrightarrow> fr_indexed_at x = se_indexed_at env"
      using inv unfolding scan_inv_def by blast
    have "row_of_scan env (insert p S) t x" by (rule row_of_scan_mono [OF x(2)]) blast
    then show ?thesis using x(1,3) other [OF False] e(6) by simp
  qed
  moreover have "row_with_path db' t = row_with_path db0 t" if "t \<notin> ?L (insert p S)" for t
  proof -
    have "t \<noteq> ?t" "t \<notin> ?L S" using that by auto
    then show ?thesis using other [of t] inv by (simp add: scan_inv_def)
  qed
  ultimately have "scan_inv env db0 (insert p S) fu' db'"
    using c seen unfolding scan_inv_def by blast
  then show ?thesis using e(6,7) by blast
qed

subsection \<open>The walk keeps the invariant and finds everything\<close>

definition complete :: "scan_state \<Rightarrow> bool" where
  "complete st \<longleftrightarrow> is_warnings (snd (snd st)) = [] \<and> \<not> seen_limit_exceeded (fst st)"

abbreviation inv_of :: "scan_env \<Rightarrow> index_db \<Rightarrow> str set \<Rightarrow> scan_state \<Rightarrow> bool" where
  "inv_of env db0 S st \<equiv> scan_inv env db0 S (fst st) (fst (snd st))"

text \<open>A part of a scan: it visits paths of \<open>F\<close>, and all of them unless it is incomplete.\<close>

definition scans :: "scan_env \<Rightarrow> index_db \<Rightarrow> str set \<Rightarrow> scan_state \<Rightarrow> scan_state \<Rightarrow> bool" where
  "scans env db0 F st st' \<longleftrightarrow>
     (\<forall>S. inv_of env db0 S st \<longrightarrow>
        (\<exists>T \<subseteq> F. inv_of env db0 (S \<union> T) st' \<and> (complete st' \<longrightarrow> T = F))) \<and>
     (complete st' \<longrightarrow> complete st) \<and> (fu_scanner (fst st') = None \<longleftrightarrow> fu_scanner (fst st) = None) \<and>
     is_legacy_fallback (snd (snd st')) = is_legacy_fallback (snd (snd st))"

lemma scans_refl: "(complete st \<Longrightarrow> F = {}) \<Longrightarrow> scans env db0 F st st"
  unfolding scans_def by (metis Un_empty_right empty_subsetI)

lemma scans_trans:
  assumes a: "scans env db0 F1 st st1" and b: "scans env db0 F2 st1 st2"
  shows "scans env db0 (F1 \<union> F2) st st2"
proof -
  have "\<exists>T \<subseteq> F1 \<union> F2. inv_of env db0 (S \<union> T) st2 \<and> (complete st2 \<longrightarrow> T = F1 \<union> F2)" if i: "inv_of env db0 S st" for S
  proof -
    obtain T1 where T1: "T1 \<subseteq> F1" "inv_of env db0 (S \<union> T1) st1" "complete st1 \<longrightarrow> T1 = F1"
      using a i unfolding scans_def by blast
    obtain T2 where T2: "T2 \<subseteq> F2" "inv_of env db0 (S \<union> T1 \<union> T2) st2" "complete st2 \<longrightarrow> T2 = F2"
      using b T1(2) unfolding scans_def by blast
    have "complete st2 \<longrightarrow> complete st1" using b by (simp add: scans_def)
    then show ?thesis using T1 T2 by (intro exI [of _ "T1 \<union> T2"]) (auto simp: Un_assoc)
  qed
  moreover have "complete st2 \<longrightarrow> complete st" "fu_scanner (fst st2) = None \<longleftrightarrow> fu_scanner (fst st) = None"
      "is_legacy_fallback (snd (snd st2)) = is_legacy_fallback (snd (snd st))"
    using a b by (simp_all add: scans_def)
  ultimately show ?thesis unfolding scans_def by simp
qed

lemma scans_mono_incomplete: "scans env db0 F st st' \<Longrightarrow> \<not> complete st' \<Longrightarrow> F \<subseteq> F' \<Longrightarrow> scans env db0 F' st st'"
  unfolding scans_def by (meson order_trans)

lemma complete_warn [simp]: "\<not> complete (warn_state path what st)"
  by (cases st) (simp add: complete_def warn_state_def warn_def)

lemma scans_warn: "scans env db0 F st (warn_state path what st)"
proof -
  have "fst (warn_state path what st) = fst st" "fst (snd (warn_state path what st)) = fst (snd st)"
      "is_legacy_fallback (snd (snd (warn_state path what st))) = is_legacy_fallback (snd (snd st))"
    by (cases st; simp add: warn_state_def warn_def)+
  then show ?thesis unfolding scans_def by (metis Un_empty_right complete_warn empty_subsetI)
qed

lemma scans_upsert:
  assumes a: "alloc_ok (se_alloc env)" and md: "symlink_metadata (se_fs env) p = Inr md"
    and u: "upsert_scanned env p md st = Some st'"
  shows "scans env db0 {p} st st'"
proof -
  obtain fu db s where st: "st = (fu, db, s)" by (cases st)
  obtain ch fu' db' where u': "upsert (se_alloc env) (scanned_record env p md) (fu, db) = Some (ch, fu', db')"
      and st': "fst st' = fu'" "fst (snd st') = db'" "is_warnings (snd (snd st')) = is_warnings s"
      "is_legacy_fallback (snd (snd st')) = is_legacy_fallback s"
    using u st by (auto simp: upsert_scanned_def)
  have "fu_scanner fu' = None \<longleftrightarrow> fu_scanner fu = None" "seen_limit_exceeded fu \<longrightarrow> seen_limit_exceeded fu'"
    if "\<exists>S. scan_inv env db0 S fu db"
    using scan_inv_upsert [OF _ a md u'] that by blast+
  moreover have "fu_scanner fu' = None \<longleftrightarrow> fu_scanner fu = None"
    using u' by (auto simp: upsert_def Let_def split: if_splits option.splits prod.splits)
  moreover have "seen_limit_exceeded fu \<longrightarrow> seen_limit_exceeded fu'"
    using u' by (auto simp: upsert_def Let_def seen_limit_exceeded_def see_def split: if_splits option.splits prod.splits)
  ultimately show ?thesis
    using scan_inv_upsert [OF _ a md u'] st st' unfolding scans_def complete_def
    by (metis Un_insert_right Un_empty_right fst_conv order_refl snd_conv)
qed

lemma scan_found:
  assumes a: "alloc_ok (se_alloc env)"
  shows "scan_path_inner env path depth st = Some st' \<Longrightarrow> scans env db0 (found_in env path) st st'"
    and "scan_entries env path depth entries st = Some st' \<Longrightarrow>
      scans env db0 (\<Union>n \<in> {n. Inr n \<in> set entries}. found_in env (path_join path n)) st st'"
  using a
proof (induction env path depth st and env path depth entries st arbitrary: st' and st'
    rule: scan_path_inner_scan_entries.induct)
  case (1 env path depth st)
  show ?case
  proof (cases "max_scan_depth < depth")
    case True
    then have "st' = warn_state path ''exceeded max depth 256'' st" using "1.prems"(1) by (simp add: scan_path_inner.simps)
    then show ?thesis using scans_warn by simp
  next
    case deep: False
    show ?thesis
    proof (cases "is_excluded (se_excludes env) path")
      case True
      then have "st' = st" "found_in env path = {}"
        using "1.prems"(1) deep by (auto simp: scan_path_inner.simps found_iff [of _ _ path])
      then show ?thesis using scans_refl by simp
    next
      case incl: False
      show ?thesis
      proof (cases "symlink_metadata (se_fs env) path")
        case (Inl err)
        then have "st' = warn_state path (snd err) st"
          using "1.prems"(1) deep incl by (simp add: scan_path_inner.simps)
        then show ?thesis using scans_warn by simp
      next
        case (Inr md)
        obtain st1 where st1: "upsert_scanned env path md st = Some st1"
          using "1.prems"(1) deep incl Inr by (auto simp: scan_path_inner.simps split: option.splits)
        note up = scans_upsert [OF "1.prems"(2) Inr st1]
        show ?thesis
        proof (cases "is_directory path md")
          case False
          then have "st' = st1" "found_in env path = {path}"
            using "1.prems"(1) deep incl Inr st1
            by (auto simp: scan_path_inner.simps found_iff [of _ _ path])
          then show ?thesis using up by simp
        next
          case dir: True
          show ?thesis
          proof (cases "read_dir (se_fs env) path")
            case err: (Inl err)
            then have "st' = warn_state path (snd err) st1"
              using "1.prems"(1) deep incl Inr st1 dir by (simp add: scan_path_inner.simps)
            moreover have "{path} \<union> found_in env path = found_in env path"
              using incl Inr by (auto intro: found_here)
            ultimately show ?thesis using scans_trans [OF up scans_warn] by metis
          next
            case es: (Inr entries)
            have rec: "scan_entries env path depth entries st1 = Some st'"
              using "1.prems"(1) deep incl Inr st1 dir es by (simp add: scan_path_inner.simps)
            have "scans env db0 (\<Union>n \<in> {n. Inr n \<in> set entries}. found_in env (path_join path n)) st1 st'"
              using "1.IH" deep incl Inr st1 dir es rec "1.prems"(2) by blast
            moreover have "{path} \<union> (\<Union>n \<in> {n. Inr n \<in> set entries}. found_in env (path_join path n)) = found_in env path"
              using incl Inr dir es by (auto simp: found_iff [of _ _ path])
            ultimately show ?thesis using scans_trans [OF up] by metis
          qed
        qed
      qed
    qed
  qed
next
  case (2 env path depth st)
  then show ?case using scans_refl by simp
next
  case (3 env path depth entry entries st)
  show ?case
  proof (cases "seen_limit_exceeded (fst st)")
    case True
    then have "st' = st" "\<not> complete st" using "3.prems"(1) by (simp_all add: complete_def)
    then show ?thesis using scans_refl by blast
  next
    case False
    show ?thesis
    proof (cases entry)
      case (Inl err)
      then have "scan_entries env path depth entries (warn_state path (snd err) st) = Some st'"
        using "3.prems"(1) False by simp
      then have "scans env db0 (\<Union>n \<in> {n. Inr n \<in> set entries}. found_in env (path_join path n)) (warn_state path (snd err) st) st'"
        using "3.IH"(1) [OF False Inl] "3.prems"(2) by blast
      moreover have "{n. Inr n \<in> set (entry # entries)} = {n. Inr n \<in> set entries}" using Inl by simp
      ultimately show ?thesis using scans_trans [OF scans_warn [of env db0 "{}"]] by simp
    next
      case (Inr name)
      obtain st1 where st1: "scan_path_inner env (path_join path name) (depth + 1) st = Some st1"
          "scan_entries env path depth entries st1 = Some st'"
        using "3.prems"(1) False Inr by (auto split: option.splits)
      have here: "scans env db0 (found_in env (path_join path name)) st st1"
        using "3.IH"(2) [OF False Inr] st1(1) "3.prems"(2) by blast
      have rest: "scans env db0 (\<Union>n \<in> {n. Inr n \<in> set entries}. found_in env (path_join path n)) st1 st'"
        using "3.IH"(3) [OF False Inr] st1 "3.prems"(2) by blast
      have "(\<Union>n \<in> {n. Inr n \<in> set (entry # entries)}. found_in env (path_join path n)) =
          found_in env (path_join path name) \<union> (\<Union>n \<in> {n. Inr n \<in> set entries}. found_in env (path_join path n))"
        using Inr by auto
      then show ?thesis using scans_trans [OF here rest] by (simp only:)
    qed
  qed
qed

abbreviation found_under :: "scan_env \<Rightarrow> str list \<Rightarrow> str set" where
  "found_under env roots \<equiv> (\<Union>root \<in> set roots. found_in env root)"

lemma scan_path_found:
  assumes "alloc_ok (se_alloc env)" and "scan_path env path st = Some st'"
  shows "scans env db0 (found_in env path) st st'"
proof (cases "seen_limit_exceeded (fst st)")
  case True
  then have "st' = st" "\<not> complete st" using assms(2) by (simp_all add: scan_path_def complete_def)
  then show ?thesis using scans_refl by blast
next
  case False
  then show ?thesis using assms scan_found(1) by (simp add: scan_path_def)
qed

lemma scan_roots_found:
  assumes a: "alloc_ok (se_alloc env)"
  shows "scan_roots env roots st = Some st' \<Longrightarrow> scans env db0 (found_under env roots) st st'"
proof (induction roots arbitrary: st)
  case (Cons root roots)
  obtain st1 where st1: "scan_path env root st = Some st1" using Cons.prems by (auto split: option.splits)
  note here = scan_path_found [OF a st1, of db0]
  show ?case
  proof (cases "seen_limit_exceeded (fst st1)")
    case True
    then have "st' = st1" "\<not> complete st'" using Cons.prems st1 by (simp_all add: complete_def)
    then show ?thesis using scans_mono_incomplete here by fastforce
  next
    case False
    then have "scans env db0 (found_under env roots) st1 st'" using Cons st1 by simp
    then show ?thesis using scans_trans [OF here] by simp
  qed
qed (simp add: scans_refl)

lemma scan_all_found:
  assumes a: "alloc_ok (se_alloc env)"
  shows "scan_all env roots st = Some st' \<Longrightarrow> scans env db0 (found_under env roots) st st'"
proof (induction roots arbitrary: st)
  case (Cons root roots)
  obtain st1 where st1: "scan_path env root st = Some st1" "scan_all env roots st1 = Some st'"
    using Cons.prems by (auto split: option.splits)
  have "scans env db0 (found_under env roots) st1 st'" by (rule Cons.IH [OF st1(2)])
  then show ?case using scans_trans [OF scan_path_found [OF a st1(1)]] by simp
qed (simp add: scans_refl)

lemma scan_inv_start:
  "ix_ok db \<Longrightarrow> scan_inv env db {} (prepare_refresh_upsert exact_pages) db"
  by (cases exact_pages)
     (simp_all add: scan_inv_def prepare_refresh_upsert_def prepare_scanner_upsert_def prepare_file_upsert_def
        upsert_seen_ok_def seen_exactly_def ids_of_def seen_ok_def seen_new_def seen_contains_def)

subsection \<open>The clean-up after a complete scan\<close>

definition in_texts :: "str list \<Rightarrow> str \<Rightarrow> bool" where
  "in_texts texts t \<longleftrightarrow> (\<exists>root \<in> set texts. \<exists>b. path_prefix_bounds root = Some b \<and> in_scope b t)"

lemma in_texts_simps:
  "\<not> in_texts [] t"
  "path_prefix_bounds root = None \<Longrightarrow> in_texts (root # texts) t \<longleftrightarrow> in_texts texts t"
  "path_prefix_bounds root = Some b \<Longrightarrow> in_texts (root # texts) t \<longleftrightarrow> in_scope b t \<or> in_texts texts t"
  unfolding in_texts_def by (simp_all del: split_paired_Ex)

lemma delete_unseen_roots:
  "ix_ok db \<Longrightarrow> delete_unseen_under_roots texts seen db = Some (n, db') \<Longrightarrow>
     ix_files db' = filter (\<lambda>r. in_texts texts (fr_path r) \<longrightarrow> seen_contains seen (fr_id r)) (ix_files db)"
proof (induction texts arbitrary: db n)
  case (Cons root texts)
  show ?case
  proof (cases "path_prefix_bounds root")
    case None
    then show ?thesis using Cons by (simp add: in_texts_simps)
  next
    case (Some b)
    obtain m db1 k where d: "delete_unseen_pages seen b (fst b) True 0 db = (m, db1)"
        "delete_unseen_under_roots texts seen db1 = Some (k, db')"
      using Cons.prems(2) Some by (auto split: if_splits prod.splits)
    note f = delete_unseen_root(1) [OF Cons.prems(1) Some d(1)]
    have "ix_ok db1" by (rule filter_ok [OF Cons.prems(1) f])
    then show ?thesis
      using Cons.IH [OF _ d(2)] f Some by (auto simp: in_texts_simps intro!: filter_cong)
  qed
qed (simp add: in_texts_simps)

lemma delete_stale_roots:
  "ix_ok db \<Longrightarrow> delete_stale_under_roots texts g db = Some (n, db') \<Longrightarrow>
     ix_files db' = filter (\<lambda>r. in_texts texts (fr_path r) \<longrightarrow> \<not> fr_indexed_at r < g) (ix_files db)"
proof (induction texts arbitrary: db n)
  case (Cons root texts)
  show ?case
  proof (cases "path_prefix_bounds root")
    case None
    then show ?thesis using Cons by (simp add: in_texts_simps)
  next
    case (Some b)
    define P where "P = (\<lambda>r :: file_record. fr_indexed_at r < g \<and> in_scope b (fr_path r))"
    obtain k where d: "delete_stale_under_roots texts g (snd (delete_where P db)) = Some (k, db')"
      using Cons.prems(2) Some by (auto simp: P_def split: if_splits prod.splits)
    note f = delete_where_files [OF Cons.prems(1), of P]
    have "ix_ok (snd (delete_where P db))" by (rule filter_ok [OF Cons.prems(1) f])
    then show ?thesis
      using Cons.IH [OF _ d] f Some by (auto simp: in_texts_simps P_def intro!: filter_cong)
  qed
qed (simp add: in_texts_simps)

lemma row_after_filter:
  assumes ok: "ix_ok db" and f: "ix_files db' = filter P (ix_files db)"
  shows "row_with_path db' t = (case row_with_path db t of Some e \<Rightarrow> if P e then Some e else None | None \<Rightarrow> None)"
proof (cases "row_with_path db t")
  case None
  then have "row_with_path db' t = None" using f by (auto simp: row_with_path_None)
  then show ?thesis using None by simp
next
  case (Some e)
  then have e: "e \<in> set (ix_files db)" "fr_path e = t" by (simp_all add: row_with_path_Some [OF ok])
  have ok': "ix_ok db'" by (rule filter_ok [OF ok f])
  have only: "x = e" if "x \<in> set (ix_files db)" "fr_path x = t" for x
    using row_with_path_Some [OF ok, of t x] that Some by simp
  show ?thesis
  proof (cases "P e")
    case True
    then show ?thesis using Some e f by (simp add: row_with_path_Some [OF ok'])
  next
    case False
    then have "row_with_path db' t = None" using only f by (auto simp: row_with_path_None)
    then show ?thesis using False Some by simp
  qed
qed

text \<open>
  The index mirrors the tree below the roots: a text has a row when it is the text of a path
  that was found, with what was found; other texts in the scope of a root have no row; the rows
  outside are those of the index before.
\<close>

definition mirrors :: "scan_env \<Rightarrow> str list \<Rightarrow> index_db \<Rightarrow> index_db \<Rightarrow> bool" where
  "mirrors env roots db0 db \<longleftrightarrow>
     (\<forall>t. if t \<in> to_string_lossy ` found_under env roots
          then \<exists>e. row_with_path db t = Some e \<and> row_of_scan env (found_under env roots) t e
          else row_with_path db t = (if in_texts (map to_string_lossy roots) t then None else row_with_path db0 t))"

lemma mirrors_cleanup:
  assumes inv: "scan_inv env db0 (found_under env roots) fu db1"
    and f: "ix_files db2 = filter (\<lambda>r. in_texts (map to_string_lossy roots) (fr_path r) \<longrightarrow> keep r) (ix_files db1)"
    and keep: "\<And>t e. row_with_path db1 t = Some e \<Longrightarrow> keep e \<longleftrightarrow> t \<in> to_string_lossy ` found_under env roots"
  shows "mirrors env roots db0 db2 \<and> ix_ok db2"
proof -
  let ?F = "to_string_lossy ` found_under env roots"
  have ok: "ix_ok db1" using inv by (simp add: scan_inv_def)
  note row = row_after_filter [OF ok f]
  have "if t \<in> ?F then \<exists>e. row_with_path db2 t = Some e \<and> row_of_scan env (found_under env roots) t e
      else row_with_path db2 t = (if in_texts (map to_string_lossy roots) t then None else row_with_path db0 t)" for t
  proof (cases "t \<in> ?F")
    case True
    then obtain e where e: "row_with_path db1 t = Some e" "row_of_scan env (found_under env roots) t e"
      using inv unfolding scan_inv_def by blast
    then have "row_with_path db2 t = Some e" using row [of t] keep [OF e(1)] True by simp
    then show ?thesis using True e(2) by simp
  next
    case False
    then have "row_with_path db1 t = row_with_path db0 t" using inv by (simp add: scan_inv_def)
    moreover have "row_with_path db2 t = (if in_texts (map to_string_lossy roots) t then None else row_with_path db1 t)"
    proof (cases "row_with_path db1 t")
      case (Some e)
      then show ?thesis using row [of t] keep [OF Some] False row_with_path_of [OF ok Some] by simp
    qed (use row [of t] in simp)
    ultimately show ?thesis using False by simp
  qed
  then show ?thesis unfolding mirrors_def using filter_ok [OF ok f] by blast
qed

subsection \<open>The bodies\<close>

lemma env_of_simps [simp]:
  "se_alloc (env_of req excludes) = sr_alloc req"
  "se_indexed_at (env_of req excludes) = sr_generation req"
  by (simp_all add: env_of_def)

lemma set_meta_files: "set_meta k v db = Some db' \<Longrightarrow> ix_files db' = ix_files db"
  by (auto simp: set_meta_def split: if_splits)

lemma cleanup_stale_cases:
  assumes "cleanup_stale_if_complete db roots g s = Some (db', s')" and "ix_ok db"
  shows "is_legacy_fallback s' = is_legacy_fallback s"
    and "is_warnings s' = [] \<longleftrightarrow> is_warnings s = []"
    and "is_warnings s \<noteq> [] \<Longrightarrow> db' = db"
    and "is_warnings s = [] \<Longrightarrow> ix_files db' =
      filter (\<lambda>r. in_texts (map to_string_lossy roots) (fr_path r) \<longrightarrow> \<not> fr_indexed_at r < g) (ix_files db)"
  using assms delete_stale_roots [OF assms(2)]
  by (auto simp: cleanup_stale_if_complete_def split: if_splits)

lemma stamped_rows:
  assumes inv: "scan_inv env db0 S fu db1" and "fu_scanner fu = None"
    and older: "\<forall>r \<in> set (ix_files db0). fr_indexed_at r < se_indexed_at env"
    and ok0: "ix_ok db0" and row: "row_with_path db1 t = Some e"
  shows "\<not> fr_indexed_at e < se_indexed_at env \<longleftrightarrow> t \<in> to_string_lossy ` S"
proof (cases "t \<in> to_string_lossy ` S")
  case True
  then show ?thesis using inv row assms(2) unfolding scan_inv_def by (metis less_irrefl option.inject)
next
  case False
  then have "row_with_path db0 t = Some e" using inv row by (simp add: scan_inv_def)
  then have "e \<in> set (ix_files db0)" by (simp add: row_with_path_Some [OF ok0])
  then show ?thesis using older False by simp
qed

lemma seen_rows:
  assumes inv: "scan_inv env db0 S fu db1" and "fu_scanner fu = Some s" and "\<not> su_exceeded s"
    and row: "row_with_path db1 t = Some e"
  shows "seen_contains (su_seen s) (fr_id e) \<longleftrightarrow> t \<in> to_string_lossy ` S"
proof -
  have ok: "ix_ok db1" using inv by (simp add: scan_inv_def)
  have "seen_contains (su_seen s) (fr_id e) \<longleftrightarrow> fr_id e \<in> ids_of db1 (to_string_lossy ` S)"
    using inv assms(2,3) by (simp add: scan_inv_def seen_exactly_def)
  also have "\<dots> \<longleftrightarrow> t \<in> to_string_lossy ` S"
  proof
    assume "fr_id e \<in> ids_of db1 (to_string_lossy ` S)"
    then obtain u x where u: "u \<in> to_string_lossy ` S" "row_with_path db1 u = Some x" "fr_id x = fr_id e"
      unfolding ids_of_def by blast
    then have "x = e" using row ok by (simp add: row_with_path_Some [OF ok]) (metis ix_ok_def distinct_map inj_on_def)
    then show "t \<in> to_string_lossy ` S"
      using u(1) row_with_path_of [OF ok row] row_with_path_of [OF ok u(2)] by simp
  qed (use row in \<open>auto simp: ids_of_def\<close>)
  finally show ?thesis .
qed

definition keeps_rows :: "index_db \<Rightarrow> index_db \<Rightarrow> bool" where
  "keeps_rows db db' \<longleftrightarrow> (\<forall>t. row_with_path db t \<noteq> None \<longrightarrow> row_with_path db' t \<noteq> None)"

lemma scan_keeps_rows: "scan_inv env db0 S fu db \<Longrightarrow> keeps_rows db0 db"
  unfolding scan_inv_def keeps_rows_def by (metis option.distinct(1))

lemma keeps_rows_files: "keeps_rows db db1 \<Longrightarrow> ix_files db2 = ix_files db1 \<Longrightarrow> keeps_rows db db2"
  by (simp add: keeps_rows_def row_with_path_def)

lemma cleanup_mirrors:
  assumes ok: "ix_ok db" and T: "scan_inv env db T fu db1" "complete (fu, db1, s1) \<longrightarrow> T = found_under env roots"
    and g: "se_indexed_at env = g"
    and older: "fu_scanner fu = None \<Longrightarrow> is_warnings s = [] \<Longrightarrow> \<forall>r \<in> set (ix_files db). fr_indexed_at r < g"
    and nofb: "fu_scanner fu \<noteq> None \<Longrightarrow> \<not> seen_limit_exceeded fu \<and> is_warnings s1 = []"
    and res: "(case into_seen_ids fu of
        Some seen \<Rightarrow> map_option (\<lambda>(n, db2). (db2, s1\<lparr>is_deleted := is_deleted s1 + n\<rparr>))
          (delete_unseen_under_roots (map to_string_lossy roots) seen db1)
      | None \<Rightarrow> cleanup_stale_if_complete db1 roots g s1) = Some (db2, s)"
  shows "ix_ok db2 \<and> (is_warnings s = [] \<longrightarrow> mirrors env roots db db2) \<and>
    is_legacy_fallback s = is_legacy_fallback s1 \<and> (is_warnings s \<noteq> [] \<longrightarrow> keeps_rows db db2)"
proof (cases "fu_scanner fu")
  case None
  have ok1: "ix_ok db1" using T(1) by (simp add: scan_inv_def)
  have cl: "cleanup_stale_if_complete db1 roots g s1 = Some (db2, s)"
    using res None by (simp add: into_seen_ids_def)
  note cl_facts = cleanup_stale_cases [OF cl ok1]
  show ?thesis
  proof (cases "is_warnings s1 = []")
    case True
    then have "complete (fu, db1, s1)" using None by (simp add: complete_def seen_limit_exceeded_def)
    then have inv: "scan_inv env db (found_under env roots) fu db1" using T by simp
    show ?thesis
      using mirrors_cleanup [OF inv cl_facts(4) [OF True]] stamped_rows [OF inv None _ ok] older [OF None] g cl_facts(1,2) True
      by simp
  next
    case False
    then have "db2 = db1" using cl_facts(3) by simp
    then show ?thesis using False cl_facts(1,2) ok1 scan_keeps_rows [OF T(1)] by simp
  qed
next
  case (Some sc)
  have ok1: "ix_ok db1" using T(1) by (simp add: scan_inv_def)
  obtain n where d: "delete_unseen_under_roots (map to_string_lossy roots) (su_seen sc) db1 = Some (n, db2)"
      "is_warnings s = is_warnings s1" "is_legacy_fallback s = is_legacy_fallback s1"
    using res Some by (auto simp: into_seen_ids_def)
  have notex: "\<not> su_exceeded sc" and nowarn: "is_warnings s1 = []"
    using nofb Some by (auto simp: seen_limit_exceeded_def)
  then have "complete (fu, db1, s1)" using Some by (simp add: complete_def seen_limit_exceeded_def)
  then have inv: "scan_inv env db (found_under env roots) fu db1" using T by simp
  show ?thesis
    using mirrors_cleanup [OF inv delete_unseen_roots [OF ok1 d(1)]] seen_rows [OF inv Some notex] d(2,3) nowarn by simp
qed

lemma scans_start:
  assumes sc: "scans env db F (prepare_refresh_upsert exact_pages, db, summary_default) (fu, db1, s1)" and ok: "ix_ok db"
  shows "\<exists>T. scan_inv env db T fu db1 \<and> (complete (fu, db1, s1) \<longrightarrow> T = F)"
    and "fu_scanner fu = None \<longleftrightarrow> exact_pages = None" and "\<not> is_legacy_fallback s1"
proof -
  show "fu_scanner fu = None \<longleftrightarrow> exact_pages = None" and "\<not> is_legacy_fallback s1"
    using sc by (auto simp: scans_def prepare_refresh_upsert_def prepare_scanner_upsert_def prepare_file_upsert_def
        summary_default_def split: option.splits)
  show "\<exists>T. scan_inv env db T fu db1 \<and> (complete (fu, db1, s1) \<longrightarrow> T = F)"
    using sc scan_inv_start [OF ok, of env exact_pages] unfolding scans_def by fastforce
qed

lemma refresh_roots_body_mirrors:
  assumes ok: "ix_ok db" and a: "alloc_ok (sr_alloc req)"
    and body: "refresh_roots_body req roots excludes exact_pages db = Some (db', False, s)"
    and older: "exact_pages = None \<Longrightarrow> is_warnings s = [] \<Longrightarrow> \<forall>r \<in> set (ix_files db). fr_indexed_at r < sr_generation req"
  shows "ix_ok db' \<and> (is_warnings s = [] \<longrightarrow> mirrors (env_of req excludes) roots db db') \<and> \<not> is_legacy_fallback s \<and>
    (is_warnings s \<noteq> [] \<longrightarrow> keeps_rows db db')"
proof -
  let ?env = "env_of req excludes"
  obtain fu db1 s1 where scan: "scan_roots ?env roots (prepare_refresh_upsert exact_pages, db, summary_default) = Some (fu, db1, s1)"
      and nofb: "\<not> (exact_pages \<noteq> None \<and> (seen_limit_exceeded fu \<or> is_warnings s1 \<noteq> []))"
    using body by (auto simp: refresh_roots_body_def split: option.splits if_splits)
  have sc: "scans ?env db (found_under ?env roots) (prepare_refresh_upsert exact_pages, db, summary_default) (fu, db1, s1)"
    by (rule scan_roots_found [OF _ scan]) (simp add: a)
  obtain T where T: "scan_inv ?env db T fu db1" "complete (fu, db1, s1) \<longrightarrow> T = found_under ?env roots"
    using scans_start(1) [OF sc ok] by (elim exE conjE)
  note none = scans_start(2) [OF sc ok] and lf = scans_start(3) [OF sc ok]
  obtain db2 where res: "(case into_seen_ids fu of
        Some seen \<Rightarrow> map_option (\<lambda>(n, db2). (db2, s1\<lparr>is_deleted := is_deleted s1 + n\<rparr>))
          (delete_unseen_under_roots (map to_string_lossy roots) seen db1)
      | None \<Rightarrow> cleanup_stale_if_complete db1 roots (sr_generation req) s1) = Some (db2, s)"
      and meta: "set_meta ''last_indexed_at'' (sr_now req) db2 = Some db'"
    using body scan nofb by (auto simp: refresh_roots_body_def split: option.splits)
  have f: "ix_files db' = ix_files db2" by (rule set_meta_files [OF meta])
  have "mirrors ?env roots db db2 \<longleftrightarrow> mirrors ?env roots db db'" "ix_ok db2 \<longleftrightarrow> ix_ok db'"
      "keeps_rows db db2 \<longleftrightarrow> keeps_rows db db'"
    by (simp_all add: mirrors_def ix_ok_def keeps_rows_def row_with_path_def f)
  then show ?thesis
    using cleanup_mirrors [OF ok T _ _ _ res] older none nofb lf by auto
qed

subsection \<open>Transactions\<close>

lemma begin_rollback: "begin_write c = Some c1 \<Longrightarrow> rollback (c1\<lparr>cn_db := db\<rparr>) = Some c"
  by (auto simp: begin_write_def rollback_def split: if_splits)

lemma begin_rollback_same: "begin_write c = Some c1 \<Longrightarrow> rollback c1 = Some c"
  by (auto simp: begin_write_def rollback_def split: if_splits)

lemma begin_write_Some: "begin_write c = Some c1 \<Longrightarrow> cn_db c1 = cn_db c \<and> cn_saved c1 = Some (cn_db c) \<and> cn_saved c = None"
  by (auto simp: begin_write_def split: if_splits)

lemma finish_write_cases:
  assumes "begin_write c = Some c1" and "finish_write cc ok (c1\<lparr>cn_db := db\<rparr>) = (done', c2)"
  shows "done' \<and> ok \<and> cn_db c2 = db \<and> cn_saved c2 = None \<or> \<not> done' \<and> c2 = c"
  using assms begin_rollback [OF assms(1)] begin_write_Some [OF assms(1)]
  by (auto simp: finish_write_def commit_def split: if_splits)

lemma finish_write_failed:
  assumes "begin_write c = Some c1" shows "snd (finish_write cc False c1) = c"
  by (simp add: finish_write_def begin_rollback_same [OF assms])

text \<open>A write either fails and leaves the connection as it was, or commits what its body made.\<close>

lemma with_write_cases:
  assumes "with_write cc body c = (res, c')"
  obtains (failed) "res = None" "c' = c"
  | (committed) x db where "res = Some x" "body (cn_db c) = Some (db, x)" "cn_db c' = db" "cn_saved c' = None"
proof (cases "begin_write c")
  case None
  then show ?thesis using assms failed by (simp add: with_write_def)
next
  case (Some c1)
  note db1 = begin_write_Some [OF Some]
  show ?thesis
  proof (cases "body (cn_db c)")
    case None
    then show ?thesis
      using assms Some db1 finish_write_failed [OF Some] failed by (simp add: with_write_def)
  next
    case body: (Some r)
    obtain db x where r: "r = (db, x)" by fastforce
    obtain d c2 where f: "finish_write cc True (c1\<lparr>cn_db := db\<rparr>) = (d, c2)" by fastforce
    show ?thesis
      using finish_write_cases [OF Some f] assms Some db1 body r f failed committed
      by (cases d) (auto simp: with_write_def)
  qed
qed

lemma with_fallback_cases:
  assumes "with_fallback cc body legacy c = (res, c')"
  obtains (failed) "res = None" "c' = c"
  | (committed) s db where "res = Some s" "body (cn_db c) = Some (db, False, s)" "cn_db c' = db" "cn_saved c' = None"
  | (fell_back) s db res1 where "body (cn_db c) = Some (db, True, s)" "legacy c = (res1, c')"
      "res = map_option (\<lambda>s. s\<lparr>is_legacy_fallback := True\<rparr>) res1"
proof (cases "begin_write c")
  case None
  then show ?thesis using assms failed by (simp add: with_fallback_def)
next
  case (Some c1)
  note db1 = begin_write_Some [OF Some]
  show ?thesis
  proof (cases "body (cn_db c)")
    case None
    then show ?thesis
      using assms Some db1 finish_write_failed [OF Some] failed by (simp add: with_fallback_def)
  next
    case body: (Some r)
    obtain db fb s where r: "r = (db, fb, s)" by (cases r)
    show ?thesis
    proof (cases fb)
      case True
      then show ?thesis
        using assms Some db1 body r begin_rollback [OF Some] fell_back
        by (cases "legacy c") (auto simp: with_fallback_def)
    next
      case False
      obtain d c2 where f: "finish_write cc True (c1\<lparr>cn_db := db\<rparr>) = (d, c2)" by fastforce
      show ?thesis
        using finish_write_cases [OF Some f] assms Some db1 body r f False failed committed
        by (cases d) (auto simp: with_fallback_def)
    qed
  qed
qed

text \<open>The rows that a scan with generations may delete are older than it.\<close>

definition older_rows :: "index_db \<Rightarrow> i64 \<Rightarrow> bool" where
  "older_rows db g \<longleftrightarrow> (\<forall>r \<in> set (ix_files db). fr_indexed_at r < g)"

lemma refresh_roots_outcome:
  assumes "ix_ok (cn_db c)" and "alloc_ok (sr_alloc req)" and "alloc_ok (sr_alloc again)"
    and "is_legacy_fallback summary \<Longrightarrow> is_warnings summary = [] \<Longrightarrow> older_rows (cn_db c) (sr_generation again)"
    and "refresh_roots req again roots excludes c = (Some summary, c')"
  shows "(is_warnings summary = [] \<longrightarrow>
      mirrors (env_of (if is_legacy_fallback summary then again else req) excludes) roots (cn_db c) (cn_db c')) \<and>
    (is_warnings summary \<noteq> [] \<longrightarrow> keeps_rows (cn_db c) (cn_db c')) \<and> ix_ok (cn_db c') \<and> cn_saved c' = None"
proof -
  have run: "with_fallback (sr_can_commit req) (refresh_roots_body req roots excludes (Some scanner_seen_max_pages))
      (refresh_roots_legacy again roots excludes) c = (Some summary, c')"
    using assms(5) by (simp add: refresh_roots_def refresh_roots_with_budget_def)
  then show ?thesis
  proof (cases rule: with_fallback_cases)
    case (committed s db)
    then show ?thesis using refresh_roots_body_mirrors [OF assms(1,2) committed(2)] by simp
  next
    case (fell_back s db res1)
    then obtain s1 where s1: "refresh_roots_legacy again roots excludes c = (Some s1, c')"
        "summary = s1\<lparr>is_legacy_fallback := True\<rparr>" by (cases res1) auto
    from s1(1) [unfolded refresh_roots_legacy_def] show ?thesis
    proof (cases rule: with_write_cases)
      case (committed x db)
      then obtain fb where b: "refresh_roots_body again roots excludes None (cn_db c) = Some (db, fb, s1)" by auto
      then have "\<not> fb" by (auto simp: refresh_roots_body_def split: option.splits if_splits)
      then show ?thesis
        using refresh_roots_body_mirrors [OF assms(1,3), of roots excludes None db s1] b assms(4) committed s1(2) by (simp add: older_rows_def)
    qed simp
  qed simp
qed

text \<open>C1: A refresh that reports no warning leaves the index as the mirror of the tree: below the roots
  the rows are exactly those of the paths found (not excluded, reached through directories only)
  with what was read from the file system, and the rows elsewhere are untouched. When the refresh
  kept a set of seen ids, this holds whatever the rows say of their generations; when it had to fall
  back to generations, it holds if the stored rows are older than the generation of that scan.\<close>

theorem refresh_roots_mirrors:
  assumes "ix_ok (cn_db c)" and "alloc_ok (sr_alloc req)" and "alloc_ok (sr_alloc again)"
    and "is_legacy_fallback summary \<Longrightarrow> older_rows (cn_db c) (sr_generation again)"
    and "refresh_roots req again roots excludes c = (Some summary, c')" and "is_warnings summary = []"
  shows "mirrors (env_of (if is_legacy_fallback summary then again else req) excludes) roots (cn_db c) (cn_db c') \<and>
    ix_ok (cn_db c') \<and> cn_saved c' = None"
  using refresh_roots_outcome [OF assms(1-3) assms(4) assms(5)] assms(6) by simp

definition example_fs :: fs_view where
  "example_fs =
     \<lparr>symlink_metadata = (\<lambda>p.
        if p = ''/r'' then Inr \<lparr>md_type = IsDir, md_len = 0, md_mtime = 1, md_ctime = 1, md_dev = 1, md_ino = 2\<rparr>
        else if p = ''/r/a.txt'' then Inr \<lparr>md_type = IsFile, md_len = 5, md_mtime = 1, md_ctime = 1, md_dev = 1, md_ino = 3\<rparr>
        else Inl (NotFound, ''No such file'')),
      read_dir = (\<lambda>p. if p = ''/r'' then Inr [Inr ''a.txt'', Inr ''skip''] else Inl (OtherError, ''denied''))\<rparr>"

definition example_request :: scan_request where
  "example_request =
     \<lparr>sr_lower = id, sr_alloc = example_alloc, sr_fs = example_fs, sr_generation = 7, sr_now = ''1'',
      sr_can_commit = (\<lambda>_. True)\<rparr>"

definition example_connection :: connection where
  "example_connection = \<lparr>cn_db = empty_db\<lparr>ix_files := [(file_record_new id ''/r/old'' File 0)\<lparr>fr_id := 2\<rparr>]\<rparr>, cn_saved = None\<rparr>"

lemma example_ok:
  "ix_ok (cn_db example_connection)" "alloc_ok (sr_alloc example_request)"
  "\<forall>r \<in> set (ix_files (cn_db example_connection)). fr_indexed_at r < sr_generation example_request"
  by (simp_all add: ix_ok_def example_connection_def example_request_def example_alloc_ok file_record_new_def Let_def)

lemma example_older: "older_rows (cn_db example_connection) (sr_generation example_request)"
  using example_ok(3) by (simp add: older_rows_def)

theorem refresh_roots_mirrors_witness:
  "mirrors (env_of example_request [''skip'']) [''/r''] (cn_db example_connection)
     (cn_db (snd (refresh_roots example_request example_request [''/r''] [''skip''] example_connection)))"
proof -
  let ?run = "refresh_roots example_request example_request [''/r''] [''skip''] example_connection"
  have "case ?run of (Some s, c) \<Rightarrow> is_warnings s = [] \<and> \<not> is_legacy_fallback s | _ \<Rightarrow> False" by code_simp
  then obtain s c' where r: "?run = (Some s, c')" "is_warnings s = []" "\<not> is_legacy_fallback s"
    by (auto split: prod.splits option.splits)
  show ?thesis
    using refresh_roots_mirrors [OF example_ok(1,2,2) example_older r(1,2)] r by simp
qed

text \<open>C3: A refresh that could not read everything (an unreadable directory, a tree deeper than 256, a
  file that vanished under the scan) deletes no row: whatever had a row before still has one.\<close>

theorem incomplete_refresh_keeps_rows:
  assumes "ix_ok (cn_db c)" and "alloc_ok (sr_alloc req)" and "alloc_ok (sr_alloc again)"
    and "refresh_roots req again roots excludes c = (Some summary, c')" and "is_warnings summary \<noteq> []"
    and "row_with_path (cn_db c) t = Some e"
  shows "row_with_path (cn_db c') t \<noteq> None"
  using refresh_roots_outcome [OF assms(1-3) _ assms(4)] assms(5,6) by (simp add: keeps_rows_def)

theorem incomplete_refresh_keeps_rows_witness:
  "row_with_path (cn_db (snd (refresh_roots example_request example_request [''/r'', ''/gone''] [] example_connection))) ''/r/old'' \<noteq> None"
proof -
  let ?run = "refresh_roots example_request example_request [''/r'', ''/gone''] [] example_connection"
  have "case ?run of (Some s, c) \<Rightarrow> is_warnings s \<noteq> [] | _ \<Rightarrow> False" by code_simp
  then obtain s c' where r: "?run = (Some s, c')" "is_warnings s \<noteq> []"
    by (auto split: prod.splits option.splits)
  have "row_with_path (cn_db example_connection) ''/r/old'' \<noteq> None" by code_simp
  then obtain e where "row_with_path (cn_db example_connection) ''/r/old'' = Some e" by blast
  then show ?thesis using incomplete_refresh_keeps_rows [OF example_ok(1,2,2) r] r(1) by simp
qed

lemma with_write_failed: "with_write cc body c = (None, c') \<Longrightarrow> c' = c"
  by (erule with_write_cases) simp_all

lemma with_fallback_failed:
  assumes "with_fallback cc body legacy c = (None, c')" and "\<And>c'. legacy c = (None, c') \<Longrightarrow> c' = c"
  shows "c' = c"
  using assms(1)
proof (cases rule: with_fallback_cases)
  case (fell_back s db res1)
  then show ?thesis using assms(2) by (cases res1) auto
qed simp_all

lemma refresh_path_attempt_failed:
  assumes "refresh_path_attempt req path excludes body c = (None, c')"
    and "\<And>md c'. body md c = (None, c') \<Longrightarrow> c' = c"
  shows "c' = c"
  using assms by (auto simp: refresh_path_attempt_def split: if_splits sum.splits io_kind.splits)

text \<open>C2: A refresh that fails, at any point and for any reason the program sees (a text SQLite cannot
  bind, a failed \<open>COMMIT\<close>, a transaction already open, an unreadable path), leaves the
  connection and its rows exactly as they were, also when it fails after the fallback.\<close>

theorem failed_refresh_changes_nothing:
  "(refresh_roots req again roots excludes c = (None, c') \<longrightarrow> c' = c) \<and>
   (refresh_path req again path excludes c = (None, c') \<longrightarrow> c' = c)"
proof (intro conjI impI)
  assume "refresh_roots req again roots excludes c = (None, c')"
  then show "c' = c"
    unfolding refresh_roots_def refresh_roots_with_budget_def
    by (rule with_fallback_failed) (unfold refresh_roots_legacy_def, rule with_write_failed)
next
  assume "refresh_path req again path excludes c = (None, c')"
  then show "c' = c"
    unfolding refresh_path_def refresh_path_with_budget_def
    by (rule refresh_path_attempt_failed)
       (erule with_fallback_failed, unfold refresh_path_legacy_def,
        erule refresh_path_attempt_failed, rule with_write_failed)
qed

theorem failed_refresh_changes_nothing_witness:
  "refresh_roots (example_request\<lparr>sr_can_commit := \<lambda>_. False\<rparr>) example_request [''/r''] [''skip''] example_connection =
     (None, example_connection)"
proof -
  let ?run = "refresh_roots (example_request\<lparr>sr_can_commit := \<lambda>_. False\<rparr>) example_request [''/r''] [''skip''] example_connection"
  have "fst ?run = None" by code_simp
  then have "?run = (None, snd ?run)" by (cases ?run) simp
  moreover from this have "snd ?run = example_connection" using failed_refresh_changes_nothing by blast
  ultimately show ?thesis by simp
qed

subsection \<open>Refreshing one path, and indexing\<close>

definition had_children :: "index_db \<Rightarrow> str \<Rightarrow> bool" where
  "had_children db t \<longleftrightarrow> (\<exists>e. row_with_path db t = Some e \<and> fr_kind e \<in> {Directory, App})"

text \<open>What refreshing a path does, by what is there now.\<close>

definition path_refreshed :: "scan_env \<Rightarrow> str \<Rightarrow> metadata option \<Rightarrow> index_db \<Rightarrow> index_db \<Rightarrow> bool" where
  "path_refreshed env path md db db' \<longleftrightarrow>
     (let t0 = to_string_lossy path in
      case md of
        None \<Rightarrow> \<forall>t. row_with_path db' t = (if in_texts [t0] t then None else row_with_path db t)
      | Some m \<Rightarrow>
          if is_directory path m then mirrors env [path] db db'
          else (\<exists>e. row_with_path db' t0 = Some e \<and> same_content e (scanned_record env path m)) \<and>
            (\<forall>t. t \<noteq> t0 \<longrightarrow> row_with_path db' t =
               (if had_children db t0 \<and> in_texts [t0] t then None else row_with_path db t)))"

lemma kind_for_path_Some:
  "kind_for_path ul db t = Some k \<Longrightarrow> k \<in> {Some Directory, Some App} \<longleftrightarrow> had_children db t"
proof -
  have p: "kind_parse ul (kind_as_str k) = Some k" for k by (cases k) (simp_all add: kind_parse_def)
  show "kind_for_path ul db t = Some k \<Longrightarrow> k \<in> {Some Directory, Some App} \<longleftrightarrow> had_children db t"
    by (auto simp: kind_for_path_def had_children_def p split: if_splits option.splits)
qed

lemma delete_path_prefix_rows:
  assumes ok: "ix_ok db" and d: "delete_path_prefix t0 db = Some db'"
  shows "ix_ok db' \<and> (\<forall>t. row_with_path db' t = (if in_texts [t0] t then None else row_with_path db t))"
proof (cases "path_prefix_bounds t0")
  case None
  then show ?thesis using d ok by (simp add: delete_path_prefix_def in_texts_simps)
next
  case (Some b)
  define P where "P = (\<lambda>r :: file_record. in_scope b (fr_path r))"
  have f: "ix_files db' = filter (\<lambda>r. \<not> P r) (ix_files db)"
    using d Some delete_where_files [OF ok, of P] by (auto simp: delete_path_prefix_def P_def split: if_splits)
  have "row_with_path db' t = (if in_texts [t0] t then None else row_with_path db t)" for t
    using row_after_filter [OF ok f, of t] row_with_path_of [OF ok, of t] Some
    by (cases "row_with_path db t") (auto simp: P_def in_texts_simps)
  then show ?thesis using filter_ok [OF ok f] by blast
qed

lemma refresh_path_body_refreshed:
  assumes ok: "ix_ok db" and a: "alloc_ok (sr_alloc req)"
    and incl: "\<not> is_excluded (exclude_matcher_new excludes) path"
    and md: "case md of None \<Rightarrow> True | Some m \<Rightarrow> symlink_metadata (sr_fs req) path = Inr m"
    and body: "refresh_path_body req path excludes md exact_pages db = Some (db', False, s)"
    and older: "exact_pages = None \<Longrightarrow> older_rows db (sr_generation req)"
    and nowarn: "is_warnings s = []"
  shows "ix_ok db' \<and> path_refreshed (env_of req excludes) path md db db' \<and> \<not> is_legacy_fallback s"
proof -
  let ?env = "env_of req excludes" and ?t0 = "to_string_lossy path"
  obtain k where k: "kind_for_path (sr_lower req) db ?t0 = Some k"
    using body by (auto simp: refresh_path_body_def split: option.splits)
  show ?thesis
  proof (cases md)
    case None
    then show ?thesis
      using body k delete_path_prefix_rows [OF ok, of ?t0]
      by (auto simp: refresh_path_body_def path_refreshed_def summary_default_def Let_def)
  next
    case (Some m)
    have lm: "symlink_metadata (sr_fs req) path = Inr m" using md Some by simp
    define gone where "gone \<longleftrightarrow> k \<in> {Some Directory, Some App} \<and> \<not> is_directory path m"
    obtain db1 where db1: "(if gone then delete_path_prefix ?t0 db else Some db) = Some db1"
      using body k Some by (auto simp: refresh_path_body_def gone_def split: option.splits)
    obtain fu db2 s1 where scan: "scan_path ?env path (prepare_refresh_upsert exact_pages, db1, summary_default) = Some (fu, db2, s1)"
      using body k Some db1 by (auto simp: refresh_path_body_def gone_def split: option.splits)
    have rest: "(let fallback = exact_pages \<noteq> None \<and> (seen_limit_exceeded fu \<or> is_warnings s1 \<noteq> [])
        in if is_directory path m \<and> \<not> fallback
           then (case into_seen_ids fu of
                   Some seen \<Rightarrow> map_option (\<lambda>(n, db3). (db3, fallback, s1\<lparr>is_deleted := is_deleted s1 + n\<rparr>))
                     (delete_unseen_under_roots [?t0] seen db2)
                 | None \<Rightarrow> map_option (\<lambda>(db3, s2). (db3, fallback, s2))
                     (cleanup_stale_if_complete db2 [path] (sr_generation req) s1))
           else Some (db2, fallback, s1)) = Some (db', False, s)"
      using body k Some db1 scan by (simp add: refresh_path_body_def gone_def)
    have ok1: "ix_ok db1" and rows1: "row_with_path db1 t = (if gone \<and> in_texts [?t0] t then None else row_with_path db t)" for t
      using db1 delete_path_prefix_rows [OF ok, of ?t0] ok by (auto split: if_splits)
    have sc: "scans ?env db1 (found_in ?env path) (prepare_refresh_upsert exact_pages, db1, summary_default) (fu, db2, s1)"
      by (rule scan_path_found [OF _ scan]) (simp add: a)
    obtain T where T: "scan_inv ?env db1 T fu db2" "complete (fu, db2, s1) \<longrightarrow> T = found_in ?env path"
      using scans_start(1) [OF sc ok1] by (elim exE conjE)
    note none = scans_start(2) [OF sc ok1] and lf = scans_start(3) [OF sc ok1]
    have nofb: "\<not> (exact_pages \<noteq> None \<and> (seen_limit_exceeded fu \<or> is_warnings s1 \<noteq> []))"
      using rest by (auto simp: Let_def split: if_splits option.splits)
    show ?thesis
    proof (cases "is_directory path m")
      case True
      then have "db1 = db" using db1 by (simp add: gone_def)
      moreover have "(case into_seen_ids fu of
          Some seen \<Rightarrow> map_option (\<lambda>(n, db2). (db2, s1\<lparr>is_deleted := is_deleted s1 + n\<rparr>))
            (delete_unseen_under_roots (map to_string_lossy [path]) seen db2)
        | None \<Rightarrow> cleanup_stale_if_complete db2 [path] (sr_generation req) s1) = Some (db', s)"
        using rest True nofb by (auto simp: Let_def split: option.splits)
      ultimately show ?thesis
        using cleanup_mirrors [of db1 ?env T fu db2 s1 "[path]" "sr_generation req" s db'] ok1 T older none nofb lf nowarn True Some
        by (auto simp: path_refreshed_def older_rows_def Let_def)
    next
      case False
      then have same: "db' = db2" "s = s1" using rest by (simp_all add: Let_def)
      have "found_in ?env path = {path}"
        using incl lm False by (auto simp: found_iff [of _ _ path] env_of_def)
      moreover have "complete (fu, db2, s1)"
        using nofb none nowarn same by (auto simp: complete_def seen_limit_exceeded_def split: option.splits)
      ultimately have inv: "scan_inv ?env db1 {path} fu db2" using T by simp
      then have "\<exists>e. row_with_path db2 ?t0 = Some e \<and> row_of_scan ?env {path} ?t0 e"
        and other: "\<And>t. t \<noteq> ?t0 \<Longrightarrow> row_with_path db2 t = row_with_path db1 t"
        by (auto simp: scan_inv_def)
      then have "\<exists>e. row_with_path db2 ?t0 = Some e \<and> same_content e (scanned_record ?env path m)"
        using lm by (auto simp: row_of_scan_def env_of_def)
      moreover have "row_with_path db2 t = (if had_children db ?t0 \<and> in_texts [?t0] t then None else row_with_path db t)"
        if "t \<noteq> ?t0" for t
        using other [OF that] rows1 [of t] kind_for_path_Some [OF k] False by (simp add: gone_def)
      ultimately show ?thesis
        using inv same lf False Some by (simp add: path_refreshed_def Let_def scan_inv_def)
    qed
  qed
qed

definition metadata_at :: "scan_request \<Rightarrow> str \<Rightarrow> metadata option" where
  "metadata_at req path = (case symlink_metadata (sr_fs req) path of Inr m \<Rightarrow> Some m | Inl _ \<Rightarrow> None)"

lemma refresh_path_attempt_Some:
  assumes "refresh_path_attempt req path excludes body c = (Some s, c')"
    and "\<not> is_excluded (exclude_matcher_new excludes) path"
  shows "body (metadata_at req path) c = (Some s, c')"
  using assms by (auto simp: refresh_path_attempt_def metadata_at_def split: sum.splits io_kind.splits prod.splits)

lemma metadata_at_read: "case metadata_at req path of None \<Rightarrow> True | Some m \<Rightarrow> symlink_metadata (sr_fs req) path = Inr m"
  by (simp add: metadata_at_def split: sum.split)

lemma refresh_path_legacy_refreshed:
  assumes "ix_ok (cn_db c)" and "alloc_ok (sr_alloc req)" and "\<not> is_excluded (exclude_matcher_new excludes) path"
    and "older_rows (cn_db c) (sr_generation req)"
    and "refresh_path_legacy req path excludes c = (Some s, c')" and "is_warnings s = []"
  shows "path_refreshed (env_of req excludes) path (metadata_at req path) (cn_db c) (cn_db c') \<and>
    ix_ok (cn_db c') \<and> cn_saved c' = None"
proof -
  have "with_write (sr_can_commit req)
      (\<lambda>db. map_option (\<lambda>(db', _, s). (db', s)) (refresh_path_body req path excludes (metadata_at req path) None db)) c = (Some s, c')"
    using refresh_path_attempt_Some [OF assms(5) [unfolded refresh_path_legacy_def] assms(3)] .
  then show ?thesis
  proof (cases rule: with_write_cases)
    case (committed x db)
    then obtain fb where b: "refresh_path_body req path excludes (metadata_at req path) None (cn_db c) = Some (db, fb, s)"
      by auto
    then have "\<not> fb"
      by (auto simp: refresh_path_body_def Let_def split: option.splits if_splits)
    then show ?thesis
      using refresh_path_body_refreshed [OF assms(1-3) metadata_at_read, of None db s] b assms(4,6) committed by simp
  qed simp
qed

text \<open>C4: Refreshing one path that is not excluded and reports no warning: a directory becomes the mirror of its tree; for
  anything else there is the row of what was read, and the rows below it go when it used to be a
  directory or an application; when nothing is there any more, its row and all rows below it
  go. Rows out of its scope stay. When the refresh had to fall back to generations, this holds if
  the stored rows are older than the generation of that scan.\<close>

theorem refresh_path_correct:
  assumes "ix_ok (cn_db c)" and "alloc_ok (sr_alloc req)" and "alloc_ok (sr_alloc again)"
    and "is_legacy_fallback summary \<Longrightarrow> older_rows (cn_db c) (sr_generation again)"
    and "\<not> is_excluded (exclude_matcher_new excludes) path"
    and "refresh_path req again path excludes c = (Some summary, c')" and "is_warnings summary = []"
    and "req' = (if is_legacy_fallback summary then again else req)"
  shows "path_refreshed (env_of req' excludes) path (metadata_at req' path) (cn_db c) (cn_db c') \<and>
    ix_ok (cn_db c') \<and> cn_saved c' = None"
proof -
  have "with_fallback (sr_can_commit req) (refresh_path_body req path excludes (metadata_at req path) (Some scanner_seen_max_pages))
      (refresh_path_legacy again path excludes) c = (Some summary, c')"
    using refresh_path_attempt_Some [OF assms(6) [unfolded refresh_path_def refresh_path_with_budget_def] assms(5)] .
  then show ?thesis
  proof (cases rule: with_fallback_cases)
    case (committed s db)
    then show ?thesis
      using refresh_path_body_refreshed [OF assms(1,2,5) metadata_at_read committed(2)] assms(7,8) by simp
  next
    case (fell_back s db res1)
    then obtain s1 where s1: "refresh_path_legacy again path excludes c = (Some s1, c')"
        "summary = s1\<lparr>is_legacy_fallback := True\<rparr>" by (cases res1) auto
    then have "older_rows (cn_db c) (sr_generation again)" using assms(4) by simp
    with s1 show ?thesis
      using refresh_path_legacy_refreshed [OF assms(1,3,5) _ s1(1)] assms(7,8) by simp
  qed simp
qed

theorem refresh_path_correct_witness:
  "path_refreshed (env_of example_request []) ''/r/old'' None (cn_db example_connection)
     (cn_db (snd (refresh_path example_request example_request ''/r/old'' [] example_connection)))"
proof -
  let ?run = "refresh_path example_request example_request ''/r/old'' [] example_connection"
  have "case ?run of (Some s, c) \<Rightarrow> is_warnings s = [] \<and> \<not> is_legacy_fallback s | _ \<Rightarrow> False" by code_simp
  then obtain s c' where r: "?run = (Some s, c')" "is_warnings s = []" "\<not> is_legacy_fallback s"
    by (auto split: prod.splits option.splits)
  have ex: "\<not> is_excluded (exclude_matcher_new []) ''/r/old''" and none: "metadata_at example_request ''/r/old'' = None"
    by code_simp+
  show ?thesis
    using refresh_path_correct [OF example_ok(1,2,2) example_older ex r(1,2) refl] r none by simp
qed

lemma index_body_mirrors:
  assumes ok: "ix_ok db" and a: "alloc_ok (sr_alloc req)"
    and body: "index_body req request db = Some (db', s)" and nowarn: "is_warnings s = []"
    and older: "\<not> iq_rebuild request \<Longrightarrow> older_rows db (sr_generation req)"
    and empty: "iq_rebuild request \<Longrightarrow> ix_files db = []"
  shows "mirrors (env_of req (iq_excludes request)) (iq_roots request) db db' \<and> ix_ok db'"
proof -
  let ?env = "env_of req (iq_excludes request)" and ?roots = "iq_roots request"
  obtain fu db1 s1 where scan: "scan_all ?env ?roots (prepare_refresh_upsert None, db, summary_default) = Some (fu, db1, s1)"
    using body by (auto simp: index_body_def prepare_refresh_upsert_def split: option.splits)
  have sc: "scans ?env db (found_under ?env ?roots) (prepare_refresh_upsert None, db, summary_default) (fu, db1, s1)"
    by (rule scan_all_found [OF _ scan]) (simp add: a)
  obtain T where T: "scan_inv ?env db T fu db1" "complete (fu, db1, s1) \<longrightarrow> T = found_under ?env ?roots"
    using scans_start(1) [OF sc ok] by (elim exE conjE)
  have none: "fu_scanner fu = None" using scans_start(2) [OF sc ok] by simp
  obtain db2 where cl: "(if iq_rebuild request then Some (db1, s1)
        else cleanup_stale_if_complete db1 ?roots (sr_generation req) s1) = Some (db2, s)"
      and meta: "set_meta ''last_indexed_at'' (sr_now req) db2 = Some db'"
    using body scan by (auto simp: index_body_def prepare_refresh_upsert_def split: option.splits)
  have f: "ix_files db' = ix_files db2" by (rule set_meta_files [OF meta])
  have same: "mirrors ?env ?roots db db2 \<longleftrightarrow> mirrors ?env ?roots db db'" "ix_ok db2 \<longleftrightarrow> ix_ok db'"
    by (simp_all add: mirrors_def ix_ok_def row_with_path_def f)
  show ?thesis
  proof (cases "iq_rebuild request")
    case True
    then have db2: "db2 = db1" "s1 = s" using cl by simp_all
    then have "complete (fu, db1, s1)" using nowarn none by (simp add: complete_def seen_limit_exceeded_def)
    then have inv: "scan_inv ?env db (found_under ?env ?roots) fu db1" using T by simp
    have "\<exists>e. row_with_path db1 t = Some e \<and> row_of_scan ?env (found_under ?env ?roots) t e"
      if "t \<in> to_string_lossy ` found_under ?env ?roots" for t
      using inv that unfolding scan_inv_def by blast
    moreover have none0: "row_with_path db t = None" for t using empty [OF True] by (simp add: row_with_path_def)
    moreover have "row_with_path db1 t = None" if "t \<notin> to_string_lossy ` found_under ?env ?roots" for t
      using inv that none0 by (simp add: scan_inv_def)
    ultimately have "mirrors ?env ?roots db db1 \<and> ix_ok db1"
      using inv unfolding mirrors_def by (simp add: scan_inv_def)
    then show ?thesis using same db2 by simp
  next
    case False
    then have "cleanup_stale_if_complete db1 ?roots (sr_generation req) s1 = Some (db2, s)" using cl by simp
    then have "ix_ok db2 \<and> mirrors ?env ?roots db db2"
      using cleanup_mirrors [OF ok T, of "sr_generation req" s db2] none nowarn older [OF False] by (simp add: into_seen_ids_def older_rows_def)
    then show ?thesis using same by simp
  qed
qed

lemma index_tables:
  "set_roots ts db = (ok, db') \<Longrightarrow> ix_files db' = ix_files db"
  "set_excludes ts db = (ok, db') \<Longrightarrow> ix_files db' = ix_files db"
  by (auto simp: set_roots_def set_excludes_def split: prod.splits)

text \<open>C5: Indexing that reports no warning makes the index the mirror of the trees of the request. A
  rebuild does so whatever was stored, and nothing else is in the index after it. Without a rebuild
  this holds if every stored row is older than the generation of the scan: indexing tells the stale
  rows by their generation only, which is the wall clock, so that rows a process wrote before the
  clock was set back stay without a warning.\<close>

theorem index_paths_mirrors:
  assumes "ix_ok (cn_db c)" and "alloc_ok (sr_alloc req)"
    and "\<not> iq_rebuild request \<Longrightarrow> older_rows (cn_db c) (sr_generation req)"
    and "index_paths req request c = (Some summary, c')" and "is_warnings summary = []"
  shows "mirrors (env_of req (iq_excludes request)) (iq_roots request)
      (if iq_rebuild request then empty_db else cn_db c) (cn_db c') \<and> ix_ok (cn_db c')"
proof -
  define db0 where "db0 = (if iq_rebuild request then clear_index (cn_db c) else cn_db c)"
  obtain ok1 db1 where r: "set_roots (map to_string_lossy (iq_roots request)) db0 = (ok1, db1)" by fastforce
  obtain ok2 db2 where e: "set_excludes (iq_excludes request) db1 = (ok2, db2)" by fastforce
  have run: "with_write (sr_can_commit req) (index_body req request) (c\<lparr>cn_db := db2\<rparr>) = (Some summary, c')"
    using assms(4) r e unfolding index_paths_def Let_def db0_def [symmetric] by (simp split: if_splits)
  have files: "ix_files db2 = (if iq_rebuild request then [] else ix_files (cn_db c))"
    using index_tables(1) [OF r] index_tables(2) [OF e] delete_where_files [OF assms(1), of "\<lambda>_. True"]
    by (simp add: db0_def clear_index_def)
  have ok: "ix_ok db2" using assms(1) files by (simp add: ix_ok_def)
  from run show ?thesis
  proof (cases rule: with_write_cases)
    case (committed x db)
    then have "mirrors (env_of req (iq_excludes request)) (iq_roots request) db2 (cn_db c') \<and> ix_ok (cn_db c')"
      using index_body_mirrors [OF ok assms(2) _ assms(5)] assms(3) files by (simp add: older_rows_def split: if_splits)
    moreover have "row_with_path db2 t = row_with_path (if iq_rebuild request then empty_db else cn_db c) t" for t
      using files by (simp add: row_with_path_def empty_db_def)
    ultimately show ?thesis by (simp add: mirrors_def)
  qed simp
qed

theorem index_paths_mirrors_witness:
  "mirrors (env_of example_request [''skip'']) [''/r''] (cn_db example_connection)
     (cn_db (snd (index_paths example_request \<lparr>iq_roots = [''/r''], iq_excludes = [''skip''], iq_rebuild = False\<rparr> example_connection)))"
proof -
  let ?q = "\<lparr>iq_roots = [''/r''], iq_excludes = [''skip''], iq_rebuild = False\<rparr>"
  let ?run = "index_paths example_request ?q example_connection"
  have "case ?run of (Some s, c) \<Rightarrow> is_warnings s = [] | _ \<Rightarrow> False" by code_simp
  then obtain s c' where r: "?run = (Some s, c')" "is_warnings s = []"
    by (auto split: prod.splits option.splits)
  show ?thesis using index_paths_mirrors [OF example_ok(1,2) example_older r] r by simp
qed

end
