(* ===== verification/Scan_Keeps.thy ===== *)
theory Scan_Keeps
  imports Scan_Correct
begin

text \<open>
  What every scan keeps. The scanner changes the database through six operations only: the upsert of
  a scanned record, the deletions below a path, of unseen rows and of stale rows, and the time of
  the last scan. A relation between databases that these keep is kept by every scan, committed,
  rolled back or run again in the legacy mode.
\<close>

locale scan_keeps =
  fixes keeps :: "index_db \<Rightarrow> index_db \<Rightarrow> bool" and allowed :: "scan_env \<Rightarrow> bool"
  assumes keeps_refl: "keeps db db"
    and keeps_trans: "keeps db db1 \<Longrightarrow> keeps db1 db2 \<Longrightarrow> keeps db db2"
    and upsert_keeps: "allowed env \<Longrightarrow> symlink_metadata (se_fs env) path = Inr md \<Longrightarrow>
      upsert (se_alloc env) (scanned_record env path md) (fu, db) = Some (changed, fu', db') \<Longrightarrow> keeps db db'"
    and prefix_keeps: "delete_path_prefix p db = Some db' \<Longrightarrow> keeps db db'"
    and unseen_keeps: "delete_unseen_under_roots roots seen db = Some (n, db') \<Longrightarrow> keeps db db'"
    and stale_keeps: "delete_stale_under_roots roots g db = Some (n, db') \<Longrightarrow> keeps db db'"
    and last_indexed_keeps: "set_meta ''last_indexed_at'' v db = Some db' \<Longrightarrow> keeps db db'"
begin

lemma warn_state_db [simp]: "fst (snd (warn_state path what st)) = fst (snd st)"
  by (cases st) (simp add: warn_state_def)

lemma upsert_scanned_keeps:
  assumes "upsert_scanned env path md st = Some st'" "allowed env" "symlink_metadata (se_fs env) path = Inr md"
  shows "keeps (fst (snd st)) (fst (snd st'))"
  using assms by (auto simp: upsert_scanned_def split: prod.splits dest: upsert_keeps)

lemma scan_keeps_db:
  "scan_path_inner env path depth st = Some st' \<Longrightarrow> allowed env \<Longrightarrow> keeps (fst (snd st)) (fst (snd st'))"
  "scan_entries env path depth entries st = Some st' \<Longrightarrow> allowed env \<Longrightarrow> keeps (fst (snd st)) (fst (snd st'))"
proof (induction env path depth st and env path depth entries st arbitrary: st' and st'
    rule: scan_path_inner_scan_entries.induct)
  case (1 env path depth st)
  note run = "1.prems"(1) [unfolded scan_path_inner.simps [of env path depth st]]
  consider "max_scan_depth < depth" | "\<not> max_scan_depth < depth" "is_excluded (se_excludes env) path"
    | e where "\<not> max_scan_depth < depth" "\<not> is_excluded (se_excludes env) path" "symlink_metadata (se_fs env) path = Inl e"
    | md where "\<not> max_scan_depth < depth" "\<not> is_excluded (se_excludes env) path" "symlink_metadata (se_fs env) path = Inr md"
    by (metis old.sum.exhaust)
  then show ?case
  proof cases
    case 4
    then obtain st1 where st1: "upsert_scanned env path md st = Some st1" using run by (auto split: option.splits)
    note up = upsert_scanned_keeps [OF st1 "1.prems"(2) 4(3)]
    show ?thesis
    proof (cases "is_directory path md")
      case True
      show ?thesis
      proof (cases "read_dir (se_fs env) path")
        case (Inl e)
        then show ?thesis using run 4 st1 up True by auto
      next
        case (Inr entries)
        have "scan_entries env path depth entries st1 = Some st'" using run 4 st1 True Inr by simp
        then have "keeps (fst (snd st1)) (fst (snd st'))" using "1.IH" [OF 4 st1 True Inr] "1.prems"(2) by blast
        with up show ?thesis by (rule keeps_trans)
      qed
    next
      case False
      then show ?thesis using run 4 st1 up by simp
    qed
  qed (use run keeps_refl in auto)
next
  case (3 env path depth entry entries st)
  show ?case
  proof (cases "seen_limit_exceeded (fst st)")
    case True
    then show ?thesis using "3.prems" keeps_refl by simp
  next
    case go: False
    show ?thesis
    proof (cases entry)
      case (Inl err)
      then show ?thesis using "3.prems" "3.IH"(1) [OF go Inl] go by simp
    next
      case (Inr name)
      then obtain st1 where st1: "scan_path_inner env (path_join path name) (depth + 1) st = Some st1"
        using "3.prems" go by (auto split: option.splits)
      have "keeps (fst (snd st)) (fst (snd st1))" using "3.IH"(2) [OF go Inr st1] "3.prems"(2) .
      moreover have "scan_entries env path depth entries st1 = Some st'" using "3.prems"(1) go Inr st1 by simp
      then have "keeps (fst (snd st1)) (fst (snd st'))" using "3.IH"(3) [OF go Inr st1] "3.prems"(2) by simp
      ultimately show ?thesis by (rule keeps_trans)
    qed
  qed
qed (simp add: keeps_refl)

lemma scan_path_keeps: "scan_path env path st = Some st' \<Longrightarrow> allowed env \<Longrightarrow> keeps (fst (snd st)) (fst (snd st'))"
  using keeps_refl by (auto simp: scan_path_def dest: scan_keeps_db split: if_splits)

lemma scan_roots_keeps: "scan_roots env roots st = Some st' \<Longrightarrow> allowed env \<Longrightarrow> keeps (fst (snd st)) (fst (snd st'))"
  by (induction roots arbitrary: st) (auto simp: keeps_refl split: option.splits if_splits dest: scan_path_keeps intro: keeps_trans)

lemma scan_all_keeps: "scan_all env roots st = Some st' \<Longrightarrow> allowed env \<Longrightarrow> keeps (fst (snd st)) (fst (snd st'))"
  by (induction roots arbitrary: st) (auto simp: keeps_refl split: option.splits dest: scan_path_keeps intro: keeps_trans)

lemma cleanup_keeps: "cleanup_stale_if_complete db roots g s = Some (db', s') \<Longrightarrow> keeps db db'"
  by (auto simp: cleanup_stale_if_complete_def keeps_refl split: if_splits dest: stale_keeps)

lemma delete_after_scan_keeps:
  assumes "(case into_seen_ids fu of
       Some seen \<Rightarrow> map_option (\<lambda>(n, db2). (db2, f n)) (delete_unseen_under_roots ts seen db1)
     | None \<Rightarrow> cleanup_stale_if_complete db1 roots g s1) = Some (db2, s2)"
  shows "keeps db1 db2"
  using assms by (auto simp del: delete_unseen_under_roots.simps split: option.splits dest: unseen_keeps cleanup_keeps)

lemma refresh_roots_body_keeps:
  assumes "refresh_roots_body req roots excludes pages db = Some (db', fb, s)" "allowed (env_of req excludes)"
  shows "keeps db db'"
proof -
  obtain fu db1 s1 where scan: "scan_roots (env_of req excludes) roots (prepare_refresh_upsert pages, db, summary_default) = Some (fu, db1, s1)"
    using assms by (auto simp: refresh_roots_body_def split: option.splits)
  then have m: "keeps db db1" using scan_roots_keeps assms(2) by fastforce
  note run = assms(1) [unfolded refresh_roots_body_def scan option.case prod.case]
  show ?thesis
  proof (cases "pages \<noteq> None \<and> (seen_limit_exceeded fu \<or> is_warnings s1 \<noteq> [])")
    case True
    with run m show ?thesis by simp
  next
    case False
    obtain db2 s2 where d: "(case into_seen_ids fu of
         Some seen \<Rightarrow> map_option (\<lambda>(n, db2). (db2, s1\<lparr>is_deleted := is_deleted s1 + n\<rparr>))
            (delete_unseen_under_roots (map to_string_lossy roots) seen db1)
       | None \<Rightarrow> cleanup_stale_if_complete db1 roots (sr_generation req) s1) = Some (db2, s2)"
      and set: "set_meta ''last_indexed_at'' (sr_now req) db2 = Some db'"
      using run unfolding if_not_P [OF False] by (auto split: option.splits)
    show ?thesis
      using last_indexed_keeps [OF set] delete_after_scan_keeps [OF d] m keeps_trans by blast
  qed
qed

lemma index_body_keeps:
  assumes "index_body req request db = Some (db', s)" "allowed (env_of req (iq_excludes request))"
  shows "keeps db db'"
proof -
  obtain fu db1 s1 where scan: "scan_all (env_of req (iq_excludes request)) (iq_roots request) (prepare_file_upsert, db, summary_default) = Some (fu, db1, s1)"
    using assms by (auto simp: index_body_def split: option.splits)
  then have m: "keeps db db1" using scan_all_keeps assms(2) by fastforce
  note run = assms(1) [unfolded index_body_def scan option.case prod.case]
  obtain db2 s2 where d: "(if iq_rebuild request then Some (db1, s1)
       else cleanup_stale_if_complete db1 (iq_roots request) (sr_generation req) s1) = Some (db2, s2)"
    and set: "set_meta ''last_indexed_at'' (sr_now req) db2 = Some db'"
    using run by (auto split: option.splits)
  have "keeps db1 db2" using d cleanup_keeps keeps_refl by (auto split: if_split_asm)
  with m last_indexed_keeps [OF set] show ?thesis using keeps_trans by blast
qed

lemma refresh_path_body_keeps:
  assumes "refresh_path_body req path excludes md pages db = Some (db', fb, s)" "allowed (env_of req excludes)"
  shows "keeps db db'"
proof -
  obtain previous where k: "kind_for_path (sr_lower req) db (to_string_lossy path) = Some previous"
    using assms by (auto simp: refresh_path_body_def split: option.splits)
  note run = assms(1) [unfolded refresh_path_body_def k option.case]
  show ?thesis
  proof (cases md)
    case None
    with run show ?thesis by (auto dest: prefix_keeps)
  next
    case (Some m)
    note run = run [unfolded Some option.case]
    let ?del = "if previous \<in> {Some Directory, Some App} \<and> \<not> is_directory path m
        then delete_path_prefix (to_string_lossy path) db else Some db"
    obtain db1 where d: "?del = Some db1" using run by (auto split: option.splits)
    then have m1: "keeps db db1" using keeps_refl by (auto split: if_split_asm dest: prefix_keeps)
    note run = run [unfolded d option.case]
    obtain fu db2 s1 where sc: "scan_path (env_of req excludes) path (prepare_refresh_upsert pages, db1, summary_default) = Some (fu, db2, s1)"
      using run by (auto split: option.splits)
    then have m2: "keeps db1 db2" using scan_path_keeps assms(2) by fastforce
    note run = run [unfolded sc option.case prod.case Let_def]
    let ?fb = "pages \<noteq> None \<and> (seen_limit_exceeded fu \<or> is_warnings s1 \<noteq> [])"
    have "keeps db2 db'"
    proof (cases "is_directory path m \<and> \<not> ?fb")
      case True
      note run = run [unfolded if_P [OF True]]
      then show ?thesis
        by (auto simp del: delete_unseen_under_roots.simps split: option.splits dest!: unseen_keeps cleanup_keeps)
    next
      case False
      note run = run [unfolded if_not_P [OF False]]
      then show ?thesis by (simp add: keeps_refl)
    qed
    with m1 m2 show ?thesis using keeps_trans by blast
  qed
qed

text \<open>What a call leaves: the relation, and no transaction open.\<close>

definition left_by :: "connection \<Rightarrow> connection \<Rightarrow> bool" where
  "left_by c c' \<longleftrightarrow> keeps (cn_db c) (cn_db c') \<and> cn_saved c' = None"

lemma with_write_keeps:
  assumes "with_write cc body c = (s, c')" and "\<And>db x. body (cn_db c) = Some (db, x) \<Longrightarrow> keeps (cn_db c) db"
    and "cn_saved c = None"
  shows "left_by c c'"
  using assms(1) by (cases rule: with_write_cases) (use assms keeps_refl in \<open>auto simp: left_by_def\<close>)

lemma with_fallback_keeps:
  assumes "with_fallback cc body legacy c = (s, c')"
    and "\<And>db x. body (cn_db c) = Some (db, x) \<Longrightarrow> keeps (cn_db c) db"
    and "\<And>s c'. legacy c = (s, c') \<Longrightarrow> left_by c c'"
    and "cn_saved c = None"
  shows "left_by c c'"
  using assms(1) by (cases rule: with_fallback_cases) (use assms keeps_refl in \<open>auto simp: left_by_def\<close>)

lemma refresh_roots_legacy_keeps:
  assumes "refresh_roots_legacy req roots excludes c = (s, c')" "cn_saved c = None" "allowed (env_of req excludes)"
  shows "left_by c c'"
  using assms(1) unfolding refresh_roots_legacy_def
  by (rule with_write_keeps) (use assms(2,3) refresh_roots_body_keeps in auto)

lemma refresh_roots_keeps:
  assumes "refresh_roots req again roots excludes c = (s, c')" "cn_saved c = None"
    and "allowed (env_of req excludes)" "allowed (env_of again excludes)"
  shows "left_by c c'"
  using assms(1) unfolding refresh_roots_def refresh_roots_with_budget_def
  by (rule with_fallback_keeps) (use assms(2-4) refresh_roots_body_keeps refresh_roots_legacy_keeps in auto)

lemma refresh_path_attempt_keeps:
  assumes "refresh_path_attempt req path excludes body c = (s, c')" "cn_saved c = None"
    and "\<And>md s c'. body md c = (s, c') \<Longrightarrow> left_by c c'"
  shows "left_by c c'"
  using assms keeps_refl
  by (auto simp: refresh_path_attempt_def left_by_def split: if_splits sum.splits io_kind.splits prod.splits)

lemma refresh_path_legacy_keeps:
  assumes "refresh_path_legacy req path excludes c = (s, c')" "cn_saved c = None" "allowed (env_of req excludes)"
  shows "left_by c c'"
  using assms(1) [unfolded refresh_path_legacy_def] assms(2)
proof (rule refresh_path_attempt_keeps)
  fix md s c'
  assume "with_write (sr_can_commit req)
      (\<lambda>db. map_option (\<lambda>(db', _, s). (db', s)) (refresh_path_body req path excludes md None db)) c = (s, c')"
  then show "left_by c c'"
    by (rule with_write_keeps) (use assms(2,3) in \<open>auto dest: refresh_path_body_keeps\<close>)
qed

lemma refresh_path_keeps:
  assumes "refresh_path req again path excludes c = (s, c')" "cn_saved c = None"
    and "allowed (env_of req excludes)" "allowed (env_of again excludes)"
  shows "left_by c c'"
  using assms(1) [unfolded refresh_path_def refresh_path_with_budget_def] assms(2)
proof (rule refresh_path_attempt_keeps)
  fix md s c'
  assume "with_fallback (sr_can_commit req) (refresh_path_body req path excludes md (Some scanner_seen_max_pages))
      (refresh_path_legacy again path excludes) c = (s, c')"
  then show "left_by c c'"
    by (rule with_fallback_keeps) (use assms(2-4) refresh_path_legacy_keeps in \<open>auto dest: refresh_path_body_keeps\<close>)
qed

end

end
