(* ===== verification/Watch_Db.thy ===== *)
theory Watch_Db
  imports Watch_Turn Scan_Keeps
begin

text \<open>
  The watcher on the index database: what its worker calls, the law that only the checkpoint
  operation writes the stored checkpoint, and the contract of the watcher for it.
\<close>

subsection \<open>The operations on the database\<close>

text \<open>
  What each call is given, by its number: the request of a scan and whether SQLite can write
  outside a transaction.
\<close>

record watch_env =
  we_request :: "nat \<Rightarrow> scan_request"
  we_can_set :: "nat \<Rightarrow> bool"
  we_excludes :: "str list"

record watch_db =
  wd_conn :: connection
  wd_calls :: nat

definition meta_last_event_id :: str where "meta_last_event_id = ''watch_last_event_id''"

definition watch_refresh :: "watch_env \<Rightarrow> bool \<Rightarrow> str \<Rightarrow> watch_db \<Rightarrow> index_summary option \<times> watch_db" where
  "watch_refresh env legacy path w =
     (let n = wd_calls w;
          (s, c) = (if legacy then refresh_path_legacy (we_request env n) path (we_excludes env) (wd_conn w)
                    else refresh_path (we_request env n) (we_request env (n + 1)) path (we_excludes env) (wd_conn w))
      in (s, \<lparr>wd_conn = c, wd_calls = n + 2\<rparr>))"

definition watch_rescan :: "watch_config \<Rightarrow> watch_env \<Rightarrow> bool \<Rightarrow> watch_db \<Rightarrow> index_summary option \<times> watch_db" where
  "watch_rescan cfg env legacy w =
     (let n = wd_calls w;
          (s, c) = (if legacy then refresh_roots_legacy (we_request env n) (wc_roots cfg) (we_excludes env) (wd_conn w)
                    else refresh_roots (we_request env n) (we_request env (n + 1)) (wc_roots cfg) (we_excludes env) (wd_conn w))
      in (s, \<lparr>wd_conn = c, wd_calls = n + 2\<rparr>))"

definition watch_set_checkpoint :: "watch_env \<Rightarrow> nat \<Rightarrow> watch_db \<Rightarrow> bool \<times> watch_db" where
  "watch_set_checkpoint env i w =
     (let n = wd_calls w; w1 = w\<lparr>wd_calls := n + 1\<rparr>
      in if \<not> we_can_set env n then (False, w1)
         else case set_meta meta_last_event_id (nat_to_str i) (cn_db (wd_conn w)) of
                None \<Rightarrow> (False, w1)
              | Some db \<Rightarrow> (True, w1\<lparr>wd_conn := (wd_conn w)\<lparr>cn_db := db\<rparr>\<rparr>))"

text \<open>The clean-ups of a checkpoint, in one transaction; any failure rolls back.\<close>

fun cleanup_all :: "(str \<times> i64) list \<Rightarrow> index_db \<Rightarrow> index_db option" where
  "cleanup_all [] db = Some db"
| "cleanup_all ((path, generation) # cs) db =
     (case delete_stale_under_roots [to_string_lossy path] generation db of
        None \<Rightarrow> None
      | Some (_, db1) \<Rightarrow> cleanup_all cs db1)"

definition watch_cleanup :: "watch_env \<Rightarrow> (str \<times> i64) list \<Rightarrow> watch_db \<Rightarrow> bool \<times> watch_db" where
  "watch_cleanup env cs w =
     (let n = wd_calls w; c = wd_conn w; failed = (case rollback c of Some c' \<Rightarrow> c' | None \<Rightarrow> c);
          (ok, c2) = (case begin_write c of
             None \<Rightarrow> (False, failed)
           | Some c1 \<Rightarrow>
               (case cleanup_all cs (cn_db c1) of
                  None \<Rightarrow> (False, snd (finish_write (sr_can_commit (we_request env n)) False c1))
                | Some db \<Rightarrow> finish_write (sr_can_commit (we_request env n)) True (c1\<lparr>cn_db := db\<rparr>)))
      in (ok, \<lparr>wd_conn = c2, wd_calls = n + 1\<rparr>))"

definition db_ops :: "watch_config \<Rightarrow> watch_env \<Rightarrow> watch_db watch_ops" where
  "db_ops cfg env =
     \<lparr>wo_refresh = watch_refresh env, wo_rescan = watch_rescan cfg env,
      wo_set_checkpoint = watch_set_checkpoint env, wo_cleanup = watch_cleanup env\<rparr>"

text \<open>\<open>get_meta\<close> and the parse of \<open>watch_index\<close>.\<close>

definition stored_event_id :: "watch_db \<Rightarrow> nat option" where
  "stored_event_id w =
     (case get_meta (cn_db (wd_conn w)) meta_last_event_id of
        Some (Some value) \<Rightarrow> parse_usize value
      | _ \<Rightarrow> None)"

definition db_fine :: "watch_db \<Rightarrow> bool" where
  "db_fine w \<longleftrightarrow> cn_saved (wd_conn w) = None"

subsection \<open>Who writes the checkpoint\<close>

definition same_checkpoint :: "index_db \<Rightarrow> index_db \<Rightarrow> bool" where
  "same_checkpoint db db' \<longleftrightarrow> map_of (ix_meta db') meta_last_event_id = map_of (ix_meta db) meta_last_event_id"

lemma same_checkpointI: "ix_meta db' = ix_meta db \<Longrightarrow> same_checkpoint db db'"
  by (simp add: same_checkpoint_def)

lemma same_checkpoint_refl [simp]: "same_checkpoint db db"
  by (simp add: same_checkpoint_def)

lemma same_checkpoint_trans: "same_checkpoint a b \<Longrightarrow> same_checkpoint b c \<Longrightarrow> same_checkpoint a c"
  by (simp add: same_checkpoint_def)

lemma row_meta [simp]:
  "ix_meta (prune_changes n db) = ix_meta db"
  "ix_meta (record_change a b c db) = ix_meta db"
  "ix_meta (set_conflict k db) = ix_meta db"
  "ix_meta (insert_row alloc r db) = ix_meta db"
  "ix_meta (update_row old r db) = ix_meta db"
  "ix_meta (delete_row i db) = ix_meta db"
  by (simp_all add: prune_changes_def record_change_def set_conflict_def insert_row_def update_row_def delete_row_def Let_def)

lemma fold_delete_row_meta [simp]: "ix_meta (fold delete_row ids db) = ix_meta db"
  by (induction ids arbitrary: db) simp_all

lemma delete_where_meta [simp]: "ix_meta (snd (delete_where P db)) = ix_meta db"
  by (simp add: delete_where_def Let_def)

lemma upsert_meta: "upsert alloc r (fu, db) = Some (changed, fu', db') \<Longrightarrow> ix_meta db' = ix_meta db"
  by (auto simp: upsert_def upsert_statement_def Let_def split: option.splits if_splits prod.splits)

lemma delete_unseen_pages_meta [simp]: "ix_meta (snd (delete_unseen_pages seen b cursor first deleted db)) = ix_meta db"
proof (induction seen b cursor first deleted db rule: delete_unseen_pages.induct)
  case (1 seen b cursor first deleted db)
  then show ?case by (subst delete_unseen_pages.simps) (auto simp: Let_def)
qed

lemma delete_unseen_meta: "delete_unseen_under_roots roots seen db = Some (n, db') \<Longrightarrow> ix_meta db' = ix_meta db"
proof (induction roots arbitrary: db n)
  case (Cons root roots)
  show ?case
  proof (cases "path_prefix_bounds root")
    case None
    with Cons show ?thesis by simp
  next
    case (Some b)
    obtain k db1 where p: "delete_unseen_pages seen b (fst b) True 0 db = (k, db1)" by fastforce
    then have "ix_meta db1 = ix_meta db" using delete_unseen_pages_meta [of seen b "fst b" True 0 db] by simp
    with Cons Some p show ?thesis by (auto split: if_split_asm)
  qed
qed simp

lemma delete_stale_meta: "delete_stale_under_roots roots g db = Some (n, db') \<Longrightarrow> ix_meta db' = ix_meta db"
proof (induction roots arbitrary: db n)
  case (Cons root roots)
  show ?case
  proof (cases "path_prefix_bounds root")
    case None
    with Cons show ?thesis by simp
  next
    case (Some b)
    let ?P = "\<lambda>r. fr_indexed_at r < g \<and> in_scope b (fr_path r)"
    obtain k db1 where p: "delete_where ?P db = (k, db1)" by fastforce
    then have "ix_meta db1 = ix_meta db" using delete_where_meta [of ?P db] by simp
    with Cons Some p show ?thesis by (auto split: if_split_asm)
  qed
qed simp

lemma delete_prefix_meta: "delete_path_prefix p db = Some db' \<Longrightarrow> ix_meta db' = ix_meta db"
  by (auto simp: delete_path_prefix_def split: option.splits if_splits)

lemma set_meta_other: "set_meta k v db = Some db' \<Longrightarrow> k \<noteq> meta_last_event_id \<Longrightarrow> same_checkpoint db db'"
  by (auto simp: set_meta_def same_checkpoint_def update_conv' split: if_splits)

lemma set_last_indexed: "set_meta ''last_indexed_at'' v db = Some db' \<Longrightarrow> same_checkpoint db db'"
  by (erule set_meta_other) (simp add: meta_last_event_id_def)

interpretation checkpoint: scan_keeps same_checkpoint "\<lambda>_. True"
proof unfold_locales
  fix a b c
  show "same_checkpoint a b \<Longrightarrow> same_checkpoint b c \<Longrightarrow> same_checkpoint a c" by (rule same_checkpoint_trans)
qed (auto intro: same_checkpointI set_last_indexed dest: upsert_meta delete_prefix_meta delete_unseen_meta delete_stale_meta
       simp del: delete_unseen_under_roots.simps delete_stale_under_roots.simps)

lemma cleanup_all_meta: "cleanup_all cs db = Some db' \<Longrightarrow> ix_meta db' = ix_meta db"
  by (induction cs db rule: cleanup_all.induct)
     (auto simp del: delete_stale_under_roots.simps split: option.splits dest!: delete_stale_meta)

lemma stored_same: "same_checkpoint (cn_db (wd_conn w)) (cn_db (wd_conn w')) \<Longrightarrow> stored_event_id w' = stored_event_id w"
  by (simp add: stored_event_id_def get_meta_def same_checkpoint_def)

subsection \<open>The contract holds\<close>

lemma key_bindable [simp]: "bindable meta_last_event_id"
  by (simp add: bindable_def meta_last_event_id_def)

lemma set_checkpoint_cases:
  assumes "watch_set_checkpoint env i w = (ok, w')"
  obtains "ok" "set_meta meta_last_event_id (nat_to_str i) (cn_db (wd_conn w)) = Some (cn_db (wd_conn w'))"
      "cn_saved (wd_conn w') = cn_saved (wd_conn w)"
  | "\<not> ok" "wd_conn w' = wd_conn w"
  using assms by (auto simp: watch_set_checkpoint_def Let_def split: if_split_asm option.splits)

lemma cleanup_checkpoint:
  assumes "watch_cleanup env cs w = (ok, w')" and "cn_saved (wd_conn w) = None"
  shows "same_checkpoint (cn_db (wd_conn w)) (cn_db (wd_conn w')) \<and> cn_saved (wd_conn w') = None"
proof -
  let ?c = "wd_conn w" and ?cc = "sr_can_commit (we_request env (wd_calls w))"
  obtain c1 where c1: "begin_write ?c = Some c1" using assms(2) by (simp add: begin_write_def)
  show ?thesis
  proof (cases "cleanup_all cs (cn_db c1)")
    case None
    with assms c1 finish_write_failed [OF c1, of ?cc] show ?thesis
      by (auto simp: watch_cleanup_def Let_def split: prod.splits)
  next
    case (Some db)
    obtain d c2 where f: "finish_write ?cc True (c1\<lparr>cn_db := db\<rparr>) = (d, c2)" by fastforce
    have "ix_meta db = ix_meta (cn_db ?c)" using cleanup_all_meta [OF Some] begin_write_Some [OF c1] by simp
    then show ?thesis
      using finish_write_cases [OF c1 f] assms c1 Some f same_checkpointI
      by (auto simp: watch_cleanup_def Let_def)
  qed
qed

interpretation wd: watch_world "db_ops cfg env" db_fine stored_event_id for cfg env
proof
  fix w w' :: watch_db and n :: nat and ok
  assume w: "db_fine w"
  show "stored_event_id w' = Some n" if "n < 2 ^ 64" "wo_set_checkpoint (db_ops cfg env) n w = (True, w')"
  proof -
    from that(2) have "watch_set_checkpoint env n w = (True, w')" by (simp add: db_ops_def)
    then have "set_meta meta_last_event_id (nat_to_str n) (cn_db (wd_conn w)) = Some (cn_db (wd_conn w'))"
      by (rule set_checkpoint_cases) simp_all
    then have "map_of (ix_meta (cn_db (wd_conn w'))) meta_last_event_id = Some (nat_to_str n)"
      by (auto simp: set_meta_def update_conv' split: if_split_asm dest: sym)
    with that(1) show ?thesis by (simp add: stored_event_id_def get_meta_def parse_usize_nat_to_str)
  qed
  show "stored_event_id w' = stored_event_id w" if "wo_set_checkpoint (db_ops cfg env) n w = (False, w')"
    using that unfolding db_ops_def watch_ops.simps
    by (rule set_checkpoint_cases [of env n w False w']) (simp_all add: stored_event_id_def)
  show "db_fine w'" if "wo_set_checkpoint (db_ops cfg env) n w = (ok, w')"
    using that w unfolding db_ops_def watch_ops.simps db_fine_def
    by (elim set_checkpoint_cases [of env n w ok w']) simp_all
next
  fix w w' :: watch_db and l p s
  assume "db_fine w" "wo_refresh (db_ops cfg env) l p w = (s, w')"
  then have "same_checkpoint (cn_db (wd_conn w)) (cn_db (wd_conn w')) \<and> cn_saved (wd_conn w') = None"
    using checkpoint.refresh_path_legacy_keeps checkpoint.refresh_path_keeps
    by (auto simp: checkpoint.left_by_def db_ops_def watch_refresh_def db_fine_def Let_def split: if_split_asm prod.splits)
  then show "stored_event_id w' = stored_event_id w \<and> db_fine w'" by (simp add: stored_same db_fine_def)
next
  fix w w' :: watch_db and l s
  assume "db_fine w" "wo_rescan (db_ops cfg env) l w = (s, w')"
  then have "same_checkpoint (cn_db (wd_conn w)) (cn_db (wd_conn w')) \<and> cn_saved (wd_conn w') = None"
    using checkpoint.refresh_roots_legacy_keeps checkpoint.refresh_roots_keeps
    by (auto simp: checkpoint.left_by_def db_ops_def watch_rescan_def db_fine_def Let_def split: if_split_asm prod.splits)
  then show "stored_event_id w' = stored_event_id w \<and> db_fine w'" by (simp add: stored_same db_fine_def)
next
  fix w w' :: watch_db and cs ok
  assume "db_fine w" "wo_cleanup (db_ops cfg env) cs w = (ok, w')"
  then have "same_checkpoint (cn_db (wd_conn w)) (cn_db (wd_conn w')) \<and> cn_saved (wd_conn w') = None"
    using cleanup_checkpoint by (simp add: db_ops_def db_fine_def)
  then show "stored_event_id w' = stored_event_id w \<and> db_fine w'" by (simp add: stored_same db_fine_def)
qed

end
