(* ===== verification/Watcher.thy ===== *)
theory Watcher
  imports Watch_Db "HOL-Library.Code_Target_Nat"
begin

text \<open>
  The properties of the watcher: nothing that changed is forgotten, the checkpoint never passes what was
  not scanned, complete turns are complete, and the memory for paths is bounded.
\<close>

subsection \<open>Facts about turns\<close>

context watch_world
begin

lemma complete_turn_idle:
  assumes turn: "worker_turn cfg ops due new pw w = (True, pw', w', scs)"
    and w: "world_fine w" and new: "fresh_work new"
    and max: "pw_max_event_id (snd (merge_batch cfg new pw)) < 2 ^ 64"
  shows "\<not> has_work pw' \<and> pw_deferred_cleanups pw' = []"
proof -
  obtain pw4 w4 where mid: "turn_middle cfg new pw w scs pw4 w4"
    and p: "\<not> wrapped pw4" "persist_checkpoint ops pw4 w4 = (True, pw', w')"
    using worker_turn_middle [OF turn w new] by metis
  from mid max have f: "world_fine w4" "pw_max_event_id pw4 < 2 ^ 64" by (simp_all add: turn_middle_def)
  show ?thesis
    by (rule persist_cases [OF p(2) f(1) p(1) f(2)]) (simp_all, simp_all add: clear_diagnostics_def)
qed

text \<open>A complete turn leaves nothing unscanned of all that was delivered before it.\<close>

lemma complete_turn_scanned:
  assumes reach: "watch_reachable cfg flt ops world_fine stored st" and roots: "roots_ok cfg"
    and turn: "worker_turn cfg ops due (ib_pending (cb_inbox (wt_callback st))) (wt_worker st) (wt_world st) =
      (True, pw, w, scs)"
  shows "unscanned cfg flt (rev (map Scanned scs) @ wt_history st) = {} \<and> \<not> has_work pw \<and> pw_deferred_cleanups pw = []"
proof -
  note inv = reachable_inv [OF reach roots]
  then have "owed_inv cfg flt world_fine st" by (simp add: watch_inv_def)
  note D = owed_invD [OF this]
  have idle: "\<not> has_work pw \<and> pw_deferred_cleanups pw = []"
    by (rule complete_turn_idle [OF turn D(2,3)]) (use D(6,7) in \<open>auto simp: merge_wrapped\<close>)
  obtain taken ib where t: "take_locked (cb_inbox (wt_callback st)) = (taken, ib)" by fastforce
  then have "ib_pending taken = ib_pending (cb_inbox (wt_callback st))" by (auto simp: take_locked_def)
  from owed_invD(5) [OF conjunct1 [OF inv_turn [OF inv t turn [folded this], unfolded watch_inv_def]]] idle show ?thesis
    using no_work_owes_nothing by (fastforce simp: wt_history_def)
qed

lemma reachable_owes:
  assumes reach: "watch_reachable cfg flt ops world_fine stored st" and roots: "roots_ok cfg"
    and open_pair: "(raw, y) \<in> unscanned cfg flt (wt_history st)"
  shows "owes (ib_pending (cb_inbox (wt_callback st))) y \<or> owes (wt_worker st) y"
  using owed_invD(4,5) [OF conjunct1 [OF reachable_inv [OF reach roots, unfolded watch_inv_def]]] open_pair
  unfolding wt_history_def unscanned_delivered by blast

lemma reachable_replays:
  assumes reach: "watch_reachable cfg flt ops world_fine stored st" and roots: "roots_ok cfg"
    and open_pair: "(raw, y) \<in> unscanned cfg flt (wt_history st)" and order: "wt_orderly st" "\<not> unnumbered raw"
  shows "replayed (stored (wt_world st)) current raw \<or> wrapped (wt_worker st) \<or>
    pw_checkpoint_reset (ib_pending (cb_inbox (wt_callback st)))"
proof -
  have "replay_inv cfg flt stored st" using reachable_inv [OF reach roots] order(1) by (simp add: watch_inv_def)
  from replay_invD(1,2) [OF this] open_pair order(2) will_replay_replayed show ?thesis
    unfolding wt_history_def unscanned_delivered by blast
qed

end

text \<open>The parts of a turn, whatever the operations do.\<close>

lemma worker_turn_parts:
  assumes "worker_turn cfg ops due new pw w = (fin, pw', w', scs)"
  obtains (stopped) ok pw1 where "merge_batch cfg new pw = (ok, pw1)" "\<not> fin"
      "\<exists>ready. invalidate_wrapped_checkpoint ops pw1 w = (ready, pw', w')" "scs = []"
  | (went) pw1 pw2 w1 pw3 w2 inside pw4 where "merge_batch cfg new pw = (True, pw1)"
      "invalidate_wrapped_checkpoint ops pw1 w = (True, pw2, w1)"
      "process_pending cfg due (wo_refresh ops (needs_legacy_generation pw2)) (wo_rescan ops (needs_legacy_generation pw2)) pw2 w1 =
        (pw3, w2, scs)"
      "enforce_worker_plan_bound cfg pw3 = (inside, pw4)"
      "if inside then persist_checkpoint ops pw4 w2 = (fin, pw', w') else \<not> fin \<and> pw' = pw4 \<and> w' = w2"
proof -
  obtain ok pw1 where mb: "merge_batch cfg new pw = (ok, pw1)" by fastforce
  obtain ready pw2 w1 where iv: "invalidate_wrapped_checkpoint ops pw1 w = (ready, pw2, w1)" by (metis prod_cases3)
  let ?l = "needs_legacy_generation pw2"
  obtain pw3 w2 scs' where pp: "process_pending cfg due (wo_refresh ops ?l) (wo_rescan ops ?l) pw2 w1 = (pw3, w2, scs')"
    by (metis prod_cases3)
  obtain inside pw4 where en: "enforce_worker_plan_bound cfg pw3 = (inside, pw4)" by fastforce
  note eq = assms [unfolded worker_turn_def mb Let_def prod.case iv pp en]
  show ?thesis
  proof (cases "\<not> ok \<or> \<not> ready")
    case True
    then show ?thesis using eq mb iv by (intro stopped [of ok pw1]) auto
  next
    case False
    then have "scs' = scs" using eq by (auto split: if_split_asm prod.splits)
    with False show ?thesis using eq mb iv pp en by (intro went [of pw1 pw2 w1 pw3 w2 inside pw4]) (auto split: prod.splits)
  qed
qed

lemma invalidate_bounds: "invalidate_wrapped_checkpoint ops pw w = (ready, pw', w') \<Longrightarrow> pw' = pw \<or> pw' = pw\<lparr>pw_checkpoint_invalidated := True\<rparr>"
  by (auto simp: invalidate_wrapped_checkpoint_def split: if_split_asm prod.splits bool.splits)

lemma same_plan [simp]:
  "within_bounds cfg (pw\<lparr>pw_checkpoint_invalidated := b\<rparr>) = within_bounds cfg pw"
  "within_bounds cfg (pw\<lparr>pw_max_event_id := n\<rparr>) = within_bounds cfg pw"
  "within_bounds cfg (pw\<lparr>pw_checkpoint_reset := b\<rparr>) = within_bounds cfg pw"
  "within_bounds cfg (clear_diagnostics pw) = within_bounds cfg pw"
  by (simp_all add: within_bounds_def worker_plan_size_def clear_diagnostics_def)

lemma persist_pending:
  assumes "persist_checkpoint ops pw w = (fin, pw', w')" and "within_bounds cfg pw"
  shows "within_bounds cfg pw'"
proof -
  obtain ready pw1 w1 where iv: "invalidate_wrapped_checkpoint ops pw w = (ready, pw1, w1)" by (metis prod_cases3)
  have b1: "within_bounds cfg pw1" "within_bounds cfg (pw1\<lparr>pw_deferred_cleanups := []\<rparr>)"
    using invalidate_bounds [OF iv] assms(2) within_bounds_fewer(1) by auto
  have "pw' = pw1 \<or> pw' = pw1\<lparr>pw_deferred_cleanups := []\<rparr> \<or> pw' = clear_diagnostics (pw1\<lparr>pw_deferred_cleanups := []\<rparr>) \<or>
      pw' = clear_diagnostics (pw1\<lparr>pw_deferred_cleanups := [], pw_max_event_id := 0, pw_checkpoint_reset := False,
                                    pw_checkpoint_invalidated := False\<rparr>)"
    using assms(1) [unfolded persist_checkpoint_def iv prod.case Let_def]
    by (auto split: bool.splits if_split_asm prod.splits)
  with b1 show ?thesis by auto
qed

lemma enforce_stops:
  "enforce_worker_plan_bound cfg pw = (ok, pw') \<Longrightarrow> within_bounds cfg pw' \<or> \<not> ok \<and> pw_worker_scope_failure pw'"
  by (erule enforce_cases) (auto simp: compressed_def within_bounds_def worker_plan_size_def)

lemma turn_bounded:
  assumes turn: "worker_turn cfg ops due new pw w = (fin, pw', w', scs)"
  shows "within_bounds cfg pw' \<or> \<not> fin \<and> pw_worker_scope_failure pw'"
  using turn
proof (cases rule: worker_turn_parts)
  case (stopped ok pw1)
  then obtain ready where "invalidate_wrapped_checkpoint ops pw1 w = (ready, pw', w')" by blast
  from invalidate_bounds [OF this] enforce_bounded stopped(1,2) show ?thesis
    unfolding merge_batch_def by fastforce
next
  case (went pw1 pw2 w1 pw3 w2 inside pw4)
  note b4 = enforce_stops [OF went(4)]
  show ?thesis
  proof (cases inside)
    case False
    with went b4 show ?thesis by auto
  next
    case True
    with went(5) have p: "persist_checkpoint ops pw4 w2 = (fin, pw', w')" by simp
    have "within_bounds cfg pw4" using b4 True by simp
    from persist_pending [OF p this] show ?thesis ..
  qed
qed

subsection \<open>A recovery\<close>

lemma refreshed_path_retry_roots [simp]: "pw_retry_roots (refreshed_path p s pw) = pw_retry_roots pw"
  by (auto simp: refreshed_path_def retain_incomplete_def Let_def split: option.splits)

lemma refresh_all_retry_roots: "refresh_all refresh ps pw w = (pw', w', scs) \<Longrightarrow> pw_retry_roots pw' = pw_retry_roots pw"
proof (induction ps arbitrary: pw w scs)
  case (Cons p ps)
  obtain s w1 where r: "refresh p w = (s, w1)" by fastforce
  obtain scs' where "refresh_all refresh ps (refreshed_path p s pw) w1 = (pw', w', scs')"
    using Cons.prems r by (auto split: prod.splits)
  then show ?case using Cons.IH by fastforce
qed simp

lemma fold_keeps_nonempty: "m \<noteq> [] \<or> ps \<noteq> [] \<Longrightarrow> fold (\<lambda>p. AList.update (f p) fl) ps m \<noteq> []"
proof (induction ps arbitrary: m)
  case (Cons p ps)
  then show ?case by (simp add: update_nonempty)
qed simp

lemma process_rescan:
  assumes p: "process_pending cfg due refresh rescan pw w = (pw', w', scs)" and r: "pw_rescan_roots (due_work cfg due pw)"
  shows "has_work pw' \<or> (\<exists>s. rescan w = (Some s, w') \<and> is_warnings s = [] \<and> scs = [(None, Some s)] \<and>
      (pw_deferred_cleanups pw' = pw_deferred_cleanups pw \<or> pw_deferred_cleanups pw' = []))"
proof -
  let ?d = "due_work cfg due pw"
  have d: "pw_deferred_cleanups ?d = pw_deferred_cleanups pw" by (simp add: due_work_def Let_def)
  obtain outcome w1 where run: "rescan w = (outcome, w1)" by fastforce
  show ?thesis
  proof (cases outcome)
    case None
    let ?d' = "?d\<lparr>pw_rescan_roots := False, pw_retry_roots := True\<rparr>"
    obtain pw3 w3 scs' where q: "refresh_paths refresh ?d' w1 = (pw3, w3, scs')" by (metis prod_cases3)
    then have "pw_retry_roots pw3" using refresh_all_retry_roots by (fastforce simp: refresh_paths_def clear_paths_def)
    with p r run None q show ?thesis by (simp add: process_pending_def Let_def has_work_def has_retries_def)
  next
    case (Some s)
    show ?thesis
    proof (cases "is_warnings s = []")
      case True
      with p r d run Some show ?thesis by (auto simp: process_pending_def Let_def clear_paths_def split: if_split_asm)
    next
      case False
      then have "pw' = retain_incomplete s ((clear_paths (?d\<lparr>pw_rescan_roots := False\<rparr>))
          \<lparr>pw_retry_paths := [], pw_retry_roots := (is_retry_paths s = [])\<rparr>)"
        using p r run Some by (simp add: process_pending_def Let_def)
      moreover have "is_retry_paths s \<noteq> [] \<Longrightarrow> fold (\<lambda>p. AList.update (to_string_lossy p) 0) (is_retry_paths s) ([] :: path_flags) \<noteq> []"
        by (rule fold_keeps_nonempty) simp
      ultimately have "pw_retry_roots pw' \<or> pw_retry_paths pw' \<noteq> []" by (auto simp: retain_incomplete_def)
      then show ?thesis by (auto simp: has_work_def has_retries_def)
    qed
  qed
qed

lemma enforce_has_work: "enforce_worker_plan_bound cfg pw = (ok, pw') \<Longrightarrow> has_work pw \<Longrightarrow> has_work pw'"
  by (erule enforce_cases) (auto simp: has_work_def has_retries_def compressed_def)

lemma persist_work:
  assumes "persist_checkpoint ops pw w = (True, pw', w')"
  shows "\<not> has_work pw"
proof
  assume work: "has_work pw"
  obtain ready pw1 w1 where iv: "invalidate_wrapped_checkpoint ops pw w = (ready, pw1, w1)" by (metis prod_cases3)
  with work have "has_work pw1" using invalidate_bounds [OF iv] by auto
  then show False using assms by (auto simp: persist_checkpoint_def iv split: bool.splits)
qed

text \<open>The files of the database: only scans and clean-ups touch them.\<close>

definition db_files :: "watch_db \<Rightarrow> file_record list" where
  "db_files w = ix_files (cn_db (wd_conn w))"

lemma set_checkpoint_files: "wo_set_checkpoint (db_ops cfg env) i w = (ok, w') \<Longrightarrow> db_files w' = db_files w"
  by (auto simp: db_ops_def watch_set_checkpoint_def db_files_def set_meta_def Let_def split: if_split_asm)

lemma invalidate_files: "invalidate_wrapped_checkpoint (db_ops cfg env) pw w = (ok, pw', w') \<Longrightarrow> db_files w' = db_files w"
  by (auto simp: invalidate_wrapped_checkpoint_def split: if_split_asm prod.splits bool.splits dest: set_checkpoint_files)

lemma persist_files:
  assumes "persist_checkpoint (db_ops cfg env) pw w = (fin, pw', w')" and none: "pw_deferred_cleanups pw = []"
  shows "db_files w' = db_files w"
proof -
  obtain ready pw1 w1 where iv: "invalidate_wrapped_checkpoint (db_ops cfg env) pw w = (ready, pw1, w1)" by (metis prod_cases3)
  have d: "pw_deferred_cleanups pw1 = []" using invalidate_bounds [OF iv] none by auto
  obtain b w2 where c: "wo_set_checkpoint (db_ops cfg env) (pw_max_event_id pw1) w1 = (b, w2)" by fastforce
  show ?thesis
    using assms(1) [unfolded persist_checkpoint_def iv prod.case Let_def] d invalidate_files [OF iv] c set_checkpoint_files [OF c]
    by (auto split: bool.splits if_split_asm)
qed

lemma mirrors_files:
  assumes "ix_files db1 = ix_files db0" "ix_files db3 = ix_files db2" "mirrors env roots db1 db2"
  shows "mirrors env roots db0 db3"
proof -
  have "row_with_path db1 = row_with_path db0" "row_with_path db3 = row_with_path db2"
    using assms(1,2) by (simp_all add: row_with_path_def fun_eq_iff)
  with assms(3) show ?thesis by (simp add: mirrors_def)
qed

lemma enforce_no_debt:
  "enforce_worker_plan_bound cfg pw = (ok, pw') \<Longrightarrow> \<not> needs_legacy_generation pw \<Longrightarrow> \<not> needs_legacy_generation pw'"
  by (auto simp: needs_legacy_generation_def enforce_worker_plan_bound_def Let_def clear_paths_def max_generation_def
      split: prod.splits if_split_asm)

lemma insert_entries_debt:
  "needs_legacy_generation (fold (\<lambda>(p, fl). insert_path cfg p fl) m pw) = needs_legacy_generation pw"
proof (induction m arbitrary: pw)
  case (Cons e m)
  then show ?case by (cases e) (simp add: insert_path_def needs_legacy_generation_def split: option.split)
qed simp

lemma insert_entries_retry: "pw_retry_roots (fold (\<lambda>(p, fl). insert_path cfg p fl) m pw) = pw_retry_roots pw"
proof (induction m arbitrary: pw)
  case (Cons e m)
  then show ?case by (cases e) (simp add: insert_path_def split: option.split)
qed simp

lemma merge_rescan:
  assumes "pw_rescan_roots new \<or> pw_rescan_roots pw \<or> due \<and> pw_retry_roots pw" "\<not> needs_legacy_generation pw"
    "merge_batch cfg new pw = (ok, pw1)"
  shows "pw_rescan_roots (due_work cfg due pw1)" "\<not> needs_legacy_generation pw1"
proof -
  have m: "\<not> needs_legacy_generation (merge_incoming cfg new pw)"
    using assms(2) unfolding merge_incoming_def Let_def
    by (simp add: insert_entries_debt) (simp add: needs_legacy_generation_def clear_paths_def)
  then show "\<not> needs_legacy_generation pw1" using enforce_no_debt assms(3) unfolding merge_batch_def by blast
  have r: "pw_rescan_roots (merge_incoming cfg new pw) \<or> due \<and> pw_retry_roots (merge_incoming cfg new pw)"
    using assms(1) unfolding merge_incoming_def Let_def by (auto simp: insert_entries_retry clear_paths_def)
  have "pw_rescan_roots pw1 \<or> due \<and> pw_retry_roots pw1"
    using assms(3) unfolding merge_batch_def by (elim enforce_cases) (use r in \<open>auto simp: compressed_def\<close>)
  then show "pw_rescan_roots (due_work cfg due pw1)" by (auto simp: due_work_def Let_def)
qed

lemma set_checkpoint_calls: "wd_calls (snd (wo_set_checkpoint (db_ops cfg env) i w)) = wd_calls w + 1"
  by (simp add: db_ops_def watch_set_checkpoint_def Let_def split: option.splits)

lemma invalidate_calls:
  assumes "invalidate_wrapped_checkpoint (db_ops cfg env) pw w = (ok, pw', w')"
  shows "wd_calls w' = wd_calls w + (if wrapped pw then 1 else 0)"
  using assms set_checkpoint_calls [of cfg env 0 w]
  by (auto simp: invalidate_wrapped_checkpoint_def wrapped_def split: if_split_asm prod.splits bool.splits)

lemma due_work_invalidated:
  "pw_rescan_roots (due_work cfg due (pw\<lparr>pw_checkpoint_invalidated := b\<rparr>)) = pw_rescan_roots (due_work cfg due pw)"
  by (simp add: due_work_def Let_def)

lemma recovery_mirrors:
  assumes turn: "worker_turn cfg (db_ops cfg env) due new pw w = (True, pw', w', scs)"
    and event: "pw_rescan_roots new \<or> pw_rescan_roots pw \<or> due \<and> pw_retry_roots pw" "\<not> needs_legacy_generation pw"
    and db: "ix_ok (cn_db (wd_conn w))" "\<forall>n. alloc_ok (sr_alloc (we_request env n))"
    and n: "n = wd_calls w + (if wrapped (snd (merge_batch cfg new pw)) then 1 else 0)"
  shows "\<exists>s. scs = [(None, Some s)] \<and> is_warnings s = [] \<and>
    ((is_legacy_fallback s \<longrightarrow> older_rows (cn_db (wd_conn w)) (sr_generation (we_request env (n + 1)))) \<longrightarrow>
     mirrors (env_of (we_request env (if is_legacy_fallback s then n + 1 else n)) (we_excludes env)) (wc_roots cfg)
       (cn_db (wd_conn w)) (cn_db (wd_conn w')))"
  using turn
proof (cases rule: worker_turn_parts)
  case (went pw1 pw2 w1 pw3 w2 inside pw4)
  note start = merge_rescan [OF event went(1)]
  have p2: "pw_rescan_roots (due_work cfg due pw2)" "\<not> needs_legacy_generation pw2"
    using invalidate_bounds [OF went(2)] start due_work_invalidated by (auto simp: needs_legacy_generation_def)
  from went(5) have per: "persist_checkpoint (db_ops cfg env) pw4 w2 = (True, pw', w')" by (auto split: if_split_asm)
  from persist_work [OF per] have idle: "\<not> has_work pw3" using enforce_has_work [OF went(4)] by blast
  with process_rescan [OF went(3) p2(1)] obtain s where s: "wo_rescan (db_ops cfg env) (needs_legacy_generation pw2) w1 = (Some s, w2)"
      "is_warnings s = []" "pw_deferred_cleanups pw3 = []" "scs = [(None, Some s)]"
    using p2(2) by (auto simp: needs_legacy_generation_def)
  have d4: "pw_deferred_cleanups pw4 = []"
    using went(4) by (elim enforce_cases) (use s(3) in \<open>auto simp: compressed_def\<close>)
  have calls: "wd_calls w1 = n" using invalidate_calls [OF went(2)] n went(1) by simp
  have run: "refresh_roots (we_request env n) (we_request env (n + 1)) (wc_roots cfg) (we_excludes env) (wd_conn w1) = (Some s, wd_conn w2)"
    using s(1) p2(2) calls by (auto simp: db_ops_def watch_rescan_def Let_def split: prod.splits)
  have files: "db_files w1 = db_files w" "db_files w' = db_files w2"
    using invalidate_files [OF went(2)] persist_files [OF per d4] by simp_all
  have ok: "ix_ok (cn_db (wd_conn w1))" using db(1) files(1) by (simp add: ix_ok_def db_files_def)
  have "mirrors (env_of (we_request env (if is_legacy_fallback s then n + 1 else n)) (we_excludes env)) (wc_roots cfg)
      (cn_db (wd_conn w)) (cn_db (wd_conn w'))"
    if older: "is_legacy_fallback s \<longrightarrow> older_rows (cn_db (wd_conn w)) (sr_generation (we_request env (n + 1)))"
  proof (rule mirrors_files [rotated 2])
    have "is_legacy_fallback s \<Longrightarrow> older_rows (cn_db (wd_conn w1)) (sr_generation (we_request env (n + 1)))"
      using older files(1) by (simp add: older_rows_def db_files_def)
    from refresh_roots_outcome [OF ok _ _ this run] db(2) s(2)
    show "mirrors (env_of (we_request env (if is_legacy_fallback s then n + 1 else n)) (we_excludes env)) (wc_roots cfg)
      (cn_db (wd_conn w1)) (cn_db (wd_conn w2))" by (simp split: if_split_asm)
  qed (use files in \<open>simp_all add: db_files_def\<close>)
  with s show ?thesis by blast
qed simp

text \<open>The writes of the database succeed unless SQLite refuses to write or to commit.\<close>

lemma cleanup_all_succeeds:
  "\<forall>c \<in> set cs. bindable (to_string_lossy (fst c)) \<Longrightarrow> \<exists>db'. cleanup_all cs db = Some db'"
proof (induction cs db rule: cleanup_all.induct)
  case (2 path generation cs db)
  then have b: "bindable (to_string_lossy path)" by simp
  obtain n db1 where "delete_stale_under_roots [to_string_lossy path] generation db = Some (n, db1)"
    using b by (cases "path_prefix_bounds (to_string_lossy path)") (auto simp: delete_where_def Let_def)
  with 2 show ?case by (simp del: delete_stale_under_roots.simps)
qed simp

lemma digits_bindable [simp]: "bindable (nat_to_str n)"
proof -
  have "\<not> is_digit (CHR 0x00)" by (simp add: is_digit_def byte_def)
  then have "CHR 0x00 \<notin> set (nat_to_str n)" using nat_to_str_digits [of n] by (auto simp: list_all_iff)
  then show ?thesis by (simp add: bindable_def)
qed

lemma db_writes_succeed:
  assumes "\<forall>n. we_can_set env n" and "\<forall>n db. sr_can_commit (we_request env n) db"
    and "\<forall>c \<in> set cs. bindable (to_string_lossy (fst c))"
  shows "writes_succeed db_fine (db_ops cfg env) cs"
  unfolding writes_succeed_def
proof (intro allI impI conjI)
  fix w :: watch_db and n :: nat
  assume w: "db_fine w"
  show "fst (wo_set_checkpoint (db_ops cfg env) n w)"
    using assms(1) by (simp add: db_ops_def watch_set_checkpoint_def set_meta_def Let_def)
  obtain db' where "cleanup_all cs (cn_db (wd_conn w)) = Some db'" using cleanup_all_succeeds [OF assms(3)] by blast
  with w assms(2) show "fst (wo_cleanup (db_ops cfg env) cs w)"
    by (simp add: db_ops_def watch_cleanup_def db_fine_def begin_write_def finish_write_def commit_def Let_def)
qed

subsection \<open>Properties\<close>

text \<open>An example: the stored checkpoint is 5, and an event arrives for a file below the root.\<close>

definition example_watch :: watch_config where
  "example_watch = \<lparr>wc_capacity = length, wc_hash = (\<lambda>_. 0), wc_roots = [''/r'']\<rparr>"

definition example_filter :: event_filter where
  "example_filter = event_filter_new ''/db/index.sqlite'' [''skip'']"

definition example_env :: watch_env where
  "example_env = \<lparr>we_request = (\<lambda>_. example_request), we_can_set = (\<lambda>_. True), we_excludes = [''skip'']\<rparr>"

definition example_world :: watch_db where
  "example_world =
     \<lparr>wd_conn = example_connection\<lparr>cn_db := (cn_db example_connection)\<lparr>ix_meta := [(meta_last_event_id, ''5'')]\<rparr>\<rparr>,
      wd_calls = 0\<rparr>"

definition example_event :: raw_event where
  "example_event = \<lparr>re_path = Some ''/r/a.txt'', re_flags = 0, re_id = 6\<rparr>"

definition example_watching :: "watch_db watch_state" where
  "example_watching =
     \<lparr>wt_callback = callback_event example_watch 0 example_event (callback_new example_filter),
      wt_worker = pending_default, wt_world = example_world, wt_new = [example_event], wt_past = [], wt_last = 6,
      wt_orderly = True\<rparr>"

lemma example_stored: "stored_event_id example_world = Some 5"
  by code_simp

lemma example_reachable:
  "watch_reachable example_watch example_filter (db_ops example_watch example_env) db_fine stored_event_id example_watching"
proof -
  let ?reach = "watch_reachable example_watch example_filter (db_ops example_watch example_env) db_fine stored_event_id"
  let ?st = "\<lparr>wt_callback = callback_new example_filter, wt_worker = pending_default, wt_world = example_world,
      wt_new = [], wt_past = start_history 9 [], wt_last = 5, wt_orderly = True\<rparr>"
  have "watch_start (db_ops example_watch example_env) (stored_event_id example_world) 9 example_world =
      (Some (pending_default, 5, []), example_world)"
    by (simp add: example_stored watch_start_def resolve_since_when_def since_now_def)
  moreover have "db_fine example_world" by (simp add: db_fine_def example_world_def example_connection_def)
  ultimately have "?reach ?st"
    using watch_reachable.reach_start [of db_fine example_world 9 "db_ops example_watch example_env" stored_event_id
        pending_default 5 "[]" example_world] by (simp add: example_stored start_in_order_def)
  moreover have "watch_step example_watch (db_ops example_watch example_env) db_fine stored_event_id ?st
      (deliver example_watch 0 example_event ?st)"
    by (intro watch_step.step_event) (simp_all add: callback_new_def inbox_new_def example_event_def)
  ultimately have "?reach (deliver example_watch 0 example_event ?st)"
    by (rule watch_reachable.reach_step)
  moreover have "\<not> unnumbered example_event" "in_order 5 example_event" by code_simp+
  then have "deliver example_watch 0 example_event ?st = example_watching"
    by (simp add: deliver_def example_watching_def start_history_def) (simp add: example_event_def)
  ultimately show ?thesis by simp
qed

text \<open>Then the system announces that the root moved, with the id 0.\<close>

definition example_root_moved :: raw_event where
  "example_root_moved = \<lparr>re_path = Some ''/r'', re_flags = flag_root_changed, re_id = 0\<rparr>"

definition example_moved :: "watch_db watch_state" where
  "example_moved = deliver example_watch 1 example_root_moved example_watching"

lemma example_moved_reachable:
  "watch_reachable example_watch example_filter (db_ops example_watch example_env) db_fine stored_event_id example_moved"
proof -
  have "\<not> ib_closed (cb_inbox (wt_callback example_watching))" by code_simp
  then have "watch_step example_watch (db_ops example_watch example_env) db_fine stored_event_id example_watching example_moved"
    unfolding example_moved_def by (intro watch_step.step_event) (simp_all add: example_root_moved_def)
  with example_reachable show ?thesis by (rule watch_reachable.reach_step)
qed

lemma example_roots: "roots_ok example_watch"
  by code_simp

lemma example_unscanned: "(example_event, ''/r/a.txt'') \<in> unscanned example_watch example_filter (wt_history example_watching)"
proof -
  have "in_roots example_watch ''/r/a.txt''" "tracked example_filter ''/r/a.txt''" "\<not> history_marker 0" by code_simp+
  then have "''/r/a.txt'' \<in> dirty example_watch example_filter example_event" by (simp add: dirty_def example_event_def)
  then show ?thesis by (simp add: wt_history_def example_watching_def)
qed

lemma example_moved_unscanned:
  "(example_root_moved, ''/r/b.txt'') \<in> unscanned example_watch example_filter (wt_history example_moved)"
proof -
  have "in_roots example_watch ''/r/b.txt''" "tracked example_filter ''/r/b.txt''"
    "action_for_flags flag_root_changed = RescanRoots" by code_simp+
  then have "''/r/b.txt'' \<in> dirty example_watch example_filter example_root_moved"
    by (simp add: dirty_def example_root_moved_def)
  then show ?thesis by (simp add: wt_history_def example_moved_def deliver_def)
qed

text \<open>C12: No change is forgotten. In every reachable state, for every event delivered while the inbox is
  open and every path it made uncertain (tracked, valid UTF-8, below a root), either a later scan has
  read the path, or the inbox or the worker still owes it a scan: one of their paths covers it, or a
  rescan of the roots is due, or the worker has stopped with a scope failure and keeps its debts.
  Nothing is asked of the ids of the events (those of root changes are 0, and others may repeat or
  fall), of their flags and paths, of the checkpoint the watcher started with or of what other
  processes do to the database. It holds across the filter, the folding of paths, overflows of the
  inbox, the compression of the worker's plan, failed and partial scans and retries. The roots are
  texts, and an event without a path, which the callback skips, makes nothing uncertain.\<close>

theorem no_change_forgotten:
  assumes "watch_reachable cfg flt (db_ops cfg env) db_fine stored_event_id st" and "roots_ok cfg"
    and "(raw, y) \<in> unscanned cfg flt (wt_history st)"
  shows "owes (ib_pending (cb_inbox (wt_callback st))) y \<or> owes (wt_worker st) y"
  using assms by (rule wd.reachable_owes)

theorem no_change_forgotten_witness:
  "owes (ib_pending (cb_inbox (wt_callback example_moved))) ''/r/b.txt'' \<or> owes (wt_worker example_moved) ''/r/b.txt''"
  by (rule no_change_forgotten [OF example_moved_reachable example_roots example_moved_unscanned])

text \<open>C13: A crash loses no numbered change. In every reachable state the checkpoint in the database never
  passes an event whose paths were not all scanned: when the watcher starts again with it, whatever
  the current event id is, the system delivers the event again or all roots are scanned. This rests
  on the order of the ids: so far every event id was above those before it, unless it carries the flag
  that the ids begin again; the watcher did not start with a checkpoint above the event id of the
  system; and no other process wrote the checkpoint. It says nothing of events outside the order,
  which the system never replays: a change of a root (id 0), an event whose id was not given, and the
  marker that ends the history. For the others the only exception is the short time after the ids
  began again and before the old checkpoint is invalidated, which the pending work records.\<close>

theorem checkpoint_replays_unscanned:
  assumes "watch_reachable cfg flt (db_ops cfg env) db_fine stored_event_id st" and "roots_ok cfg"
    and "(raw, y) \<in> unscanned cfg flt (wt_history st)" and "wt_orderly st" and "\<not> unnumbered raw"
  shows "replayed (stored_event_id (wt_world st)) current raw \<or> wrapped (wt_worker st) \<or>
    pw_checkpoint_reset (ib_pending (cb_inbox (wt_callback st)))"
  using assms by (rule wd.reachable_replays)

theorem checkpoint_replays_unscanned_witness:
  "replayed (stored_event_id (wt_world example_watching)) 9 example_event"
proof -
  have "\<not> wrapped (wt_worker example_watching)"
    "\<not> pw_checkpoint_reset (ib_pending (cb_inbox (wt_callback example_watching)))"
    "wt_orderly example_watching" "\<not> unnumbered example_event" by code_simp+
  with checkpoint_replays_unscanned [OF example_reachable example_roots example_unscanned, of 9] show ?thesis by blast
qed

text \<open>The limit of C13: a pending change of a root is not replayed from a usable checkpoint.\<close>

lemma unnumbered_not_replayed:
  "re_id raw = 0 \<Longrightarrow> c \<noteq> 0 \<Longrightarrow> c \<noteq> since_now \<Longrightarrow> c \<le> current \<Longrightarrow> \<not> replayed (Some c) current raw"
  by (simp add: replayed_def resolve_since_when_def)

text \<open>C14: A turn of the worker that reports completion leaves nothing unscanned: every tracked path below a
  root that an event made uncertain, of all events delivered since the watcher started and before the
  worker took the batch of this turn, was read by a scan after that delivery, and no work, no retry
  and no clean-up is left behind. Like C12 it asks nothing of the ids of the events, of the checkpoint
  at the start or of other processes.\<close>

theorem complete_turn_scans_everything:
  assumes "watch_reachable cfg flt (db_ops cfg env) db_fine stored_event_id st" and "roots_ok cfg"
    and "worker_turn cfg (db_ops cfg env) due (ib_pending (cb_inbox (wt_callback st))) (wt_worker st) (wt_world st) =
      (True, pw, w, scs)"
  shows "unscanned cfg flt (rev (map Scanned scs) @ wt_history st) = {} \<and> \<not> has_work pw \<and> pw_deferred_cleanups pw = []"
  using assms by (rule wd.complete_turn_scanned)

definition example_turn :: "bool \<times> pending_work \<times> watch_db \<times> scan list" where
  "example_turn = worker_turn example_watch (db_ops example_watch example_env) True
     (ib_pending (cb_inbox (wt_callback example_watching))) (wt_worker example_watching) (wt_world example_watching)"

definition example_moved_turn :: "bool \<times> pending_work \<times> watch_db \<times> scan list" where
  "example_moved_turn = worker_turn example_watch (db_ops example_watch example_env) True
     (ib_pending (cb_inbox (wt_callback example_moved))) (wt_worker example_moved) (wt_world example_moved)"

theorem complete_turn_scans_everything_witness:
  "fst example_moved_turn \<and>
   unscanned example_watch example_filter (rev (map Scanned (snd (snd (snd example_moved_turn)))) @ wt_history example_moved) = {}"
proof -
  have "wt_worker example_moved = pending_default" "wt_world example_moved = example_world"
    by (simp_all add: example_moved_def deliver_def example_watching_def)
  then have "example_moved_turn = worker_turn example_watch (db_ops example_watch example_env) True
      (ib_pending (cb_inbox (wt_callback example_moved))) pending_default example_world"
    by (simp add: example_moved_turn_def)
  moreover have "fst \<dots>" by code_simp
  ultimately have "fst example_moved_turn" by simp
  then obtain pw w scs where t: "example_moved_turn = (True, pw, w, scs)" by (metis prod.collapse)
  show ?thesis
    unfolding t fst_conv snd_conv
    using complete_turn_scans_everything [OF example_moved_reachable example_roots t [unfolded example_moved_turn_def]] by simp
qed

text \<open>C17: The memory for paths is bounded. In every reachable state the inbox holds at most 16384 paths
  whose strings have a capacity of at most 4 MiB. The plan of the worker (its paths, retries and
  deferred clean-ups) is within the same bounds when it begins to scan and when its turn ends,
  unless the worker stopped with a scope failure, after which it makes no more scans. Not bounded are
  the retries that an incomplete first scan leaves until the first turn, and those that the scans of
  a turn add until its end.\<close>

theorem watch_memory_bounded:
  assumes "watch_reachable cfg flt ops fine stored st"
  shows "length (pw_paths (ib_pending (cb_inbox (wt_callback st)))) \<le> 16384 \<and>
     capacities cfg (pw_paths (ib_pending (cb_inbox (wt_callback st)))) \<le> 4194304 \<and>
     (merge_batch cfg (ib_pending (cb_inbox (wt_callback st))) (wt_worker st) = (ok, plan) \<longrightarrow>
      fst (worker_plan_size cfg plan) \<le> 16384 \<and> snd (worker_plan_size cfg plan) \<le> 4194304 \<or>
      \<not> ok \<and> pw_worker_scope_failure plan) \<and>
     (worker_turn cfg ops due (ib_pending (cb_inbox (wt_callback st))) (wt_worker st) (wt_world st) = (fin, pw, w, scs) \<longrightarrow>
      fst (worker_plan_size cfg pw) \<le> 16384 \<and> snd (worker_plan_size cfg pw) \<le> 4194304 \<or>
      \<not> fin \<and> pw_worker_scope_failure pw)"
proof -
  note turn = turn_bounded [of cfg ops due "ib_pending (cb_inbox (wt_callback st))" "wt_worker st" "wt_world st" fin pw w scs]
  note plan = enforce_stops [of cfg "merge_incoming cfg (ib_pending (cb_inbox (wt_callback st))) (wt_worker st)" ok plan]
  show ?thesis
    using reachable_bounded [OF assms] turn plan
    by (auto simp: merge_batch_def inbox_bounded_def within_bounds_def inbox_max_paths_def inbox_max_path_bytes_def)
qed

theorem watch_memory_bounded_witness:
  "length (pw_paths (ib_pending (cb_inbox (wt_callback example_watching)))) \<le> 16384 \<and>
   fst (worker_plan_size example_watch (fst (snd example_turn))) \<le> 16384"
proof -
  obtain fin pw w scs where t: "example_turn = (fin, pw, w, scs)" by (metis prod.collapse)
  have "\<not> pw_worker_scope_failure (fst (snd example_turn))" by code_simp
  with watch_memory_bounded [OF example_reachable, of _ _ True fin pw w scs] t show ?thesis by (simp add: example_turn_def)
qed

text \<open>C16: The worker makes progress. A turn with retries due, whose plan is within the configured roots,
  whose scans all return without a warning, on a connection with no transaction open and a database
  that lets the checkpoint be written and transactions commit, is complete: no path, no retry, no
  recovery, no clean-up and no checkpoint is left pending, however much had been. (The paths of the
  clean-ups are without NUL bytes, as paths of the system are.)\<close>

theorem clean_turn_completes:
  assumes "worker_turn cfg (db_ops cfg env) True new pw w = (fin, pw', w', scs)"
    and "merge_batch cfg new pw = (True, pw1)" "\<not> pw_worker_scope_failure pw1" "pw_max_event_id pw1 < 2 ^ 64"
    and "list_all clean_scan scs" and "cn_saved (wd_conn w) = None"
    and "\<forall>n. we_can_set env n" "\<forall>n db. sr_can_commit (we_request env n) db"
    and "\<forall>c \<in> set (pw_deferred_cleanups pw1). bindable (to_string_lossy (fst c))"
  shows "fin \<and> \<not> has_pending pw'"
  using wd.clean_turn [OF assms(1) _ assms(2-5) db_writes_succeed [OF assms(7-9)]] assms(6) by (simp add: db_fine_def)

text \<open>A worker with a retry of the roots, a checkpoint to write and a clean-up it put off.\<close>

definition example_debts :: pending_work where
  "example_debts = pending_default\<lparr>pw_retry_roots := True, pw_max_event_id := 4, pw_deferred_cleanups := [(''/r/x'', 3)]\<rparr>"

theorem clean_turn_completes_witness:
  "has_pending example_debts \<and>
   fst (worker_turn example_watch (db_ops example_watch example_env) True
     (ib_pending (cb_inbox (wt_callback example_watching))) example_debts example_world)"
proof -
  let ?new = "ib_pending (cb_inbox (wt_callback example_watching))"
  let ?run = "worker_turn example_watch (db_ops example_watch example_env) True ?new example_debts example_world"
  obtain fin pw' w' scs where t: "?run = (fin, pw', w', scs)" by (metis prod.collapse)
  obtain ok pw1 where m: "merge_batch example_watch ?new example_debts = (ok, pw1)" by fastforce
  have "fst (merge_batch example_watch ?new example_debts)"
    "\<not> pw_worker_scope_failure (snd (merge_batch example_watch ?new example_debts))"
    "pw_max_event_id (snd (merge_batch example_watch ?new example_debts)) = 6"
    "pw_deferred_cleanups (snd (merge_batch example_watch ?new example_debts)) = [(''/r/x'', 3)]"
    by code_simp+
  with m have plan: "merge_batch example_watch ?new example_debts = (True, pw1)" "\<not> pw_worker_scope_failure pw1"
    "pw_max_event_id pw1 < 2 ^ 64" "pw_deferred_cleanups pw1 = [(''/r/x'', 3)]" by simp_all
  have "list_all clean_scan (snd (snd (snd ?run)))" by code_simp
  with t have clean: "list_all clean_scan scs" by simp
  have "bindable (to_string_lossy ''/r/x'')" by code_simp
  then have names: "\<forall>c \<in> set (pw_deferred_cleanups pw1). bindable (to_string_lossy (fst c))" using plan(4) by simp
  have env: "cn_saved (wd_conn example_world) = None" "\<forall>n. we_can_set example_env n"
    "\<forall>n db. sr_can_commit (we_request example_env n) db"
    by (simp_all add: example_world_def example_connection_def example_env_def example_request_def)
  have "has_pending example_debts" by code_simp
  with clean_turn_completes [OF t plan(1-3) clean env names] t show ?thesis by simp
qed

text \<open>C15: A recovery repairs the index. When a rescan of the roots is due, from the batch (the system
  dropped events, their ids wrapped, a root changed, the inbox overflowed, or an event was outside
  the known names), from the worker's plan or as a retry, no clean-up is put off, and the turn
  reports completion, then it made exactly one scan, that of the roots, without a warning; the rows
  below the roots are exactly what the file tree held in that scan, and the rows elsewhere are those
  from before. When the scan kept a set of seen ids this holds whatever was in the index; when it
  had to fall back to generations, if the rows were older than the generation of the fallback. The
  scan is the first one of the turn: its number counts the invalidation of a wrapped checkpoint
  before it, and the fallback is the next number.\<close>

theorem recovery_turn_mirrors:
  assumes "worker_turn cfg (db_ops cfg env) due new pw w = (True, pw', w', scs)"
    and "pw_rescan_roots new \<or> pw_rescan_roots pw \<or> due \<and> pw_retry_roots pw" "\<not> needs_legacy_generation pw"
    and "ix_ok (cn_db (wd_conn w))" "\<forall>n. alloc_ok (sr_alloc (we_request env n))"
    and "n = wd_calls w + (if wrapped (snd (merge_batch cfg new pw)) then 1 else 0)"
  shows "\<exists>s. scs = [(None, Some s)] \<and> is_warnings s = [] \<and>
    ((is_legacy_fallback s \<longrightarrow> older_rows (cn_db (wd_conn w)) (sr_generation (we_request env (n + 1)))) \<longrightarrow>
     mirrors (env_of (we_request env (if is_legacy_fallback s then n + 1 else n)) (we_excludes env)) (wc_roots cfg)
       (cn_db (wd_conn w)) (cn_db (wd_conn w')))"
  using assms by (rule recovery_mirrors)

definition example_recovery :: "bool \<times> pending_work \<times> watch_db \<times> scan list" where
  "example_recovery = worker_turn example_watch (db_ops example_watch example_env) True
     (add_scoped example_watch \<lparr>ev_path = ''/r'', ev_flags = flag_user_dropped, ev_id = 8\<rparr> pending_default)
     pending_default example_world"

theorem recovery_turn_mirrors_witness:
  "mirrors (env_of example_request [''skip'']) [''/r''] (cn_db (wd_conn example_world))
     (cn_db (wd_conn (fst (snd (snd example_recovery)))))"
proof -
  have "fst example_recovery" by code_simp
  then obtain pw w scs where t: "example_recovery = (True, pw, w, scs)" by (metis prod.collapse)
  have new: "pw_rescan_roots (add_scoped example_watch \<lparr>ev_path = ''/r'', ev_flags = flag_user_dropped, ev_id = 8\<rparr> pending_default)"
    "\<not> needs_legacy_generation pending_default" by code_simp+
  have db: "ix_ok (cn_db (wd_conn example_world))" "older_rows (cn_db (wd_conn example_world)) (sr_generation example_request)"
    using example_ok(1) example_older by (simp_all add: example_world_def ix_ok_def older_rows_def)
  have env: "we_request example_env n = example_request" "we_excludes example_env = [''skip'']"
    "wc_roots example_watch = [''/r'']" for n by (simp_all add: example_env_def example_watch_def)
  show ?thesis
    unfolding t fst_conv snd_conv
    using recovery_turn_mirrors [OF t [unfolded example_recovery_def] disjI1 [OF new(1)] new(2) db(1) _ refl] db(2) example_ok(2)
    by (auto simp: env)
qed

end
