(* ===== verification/Watch_Log.thy ===== *)
theory Watch_Log
  imports Watch_Work Json Serve_Memory
begin

text \<open>
  What surrounds the worker of the watcher: the batches it takes from the inbox, the directories whose
  events the system need not deliver, and the diagnostics it writes, with their rate limit and
  their bounded files.
\<close>

subsection \<open>Batches\<close>

text \<open>Times are milliseconds of the monotonic clock.\<close>

definition batch_idle :: nat where "batch_idle = 150"
definition max_batch_wait :: nat where "max_batch_wait = 1000"

text \<open>\<open>BatchWindow\<close>: its deadline, and the next wait, if any.\<close>

definition window_new :: "nat \<Rightarrow> nat" where
  "window_new started = started + max_batch_wait"

definition next_wait :: "nat \<Rightarrow> nat \<Rightarrow> bool \<Rightarrow> bool \<Rightarrow> bool \<Rightarrow> nat option" where
  "next_wait deadline now recovery idle closed =
     (if closed \<or> (idle \<and> \<not> recovery) then None
      else let remaining = deadline - now in if remaining \<noteq> 0 then Some (min batch_idle remaining) else None)"

text \<open>
  The loop of \<open>take_batch\<close>. The list tells, for each wait, the time before it and the state of the
  inbox after it (other threads deliver meanwhile); \<open>None\<close> is a list that ends before the loop does.
\<close>

fun gather :: "nat \<Rightarrow> (nat \<times> inbox_state) list \<Rightarrow> bool \<Rightarrow> inbox_state \<Rightarrow> inbox_state option" where
  "gather deadline [] idle ib = None"
| "gather deadline ((now, later) # waits) idle ib =
     (case next_wait deadline now (pw_rescan_roots (ib_pending ib)) idle (ib_closed ib) of
        None \<Rightarrow> Some ib
      | Some _ \<Rightarrow> gather deadline waits (st_admitted (ib_stats later) = st_admitted (ib_stats ib)) later)"

text \<open>\<open>woken\<close> is the state after the first wait, for an event, for the end or for its timeout.\<close>

definition take_batch ::
  "nat \<Rightarrow> inbox_state \<Rightarrow> (nat \<times> inbox_state) list \<Rightarrow> inbox_state \<Rightarrow> (inbox_state \<times> inbox_state) option" where
  "take_batch started woken waits ib =
     (let ib1 = (if pw_event_count (ib_pending ib) = 0 \<and> \<not> ib_closed ib then woken else ib)
      in map_option take_locked
        (if 0 < pw_event_count (ib_pending ib1) \<and> \<not> ib_closed ib1
         then gather (window_new started) waits False ib1 else Some ib1))"

text \<open>The window is fixed: once the second is over the inbox is taken, whatever arrives.\<close>

lemma next_wait_over: "deadline \<le> now \<Longrightarrow> next_wait deadline now recovery idle closed = None"
  by (simp add: next_wait_def)

lemma gather_stops: "\<exists>w \<in> set waits. deadline \<le> fst w \<Longrightarrow> \<exists>ib'. gather deadline waits idle ib = Some ib'"
proof (induction waits arbitrary: idle ib)
  case (Cons w waits)
  obtain now later where w: "w = (now, later)" by fastforce
  show ?case
  proof (cases "deadline \<le> now")
    case True
    then show ?thesis by (simp add: w next_wait_over)
  next
    case False
    with Cons.prems have "\<exists>w \<in> set waits. deadline \<le> fst w" by (simp add: w)
    from Cons.IH [OF this] show ?thesis by (simp add: w split: option.split)
  qed
qed simp

lemma next_wait_within: "next_wait deadline now recovery idle closed = Some t \<Longrightarrow> 0 < t \<and> t \<le> batch_idle \<and> now + t \<le> deadline"
  by (auto simp: next_wait_def batch_idle_def Let_def split: if_split_asm)

text \<open>What is taken is the inbox as the last wait left it: nothing a push added is dropped.\<close>

lemma gather_takes: "gather deadline waits idle ib = Some ib' \<Longrightarrow> ib' = ib \<or> ib' \<in> snd ` set waits"
proof (induction waits arbitrary: idle ib)
  case (Cons w waits)
  obtain now later where w: "w = (now, later)" by fastforce
  show ?case using Cons.prems Cons.IH [of _ later] by (auto simp: w split: option.split_asm)
qed simp

subsection \<open>Directories the system may leave out\<close>

text \<open>What the file system says: \<open>canonicalize\<close> and \<open>is_dir\<close>.\<close>

record dir_facts =
  pv_canonicalize :: "str \<Rightarrow> str option"
  pv_is_dir :: "str \<Rightarrow> bool"

definition is_canonical :: "dir_facts \<Rightarrow> str \<Rightarrow> bool" where
  "is_canonical fs p \<longleftrightarrow> (case pv_canonicalize fs p of None \<Rightarrow> False | Some q \<Rightarrow> same_path q p)"

definition relative_candidates :: "str list" where
  "relative_candidates =
     [''Library'', ''.codex'', ''.cargo/registry'', ''.npm'', ''.cache'', ''.gemini'', ''.cursor'']"

definition exclusion_candidates :: "str \<Rightarrow> str list \<Rightarrow> str list" where
  "exclusion_candidates db_path roots =
     (case path_parent db_path of Some parent \<Rightarrow> [parent] | None \<Rightarrow> []) @
     concat (map (\<lambda>relative. map (\<lambda>root. path_join root relative) roots) relative_candidates)"

definition may_exclude :: "dir_facts \<Rightarrow> exclude_matcher \<Rightarrow> str list \<Rightarrow> str \<Rightarrow> bool" where
  "may_exclude fs matcher roots path \<longleftrightarrow>
     is_absolute path \<and> is_excluded matcher path \<and> pv_is_dir fs path \<and> is_canonical fs path \<and>
     (\<exists>root \<in> set roots. \<not> same_path path root \<and> path_starts_with path root) \<and>
     \<not> (\<exists>root \<in> set roots. path_starts_with root path)"

fun select_exclusions :: "dir_facts \<Rightarrow> exclude_matcher \<Rightarrow> str list \<Rightarrow> str list \<Rightarrow> str list \<Rightarrow> str list" where
  "select_exclusions fs matcher roots [] selected = selected"
| "select_exclusions fs matcher roots (path # candidates) selected =
     (if length selected = 8 then selected
      else if (\<exists>q \<in> set selected. same_path q path) \<or> \<not> may_exclude fs matcher roots path
      then select_exclusions fs matcher roots candidates selected
      else select_exclusions fs matcher roots candidates (selected @ [path]))"

definition upstream_exclusion_paths :: "dir_facts \<Rightarrow> str \<Rightarrow> str list \<Rightarrow> str list \<Rightarrow> str list" where
  "upstream_exclusion_paths fs db_path roots excludes =
     (if \<exists>root \<in> set roots. \<not> is_absolute root \<or> \<not> is_canonical fs root then []
      else select_exclusions fs (exclude_matcher_new excludes) roots (exclusion_candidates db_path roots) [])"

text \<open>
  \<open>configure_upstream_exclusions_with\<close>: the strings need no NUL byte and an allocation each;
  \<open>configure\<close> is the answer of the system.
\<close>

definition configure_upstream_exclusions :: "(str \<Rightarrow> bool) \<Rightarrow> bool \<Rightarrow> (str list \<Rightarrow> bool) \<Rightarrow> str list \<Rightarrow> bool" where
  "configure_upstream_exclusions string_made array_made configure paths =
     (if paths = [] \<or> 8 < length paths then False
      else if \<exists>p \<in> set paths. CHR 0x00 \<in> set (to_string_lossy p) \<or> \<not> string_made (to_string_lossy p) then False
      else if \<not> array_made then False
      else configure (map to_string_lossy paths))"

lemma select_exclusions_ok:
  assumes "length selected \<le> 8" "\<forall>p \<in> set selected. may_exclude fs matcher roots p"
  shows "length (select_exclusions fs matcher roots candidates selected) \<le> 8 \<and>
   (\<forall>p \<in> set (select_exclusions fs matcher roots candidates selected). may_exclude fs matcher roots p)"
  using assms
proof (induction candidates arbitrary: selected)
  case (Cons path candidates)
  consider "length selected = 8"
    | "length selected \<noteq> 8" "(\<exists>q \<in> set selected. same_path q path) \<or> \<not> may_exclude fs matcher roots path"
    | "length selected \<noteq> 8" "\<not> ((\<exists>q \<in> set selected. same_path q path) \<or> \<not> may_exclude fs matcher roots path)" by blast
  then show ?case
  proof cases
    case 1
    with Cons.prems show ?thesis by simp
  next
    case 2
    show ?thesis
      unfolding select_exclusions.simps if_not_P [OF 2(1)] if_P [OF 2(2)] by (rule Cons.IH [OF Cons.prems])
  next
    case 3
    have "length (selected @ [path]) \<le> 8" "\<forall>p \<in> set (selected @ [path]). may_exclude fs matcher roots p"
      using 3 Cons.prems by auto
    then show ?thesis
      unfolding select_exclusions.simps if_not_P [OF 3(1)] if_not_P [OF 3(2)] by (rule Cons.IH)
  qed
qed simp

lemma upstream_exclusions_ok:
  "length (upstream_exclusion_paths fs db_path roots excludes) \<le> 8 \<and>
   (\<forall>p \<in> set (upstream_exclusion_paths fs db_path roots excludes).
      is_excluded (exclude_matcher_new excludes) p \<and> \<not> (\<exists>root \<in> set roots. path_starts_with root p))"
proof -
  have "length (select_exclusions fs (exclude_matcher_new excludes) roots c []) \<le> 8 \<and>
    (\<forall>p \<in> set (select_exclusions fs (exclude_matcher_new excludes) roots c []).
       may_exclude fs (exclude_matcher_new excludes) roots p)" for c
    by (rule select_exclusions_ok) simp_all
  then show ?thesis unfolding upstream_exclusion_paths_def may_exclude_def by (simp split: if_split)
qed

text \<open>
  A database path without a directory has the empty path as its parent, and every path starts with
  it: the filter then rejects every event that does not ask for a rescan of the roots.
\<close>

lemma bare_name_ignores_events:
  assumes "action_for_flags fl \<noteq> RescanRoots"
  shows "\<not> fst (filter_accepts p fl (event_filter_new ''index.sqlite'' excludes))"
proof -
  have "path_parent ''index.sqlite'' = Some []" "path_components [] = []" by code_simp+
  with assms show ?thesis
    by (simp add: filter_accepts_def event_filter_new_def is_ignored_event_path_def path_starts_with_def)
qed

subsection \<open>Diagnostic lines\<close>

definition bool_text :: "bool \<Rightarrow> str" where
  "bool_text b = (if b then ''true'' else ''false'')"

definition hex16 :: "nat \<Rightarrow> str" where
  "hex16 n = map (\<lambda>i. hex_digit (n div 16 ^ (15 - i) mod 16)) [0..<16]"

definition option_json :: "('a \<Rightarrow> str) \<Rightarrow> 'a option \<Rightarrow> str" where
  "option_json f v = (case v of None \<Rightarrow> ''null'' | Some x \<Rightarrow> f x)"

definition object_json :: "(str \<times> str) list \<Rightarrow> str" where
  "object_json kvs = ''{'' @ join_with '','' (map (\<lambda>(name, v). json_field name v) kvs) @ ''}''"

definition event_sample_json :: "event_sample \<Rightarrow> str" where
  "event_sample_json s =
     object_json [(''flags'', nat_to_str (unat (es_flags s))), (''id'', nat_to_str (es_id s)),
       (''path_hash'', quote (hex16 (es_path_hash s)))]"

definition raw_counts_json :: "raw_counts \<Rightarrow> str" where
  "raw_counts_json c =
     object_json [(''must_scan'', nat_to_str (rc_must_scan c)), (''user_dropped'', nat_to_str (rc_user_dropped c)),
       (''kernel_dropped'', nat_to_str (rc_kernel_dropped c)), (''ids_wrapped'', nat_to_str (rc_ids_wrapped c)),
       (''root_changed'', nat_to_str (rc_root_changed c)),
       (''first_id'', option_json nat_to_str (rc_first_id c)), (''last_id'', option_json nat_to_str (rc_last_id c))]"

record log_info =
  li_retry_due :: bool
  li_indexed :: nat
  li_written :: nat
  li_unchanged :: nat
  li_stale_removed :: nat
  li_legacy_fallback :: bool
  li_warnings :: nat
  li_elapsed_ms :: nat
  li_received :: nat
  li_rejected :: nat
  li_received_flags :: flags
  li_callback_count :: nat
  li_callback_events :: nat
  li_callback_total_ns :: nat
  li_callback_max_ns :: nat
  li_inbox_admitted :: nat
  li_inbox_coalesced :: nat
  li_inbox_overflows :: nat
  li_inbox_highwater_paths :: nat
  li_inbox_highwater_bytes :: nat
  li_first_delivery_age_ms :: nat
  li_last_delivery_age_ms :: nat
  li_upstream_requested :: nat
  li_upstream_accepted :: bool

definition log_info_default :: log_info where
  "log_info_default =
     \<lparr>li_retry_due = False, li_indexed = 0, li_written = 0, li_unchanged = 0, li_stale_removed = 0,
      li_legacy_fallback = False, li_warnings = 0, li_elapsed_ms = 0, li_received = 0, li_rejected = 0,
      li_received_flags = 0, li_callback_count = 0, li_callback_events = 0, li_callback_total_ns = 0,
      li_callback_max_ns = 0, li_inbox_admitted = 0, li_inbox_coalesced = 0, li_inbox_overflows = 0,
      li_inbox_highwater_paths = 0, li_inbox_highwater_bytes = 0, li_first_delivery_age_ms = 0,
      li_last_delivery_age_ms = 0, li_upstream_requested = 0, li_upstream_accepted = False\<rparr>"

definition log_info_scanned :: "index_summary \<Rightarrow> nat \<Rightarrow> log_info" where
  "log_info_scanned summary elapsed =
     log_info_default\<lparr>li_indexed := is_indexed summary, li_written := is_rows_written summary,
       li_unchanged := is_unchanged summary, li_stale_removed := is_deleted summary,
       li_legacy_fallback := is_legacy_fallback summary, li_warnings := length (is_warnings summary),
       li_elapsed_ms := elapsed\<rparr>"

record trigger_log =
  tl_session :: nat
  tl_signals :: raw_counts
  tl_window :: nat
  tl_records :: nat
  tl_suppressed :: nat
  tl_oversized :: nat
  tl_io_failures :: nat
  tl_unavailable_until :: "nat option"

definition trigger_log_new :: "nat \<Rightarrow> nat \<Rightarrow> trigger_log" where
  "trigger_log_new session now =
     \<lparr>tl_session = session, tl_signals = raw_counts_default, tl_window = now, tl_records = 0, tl_suppressed = 0,
      tl_oversized = 0, tl_io_failures = 0, tl_unavailable_until = None\<rparr>"

definition log_window :: nat where "log_window = 60000"
definition log_records_per_window :: nat where "log_records_per_window = 120"
definition log_file_bytes :: nat where "log_file_bytes = 256 * 1024"
definition log_record_bytes :: nat where "log_record_bytes = 2048"

definition samples_json :: "event_sample option list \<Rightarrow> str" where
  "samples_json samples = ''['' @ join_with '','' (List.map_filter (map_option event_sample_json) samples) @ '']''"

text \<open>The line of a record; \<open>at_ms\<close>, \<open>pid\<close> and the hash of the path are what the code asks the system for.\<close>

definition trigger_line :: "nat \<Rightarrow> nat \<Rightarrow> nat \<Rightarrow> str \<Rightarrow> str \<Rightarrow> pending_work \<Rightarrow> log_info \<Rightarrow> trigger_log \<Rightarrow> str" where
  "trigger_line at_ms pid path_hash kind_text scope pw info self =
     (let sampled = min (pw_event_count pw) 3 + (if 3 < pw_event_count pw then 1 else 0)
      in object_json
       [(''v'', ''1''), (''at_ms'', nat_to_str at_ms), (''pid'', nat_to_str pid), (''kind'', quote kind_text),
        (''scope'', quote scope), (''scope_hash'', quote (hex16 path_hash)),
        (''flags_or'', nat_to_str (unat (pw_raw_flags pw))), (''event_count'', nat_to_str (pw_event_count pw)),
        (''first_events'', samples_json (pw_first_events pw)),
        (''last_event'', option_json event_sample_json (pw_last_event pw)),
        (''recovery_event'', option_json event_sample_json (pw_recovery_event pw)),
        (''events_outside_first_last'', nat_to_str (pw_event_count pw - sampled)),
        (''watermark'', nat_to_str (pw_max_event_id pw)), (''wrap_pending'', bool_text (pw_checkpoint_reset pw)),
        (''scope_fallback'', bool_text (pw_scope_fallback pw)), (''paths'', nat_to_str (length (pw_paths pw))),
        (''retry_paths'', nat_to_str (length (pw_retry_paths pw))), (''retry_roots'', bool_text (pw_retry_roots pw)),
        (''retry_due'', bool_text (li_retry_due info)), (''indexed'', nat_to_str (li_indexed info)),
        (''rows_written'', nat_to_str (li_written info)), (''unchanged'', nat_to_str (li_unchanged info)),
        (''stale_removed'', nat_to_str (li_stale_removed info)), (''legacy_fallback'', bool_text (li_legacy_fallback info)),
        (''warnings'', nat_to_str (li_warnings info)), (''elapsed_ms'', nat_to_str (li_elapsed_ms info)),
        (''received'', nat_to_str (li_received info)), (''rejected'', nat_to_str (li_rejected info)),
        (''received_flags_or'', nat_to_str (unat (li_received_flags info))),
        (''callback_count'', nat_to_str (li_callback_count info)), (''callback_events'', nat_to_str (li_callback_events info)),
        (''callback_total_ns'', nat_to_str (li_callback_total_ns info)), (''callback_max_ns'', nat_to_str (li_callback_max_ns info)),
        (''inbox_admitted'', nat_to_str (li_inbox_admitted info)), (''inbox_coalesced'', nat_to_str (li_inbox_coalesced info)),
        (''inbox_overflows'', nat_to_str (li_inbox_overflows info)),
        (''inbox_highwater_paths'', nat_to_str (li_inbox_highwater_paths info)),
        (''inbox_highwater_bytes'', nat_to_str (li_inbox_highwater_bytes info)),
        (''first_delivery_age_ms'', nat_to_str (li_first_delivery_age_ms info)),
        (''last_delivery_age_ms'', nat_to_str (li_last_delivery_age_ms info)),
        (''inbox_overflow'', bool_text (pw_inbox_overflow pw)),
        (''upstream_requested'', nat_to_str (li_upstream_requested info)),
        (''upstream_accepted'', bool_text (li_upstream_accepted info)),
        (''worker_overflow'', bool_text (pw_worker_overflow pw)),
        (''full_recovery_obligation'', bool_text (pw_full_recovery_obligation pw)),
        (''worker_scope_failure'', bool_text (pw_worker_scope_failure pw)),
        (''session'', quote (hex16 (tl_session self))), (''admitted_raw'', raw_counts_json (pw_raw_counts pw)),
        (''callback_signals'', raw_counts_json (tl_signals self)),
        (''suppressed_records'', nat_to_str (tl_suppressed self)), (''oversized_records'', nat_to_str (tl_oversized self)),
        (''io_failures'', nat_to_str (tl_io_failures self))]
      @ [CHR 0x0A])"

text \<open>
  \<open>TriggerLog::record\<close>: the line depends on the counters at the time; \<open>append\<close> writes it to
  the files \<open>'d\<close> and says whether it could.
\<close>

definition trigger_record :: "nat \<Rightarrow> str \<Rightarrow> bool \<Rightarrow> (trigger_log \<Rightarrow> str) \<Rightarrow> (str \<Rightarrow> 'd \<Rightarrow> bool \<times> 'd) \<Rightarrow>
    trigger_log \<times> 'd \<Rightarrow> trigger_log \<times> 'd" where
  "trigger_record now scope checkpoint_reset line append_to st =
     (let (self, d) = st;
          self1 = (if log_window \<le> now - tl_window self then self\<lparr>tl_window := now, tl_records := 0\<rparr> else self);
          top = (if scope = ''roots'' \<or> checkpoint_reset then log_records_per_window else log_records_per_window - 20)
      in if top \<le> tl_records self1 \<or> (case tl_unavailable_until self1 of None \<Rightarrow> False | Some t \<Rightarrow> now < t)
         then (self1\<lparr>tl_suppressed := saturating_count (tl_suppressed self1) 1\<rparr>, d)
         else if log_record_bytes < length (line self1)
         then (self1\<lparr>tl_oversized := saturating_count (tl_oversized self1) 1\<rparr>, d)
         else let self2 = self1\<lparr>tl_records := tl_records self1 + 1\<rparr>; (ok, d1) = append_to (line self1) d
              in if ok
                 then (self2\<lparr>tl_suppressed := 0, tl_oversized := 0, tl_io_failures := 0, tl_unavailable_until := None\<rparr>, d1)
                 else (self2\<lparr>tl_io_failures := saturating_count (tl_io_failures self2) 1,
                         tl_suppressed := saturating_count (tl_suppressed self2) 1,
                         tl_unavailable_until := Some (now + log_window)\<rparr>, d1))"

subsection \<open>The files\<close>

text \<open>
  \<open>append_trigger_record\<close> on the names in the directory: the lock, the log and its predecessor.
  \<open>locked\<close> is the answer of \<open>flock\<close>; a failure of the system itself (no memory, no space) is not
  modelled apart.
\<close>

definition rotate_trigger_log :: "audit_dir \<Rightarrow> audit_dir option" where
  "rotate_trigger_log d =
     (case ad_previous d of
        Some p \<Rightarrow> if \<not> af_private p \<or> log_file_bytes < length (af_text p) then None
                  else Some (d\<lparr>ad_previous := ad_log d, ad_log := private_file None\<rparr>)
      | None \<Rightarrow> Some (d\<lparr>ad_previous := ad_log d, ad_log := private_file None\<rparr>))"

definition append_trigger_record :: "bool \<Rightarrow> str \<Rightarrow> audit_dir \<Rightarrow> bool \<times> audit_dir" where
  "append_trigger_record locked rec d =
     (if log_record_bytes < length rec then (False, d)
      else case private_file (ad_lock d) of
        None \<Rightarrow> (False, d)
      | Some lock \<Rightarrow>
          let d1 = d\<lparr>ad_lock := Some lock\<rparr>
          in if \<not> locked then (False, d1)
          else (case private_file (ad_log d1) of
            None \<Rightarrow> (False, d1)
          | Some f \<Rightarrow>
              let d2 = d1\<lparr>ad_log := Some f\<rparr>
              in if log_file_bytes < length (af_text f) then (False, d2)
              else if length (af_text f) + length rec \<le> log_file_bytes then (True, append_line rec d2)
              else case rotate_trigger_log d2 of
                None \<Rightarrow> (False, d2)
              | Some d3 \<Rightarrow> (True, append_line rec d3)))"

text \<open>\<open>write_startup_summary\<close>: one small file, replaced as a whole.\<close>

definition startup_file_bytes :: nat where "startup_file_bytes = 1024"

definition startup_line :: "nat \<Rightarrow> nat \<Rightarrow> nat \<Rightarrow> bool \<Rightarrow> nat \<Rightarrow> trigger_log \<Rightarrow> str" where
  "startup_line pid roots upstream_requested upstream_accepted create_flags self =
     object_json
       [(''v'', ''1''), (''pid'', nat_to_str pid), (''session'', quote (hex16 (tl_session self))),
        (''stage'', quote ''configured''), (''roots'', nat_to_str roots),
        (''upstream_requested'', nat_to_str upstream_requested), (''upstream_accepted'', bool_text upstream_accepted),
        (''create_flags'', nat_to_str create_flags), (''latency_ms'', ''350'')] @ [CHR 0x0A]"

definition write_startup_summary :: "bool \<Rightarrow> str \<Rightarrow> audit_dir \<Rightarrow> bool \<times> audit_dir" where
  "write_startup_summary locked rec d =
     (if startup_file_bytes < length rec then (False, d)
      else case private_file (ad_lock d) of
        None \<Rightarrow> (False, d)
      | Some lock \<Rightarrow>
          let d1 = d\<lparr>ad_lock := Some lock\<rparr>
          in if \<not> locked then (False, d1)
          else (case private_file (ad_log d1) of
            None \<Rightarrow> (False, d1)
          | Some f \<Rightarrow>
              let d2 = d1\<lparr>ad_log := Some f\<rparr>
              in if startup_file_bytes < length (af_text f) then (False, d2)
              else (True, d2\<lparr>ad_log := Some (f\<lparr>af_text := rec\<rparr>)\<rparr>)))"

subsection \<open>Bounds of the diagnostics\<close>

definition trigger_files_bounded :: "audit_dir \<Rightarrow> bool" where
  "trigger_files_bounded d \<longleftrightarrow>
     (\<forall>f. ad_log d = Some f \<longrightarrow> length (af_text f) \<le> log_file_bytes) \<and>
     (\<forall>f. ad_previous d = Some f \<longrightarrow> length (af_text f) \<le> log_file_bytes)"

text \<open>A record is appended as a whole or not at all, and only whole old files disappear.\<close>

lemma append_trigger_record_ok:
  assumes "append_trigger_record locked rec d = (ok, d')" and "trigger_files_bounded d"
  shows "trigger_files_bounded d' \<and> (if ok then \<exists>kept. suffix kept (dir_texts d) \<and> dir_texts d' = kept @ rec \<and>
      suffix (case ad_log d of None \<Rightarrow> [] | Some f \<Rightarrow> af_text f) kept
    else dir_texts d' = dir_texts d)"
  using assms
  by (auto simp: append_trigger_record_def trigger_files_bounded_def dir_texts_def append_line_def rotate_trigger_log_def
      private_file_def Let_def log_record_bytes_def log_file_bytes_def suffix_def split: if_split_asm option.split_asm)

text \<open>At most 120 records in a window, and a failure stops the writing for a minute.\<close>

lemma trigger_record_limited:
  assumes "trigger_record now scope reset line append_to (self, d) = (self', d')" and "tl_records self \<le> log_records_per_window"
  shows "tl_records self' \<le> log_records_per_window"
  using assms
  by (auto simp: trigger_record_def Let_def log_records_per_window_def split: prod.split_asm if_split_asm option.split_asm)

lemma trigger_record_waits:
  assumes "tl_unavailable_until self = Some t" "now < t"
  shows "snd (trigger_record now scope reset line append_to (self, d)) = d"
  using assms by (simp add: trigger_record_def Let_def)

end
