(* ===== verification/Row_Types.thy ===== *)
theory Row_Types
  imports Scan_Keeps Compact_Rows Watch_Cover
begin

text \<open>
  The rows of the database are well typed: every number is a 64-bit integer and every text is UTF-8,
  so that what a search or a load reads is what a scan wrote. The scans keep this, whatever the
  file tree holds.
\<close>

subsection \<open>Rows with a property\<close>

definition rows_all :: "(file_record \<Rightarrow> bool) \<Rightarrow> index_db \<Rightarrow> bool" where
  "rows_all P db \<longleftrightarrow> (\<forall>r \<in> set (ix_files db). P r)"

lemma rows_all_subset: "rows_all P db \<Longrightarrow> set (ix_files db') \<subseteq> set (ix_files db) \<Longrightarrow> rows_all P db'"
  by (auto simp: rows_all_def)

lemma rows_all_files: "rows_all P db \<Longrightarrow> ix_files db' = ix_files db \<Longrightarrow> rows_all P db'"
  by (simp add: rows_all_def)

lemma rows_all_insert:
  assumes "rows_all P db" and "\<forall>i. is_i64 i \<longrightarrow> P (r\<lparr>fr_id := i\<rparr>)" and "\<forall>rs. is_i64 (alloc rs)"
  shows "rows_all P (insert_row alloc r db)"
  using assms by (auto simp: rows_all_def insert_row_def Let_def set_conflict_def set_insort_key)

lemma rows_all_update:
  assumes "rows_all P db" and "P (r\<lparr>fr_id := fr_id old, fr_path := fr_path old\<rparr>)"
  shows "rows_all P (update_row old r db)"
  using assms by (auto simp: rows_all_def update_row_def Let_def set_conflict_def)

lemma rows_all_upsert:
  assumes "upsert alloc r (fu, db) = Some (changed, fu', db')" and "rows_all P db"
    and fresh: "\<forall>i. is_i64 i \<longrightarrow> P (r\<lparr>fr_id := i\<rparr>)" and alloc: "\<forall>rs. is_i64 (alloc rs)"
    and ids: "\<forall>e. P e \<longrightarrow> is_i64 (fr_id e)"
  shows "rows_all P db'"
proof -
  have stmt: "rows_all P (snd (upsert_statement alloc b r db))" for b
  proof (cases "row_with_path db (fr_path r)")
    case None
    with rows_all_insert [OF assms(2) fresh alloc] show ?thesis by (simp add: upsert_statement_def)
  next
    case (Some e)
    then have e: "e \<in> set (ix_files db)" "fr_path e = fr_path r" by (auto simp: row_with_path_def find_Some_iff)
    with assms(2) ids have "is_i64 (fr_id e)" by (auto simp: rows_all_def)
    with fresh have new: "P (r\<lparr>fr_id := fr_id e, fr_path := fr_path e\<rparr>)" using e(2) by simp
    have "rows_all P (set_conflict (Some (fr_id e)) db)" using assms(2) by (simp add: rows_all_def set_conflict_def)
    from rows_all_update [OF this new] assms(2) Some show ?thesis by (simp add: upsert_statement_def)
  qed
  show ?thesis
    using assms(1,2) stmt by (auto simp: upsert_def Let_def split: option.splits if_splits prod.splits) (metis snd_conv)+
qed

lemma delete_where_rows: "set (ix_files (snd (delete_where Q db))) \<subseteq> set (ix_files db)"
  by (auto simp: delete_where_def Let_def fold_delete_row_files)

lemma delete_prefix_rows: "delete_path_prefix p db = Some db' \<Longrightarrow> set (ix_files db') \<subseteq> set (ix_files db)"
  using delete_where_rows by (fastforce simp: delete_path_prefix_def split: option.splits if_splits)

lemma delete_pages_rows: "set (ix_files (snd (delete_unseen_pages seen b cursor first deleted db))) \<subseteq> set (ix_files db)"
proof (induction seen b cursor first deleted db rule: delete_unseen_pages.induct)
  case (1 seen b cursor first deleted db)
  let ?page = "scanner_candidates db b cursor first"
  let ?stale = "filter (\<lambda>i. \<not> seen_contains seen i) (map fr_id ?page)"
  let ?db = "fold delete_row ?stale db"
  have sub: "set (ix_files ?db) \<subseteq> set (ix_files db)" by (auto simp: fold_delete_row_files)
  show ?case
  proof (cases "length ?page < batch")
    case True
    then show ?thesis using sub by (subst delete_unseen_pages.simps) (simp add: Let_def)
  next
    case False
    note IH = "1.IH" [OF refl refl refl refl False]
    show ?thesis using IH sub False by (subst delete_unseen_pages.simps) (auto simp: Let_def)
  qed
qed

lemma delete_unseen_rows: "delete_unseen_under_roots roots seen db = Some (n, db') \<Longrightarrow> set (ix_files db') \<subseteq> set (ix_files db)"
proof (induction roots arbitrary: db n)
  case (Cons root roots)
  show ?case
  proof (cases "path_prefix_bounds root")
    case None
    with Cons show ?thesis by simp
  next
    case (Some b)
    obtain k db1 where p: "delete_unseen_pages seen b (fst b) True 0 db = (k, db1)" by fastforce
    then have "set (ix_files db1) \<subseteq> set (ix_files db)" using delete_pages_rows [of seen b "fst b" True 0 db] by simp
    with Cons Some p show ?thesis by (fastforce split: if_split_asm)
  qed
qed simp

lemma delete_stale_rows: "delete_stale_under_roots roots g db = Some (n, db') \<Longrightarrow> set (ix_files db') \<subseteq> set (ix_files db)"
proof (induction roots arbitrary: db n)
  case (Cons root roots)
  show ?case
  proof (cases "path_prefix_bounds root")
    case None
    with Cons show ?thesis by simp
  next
    case (Some b)
    let ?Q = "\<lambda>r. fr_indexed_at r < g \<and> in_scope b (fr_path r)"
    obtain k db1 where p: "delete_where ?Q db = (k, db1)" by fastforce
    then have "set (ix_files db1) \<subseteq> set (ix_files db)" using delete_where_rows [of ?Q db] by simp
    with Cons Some p show ?thesis by (fastforce split: if_split_asm)
  qed
qed simp

subsection \<open>Scans\<close>

text \<open>What a scan gets from outside: times and ids in range, and a lower case that keeps texts.\<close>

definition env_typed :: "scan_env \<Rightarrow> bool" where
  "env_typed env \<longleftrightarrow>
     (\<forall>p m. symlink_metadata (se_fs env) p = Inr m \<longrightarrow> is_i64 (md_mtime m) \<and> is_i64 (md_ctime m)) \<and>
     is_i64 (se_indexed_at env) \<and> (\<forall>rs. is_i64 (se_alloc env rs)) \<and> lowercase_ok (se_lower env)"

definition request_typed :: "scan_request \<Rightarrow> bool" where
  "request_typed req \<longleftrightarrow> env_typed (env_of req [])"

lemma request_env_typed: "env_typed (env_of req excludes) \<longleftrightarrow> request_typed req"
  by (simp add: request_typed_def env_typed_def env_of_def)

definition row_typed :: "(str \<Rightarrow> str) \<Rightarrow> file_record \<Rightarrow> bool" where
  "row_typed ul r \<longleftrightarrow> is_i64 (fr_id r) \<and> file_valid (row_to_record ul r)"

lemma file_valid_code [code]:
  "file_valid x \<longleftrightarrow>
     utf8_valid (fr_path x) \<and> utf8_valid (fr_path_lower x) \<and> utf8_valid (fr_basename x) \<and> utf8_valid (fr_basename_lower x) \<and>
     list_all (\<lambda>v. case v of None \<Rightarrow> True | Some n \<Rightarrow> is_i64 n) (input_of_file x)"
  by (auto simp: file_valid_def list_all_iff split: option.splits)

lemma file_name_valid: "utf8_valid p \<Longrightarrow> file_name p = Some n \<Longrightarrow> utf8_valid n"
proof -
  assume p: "utf8_valid p" and n: "file_name p = Some n"
  then have "Normal n \<in> set (rev (path_components p))"
    by (cases "rev (path_components p)") (auto simp: file_name_def split: path_component.splits)
  with p have "component_valid (Normal n)" using utf8_valid_components [of p] by simp
  then show ?thesis by (simp add: component_valid_def)
qed

lemma wrap_i64_range: "is_i64 (wrap_i64 n)"
  by (simp add: wrap_i64_def is_i64_def i64_min_def i64_max_def)

lemma scanned_record_typed:
  assumes env: "env_typed env" and md: "symlink_metadata (se_fs env) path = Inr md" and i: "is_i64 i" and ul: "lowercase_ok ul"
  shows "row_typed ul ((scanned_record env path md)\<lparr>fr_id := i\<rparr>)"
proof -
  let ?p = "to_string_lossy path"
  have p: "utf8_valid ?p" by (rule to_string_lossy_is_text)
  have "\<And>s. utf8_valid s \<Longrightarrow> utf8_valid (se_lower env s)" "\<And>s. utf8_valid s \<Longrightarrow> utf8_valid (ul s)"
    using env ul by (simp_all add: env_typed_def lowercase_ok_def)
  then have low: "utf8_valid s \<Longrightarrow> utf8_valid (to_lowercase (se_lower env) s) \<and> utf8_valid (to_lowercase ul s)" for s
    using to_lowercase_valid by blast
  have name: "utf8_valid (case file_name ?p of Some n \<Rightarrow> n | None \<Rightarrow> ?p)"
  proof (cases "file_name ?p")
    case None
    then show ?thesis using p by simp
  next
    case (Some n)
    then show ?thesis using file_name_valid [OF p Some] by simp
  qed
  have times: "is_i64 (md_mtime md)" "is_i64 (md_ctime md)" "is_i64 (se_indexed_at env)"
    using env md by (auto simp: env_typed_def)
  let ?r = "(scanned_record env path md)\<lparr>fr_id := i\<rparr>"
  have texts: "fr_path ?r = ?p" "fr_path_lower ?r = to_lowercase (se_lower env) ?p"
      "fr_basename ?r = (case file_name ?p of Some n \<Rightarrow> n | None \<Rightarrow> ?p)"
      "fr_basename_lower ?r = to_lowercase (se_lower env) (case file_name ?p of Some n \<Rightarrow> n | None \<Rightarrow> ?p)"
    unfolding scanned_record_def file_record_new_def Let_def by simp_all
  have numbers: "fr_size ?r = (if md_type md = IsFile then Some (wrap_i64 (int (md_len md))) else None)"
      "fr_mtime ?r = Some (md_mtime md)" "fr_ctime ?r = Some (md_ctime md)" "fr_dev ?r = Some (wrap_i64 (int (md_dev md)))"
      "fr_inode ?r = Some (wrap_i64 (int (md_ino md)))" "fr_indexed_at ?r = se_indexed_at env" "fr_id ?r = i"
    unfolding scanned_record_def file_record_new_def Let_def by simp_all
  have "\<forall>v. Some v \<in> set (input_of_file ?r) \<longrightarrow> is_i64 v"
    unfolding input_of_file_def fields_of_file_def numbers using times wrap_i64_range by auto
  then have "\<forall>v. Some v \<in> set (input_of_file (row_to_record ul ?r)) \<longrightarrow> is_i64 v"
    by (simp add: input_of_file_def fields_of_file_def row_to_record_def)
  moreover have "utf8_valid (fr_path_lower (row_to_record ul ?r))"
    using low [OF p] texts(1,2) by (simp add: row_to_record_def)
  moreover have "utf8_valid (fr_path ?r)" "utf8_valid (fr_basename ?r)" "utf8_valid (fr_basename_lower ?r)"
    unfolding texts by (rule p, rule name, rule conjunct1 [OF low [OF name]])
  ultimately show ?thesis using numbers(7) i by (simp add: row_typed_def file_valid_def row_to_record_def)
qed

definition typed_kept :: "(str \<Rightarrow> str) \<Rightarrow> index_db \<Rightarrow> index_db \<Rightarrow> bool" where
  "typed_kept ul db db' \<longleftrightarrow> (lowercase_ok ul \<and> rows_all (row_typed ul) db \<longrightarrow> rows_all (row_typed ul) db')"

lemma typed_keptI: "set (ix_files db') \<subseteq> set (ix_files db) \<Longrightarrow> typed_kept ul db db'"
  by (auto simp: typed_kept_def rows_all_def)

lemma set_meta_rows: "set_meta k v db = Some db' \<Longrightarrow> ix_files db' = ix_files db"
  by (auto simp: set_meta_def split: if_splits)

interpretation typed: scan_keeps "typed_kept ul" env_typed for ul
proof unfold_locales
  fix env path md fu db changed fu' db'
  assume env: "env_typed env" and md: "symlink_metadata (se_fs env) path = Inr md"
    and up: "upsert (se_alloc env) (scanned_record env path md) (fu, db) = Some (changed, fu', db')"
  have "rows_all (row_typed ul) db'" if "lowercase_ok ul" "rows_all (row_typed ul) db"
    using up that(2)
  proof (rule rows_all_upsert)
    show "\<forall>i. is_i64 i \<longrightarrow> row_typed ul ((scanned_record env path md)\<lparr>fr_id := i\<rparr>)"
      using scanned_record_typed [OF env md _ that(1)] by blast
  qed (use env in \<open>simp_all add: env_typed_def row_typed_def\<close>)
  then show "typed_kept ul db db'" by (simp add: typed_kept_def)
next
  fix db db1 db2
  show "typed_kept ul db db1 \<Longrightarrow> typed_kept ul db1 db2 \<Longrightarrow> typed_kept ul db db2" by (simp add: typed_kept_def)
qed (auto intro!: typed_keptI simp: set_meta_rows simp del: delete_unseen_under_roots.simps delete_stale_under_roots.simps
       dest: delete_prefix_rows delete_unseen_rows delete_stale_rows)

subsection \<open>Every scan\<close>

lemma set_lists_rows: "ix_files (snd (set_roots rs db)) = ix_files db" "ix_files (snd (set_excludes es db)) = ix_files db"
  by (simp_all add: set_roots_def set_excludes_def split: prod.splits)

lemma clear_index_rows: "ix_files (clear_index db) = []"
  by (simp add: clear_index_def delete_where_def Let_def fold_delete_row_files)

lemma index_paths_typed:
  assumes req: "request_typed req" and "lowercase_ok ul" and c: "rows_all (row_typed ul) (cn_db c)" "cn_saved c = None"
  shows "rows_all (row_typed ul) (cn_db (snd (index_paths req request c)))"
proof -
  let ?db0 = "if iq_rebuild request then clear_index (cn_db c) else cn_db c"
  obtain ok1 db1 where r: "set_roots (map to_string_lossy (iq_roots request)) ?db0 = (ok1, db1)" by fastforce
  obtain ok2 db2 where e: "set_excludes (iq_excludes request) db1 = (ok2, db2)" by fastforce
  have "rows_all (row_typed ul) ?db0" using c(1) by (simp add: rows_all_def clear_index_rows)
  then have db1: "rows_all (row_typed ul) db1" using set_lists_rows(1) [of _ ?db0] r rows_all_files by (metis snd_conv)
  then have db2: "rows_all (row_typed ul) db2" using set_lists_rows(2) [of _ db1] e rows_all_files by (metis snd_conv)
  obtain s c' where w: "with_write (sr_can_commit req) (index_body req request) (c\<lparr>cn_db := db2\<rparr>) = (s, c')" by fastforce
  have "typed.left_by ul (c\<lparr>cn_db := db2\<rparr>) c'"
    using w by (rule typed.with_write_keeps) (use req c(2) typed.index_body_keeps in \<open>simp_all add: request_env_typed\<close>)
  then have "rows_all (row_typed ul) (cn_db c')" using db2 assms(2) by (simp add: typed.left_by_def typed_kept_def)
  with db1 db2 r e w show ?thesis by (simp add: index_paths_def Let_def)
qed

text \<open>
  C18: The rows stay well typed. Whatever the tree holds and whichever way a scan goes - complete,
  with warnings, in the legacy mode or failed - after \<open>refresh_roots\<close>, \<open>refresh_path\<close> and
  \<open>index_paths\<close> every row has 64-bit numbers and UTF-8 texts, non-UTF-8 names included, so that the
  decoding of a row never meets a value it refuses.
\<close>

theorem scans_keep_types:
  assumes "request_typed req" "request_typed again" "lowercase_ok ul"
    and "rows_all (row_typed ul) (cn_db c)" "cn_saved c = None"
  shows "rows_all (row_typed ul) (cn_db (snd (refresh_roots req again roots excludes c))) \<and>
    rows_all (row_typed ul) (cn_db (snd (refresh_path req again path excludes c))) \<and>
    rows_all (row_typed ul) (cn_db (snd (index_paths req request c)))"
proof (intro conjI index_paths_typed assms)
  obtain s c' where r: "refresh_roots req again roots excludes c = (s, c')" by fastforce
  have "typed.left_by ul c c'"
    by (rule typed.refresh_roots_keeps [OF r]) (use assms in \<open>simp_all add: request_env_typed\<close>)
  then show "rows_all (row_typed ul) (cn_db (snd (refresh_roots req again roots excludes c)))"
    using r assms by (simp add: typed.left_by_def typed_kept_def)
next
  obtain s c' where r: "refresh_path req again path excludes c = (s, c')" by fastforce
  have "typed.left_by ul c c'"
    by (rule typed.refresh_path_keeps [OF r]) (use assms in \<open>simp_all add: request_env_typed\<close>)
  then show "rows_all (row_typed ul) (cn_db (snd (refresh_path req again path excludes c)))"
    using r assms by (simp add: typed.left_by_def typed_kept_def)
qed

definition bounded_request :: scan_request where
  "bounded_request = example_request\<lparr>sr_alloc := \<lambda>rs. wrap_i64 (example_alloc rs)\<rparr>"

lemma bounded_request_typed: "request_typed bounded_request"
  by (simp add: request_typed_def env_typed_def env_of_def bounded_request_def example_request_def example_fs_def
      lowercase_ok_def wrap_i64_range) (simp add: is_i64_def i64_min_def i64_max_def)

theorem scans_keep_types_witness:
  "rows_all (row_typed id)
     (cn_db (snd (refresh_roots bounded_request bounded_request [''/r''] [''skip''] example_connection))) \<and>
   row_with_path (cn_db (snd (refresh_roots bounded_request bounded_request [''/r''] [''skip''] example_connection)))
     ''/r/a.txt'' \<noteq> None"
proof
  have "rows_all (row_typed id) (cn_db example_connection)"
    unfolding rows_all_def example_connection_def row_typed_def by code_simp
  then show "rows_all (row_typed id)
      (cn_db (snd (refresh_roots bounded_request bounded_request [''/r''] [''skip''] example_connection)))"
    using scans_keep_types [OF bounded_request_typed bounded_request_typed] by (simp add: lowercase_ok_def example_connection_def)
  show "row_with_path (cn_db (snd (refresh_roots bounded_request bounded_request [''/r''] [''skip''] example_connection)))
      ''/r/a.txt'' \<noteq> None" by code_simp
qed

end
