(* ===== verification/Command_Line.thy ===== *)
theory Command_Line
  imports Http Db_Status Sqlite_Search Scanner
begin

text \<open>
  The command line (\<open>src/src/cli.rs\<close>, \<open>src/src/config.rs\<close>, \<open>src/src/macos.rs\<close>): what the arguments
  of each command mean, what is searched, opened and printed, and the defaults from the environment.
\<close>

subsection \<open>Defaults\<close>

text \<open>\<open>env::var\<close> of the three variables that are read: nothing when unset or not UTF-8.\<close>

record environment =
  en_home :: "str option"
  en_db :: "str option"

definition app_name :: str where "app_name = ''macevery''"

definition home_or_dot :: "environment \<Rightarrow> str" where
  "home_or_dot env = (case en_home env of Some h \<Rightarrow> h | None \<Rightarrow> ''.'')"

definition expand_tilde :: "environment \<Rightarrow> str \<Rightarrow> str" where
  "expand_tilde env value =
     (if value = ''~'' then home_or_dot env
      else case strip_prefix ''~/'' value of
             Some below \<Rightarrow> path_join (home_or_dot env) below
           | None \<Rightarrow> value)"

definition default_db_path :: "environment \<Rightarrow> str" where
  "default_db_path env =
     (case en_db env of
        Some path \<Rightarrow> expand_tilde env path
      | None \<Rightarrow> path_join (path_join (path_join (path_join (home_or_dot env) ''.local'') ''share'') app_name) ''index.sqlite'')"

definition default_excludes :: "environment \<Rightarrow> str list" where
  "default_excludes env =
     [''node_modules'', ''.git'', ''target'', ''dist'', ''build'', ''.build'', ''.Trash'', ''.codex'', ''.gemini'', ''.cursor'',
      ''.local/share/macevery'', ''Library/Caches'', ''Library/Developer'', ''Library/Application Support'',
      ''Library/Containers'', ''Library/Group Containers'', ''Library/Mail'', ''Library/Messages'', ''Library/Logs'',
      ''Library/Saved Application State'', ''.cache'', ''.npm'', ''.cargo/registry'', ''DerivedData'', ''.DS_Store''] @
     (case en_home env of
        Some home \<Rightarrow> map (\<lambda>dir. home @ dir) [''/Library/Safari'', ''/Library/Cookies'', ''/Library/Metadata'', ''/Library/Accounts'']
      | None \<Rightarrow> [])"

definition default_gui_roots :: "environment \<Rightarrow> str list" where
  "default_gui_roots env = [home_or_dot env, ''/Applications'']"

subsection \<open>Arguments\<close>

text \<open>
  A command is an error, a request for the usage text (\<open>None\<close>), or what is to be done. Error texts
  that quote an argument do it between apostrophes.
\<close>

type_synonym 'a parsed = "error + 'a option"

definition unknown_option :: "str \<Rightarrow> str \<Rightarrow> error" where
  "unknown_option command arg = Cli (''unknown '' @ command @ '' option '' @ [CHR 0x27] @ arg @ [CHR 0x27])"

definition is_help :: "str \<Rightarrow> bool" where
  "is_help arg \<longleftrightarrow> arg = ''-h'' \<or> arg = ''--help''"

text \<open>\<open>str::trim_start_matches\<close> of a text: it is removed as often as it stands there.\<close>

function trim_start_text :: "str \<Rightarrow> str \<Rightarrow> str" where
  "trim_start_text p s = (if p \<noteq> [] \<and> prefix p s then trim_start_text p (drop (length p) s) else s)"
  by pat_completeness auto

termination
  by (relation "measure (length \<circ> snd)") (auto dest: prefix_length_le simp: Suc_le_eq intro!: diff_less elim: prefixE)

declare trim_start_text.simps [simp del]

fun parse_index_args :: "environment \<Rightarrow> str list \<Rightarrow> index_request \<Rightarrow> index_request parsed" where
  "parse_index_args env [] r = (if iq_roots r = [] then Inl (Cli ''index requires at least one root path'') else Inr (Some r))"
| "parse_index_args env (arg # args) r =
     (if arg = ''--rebuild'' then parse_index_args env args (r\<lparr>iq_rebuild := True\<rparr>)
      else if arg = ''--exclude''
      then (case args of
              [] \<Rightarrow> Inl (Cli ''--exclude requires a pattern'')
            | pattern # args' \<Rightarrow> parse_index_args env args' (r\<lparr>iq_excludes := iq_excludes r @ [pattern]\<rparr>))
      else if is_help arg then Inr None
      else if prefix ''--exclude='' arg
      then parse_index_args env args (r\<lparr>iq_excludes := iq_excludes r @ [trim_start_text ''--exclude='' arg]\<rparr>)
      else if prefix ''-'' arg then Inl (unknown_option ''index'' arg)
      else parse_index_args env args (r\<lparr>iq_roots := iq_roots r @ [expand_tilde env arg]\<rparr>))"

definition index_args :: "environment \<Rightarrow> str list \<Rightarrow> index_request parsed" where
  "index_args env args =
     parse_index_args env args \<lparr>iq_roots = [], iq_excludes = default_excludes env, iq_rebuild = False\<rparr>"

text \<open>The state of the loop of \<open>parse_search_args\<close>.\<close>

record search_args =
  sa_parts :: "str list"
  sa_limit :: usize
  sa_json :: bool
  sa_ext :: "str option"
  sa_kind :: "file_kind option"
  sa_path_only :: bool
  sa_fuzzy :: bool

definition search_args_start :: search_args where
  "search_args_start =
     \<lparr>sa_parts = [], sa_limit = 50, sa_json = False, sa_ext = None, sa_kind = None, sa_path_only = False, sa_fuzzy = False\<rparr>"

definition set_limit :: "str \<Rightarrow> search_args \<Rightarrow> error + search_args" where
  "set_limit value a =
     (case parse_usize value of
        Some n \<Rightarrow> Inr (a\<lparr>sa_limit := n\<rparr>)
      | None \<Rightarrow> Inl (Cli ''--limit must be a number''))"

definition set_ext :: "(str \<Rightarrow> str) \<Rightarrow> str \<Rightarrow> search_args \<Rightarrow> error + search_args" where
  "set_ext ul value a =
     Inr (a\<lparr>sa_ext := Some (to_lowercase ul (trim_start_matches (\<lambda>ch. ch = ''.'') value))\<rparr>)"

definition set_kind :: "(str \<Rightarrow> str) \<Rightarrow> str \<Rightarrow> search_args \<Rightarrow> error + search_args" where
  "set_kind ul value a =
     (case kind_parse ul value of
        Some k \<Rightarrow> Inr (a\<lparr>sa_kind := Some k\<rparr>)
      | None \<Rightarrow> Inl (Cli ''--kind must be file, dir, symlink, app, or other''))"

text \<open>An option with a value, as the next argument (\<open>value = None\<close>: there is none) or after \<open>=\<close>.\<close>

definition valued_option :: "(str \<Rightarrow> str) \<Rightarrow> str \<Rightarrow> ((str \<Rightarrow> search_args \<Rightarrow> error + search_args) \<times> str) option" where
  "valued_option ul arg =
     (if arg = ''--limit'' then Some (set_limit, ''--limit requires a number'')
      else if arg = ''--ext'' then Some (set_ext ul, ''--ext requires a value'')
      else if arg = ''--kind'' then Some (set_kind ul, ''--kind requires a value'')
      else None)"

definition inline_option :: "(str \<Rightarrow> str) \<Rightarrow> str \<Rightarrow> (search_args \<Rightarrow> error + search_args) option" where
  "inline_option ul arg =
     (case strip_prefix ''--limit='' arg of Some v \<Rightarrow> Some (set_limit v) | None \<Rightarrow>
       (case strip_prefix ''--ext='' arg of Some v \<Rightarrow> Some (set_ext ul v) | None \<Rightarrow>
         map_option (set_kind ul) (strip_prefix ''--kind='' arg)))"

fun parse_search :: "(str \<Rightarrow> str) \<Rightarrow> str list \<Rightarrow> search_args \<Rightarrow> error + search_args" where
  "parse_search ul [] a = Inr a"
| "parse_search ul (arg # args) a =
     (if arg = ''--json'' then parse_search ul args (a\<lparr>sa_json := True\<rparr>)
      else if arg = ''--path'' then parse_search ul args (a\<lparr>sa_path_only := True\<rparr>)
      else if arg = ''--fuzzy'' then parse_search ul args (a\<lparr>sa_fuzzy := True\<rparr>)
      else case valued_option ul arg of
        Some (assign, missing) \<Rightarrow>
          (case args of
             [] \<Rightarrow> Inl (Cli missing)
           | value # args' \<Rightarrow> (case assign value a of Inl e \<Rightarrow> Inl e | Inr a' \<Rightarrow> parse_search ul args' a'))
      | None \<Rightarrow>
          (case inline_option ul arg of
             Some assign \<Rightarrow> (case assign a of Inl e \<Rightarrow> Inl e | Inr a' \<Rightarrow> parse_search ul args a')
           | None \<Rightarrow>
               if prefix ''-'' arg then Inl (unknown_option ''search'' arg)
               else parse_search ul args (a\<lparr>sa_parts := sa_parts a @ [arg]\<rparr>)))"

definition parse_search_args :: "(str \<Rightarrow> str) \<Rightarrow> str list \<Rightarrow> error + search_options \<times> bool" where
  "parse_search_args ul args =
     (case parse_search ul args search_args_start of
        Inl e \<Rightarrow> Inl e
      | Inr a \<Rightarrow>
          (let q = join_with '' '' (sa_parts a)
           in if trim q = [] then Inl (Cli ''search query is required'')
              else Inr (default_options\<lparr>query := q, limit := sa_limit a, ext := sa_ext a, kind := sa_kind a,
                          path_only := sa_path_only a, fuzzy := sa_fuzzy a\<rparr>, sa_json a)))"

text \<open>\<open>cmd_optimize\<close>: a second \<open>--output\<close> or \<open>--json\<close> is an unknown option.\<close>

fun parse_optimize :: "environment \<Rightarrow> str list \<Rightarrow> str option \<Rightarrow> bool \<Rightarrow> (str \<times> bool) parsed" where
  "parse_optimize env [] output json =
     (case output of
        None \<Rightarrow> Inl (Cli ''optimize requires --output with a fresh destination path'')
      | Some p \<Rightarrow> Inr (Some (p, json)))"
| "parse_optimize env (arg # args) output json =
     (if arg = ''--output'' \<and> output = None
      then (case args of
              [] \<Rightarrow> Inl (Cli ''--output requires a fresh destination path'')
            | value # args' \<Rightarrow>
                if value = [] \<or> prefix ''-'' value
                then Inl (Cli (''--output requires a path; use ./ for names beginning with '' @ [CHR 0x27] @ ''-'' @ [CHR 0x27]))
                else parse_optimize env args' (Some (expand_tilde env value)) json)
      else if arg = ''--json'' \<and> \<not> json then parse_optimize env args output True
      else if is_help arg then Inr None
      else Inl (unknown_option ''optimize'' arg))"

fun parse_serve :: "(str \<Rightarrow> str) \<Rightarrow> str list \<Rightarrow> str option \<Rightarrow> backend_preference \<Rightarrow> (str option \<times> backend_preference) parsed" where
  "parse_serve ul [] addr backend = Inr (Some (addr, backend))"
| "parse_serve ul (arg # args) addr backend =
     (if arg = ''--addr''
      then (case args of
              [] \<Rightarrow> Inl (Cli ''--addr requires host:port'')
            | value # args' \<Rightarrow> parse_serve ul args' (Some value) backend)
      else if arg = ''--backend''
      then (case args of
              [] \<Rightarrow> Inl (Cli ''--backend requires auto, memory, compact, or sqlite'')
            | value # args' \<Rightarrow>
                (case backend_from_str ul value of Inl e \<Rightarrow> Inl e | Inr b \<Rightarrow> parse_serve ul args' addr b))
      else if is_help arg then Inr None
      else case strip_prefix ''--addr='' arg of
        Some value \<Rightarrow> parse_serve ul args (Some value) backend
      | None \<Rightarrow>
          (case strip_prefix ''--backend='' arg of
             Some value \<Rightarrow> (case backend_from_str ul value of Inl e \<Rightarrow> Inl e | Inr b \<Rightarrow> parse_serve ul args addr b)
           | None \<Rightarrow> Inl (unknown_option ''serve'' arg)))"

record bench_options =
  bo_roots :: "str list"
  bo_queries_path :: "str option"
  bo_rebuild :: bool
  bo_json :: bool

fun parse_bench :: "environment \<Rightarrow> str list \<Rightarrow> bench_options \<Rightarrow> bench_options parsed" where
  "parse_bench env [] b = Inr (Some b)"
| "parse_bench env (arg # args) b =
     (if arg = ''--queries''
      then (case args of
              [] \<Rightarrow> Inl (Cli ''--queries requires a path'')
            | value # args' \<Rightarrow> parse_bench env args' (b\<lparr>bo_queries_path := Some (expand_tilde env value)\<rparr>))
      else if arg = ''--roots'' then parse_bench env args b
      else if arg = ''--rebuild'' then parse_bench env args (b\<lparr>bo_rebuild := True\<rparr>)
      else if arg = ''--json'' then parse_bench env args (b\<lparr>bo_json := True\<rparr>)
      else if is_help arg then Inr None
      else case strip_prefix ''--queries='' arg of
        Some value \<Rightarrow> parse_bench env args (b\<lparr>bo_queries_path := Some (expand_tilde env value)\<rparr>)
      | None \<Rightarrow>
          if prefix ''-'' arg then Inl (unknown_option ''bench'' arg)
          else parse_bench env args (b\<lparr>bo_roots := bo_roots b @ [expand_tilde env arg]\<rparr>))"

subsection \<open>Texts\<close>

definition lines_text :: "str list \<Rightarrow> str" where
  "lines_text ls = concat (map (\<lambda>l. l @ [CHR 0x0A]) ls)"

definition cli_json_escape :: "str \<Rightarrow> str" where
  "cli_json_escape s = concat (map escape_char (str_chars s))"

definition json_string_array :: "str list \<Rightarrow> str" where
  "json_string_array values = ''['' @ join_with '','' (map (\<lambda>v. quote (cli_json_escape v)) values) @ '']''"

definition number_or_dash :: "i64 option \<Rightarrow> str" where
  "number_or_dash v = (case v of Some n \<Rightarrow> int_to_str n | None \<Rightarrow> ''-'')"

definition table_line :: "search_result \<Rightarrow> str" where
  "table_line r =
     (let rec = sr_record r
      in join_with [CHR 0x09]
           [fr_path rec, kind_as_str (fr_kind rec), number_or_dash (fr_size rec), number_or_dash (fr_mtime rec),
            int_to_str (sr_score r)])"

definition search_table :: "search_result list \<Rightarrow> str" where
  "search_table results = lines_text (map table_line results)"

definition cli_result_json :: "search_result \<Rightarrow> str" where
  "cli_result_json r =
     ''{'' @ join_with '',''
       [json_field ''path'' (quote (cli_json_escape (fr_path (sr_record r)))),
        json_field ''basename'' (quote (cli_json_escape (fr_basename (sr_record r)))),
        json_field ''kind'' (quote (kind_as_str (fr_kind (sr_record r)))),
        json_field ''size'' (json_i64 (fr_size (sr_record r))),
        json_field ''mtime'' (json_i64 (fr_mtime (sr_record r))),
        json_field ''score'' (int_to_str (sr_score r))] @ ''}''"

text \<open>Every line but the last ends with a comma.\<close>

fun search_json_lines :: "search_result list \<Rightarrow> str list" where
  "search_json_lines [] = []"
| "search_json_lines (r # rs) = (''  '' @ cli_result_json r @ (if rs = [] then [] else '','')) # search_json_lines rs"

definition search_json :: "search_result list \<Rightarrow> str" where
  "search_json results = lines_text (''['' # search_json_lines results @ ['']''])"

subsection \<open>The state of the index\<close>

definition print_status_json :: "index_stats \<Rightarrow> str" where
  "print_status_json s =
     ''{'' @ join_with '',''
       [json_field ''db_path'' (quote (cli_json_escape (st_db_path s))), json_field ''files'' (int_to_str (st_files s)),
        json_field ''dirs'' (int_to_str (st_dirs s)), json_field ''apps'' (int_to_str (st_apps s)),
        json_field ''symlinks'' (int_to_str (st_symlinks s)), json_field ''others'' (int_to_str (st_others s)),
        json_field ''last_indexed_at'' (json_i64 (st_last_indexed_at s)),
        json_field ''roots'' (json_string_array (st_roots s)), json_field ''excludes'' (json_string_array (st_excludes s))]
     @ ''}'' @ [CHR 0x0A]"

definition status_text :: "index_stats \<Rightarrow> str" where
  "status_text s = lines_text
     ([''database: '' @ st_db_path s, ''files: '' @ int_to_str (st_files s), ''directories: '' @ int_to_str (st_dirs s),
       ''apps: '' @ int_to_str (st_apps s), ''symlinks: '' @ int_to_str (st_symlinks s), ''other: '' @ int_to_str (st_others s),
       ''last indexed: '' @ (case st_last_indexed_at s of Some n \<Rightarrow> int_to_str n | None \<Rightarrow> ''never''), ''roots:''] @
      map (\<lambda>r. ''  '' @ r) (st_roots s) @ [''excludes:''] @ map (\<lambda>e. ''  '' @ e) (st_excludes s))"

definition bootstrap_json :: "bootstrap_status \<Rightarrow> str" where
  "bootstrap_json s =
     ''{'' @ join_with '',''
       [json_field ''db_path'' (quote (cli_json_escape (bs_db_path s))),
        json_field ''has_records'' (if bs_has_records s then ''true'' else ''false''),
        json_field ''roots'' (json_string_array (bs_roots s)), json_field ''excludes'' (json_string_array (bs_excludes s)),
        json_field ''last_indexed_at'' (json_i64 (bs_last_indexed_at s))]
     @ ''}'' @ [CHR 0x0A]"

subsection \<open>Commands\<close>

datatype command =
    IndexCommand index_request
  | SearchCommand search_options bool
  | OpenCommand search_options bool
  | StatusCommand bool
  | BootstrapCommand
  | OptimizeCommand str bool
  | CleanCommand
  | WatchCommand
  | ServeCommand "str option" backend_preference
  | BenchCommand bench_options

definition usage_text :: str where
  "usage_text = lines_text
     [''MacEvery - Everything-like macOS filename/path search'', [], ''Usage:'',
      ''  macevery index [--rebuild] [--exclude PATTERN...] PATHS...'',
      ''  macevery search QUERY [--limit N] [--json] [--ext EXT] [--kind file|dir|symlink|app] [--path] [--fuzzy]'',
      ''  macevery search '' @ quote ''ext:pdf|docx !path:Library part:Downloads mtime:7d invoice'',
      ''  macevery open QUERY'', ''  macevery reveal QUERY'', ''  macevery status [--json]'', ''  macevery bootstrap --json'',
      ''  macevery optimize --output NEW_DB_PATH [--json]  (compact copy; source unchanged)'',
      ''  macevery clean'', ''  macevery watch'',
      ''  macevery serve [--addr 127.0.0.1:17649] [--backend auto|memory|compact|sqlite]'',
      ''  macevery bench [--roots PATHS...] [--queries queries.txt] [--rebuild] [--json]'']"

definition parsed_as :: "('a \<Rightarrow> command) \<Rightarrow> 'a parsed \<Rightarrow> command parsed" where
  "parsed_as f p = map_sum id (map_option f) p"

definition parse_bootstrap :: "str list \<Rightarrow> command parsed" where
  "parse_bootstrap args =
     (case args of
        [] \<Rightarrow> Inl (Cli ''bootstrap requires --json'')
      | [opt] \<Rightarrow> if is_help opt then Inr None
                 else if opt = ''--json'' then Inr (Some BootstrapCommand)
                 else Inl (Cli (''unsupported bootstrap arguments: '' @ join_with '' '' args))
      | _ \<Rightarrow> Inl (Cli (''unsupported bootstrap arguments: '' @ join_with '' '' args)))"

text \<open>\<open>run\<close>: the program name, the command and its arguments.\<close>

definition parse_command :: "environment \<Rightarrow> (str \<Rightarrow> str) \<Rightarrow> str list \<Rightarrow> command parsed" where
  "parse_command env ul argv =
     (case argv of
        program # name # args \<Rightarrow>
          if name = ''index'' then parsed_as IndexCommand (index_args env args)
          else if name = ''search''
          then map_sum id (\<lambda>(options, json). Some (SearchCommand options json)) (parse_search_args ul args)
          else if name = ''open''
          then map_sum id (\<lambda>(options, json). Some (OpenCommand options False)) (parse_search_args ul args)
          else if name = ''reveal''
          then map_sum id (\<lambda>(options, json). Some (OpenCommand options True)) (parse_search_args ul args)
          else if name = ''status'' then Inr (Some (StatusCommand (''--json'' \<in> set args)))
          else if name = ''bootstrap'' then parse_bootstrap args
          else if name = ''optimize'' then parsed_as (case_prod OptimizeCommand) (parse_optimize env args None False)
          else if name = ''clean'' then Inr (if list_ex is_help args then None else Some CleanCommand)
          else if name = ''watch'' then Inr (if list_ex is_help args then None else Some WatchCommand)
          else if name = ''serve'' then parsed_as (case_prod ServeCommand) (parse_serve ul args None Auto)
          else if name = ''bench''
          then parsed_as BenchCommand
                 (parse_bench env args \<lparr>bo_roots = [], bo_queries_path = None, bo_rebuild = False, bo_json = False\<rparr>)
          else if is_help name \<or> name = ''help'' then Inr None
          else Inl (Cli (''unknown command '' @ [CHR 0x27] @ name @ [CHR 0x27, CHR 0x0A, CHR 0x0A] @ usage_text))
      | _ \<Rightarrow> Inr None)"

text \<open>
  The commands get the database opened; that opening fails is left out. Searching: \<open>None\<close> is a failure of the database. \<open>launch\<close> runs the program \<open>open\<close> of the system with
  these arguments and tells whether it could and whether it succeeded.
\<close>

definition cmd_search :: "(str \<Rightarrow> str) \<Rightarrow> i64 \<Rightarrow> files_table \<Rightarrow> search_options \<Rightarrow> bool \<Rightarrow> str option" where
  "cmd_search ul now db options json =
     map_option (\<lambda>results. if json then search_json results else search_table results) (search ul now db options)"

definition open_path :: "(str list \<Rightarrow> error + bool) \<Rightarrow> str \<Rightarrow> error option" where
  "open_path launch path =
     (case launch [''--'', path] of
        Inl e \<Rightarrow> Some e
      | Inr ok \<Rightarrow> if ok then None else Some (Cli (''open failed for '' @ path)))"

definition reveal_path :: "(str list \<Rightarrow> error + bool) \<Rightarrow> str \<Rightarrow> error option" where
  "reveal_path launch path =
     (case launch [''-R'', ''--'', path] of
        Inl e \<Rightarrow> Some e
      | Inr ok \<Rightarrow> if ok then None else Some (Cli (''Finder reveal failed for '' @ path)))"

definition no_match :: error where "no_match = Cli ''no matching indexed file found''"

definition cmd_open_or_reveal ::
  "(str \<Rightarrow> str) \<Rightarrow> i64 \<Rightarrow> files_table \<Rightarrow> (str list \<Rightarrow> error + bool) \<Rightarrow> search_options \<Rightarrow> bool \<Rightarrow> error option option" where
  "cmd_open_or_reveal ul now db launch options reveal =
     map_option (\<lambda>results.
         case results of
           [] \<Rightarrow> Some no_match
         | r # _ \<Rightarrow> (if reveal then reveal_path launch (fr_path (sr_record r)) else open_path launch (fr_path (sr_record r))))
       (search ul now db (options\<lparr>limit := 1\<rparr>))"

text \<open>The report of an index run, on the two outputs.\<close>

definition index_report :: "index_summary \<Rightarrow> str \<times> str" where
  "index_report s =
     (lines_text ((''indexed '' @ nat_to_str (is_indexed s) @ '' entries'') #
        (if 0 < is_deleted s then [''removed '' @ nat_to_str (is_deleted s) @ '' stale entries''] else [])),
      lines_text (map (\<lambda>w. ''warning: '' @ w) (take 25 (is_warnings s)) @
        (if 25 < length (is_warnings s)
         then [''warning: '' @ nat_to_str (length (is_warnings s) - 25) @ '' additional indexing warnings omitted''] else [])))"

definition cmd_index :: "scan_request \<Rightarrow> index_request \<Rightarrow> connection \<Rightarrow> (str \<times> str) option \<times> connection" where
  "cmd_index req request c = (case index_paths req request c of (s, c') \<Rightarrow> (map_option index_report s, c'))"

definition cmd_status :: "str \<Rightarrow> index_db \<Rightarrow> bool \<Rightarrow> str" where
  "cmd_status path db json = (if json then print_status_json (db_stats path db) else status_text (db_stats path db))"

definition cmd_bootstrap :: "str \<Rightarrow> index_db \<Rightarrow> str" where
  "cmd_bootstrap path db = bootstrap_json (db_bootstrap_status path db)"

text \<open>
  \<open>cmd_clean\<close>: the files that are there are removed in turn, up to the first that cannot be. What is
  returned is the error, if any, the output and the files removed.
\<close>

definition sidecar_path :: "str \<Rightarrow> str \<Rightarrow> str" where
  "sidecar_path path suff = to_string_lossy path @ ''-'' @ suff"

fun clean_files :: "(str \<Rightarrow> bool) \<Rightarrow> (str \<Rightarrow> error option) \<Rightarrow> str list \<Rightarrow> error option \<times> str list \<times> str list" where
  "clean_files present remove_file [] = (None, [], [])"
| "clean_files present remove_file (path # paths) =
     (if \<not> present path then clean_files present remove_file paths
      else case remove_file path of
        Some e \<Rightarrow> (Some e, [], [])
      | None \<Rightarrow>
          (case clean_files present remove_file paths of
             (e, out, gone) \<Rightarrow> (e, (''removed '' @ to_string_lossy path) # out, path # gone)))"

definition cmd_clean :: "environment \<Rightarrow> (str \<Rightarrow> bool) \<Rightarrow> (str \<Rightarrow> error option) \<Rightarrow> error option \<times> str list \<times> str list" where
  "cmd_clean env present remove_file =
     (let path = default_db_path env
      in clean_files present remove_file [path, sidecar_path path ''wal'', sidecar_path path ''shm''])"

subsection \<open>Arguments read back\<close>

text \<open>The arguments that give a state of the parser, in the documented spelling.\<close>

definition render_search_args :: "search_args \<Rightarrow> str list" where
  "render_search_args a =
     sa_parts a @ (if sa_json a then [''--json''] else []) @ (if sa_path_only a then [''--path''] else []) @
     (if sa_fuzzy a then [''--fuzzy''] else []) @ [''--limit'', nat_to_str (sa_limit a)] @
     (case sa_ext a of None \<Rightarrow> [] | Some e \<Rightarrow> [''--ext='' @ e]) @
     (case sa_kind a of None \<Rightarrow> [] | Some k \<Rightarrow> [''--kind='' @ kind_as_str k])"

definition expressible :: "(str \<Rightarrow> str) \<Rightarrow> search_args \<Rightarrow> bool" where
  "expressible ul a \<longleftrightarrow>
     (\<forall>p \<in> set (sa_parts a). \<not> prefix ''-'' p) \<and> sa_limit a < 2 ^ 64 \<and>
     (\<forall>e. sa_ext a = Some e \<longrightarrow> to_lowercase ul (trim_start_matches (\<lambda>ch. ch = ''.'') e) = e)"

lemma parse_search_parts:
  "\<forall>p \<in> set ps. \<not> prefix ''-'' p \<Longrightarrow>
     parse_search ul (ps @ args) a = parse_search ul args (a\<lparr>sa_parts := sa_parts a @ ps\<rparr>)"
proof (induction ps arbitrary: a)
  case (Cons p ps)
  then have "\<not> prefix ''-'' p" by simp
  then have p: "p \<noteq> ''--json''" "p \<noteq> ''--path''" "p \<noteq> ''--fuzzy''" "valued_option ul p = None" "inline_option ul p = None"
    by (auto simp: valued_option_def inline_option_def strip_prefix_def prefix_def)
  with Cons show ?case by simp
qed simp

text \<open>One option at a time.\<close>

lemma parse_search_flags:
  "parse_search ul ((if b then [''--json''] else []) @ args) a = parse_search ul args (if b then a\<lparr>sa_json := True\<rparr> else a)"
  "parse_search ul ((if b then [''--path''] else []) @ args) a = parse_search ul args (if b then a\<lparr>sa_path_only := True\<rparr> else a)"
  "parse_search ul ((if b then [''--fuzzy''] else []) @ args) a = parse_search ul args (if b then a\<lparr>sa_fuzzy := True\<rparr> else a)"
  by simp_all

lemma parse_search_limit: "n < 2 ^ 64 \<Longrightarrow> parse_search ul ([''--limit'', nat_to_str n] @ args) a = parse_search ul args (a\<lparr>sa_limit := n\<rparr>)"
  by (simp add: valued_option_def set_limit_def parse_usize_nat_to_str)

lemma inline_options:
  "inline_option ul (''--ext='' @ e) = Some (set_ext ul e)" "valued_option ul (''--ext='' @ e) = None"
  "inline_option ul (''--kind='' @ e) = Some (set_kind ul e)" "valued_option ul (''--kind='' @ e) = None"
  by (simp_all add: inline_option_def valued_option_def strip_prefix_def)

lemma parse_search_ext:
  assumes "\<forall>e. v = Some e \<longrightarrow> to_lowercase ul (trim_start_matches (\<lambda>ch. ch = ''.'') e) = e"
  shows "parse_search ul ((case v of None \<Rightarrow> [] | Some e \<Rightarrow> [''--ext='' @ e]) @ args) a =
    parse_search ul args (case v of None \<Rightarrow> a | Some e \<Rightarrow> a\<lparr>sa_ext := v\<rparr>)"
  using assms inline_options(1,2) by (cases v) (simp_all add: set_ext_def)

lemma parse_search_kind:
  "parse_search ul (case v of None \<Rightarrow> [] | Some k \<Rightarrow> [''--kind='' @ kind_as_str k]) a =
    Inr (case v of None \<Rightarrow> a | Some k \<Rightarrow> a\<lparr>sa_kind := v\<rparr>)"
proof (cases v)
  case (Some k)
  have "kind_parse ul (kind_as_str k) = Some k" using kind_roundtrip by blast
  then show ?thesis using Some inline_options(3,4) by (simp add: set_kind_def)
qed simp

lemma parse_search_render:
  assumes "expressible ul a"
  shows "parse_search ul (render_search_args a) search_args_start = Inr a"
proof -
  have parts: "\<forall>p \<in> set (sa_parts a). \<not> prefix ''-'' p" and n: "sa_limit a < 2 ^ 64"
    and e: "\<forall>e. sa_ext a = Some e \<longrightarrow> to_lowercase ul (trim_start_matches (\<lambda>ch. ch = ''.'') e) = e"
    using assms by (simp_all add: expressible_def)
  show ?thesis
    unfolding render_search_args_def parse_search_parts [OF parts] parse_search_flags
      parse_search_limit [OF n] parse_search_ext [OF e] parse_search_kind
    by (cases a) (simp add: search_args_start_def split: option.split)
qed

definition options_of_args :: "search_args \<Rightarrow> search_options" where
  "options_of_args a =
     default_options\<lparr>query := join_with '' '' (sa_parts a), limit := sa_limit a, ext := sa_ext a, kind := sa_kind a,
       path_only := sa_path_only a, fuzzy := sa_fuzzy a\<rparr>"

text \<open>
  Every search that the command line can express is what the parser reads: the documented
  spelling of the words, \<open>--limit\<close>, \<open>--ext\<close>, \<open>--kind\<close>, \<open>--path\<close>, \<open>--fuzzy\<close> and \<open>--json\<close> gives
  exactly these options.
\<close>

theorem search_args_roundtrip:
  assumes "expressible ul a" and "trim (join_with '' '' (sa_parts a)) \<noteq> []"
  shows "parse_search_args ul (render_search_args a) = Inr (options_of_args a, sa_json a)"
  using assms(2) by (simp add: parse_search_args_def parse_search_render [OF assms(1)] options_of_args_def)

theorem search_args_roundtrip_witness:
  "parse_search_args id [''annual'', ''report'', ''--json'', ''--limit'', ''7'', ''--ext=pdf'', ''--kind=file''] =
     Inr (default_options\<lparr>query := ''annual report'', limit := 7, ext := Some ''pdf'', kind := Some File\<rparr>, True)"
proof -
  let ?a = "\<lparr>sa_parts = [''annual'', ''report''], sa_limit = 7, sa_json = True, sa_ext = Some ''pdf'', sa_kind = Some File,
    sa_path_only = False, sa_fuzzy = False\<rparr>"
  have "to_lowercase id (trim_start_matches (\<lambda>ch. ch = ''.'') ''pdf'') = ''pdf''" by code_simp
  then have e: "expressible id ?a" by (simp add: expressible_def)
  have t: "trim (join_with '' '' (sa_parts ?a)) \<noteq> []" by code_simp
  have r: "render_search_args ?a = [''annual'', ''report'', ''--json'', ''--limit'', ''7'', ''--ext=pdf'', ''--kind=file'']"
    by code_simp
  show ?thesis using search_args_roundtrip [OF e t] by (simp add: r options_of_args_def default_options_def)
qed

subsection \<open>The first result\<close>

lemma apply_filter_limit:
  "apply_filter ul now token (out\<lparr>limit := n\<rparr>, ts) = (case apply_filter ul now token (out, ts) of (o', ts') \<Rightarrow> (o'\<lparr>limit := n\<rparr>, ts'))"
  by (simp add: apply_filter_def Let_def split: inline_filter.split)

lemma apply_filters_limit:
  "fold (apply_filter ul now) tokens (out\<lparr>limit := n\<rparr>, ts) =
     (case fold (apply_filter ul now) tokens (out, ts) of (o', ts') \<Rightarrow> (o'\<lparr>limit := n\<rparr>, ts'))"
proof (induction tokens arbitrary: out ts)
  case (Cons token tokens)
  obtain o' ts' where "apply_filter ul now token (out, ts) = (o', ts')" by fastforce
  then show ?case using Cons by (simp add: apply_filter_limit)
qed simp

lemma option_pushes_limit: "option_pushes ul (options\<lparr>limit := n\<rparr>) = (option_pushes ul options)\<lparr>limit := n\<rparr>"
  by (simp add: option_pushes_def Let_def split: option.split)

lemma normalized_limit: "normalized_at ul (options\<lparr>limit := n\<rparr>) now = (normalized_at ul options now)\<lparr>limit := n\<rparr>"
  by (simp add: normalized_at_def option_pushes_limit apply_filters_limit split: prod.split)

definition limited :: "usize \<Rightarrow> prepared_query \<Rightarrow> prepared_query" where
  "limited n q = q\<lparr>pq_options := (pq_options q)\<lparr>limit := n\<rparr>\<rparr>"

lemma prepared_limit: "prepared_query_new ul (options\<lparr>limit := n\<rparr>) = map_option (limited n) (prepared_query_new ul options)"
  by (simp add: prepared_query_new_def terms_def fuzzy_enabled_def limited_def split: bind_split)

lemma matches_metadata_limit: "matches_metadata (options\<lparr>limit := n\<rparr>) = matches_metadata options"
  by (intro ext) (simp add: matches_metadata_def cong: option.case_cong)

lemma limited_fields:
  "pq_terms (limited n q) = pq_terms q" "pq_path_filters (limited n q) = pq_path_filters q"
  "pq_excluded_path_filters (limited n q) = pq_excluded_path_filters q" "pq_fuzzy (limited n q) = pq_fuzzy q"
  "path_only (pq_options (limited n q)) = path_only (pq_options q)"
  "matches_metadata (pq_options (limited n q)) = matches_metadata (pq_options q)"
  by (simp_all add: limited_def matches_metadata_limit)

lemma term_score_limit: "term_score (limited n q) t path basename = term_score q t path basename"
  unfolding term_score_def limited_fields ..

lemma rank_terms_limit: "rank_terms (limited n q) path basename ts score = rank_terms q path basename ts score"
proof (induction ts arbitrary: score)
  case (Cons t ts)
  then show ?case unfolding rank_terms.simps term_score_limit by presburger
qed simp

lemma row_score_limit: "row_score ul (limited n q) r = row_score ul q r"
  unfolding row_score_def rank_lowered_def limited_fields rank_terms_limit ..

lemma scan_results_limit: "scan_results ul (limited n q) db k = scan_results ul q db k"
proof -
  have "hit_for ul (limited n q) = hit_for ul q" by (intro ext) (simp add: hit_for_def row_score_limit)
  then show ?thesis by (simp add: scan_results_def)
qed

lemma args_valid:
  assumes "parse_search_args ul args = Inr (options, json)" and "list_all utf8_valid args"
  shows "options_valid options"
proof -
  have "list_all utf8_valid (sa_parts b)"
    if "parse_search ul as a = Inr b" "list_all utf8_valid as" "list_all utf8_valid (sa_parts a)" for as a b
    using that
  proof (induction ul as a rule: parse_search.induct)
    case (2 ul arg as a)
    show ?case
      using 2
      by (auto simp: valued_option_def inline_option_def set_limit_def set_ext_def set_kind_def
          split: if_split_asm option.split_asm list.split_asm sum.split_asm)
  qed simp
  moreover obtain b where b: "parse_search ul args search_args_start = Inr b" and o: "options = options_of_args b"
    using assms(1) by (auto simp: parse_search_args_def options_of_args_def Let_def split: sum.split_asm if_split_asm)
  ultimately have "list_all utf8_valid (sa_parts b)" using assms(2) by (simp add: search_args_start_def)
  then show ?thesis by (simp add: o options_of_args_def options_valid_def default_options_def join_with_valid)
qed

text \<open>
  C19: \<open>macevery open\<close> and \<open>macevery reveal\<close> act on the file that \<open>macevery search\<close> prints first for the
  same arguments, whatever limit they give, and fail with a message of their own exactly when that
  search prints nothing.
\<close>

theorem open_acts_on_first_result:
  assumes "lowercase_ok ul" and "table_ok db" and "list_all utf8_valid args"
    and "parse_search_args ul args = Inr (options, json)"
  shows "\<exists>results. search ul now db options = Some results \<and>
    cmd_search ul now db options False = Some (search_table results) \<and>
    cmd_open_or_reveal ul now db launch options reveal = Some
      (case results of
         [] \<Rightarrow> Some no_match
       | r # _ \<Rightarrow> (if reveal then reveal_path launch (fr_path (sr_record r)) else open_path launch (fr_path (sr_record r))))"
proof -
  let ?o = "normalized_at ul options now"
  have v: "options_valid options" using args_valid [OF assms(4,3)] .
  then have v1: "options_valid (options\<lparr>limit := 1\<rparr>)" by (simp add: options_valid_def)
  obtain q where q: "prepared_query_new ul ?o = Some q"
      "search ul now db options = Some (scan_results ul q db (effective_limit (limit ?o)))"
    using search_scan [OF assms(1) v assms(2)] by blast
  obtain q1 where q1: "prepared_query_new ul (?o\<lparr>limit := 1\<rparr>) = Some q1"
      "search ul now db (options\<lparr>limit := 1\<rparr>) = Some (scan_results ul q1 db 1)"
    using search_scan [OF assms(1) v1 assms(2), of now] by (auto simp: normalized_limit effective_limit_def)
  have "q1 = limited 1 q" using q1(1) q(1) by (simp add: prepared_limit)
  then have one: "search ul now db (options\<lparr>limit := 1\<rparr>) = Some (scan_results ul q db 1)"
    using q1(2) scan_results_limit by simp
  have "0 < effective_limit (limit ?o)" by (simp add: effective_limit_def)
  then have "scan_results ul q db 1 = take 1 (scan_results ul q db (effective_limit (limit ?o)))"
    by (simp add: scan_results_def take_map min_def)
  then have "(case scan_results ul q db 1 of [] \<Rightarrow> x | r # _ \<Rightarrow> f r) =
      (case scan_results ul q db (effective_limit (limit ?o)) of [] \<Rightarrow> x | r # _ \<Rightarrow> f r)" for x :: "error option" and f
    by (cases "scan_results ul q db (effective_limit (limit ?o))") auto
  with one q(2) show ?thesis by (auto simp: cmd_search_def cmd_open_or_reveal_def)
qed

theorem open_acts_on_first_result_witness:
  "cmd_open_or_reveal id 0
     \<lparr>ft_rows = [example_row 1 ''/a/notes'' ''notes'', example_row 2 ''/a/report'' ''report''], ft_plan = rev, ft_utf8 = True\<rparr>
     (\<lambda>args. Inr (args = [''--'', ''/a/report''])) (default_options\<lparr>query := ''report'', limit := 50\<rparr>) False = Some None"
proof -
  let ?db = "\<lparr>ft_rows = [example_row 1 ''/a/notes'' ''notes'', example_row 2 ''/a/report'' ''report''], ft_plan = rev, ft_utf8 = True\<rparr>"
  let ?o = "default_options\<lparr>query := ''report'', limit := 50\<rparr>"
  have l: "lowercase_ok id" by (simp add: lowercase_ok_def)
  have t: "table_ok ?db" by (simp add: table_ok_def example_row_def)
  have u: "list_all utf8_valid [''report'']" by code_simp
  have p: "parse_search_args id [''report''] = Inr (?o, False)" by code_simp
  obtain q where q: "prepared_query_new id (normalized_at id ?o 0) = Some q"
      "search id 0 ?db ?o = Some (scan_results id q ?db (effective_limit (limit (normalized_at id ?o 0))))"
    using search_scan [OF l args_valid [OF p u] t, of 0] by blast
  have "map_option (\<lambda>q. map (\<lambda>r. fr_path (sr_record r))
      (scan_results id q ?db (effective_limit (limit (normalized_at id ?o 0)))))
      (prepared_query_new id (normalized_at id ?o 0)) = Some [''/a/report'']"
    by code_simp
  with q have s: "map_option (map (\<lambda>r. fr_path (sr_record r))) (search id 0 ?db ?o) = Some [''/a/report'']" by simp
  note open_acts_on_first_result [OF l t u p, of 0 "\<lambda>args. Inr (args = [''--'', ''/a/report''])" False, unfolded if_False]
  then obtain results where r: "search id 0 ?db ?o = Some results"
    "cmd_open_or_reveal id 0 ?db (\<lambda>args. Inr (args = [''--'', ''/a/report''])) ?o False = Some
      (case results of [] \<Rightarrow> Some no_match
       | r # _ \<Rightarrow> open_path (\<lambda>args. Inr (args = [''--'', ''/a/report''])) (fr_path (sr_record r)))"
    by blast
  obtain x where "results = [x]" "fr_path (sr_record x) = ''/a/report''" using s r(1) by auto
  then show ?thesis using r(2) by (simp add: open_path_def)
qed

end
