(* ===== verification/Compact_Copy.thy ===== *)
theory Compact_Copy
  imports Db_Access Rust_Path Rust_Lossy "HOL-Library.Code_Target_Nat"
begin

text \<open>
  The compacted copy of a database, \<open>write_compacted_copy\<close> of \<open>src/src/db.rs\<close>: SQLite writes a copy into a
  private directory, the copy is compared with its source row by row, and only then it gets
  the name asked for, by a hard link that never replaces a file.

  As in \<open>Db_Access\<close> every look at the world happens at a numbered moment and the world, other
  processes and SQLite's copy included, is a parameter. What the routine does to the file system is
  recorded as a list of effects, in their order, whether they succeed or not.
\<close>

subsection \<open>Looks and effects\<close>

text \<open>\<open>CompactFilePin\<close>.\<close>

record file_pin =
  fp_identity :: identity
  fp_bytes :: nat
  fp_mtime :: i64
  fp_mtime_nsec :: i64

datatype effect =
    MakeDir str
  | VacuumInto str
  | SetPrivate str
  | SyncFile str
  | HardLink str str
  | RemoveDir str

text \<open>
  What is there at a moment: the metadata of a path, whether there is anything of that name (links are not
  followed), its canonical form, what a statement on a file reads, its \<open>quick_check\<close>, and how an effect ends.
\<close>

record copy_view =
  vw_pin :: "str \<Rightarrow> error + file_pin"
  vw_entry :: "str \<Rightarrow> error + unit"
  vw_canonical :: "str \<Rightarrow> error + str"
  vw_content :: "identity \<Rightarrow> error + index_db"
  vw_quick_check :: "identity \<Rightarrow> error + bool"
  vw_done :: "error + unit"

type_synonym copy_world = "nat \<Rightarrow> copy_view"

type_synonym 'a copy_io = "nat \<times> effect list \<Rightarrow> (error + 'a) \<times> nat \<times> effect list"

definition cp_return :: "'a \<Rightarrow> 'a copy_io" where
  "cp_return x s = (Inr x, s)"

definition cp_fail :: "error \<Rightarrow> 'a copy_io" where
  "cp_fail e s = (Inl e, s)"

definition cp_bind :: "'a copy_io \<Rightarrow> ('a \<Rightarrow> 'b copy_io) \<Rightarrow> 'b copy_io" where
  "cp_bind m f s = (case m s of (Inl e, s') \<Rightarrow> (Inl e, s') | (Inr x, s') \<Rightarrow> f x s')"

definition cp_guard :: "bool \<Rightarrow> error \<Rightarrow> unit copy_io" where
  "cp_guard b e = (if b then cp_return () else cp_fail e)"

definition look :: "(nat \<Rightarrow> error + 'a) \<Rightarrow> 'a copy_io" where
  "look f s = (f (fst s), fst s + 1, snd s)"

definition effect_at :: "copy_world \<Rightarrow> effect \<Rightarrow> unit copy_io" where
  "effect_at w e s = (vw_done (w (fst s)), fst s + 1, snd s @ [e])"

subsection \<open>Files\<close>

definition file_pin_at :: "copy_world \<Rightarrow> str \<Rightarrow> file_pin copy_io" where
  "file_pin_at w path = look (\<lambda>n. vw_pin (w n) path)"

definition identity_at :: "copy_world \<Rightarrow> str \<Rightarrow> identity copy_io" where
  "identity_at w path = look (\<lambda>n. map_sum id fp_identity (vw_pin (w n) path))"

text \<open>A name that must be free: any other failure than its absence is an error, too.\<close>

definition require_absent :: "copy_world \<Rightarrow> str \<Rightarrow> error \<Rightarrow> unit copy_io" where
  "require_absent w path present =
     look (\<lambda>n. case vw_entry (w n) path of
         Inr _ \<Rightarrow> Inl present
       | Inl e \<Rightarrow> if e = not_found then Inr () else Inl e)"

definition copy_open :: "copy_world \<Rightarrow> str \<Rightarrow> db_conn copy_io" where
  "copy_open w path =
     cp_bind (identity_at w path) (\<lambda>before.
     cp_bind (identity_at w path) (\<lambda>file.
     cp_bind (identity_at w path) (\<lambda>identity.
     cp_bind (cp_guard (identity = before) replaced_while_opening) (\<lambda>_.
       cp_return \<lparr>cn_file = file, cn_identity = identity\<rparr>))))"

definition content :: "copy_world \<Rightarrow> db_conn \<Rightarrow> index_db copy_io" where
  "content w conn = look (\<lambda>n. vw_content (w n) (cn_file conn))"

text \<open>\<open>compact_staging_directory\<close>: a fresh directory of this process, after at most 32 names.\<close>

definition already_exists :: error where "already_exists = Io ''File exists (os error 17)''"

definition staging_name :: "nat \<Rightarrow> nat \<Rightarrow> nat \<Rightarrow> str" where
  "staging_name pid timestamp serial =
     ''.macevery-compact-'' @ nat_to_str pid @ ''-'' @ nat_to_str timestamp @ ''-'' @ nat_to_str serial"

fun make_staging :: "copy_world \<Rightarrow> (nat \<Rightarrow> str) \<Rightarrow> str \<Rightarrow> nat \<Rightarrow> nat \<Rightarrow> str copy_io" where
  "make_staging w name parent serial 0 = cp_fail (Cli ''cannot allocate a private compact-copy staging directory'')"
| "make_staging w name parent serial (Suc tries) =
     (\<lambda>s. case effect_at w (MakeDir (path_join parent (name serial))) s of
        (Inr _, s') \<Rightarrow> cp_return (path_join parent (name serial)) s'
      | (Inl e, s') \<Rightarrow>
          if e = already_exists then make_staging w name parent (serial + 1) tries s' else cp_fail e s')"

subsection \<open>What is compared\<close>

text \<open>\<open>CompactControlPin\<close>; a value of \<open>meta\<close> is compared as its type and its bytes in hexadecimal.\<close>

record control_pin =
  cpn_database_id :: str
  cpn_revision :: i64
  cpn_journal_floor :: i64
  cpn_roots :: "str list"
  cpn_excludes :: "str list"
  cpn_metadata :: "str list list"

definition upper_hex_digit :: "nat \<Rightarrow> char" where
  "upper_hex_digit n = (if n < 10 then char_of (48 + n) else char_of (55 + n))"

definition sql_hex :: "str \<Rightarrow> str" where
  "sql_hex s = concat (map (\<lambda>c. [upper_hex_digit (byte c div 16), upper_hex_digit (byte c mod 16)]) s)"

definition control_pin_of :: "index_db \<Rightarrow> control_pin" where
  "control_pin_of db =
     \<lparr>cpn_database_id = ix_database_id db, cpn_revision = ix_revision db, cpn_journal_floor = ix_floor db,
      cpn_roots = fst (roots_and_excludes db), cpn_excludes = snd (roots_and_excludes db),
      cpn_metadata = sort (map (\<lambda>(k, v). [''text'', sql_hex k, ''text'', sql_hex v]) (ix_meta db))\<rparr>"

text \<open>
  \<open>with_read_snapshot\<close> around \<open>compact_control_pin\<close>: \<open>BEGIN\<close>, the stamp that pins the snapshot, roots, excludes, the floor and
  the metadata, \<open>COMMIT\<close>; a failure rolls back.
\<close>

definition copy_snapshot :: "copy_world \<Rightarrow> db_conn \<Rightarrow> 'a copy_io \<Rightarrow> 'a copy_io" where
  "copy_snapshot w conn read =
     cp_bind (content w conn) (\<lambda>_ s.
       case cp_bind read (\<lambda>v. cp_bind (content w conn) (\<lambda>_. cp_return v)) s of
         (Inl e, s') \<Rightarrow> (Inl e, snd (content w conn s'))
       | (Inr v, s') \<Rightarrow> (Inr v, s'))"

definition compact_control_pin :: "copy_world \<Rightarrow> db_conn \<Rightarrow> control_pin copy_io" where
  "compact_control_pin w conn =
     copy_snapshot w conn
       (cp_bind (content w conn) (\<lambda>db. cp_bind (content w conn) (\<lambda>_. cp_bind (content w conn) (\<lambda>_.
        cp_bind (content w conn) (\<lambda>_. cp_bind (content w conn) (\<lambda>_. cp_return (control_pin_of db)))))))"

text \<open>
  \<open>verify_compacted_records\<close>: two statements, each on the snapshot of its first step, stepped together.
\<close>

definition records_differ :: "nat \<Rightarrow> error" where
  "records_differ k = Sqlite (''compacted records differ at ordinal '' @ nat_to_str k @ ''; output retained'')"

definition counts_differ :: "nat \<Rightarrow> error" where
  "counts_differ k = Sqlite (''compacted record counts differ after ordinal '' @ nat_to_str k @ ''; output retained'')"

fun compare_rows :: "copy_world \<Rightarrow> db_conn \<Rightarrow> db_conn \<Rightarrow> file_record list \<Rightarrow> file_record list \<Rightarrow> nat \<Rightarrow> nat copy_io" where
  "compare_rows w source copied [] [] k = cp_return k"
| "compare_rows w source copied (x # xs) (y # ys) k =
     cp_bind (cp_guard (k + 1 < 2 ^ 64) (Sqlite ''compacted record count overflow'')) (\<lambda>_.
     cp_bind (cp_guard (x = y) (records_differ (k + 1))) (\<lambda>_.
     cp_bind (content w source) (\<lambda>_. cp_bind (content w copied) (\<lambda>_. compare_rows w source copied xs ys (k + 1)))))"
| "compare_rows w source copied [] (y # ys) k = cp_fail (counts_differ k)"
| "compare_rows w source copied (x # xs) [] k = cp_fail (counts_differ k)"

definition verify_compacted_records :: "copy_world \<Rightarrow> db_conn \<Rightarrow> db_conn \<Rightarrow> nat copy_io" where
  "verify_compacted_records w source copied =
     cp_bind (content w source) (\<lambda>db. cp_bind (content w copied) (\<lambda>db'.
       compare_rows w source copied (ix_files db) (ix_files db') 0))"

subsection \<open>The copy\<close>

text \<open>
  The name must not be that of a file SQLite keeps beside the source, in whatever spelling, and the files
  it would keep beside the copy must not be there.
\<close>

definition sqlite_suffixes :: "str list" where "sqlite_suffixes = [''-wal'', ''-shm'', ''-journal'']"

definition main_name :: "str \<Rightarrow> str \<Rightarrow> str option" where
  "main_name name suff =
     (let k = length name - length suff
      in if eq_ignore_ascii_case (drop k name) suff then Some (take k name) else None)"

definition check_sidecar :: "copy_world \<Rightarrow> identity \<Rightarrow> str \<Rightarrow> str \<Rightarrow> str \<Rightarrow> unit copy_io" where
  "check_sidecar w source dir name suff =
     cp_bind
       (case main_name name suff of
          None \<Rightarrow> cp_return ()
        | Some main \<Rightarrow>
            (\<lambda>s. case identity_at w (path_join dir main) s of
               (Inr i, s') \<Rightarrow>
                 cp_guard (i \<noteq> source) (Cli ''compacted output must not be a source database sidecar'') s'
             | (Inl e, s') \<Rightarrow> if e = not_found then cp_return () s' else cp_fail e s'))
       (\<lambda>_. require_absent w (path_join dir name @ suff) (Cli ''compacted output has an existing SQLite sidecar''))"

fun check_sidecars :: "copy_world \<Rightarrow> identity \<Rightarrow> str \<Rightarrow> str \<Rightarrow> str list \<Rightarrow> unit copy_io" where
  "check_sidecars w source dir name [] = cp_return ()"
| "check_sidecars w source dir name (suff # suffs) =
     cp_bind (check_sidecar w source dir name suff) (\<lambda>_. check_sidecars w source dir name suffs)"

text \<open>Before anything is written: where the copy goes and that nothing is there; the pin of the source.\<close>

definition copy_preflight ::
  "copy_world \<Rightarrow> bool \<Rightarrow> str \<Rightarrow> identity \<Rightarrow> str \<Rightarrow> (str \<times> str \<times> file_pin) copy_io" where
  "copy_preflight w idle path identity output =
     cp_bind (cp_guard idle (Cli ''cannot compact while the caller has an active transaction or statement'')) (\<lambda>_.
     cp_bind (cp_guard (output \<noteq> []) (Cli ''compacted output path must not be empty'')) (\<lambda>_.
     case file_name output of
       None \<Rightarrow> cp_fail (Cli ''compacted output must name a fresh file'')
     | Some name \<Rightarrow>
         let parent = (case path_parent output of Some p \<Rightarrow> if p = [] then ''.'' else p | None \<Rightarrow> ''.'')
         in cp_bind (look (\<lambda>n. vw_canonical (w n) parent)) (\<lambda>dir.
            let out = path_join dir name
            in cp_bind (cp_guard (utf8_valid out \<and> CHR 0x00 \<notin> set out)
                   (Cli ''compacted output must be a UTF-8 path without NUL'')) (\<lambda>_.
               cp_bind (require_absent w out (Cli ''compacted output already exists'')) (\<lambda>_.
               cp_bind (file_pin_at w path) (\<lambda>source_file.
               cp_bind (cp_guard (fp_identity source_file = identity)
                   (Sqlite ''source database was replaced before compact copy'')) (\<lambda>_.
               cp_bind (cp_guard (utf8_valid name) (Cli ''compacted output must be a UTF-8 filename'')) (\<lambda>_.
               cp_bind (check_sidecars w identity dir name sqlite_suffixes) (\<lambda>_.
                 cp_return (out, dir, source_file)))))))))) "

text \<open>The connection to the source, with its two pragmas.\<close>

definition copy_source :: "copy_world \<Rightarrow> str \<Rightarrow> identity \<Rightarrow> db_conn copy_io" where
  "copy_source w path identity =
     cp_bind (look (\<lambda>n. vw_canonical (w n) path)) (\<lambda>source_path.
     cp_bind (cp_guard (utf8_valid source_path) (Cli ''compact source must be a UTF-8 path'')) (\<lambda>_.
     cp_bind (copy_open w source_path) (\<lambda>source.
     cp_bind (cp_guard (cn_identity source = identity)
         (Sqlite ''source database was replaced while opening compact copy'')) (\<lambda>_.
     cp_bind (content w source) (\<lambda>_. cp_return source)))))"

text \<open>SQLite's copy: private, on disk, still the file that was written, and sound.\<close>

definition staged_copy :: "copy_world \<Rightarrow> db_conn \<Rightarrow> str \<Rightarrow> (file_pin \<times> db_conn) copy_io" where
  "staged_copy w source staged =
     cp_bind (content w source) (\<lambda>_.
     cp_bind (effect_at w (VacuumInto staged)) (\<lambda>_.
     cp_bind (effect_at w (SetPrivate staged)) (\<lambda>_.
     cp_bind (file_pin_at w staged) (\<lambda>opened.
     cp_bind (effect_at w (SyncFile staged)) (\<lambda>_.
     cp_bind (identity_at w staged) (\<lambda>i.
     cp_bind (cp_guard (i = fp_identity opened) (Sqlite ''compacted output was replaced during copy'')) (\<lambda>_.
     cp_bind (file_pin_at w staged) (\<lambda>copied_file.
     cp_bind (copy_open w staged) (\<lambda>compacted.
     cp_bind (look (\<lambda>n. vw_quick_check (w n) (cn_file compacted))) (\<lambda>sound.
     cp_bind (cp_guard sound (Sqlite ''compacted output quick_check failed'')) (\<lambda>_.
       cp_return (copied_file, compacted))))))))))))"

definition source_changed :: error where
  "source_changed = Sqlite ''source identity, revision or control metadata changed during compact copy; output retained''"

text \<open>The comparison, and that neither file changed meanwhile.\<close>

definition verified_copy ::
  "copy_world \<Rightarrow> str \<Rightarrow> file_pin \<Rightarrow> db_conn \<Rightarrow> control_pin \<Rightarrow> str \<Rightarrow> file_pin \<times> db_conn \<Rightarrow> nat copy_io" where
  "verified_copy w path source_file source before staged copy =
     (let (copied_file, compacted) = copy
      in cp_bind (compact_control_pin w compacted) (\<lambda>copied.
         cp_bind (verify_compacted_records w source compacted) (\<lambda>records.
         cp_bind (compact_control_pin w source) (\<lambda>after.
         cp_bind (compact_control_pin w compacted) (\<lambda>copied_after.
         cp_bind (cp_guard (before = after \<and> copied = before \<and> copied_after = before) source_changed) (\<lambda>_.
         cp_bind (file_pin_at w path) (\<lambda>source_now.
         cp_bind (cp_guard (source_now = source_file) source_changed) (\<lambda>_.
         cp_bind (file_pin_at w staged) (\<lambda>staged_now.
         cp_bind (cp_guard (staged_now = copied_file) (Sqlite ''compacted output was replaced during validation'')) (\<lambda>_.
         cp_bind (look (\<lambda>n. case vw_pin (w n) (to_string_lossy staged @ ''-wal'') of
              Inr pin \<Rightarrow>
                if fp_bytes pin \<noteq> 0
                then Inl (Sqlite ''compacted staging still has WAL data; refusing main-file-only publication'') else Inr ()
            | Inl e \<Rightarrow> if e = not_found then Inr () else Inl e)) (\<lambda>_.
           cp_return records)))))))))))"

definition published_copy :: "copy_world \<Rightarrow> str \<Rightarrow> str \<Rightarrow> str \<Rightarrow> file_pin \<Rightarrow> unit copy_io" where
  "published_copy w staging staged out copied_file =
     cp_bind (effect_at w (HardLink staged out)) (\<lambda>_.
     cp_bind (file_pin_at w out) (\<lambda>now.
     cp_bind (cp_guard (now = copied_file) (Sqlite ''published compacted output changed identity'')) (\<lambda>_.
       effect_at w (RemoveDir staging))))"

definition copy_into ::
  "copy_world \<Rightarrow> str \<Rightarrow> file_pin \<Rightarrow> db_conn \<Rightarrow> str \<Rightarrow> str \<Rightarrow> nat copy_io" where
  "copy_into w path source_file source out staging =
     (let staged = path_join staging ''index.sqlite''
      in cp_bind (cp_guard (utf8_valid staged) (Cli ''compacted staging path must be UTF-8'')) (\<lambda>_.
         cp_bind (compact_control_pin w source) (\<lambda>before.
         cp_bind (staged_copy w source staged) (\<lambda>copy.
         cp_bind (verified_copy w path source_file source before staged copy) (\<lambda>records.
         cp_bind (published_copy w staging staged out (fst copy)) (\<lambda>_.
           cp_return records))))))"

definition copy_failed :: "str \<Rightarrow> error \<Rightarrow> error" where
  "copy_failed staging e =
     Sqlite (''compact copy failed; staging retained at '' @ to_string_lossy staging @ '': '' @ error_text e)"

definition write_compacted_copy ::
  "copy_world \<Rightarrow> bool \<Rightarrow> (nat \<Rightarrow> str) \<Rightarrow> nat \<Rightarrow> str \<Rightarrow> identity \<Rightarrow> str \<Rightarrow> nat copy_io" where
  "write_compacted_copy w idle name serial path identity output =
     cp_bind (copy_preflight w idle path identity output) (\<lambda>(out, dir, source_file).
     cp_bind (copy_source w path identity) (\<lambda>source.
     case path_parent out of
       None \<Rightarrow> cp_fail (Cli ''compacted output needs a parent directory'')
     | Some parent \<Rightarrow>
         cp_bind (make_staging w name parent serial 32) (\<lambda>staging s.
           case copy_into w path source_file source out staging s of
             (Inl e, s') \<Rightarrow> (Inl (copy_failed staging e), s')
           | (Inr records, s') \<Rightarrow> (Inr records, s'))))"

subsection \<open>What a run does\<close>

text \<open>Time goes on and the effects are added, all of a kind \<open>E\<close>.\<close>

definition cp_does :: "(effect \<Rightarrow> bool) \<Rightarrow> 'a copy_io \<Rightarrow> bool" where
  "cp_does E m \<longleftrightarrow>
     (\<forall>s. fst s \<le> fst (snd (m s)) \<and> (\<exists>es. snd (snd (m s)) = snd s @ es \<and> list_all E es))"

lemma cp_doesD:
  assumes "cp_does E m" and "m s = (r, s')"
  shows "fst s \<le> fst s'" and "\<exists>es. snd s' = snd s @ es \<and> list_all E es"
  using assms unfolding cp_does_def by (metis snd_conv)+

named_theorems copy_rules

lemma cp_does_weaken: "cp_does E m \<Longrightarrow> (\<And>e. E e \<Longrightarrow> E' e) \<Longrightarrow> cp_does E' m"
  unfolding cp_does_def list_all_iff by blast

lemma cp_does_basic [copy_rules]:
  "cp_does E (cp_return x)" "cp_does E (cp_fail e)" "cp_does E (look f)" "cp_does E (cp_guard b e)"
  by (auto simp: cp_does_def cp_return_def cp_fail_def look_def cp_guard_def)

lemma cp_does_effect [copy_rules]: "E e \<Longrightarrow> cp_does E (effect_at w e)"
  by (simp add: cp_does_def effect_at_def)

lemma cp_does_bind [copy_rules]:
  assumes "cp_does E m" and "\<And>x. cp_does E (f x)"
  shows "cp_does E (cp_bind m f)"
  unfolding cp_does_def
proof
  fix s
  obtain r s' where m: "m s = (r, s')" by (cases "m s")
  note d = cp_doesD [OF assms(1) m]
  show "fst s \<le> fst (snd (cp_bind m f s)) \<and> (\<exists>es. snd (snd (cp_bind m f s)) = snd s @ es \<and> list_all E es)"
  proof (cases r)
    case (Inl e)
    then show ?thesis using m d by (simp add: cp_bind_def)
  next
    case (Inr x)
    obtain r' s'' where f: "f x s' = (r', s'')" by (cases "f x s'")
    note d' = cp_doesD [OF assms(2) f]
    obtain es es' where "snd s' = snd s @ es" "list_all E es" "snd s'' = snd s' @ es'" "list_all E es'"
      using d(2) d'(2) by blast
    then show ?thesis using m Inr f d(1) d'(1) by (auto simp: cp_bind_def intro!: exI [of _ "es @ es'"])
  qed
qed

lemma cp_does_looks [copy_rules]:
  "cp_does E (file_pin_at w p)" "cp_does E (identity_at w p)" "cp_does E (require_absent w p e)" "cp_does E (content w conn)"
  unfolding file_pin_at_def identity_at_def require_absent_def content_def by (rule copy_rules)+

lemma cp_does_open [copy_rules]: "cp_does E (copy_open w p)"
  unfolding copy_open_def by (intro copy_rules)

text \<open>A case distinction on how a computation ended.\<close>

lemma cp_does_case [copy_rules]:
  assumes m: "cp_does E m" and f: "\<And>x. cp_does E (f x)" and g: "\<And>e. cp_does E (g e)"
  shows "cp_does E (\<lambda>s. case m s of (Inr x, s') \<Rightarrow> f x s' | (Inl e, s') \<Rightarrow> g e s')"
  unfolding cp_does_def
proof
  fix s
  obtain r s1 where r: "m s = (r, s1)" by (cases "m s")
  obtain k where k: "(case m s of (Inr x, s') \<Rightarrow> f x s' | (Inl e, s') \<Rightarrow> g e s') = k s1" "cp_does E k"
    using r f g by (cases r) auto
  obtain r' s2 where s2: "k s1 = (r', s2)" by (cases "k s1")
  obtain es es' where "snd s1 = snd s @ es" "list_all E es" "snd s2 = snd s1 @ es'" "list_all E es'"
    using cp_doesD(2) [OF m r] cp_doesD(2) [OF k(2) s2] by blast
  then show "fst s \<le> fst (snd (case m s of (Inr x, s') \<Rightarrow> f x s' | (Inl e, s') \<Rightarrow> g e s')) \<and>
      (\<exists>es. snd (snd (case m s of (Inr x, s') \<Rightarrow> f x s' | (Inl e, s') \<Rightarrow> g e s')) = snd s @ es \<and> list_all E es)"
    using k s2 cp_doesD(1) [OF m r] cp_doesD(1) [OF k(2) s2] by (auto intro!: exI [of _ "es @ es'"])
qed

lemma cp_does_snapshot [copy_rules]:
  assumes "cp_does E read"
  shows "cp_does E (copy_snapshot w conn read)"
proof -
  have split: "copy_snapshot w conn read =
      cp_bind (content w conn) (\<lambda>_ s.
        case cp_bind read (\<lambda>v. cp_bind (content w conn) (\<lambda>_. cp_return v)) s of
          (Inr v, s') \<Rightarrow> cp_return v s'
        | (Inl e, s') \<Rightarrow> (\<lambda>s'. case content w conn s' of (Inr _, s2) \<Rightarrow> cp_fail e s2 | (Inl _, s2) \<Rightarrow> cp_fail e s2) s')"
    unfolding copy_snapshot_def
    by (intro arg_cong [of _ _ "cp_bind (content w conn)"] ext)
       (auto simp: cp_return_def cp_fail_def split: prod.split sum.split)
  show ?thesis unfolding split by (intro copy_rules assms)
qed

lemma cp_does_control [copy_rules]: "cp_does E (compact_control_pin w conn)"
  unfolding compact_control_pin_def by (intro copy_rules)

lemma cp_does_compare [copy_rules]: "cp_does E (compare_rows w source copied xs ys k)"
  by (induction w source copied xs ys k rule: compare_rows.induct) (auto intro!: copy_rules)

lemma cp_does_verify [copy_rules]: "cp_does E (verify_compacted_records w source copied)"
  unfolding verify_compacted_records_def by (intro copy_rules)

lemma cp_does_source [copy_rules]: "cp_does E (copy_source w path identity)"
  unfolding copy_source_def by (intro copy_rules)

lemma cp_does_sidecar [copy_rules]: "cp_does E (check_sidecar w source dir name suff)"
proof -
  have "cp_does E (case main_name name suff of
          None \<Rightarrow> cp_return ()
        | Some main \<Rightarrow>
            (\<lambda>s. case identity_at w (path_join dir main) s of
               (Inr i, s') \<Rightarrow>
                 cp_guard (i \<noteq> source) (Cli ''compacted output must not be a source database sidecar'') s'
             | (Inl e, s') \<Rightarrow> if e = not_found then cp_return () s' else cp_fail e s'))"
  proof (cases "main_name name suff")
    case (Some main)
    have "(\<lambda>s. case identity_at w (path_join dir main) s of
         (Inr i, s') \<Rightarrow> cp_guard (i \<noteq> source) (Cli ''compacted output must not be a source database sidecar'') s'
       | (Inl e, s') \<Rightarrow> if e = not_found then cp_return () s' else cp_fail e s') =
      (\<lambda>s. case identity_at w (path_join dir main) s of
         (Inr i, s') \<Rightarrow> cp_guard (i \<noteq> source) (Cli ''compacted output must not be a source database sidecar'') s'
       | (Inl e, s') \<Rightarrow> (if e = not_found then cp_return () else cp_fail e) s')"
      by (intro ext) (simp split: prod.split sum.split)
    moreover have "cp_does E (if e = not_found then cp_return () else cp_fail e)" for e by (simp add: copy_rules)
    ultimately show ?thesis unfolding Some option.case by (simp add: copy_rules)
  qed (simp add: copy_rules)
  then show ?thesis unfolding check_sidecar_def by (intro copy_rules)
qed

lemma cp_does_sidecars [copy_rules]: "cp_does E (check_sidecars w source dir name suffs)"
  by (induction suffs) (auto intro!: copy_rules)

lemma cp_does_preflight [copy_rules]: "cp_does E (copy_preflight w idle path identity output)"
  unfolding copy_preflight_def Let_def by (cases "file_name output") (auto intro!: copy_rules)

lemma cp_bind_Inr: "cp_bind m f s = (Inr y, s'') \<longleftrightarrow> (\<exists>x s'. m s = (Inr x, s') \<and> f x s' = (Inr y, s''))"
  by (auto simp: cp_bind_def split: prod.split sum.split)

lemma cp_return_Inr: "cp_return x s = (Inr y, s') \<longleftrightarrow> y = x \<and> s' = s"
  by (auto simp: cp_return_def)

lemma cp_guard_Inr: "cp_guard b e s = (Inr u, s') \<longleftrightarrow> b \<and> s' = s"
  by (auto simp: cp_guard_def cp_return_def cp_fail_def)

lemma look_Inr: "look f s = (Inr x, s') \<longleftrightarrow> f (fst s) = Inr x \<and> s' = (fst s + 1, snd s)"
  by (auto simp: look_def)

lemma effect_Inr: "effect_at w e s = (Inr u, s') \<longleftrightarrow> vw_done (w (fst s)) = Inr u \<and> s' = (fst s + 1, snd s @ [e])"
  by (auto simp: effect_at_def)

lemma cp_fail_Inr [simp]: "cp_fail e s = (Inr x, s') \<longleftrightarrow> False"
  by (simp add: cp_fail_def)

lemmas cp_Inr = cp_bind_Inr cp_return_Inr cp_guard_Inr look_Inr effect_Inr cp_fail_Inr

text \<open>A snapshot that was read between two moments.\<close>

definition read_between :: "copy_world \<Rightarrow> identity \<Rightarrow> nat \<Rightarrow> nat \<Rightarrow> index_db \<Rightarrow> bool" where
  "read_between w i a b db \<longleftrightarrow> (\<exists>m. a \<le> m \<and> m < b \<and> vw_content (w m) i = Inr db)"

lemma read_between_mono: "read_between w i a b db \<Longrightarrow> a' \<le> a \<Longrightarrow> b \<le> b' \<Longrightarrow> read_between w i a' b' db"
  unfolding read_between_def by (meson le_trans less_le_trans)

lemma control_pin_Inr:
  assumes "compact_control_pin w conn s = (Inr p, s')"
  shows "\<exists>db. read_between w (cn_file conn) (fst s) (fst s') db \<and> p = control_pin_of db"
proof -
  let ?read = "cp_bind (content w conn) (\<lambda>db. cp_bind (content w conn) (\<lambda>_. cp_bind (content w conn) (\<lambda>_.
      cp_bind (content w conn) (\<lambda>_. cp_bind (content w conn) (\<lambda>_. cp_return (control_pin_of db))))))"
  let ?m = "cp_bind ?read (\<lambda>v. cp_bind (content w conn) (\<lambda>_. cp_return v))"
  obtain s1 where s1: "s1 = (fst s + 1, snd s)"
    and body: "(case ?m s1 of (Inl e, s') \<Rightarrow> (Inl e, snd (content w conn s')) | (Inr v, s') \<Rightarrow> (Inr v, s')) = (Inr p, s')"
    using assms unfolding compact_control_pin_def copy_snapshot_def by (auto simp: cp_Inr content_def)
  have "?m s1 = (Inr p, s')" using body by (auto split: prod.split_asm sum.split_asm)
  then obtain db where "vw_content (w (fst s1)) (cn_file conn) = Inr db" "p = control_pin_of db" "fst s' = fst s1 + 6"
    by (auto simp: cp_Inr content_def)
  then show ?thesis using s1 by (auto simp: read_between_def intro!: exI [of _ db] exI [of _ "fst s1"])
qed

lemma compare_rows_Inr:
  "compare_rows w source copied xs ys k s = (Inr n, s') \<Longrightarrow> ys = xs \<and> n = k + length xs"
  by (induction w source copied xs ys k arbitrary: s s' rule: compare_rows.induct) (fastforce simp: cp_Inr)+

lemma verify_Inr:
  assumes "verify_compacted_records w source copied s = (Inr n, s')"
  shows "\<exists>db db'. read_between w (cn_file source) (fst s) (fst s') db \<and> read_between w (cn_file copied) (fst s) (fst s') db' \<and>
    ix_files db' = ix_files db \<and> n = length (ix_files db)"
proof -
  obtain db db' s1 where run: "vw_content (w (fst s)) (cn_file source) = Inr db"
      "vw_content (w (fst s + 1)) (cn_file copied) = Inr db'" "fst s1 = fst s + 2"
      "compare_rows w source copied (ix_files db) (ix_files db') 0 s1 = (Inr n, s')"
    using assms by (auto simp: verify_compacted_records_def cp_Inr content_def)
  have "fst s1 \<le> fst s'" using cp_doesD(1) [OF cp_does_compare run(4)] .
  then show ?thesis
    using run compare_rows_Inr [OF run(4)] unfolding read_between_def
    by (intro exI [of _ db] exI [of _ db'] conjI) (auto intro: exI [of _ "fst s"] exI [of _ "fst s + 1"])
qed

subsection \<open>The world\<close>

text \<open>
  What is assumed of the world: what a statement reads is a database in order; a file that has the same database
  identifier at two moments makes only the moves of \<open>Db_History\<close> from one to the other, SQLite's copy included once it is
  written; and a path that names the same file at two moments names no other in between.
\<close>

definition copy_world_ok :: "(file_record list \<Rightarrow> i64) \<Rightarrow> copy_world \<Rightarrow> bool" where
  "copy_world_ok alloc w \<longleftrightarrow>
     (\<forall>n i db. vw_content (w n) i = Inr db \<longrightarrow> db_ok db) \<and>
     (\<forall>l m n i db db1 db2. l \<le> m \<longrightarrow> m \<le> n \<longrightarrow> vw_content (w l) i = Inr db \<longrightarrow> vw_content (w m) i = Inr db1 \<longrightarrow>
        vw_content (w n) i = Inr db2 \<longrightarrow> ix_database_id db2 = ix_database_id db \<longrightarrow>
        (db_move alloc)\<^sup>*\<^sup>* db db1 \<and> (db_move alloc)\<^sup>*\<^sup>* db1 db2) \<and>
     (\<forall>l m n path p q r. l \<le> m \<longrightarrow> m \<le> n \<longrightarrow> vw_pin (w l) path = Inr p \<longrightarrow> vw_pin (w m) path = Inr q \<longrightarrow>
        vw_pin (w n) path = Inr r \<longrightarrow> fp_identity p = fp_identity r \<longrightarrow> fp_identity q = fp_identity p)"

lemma content_ok: "copy_world_ok alloc w \<Longrightarrow> vw_content (w n) i = Inr db \<Longrightarrow> db_ok db"
  unfolding copy_world_ok_def by (elim conjE) blast

lemma moves_between:
  assumes w: "copy_world_ok alloc w" and le: "l \<le> m" "m \<le> n"
    and at: "vw_content (w l) i = Inr db" "vw_content (w m) i = Inr db1" "vw_content (w n) i = Inr db2"
    and id: "ix_database_id db2 = ix_database_id db"
  shows "(db_move alloc)\<^sup>*\<^sup>* db db1 \<and> (db_move alloc)\<^sup>*\<^sup>* db1 db2"
proof -
  have "\<forall>l m n i db db1 db2. l \<le> m \<longrightarrow> m \<le> n \<longrightarrow> vw_content (w l) i = Inr db \<longrightarrow> vw_content (w m) i = Inr db1 \<longrightarrow>
        vw_content (w n) i = Inr db2 \<longrightarrow> ix_database_id db2 = ix_database_id db \<longrightarrow>
        (db_move alloc)\<^sup>*\<^sup>* db db1 \<and> (db_move alloc)\<^sup>*\<^sup>* db1 db2"
    using w unfolding copy_world_ok_def by (elim conjE)
  from this [rule_format, OF le at id] show ?thesis by simp
qed

lemma steady:
  "copy_world_ok alloc w \<Longrightarrow> l \<le> m \<Longrightarrow> m \<le> n \<Longrightarrow> vw_pin (w l) path = Inr p \<Longrightarrow> vw_pin (w m) path = Inr q \<Longrightarrow>
     vw_pin (w n) path = Inr r \<Longrightarrow> fp_identity p = fp_identity r \<Longrightarrow> fp_identity q = fp_identity p"
  unfolding copy_world_ok_def by blast

lemma find_by_key: "distinct (map f xs) \<Longrightarrow> x \<in> set xs \<Longrightarrow> List.find (\<lambda>y. f y = f x) xs = Some x"
  by (induction xs) (auto simp: image_iff)

lemma files_of_ids:
  assumes "ix_ok db" "ix_ok db'" and same: "row_with_id db = row_with_id db'"
  shows "ix_files db = ix_files db'"
proof -
  have "r \<in> set (ix_files d) \<longleftrightarrow> row_with_id d (fr_id r) = Some r" if "ix_ok d" for r d
  proof
    assume "r \<in> set (ix_files d)"
    then show "row_with_id d (fr_id r) = Some r"
      using that find_by_key [of fr_id "ix_files d" r] by (simp add: row_with_id_def ix_ok_def)
  qed (auto simp: row_with_id_def find_Some_iff)
  then have "set (ix_files db) = set (ix_files db')" using assms by (metis subsetI subset_antisym)
  then show ?thesis
    using assms(1,2) by (intro map_sorted_distinct_set_unique [of fr_id]) (auto simp: ix_ok_def distinct_map)
qed

text \<open>Two snapshots of a file with the same identifier and revision: so were its rows all the time between them.\<close>

lemma same_rows_between:
  assumes w: "copy_world_ok alloc w" and a: "alloc_ok alloc"
    and r: "read_between w i t0 t1 db" "read_between w i t1 t2 db1" "read_between w i t2 t3 db2"
    and pin: "control_pin_of db = control_pin_of db2"
  shows "ix_files db1 = ix_files db"
proof -
  obtain l m n where at: "vw_content (w l) i = Inr db" "vw_content (w m) i = Inr db1" "vw_content (w n) i = Inr db2"
    and le: "l \<le> m" "m \<le> n"
  proof -
    obtain l m n where "vw_content (w l) i = Inr db" "l < t1" "vw_content (w m) i = Inr db1" "t1 \<le> m" "m < t2"
        "vw_content (w n) i = Inr db2" "t2 \<le> n"
      using r unfolding read_between_def by blast
    then show ?thesis using that [of l m n] by simp
  qed
  have id: "ix_database_id db2 = ix_database_id db" "ix_revision db2 = ix_revision db" using pin by (simp_all add: control_pin_of_def)
  have ok: "db_ok db" "db_ok db1" using content_ok [OF w at(1)] content_ok [OF w at(2)] .
  have moves: "(db_move alloc)\<^sup>*\<^sup>* db db1" "(db_move alloc)\<^sup>*\<^sup>* db1 db2"
    using moves_between [OF w le at id(1)] by simp_all
  have "moved db db1" "moved db1 db2" using moves_moved [OF moves(1) a ok(1)] moves_moved [OF moves(2) a ok(2)] .
  then have "row_with_id db1 = row_with_id db" using id(2) by (simp add: moved_def)
  then show ?thesis using files_of_ids ok by (simp add: db_ok_def)
qed

lemma copy_open_Inr:
  assumes w: "copy_world_ok alloc w" and run: "copy_open w path s = (Inr conn, s')"
  shows "cn_file conn = cn_identity conn \<and>
    (\<exists>pin. vw_pin (w (fst s + 2)) path = Inr pin \<and> fp_identity pin = cn_identity conn) \<and> fst s' = fst s + 3"
proof -
  have sum: "map_sum id fp_identity x = Inr i \<longleftrightarrow> (\<exists>pin. x = Inr pin \<and> fp_identity pin = i)" for x :: "error + file_pin" and i
    by (cases x) auto
  obtain p q r where run: "vw_pin (w (fst s)) path = Inr p" "vw_pin (w (fst s + 1)) path = Inr q"
      "vw_pin (w (fst s + 2)) path = Inr r" "fp_identity r = fp_identity p"
      "conn = \<lparr>cn_file = fp_identity q, cn_identity = fp_identity r\<rparr>" "fst s' = fst s + 3"
    using run by (auto simp: copy_open_def identity_at_def cp_Inr sum eval_nat_numeral)
  have "fp_identity q = fp_identity p"
    by (rule steady [OF w _ _ run(1,2,3)]) (use run(4) in simp_all)
  then show ?thesis using run by simp
qed

lemma staged_copy_Inr:
  assumes w: "copy_world_ok alloc w" and run: "staged_copy w source staged s = (Inr (copied_file, compacted), s')"
  shows "cn_file compacted = cn_identity compacted \<and>
    (\<exists>m k pin. m \<le> k \<and> k < fst s' \<and> vw_pin (w m) staged = Inr copied_file \<and> vw_pin (w k) staged = Inr pin \<and>
       fp_identity pin = cn_identity compacted)"
proof -
  obtain s1 s2 where s1: "vw_pin (w (fst s1)) staged = Inr copied_file"
    and s2: "copy_open w staged (fst s1 + 1, snd s1) = (Inr compacted, s2)" and s': "fst s' = fst s2 + 1"
    using run by (auto simp: staged_copy_def file_pin_at_def cp_Inr)
  obtain pin where pin: "cn_file compacted = cn_identity compacted" "vw_pin (w (fst s1 + 3)) staged = Inr pin"
      "fp_identity pin = cn_identity compacted" "fst s2 = fst s1 + 4"
    using copy_open_Inr [OF w s2] by (auto simp: eval_nat_numeral)
  with s1 s' show ?thesis
    by (intro conjI exI [of _ "fst s1"] exI [of _ "fst s1 + 3"] exI [of _ pin]) simp_all
qed

lemma verified_copy_Inr:
  assumes run: "verified_copy w path source_file source before staged (copied_file, compacted) s = (Inr n, s')"
  shows "\<exists>t1 t2 cdb db db' adb cadb.
    read_between w (cn_file compacted) (fst s) t1 cdb \<and> control_pin_of cdb = before \<and>
    read_between w (cn_file source) t1 t2 db \<and> read_between w (cn_file compacted) t1 t2 db' \<and>
    ix_files db' = ix_files db \<and> n = length (ix_files db) \<and>
    read_between w (cn_file source) t2 (fst s') adb \<and> control_pin_of adb = before \<and>
    read_between w (cn_file compacted) t2 (fst s') cadb \<and> control_pin_of cadb = before \<and> fst s \<le> t1 \<and> t1 \<le> t2 \<and> t2 \<le> fst s' \<and>
    (\<exists>l. fst s \<le> l \<and> l < fst s' \<and> vw_pin (w l) staged = Inr copied_file)"
proof -
  obtain copied s1 s2 after s3 copied_after s4 where
      c1: "compact_control_pin w compacted s = (Inr copied, s1)"
    and v: "verify_compacted_records w source compacted s1 = (Inr n, s2)"
    and c2: "compact_control_pin w source s2 = (Inr after, s3)"
    and c3: "compact_control_pin w compacted s3 = (Inr copied_after, s4)"
    and eq: "before = after" "copied = before" "copied_after = before"
    and p: "vw_pin (w (fst s4 + 1)) staged = Inr copied_file" and s': "fst s' = fst s4 + 3"
    using run by (auto simp: verified_copy_def file_pin_at_def cp_Inr)
  have t: "fst s \<le> fst s1" "fst s1 \<le> fst s2" "fst s2 \<le> fst s3" "fst s3 \<le> fst s4"
    using cp_doesD(1) [OF cp_does_control c1] cp_doesD(1) [OF cp_does_verify v]
      cp_doesD(1) [OF cp_does_control c2] cp_doesD(1) [OF cp_does_control c3] by simp_all
  obtain cdb where cdb: "read_between w (cn_file compacted) (fst s) (fst s1) cdb" "copied = control_pin_of cdb"
    using control_pin_Inr [OF c1] by blast
  obtain adb where adb: "read_between w (cn_file source) (fst s2) (fst s3) adb" "after = control_pin_of adb"
    using control_pin_Inr [OF c2] by blast
  obtain cadb where cadb: "read_between w (cn_file compacted) (fst s3) (fst s4) cadb" "copied_after = control_pin_of cadb"
    using control_pin_Inr [OF c3] by blast
  obtain db db' where db: "read_between w (cn_file source) (fst s1) (fst s2) db" "read_between w (cn_file compacted) (fst s1) (fst s2) db'"
      "ix_files db' = ix_files db" "n = length (ix_files db)"
    using verify_Inr [OF v] by blast
  have late: "read_between w (cn_file source) (fst s2) (fst s') adb" "read_between w (cn_file compacted) (fst s2) (fst s') cadb"
    using adb(1) cadb(1) t s' by (auto elim!: read_between_mono)
  have "\<exists>l. fst s \<le> l \<and> l < fst s' \<and> vw_pin (w l) staged = Inr copied_file"
    using p t s' by (intro exI [of _ "fst s4 + 1"]) simp
  moreover have "control_pin_of cdb = before" "control_pin_of adb = before" "control_pin_of cadb = before" "fst s2 \<le> fst s'"
    using cdb(2) adb(2) cadb(2) eq t s' by simp_all
  ultimately show ?thesis using cdb(1) db late t(1,2) by blast
qed

subsection \<open>The copy is faithful\<close>

text \<open>The effects inside a private directory.\<close>

definition private_effect :: "str \<Rightarrow> effect \<Rightarrow> bool" where
  "private_effect dir e \<longleftrightarrow>
     e \<in> {MakeDir dir, VacuumInto (path_join dir ''index.sqlite''), SetPrivate (path_join dir ''index.sqlite''),
          SyncFile (path_join dir ''index.sqlite''), RemoveDir dir}"

definition copy_effect :: "str \<Rightarrow> str \<Rightarrow> effect \<Rightarrow> bool" where
  "copy_effect out dir e \<longleftrightarrow> private_effect dir e \<or> e = HardLink (path_join dir ''index.sqlite'') out"

lemma cp_does_staged: "cp_does (private_effect dir) (staged_copy w source (path_join dir ''index.sqlite''))"
  unfolding staged_copy_def by (intro copy_rules) (simp_all add: private_effect_def)

lemma cp_does_verified: "cp_does E (verified_copy w path source_file source before staged copy)"
  unfolding verified_copy_def by (cases copy) (simp, intro copy_rules)

lemma cp_does_published:
  "cp_does (copy_effect out dir) (published_copy w dir (path_join dir ''index.sqlite'') out copied_file)"
  unfolding published_copy_def by (intro copy_rules) (simp_all add: copy_effect_def private_effect_def)

lemma cp_does_into: "cp_does (copy_effect out dir) (copy_into w path source_file source out dir)"
proof -
  have staged: "cp_does (copy_effect out dir) (staged_copy w source (path_join dir ''index.sqlite''))"
    by (rule cp_does_weaken [OF cp_does_staged]) (simp add: copy_effect_def)
  show ?thesis
    unfolding copy_into_def Let_def by (intro copy_rules staged cp_does_verified cp_does_published)
qed

lemma make_staging_does:
  "cp_does (\<lambda>e. \<exists>k. e = MakeDir (path_join parent (name k))) (make_staging w name parent serial tries)"
proof (induction tries arbitrary: serial)
  case (Suc tries)
  have split: "make_staging w name parent serial (Suc tries) =
      (\<lambda>s. case effect_at w (MakeDir (path_join parent (name serial))) s of
        (Inr _, s') \<Rightarrow> cp_return (path_join parent (name serial)) s'
      | (Inl e, s') \<Rightarrow> (if e = already_exists then make_staging w name parent (serial + 1) tries else cp_fail e) s')"
    by (intro ext) (simp split: prod.split sum.split)
  have "cp_does (\<lambda>e. \<exists>k. e = MakeDir (path_join parent (name k)))
      (if e = already_exists then make_staging w name parent (serial + 1) tries else cp_fail e)" for e
    using Suc [of "serial + 1"] by (simp add: copy_rules)
  then show ?case unfolding split by (intro cp_does_case cp_does_effect cp_does_basic) blast+
qed (simp add: copy_rules)

lemma make_staging_Inr:
  "make_staging w name parent serial tries s = (Inr dir, s') \<Longrightarrow> \<exists>k. dir = path_join parent (name k)"
  by (induction tries arbitrary: serial s) (auto simp: cp_return_def cp_fail_def split: prod.split_asm sum.split_asm if_split_asm)

text \<open>What was done before an effect that only a later part can have.\<close>

lemma cp_reached:
  assumes "cp_does E m" and run: "cp_bind m f s = (r, s')" and e: "e \<in> set (snd s')" "e \<notin> set (snd s)" "\<not> E e"
  shows "\<exists>x s1. m s = (Inr x, s1) \<and> f x s1 = (r, s') \<and> e \<notin> set (snd s1)"
proof -
  obtain q s1 where q: "m s = (q, s1)" by (cases "m s")
  obtain es where "snd s1 = snd s @ es" "list_all E es" using cp_doesD(2) [OF assms(1) q] by blast
  then have "e \<notin> set (snd s1)" using e by (auto simp: list_all_iff)
  then show ?thesis using run q e(1) by (cases q) (auto simp: cp_bind_def)
qed

definition faithful_copy :: "copy_world \<Rightarrow> identity \<Rightarrow> identity \<Rightarrow> nat \<Rightarrow> nat \<Rightarrow> bool" where
  "faithful_copy w source copy n records \<longleftrightarrow>
     (\<exists>db db'. read_between w source 0 n db \<and> read_between w copy 0 n db' \<and>
        ix_files db' = ix_files db \<and> control_pin_of db' = control_pin_of db \<and> records = length (ix_files db))"

lemma faithful_copy_later: "faithful_copy w i j n records \<Longrightarrow> n \<le> n' \<Longrightarrow> faithful_copy w i j n' records"
  unfolding faithful_copy_def using read_between_mono [OF _ le_refl] by blast

lemma verified_is_faithful:
  assumes w: "copy_world_ok alloc w" and a: "alloc_ok alloc"
    and before: "compact_control_pin w source s = (Inr before, s1)"
    and staged: "staged_copy w source staged s1 = (Inr (copied_file, compacted), s2)"
    and verified: "verified_copy w path source_file source before staged (copied_file, compacted) s2 = (Inr records, s3)"
  shows "faithful_copy w (cn_file source) (fp_identity copied_file) (fst s3) records"
proof -
  have t: "fst s1 \<le> fst s2" "fst s \<le> fst s1"
  proof -
    have "cp_does (\<lambda>_. True) (staged_copy w source staged)" unfolding staged_copy_def by (intro copy_rules) simp_all
    from cp_doesD(1) [OF this staged] show "fst s1 \<le> fst s2" .
  qed (rule cp_doesD(1) [OF cp_does_control before])
  obtain sdb where sdb: "read_between w (cn_file source) (fst s) (fst s1) sdb" "before = control_pin_of sdb"
    using control_pin_Inr [OF before] by blast
  obtain t1 t2 cdb db db' adb cadb l where v: "read_between w (cn_file compacted) (fst s2) t1 cdb" "control_pin_of cdb = before"
      "read_between w (cn_file source) t1 t2 db" "read_between w (cn_file compacted) t1 t2 db'"
      "ix_files db' = ix_files db" "records = length (ix_files db)"
      "read_between w (cn_file source) t2 (fst s3) adb" "control_pin_of adb = before"
      "read_between w (cn_file compacted) t2 (fst s3) cadb" "control_pin_of cadb = before"
      "fst s2 \<le> t1" "t1 \<le> t2" "t2 \<le> fst s3" "fst s2 \<le> l" "vw_pin (w l) staged = Inr copied_file"
    using verified_copy_Inr [OF verified] by blast
  obtain m k pin where c: "cn_file compacted = cn_identity compacted" "m \<le> k" "k < fst s2" "vw_pin (w m) staged = Inr copied_file"
      "vw_pin (w k) staged = Inr pin" "fp_identity pin = cn_identity compacted"
    using staged_copy_Inr [OF w staged] by blast
  have "fp_identity pin = fp_identity copied_file"
    by (rule steady [OF w c(2) _ c(4,5) v(15)]) (use c(3) v(14) in simp_all)
  then have same_file: "cn_file compacted = fp_identity copied_file" using c by simp
  have "read_between w (cn_file source) (fst s) t1 sdb" using sdb(1) t v(11) by (auto elim!: read_between_mono)
  then have source: "ix_files db = ix_files sdb"
    using same_rows_between [OF w a _ v(3,7)] sdb(2) v(8) by simp
  have copy: "ix_files db' = ix_files cdb" using same_rows_between [OF w a v(1,4,9)] v(2,10) by simp
  have "read_between w (cn_file source) 0 (fst s3) sdb" "read_between w (fp_identity copied_file) 0 (fst s3) cdb"
    using sdb(1) v(1) t v(11-13) by (auto elim!: read_between_mono simp: same_file)
  then show ?thesis
    unfolding faithful_copy_def using source copy v(2,5,6) sdb(2) by (intro exI [of _ sdb] exI [of _ cdb]) simp
qed

lemma copy_preflight_Inr:
  assumes "copy_preflight w idle path identity output s = (Inr (out, dir, source_file), s')"
  shows "(\<exists>m. vw_entry (w m) out = Inl not_found) \<and> fp_identity source_file = identity"
proof -
  have absent: "require_absent w p e s = (Inr u, s') \<Longrightarrow> \<exists>m. vw_entry (w m) p = Inl not_found" for p e s u s'
    by (auto simp: require_absent_def cp_Inr split: sum.split_asm if_split_asm)
  from assms show ?thesis
    unfolding copy_preflight_def Let_def
    by (cases "file_name output") (auto simp: cp_Inr dest: absent)
qed

lemma copy_source_Inr:
  "copy_world_ok alloc w \<Longrightarrow> copy_source w path identity s = (Inr source, s') \<Longrightarrow> cn_file source = identity"
  by (auto simp: copy_source_def cp_Inr dest: copy_open_Inr)

text \<open>A name that was given was given after the comparison.\<close>

lemma copy_into_links:
  assumes w: "copy_world_ok alloc w" and a: "alloc_ok alloc"
    and run: "copy_into w path source_file source out dir s = (r, s')"
    and link: "HardLink x y \<in> set (snd s')" "HardLink x y \<notin> set (snd s)"
  shows "\<exists>pin records m. vw_pin (w m) x = Inr pin \<and> faithful_copy w (cn_file source) (fp_identity pin) (fst s') records \<and>
    (\<forall>k. r = Inr k \<longrightarrow> k = records \<and> (\<exists>m. vw_pin (w m) y = Inr pin))"
proof -
  let ?staged = "path_join dir ''index.sqlite''"
  have run: "cp_bind (cp_guard (utf8_valid ?staged) (Cli ''compacted staging path must be UTF-8'')) (\<lambda>_.
       cp_bind (compact_control_pin w source) (\<lambda>before.
       cp_bind (staged_copy w source ?staged) (\<lambda>copy.
       cp_bind (verified_copy w path source_file source before ?staged copy) (\<lambda>records.
       cp_bind (published_copy w dir ?staged out (fst copy)) (\<lambda>_. cp_return records))))) s = (r, s')"
    using run by (simp add: copy_into_def Let_def)
  have none: "cp_does (\<lambda>_. False) (cp_guard b e)" "cp_does (\<lambda>_. False) (compact_control_pin w conn)" for b e conn
    by (intro copy_rules)+
  obtain s0 where r0: "cp_bind (compact_control_pin w source) (\<lambda>before.
       cp_bind (staged_copy w source ?staged) (\<lambda>copy.
       cp_bind (verified_copy w path source_file source before ?staged copy) (\<lambda>records.
       cp_bind (published_copy w dir ?staged out (fst copy)) (\<lambda>_. cp_return records)))) s0 = (r, s')"
      and l0: "HardLink x y \<notin> set (snd s0)"
    using cp_reached [OF none(1) run link] by blast
  obtain before s1 where before: "compact_control_pin w source s0 = (Inr before, s1)"
      and r1: "cp_bind (staged_copy w source ?staged) (\<lambda>copy.
       cp_bind (verified_copy w path source_file source before ?staged copy) (\<lambda>records.
       cp_bind (published_copy w dir ?staged out (fst copy)) (\<lambda>_. cp_return records))) s1 = (r, s')"
      and l1: "HardLink x y \<notin> set (snd s1)"
    using cp_reached [OF none(2) r0 link(1) l0] by blast
  obtain copied_file compacted s2 where staged: "staged_copy w source ?staged s1 = (Inr (copied_file, compacted), s2)"
      and r2: "cp_bind (verified_copy w path source_file source before ?staged (copied_file, compacted)) (\<lambda>records.
       cp_bind (published_copy w dir ?staged out copied_file) (\<lambda>_. cp_return records)) s2 = (r, s')"
      and l2: "HardLink x y \<notin> set (snd s2)"
    using cp_reached [OF cp_does_staged r1 link(1) l1] by (auto simp: private_effect_def)
  obtain records s3 where verified: "verified_copy w path source_file source before ?staged (copied_file, compacted) s2 = (Inr records, s3)"
      and r3: "cp_bind (published_copy w dir ?staged out copied_file) (\<lambda>_. cp_return records) s3 = (r, s')"
      and l3: "HardLink x y \<notin> set (snd s3)"
    using cp_reached [OF cp_does_verified r2 link(1) l2, of "\<lambda>_. False"] by blast
  have "cp_does (\<lambda>e. e = RemoveDir dir \<or> e = HardLink ?staged out)
      (cp_bind (published_copy w dir ?staged out copied_file) (\<lambda>_. cp_return records))"
    unfolding published_copy_def by (intro copy_rules) simp_all
  from cp_doesD [OF this r3] link(1) l3
  have xy: "x = ?staged" "y = out" and le: "fst s3 \<le> fst s'" by (auto simp: list_all_iff)
  have good: "faithful_copy w (cn_file source) (fp_identity copied_file) (fst s') records"
    using faithful_copy_later [OF verified_is_faithful [OF w a before staged verified] le] .
  obtain l where l: "vw_pin (w l) ?staged = Inr copied_file" using verified_copy_Inr [OF verified] by blast
  have "k = records \<and> (\<exists>m. vw_pin (w m) out = Inr copied_file)" if "r = Inr k" for k
    using r3 that by (auto simp: published_copy_def file_pin_at_def cp_Inr)
  then show ?thesis using l good xy by blast
qed

text \<open>Success means that the name was given.\<close>

lemma copy_into_success:
  assumes "copy_into w path source_file source out dir s = (Inr k, s')"
  shows "HardLink (path_join dir ''index.sqlite'') out \<in> set (snd s')"
proof -
  obtain c s3 u where p: "published_copy w dir (path_join dir ''index.sqlite'') out c s3 = (Inr u, s')"
    using assms by (auto simp: copy_into_def Let_def cp_Inr)
  then show ?thesis by (auto simp: published_copy_def cp_Inr file_pin_at_def)
qed

text \<open>A part that only looks has no effect.\<close>

lemma looks_only: "cp_does (\<lambda>_. False) m \<Longrightarrow> m s = (r, s') \<Longrightarrow> snd s' = snd s"
  using cp_doesD(2) [of "\<lambda>_. False" m s r s'] by (auto simp: list_all_iff)

text \<open>What the routine does once its preparations are done.\<close>

lemma write_compacted_copy_cases:
  assumes w: "copy_world_ok alloc w"
    and run: "write_compacted_copy w idle name serial path identity output (n0, []) = (r, n, es)"
  obtains (early) e parent where "r = Inl e" "\<forall>e \<in> set es. \<exists>k. e = MakeDir (path_join parent (name k))"
  | (copied) source_file source parent out k m s1 q where "vw_entry (w m) out = Inl not_found" "cn_file source = identity"
      "\<forall>e \<in> set (snd s1). \<exists>k. e = MakeDir (path_join parent (name k))"
      "copy_into w path source_file source out (path_join parent (name k)) s1 = (q, n, es)" "\<forall>j. r = Inr j \<longrightarrow> q = Inr j"
proof -
  obtain q0 sa where pre: "copy_preflight w idle path identity output (n0, []) = (q0, sa)"
    by (cases "copy_preflight w idle path identity output (n0, [])")
  have sa: "snd sa = []" using looks_only [OF cp_does_preflight pre] by simp
  show thesis
  proof (cases q0)
    case (Inl e)
    then show thesis using early [of e "[]"] run pre sa by (auto simp: write_compacted_copy_def cp_bind_def)
  next
    case (Inr x)
    obtain out dir source_file where x: "x = (out, dir, source_file)" by (cases x)
    obtain m where m: "vw_entry (w m) out = Inl not_found" using copy_preflight_Inr pre Inr x by blast
    obtain q1 sb where src: "copy_source w path identity sa = (q1, sb)" by (cases "copy_source w path identity sa")
    have sb: "snd sb = []" using looks_only [OF cp_does_source src] sa by simp
    show thesis
    proof (cases q1)
      case (Inl e)
      then show thesis using early [of e "[]"] run pre Inr x src sb by (auto simp: write_compacted_copy_def cp_bind_def)
    next
      case source: (Inr source)
      have src_file: "cn_file source = identity" using copy_source_Inr [OF w] src source by blast
      show thesis
      proof (cases "path_parent out")
        case None
        then show thesis
          using early [of _ "[]"] run pre Inr x src sb source by (auto simp: write_compacted_copy_def cp_bind_def cp_fail_def)
      next
        case (Some parent)
        obtain q2 s1 where mk: "make_staging w name parent serial 32 sb = (q2, s1)" by (cases "make_staging w name parent serial 32 sb")
        have made: "\<forall>e \<in> set (snd s1). \<exists>k. e = MakeDir (path_join parent (name k))"
          using cp_doesD(2) [OF make_staging_does mk] sb by (auto simp: list_all_iff)
        have rest_run: "(case q2 of Inl e \<Rightarrow> (Inl e, s1) | Inr staging \<Rightarrow>
            (case copy_into w path source_file source out staging s1 of
               (Inl e, s') \<Rightarrow> (Inl (copy_failed staging e), s') | (Inr records, s') \<Rightarrow> (Inr records, s'))) = (r, n, es)"
          using run pre Inr x src source Some mk by (simp add: write_compacted_copy_def cp_bind_def del: make_staging.simps)
        show thesis
        proof (cases q2)
          case (Inl e)
          then show thesis using early [of e parent] rest_run made by auto
        next
          case staging: (Inr staging)
          obtain k where k: "staging = path_join parent (name k)" using make_staging_Inr mk staging by blast
          obtain q s2 where into: "copy_into w path source_file source out staging s1 = (q, s2)"
            by (cases "copy_into w path source_file source out staging s1")
          have s2: "s2 = (n, es)" using rest_run staging into by (cases q) simp_all
          have same: "\<forall>j. r = Inr j \<longrightarrow> q = Inr j" using rest_run staging into by (cases q) auto
          show thesis by (rule copied [OF m src_file made into [unfolded k s2] same])
        qed
      qed
    qed
  qed
qed


text \<open>An example: a database with one row, in a directory where nobody else writes.\<close>

definition example_copy_db :: index_db where
  "example_copy_db = empty_db\<lparr>ix_files := [(file_record_new id ''/r/a'' File 0)\<lparr>fr_id := 1\<rparr>], ix_meta := [(''k'', ''v'')]\<rparr>"

definition example_pin :: "nat \<Rightarrow> file_pin" where
  "example_pin i = \<lparr>fp_identity = (1, i), fp_bytes = 9, fp_mtime = 5, fp_mtime_nsec = 0\<rparr>"

definition example_staged :: str where
  "example_staged = ''/db/.macevery-compact-7-0-0/index.sqlite''"

definition example_copy_world :: copy_world where
  "example_copy_world = (\<lambda>_.
     \<lparr>vw_pin = (\<lambda>p. if p = ''/db/index.sqlite'' then Inr (example_pin 1)
        else if p = example_staged \<or> p = ''/db/copy.sqlite'' then Inr (example_pin 2) else Inl not_found),
      vw_entry = (\<lambda>_. Inl not_found), vw_canonical = Inr, vw_content = (\<lambda>_. Inr example_copy_db),
      vw_quick_check = (\<lambda>_. Inr True), vw_done = Inr ()\<rparr>)"

lemma example_copy_world_ok: "copy_world_ok alloc example_copy_world"
proof -
  have "db_ok example_copy_db" by (simp add: db_ok_def ix_ok_def journal_ok_def example_copy_db_def empty_db_def)
  then show ?thesis by (auto simp: copy_world_ok_def example_copy_world_def split: if_split_asm)
qed


end
