(* ===== verification/Spec2Isabelle.thy ===== *)
theory Spec2Isabelle
  imports Requests Watcher Watch_Log Row_Types Command_Line Compact_Copy
begin

text \<open>
  Verification of a desktop file search program, a Rust crate under \<open>src/src\<close>.

  \<^bold>\<open>The program.\<close> A scanner walks the file trees of the configured roots and writes one row for each path into
  an SQLite database. Triggers in the database keep a bounded journal of the rows that changed. A
  file watcher turns the events of the operating system into scans of the paths they name, and
  stores a checkpoint, so that the system can replay what happened while the watcher was not
  running. A search service loads the rows into a packed index in memory, or searches the
  database in place; before it answers it checks whether the database has changed and catches up,
  from the journal when that reaches far enough, else by comparing with a snapshot or by a fresh
  load. A search is the same ranking everywhere: a query text is parsed into filters and terms, each record
  gets a score or none, and the best results are returned in an order that is total. The command
  line indexes, searches and opens without the service.

  \<^bold>\<open>The theories\<close>, in the order of their dependence.

  \<^item> \<open>Prelude\<close>, \<open>Rust_Text\<close>, \<open>Rust_Path\<close>, \<open>Rust_Order\<close>, \<open>Rust_Vec\<close>, \<open>Rust_Lossy\<close>: the standard library as
    far as the source uses it. A \<open>str\<close> is its bytes, \<open>utf8_valid\<close> says that they are
    UTF-8; a path is its bytes and its components; comparators return the three-valued ordering of Rust, and sorting is
    stable; vectors are lists with their capacity where memory is counted; machine integers are
    words where their bits matter (the substring filter, the flags of events) and integers with written-out wrap-around,
    saturation and ranges elsewhere. The locale \<open>key_cmp\<close> says that a comparator is the order of a key; it
    is interpreted for every comparator of the searches.
  \<^item> \<open>Model\<close> (\<open>model.rs\<close>): records, search options, the tokenizer, inline filters, normalization.
    \<open>Short_Finder\<close>, \<open>Finder\<close>, \<open>Glob\<close>, \<open>Query\<close>, \<open>Reference\<close>, \<open>Top_Hits\<close> (\<open>search.rs\<close>): substring search with eight bytes
    of a word at a time, Horspool and Knuth-Morris-Pratt; wildcards; prepared queries; the reference search that
    the source keeps for its tests; the bounded search over records. What they show: every optimised
    routine returns what its plain counterpart returns, loops end, and no index is out of range.
  \<^item> \<open>Sqlite_Rows\<close>, \<open>Sqlite_Search\<close> (\<open>search.rs\<close>, \<open>db.rs\<close>, \<open>sqlite.rs\<close>): the statements of a search and its passes with their
    early exits, equal to scoring and sorting all rows, whatever order SQLite visits them in.
  \<^item> \<open>Seen_Ids\<close>, \<open>Index_Db\<close>, \<open>Change_Journal\<close>, \<open>Db_History\<close>, \<open>Db_Access\<close>, \<open>Db_Status\<close> (\<open>db.rs\<close>): the table of files with its triggers, upserts and
    deletions, the journal and how it is read, the life of a database file over several processes. What they show: the
    set of seen ids is a set with a limit (the locale \<open>bounded_set\<close>); the
    rows keep unique ids and paths and rising revisions (\<open>ix_ok\<close>), clean-up deletes exactly what was not
    seen, and the changes read from the journal turn the old rows into the current ones.
  \<^item> \<open>Packed_Metadata\<close>, \<open>Prefix_Pool\<close>, \<open>Packed_Row\<close>, \<open>Compact_Index\<close>, then \<open>Compact_Rows\<close>, \<open>Compact_Correct\<close>, \<open>Compact_Delta\<close>, \<open>Packed_Contents\<close>,
    \<open>Packed_Delta\<close>, \<open>Snapshot_Diff\<close>, \<open>Packed_Search\<close> (\<open>compact_index.rs\<close>): the packed index. The
    first group is the code; the second relates it to a list of rows (\<open>index_rows_are\<close>): a load, a batch of changes, a
    comparison with a snapshot and a search have the effect and the result of the same operation on that list.
  \<^item> \<open>Scanner\<close>, \<open>Scan_Correct\<close>, \<open>Scan_Keeps\<close>, \<open>Row_Types\<close> (\<open>scanner.rs\<close>): the walk, its limits and warnings, the three
    operations with their fallback. A complete refresh makes the rows the mirror of the tree, an incomplete one
    deletes nothing, a failed one changes nothing. The locale \<open>scan_keeps\<close> is what any relation needs to
    be kept by all scans; it is interpreted for the stored checkpoint (\<open>Watch_Db\<close>) and for the types
    of the rows (\<open>Row_Types\<close>).
  \<^item> \<open>Json\<close>, \<open>Http\<close>, \<open>Slots\<close>, \<open>Serve_Memory\<close>, \<open>Service\<close>, \<open>Service_Correct\<close>, \<open>Requests\<close> (\<open>server.rs\<close>, \<open>serve_memory.rs\<close>, \<open>error.rs\<close>): reading a
    request, the token, the choice of a backend, the limits on concurrency, the published index with its
    stamp and how it catches up, and a request from its bytes to its response. The published index always holds
    the rows of one snapshot that was committed, and after a successful check one that is not older than the request.
  \<^item> \<open>Watch_Work\<close>, \<open>Watch_Cover\<close>, \<open>Watch_Safe\<close>, \<open>Watch_Turn\<close>, \<open>Watch_Db\<close>, \<open>Watcher\<close>, \<open>Watch_Log\<close> (\<open>watch.rs\<close>): the watcher. \<open>Watch_Work\<close> is the
    code; \<open>Watch_Cover\<close> says which paths a plan still owes a scan; \<open>Watch_Safe\<close> is the state machine of
    deliveries and turns, under the contract \<open>watch_world\<close> of what the worker calls; \<open>Watch_Db\<close> interprets the
    contract on the scanner and the database; \<open>Watcher\<close> holds the properties. The machine takes events of
    any path, flags and id: that no change is forgotten and that a complete turn scans everything rests on
    nothing about ids (\<open>owed_inv\<close>). That the checkpoint replays what is unscanned rests on rising ids, and
    holds for the events that have one (\<open>replay_inv\<close>, \<open>wt_orderly\<close>, \<open>unnumbered\<close>). \<open>Watch_Log\<close> holds the
    batches, the exclusions handed to the system and the diagnostics.
  \<^item> \<open>Command_Line\<close> (\<open>cli.rs\<close>, \<open>config.rs\<close>, \<open>macos.rs\<close>): arguments, defaults, outputs.
  \<^item> \<open>Compact_Copy\<close> (\<open>db.rs\<close>): the compacted copy, as looks at a changing world and a list of effects. It gives the name
    asked for only to a file it has compared with the source.

  \<^bold>\<open>What is a parameter.\<close> The file tree (\<open>fs_view\<close>: the metadata of a path and the entries of a directory, which may be different
  for every scan); the id SQLite gives a new row (\<open>alloc_ok\<close>: fresh, as documented); the order in which it visits
  rows; the lower case of a character beyond ASCII (\<open>lowercase_ok\<close>: it keeps UTF-8 and wildcards); the clock; the growth of vectors and
  whether memory is granted (\<open>memory_ok\<close> and its like); the hash of the prefix pool; what other processes do to the database file
  between two reads (\<open>world_ok\<close>); whether a commit succeeds. That stored rows are older than the generation of a scan
  (\<open>older_rows\<close>: generations are wall-clock times) is assumed where a scan tells stale rows by generations: indexing without a
  rebuild, and the fallback of a refresh. Every property that assumes one of these
  has a witness with a concrete function.

  \<^bold>\<open>Bounds and fuel.\<close> Loops are recursive functions with a measure where one exists: the pages of the clean-up descend
  by the ids that are left, the walk by the depth, at most 256, and the entries of a
  directory, the matchers by positions. Where only an invariant of the data bounds a loop (probing the
  prefix pool, comparing paths in two pieces, the failure links of the finder) it is a partial function into options:
  \<open>None\<close> is a loop that does not end or an index out of range, and the correctness theorems show that the result is
  \<open>Some\<close>. No fuel is used. The limits of the code are kept at their values: 16384 revisions in the journal, of which a
  reader takes at most 4096, 4096 bits in a page of
  seen ids, 16384 paths and 4 MiB in the inbox and in the plan of the worker, 120 trigger records in a
  minute, 256 KiB in a log file.

  \<^bold>\<open>Concurrency.\<close> A request holds the lock of the service while it catches up or searches, and the lock of the inbox is
  held for one push or one take, so an interleaving is a sequence of these operations; between them the world
  changes the database at will. A turn of the worker of the watcher is one step of the machine: deliveries that arrive
  meanwhile only touch the inbox, which the turn does not read after it took its batch. The counters of slots are
  modelled instruction by instruction, because they are not under a lock.

  \<^bold>\<open>Not modelled.\<close> The binding to the C interface of SQLite (\<open>sqlite.rs\<close>), opening and the texts of its schema,
  and the candidate queries with \<open>LIKE\<close> that no search calls: what these texts mean is SQLite's.
  The calls of FSEvents and CoreFoundation, the run loop and the guards of their objects; samples of the memory of the
  process; the benchmark, whose results are timings in floating point; the polling of the parent
  process; the Swift application and the tools, which are not part of the crate; the tests, except the reference search.
\<close>

end
